(* ===== verification/Prelude.thy ===== *)
theory Prelude
  imports Main "HOL-Library.Word" "HOL-Library.Multiset" "HOL-Library.Monad_Syntax"
begin

text \<open>
  Shared vocabulary of the development.

  The kernel is C for a 32-bit x86 machine.  A function that may stop the machine (a failed
  \<^verbatim>\<open>ASSERT\<close>, a \<^verbatim>\<open>PANIC\<close>, a read through a null pointer) or may run forever
  returns an \<open>option\<close>: \<open>None\<close> means that control never comes back to the caller, \<open>Some r\<close>
  that the function returned \<open>r\<close>.  Functions are written in the \<open>option\<close> monad with the
  state passed explicitly.

  The theory holds the machine types, the assertion, C's signed arithmetic, and the generic
  facts on lists, sorting and words that several components use.
\<close>

section \<open>Machine types\<close>

type_synonym u8 = "8 word"
type_synonym u16 = "16 word"
type_synonym u32 = "32 word"
type_synonym u64 = "64 word"

section \<open>Assertions\<close>

text \<open>\<^verbatim>\<open>ASSERT (CONDITION)\<close> of \<^verbatim>\<open>lib/debug.h\<close>: panics when the condition is false.\<close>

definition ASSERT :: "bool \<Rightarrow> unit option" where
  "ASSERT b = (if b then Some () else None)"

named_theorems monad_simps \<open>unfolding the option monad and assertions\<close>

lemma ASSERT_simps [simp]: "ASSERT True = Some ()" "ASSERT False = None"
  by (simp_all add: ASSERT_def)

lemma ASSERT_bind [monad_simps]: "(ASSERT b \<bind> f) = (if b then f () else None)"
  by (simp add: ASSERT_def)

lemma ASSERT_eq_Some [monad_simps]: "(ASSERT b = Some u) = b"
  by (cases u) (simp add: ASSERT_def)

lemma ASSERT_True: "b \<Longrightarrow> ASSERT b = Some ()"
  by (simp add: ASSERT_def)

lemma bind_SomeI: "m = Some x \<Longrightarrow> f x = r \<Longrightarrow> (m \<bind> f) = r"
  by simp

lemma bind_SomeE:
  assumes "(m \<bind> f) = Some r"
  obtains x where "m = Some x" and "f x = Some r"
  using assms by (cases m) auto

declare Option.bind_eq_Some_conv [monad_simps]

section \<open>C signed integers\<close>

text \<open>
  \<open>int\<close> of the source is a 32-bit two's complement number, \<open>int64_t\<close> a 64-bit one.  The model
  keeps the mathematical value and reduces it after each operation; \<open>s32\<close> and \<open>s64\<close> are the
  reductions, \<open>cdiv\<close> is C's division, which truncates towards zero.
\<close>

definition s32 :: "int \<Rightarrow> int" where
  "s32 x = (x + 2 ^ 31) mod 2 ^ 32 - 2 ^ 31"

definition s64 :: "int \<Rightarrow> int" where
  "s64 x = (x + 2 ^ 63) mod 2 ^ 64 - 2 ^ 63"

definition cdiv :: "int \<Rightarrow> int \<Rightarrow> int" where
  "cdiv a b = (if (a < 0) = (b < 0) then \<bar>a\<bar> div \<bar>b\<bar> else - (\<bar>a\<bar> div \<bar>b\<bar>))"

named_theorems cint_simps \<open>ranges in which a C integer operation does not wrap\<close>

lemma s32_id [cint_simps]: "- (2 ^ 31) \<le> x \<Longrightarrow> x < 2 ^ 31 \<Longrightarrow> s32 x = x"
  by (simp add: s32_def)

lemma s64_id [cint_simps]: "- (2 ^ 63) \<le> x \<Longrightarrow> x < 2 ^ 63 \<Longrightarrow> s64 x = x"
  by (simp add: s64_def)

lemma s32_range: "- (2 ^ 31) \<le> s32 x" "s32 x < 2 ^ 31"
  by (simp_all add: s32_def)

lemma s64_range: "- (2 ^ 63) \<le> s64 x" "s64 x < 2 ^ 63"
  by (simp_all add: s64_def)

lemma cdiv_nonneg: "0 \<le> a \<Longrightarrow> 0 < b \<Longrightarrow> cdiv a b = a div b"
  by (simp add: cdiv_def)

lemma cdiv_neg: "a < 0 \<Longrightarrow> 0 < b \<Longrightarrow> cdiv a b = - ((- a) div b)"
  by (simp add: cdiv_def)

lemma cdiv_bounds:
  assumes "0 < b"
  shows "\<bar>cdiv a b\<bar> \<le> \<bar>a\<bar>"
proof -
  have "0 \<le> \<bar>a\<bar> div b" using assms by (simp add: pos_imp_zdiv_nonneg_iff)
  moreover have "\<bar>a\<bar> div b \<le> \<bar>a\<bar>" using assms zdiv_mono2 [of "\<bar>a\<bar>" 1 b] by simp
  ultimately show ?thesis using assms by (cases "a < 0") (simp_all add: cdiv_def)
qed

lemma cdiv_mono: "0 < b \<Longrightarrow> a \<le> a' \<Longrightarrow> cdiv a b \<le> cdiv a' b"
  by (auto simp: cdiv_def intro: zdiv_mono1 order_trans[of _ 0]
           simp: pos_imp_zdiv_nonneg_iff)

section \<open>Lists\<close>

lemma last_snocD: "xs \<noteq> [] \<Longrightarrow> \<exists>ys y. xs = ys @ [y]"
  by (cases xs rule: rev_cases) auto

text \<open>\<open>overlay p xs ys\<close> writes \<open>xs\<close> over \<open>ys\<close> from position \<open>p\<close> on.\<close>

definition overlay :: "nat \<Rightarrow> 'a list \<Rightarrow> 'a list \<Rightarrow> 'a list" where
  "overlay p xs ys = take p ys @ xs @ drop (p + length xs) ys"

lemma length_overlay [simp]: "p + length xs \<le> length ys \<Longrightarrow> length (overlay p xs ys) = length ys"
  by (simp add: overlay_def)

lemma overlay_Nil [simp]: "overlay p [] ys = ys"
  by (simp add: overlay_def)

lemma nth_overlay:
  "p + length xs \<le> length ys \<Longrightarrow> q < length ys \<Longrightarrow>
     overlay p xs ys ! q = (if p \<le> q \<and> q < p + length xs then xs ! (q - p) else ys ! q)"
  by (auto simp: overlay_def nth_append min_def)

lemma take_drop_overlay: "p + length xs \<le> length ys \<Longrightarrow> take (length xs) (drop p (overlay p xs ys)) = xs"
  by (simp add: overlay_def)

lemma sint_small: "unat w < 2 ^ 31 \<Longrightarrow> sint (w :: u32) = int (unat w)"
proof -
  assume "unat w < 2 ^ 31"
  then have "int (unat w) < 2 ^ 31" by (simp flip: of_nat_less_iff [where ?'a = int])
  then show "sint w = int (unat w)" unfolding sint_uint uint_nat by (intro signed_take_bit_int_eq_self) (simp_all add: order_trans [OF _ uint_ge_0])
qed

lemma round_up_4096: "x \<le> 4096 * ((x + 4095) div 4096)" for x :: nat
  using mult_div_mod_eq [of 4096 "x + 4095"] mod_less_divisor [of 4096 "x + 4095"] by linarith

section \<open>Counting loops\<close>

text \<open>
  \<open>for_up n i f s\<close> is the loop \<^verbatim>\<open>for (; n > 0; n--, i++) s = f (i, s)\<close>: a loop
  \<^verbatim>\<open>for (i = a; i < b; i++)\<close> of the source makes \<open>unat b - unat a\<close> rounds.
  \<open>find_up n i P\<close> is the search loop that returns the first \<open>i\<close> with \<open>P i\<close>.
\<close>

fun for_up :: "nat \<Rightarrow> u32 \<Rightarrow> (u32 \<Rightarrow> 's \<Rightarrow> 's option) \<Rightarrow> 's \<Rightarrow> 's option" where
  "for_up 0 i f s = Some s"
| "for_up (Suc n) i f s = do { s \<leftarrow> f i s; for_up n (i + 1) f s }"

fun find_up :: "nat \<Rightarrow> u32 \<Rightarrow> (u32 \<Rightarrow> bool option) \<Rightarrow> u32 option option" where
  "find_up 0 i P = Some None"
| "find_up (Suc n) i P = do { b \<leftarrow> P i; if b then Some (Some i) else find_up n (i + 1) P }"

lemma unat_plus_1: "unat i < n \<Longrightarrow> n < 2 ^ LENGTH('a) \<Longrightarrow> unat (i + 1 :: 'a::len word) = Suc (unat i)"
  by (simp add: unat_word_ariths)

lemma unat_add_nowrap:
  "unat a + unat b < 2 ^ LENGTH('a) \<Longrightarrow> unat (a + b :: 'a::len word) = unat a + unat b"
  by (simp add: unat_word_ariths)

lemma unat_lt32: "unat (w :: u32) < 2 ^ 32"
  using unsigned_less [of w, where ?'a = nat] by simp

lemma unat_of_nat32: "j < 2 ^ 32 \<Longrightarrow> unat (of_nat j :: u32) = j"
  by (simp add: unat_of_nat)

lemma of_nat_inj32: "i < 2 ^ 32 \<Longrightarrow> j < 2 ^ 32 \<Longrightarrow> (of_nat i :: u32) = of_nat j \<longleftrightarrow> i = j"
  by (metis unat_of_nat32)

lemma eq_of_nat: "unat x = k \<Longrightarrow> x = (of_nat k :: u32)"
  by auto

lemma unat_ofs: "unat p + i < 2 ^ 32 \<Longrightarrow> unat (p + of_nat i :: u32) = unat p + i"
  by (simp add: unat_word_ariths unat_of_nat)

text \<open>A loop whose body keeps an invariant that is indexed by the number of rounds done.\<close>

lemma for_up_inv:
  assumes "I 0 s" and "unat i + n \<le> 2 ^ 32"
    and "\<And>j s. j < n \<Longrightarrow> I j s \<Longrightarrow> \<exists>s'. f (i + of_nat j) s = Some s' \<and> I (Suc j) s'"
  shows "\<exists>s'. for_up n i f s = Some s' \<and> I n s'"
  using assms
proof (induction n arbitrary: i s I)
  case (Suc n)
  obtain s1 where s1: "f i s = Some s1" "I 1 s1" using Suc.prems(3) [of 0 s] Suc.prems(1) by auto
  show ?case
  proof (cases n)
    case 0 then show ?thesis using s1 by simp
  next
    case (Suc m)
    have u: "unat (i + 1) = Suc (unat i)"
      using Suc.prems(2) Suc unat_plus_1 [of i "2 ^ 32 - 1"] by simp
    have "\<exists>s'. for_up n (i + 1) f s1 = Some s' \<and> I (Suc n) s'"
      using Suc.IH [of "\<lambda>j. I (Suc j)" s1 "i + 1"] s1 Suc.prems u
      by (simp add: add.assoc) (metis Suc_less_eq of_nat_Suc)
    then show ?thesis using s1 by simp
  qed
qed simp

lemma find_up_eq:
  assumes "\<And>j. j < n \<Longrightarrow> P (i + of_nat j) = Some (Q j)"
  shows "find_up n i P =
    Some (if \<exists>j<n. Q j then Some (i + of_nat (LEAST j. j < n \<and> Q j)) else None)"
  using assms
proof (induction n arbitrary: i Q)
  case (Suc n)
  have P: "P i = Some (Q 0)" using Suc.prems [of 0] by simp
  show ?case
  proof (cases "Q 0")
    case True
    then have "(LEAST j. j < Suc n \<and> Q j) = 0" by (intro Least_equality) auto
    then show ?thesis using P True by auto
  next
    case False
    have IH: "find_up n (i + 1) P =
        Some (if \<exists>j<n. Q (Suc j) then Some (i + 1 + of_nat (LEAST j. j < n \<and> Q (Suc j))) else None)"
      using Suc.IH [of "i + 1" "\<lambda>j. Q (Suc j)"] Suc.prems [of "Suc _"] by (simp add: add.assoc)
    have ex: "(\<exists>j<Suc n. Q j) = (\<exists>j<n. Q (Suc j))" using False by (metis Suc_less_eq less_Suc_eq_0_disj)
    have "(LEAST j. j < Suc n \<and> Q j) = Suc (LEAST j. j < n \<and> Q (Suc j))" if "\<exists>j<n. Q (Suc j)"
      using that False Least_Suc [of "\<lambda>j. j < Suc n \<and> Q j"] by fastforce
    then show ?thesis using P False IH ex by (auto simp: add.assoc)
  qed
qed simp

end
