(* ===== verification/KList.thy ===== *)
theory KList
  imports Prelude
begin

text \<open>
  The kernel's doubly linked list, \<^verbatim>\<open>src/lib/kernel/list.c\<close>, at the level of the pointers.

  A heap maps the address of a \<^verbatim>\<open>struct list_elem\<close> to its two links; a \<^verbatim>\<open>struct list\<close> at
  address \<open>l\<close> has its \<^verbatim>\<open>head\<close> at \<open>l\<close> and its \<^verbatim>\<open>tail\<close> eight bytes further.  Every function of the
  file is translated statement by statement; the loops, which run forever on a cyclic heap, are
  \<^theory_text>\<open>partial_function (option)\<close>.  The comparison callback \<^verbatim>\<open>less (a, b, aux)\<close> reads the
  structures the elements are embedded in and none of the links, so it is a parameter
  \<open>addr \<Rightarrow> addr \<Rightarrow> bool\<close>.
\<close>

section \<open>Elements, heaps and lists\<close>

type_synonym addr = u32

abbreviation NULL :: addr where
  "NULL \<equiv> 0"

record list_elem =
  le_prev :: addr
  le_next :: addr

type_synonym heap = "addr \<Rightarrow> list_elem"

type_synonym less_func = "addr \<Rightarrow> addr \<Rightarrow> bool"

definition head_of :: "addr \<Rightarrow> addr" where
  "head_of l = l"

definition tail_of :: "addr \<Rightarrow> addr" where
  "tail_of l = l + 8"

text \<open>Reading and writing a link; a null pointer faults.\<close>

definition get_prev :: "heap \<Rightarrow> addr \<Rightarrow> addr option" where
  "get_prev h p = (if p = NULL then None else Some (le_prev (h p)))"

definition get_next :: "heap \<Rightarrow> addr \<Rightarrow> addr option" where
  "get_next h p = (if p = NULL then None else Some (le_next (h p)))"

definition upd_prev :: "heap \<Rightarrow> addr \<Rightarrow> addr \<Rightarrow> heap" where
  "upd_prev h p v = h(p := (h p)\<lparr>le_prev := v\<rparr>)"

definition upd_next :: "heap \<Rightarrow> addr \<Rightarrow> addr \<Rightarrow> heap" where
  "upd_next h p v = h(p := (h p)\<lparr>le_next := v\<rparr>)"

definition set_prev :: "heap \<Rightarrow> addr \<Rightarrow> addr \<Rightarrow> heap option" where
  "set_prev h p v = (if p = NULL then None else Some (upd_prev h p v))"

definition set_next :: "heap \<Rightarrow> addr \<Rightarrow> addr \<Rightarrow> heap option" where
  "set_next h p v = (if p = NULL then None else Some (upd_next h p v))"

section \<open>The operations\<close>

definition is_head :: "heap \<Rightarrow> addr \<Rightarrow> bool" where
  "is_head h e \<longleftrightarrow> e \<noteq> NULL \<and> le_prev (h e) = NULL \<and> le_next (h e) \<noteq> NULL"

definition is_interior :: "heap \<Rightarrow> addr \<Rightarrow> bool" where
  "is_interior h e \<longleftrightarrow> e \<noteq> NULL \<and> le_prev (h e) \<noteq> NULL \<and> le_next (h e) \<noteq> NULL"

definition is_tail :: "heap \<Rightarrow> addr \<Rightarrow> bool" where
  "is_tail h e \<longleftrightarrow> e \<noteq> NULL \<and> le_prev (h e) \<noteq> NULL \<and> le_next (h e) = NULL"

definition list_init :: "heap \<Rightarrow> addr \<Rightarrow> heap option" where
  "list_init h l = do {
     ASSERT (l \<noteq> NULL);
     h \<leftarrow> set_prev h (head_of l) NULL;
     h \<leftarrow> set_next h (head_of l) (tail_of l);
     h \<leftarrow> set_prev h (tail_of l) (head_of l);
     set_next h (tail_of l) NULL
   }"

definition list_begin :: "heap \<Rightarrow> addr \<Rightarrow> addr option" where
  "list_begin h l = do {
     ASSERT (l \<noteq> NULL);
     get_next h (head_of l)
   }"

definition list_next :: "heap \<Rightarrow> addr \<Rightarrow> addr option" where
  "list_next h e = do {
     ASSERT (is_head h e \<or> is_interior h e);
     get_next h e
   }"

definition list_end :: "addr \<Rightarrow> addr option" where
  "list_end l = do {
     ASSERT (l \<noteq> NULL);
     Some (tail_of l)
   }"

definition list_rbegin :: "heap \<Rightarrow> addr \<Rightarrow> addr option" where
  "list_rbegin h l = do {
     ASSERT (l \<noteq> NULL);
     get_prev h (tail_of l)
   }"

definition list_prev :: "heap \<Rightarrow> addr \<Rightarrow> addr option" where
  "list_prev h e = do {
     ASSERT (is_interior h e \<or> is_tail h e);
     get_prev h e
   }"

definition list_rend :: "addr \<Rightarrow> addr option" where
  "list_rend l = do {
     ASSERT (l \<noteq> NULL);
     Some (head_of l)
   }"

definition list_head :: "addr \<Rightarrow> addr option" where
  "list_head l = do {
     ASSERT (l \<noteq> NULL);
     Some (head_of l)
   }"

definition list_tail :: "addr \<Rightarrow> addr option" where
  "list_tail l = do {
     ASSERT (l \<noteq> NULL);
     Some (tail_of l)
   }"

definition list_insert :: "heap \<Rightarrow> addr \<Rightarrow> addr \<Rightarrow> heap option" where
  "list_insert h before elem = do {
     ASSERT (is_interior h before \<or> is_tail h before);
     ASSERT (elem \<noteq> NULL);
     p \<leftarrow> get_prev h before;
     h \<leftarrow> set_prev h elem p;
     h \<leftarrow> set_next h elem before;
     p \<leftarrow> get_prev h before;
     h \<leftarrow> set_next h p elem;
     set_prev h before elem
   }"

definition list_splice :: "heap \<Rightarrow> addr \<Rightarrow> addr \<Rightarrow> addr \<Rightarrow> heap option" where
  "list_splice h before fst_e lst_e = do {
     ASSERT (is_interior h before \<or> is_tail h before);
     if fst_e = lst_e then Some h
     else do {
       lst_e \<leftarrow> list_prev h lst_e;
       ASSERT (is_interior h fst_e);
       ASSERT (is_interior h lst_e);
       \<comment> \<open>cleanly remove the range from its current list\<close>
       p \<leftarrow> get_prev h fst_e;
       n \<leftarrow> get_next h lst_e;
       h \<leftarrow> set_next h p n;
       n \<leftarrow> get_next h lst_e;
       p \<leftarrow> get_prev h fst_e;
       h \<leftarrow> set_prev h n p;
       \<comment> \<open>splice it into the new list\<close>
       p \<leftarrow> get_prev h before;
       h \<leftarrow> set_prev h fst_e p;
       h \<leftarrow> set_next h lst_e before;
       p \<leftarrow> get_prev h before;
       h \<leftarrow> set_next h p fst_e;
       set_prev h before lst_e
     }
   }"

definition list_push_front :: "heap \<Rightarrow> addr \<Rightarrow> addr \<Rightarrow> heap option" where
  "list_push_front h l elem = do {
     b \<leftarrow> list_begin h l;
     list_insert h b elem
   }"

definition list_push_back :: "heap \<Rightarrow> addr \<Rightarrow> addr \<Rightarrow> heap option" where
  "list_push_back h l elem = do {
     e \<leftarrow> list_end l;
     list_insert h e elem
   }"

definition list_remove :: "heap \<Rightarrow> addr \<Rightarrow> (addr \<times> heap) option" where
  "list_remove h elem = do {
     ASSERT (is_interior h elem);
     p \<leftarrow> get_prev h elem;
     n \<leftarrow> get_next h elem;
     h \<leftarrow> set_next h p n;
     n \<leftarrow> get_next h elem;
     p \<leftarrow> get_prev h elem;
     h \<leftarrow> set_prev h n p;
     n \<leftarrow> get_next h elem;
     Some (n, h)
   }"

definition list_empty :: "heap \<Rightarrow> addr \<Rightarrow> bool option" where
  "list_empty h l = do {
     b \<leftarrow> list_begin h l;
     e \<leftarrow> list_end l;
     Some (b = e)
   }"

definition list_front :: "heap \<Rightarrow> addr \<Rightarrow> addr option" where
  "list_front h l = do {
     em \<leftarrow> list_empty h l;
     ASSERT (\<not> em);
     get_next h (head_of l)
   }"

definition list_back :: "heap \<Rightarrow> addr \<Rightarrow> addr option" where
  "list_back h l = do {
     em \<leftarrow> list_empty h l;
     ASSERT (\<not> em);
     get_prev h (tail_of l)
   }"

definition list_pop_front :: "heap \<Rightarrow> addr \<Rightarrow> (addr \<times> heap) option" where
  "list_pop_front h l = do {
     front \<leftarrow> list_front h l;
     (_, h) \<leftarrow> list_remove h front;
     Some (front, h)
   }"

definition list_pop_back :: "heap \<Rightarrow> addr \<Rightarrow> (addr \<times> heap) option" where
  "list_pop_back h l = do {
     back \<leftarrow> list_back h l;
     (_, h) \<leftarrow> list_remove h back;
     Some (back, h)
   }"

partial_function (option) list_size_loop :: "heap \<Rightarrow> addr \<Rightarrow> addr \<Rightarrow> nat \<Rightarrow> nat option" where
  "list_size_loop h e en cnt =
     (if e = en then Some cnt
      else do {
        e \<leftarrow> list_next h e;
        list_size_loop h e en (cnt + 1)
      })"

definition list_size :: "heap \<Rightarrow> addr \<Rightarrow> nat option" where
  "list_size h l = do {
     b \<leftarrow> list_begin h l;
     e \<leftarrow> list_end l;
     list_size_loop h b e 0
   }"

text \<open>\<^verbatim>\<open>swap (&e->prev, &e->next)\<close> on one element, the only way the loop of
  \<^verbatim>\<open>list_reverse\<close> uses \<^verbatim>\<open>swap\<close>.\<close>

definition swap_links :: "heap \<Rightarrow> addr \<Rightarrow> heap option" where
  "swap_links h e = do {
     t \<leftarrow> get_prev h e;
     n \<leftarrow> get_next h e;
     h \<leftarrow> set_prev h e n;
     set_next h e t
   }"

partial_function (option) list_reverse_loop :: "heap \<Rightarrow> addr \<Rightarrow> addr \<Rightarrow> heap option" where
  "list_reverse_loop h e en =
     (if e = en then Some h
      else do {
        h \<leftarrow> swap_links h e;
        e \<leftarrow> get_prev h e;
        list_reverse_loop h e en
      })"

definition list_reverse :: "heap \<Rightarrow> addr \<Rightarrow> heap option" where
  "list_reverse h l = do {
     em \<leftarrow> list_empty h l;
     if em then Some h
     else do {
       b \<leftarrow> list_begin h l;
       e \<leftarrow> list_end l;
       h \<leftarrow> list_reverse_loop h b e;
       \<comment> \<open>\<^verbatim>\<open>swap (&list->head.next, &list->tail.prev)\<close>\<close>
       t \<leftarrow> get_next h (head_of l);
       n \<leftarrow> get_prev h (tail_of l);
       h \<leftarrow> set_next h (head_of l) n;
       h \<leftarrow> set_prev h (tail_of l) t;
       \<comment> \<open>\<^verbatim>\<open>swap (&list->head.next->prev, &list->tail.prev->next)\<close>\<close>
       f \<leftarrow> get_next h (head_of l);
       g \<leftarrow> get_prev h (tail_of l);
       t \<leftarrow> get_prev h f;
       n \<leftarrow> get_next h g;
       h \<leftarrow> set_prev h f n;
       set_next h g t
     }
   }"

partial_function (option) is_sorted_loop ::
  "heap \<Rightarrow> addr \<Rightarrow> addr \<Rightarrow> less_func \<Rightarrow> bool option" where
  "is_sorted_loop h a b lt = do {
     a \<leftarrow> list_next h a;
     if a = b then Some True
     else do {
       p \<leftarrow> list_prev h a;
       if lt a p then Some False else is_sorted_loop h a b lt
     }
   }"

definition is_sorted :: "heap \<Rightarrow> addr \<Rightarrow> addr \<Rightarrow> less_func \<Rightarrow> bool option" where
  "is_sorted h a b lt = (if a \<noteq> b then is_sorted_loop h a b lt else Some True)"

partial_function (option) find_end_of_run_loop ::
  "heap \<Rightarrow> addr \<Rightarrow> addr \<Rightarrow> less_func \<Rightarrow> addr option" where
  "find_end_of_run_loop h a b lt = do {
     a \<leftarrow> list_next h a;
     if a = b then Some a
     else do {
       p \<leftarrow> list_prev h a;
       if lt a p then Some a else find_end_of_run_loop h a b lt
     }
   }"

definition find_end_of_run :: "heap \<Rightarrow> addr \<Rightarrow> addr \<Rightarrow> less_func \<Rightarrow> addr option" where
  "find_end_of_run h a b lt = do {
     ASSERT (a \<noteq> NULL);
     ASSERT (b \<noteq> NULL);
     ASSERT (a \<noteq> b);
     find_end_of_run_loop h a b lt
   }"

partial_function (option) inplace_merge_loop ::
  "heap \<Rightarrow> addr \<Rightarrow> addr \<Rightarrow> addr \<Rightarrow> less_func \<Rightarrow> heap option" where
  "inplace_merge_loop h a0 a1b0 b1 lt =
     (if a0 \<noteq> a1b0 \<and> a1b0 \<noteq> b1 then
        (if \<not> lt a1b0 a0 then do {
           a0 \<leftarrow> list_next h a0;
           inplace_merge_loop h a0 a1b0 b1 lt
         } else do {
           a1b0 \<leftarrow> list_next h a1b0;
           p \<leftarrow> list_prev h a1b0;
           h \<leftarrow> list_splice h a0 p a1b0;
           inplace_merge_loop h a0 a1b0 b1 lt
         })
      else Some h)"

definition inplace_merge ::
  "heap \<Rightarrow> addr \<Rightarrow> addr \<Rightarrow> addr \<Rightarrow> less_func \<Rightarrow> heap option" where
  "inplace_merge h a0 a1b0 b1 lt = do {
     ASSERT (a0 \<noteq> NULL);
     ASSERT (a1b0 \<noteq> NULL);
     ASSERT (b1 \<noteq> NULL);
     s \<leftarrow> is_sorted h a0 a1b0 lt;
     ASSERT s;
     s \<leftarrow> is_sorted h a1b0 b1 lt;
     ASSERT s;
     inplace_merge_loop h a0 a1b0 b1 lt
   }"

text \<open>The inner \<^verbatim>\<open>for\<close> of \<^verbatim>\<open>list_sort\<close>: one pass over the list, with the number of runs it
  has put out so far.\<close>

partial_function (option) list_sort_pass ::
  "heap \<Rightarrow> addr \<Rightarrow> addr \<Rightarrow> less_func \<Rightarrow> nat \<Rightarrow> (nat \<times> heap) option" where
  "list_sort_pass h a0 en lt output_run_cnt =
     (if a0 = en then Some (output_run_cnt, h)
      else do {
        a1b0 \<leftarrow> find_end_of_run h a0 en lt;
        if a1b0 = en then Some (output_run_cnt + 1, h)
        else do {
          b1 \<leftarrow> find_end_of_run h a1b0 en lt;
          h \<leftarrow> inplace_merge h a0 a1b0 b1 lt;
          list_sort_pass h b1 en lt (output_run_cnt + 1)
        }
      })"

partial_function (option) list_sort_loop :: "heap \<Rightarrow> addr \<Rightarrow> less_func \<Rightarrow> heap option" where
  "list_sort_loop h l lt = do {
     b \<leftarrow> list_begin h l;
     e \<leftarrow> list_end l;
     (output_run_cnt, h) \<leftarrow> list_sort_pass h b e lt 0;
     if output_run_cnt > 1 then list_sort_loop h l lt else Some h
   }"

definition list_sort :: "heap \<Rightarrow> addr \<Rightarrow> less_func \<Rightarrow> heap option" where
  "list_sort h l lt = do {
     ASSERT (l \<noteq> NULL);
     h \<leftarrow> list_sort_loop h l lt;
     b \<leftarrow> list_begin h l;
     e \<leftarrow> list_end l;
     s \<leftarrow> is_sorted h b e lt;
     ASSERT s;
     Some h
   }"

partial_function (option) list_insert_ordered_loop ::
  "heap \<Rightarrow> addr \<Rightarrow> addr \<Rightarrow> addr \<Rightarrow> less_func \<Rightarrow> addr option" where
  "list_insert_ordered_loop h e en elem lt =
     (if e = en then Some e
      else if lt elem e then Some e
      else do {
        e \<leftarrow> list_next h e;
        list_insert_ordered_loop h e en elem lt
      })"

definition list_insert_ordered :: "heap \<Rightarrow> addr \<Rightarrow> addr \<Rightarrow> less_func \<Rightarrow> heap option" where
  "list_insert_ordered h l elem lt = do {
     ASSERT (l \<noteq> NULL);
     ASSERT (elem \<noteq> NULL);
     b \<leftarrow> list_begin h l;
     en \<leftarrow> list_end l;
     e \<leftarrow> list_insert_ordered_loop h b en elem lt;
     list_insert h e elem
   }"

partial_function (option) list_unique_loop ::
  "heap \<Rightarrow> addr \<Rightarrow> addr \<Rightarrow> addr \<Rightarrow> less_func \<Rightarrow> heap option" where
  "list_unique_loop h elem l duplicates lt = do {
     nxt \<leftarrow> list_next h elem;
     en \<leftarrow> list_end l;
     if nxt = en then Some h
     else if \<not> lt elem nxt \<and> \<not> lt nxt elem then do {
       (_, h) \<leftarrow> list_remove h nxt;
       h \<leftarrow> (if duplicates \<noteq> NULL then list_push_back h duplicates nxt else Some h);
       list_unique_loop h elem l duplicates lt
     }
     else list_unique_loop h nxt l duplicates lt
   }"

definition list_unique :: "heap \<Rightarrow> addr \<Rightarrow> addr \<Rightarrow> less_func \<Rightarrow> heap option" where
  "list_unique h l duplicates lt = do {
     ASSERT (l \<noteq> NULL);
     em \<leftarrow> list_empty h l;
     if em then Some h
     else do {
       elem \<leftarrow> list_begin h l;
       list_unique_loop h elem l duplicates lt
     }
   }"

partial_function (option) list_max_loop ::
  "heap \<Rightarrow> addr \<Rightarrow> addr \<Rightarrow> addr \<Rightarrow> less_func \<Rightarrow> addr option" where
  "list_max_loop h max_e e en lt =
     (if e = en then Some max_e
      else do {
        e' \<leftarrow> list_next h e;
        list_max_loop h (if lt max_e e then e else max_e) e' en lt
      })"

definition list_max :: "heap \<Rightarrow> addr \<Rightarrow> less_func \<Rightarrow> addr option" where
  "list_max h l lt = do {
     max_e \<leftarrow> list_begin h l;
     en \<leftarrow> list_end l;
     if max_e \<noteq> en then do {
       e \<leftarrow> list_next h max_e;
       list_max_loop h max_e e en lt
     } else Some max_e
   }"

partial_function (option) list_min_loop ::
  "heap \<Rightarrow> addr \<Rightarrow> addr \<Rightarrow> addr \<Rightarrow> less_func \<Rightarrow> addr option" where
  "list_min_loop h min_e e en lt =
     (if e = en then Some min_e
      else do {
        e' \<leftarrow> list_next h e;
        list_min_loop h (if lt e min_e then e else min_e) e' en lt
      })"

definition list_min :: "heap \<Rightarrow> addr \<Rightarrow> less_func \<Rightarrow> addr option" where
  "list_min h l lt = do {
     min_e \<leftarrow> list_begin h l;
     en \<leftarrow> list_end l;
     if min_e \<noteq> en then do {
       e \<leftarrow> list_next h min_e;
       list_min_loop h min_e e en lt
     } else Some min_e
   }"


lemma upd_links [simp]:
  "le_next (upd_next h p v q) = (if q = p then v else le_next (h q))"
  "le_prev (upd_next h p v q) = le_prev (h q)"
  "le_prev (upd_prev h p v q) = (if q = p then v else le_prev (h q))"
  "le_next (upd_prev h p v q) = le_next (h q)"
  by (simp_all add: upd_next_def upd_prev_def)

section \<open>What a well-formed list is\<close>

text \<open>\<open>chain h ps\<close>: neighbouring addresses of \<open>ps\<close> point at each other.\<close>

fun chain :: "heap \<Rightarrow> addr list \<Rightarrow> bool" where
  "chain h (x # y # zs) \<longleftrightarrow> le_next (h x) = y \<and> le_prev (h y) = x \<and> chain h (y # zs)"
| "chain h _ \<longleftrightarrow> True"

text \<open>\<open>dll h l xs\<close>: the list at \<open>l\<close> is well-formed and its elements, front to back, are \<open>xs\<close>.\<close>

definition nodes :: "addr \<Rightarrow> addr list \<Rightarrow> addr list" where
  "nodes l xs = head_of l # xs @ [tail_of l]"

definition dll :: "heap \<Rightarrow> addr \<Rightarrow> addr list \<Rightarrow> bool" where
  "dll h l xs \<longleftrightarrow> distinct (nodes l xs) \<and> NULL \<notin> set (nodes l xs) \<and>
     le_prev (h (head_of l)) = NULL \<and> le_next (h (tail_of l)) = NULL \<and> chain h (nodes l xs)"

lemma chain_append: "chain h (xs @ y # ys) \<longleftrightarrow> chain h (xs @ [y]) \<and> chain h (y # ys)"
  by (induction xs rule: induct_list012) auto

lemma chain_snoc2: "chain h (xs @ [x, y]) \<longleftrightarrow>
    chain h (xs @ [x]) \<and> le_next (h x) = y \<and> le_prev (h y) = x"
  using chain_append [of h xs x "[y]"] by simp

lemma chain_cong:
  assumes "\<And>p. p \<in> set (butlast xs) \<Longrightarrow> le_next (h' p) = le_next (h p)"
    and "\<And>p. p \<in> set (tl xs) \<Longrightarrow> le_prev (h' p) = le_prev (h p)"
  shows "chain h' xs = chain h xs"
  using assms by (induction xs rule: induct_list012) auto

text \<open>The links around an inner boundary: \<open>a\<close> is the last node before it, \<open>b\<close> the first after.\<close>

lemma nodes_split:
  obtains A where "head_of l # xs = A @ [last (head_of l # xs)]"
  by (metis append_butlast_last_id list.discI)

lemma nodes_split_tail:
  obtains B where "ys @ [tail_of l] = hd (ys @ [tail_of l]) # B"
  by (metis append_is_Nil_conv list.collapse list.discI)

lemma nodes_append: "nodes l (xs @ ys) = (head_of l # xs) @ (ys @ [tail_of l])"
  by (simp add: nodes_def)

lemma nodes_insert: "nodes l (xs @ e # ys) = (head_of l # xs) @ e # (ys @ [tail_of l])"
  by (simp add: nodes_def)

lemma dll_links:
  assumes "dll h l (xs @ ys)"
  shows "le_next (h (last (head_of l # xs))) = hd (ys @ [tail_of l])"
    and "le_prev (h (hd (ys @ [tail_of l]))) = last (head_of l # xs)"
proof -
  let ?a = "last (head_of l # xs)" and ?b = "hd (ys @ [tail_of l])"
  obtain A where A: "head_of l # xs = A @ [?a]" by (rule nodes_split)
  obtain B where B: "ys @ [tail_of l] = ?b # B" by (rule nodes_split_tail)
  have "nodes l (xs @ ys) = A @ ?a # ?b # B"
    unfolding nodes_append by (subst A, subst B) simp
  then have "chain h (A @ ?a # ?b # B)" using assms by (simp add: dll_def)
  then have "chain h (?a # ?b # B)" by (subst (asm) chain_append) simp
  then show "le_next (h (last (head_of l # xs))) = hd (ys @ [tail_of l])"
    and "le_prev (h (hd (ys @ [tail_of l]))) = last (head_of l # xs)"
    by simp_all
qed

lemma dll_nonnull:
  assumes "dll h l xs"
  shows "l \<noteq> NULL" "head_of l \<noteq> NULL" "tail_of l \<noteq> NULL" "e \<in> set xs \<Longrightarrow> e \<noteq> NULL"
  using assms by (auto simp: dll_def nodes_def head_of_def)

lemma dll_nodes_nonnull: "dll h l xs \<Longrightarrow> p \<in> set (nodes l xs) \<Longrightarrow> p \<noteq> NULL"
  by (auto simp: dll_def)

text \<open>Where an address stands decides what the three classifiers say of it.\<close>

lemma last_in_nodes: "last (head_of l # xs) \<in> set (nodes l (xs @ ys))"
  by (auto simp: nodes_def)

lemma hd_in_nodes: "hd (ys @ [tail_of l]) \<in> set (nodes l (xs @ ys))"
  by (cases ys) (auto simp: nodes_def)

lemma dll_classify_before:
  assumes "dll h l (xs @ ys)"
  shows "is_interior h (hd (ys @ [tail_of l])) \<or> is_tail h (hd (ys @ [tail_of l]))"
proof -
  have "hd (ys @ [tail_of l]) \<noteq> NULL" "last (head_of l # xs) \<noteq> NULL"
    by (rule dll_nodes_nonnull [OF assms hd_in_nodes], rule dll_nodes_nonnull [OF assms last_in_nodes])
  then show ?thesis using dll_links(2) [OF assms] by (auto simp: is_interior_def is_tail_def)
qed

lemma dll_classify_after:
  assumes "dll h l (xs @ ys)"
  shows "is_head h (last (head_of l # xs)) \<or> is_interior h (last (head_of l # xs))"
proof -
  have "hd (ys @ [tail_of l]) \<noteq> NULL" "last (head_of l # xs) \<noteq> NULL"
    by (rule dll_nodes_nonnull [OF assms hd_in_nodes], rule dll_nodes_nonnull [OF assms last_in_nodes])
  then show ?thesis using dll_links(1) [OF assms] by (auto simp: is_interior_def is_head_def)
qed

lemma dll_interior:
  assumes "dll h l (xs @ e # ys)"
  shows "is_interior h e" "le_prev (h e) = last (head_of l # xs)"
    "le_next (h e) = hd (ys @ [tail_of l])"
proof -
  have 1: "le_prev (h e) = last (head_of l # xs)"
    using dll_links(2) [of h l xs "e # ys"] assms by simp
  have 2: "le_next (h e) = hd (ys @ [tail_of l])"
    using dll_links(1) [of h l "xs @ [e]" ys] assms by simp
  have "e \<noteq> NULL" using dll_nonnull(4) [OF assms] by simp
  moreover have "last (head_of l # xs) \<noteq> NULL"
    by (rule dll_nodes_nonnull [OF assms last_in_nodes])
  moreover have "hd (ys @ [tail_of l]) \<noteq> NULL"
    using dll_nodes_nonnull [OF assms] hd_in_nodes [of ys l "xs @ [e]"] by simp
  ultimately show "is_interior h e" using 1 2 by (simp add: is_interior_def)
  show "le_prev (h e) = last (head_of l # xs)" by (rule 1)
  show "le_next (h e) = hd (ys @ [tail_of l])" by (rule 2)
qed

lemmas link_defs = get_prev_def get_next_def set_prev_def set_next_def

subsection \<open>Traversal\<close>

lemma list_begin_dll: "dll h l xs \<Longrightarrow> list_begin h l = Some (hd (xs @ [tail_of l]))"
  using dll_links(1) [of h l "[]" xs] dll_nonnull(1,2) [of h l xs]
  by (simp add: list_begin_def ASSERT_True get_next_def)

lemma list_end_dll: "dll h l xs \<Longrightarrow> list_end l = Some (tail_of l)"
  using dll_nonnull(1) [of h l xs] by (simp add: list_end_def ASSERT_True)

lemma list_rbegin_dll: "dll h l xs \<Longrightarrow> list_rbegin h l = Some (last (head_of l # xs))"
  using dll_links(2) [of h l xs "[]"] dll_nonnull(1,3) [of h l xs]
  by (simp add: list_rbegin_def ASSERT_True get_prev_def)

lemma list_next_dll:
  "dll h l (xs @ e # ys) \<Longrightarrow> list_next h e = Some (hd (ys @ [tail_of l]))"
  using dll_interior [of h l xs e ys] by (auto simp: list_next_def get_next_def is_interior_def)

lemma list_prev_dll:
  assumes "dll h l (xs @ ys)"
  shows "list_prev h (hd (ys @ [tail_of l])) = Some (last (head_of l # xs))"
  using dll_classify_before [OF assms] dll_links(2) [OF assms]
  by (auto simp: list_prev_def get_prev_def is_interior_def is_tail_def)

lemma dll_elem_neq: "dll h l xs \<Longrightarrow> e \<in> set xs \<Longrightarrow> e \<noteq> head_of l \<and> e \<noteq> tail_of l"
  by (auto simp: dll_def nodes_def)

lemma list_empty_dll:
  assumes "dll h l xs"
  shows "list_empty h l = Some (xs = [])"
  using dll_elem_neq [OF assms, of "hd xs"]
  by (cases xs) (auto simp: list_empty_def list_begin_dll [OF assms] list_end_dll [OF assms])

subsection \<open>Insertion and removal\<close>

lemma dll_insertI:
  assumes d: "dll h l (xs @ ys)" and e: "e \<notin> set (nodes l (xs @ ys))" "e \<noteq> NULL"
    and a: "a = last (head_of l # xs)" and b: "b = hd (ys @ [tail_of l])"
    and h': "\<And>p. p \<noteq> e \<Longrightarrow> p \<noteq> a \<Longrightarrow> le_next (h' p) = le_next (h p)"
      "\<And>p. p \<noteq> e \<Longrightarrow> p \<noteq> b \<Longrightarrow> le_prev (h' p) = le_prev (h p)"
      "le_next (h' a) = e" "le_prev (h' e) = a" "le_next (h' e) = b" "le_prev (h' b) = e"
  shows "dll h' l (xs @ e # ys)"
proof -
  obtain A where A: "head_of l # xs = A @ [a]" unfolding a by (rule nodes_split)
  obtain B where B: "ys @ [tail_of l] = b # B" unfolding b by (rule nodes_split_tail)
  have n: "nodes l (xs @ ys) = A @ a # b # B"
    unfolding nodes_append A B by simp
  have n': "nodes l (xs @ e # ys) = A @ a # e # b # B"
    unfolding nodes_insert A B by simp
  have dist: "distinct (A @ a # b # B)" and nn: "NULL \<notin> set (A @ a # b # B)"
    and ch: "chain h (A @ a # b # B)" and en: "e \<notin> set (A @ a # b # B)"
    using d e by (auto simp: dll_def n)
  have "chain h (A @ [a])" and "chain h (b # B)"
    using ch chain_append [of h A a "b # B"] by auto
  moreover have "chain h' (A @ [a]) = chain h (A @ [a])"
    using dist en by (intro chain_cong) (cases A; auto intro!: h' dest: in_set_butlastD)+
  moreover have "chain h' (b # B) = chain h (b # B)"
    using dist en by (intro chain_cong) (auto intro!: h' dest: in_set_butlastD split: if_splits)
  ultimately have "chain h' (A @ a # e # b # B)"
    using h' chain_append [of h' A a "e # b # B"] by simp
  moreover have "le_prev (h' (head_of l)) = NULL"
  proof -
    have "head_of l \<noteq> e" "head_of l \<noteq> b" using A dist en by (cases A; auto)+
    then show ?thesis using h'(2) d by (simp add: dll_def)
  qed
  moreover have "le_next (h' (tail_of l)) = NULL"
  proof -
    have "tail_of l = last (b # B)" using B by (metis last_snoc)
    then have "tail_of l \<noteq> e" "tail_of l \<noteq> a" using dist en by (auto split: if_splits)
    then show ?thesis using h'(1) d by (simp add: dll_def)
  qed
  ultimately show ?thesis using dist nn en e by (auto simp: dll_def n')
qed

lemma list_insert_dll:
  assumes d: "dll h l (xs @ ys)" and e: "e \<notin> set (nodes l (xs @ ys))" "e \<noteq> NULL"
  shows "\<exists>h'. list_insert h (hd (ys @ [tail_of l])) e = Some h' \<and> dll h' l (xs @ e # ys) \<and>
    (\<forall>p. p \<notin> set (nodes l (xs @ e # ys)) \<longrightarrow> h' p = h p)"
proof -
  define a where "a = last (head_of l # xs)"
  define b where "b = hd (ys @ [tail_of l])"
  have mem: "a \<in> set (nodes l (xs @ ys))" "b \<in> set (nodes l (xs @ ys))"
    unfolding a_def b_def by (rule last_in_nodes, rule hd_in_nodes)
  then have ne: "a \<noteq> e" "b \<noteq> e" "a \<noteq> NULL" "b \<noteq> NULL"
    using e dll_nodes_nonnull [OF d] by auto
  have ab: "a \<noteq> b"
    using d unfolding dll_def nodes_append a_def b_def
    by (metis append_is_Nil_conv disjoint_iff distinct_append hd_in_set last_in_set list.discI)
  define h' where "h' = upd_prev (upd_next (upd_next (upd_prev h e a) e b) a e) b e"
  have pb: "le_prev (h b) = a" using dll_links(2) [OF d] by (simp add: a_def b_def)
  have cl: "is_interior h b \<or> is_tail h b" unfolding b_def by (rule dll_classify_before [OF d])
  have "list_insert h b e = Some h'"
    unfolding list_insert_def link_defs using ne cl e ab pb
    by (simp add: ASSERT_True h'_def)
  moreover have "dll h' l (xs @ e # ys)"
    using ne ab by (intro dll_insertI [OF d e a_def b_def]) (auto simp: h'_def)
  moreover have "\<forall>p. p \<notin> set (nodes l (xs @ e # ys)) \<longrightarrow> h' p = h p"
    using mem by (auto simp: h'_def upd_next_def upd_prev_def nodes_insert nodes_append)
  ultimately show ?thesis unfolding b_def by blast
qed

text \<open>Two chains joined, and a chain seen from a heap that differs only at its outer links.\<close>

lemma chain_join:
  assumes "xs \<noteq> []" "ys \<noteq> []"
  shows "chain h (xs @ ys) \<longleftrightarrow>
    chain h xs \<and> chain h ys \<and> le_next (h (last xs)) = hd ys \<and> le_prev (h (hd ys)) = last xs"
proof -
  obtain A a where A: "xs = A @ [a]" using assms(1) by (cases xs rule: rev_cases) auto
  obtain b B where B: "ys = b # B" using assms(2) by (cases ys) auto
  show ?thesis using chain_append [of h A a "b # B"] by (auto simp: A B)
qed

lemma chain_outer:
  assumes "distinct xs"
    and "\<And>p. p \<in> set xs \<Longrightarrow> p \<noteq> last xs \<Longrightarrow> le_next (h' p) = le_next (h p)"
    and "\<And>p. p \<in> set xs \<Longrightarrow> p \<noteq> hd xs \<Longrightarrow> le_prev (h' p) = le_prev (h p)"
  shows "chain h' xs = chain h xs"
proof (rule chain_cong)
  fix p assume p: "p \<in> set (butlast xs)"
  then have "p \<noteq> last xs" using assms(1) by (cases xs rule: rev_cases) auto
  with p show "le_next (h' p) = le_next (h p)" by (intro assms(2)) (auto dest: in_set_butlastD)
next
  fix p assume p: "p \<in> set (tl xs)"
  then have "p \<noteq> hd xs" using assms(1) by (cases xs) auto
  with p show "le_prev (h' p) = le_prev (h p)" by (intro assms(3)) (cases xs, auto)
qed

text \<open>The ends of disjoint lists differ.\<close>

lemma ends_neq:
  assumes "xs \<noteq> []" "ys \<noteq> []" "set xs \<inter> set ys = {}"
  shows "last xs \<noteq> last ys" "hd xs \<noteq> hd ys" "last xs \<noteq> hd ys" "hd xs \<noteq> last ys"
  using assms by (metis disjoint_iff hd_in_set last_in_set)+

lemma end_neq:
  assumes "xs \<noteq> []" "x \<notin> set xs"
  shows "last xs \<noteq> x" "hd xs \<noteq> x"
  using assms by (metis hd_in_set last_in_set)+

lemma ends_notin:
  assumes "xs \<noteq> []" "set xs \<inter> set ys = {}"
  shows "last xs \<notin> set ys" "hd xs \<notin> set ys"
  using assms by (metis disjoint_iff hd_in_set last_in_set)+

lemma list_remove_dll:
  assumes d: "dll h l (xs @ e # ys)"
  shows "\<exists>h'. list_remove h e = Some (hd (ys @ [tail_of l]), h') \<and> dll h' l (xs @ ys) \<and>
    (\<forall>p. p \<notin> set (nodes l (xs @ ys)) \<longrightarrow> h' p = h p)"
proof -
  define X where "X = head_of l # xs"
  define Y where "Y = ys @ [tail_of l]"
  have ne: "X \<noteq> []" "Y \<noteq> []" by (auto simp: X_def Y_def)
  have n: "nodes l (xs @ e # ys) = X @ [e] @ Y" "nodes l (xs @ ys) = X @ Y"
    by (simp_all add: X_def Y_def nodes_def)
  have dist: "distinct (X @ [e] @ Y)" and nn: "NULL \<notin> set (X @ [e] @ Y)"
    and ch: "chain h (X @ [e] @ Y)"
    using d unfolding dll_def n by blast+
  have neq: "last X \<noteq> hd Y" "last X \<noteq> e" "hd Y \<noteq> e" "last X \<noteq> NULL" "hd Y \<noteq> NULL" "e \<noteq> NULL"
    using dist nn ne by (auto simp: ends_neq end_neq)
  have links: "le_prev (h e) = last X" "le_next (h e) = hd Y" "is_interior h e"
    using dll_interior [OF d] by (simp_all add: X_def Y_def)
  define h' where "h' = upd_prev (upd_next h (last X) (hd Y)) (hd Y) (last X)"
  have run: "list_remove h e = Some (hd Y, h')"
    unfolding list_remove_def link_defs using neq links
    by (simp add: ASSERT_True h'_def)
  have "chain h X" "chain h Y"
    using ch ne chain_join [of "[e]" Y h] by (simp_all add: chain_join)
  moreover have out: "last X \<notin> set Y" "hd Y \<notin> set X"
    using dist ne by (simp_all add: ends_notin Int_commute)
  then have "chain h' X = chain h X" "chain h' Y = chain h Y"
    using dist by (intro chain_outer; auto simp: h'_def)+
  ultimately have "chain h' (X @ Y)"
    using ne neq by (simp add: chain_join h'_def)
  moreover have "head_of l \<in> set X" "tail_of l \<in> set Y" by (simp_all add: X_def Y_def)
  then have "le_prev (h' (head_of l)) = NULL" "le_next (h' (tail_of l)) = NULL"
    using d out by (auto simp: dll_def h'_def)
  ultimately have "dll h' l (xs @ ys)" using dist nn by (simp add: dll_def n)
  moreover have "\<forall>p. p \<notin> set (nodes l (xs @ ys)) \<longrightarrow> h' p = h p"
    using ne by (auto simp: n h'_def upd_next_def upd_prev_def)
  ultimately show ?thesis using run by (auto simp: Y_def)
qed

lemma list_splice_dll:
  assumes d: "dll h l (P @ A @ S @ R)" and "A \<noteq> []" "S \<noteq> []"
  shows "\<exists>h'. list_splice h (hd A) (hd S) (hd (R @ [tail_of l])) = Some h' \<and>
    dll h' l (P @ S @ A @ R) \<and> (\<forall>p. p \<notin> set (nodes l (P @ S @ A @ R)) \<longrightarrow> h' p = h p)"
proof -
  define X where "X = head_of l # P"
  define Y where "Y = R @ [tail_of l]"
  have ne: "X \<noteq> []" "Y \<noteq> []" "A \<noteq> []" "S \<noteq> []" using assms by (auto simp: X_def Y_def)
  have n: "nodes l (P @ A @ S @ R) = X @ A @ S @ Y" "nodes l (P @ S @ A @ R) = X @ S @ A @ Y"
    by (simp_all add: X_def Y_def nodes_def)
  have dist: "distinct (X @ A @ S @ Y)" and nn: "NULL \<notin> set (X @ A @ S @ Y)"
    and ch: "chain h (X @ A @ S @ Y)"
    using d unfolding dll_def n by blast+
  have neq: "last X \<noteq> last A" "last X \<noteq> last S" "last A \<noteq> last S"
      "hd A \<noteq> hd S" "hd A \<noteq> hd Y" "hd S \<noteq> hd Y"
    and nnull: "last X \<noteq> NULL" "last A \<noteq> NULL" "last S \<noteq> NULL" "hd A \<noteq> NULL" "hd S \<noteq> NULL" "hd Y \<noteq> NULL"
    using dist nn ne by (simp_all add: ends_neq end_neq Int_Un_distrib Int_Un_distrib2)
  have pieces: "chain h X" "chain h A" "chain h S" "chain h Y"
    and links: "le_next (h (last X)) = hd A" "le_prev (h (hd A)) = last X"
      "le_next (h (last A)) = hd S" "le_prev (h (hd S)) = last A"
      "le_next (h (last S)) = hd Y" "le_prev (h (hd Y)) = last S"
    using ch ne by (simp_all add: chain_join)
  have intS: "is_interior h (hd S)"
    using dll_interior(1) [of h l "P @ A" "hd S" "tl S @ R"] d ne by (metis append.assoc append_Cons list.collapse)
  have intL: "is_interior h (last S)"
    using dll_interior(1) [of h l "P @ A @ butlast S" "last S" R] d ne
    by (metis append.assoc append_Cons append_Nil append_butlast_last_id)
  have intA: "is_interior h (hd A)"
    using dll_interior(1) [of h l P "hd A" "tl A @ S @ R"] d ne by (metis append_Cons list.collapse)
  have lp: "list_prev h (hd Y) = Some (last S)"
    using list_prev_dll [of h l "P @ A @ S" R] d ne by (simp add: Y_def)
  define h' where "h' = upd_prev (upd_next (upd_next (upd_prev (upd_prev (upd_next h (last A) (hd Y))
    (hd Y) (last A)) (hd S) (last X)) (last S) (hd A)) (last X) (hd S)) (hd A) (last S)"
  have run: "list_splice h (hd A) (hd S) (hd Y) = Some h'"
    unfolding list_splice_def link_defs using neq nnull links intA intS intL lp
    by (simp add: ASSERT_True h'_def)
  have out: "last X \<notin> set (A @ S @ Y)" "last A \<notin> set (X @ S @ Y)" "last S \<notin> set (X @ A @ Y)"
      "hd A \<notin> set (X @ S @ Y)" "hd S \<notin> set (X @ A @ Y)" "hd Y \<notin> set (X @ A @ S)"
    using dist ne by (simp_all add: ends_notin Int_commute Int_Un_distrib Int_Un_distrib2)
  then have "chain h' X = chain h X" "chain h' A = chain h A" "chain h' S = chain h S"
      "chain h' Y = chain h Y"
    using dist by (intro chain_outer; auto simp: h'_def)+
  then have "chain h' (X @ S @ A @ Y)"
    using ne neq pieces by (simp add: chain_join h'_def)
  moreover have "head_of l \<in> set X" "tail_of l \<in> set Y" by (simp_all add: X_def Y_def)
  then have "le_prev (h' (head_of l)) = NULL" "le_next (h' (tail_of l)) = NULL"
    using d out by (auto simp: dll_def h'_def)
  ultimately have "dll h' l (P @ S @ A @ R)" using dist nn by (auto simp: dll_def n)
  moreover have "\<forall>p. p \<notin> set (nodes l (P @ S @ A @ R)) \<longrightarrow> h' p = h p"
  proof (intro allI impI)
    fix p assume "p \<notin> set (nodes l (P @ S @ A @ R))"
    then have "last X \<noteq> p" "last A \<noteq> p" "last S \<noteq> p" "hd A \<noteq> p" "hd S \<noteq> p" "hd Y \<noteq> p"
      using ne by (simp_all add: n end_neq)
    then show "h' p = h p" by (simp add: h'_def upd_next_def upd_prev_def)
  qed
  ultimately show ?thesis using run by (auto simp: Y_def)
qed

subsection \<open>Queues and stacks\<close>

lemma list_init_dll:
  assumes "l \<noteq> NULL" "tail_of l \<noteq> NULL"
  shows "\<exists>h'. list_init h l = Some h' \<and> dll h' l [] \<and>
    (\<forall>p. p \<noteq> head_of l \<longrightarrow> p \<noteq> tail_of l \<longrightarrow> h' p = h p)"
proof -
  have ne: "head_of l \<noteq> tail_of l" by (simp add: head_of_def tail_of_def)
  define h' where "h' = upd_next (upd_prev (upd_next (upd_prev h (head_of l) NULL)
    (head_of l) (tail_of l)) (tail_of l) (head_of l)) (tail_of l) NULL"
  have "list_init h l = Some h'"
    using assms by (simp add: list_init_def link_defs ASSERT_True h'_def head_of_def)
  moreover have "dll h' l []"
    using assms ne by (simp add: dll_def nodes_def h'_def head_of_def)
  moreover have "\<forall>p. p \<noteq> head_of l \<longrightarrow> p \<noteq> tail_of l \<longrightarrow> h' p = h p"
    by (simp add: h'_def upd_next_def upd_prev_def)
  ultimately show ?thesis by blast
qed

lemma list_push_back_dll:
  assumes "dll h l xs" "e \<notin> set (nodes l xs)" "e \<noteq> NULL"
  shows "\<exists>h'. list_push_back h l e = Some h' \<and> dll h' l (xs @ [e]) \<and>
    (\<forall>p. p \<notin> set (nodes l (xs @ [e])) \<longrightarrow> h' p = h p)"
  using list_insert_dll [of h l xs "[]" e] assms
  by (simp add: list_push_back_def list_end_dll [OF assms(1)])

lemma list_push_front_dll:
  assumes "dll h l xs" "e \<notin> set (nodes l xs)" "e \<noteq> NULL"
  shows "\<exists>h'. list_push_front h l e = Some h' \<and> dll h' l (e # xs) \<and>
    (\<forall>p. p \<notin> set (nodes l (e # xs)) \<longrightarrow> h' p = h p)"
  using list_insert_dll [of h l "[]" xs e] assms
  by (simp add: list_push_front_def list_begin_dll [OF assms(1)])

lemma list_front_dll:
  assumes "dll h l xs"
  shows "list_front h l = (if xs = [] then None else Some (hd xs))"
  using dll_links(1) [of h l "[]" xs] assms dll_nonnull(2) [OF assms]
  by (simp add: list_front_def list_empty_dll [OF assms] get_next_def)

lemma list_back_dll:
  assumes "dll h l xs"
  shows "list_back h l = (if xs = [] then None else Some (last xs))"
  using dll_links(2) [of h l xs "[]"] assms dll_nonnull(3) [OF assms]
  by (simp add: list_back_def list_empty_dll [OF assms] get_prev_def)

lemma list_pop_front_dll:
  assumes "dll h l (e # xs)"
  shows "\<exists>h'. list_pop_front h l = Some (e, h') \<and> dll h' l xs \<and>
    (\<forall>p. p \<notin> set (nodes l xs) \<longrightarrow> h' p = h p)"
  using list_remove_dll [of h l "[]" e xs] assms
  by (auto simp: list_pop_front_def list_front_dll [OF assms])

lemma list_pop_back_dll:
  assumes "dll h l (xs @ [e])"
  shows "\<exists>h'. list_pop_back h l = Some (e, h') \<and> dll h' l xs \<and>
    (\<forall>p. p \<notin> set (nodes l xs) \<longrightarrow> h' p = h p)"
  using list_remove_dll [of h l xs e "[]"] assms
  by (auto simp: list_pop_back_def list_back_dll [OF assms])

lemma list_pop_empty: "dll h l [] \<Longrightarrow> list_pop_front h l = None \<and> list_pop_back h l = None"
  by (simp add: list_pop_front_def list_pop_back_def list_front_dll list_back_dll)

subsection \<open>Loops that only read\<close>

text \<open>A position in a list: everything before \<open>ys\<close> has been visited.\<close>

lemma dll_step: "dll h l (xs @ y # ys) \<Longrightarrow> y \<noteq> tail_of l \<and> dll h l ((xs @ [y]) @ ys) \<and>
    list_next h y = Some (hd (ys @ [tail_of l]))"
  using dll_elem_neq [of h l "xs @ y # ys" y] list_next_dll [of h l xs y ys] by simp

lemma list_size_loop_dll:
  "dll h l (xs @ ys) \<Longrightarrow> list_size_loop h (hd (ys @ [tail_of l])) (tail_of l) c = Some (c + length ys)"
proof (induction ys arbitrary: xs c)
  case Nil
  then show ?case by (subst list_size_loop.simps) simp
next
  case (Cons y ys)
  then show ?case
    using dll_step [OF Cons.prems] Cons.IH [of "xs @ [y]"] by (subst list_size_loop.simps) simp
qed

lemma list_size_dll: "dll h l xs \<Longrightarrow> list_size h l = Some (length xs)"
  using list_size_loop_dll [of h l "[]" xs 0]
  by (simp add: list_size_def list_begin_dll list_end_dll)

text \<open>The position \<^verbatim>\<open>list_insert_ordered\<close> chooses: behind every element that the new one does
  not precede.\<close>

definition insert_ordered :: "('a \<Rightarrow> 'a \<Rightarrow> bool) \<Rightarrow> 'a \<Rightarrow> 'a list \<Rightarrow> 'a list" where
  "insert_ordered lt x xs = takeWhile (\<lambda>y. \<not> lt x y) xs @ x # dropWhile (\<lambda>y. \<not> lt x y) xs"

lemma insert_ordered_loop_dll:
  "dll h l (xs @ ys) \<Longrightarrow> list_insert_ordered_loop h (hd (ys @ [tail_of l])) (tail_of l) e lt
     = Some (hd (dropWhile (\<lambda>y. \<not> lt e y) ys @ [tail_of l]))"
proof (induction ys arbitrary: xs)
  case Nil
  then show ?case by (subst list_insert_ordered_loop.simps) simp
next
  case (Cons y ys)
  then show ?case
    using dll_step [OF Cons.prems] Cons.IH [of "xs @ [y]"]
    by (subst list_insert_ordered_loop.simps) simp
qed

lemma list_insert_ordered_dll:
  assumes d: "dll h l xs" and e: "e \<notin> set (nodes l xs)" "e \<noteq> NULL"
  shows "\<exists>h'. list_insert_ordered h l e lt = Some h' \<and> dll h' l (insert_ordered lt e xs) \<and>
    (\<forall>p. p \<notin> set (nodes l (insert_ordered lt e xs)) \<longrightarrow> h' p = h p)"
  using list_insert_dll [of h l "takeWhile (\<lambda>y. \<not> lt e y) xs" "dropWhile (\<lambda>y. \<not> lt e y) xs" e] d e
    insert_ordered_loop_dll [of h l "[]" xs e lt] dll_nonnull(1) [OF d]
  by (simp add: list_insert_ordered_def list_begin_dll list_end_dll ASSERT_True insert_ordered_def)

text \<open>The first maximal and the first minimal element.\<close>

definition fmax :: "('a \<Rightarrow> 'a \<Rightarrow> bool) \<Rightarrow> 'a \<Rightarrow> 'a list \<Rightarrow> 'a" where
  "fmax lt x ys = foldl (\<lambda>m e. if lt m e then e else m) x ys"

definition fmin :: "('a \<Rightarrow> 'a \<Rightarrow> bool) \<Rightarrow> 'a \<Rightarrow> 'a list \<Rightarrow> 'a" where
  "fmin lt x ys = foldl (\<lambda>m e. if lt e m then e else m) x ys"

lemma list_max_loop_dll:
  "dll h l (xs @ ys) \<Longrightarrow>
     list_max_loop h m (hd (ys @ [tail_of l])) (tail_of l) lt = Some (fmax lt m ys)"
proof (induction ys arbitrary: xs m)
  case Nil
  then show ?case by (subst list_max_loop.simps) (simp add: fmax_def)
next
  case (Cons y ys)
  then show ?case
    using dll_step [OF Cons.prems] Cons.IH [of "xs @ [y]"]
    by (subst list_max_loop.simps) (simp add: fmax_def)
qed

lemma list_min_loop_dll:
  "dll h l (xs @ ys) \<Longrightarrow>
     list_min_loop h m (hd (ys @ [tail_of l])) (tail_of l) lt = Some (fmin lt m ys)"
proof (induction ys arbitrary: xs m)
  case Nil
  then show ?case by (subst list_min_loop.simps) (simp add: fmin_def)
next
  case (Cons y ys)
  then show ?case
    using dll_step [OF Cons.prems] Cons.IH [of "xs @ [y]"]
    by (subst list_min_loop.simps) (simp add: fmin_def)
qed

lemma list_max_dll:
  assumes "dll h l xs"
  shows "list_max h l lt = Some (case xs of [] \<Rightarrow> tail_of l | x # ys \<Rightarrow> fmax lt x ys)"
proof (cases xs)
  case (Cons x ys)
  then have "dll h l ([] @ x # ys)" "dll h l ([x] @ ys)" using assms by simp_all
  then show ?thesis
    using dll_step [of h l "[]" x ys] list_max_loop_dll [of h l "[x]" ys x lt]
    by (simp add: Cons list_max_def list_begin_dll list_end_dll)
qed (use assms in \<open>simp add: list_max_def list_begin_dll list_end_dll\<close>)

lemma list_min_dll:
  assumes "dll h l xs"
  shows "list_min h l lt = Some (case xs of [] \<Rightarrow> tail_of l | x # ys \<Rightarrow> fmin lt x ys)"
proof (cases xs)
  case (Cons x ys)
  then have "dll h l ([] @ x # ys)" "dll h l ([x] @ ys)" using assms by simp_all
  then show ?thesis
    using dll_step [of h l "[]" x ys] list_min_loop_dll [of h l "[x]" ys x lt]
    by (simp add: Cons list_min_def list_begin_dll list_end_dll)
qed (use assms in \<open>simp add: list_min_def list_begin_dll list_end_dll\<close>)


section \<open>Sorting\<close>

text \<open>The routine on abstract lists: adjacent order, the run at the front of a list, the merge
  of two runs, one pass over the list.\<close>

fun nondec :: "('a \<Rightarrow> 'a \<Rightarrow> bool) \<Rightarrow> 'a list \<Rightarrow> bool" where
  "nondec lt (x # y # zs) \<longleftrightarrow> \<not> lt y x \<and> nondec lt (y # zs)"
| "nondec lt _ \<longleftrightarrow> True"

fun run_of :: "('a \<Rightarrow> 'a \<Rightarrow> bool) \<Rightarrow> 'a \<Rightarrow> 'a list \<Rightarrow> 'a list \<times> 'a list" where
  "run_of lt a [] = ([a], [])"
| "run_of lt a (y # ys) =
     (if lt y a then ([a], y # ys) else let (r, rest) = run_of lt y ys in (a # r, rest))"

fun merge :: "('a \<Rightarrow> 'a \<Rightarrow> bool) \<Rightarrow> 'a list \<Rightarrow> 'a list \<Rightarrow> 'a list" where
  "merge lt [] bs = bs"
| "merge lt (a # as) [] = a # as"
| "merge lt (a # as) (b # bs) =
     (if \<not> lt b a then a # merge lt as (b # bs) else b # merge lt (a # as) bs)"

lemma run_of_append: "run_of lt a ys = (r, rest) \<Longrightarrow> a # ys = r @ rest \<and> r \<noteq> [] \<and> hd r = a"
  by (induction ys arbitrary: a r) (auto split: if_splits prod.splits)

lemma run_of_nondec: "run_of lt a ys = (r, rest) \<Longrightarrow> nondec lt r"
proof (induction ys arbitrary: a r)
  case (Cons y ys)
  show ?case
  proof (cases "lt y a")
    case False
    obtain r' where r': "run_of lt y ys = (r', rest)" "r = a # r'"
      using Cons.prems False by (auto split: prod.splits)
    moreover obtain zs where "r' = y # zs" using run_of_append [OF r'(1)] by (metis list.collapse)
    ultimately show ?thesis using Cons.IH [OF r'(1)] False by simp
  qed (use Cons.prems in auto)
qed auto

lemma run_of_length: "length (snd (run_of lt a ys)) \<le> length ys"
proof -
  obtain r rest where r: "run_of lt a ys = (r, rest)" by (cases "run_of lt a ys")
  have "length (a # ys) = length r + length rest" "0 < length r"
    using run_of_append [OF r] by (metis length_append, simp)
  then show ?thesis using r by (cases r) simp_all
qed

function pass :: "('a \<Rightarrow> 'a \<Rightarrow> bool) \<Rightarrow> 'a list \<Rightarrow> 'a list \<times> nat" where
  "pass lt [] = ([], 0)"
| "pass lt (a # ys) =
     (case snd (run_of lt a ys) of
        [] \<Rightarrow> (a # ys, 1)
      | b # zs \<Rightarrow>
          (let (out, n) = pass lt (snd (run_of lt b zs))
           in (merge lt (fst (run_of lt a ys)) (fst (run_of lt b zs)) @ out, n + 1)))"
  by pat_completeness auto
termination
proof (relation "measure (\<lambda>(lt, xs). length xs)", goal_cases)
  case (2 lt a ys b zs)
  have "length (snd (run_of lt b zs)) \<le> length zs" by (rule run_of_length)
  moreover have "length (b # zs) \<le> length ys"
    using run_of_length [of lt a ys] 2 by simp
  ultimately show ?case by simp
qed simp

subsection \<open>The pointer code computes the routine on lists\<close>

lemma is_sorted_loop_dll:
  "dll h l (xs @ a # ys @ zs) \<Longrightarrow>
     is_sorted_loop h a (hd (zs @ [tail_of l])) lt = Some (nondec lt (a # ys))"
proof (induction ys arbitrary: xs a)
  case Nil
  then have "list_next h a = Some (hd (zs @ [tail_of l]))" using list_next_dll [of h l xs a zs] by simp
  then show ?case by (subst is_sorted_loop.simps) simp
next
  case (Cons y ys)
  have d: "dll h l (xs @ a # y # ys @ zs)" "dll h l ((xs @ [a]) @ y # ys @ zs)"
    using Cons.prems by simp_all
  have n: "list_next h a = Some y" using list_next_dll [OF d(1)] by simp
  have p: "list_prev h y = Some a" using list_prev_dll [OF d(2)] by simp
  have "y \<noteq> hd (zs @ [tail_of l])"
    using d(2) by (cases zs) (auto simp: dll_def nodes_def)
  then show ?case using n p Cons.IH [OF d(2)] by (subst is_sorted_loop.simps) simp
qed

lemma is_sorted_dll:
  assumes "dll h l (xs @ ys @ zs)"
  shows "is_sorted h (hd (ys @ zs @ [tail_of l])) (hd (zs @ [tail_of l])) lt = Some (nondec lt ys)"
proof (cases ys)
  case (Cons a as)
  then have "a \<noteq> hd (zs @ [tail_of l])"
    using assms by (cases zs) (auto simp: dll_def nodes_def)
  then show ?thesis using is_sorted_loop_dll [of h l xs a as zs lt] assms
    by (simp add: Cons is_sorted_def)
qed (simp add: is_sorted_def)

lemma find_end_of_run_loop_dll:
  "dll h l (xs @ a # ys) \<Longrightarrow> find_end_of_run_loop h a (tail_of l) lt
     = Some (hd (snd (run_of lt a ys) @ [tail_of l]))"
proof (induction ys arbitrary: xs a)
  case Nil
  then have "list_next h a = Some (tail_of l)" using list_next_dll [of h l xs a "[]"] by simp
  then show ?case by (subst find_end_of_run_loop.simps) simp
next
  case (Cons y ys)
  have d: "dll h l ((xs @ [a]) @ y # ys)" using Cons.prems by simp
  have n: "list_next h a = Some y" using list_next_dll [OF Cons.prems] by simp
  have p: "list_prev h y = Some a" using list_prev_dll [OF d] by simp
  have "y \<noteq> tail_of l" using dll_step [OF d] by simp
  then show ?case using n p Cons.IH [OF d]
    by (subst find_end_of_run_loop.simps) (simp split: prod.splits)
qed

lemma find_end_of_run_dll:
  assumes "dll h l (xs @ a # ys)"
  shows "find_end_of_run h a (tail_of l) lt = Some (hd (snd (run_of lt a ys) @ [tail_of l]))"
  using find_end_of_run_loop_dll [OF assms] dll_step [OF assms] dll_nonnull(3,4) [OF assms]
  by (simp add: find_end_of_run_def ASSERT_True)

lemma inplace_merge_loop_dll:
  "dll h l (P @ as @ bs @ R) \<Longrightarrow>
   \<exists>h'. inplace_merge_loop h (hd (as @ bs @ R @ [tail_of l])) (hd (bs @ R @ [tail_of l]))
      (hd (R @ [tail_of l])) lt = Some h' \<and> dll h' l (P @ merge lt as bs @ R) \<and>
     (\<forall>p. p \<notin> set (nodes l (P @ as @ bs @ R)) \<longrightarrow> h' p = h p)"
proof (induction lt as bs arbitrary: P h rule: merge.induct)
  case (1 lt bs)
  then show ?case by (subst inplace_merge_loop.simps) auto
next
  case (2 lt a as)
  then show ?case by (subst inplace_merge_loop.simps) auto
next
  case (3 lt a as b bs)
  let ?t = "tail_of l"
  have ne: "a \<noteq> b" "b \<noteq> hd (R @ [?t])"
    using "3.prems" by (cases R; auto simp: dll_def nodes_def)+
  show ?case
  proof (cases "lt b a")
    case False
    have d: "dll h l ((P @ [a]) @ as @ (b # bs) @ R)" using "3.prems" by simp
    have "list_next h a = Some (hd (as @ (b # bs) @ R @ [?t]))"
      using list_next_dll [of h l P a "as @ (b # bs) @ R"] "3.prems" by simp
    then show ?thesis using "3.IH"(1) [OF False d] ne False
      by (subst inplace_merge_loop.simps) (auto simp: insert_commute)
  next
    case True
    let ?n = "hd (bs @ R @ [?t])"
    have nx: "list_next h b = Some ?n"
      using list_next_dll [of h l "P @ a # as" b "bs @ R"] "3.prems" by simp
    have pv: "list_prev h ?n = Some b"
      using list_prev_dll [of h l "P @ a # as @ [b]" "bs @ R"] "3.prems" by simp
    obtain h1 where h1: "list_splice h a b ?n = Some h1" "dll h1 l (P @ [b] @ (a # as) @ bs @ R)"
      "\<forall>p. p \<notin> set (nodes l (P @ [b] @ (a # as) @ bs @ R)) \<longrightarrow> h1 p = h p"
      using list_splice_dll [of h l P "a # as" "[b]" "bs @ R"] "3.prems" by auto
    have d: "dll h1 l ((P @ [b]) @ (a # as) @ bs @ R)" using h1(2) by simp
    have sets: "set (nodes l ((P @ [b]) @ (a # as) @ bs @ R)) = set (nodes l (P @ (a # as) @ (b # bs) @ R))"
      by (auto simp: nodes_def)
    show ?thesis using "3.IH"(2) [OF _ d] ne True nx pv h1(1,3) sets
      by (subst inplace_merge_loop.simps) auto
  qed
qed

lemma inplace_merge_dll:
  assumes d: "dll h l (P @ as @ bs @ R)" and ne: "as \<noteq> []" "bs \<noteq> []"
    and s: "nondec lt as" "nondec lt bs"
  shows "\<exists>h'. inplace_merge h (hd as) (hd bs) (hd (R @ [tail_of l])) lt = Some h' \<and>
     dll h' l (P @ merge lt as bs @ R) \<and>
     (\<forall>p. p \<notin> set (nodes l (P @ as @ bs @ R)) \<longrightarrow> h' p = h p)"
proof -
  have "hd as \<noteq> NULL" "hd bs \<noteq> NULL"
    using dll_nonnull(4) [OF d] ne by simp_all
  moreover have "hd (R @ [tail_of l]) \<noteq> NULL"
    using dll_nonnull(3,4) [OF d] by (cases R) simp_all
  moreover have "is_sorted h (hd as) (hd bs) lt = Some True"
    using is_sorted_dll [of h l P as "bs @ R" lt] d ne s by simp
  moreover have "is_sorted h (hd bs) (hd (R @ [tail_of l])) lt = Some True"
    using is_sorted_dll [of h l "P @ as" bs R lt] d ne s by simp
  ultimately show ?thesis
    using inplace_merge_loop_dll [OF d, of lt] ne by (simp add: inplace_merge_def ASSERT_True)
qed

lemma set_merge [simp]: "set (merge lt as bs) = set as \<union> set bs"
  by (induction lt as bs rule: merge.induct) auto

lemma mset_merge [simp]: "mset (merge lt as bs) = mset as + mset bs"
  by (induction lt as bs rule: merge.induct) auto

lemma mset_pass: "mset (fst (pass lt xs)) = mset xs"
proof (induction lt xs rule: pass.induct)
  case (2 lt a ys)
  show ?case
  proof (cases "snd (run_of lt a ys)")
    case (Cons b zs)
    have "mset (a # ys) = mset (fst (run_of lt a ys)) + mset (b # zs)"
      using run_of_append [of lt a ys] Cons by (metis mset_append prod.collapse)
    moreover have "mset (b # zs) = mset (fst (run_of lt b zs)) + mset (snd (run_of lt b zs))"
      using run_of_append [of lt b zs] by (metis mset_append prod.collapse)
    ultimately show ?thesis using "2.IH" [OF Cons] Cons by (cases "pass lt (snd (run_of lt b zs))") simp
  qed simp
qed simp

lemma list_sort_pass_dll:
  "dll h l (P @ xs) \<Longrightarrow>
   \<exists>h'. list_sort_pass h (hd (xs @ [tail_of l])) (tail_of l) lt c = Some (c + snd (pass lt xs), h') \<and>
     dll h' l (P @ fst (pass lt xs)) \<and> (\<forall>p. p \<notin> set (nodes l (P @ xs)) \<longrightarrow> h' p = h p)"
proof (induction lt xs arbitrary: P h c rule: pass.induct)
  case (1 lt)
  then show ?case by (subst list_sort_pass.simps) simp
next
  case (2 lt a ys)
  let ?t = "tail_of l"
  obtain r1 s1 where r1: "run_of lt a ys = (r1, s1)" by (cases "run_of lt a ys")
  have r1': "a # ys = r1 @ s1" "r1 \<noteq> []" "hd r1 = a" "nondec lt r1"
    using run_of_append [OF r1] run_of_nondec [OF r1] by blast+
  have f1: "find_end_of_run h a ?t lt = Some (hd (s1 @ [?t]))" and ne: "a \<noteq> ?t"
    using find_end_of_run_dll [OF "2.prems"] dll_step [OF "2.prems"] r1 by simp_all
  show ?case
  proof (cases s1)
    case Nil
    then show ?thesis using f1 ne r1 "2.prems" by (subst list_sort_pass.simps) simp
  next
    case (Cons b zs)
    obtain r2 s2 where r2: "run_of lt b zs = (r2, s2)" by (cases "run_of lt b zs")
    have r2': "b # zs = r2 @ s2" "r2 \<noteq> []" "hd r2 = b" "nondec lt r2"
      using run_of_append [OF r2] run_of_nondec [OF r2] by blast+
    have d1: "dll h l ((P @ r1) @ b # zs)" using "2.prems" r1' Cons by simp
    have f2: "find_end_of_run h b ?t lt = Some (hd (s2 @ [?t]))" and ne2: "b \<noteq> ?t"
      using find_end_of_run_dll [OF d1] dll_step [OF d1] r2 by simp_all
    have d2: "dll h l (P @ r1 @ r2 @ s2)" using d1 r2' by simp
    obtain h1 where h1: "inplace_merge h a b (hd (s2 @ [?t])) lt = Some h1"
      "dll h1 l (P @ merge lt r1 r2 @ s2)"
      "\<forall>p. p \<notin> set (nodes l (P @ r1 @ r2 @ s2)) \<longrightarrow> h1 p = h p"
      using inplace_merge_dll [OF d2 r1'(2) r2'(2) r1'(4) r2'(4)] r1'(3) r2'(3) by auto
    have d3: "dll h1 l ((P @ merge lt r1 r2) @ snd (run_of lt b zs))" using h1(2) r2 by simp
    have sets: "set (nodes l ((P @ merge lt r1 r2) @ s2)) = set (nodes l (P @ a # ys))"
      "set (nodes l (P @ r1 @ r2 @ s2)) = set (nodes l (P @ a # ys))"
      unfolding r1'(1) Cons r2'(1) by (auto simp: nodes_def)
    have b: "snd (run_of lt a ys) = b # zs" using r1 Cons by simp
    obtain h2 where h2: "list_sort_pass h1 (hd (s2 @ [?t])) ?t lt (c + 1)
        = Some (c + 1 + snd (pass lt s2), h2)"
      "dll h2 l (P @ merge lt r1 r2 @ fst (pass lt s2))"
      "\<forall>p. p \<notin> set (nodes l (P @ a # ys)) \<longrightarrow> h2 p = h1 p"
      using "2.IH" [OF b d3, of "c + 1"] r2 sets by auto
    show ?thesis using f1 f2 ne ne2 h1 h2 r1 r2 Cons sets
      by (subst list_sort_pass.simps) (auto split: prod.splits)
  qed
qed

subsection \<open>The number of runs falls, so the passes end\<close>

text \<open>Positions where an element precedes its left neighbour.\<close>

fun descents :: "('a \<Rightarrow> 'a \<Rightarrow> bool) \<Rightarrow> 'a list \<Rightarrow> nat" where
  "descents lt (x # y # zs) = (if lt y x then 1 else 0) + descents lt (y # zs)"
| "descents lt _ = 0"

lemma nondec_descents: "nondec lt xs \<longleftrightarrow> descents lt xs = 0"
  by (induction lt xs rule: nondec.induct) auto

lemma descents_append: "descents lt (xs @ ys) \<le> descents lt xs + descents lt ys + 1"
  by (induction lt xs rule: descents.induct) (cases ys; auto)+

lemma run_of_descents:
  "run_of lt a ys = (r, rest) \<Longrightarrow>
     descents lt (a # ys) = (if rest = [] then 0 else 1 + descents lt rest)"
proof (induction ys arbitrary: a r)
  case (Cons y ys)
  then show ?case by (cases "lt y a") (auto split: prod.splits)
qed auto

lemma pass_count: "xs \<noteq> [] \<Longrightarrow> snd (pass lt xs) = descents lt xs div 2 + 1"
proof (induction lt xs rule: pass.induct)
  case (2 lt a ys)
  obtain r1 s1 where r1: "run_of lt a ys = (r1, s1)" by (cases "run_of lt a ys")
  note d1 = run_of_descents [OF r1]
  show ?case
  proof (cases s1)
    case (Cons b zs)
    obtain r2 s2 where r2: "run_of lt b zs = (r2, s2)" by (cases "run_of lt b zs")
    note d2 = run_of_descents [OF r2]
    have IH: "s2 \<noteq> [] \<Longrightarrow> snd (pass lt s2) = descents lt s2 div 2 + 1"
      using "2.IH" [of b zs] r1 r2 Cons by simp
    show ?thesis using d1 d2 IH r1 r2 Cons
      by (cases "s2 = []") (auto split: prod.splits)
  qed (use r1 d1 in simp)
qed simp

section \<open>Sorting by a key\<close>

text \<open>The contract of a comparison callback: \<open>lt\<close> compares a key in a linear order.\<close>

lemma sorted_merge_key:
  assumes "\<And>a b. lt a b \<longleftrightarrow> key a < (key b :: 'k::linorder)"
    and "sorted (map key as)" "sorted (map key bs)"
  shows "sorted (map key (merge lt as bs))"
  using assms by (induction lt as bs rule: merge.induct) (force simp: not_less)+

lemma filter_merge_key:
  assumes "\<And>a b. lt a b \<longleftrightarrow> key a < (key b :: 'k::linorder)" and "sorted (map key as)"
  shows "filter (\<lambda>x. key x = k) (merge lt as bs) = filter (\<lambda>x. key x = k) as @ filter (\<lambda>x. key x = k) bs"
  using assms
proof (induction lt as bs rule: merge.induct)
  case (3 lt a as b bs)
  show ?case
  proof (cases "key b < key a")
    case True
    then have "key b = k \<Longrightarrow> filter (\<lambda>x. key x = k) (a # as) = []"
      using "3.prems" by (auto simp: filter_empty_conv)
    then show ?thesis using "3.IH"(2) "3.prems" True by auto
  next
    case False
    then show ?thesis using "3.IH"(1) "3.prems" by auto
  qed
qed auto

locale key_order =
  fixes lt :: "'a \<Rightarrow> 'a \<Rightarrow> bool" and key :: "'a \<Rightarrow> 'k::linorder"
  assumes lt_key: "lt a b \<longleftrightarrow> key a < key b"
begin

lemma nondec_sorted: "nondec lt xs \<longleftrightarrow> sorted (map key xs)"
  by (induction xs rule: induct_list012) (auto simp: lt_key not_less intro: order_trans)

lemma sorted_insert_ordered:
  "sorted (map key xs) \<Longrightarrow> sorted (map key (insert_ordered lt x xs))"
proof (induction xs)
  case (Cons y ys)
  then show ?case
    by (auto simp: insert_ordered_def lt_key not_less dest: set_takeWhileD set_dropWhileD
        intro: order_trans less_imp_le)
qed (simp add: insert_ordered_def)

lemmas sorted_merge = sorted_merge_key [of lt key, OF lt_key]
lemmas filter_merge = filter_merge_key [of lt key, OF lt_key]

text \<open>A pass merges sorted runs, so at most one descent per pair of runs is left.\<close>

lemma pass_descents: "descents lt (fst (pass lt xs)) \<le> snd (pass lt xs) - 1"
proof (induction xs rule: length_induct)
  case (1 xs)
  show ?case
  proof (cases xs)
    case (Cons a ys)
    obtain r1 s1 where r1: "run_of lt a ys = (r1, s1)" by (cases "run_of lt a ys")
    note d1 = run_of_descents [OF r1]
    show ?thesis
    proof (cases s1)
      case [simp]: (Cons b zs)
      obtain r2 s2 where r2: "run_of lt b zs = (r2, s2)" by (cases "run_of lt b zs")
      have len: "length s2 < length xs"
        using run_of_length [of lt a ys] run_of_length [of lt b zs] r1 r2 \<open>xs = a # ys\<close> by simp
      then have IH: "descents lt (fst (pass lt s2)) \<le> snd (pass lt s2) - 1" using "1.IH" by blast
      have m: "descents lt (merge lt r1 r2) = 0"
        using run_of_nondec [OF r1] run_of_nondec [OF r2] sorted_merge
        by (simp add: nondec_sorted flip: nondec_descents)
      show ?thesis
      proof (cases "s2 = []")
        case True
        then show ?thesis using r1 r2 m \<open>xs = a # ys\<close> by simp
      next
        case False
        then have "1 \<le> snd (pass lt s2)" by (simp add: pass_count)
        then show ?thesis
          using descents_append [of lt "merge lt r1 r2" "fst (pass lt s2)"] IH m r1 r2 \<open>xs = a # ys\<close>
          by (cases "pass lt s2") simp
      qed
    qed (use r1 d1 \<open>xs = a # ys\<close> in simp)
  qed simp
qed

lemma pass_filter:
  "filter (\<lambda>x. key x = k) (fst (pass lt xs)) = filter (\<lambda>x. key x = k) xs"
proof (induction xs rule: length_induct)
  case (1 xs)
  show ?case
  proof (cases xs)
    case (Cons a ys)
    obtain r1 s1 where r1: "run_of lt a ys = (r1, s1)" by (cases "run_of lt a ys")
    have x1: "xs = r1 @ s1" using run_of_append [OF r1] Cons by blast
    show ?thesis
    proof (cases s1)
      case [simp]: (Cons b zs)
      obtain r2 s2 where r2: "run_of lt b zs = (r2, s2)" by (cases "run_of lt b zs")
      have x2: "b # zs = r2 @ s2" using run_of_append [OF r2] by blast
      have "length s2 < length xs"
        using run_of_length [of lt a ys] run_of_length [of lt b zs] r1 r2 \<open>xs = a # ys\<close> by simp
      then have IH: "filter (\<lambda>x. key x = k) (fst (pass lt s2)) = filter (\<lambda>x. key x = k) s2"
        using "1.IH" by blast
      have "fst (pass lt xs) = merge lt r1 r2 @ fst (pass lt s2)"
        using r1 r2 \<open>xs = a # ys\<close> by (simp split: prod.splits)
      moreover have "xs = r1 @ r2 @ s2" using x1 x2 by simp
      moreover have "sorted (map key r1)" using run_of_nondec [OF r1] by (simp add: nondec_sorted)
      ultimately show ?thesis using IH by (simp add: filter_merge)
    qed (use r1 \<open>xs = a # ys\<close> in simp)
  qed simp
qed

text \<open>Repeated passes reach the stable sort of the list.\<close>

lemma pass_sort_key: "snd (pass lt xs) \<le> 1 \<Longrightarrow> fst (pass lt xs) = sort_key key xs"
proof -
  assume "snd (pass lt xs) \<le> 1"
  then have "nondec lt (fst (pass lt xs))" using pass_descents [of xs] by (simp add: nondec_descents)
  then have "sorted (map key (fst (pass lt xs)))" by (simp add: nondec_sorted)
  then show ?thesis
    using pass_filter [of "key k" xs for k]
    by (intro properties_for_sort_key [symmetric]) (auto simp: mset_pass eq_commute)
qed

lemma sort_key_pass: "sort_key key (fst (pass lt xs)) = sort_key key xs"
proof (rule properties_for_sort_key)
  fix k
  show "filter (\<lambda>x. key k = key x) (sort_key key xs) = filter (\<lambda>x. key k = key x) (fst (pass lt xs))"
    using pass_filter [of "key k" xs] sort_key_stable [of key "key k" xs] by (simp add: eq_commute)
qed (simp_all add: mset_pass)

end

locale elem_order = key_order lt key for lt :: less_func and key :: "addr \<Rightarrow> 'k::linorder"
begin

lemma list_sort_loop_dll:
  "dll h l xs \<Longrightarrow> \<exists>h'. list_sort_loop h l lt = Some h' \<and> dll h' l (sort_key key xs) \<and>
     (\<forall>p. p \<notin> set (nodes l xs) \<longrightarrow> h' p = h p)"
proof (induction "descents lt xs" arbitrary: h xs rule: less_induct)
  case less
  let ?ys = "fst (pass lt xs)" and ?n = "snd (pass lt xs)"
  obtain h1 where h1: "list_sort_pass h (hd (xs @ [tail_of l])) (tail_of l) lt 0 = Some (?n, h1)"
    "dll h1 l ?ys" "\<forall>p. p \<notin> set (nodes l xs) \<longrightarrow> h1 p = h p"
    using list_sort_pass_dll [of h l "[]" xs lt 0] less.prems by auto
  have step: "list_sort_loop h l lt = (if ?n > 1 then list_sort_loop h1 l lt else Some h1)"
    by (subst list_sort_loop.simps)
      (simp add: list_begin_dll [OF less.prems] list_end_dll [OF less.prems] h1(1))
  show ?case
  proof (cases "?n > 1")
    case True
    then have "xs \<noteq> []" by auto
    then have "descents lt ?ys < descents lt xs"
      using True pass_descents [of xs] by (simp add: pass_count)
    from less.hyps [OF this h1(2), unfolded sort_key_pass] obtain h2
      where "list_sort_loop h1 l lt = Some h2" "dll h2 l (sort_key key xs)"
        "\<forall>p. p \<notin> set (nodes l ?ys) \<longrightarrow> h2 p = h1 p"
      by blast
    moreover have "set (nodes l ?ys) = set (nodes l xs)"
      using mset_eq_setD [OF mset_pass [of lt xs]] by (simp add: nodes_def)
    ultimately show ?thesis using True h1(3) unfolding step by auto
  next
    case False
    then show ?thesis using h1(2,3) pass_sort_key [of xs] unfolding step by simp
  qed
qed

lemma list_sort_dll:
  assumes d: "dll h l xs"
  shows "\<exists>h'. list_sort h l lt = Some h' \<and> dll h' l (sort_key key xs) \<and>
     (\<forall>p. p \<notin> set (nodes l xs) \<longrightarrow> h' p = h p)"
proof -
  obtain h' where h': "list_sort_loop h l lt = Some h'" "dll h' l (sort_key key xs)"
    "\<forall>p. p \<notin> set (nodes l xs) \<longrightarrow> h' p = h p"
    using list_sort_loop_dll [OF d] by blast
  have "is_sorted h' (hd (sort_key key xs @ [tail_of l])) (tail_of l) lt = Some True"
    using is_sorted_dll [of h' l "[]" "sort_key key xs" "[]" lt] h'(2) by (simp add: nondec_sorted)
  then show ?thesis
    using h' dll_nonnull(1) [OF d]
    by (simp add: list_sort_def list_begin_dll list_end_dll ASSERT_True)
qed

end

section \<open>Reversal\<close>

text \<open>The heap with the two links of every element of \<open>S\<close> exchanged.\<close>

definition swapped :: "heap \<Rightarrow> addr set \<Rightarrow> heap" where
  "swapped h S = (\<lambda>p. if p \<in> S then \<lparr>le_prev = le_next (h p), le_next = le_prev (h p)\<rparr> else h p)"

lemma swap_links_eq: "p \<noteq> NULL \<Longrightarrow> swap_links h p = Some (swapped h {p})"
  by (auto simp: swap_links_def link_defs upd_prev_def upd_next_def swapped_def fun_eq_iff)

lemma swapped_insert: "p \<notin> S \<Longrightarrow> swapped (swapped h {p}) S = swapped h (insert p S)"
  by (auto simp: swapped_def fun_eq_iff)

lemma list_reverse_loop_eq:
  "distinct (ys @ [t]) \<Longrightarrow> NULL \<notin> set ys \<Longrightarrow> chain h (ys @ [t]) \<Longrightarrow>
     list_reverse_loop h (hd (ys @ [t])) t = Some (swapped h (set ys))"
proof (induction ys arbitrary: h)
  case Nil
  then show ?case by (subst list_reverse_loop.simps) (simp add: swapped_def)
next
  case (Cons y ys)
  let ?h = "swapped h {y}"
  have nx: "le_next (h y) = hd (ys @ [t])" and ch: "chain h (ys @ [t])"
    using Cons.prems(3) by (cases ys; simp)+
  have "chain ?h (ys @ [t]) = chain h (ys @ [t])"
    using Cons.prems(1) by (intro chain_outer) (auto simp: swapped_def)
  then have "list_reverse_loop ?h (hd (ys @ [t])) t = Some (swapped ?h (set ys))"
    using Cons ch by auto
  moreover have "get_prev ?h y = Some (hd (ys @ [t]))"
    using Cons.prems(2) nx by (simp add: get_prev_def swapped_def)
  ultimately show ?case
    using Cons.prems by (subst list_reverse_loop.simps) (auto simp: swap_links_eq swapped_insert)
qed

lemma chain_swapped: "set xs \<subseteq> S \<Longrightarrow> chain (swapped h S) (rev xs) \<longleftrightarrow> chain h xs"
proof (induction xs rule: induct_list012)
  case (3 x y zs)
  then show ?case
    using chain_append [of "swapped h S" "rev zs" y "[x]"] by (auto simp: swapped_def)
qed auto

lemma list_reverse_dll:
  assumes d: "dll h l xs"
  shows "\<exists>h'. list_reverse h l = Some h' \<and> dll h' l (rev xs) \<and>
    (\<forall>p. p \<notin> set (nodes l xs) \<longrightarrow> h' p = h p)"
proof (cases "xs = []")
  case True
  then show ?thesis using d by (auto simp: list_reverse_def list_empty_dll)
next
  case ne: False
  let ?H = "head_of l" and ?T = "tail_of l" and ?f = "hd xs" and ?g = "last xs"
  let ?s = "swapped h (set xs)"
  have dist: "distinct (?H # xs @ [?T])" and nn: "NULL \<notin> set (?H # xs @ [?T])"
    and ch: "chain h (?H # xs @ [?T])"
    using d unfolding dll_def nodes_def by blast+
  have links: "le_next (h ?H) = ?f" "le_prev (h ?f) = ?H" "le_next (h ?g) = ?T" "le_prev (h ?T) = ?g"
    and chs: "chain h (xs @ [?T])" "chain h xs"
    using ch ne chain_join [of "[?H]" "xs @ [?T]" h] chain_join [of xs "[?T]" h] by auto
  have fg: "?f \<noteq> ?H" "?f \<noteq> ?T" "?g \<noteq> ?H" "?g \<noteq> ?T" "?f \<noteq> NULL" "?g \<noteq> NULL" "?f \<in> set xs" "?g \<in> set xs"
    using dist nn ne by (auto simp: end_neq)
  have loop: "list_reverse_loop h (hd (xs @ [?T])) ?T = Some ?s"
    using list_reverse_loop_eq [of xs ?T h] dist nn chs by auto
  define h' where "h' = upd_next (upd_prev (upd_prev (upd_next ?s ?H ?g) ?T ?f) ?g ?H) ?f ?T"
  have HT: "?H \<noteq> NULL" "?T \<noteq> NULL" "?H \<noteq> ?T" "?H \<notin> set xs" "?T \<notin> set xs" using dist nn by auto
  have s: "le_next (?s ?H) = ?f" "le_prev (?s ?T) = ?g" "le_prev (?s ?g) = ?T" "le_next (?s ?f) = ?H"
    using links fg HT by (simp_all add: swapped_def)
  have run: "list_reverse h l = Some h'"
    using ne HT s fg loop
    by (simp add: list_reverse_def list_empty_dll [OF d] list_begin_dll [OF d] list_end_dll [OF d]
        get_prev_def get_next_def set_prev_def set_next_def h'_def)
  have "chain h' (rev xs) = chain ?s (rev xs)"
    using dist ne HT by (intro chain_outer) (auto simp: h'_def hd_rev last_rev)
  then have "chain h' (rev xs)" using chs chain_swapped [of xs "set xs" h] by simp
  then have "chain h' (?H # rev xs @ [?T])"
    using ne fg HT s chain_join [of "[?H]" "rev xs @ [?T]" h'] chain_join [of "rev xs" "[?T]" h']
    by (simp add: h'_def hd_rev last_rev)
  moreover have "le_prev (h' ?H) = NULL" "le_next (h' ?T) = NULL"
    using d fg HT by (auto simp: h'_def swapped_def dll_def)
  ultimately have "dll h' l (rev xs)" using dist nn by (simp add: dll_def nodes_def)
  moreover have "\<forall>p. p \<notin> set (nodes l xs) \<longrightarrow> h' p = h p"
    using fg by (auto simp: h'_def upd_next_def upd_prev_def swapped_def nodes_def)
  ultimately show ?thesis using run by blast
qed

section \<open>Removing adjacent duplicates\<close>

text \<open>\<open>uniq lt x ys\<close>: what \<^verbatim>\<open>list_unique\<close> keeps behind \<open>x\<close>, and what it moves out.\<close>

fun uniq :: "('a \<Rightarrow> 'a \<Rightarrow> bool) \<Rightarrow> 'a \<Rightarrow> 'a list \<Rightarrow> 'a list \<times> 'a list" where
  "uniq lt x [] = ([], [])"
| "uniq lt x (y # ys) =
     (if \<not> lt x y \<and> \<not> lt y x then let (k, r) = uniq lt x ys in (k, y # r)
      else let (k, r) = uniq lt y ys in (y # k, r))"

lemma dll_frame:
  "(\<And>p. p \<in> set (nodes l xs) \<Longrightarrow> h' p = h p) \<Longrightarrow> dll h' l xs = dll h l xs"
proof -
  assume eq: "\<And>p. p \<in> set (nodes l xs) \<Longrightarrow> h' p = h p"
  then have "chain h' (nodes l xs) = chain h (nodes l xs)"
    by (intro chain_cong) (auto simp: nodes_def dest: in_set_butlastD)
  moreover have "h' (head_of l) = h (head_of l)" "h' (tail_of l) = h (tail_of l)"
    using eq by (auto simp: nodes_def)
  ultimately show ?thesis by (simp add: dll_def)
qed

lemma list_unique_loop_dll:
  "dll h l (xs @ x # ys) \<Longrightarrow> dll h d ds \<Longrightarrow> set (nodes l (xs @ x # ys)) \<inter> set (nodes d ds) = {} \<Longrightarrow>
   \<exists>h'. list_unique_loop h x l d lt = Some h' \<and> dll h' l (xs @ x # fst (uniq lt x ys)) \<and>
     dll h' d (ds @ snd (uniq lt x ys))"
proof (induction ys arbitrary: h xs x ds)
  case Nil
  then show ?case using dll_step [OF Nil.prems(1)] list_end_dll [OF Nil.prems(1)]
    by (subst list_unique_loop.simps) auto
next
  case (Cons y ys)
  have d1: "dll h l ((xs @ [x]) @ y # ys)" using Cons.prems(1) by simp
  have nx: "list_next h x = Some y" and yt: "y \<noteq> tail_of l"
    using dll_step [OF Cons.prems(1)] dll_step [OF d1] by simp_all
  note en = list_end_dll [OF Cons.prems(1)]
  show ?case
  proof (cases "\<not> lt x y \<and> \<not> lt y x")
    case False
    have "set (nodes l ((xs @ [x]) @ y # ys)) \<inter> set (nodes d ds) = {}" using Cons.prems(3) by simp
    from Cons.IH [OF d1 Cons.prems(2) this] show ?thesis
      using nx yt en False by (subst list_unique_loop.simps) (auto split: prod.splits)
  next
    case True
    obtain h1 where h1: "list_remove h y = Some (hd (ys @ [tail_of l]), h1)" "dll h1 l (xs @ x # ys)"
      "\<forall>p. p \<notin> set (nodes l ((xs @ [x]) @ ys)) \<longrightarrow> h1 p = h p"
      using list_remove_dll [OF d1] by auto
    have "set (nodes l ((xs @ [x]) @ ys)) \<subseteq> set (nodes l (xs @ x # y # ys))" by (auto simp: nodes_def)
    then have "dll h1 d ds = dll h d ds"
      using Cons.prems(3) h1(3) by (intro dll_frame) blast
    then have dd: "dll h1 d ds" using Cons.prems(2) by simp
    have y: "y \<notin> set (nodes d ds)" "y \<noteq> NULL" "y \<notin> set (nodes l (xs @ x # ys))"
      using Cons.prems(1,3) by (auto simp: nodes_def dll_def)
    obtain h2 where h2: "list_push_back h1 d y = Some h2" "dll h2 d (ds @ [y])"
      "\<forall>p. p \<notin> set (nodes d (ds @ [y])) \<longrightarrow> h2 p = h1 p"
      using list_push_back_dll [OF dd y(1,2)] by blast
    have disj: "set (nodes l (xs @ x # ys)) \<inter> set (nodes d (ds @ [y])) = {}"
      using Cons.prems(3) y(3) by (auto simp: nodes_def)
    then have "dll h2 l (xs @ x # ys) = dll h1 l (xs @ x # ys)"
      using h2(3) by (intro dll_frame) blast
    then have dl: "dll h2 l (xs @ x # ys)" using h1(2) by simp
    have "d \<noteq> NULL" by (rule dll_nonnull(1) [OF dd])
    then show ?thesis using Cons.IH [OF dl h2(2) disj] nx yt en True h1(1) h2(1)
      by (subst list_unique_loop.simps) (auto split: prod.splits)
  qed
qed

lemma list_unique_dll:
  assumes "dll h l (x # ys)" "dll h d ds" "set (nodes l (x # ys)) \<inter> set (nodes d ds) = {}"
  shows "\<exists>h'. list_unique h l d lt = Some h' \<and> dll h' l (x # fst (uniq lt x ys)) \<and>
     dll h' d (ds @ snd (uniq lt x ys))"
  using list_unique_loop_dll [of h l "[]" x ys d ds lt] assms dll_nonnull(1) [OF assms(1)]
  by (simp add: list_unique_def list_empty_dll list_begin_dll ASSERT_True)


section \<open>The queue interface\<close>

text \<open>
  What the clients of a queue rely on: pushing appends, popping takes the front, popping an
  empty queue panics.  \<open>repr h q xs\<close> says that in state \<open>h\<close> the queue \<open>q\<close> holds \<open>xs\<close>;
  \<open>fresh q xs e\<close> that \<open>e\<close> may be added to it.
\<close>

fun push_all :: "('h \<Rightarrow> 'q \<Rightarrow> 'e \<Rightarrow> 'h option) \<Rightarrow> 'h \<Rightarrow> 'q \<Rightarrow> 'e list \<Rightarrow> 'h option" where
  "push_all push h q [] = Some h"
| "push_all push h q (e # es) = do { h \<leftarrow> push h q e; push_all push h q es }"

fun pop_n :: "('h \<Rightarrow> 'q \<Rightarrow> ('e \<times> 'h) option) \<Rightarrow> 'h \<Rightarrow> 'q \<Rightarrow> nat \<Rightarrow> ('e list \<times> 'h) option" where
  "pop_n pop h q 0 = Some ([], h)"
| "pop_n pop h q (Suc n) = do {
     (e, h) \<leftarrow> pop h q;
     (es, h) \<leftarrow> pop_n pop h q n;
     Some (e # es, h)
   }"

locale fifo_queue =
  fixes repr :: "'h \<Rightarrow> 'q \<Rightarrow> 'e list \<Rightarrow> bool"
    and fresh :: "'q \<Rightarrow> 'e list \<Rightarrow> 'e \<Rightarrow> bool"
    and push :: "'h \<Rightarrow> 'q \<Rightarrow> 'e \<Rightarrow> 'h option"
    and pop :: "'h \<Rightarrow> 'q \<Rightarrow> ('e \<times> 'h) option"
  assumes push: "repr h q xs \<Longrightarrow> fresh q xs e \<Longrightarrow> \<exists>h'. push h q e = Some h' \<and> repr h' q (xs @ [e])"
    and pop: "repr h q (e # xs) \<Longrightarrow> \<exists>h'. pop h q = Some (e, h') \<and> repr h' q xs"
    and pop_empty: "repr h q [] \<Longrightarrow> pop h q = None"
    and fresh_snoc: "fresh q xs e \<Longrightarrow> fresh q xs d \<Longrightarrow> d \<noteq> e \<Longrightarrow> fresh q (xs @ [d]) e"
begin

lemma push_all_repr:
  assumes "repr h q xs" "distinct es" "\<forall>e\<in>set es. fresh q xs e"
  shows "\<exists>h'. push_all push h q es = Some h' \<and> repr h' q (xs @ es)"
  using assms
proof (induction es arbitrary: h xs)
  case (Cons e es)
  then obtain h1 where h1: "push h q e = Some h1" "repr h1 q (xs @ [e])" using push [OF Cons.prems(1), of e] by auto
  have "\<forall>d\<in>set es. fresh q (xs @ [e]) d" using Cons.prems by (auto intro: fresh_snoc)
  then show ?case using Cons.IH [OF h1(2)] Cons.prems(2) h1(1) by simp
qed simp

lemma pop_n_repr:
  assumes "repr h q (es @ xs)"
  shows "\<exists>h'. pop_n pop h q (length es) = Some (es, h') \<and> repr h' q xs"
  using assms
proof (induction es arbitrary: h)
  case (Cons e es)
  then obtain h1 where h1: "pop h q = Some (e, h1)" "repr h1 q (es @ xs)" using pop [of h q e "es @ xs"] by auto
  then show ?case using Cons.IH [OF h1(2)] by auto
qed simp

lemma first_in_first_out:
  assumes "repr h q []" "distinct es" "\<forall>e\<in>set es. fresh q [] e"
  shows "\<exists>h' h''. push_all push h q es = Some h' \<and> pop_n pop h' q (length es) = Some (es, h'') \<and>
    repr h'' q [] \<and> pop h'' q = None"
proof -
  obtain h' where h': "push_all push h q es = Some h'" "repr h' q es"
    using push_all_repr [OF assms] by auto
  moreover obtain h'' where "pop_n pop h' q (length es) = Some (es, h'')" "repr h'' q []"
    using pop_n_repr [of h' q es "[]"] h'(2) by auto
  ultimately show ?thesis using pop_empty by blast
qed

end

definition fresh_elem :: "addr \<Rightarrow> addr list \<Rightarrow> addr \<Rightarrow> bool" where
  "fresh_elem l xs e \<longleftrightarrow> e \<noteq> NULL \<and> e \<notin> set (nodes l xs)"

interpretation kl: fifo_queue dll fresh_elem list_push_back list_pop_front
proof
  show "dll h q xs \<Longrightarrow> fresh_elem q xs e \<Longrightarrow>
      \<exists>h'. list_push_back h q e = Some h' \<and> dll h' q (xs @ [e])" for h q xs e
    using list_push_back_dll [of h q xs e] by (auto simp: fresh_elem_def)
  show "dll h q (e # xs) \<Longrightarrow> \<exists>h'. list_pop_front h q = Some (e, h') \<and> dll h' q xs" for h q e xs
    using list_pop_front_dll [of h q e xs] by auto
  show "dll h q [] \<Longrightarrow> list_pop_front h q = None" for h q
    using list_pop_empty [of h q] by simp
  show "fresh_elem q xs e \<Longrightarrow> fresh_elem q xs d \<Longrightarrow> d \<noteq> e \<Longrightarrow> fresh_elem q (xs @ [d]) e" for q xs e d
    by (auto simp: fresh_elem_def nodes_def)
qed


section \<open>Properties\<close>

lemma insert_ordered_filter:
  assumes "\<And>a b. lt a b \<longleftrightarrow> key a < (key b :: 'k::linorder)" and "sorted (map key xs)"
  shows "insert_ordered lt e xs = [y\<leftarrow>xs. key y \<le> key e] @ e # [y\<leftarrow>xs. key e < key y]"
  using assms(2)
proof (induction xs)
  case (Cons y ys)
  show ?case
  proof (cases "key e < key y")
    case True
    then have "\<forall>z\<in>set ys. key e < key z" using Cons.prems by (auto intro: less_le_trans)
    then show ?thesis using True by (auto simp: insert_ordered_def assms(1) filter_empty_conv not_le
          intro!: filter_True [symmetric])
  next
    case False
    then show ?thesis using Cons by (auto simp: insert_ordered_def assms(1))
  qed
qed (simp add: insert_ordered_def)

text \<open>
  A list of three elements at addresses 100, 200 and 300, in that order, with its header at
  address 16; used by the witnesses.
\<close>

definition demo_heap :: heap where
  "demo_heap = (\<lambda>_. \<lparr>le_prev = 0, le_next = 0\<rparr>)
     (16 := \<lparr>le_prev = 0, le_next = 100\<rparr>, 100 := \<lparr>le_prev = 16, le_next = 200\<rparr>,
      200 := \<lparr>le_prev = 100, le_next = 300\<rparr>, 300 := \<lparr>le_prev = 200, le_next = 24\<rparr>,
      24 := \<lparr>le_prev = 300, le_next = 0\<rparr>)"

lemma demo_dll: "dll demo_heap 16 [100, 200, 300]"
  by (simp add: dll_def nodes_def head_of_def tail_of_def demo_heap_def)

definition demo_empty :: heap where
  "demo_empty = (\<lambda>_. \<lparr>le_prev = 0, le_next = 0\<rparr>)
     (16 := \<lparr>le_prev = 0, le_next = 24\<rparr>, 24 := \<lparr>le_prev = 16, le_next = 0\<rparr>)"

lemma demo_empty_dll: "dll demo_empty 16 []"
  by (simp add: dll_def nodes_def head_of_def tail_of_def demo_empty_def)

text \<open>
  C26 (\<^verbatim>\<open>list_sort\<close>).  On a well-formed list and a callback that compares a key, the natural merge
  sort returns (its passes end and none of its assertions fails), the list is well-formed again
  and holds exactly the stable sort of its elements, and no link outside the list has changed.
\<close>

theorem list_sort_correct:
  assumes "\<forall>a b. lt a b \<longleftrightarrow> key a < (key b :: 'k::linorder)" and "dll h l xs"
  shows "\<exists>h'. list_sort h l lt = Some h' \<and> dll h' l (sort_key key xs) \<and>
    (\<forall>p. p \<notin> set (nodes l xs) \<longrightarrow> h' p = h p)"
proof -
  have "elem_order lt key" using assms(1) by (simp add: elem_order_def key_order_def)
  then show ?thesis using assms(2) by (rule elem_order.list_sort_dll)
qed

theorem list_sort_correct_witness:
  "\<exists>h'. list_sort demo_heap 16 (\<lambda>a b. unat b mod 300 < unat a mod 300) = Some h' \<and>
    dll h' 16 [200, 100, 300]"
  using list_sort_correct [of "\<lambda>a b. unat b mod 300 < unat a mod 300" "\<lambda>a. - int (unat a mod 300)"
    demo_heap 16 "[100, 200, 300]"] demo_dll by auto

text \<open>
  (\<^verbatim>\<open>list_insert_ordered\<close>).  On a list sorted by the key, the call returns and the new element
  stands behind every element whose key is at most its own and in front of the rest, each part in
  its old order: among equal keys the list is first in, first out.
\<close>

theorem list_insert_ordered_correct:
  assumes "\<forall>a b. lt a b \<longleftrightarrow> key a < (key b :: 'k::linorder)" and "dll h l xs"
    and "sorted (map key xs)" and "e \<noteq> NULL" and "e \<notin> set (nodes l xs)"
  shows "\<exists>h'. list_insert_ordered h l e lt = Some h' \<and>
    dll h' l ([y\<leftarrow>xs. key y \<le> key e] @ e # [y\<leftarrow>xs. key e < key y])"
  using list_insert_ordered_dll [OF assms(2,5,4), of lt] insert_ordered_filter [of lt key xs e] assms(1,3)
  by auto

theorem list_insert_ordered_correct_witness:
  "\<exists>h'. list_insert_ordered demo_heap 16 250 (\<lambda>a b. unat a < unat b) = Some h' \<and>
     dll h' 16 [100, 200, 250, 300]"
  using list_insert_ordered_correct [of "\<lambda>a b. unat a < unat b" unat demo_heap 16 "[100, 200, 300]" 250]
    demo_dll by (auto simp: nodes_def head_of_def tail_of_def)

text \<open>
  C34 (\<^verbatim>\<open>list_push_back\<close>, \<^verbatim>\<open>list_pop_front\<close>).  Distinct elements pushed on an empty list come back out
  in the same order, none of the calls panics, and one pop more than there were elements does.
\<close>

theorem list_fifo:
  assumes "dll h l []" and "distinct es" and "\<forall>e\<in>set es. e \<noteq> NULL \<and> e \<noteq> head_of l \<and> e \<noteq> tail_of l"
  shows "\<exists>h' h''. push_all list_push_back h l es = Some h' \<and>
    pop_n list_pop_front h' l (length es) = Some (es, h'') \<and> dll h'' l [] \<and> list_pop_front h'' l = None"
  by (rule kl.first_in_first_out [OF assms(1,2)]) (use assms(3) in \<open>simp add: fresh_elem_def nodes_def\<close>)

theorem list_fifo_witness:
  "\<exists>h' h''. push_all list_push_back demo_empty 16 [500, 400] = Some h' \<and>
    pop_n list_pop_front h' 16 (length [500, 400 :: addr]) = Some ([500, 400], h'') \<and>
    dll h'' 16 [] \<and> list_pop_front h'' 16 = None"
  by (rule list_fifo [OF demo_empty_dll]) (simp_all add: head_of_def tail_of_def)

text \<open>
  (\<^verbatim>\<open>list_reverse\<close>).  Reversing a well-formed list returns and leaves the well-formed list of its
  elements in the opposite order; reversing twice gives the list back.
\<close>

theorem list_reverse_correct:
  assumes "dll h l xs"
  shows "\<exists>h' h''. list_reverse h l = Some h' \<and> dll h' l (rev xs) \<and>
    list_reverse h' l = Some h'' \<and> dll h'' l xs"
proof -
  obtain h' where h': "list_reverse h l = Some h'" "dll h' l (rev xs)"
    using list_reverse_dll [OF assms] by blast
  moreover obtain h'' where "list_reverse h' l = Some h''" "dll h'' l xs"
    using list_reverse_dll [OF h'(2)] by auto
  ultimately show ?thesis by blast
qed

theorem list_reverse_correct_witness:
  "\<exists>h' h''. list_reverse demo_heap 16 = Some h' \<and> dll h' 16 [300, 200, 100] \<and>
    list_reverse h' 16 = Some h'' \<and> dll h'' 16 [100, 200, 300]"
  using list_reverse_correct [OF demo_dll] by simp

end
