(* ===== verification/Fixed_Point.thy ===== *)
theory Fixed_Point
  imports Prelude
begin

text \<open>
  The 17.14 fixed-point arithmetic of the multi-level feedback scheduler
  (\<^verbatim>\<open>src/threads/thread.c\<close>, \<^verbatim>\<open>int_to_fixed\<close> to \<^verbatim>\<open>fixed_cal_fixed\<close>) and the formulas for the
  priority, the load average and the recent CPU time that are computed with it.

  \<open>int\<close> values wrap at 32 bits (\<open>s32\<close>); a division traps, and the kernel does not come back, when
  the divisor is zero or the quotient does not fit.
\<close>

section \<open>Operations\<close>

datatype cal = ADD | SUB | MUL | DIV

definition PRI_MIN :: int where "PRI_MIN = 0"
definition PRI_DEFAULT :: int where "PRI_DEFAULT = 31"
definition PRI_MAX :: int where "PRI_MAX = 63"

definition int_to_fixed :: "int \<Rightarrow> int" where
  "int_to_fixed num = s32 (num * 2 ^ 14)"

definition fixed_to_int :: "int \<Rightarrow> int" where
  "fixed_to_int fixed = cdiv fixed (2 ^ 14)"

text \<open>The \<open>idivl\<close> instruction on 32-bit operands.\<close>

definition idiv32 :: "int \<Rightarrow> int \<Rightarrow> int option" where
  "idiv32 a b = (if b = 0 \<or> (a = - (2 ^ 31) \<and> b = - 1) then None else Some (cdiv a b))"

fun fixed_cal_int :: "int \<Rightarrow> int \<Rightarrow> cal \<Rightarrow> int option" where
  "fixed_cal_int fixed num ADD = Some (s32 (fixed + s32 (num * 2 ^ 14)))"
| "fixed_cal_int fixed num SUB = Some (s32 (fixed - s32 (num * 2 ^ 14)))"
| "fixed_cal_int fixed num MUL = Some (s32 (fixed * num))"
| "fixed_cal_int fixed num DIV = idiv32 fixed num"

fun int_cal_fixed :: "int \<Rightarrow> int \<Rightarrow> cal \<Rightarrow> int" where
  "int_cal_fixed num fixed SUB = s32 (s32 (num * 2 ^ 14) - fixed)"
| "int_cal_fixed num fixed _ = 0"

fun fixed_cal_fixed :: "int \<Rightarrow> int \<Rightarrow> cal \<Rightarrow> int option" where
  "fixed_cal_fixed fixed1 fixed2 ADD = Some (s32 (fixed1 + fixed2))"
| "fixed_cal_fixed fixed1 fixed2 SUB = Some (s32 (fixed1 - fixed2))"
| "fixed_cal_fixed fixed1 fixed2 MUL = Some (s32 (cdiv (s64 (fixed1 * fixed2)) (2 ^ 14)))"
| "fixed_cal_fixed fixed1 fixed2 DIV =
     (if fixed2 = 0 then None else Some (s32 (cdiv (s64 (fixed1 * 2 ^ 14)) fixed2)))"

text \<open>The clamped priority, as \<^verbatim>\<open>thread_set_nice\<close> and \<^verbatim>\<open>calculate_priority\<close> both compute it.
  \<^verbatim>\<open>recent_cpu\<close> is an \<^verbatim>\<open>int64_t\<close> that is passed as an \<^verbatim>\<open>int\<close>.\<close>

definition clamp_priority :: "int \<Rightarrow> int" where
  "clamp_priority p = (if p > PRI_MAX then PRI_MAX else if p < PRI_MIN then PRI_MIN else p)"

definition new_priority :: "int \<Rightarrow> int \<Rightarrow> int option" where
  "new_priority rc nc = do {
     term1 \<leftarrow> fixed_cal_int (s32 rc) 4 DIV;
     term1 \<leftarrow> fixed_cal_int term1 (s32 (nc * 2)) ADD;
     Some (clamp_priority (fixed_to_int (int_cal_fixed PRI_MAX term1 SUB)))
   }"

definition new_load_avg :: "int \<Rightarrow> int \<Rightarrow> int option" where
  "new_load_avg la ready_length = do {
     a \<leftarrow> fixed_cal_int la 59 MUL;
     b \<leftarrow> fixed_cal_int a ready_length ADD;
     fixed_cal_int b 60 DIV
   }"

definition new_recent_cpu :: "int \<Rightarrow> int \<Rightarrow> int \<Rightarrow> int option" where
  "new_recent_cpu la rc nc = do {
     d \<leftarrow> fixed_cal_int (s32 (2 * la)) 1 ADD;
     term1 \<leftarrow> fixed_cal_fixed (s32 (2 * la)) d DIV;
     term1 \<leftarrow> fixed_cal_fixed term1 (s32 rc) MUL;
     fixed_cal_int term1 nc ADD
   }"

section \<open>Lemmas\<close>

lemma idiv32_pos [simp]: "0 < b \<Longrightarrow> idiv32 a b = Some (cdiv a b)"
  by (simp add: idiv32_def)

lemma clamp_priority_range: "PRI_MIN \<le> clamp_priority p" "clamp_priority p \<le> PRI_MAX"
  by (simp_all add: clamp_priority_def PRI_MIN_def PRI_MAX_def)

lemma new_priority_Some: "\<exists>p. new_priority rc nc = Some p \<and> PRI_MIN \<le> p \<and> p \<le> PRI_MAX"
  by (simp add: new_priority_def clamp_priority_range)

lemma new_load_avg_Some: "\<exists>v. new_load_avg la n = Some v"
  by (simp add: new_load_avg_def)

lemma cdiv_le: "0 < b \<Longrightarrow> 0 \<le> a \<Longrightarrow> a \<le> b * c \<Longrightarrow> cdiv a b \<le> c"
  using zdiv_mono1 [of a "b * c" b] by (simp add: cdiv_nonneg)

lemma cdiv_ge0: "0 < b \<Longrightarrow> 0 \<le> a \<Longrightarrow> 0 \<le> cdiv a b"
  by (simp add: cdiv_nonneg pos_imp_zdiv_nonneg_iff)

lemma new_load_avg_value:
  assumes "0 \<le> la" and "la \<le> n * 2 ^ 14" and "0 \<le> r" and "r \<le> n" and "n \<le> 2184"
  shows "new_load_avg la r = Some ((59 * la + r * 2 ^ 14) div 60) \<and>
    0 \<le> (59 * la + r * 2 ^ 14) div 60 \<and> (59 * la + r * 2 ^ 14) div 60 \<le> n * 2 ^ 14"
proof -
  let ?v = "59 * la + r * 2 ^ 14"
  have v: "0 \<le> ?v" "?v \<le> 60 * (n * 2 ^ 14)" using assms by simp_all
  have "s32 (la * 59) = la * 59" "s32 (r * 2 ^ 14) = r * 2 ^ 14" "s32 (la * 59 + r * 2 ^ 14) = ?v"
    using assms v by (simp_all add: s32_id)
  then have "new_load_avg la r = Some (cdiv ?v 60)" by (simp add: new_load_avg_def)
  then show ?thesis using v cdiv_le [of 60 ?v "n * 2 ^ 14"] cdiv_ge0 [of 60 ?v]
    by (simp add: cdiv_nonneg)
qed

lemma new_recent_cpu_Some:
  assumes "0 \<le> la" "la \<le> 2184 * 2 ^ 14"
  shows "\<exists>v. new_recent_cpu la rc nc = Some v"
proof -
  have "s32 (2 * la) = 2 * la" "s32 (2 * la + 2 ^ 14) = 2 * la + 2 ^ 14" "s32 (2 ^ 14) = 2 ^ 14"
    using assms by (simp_all add: s32_id)
  then show ?thesis using assms by (simp add: new_recent_cpu_def)
qed

section \<open>Properties\<close>

text \<open>
  C35 (\<^verbatim>\<open>calculate_priority\<close>, \<^verbatim>\<open>thread_set_nice\<close>).  For every recent CPU time that fits an
  \<^verbatim>\<open>int\<close> and every nice value from -20 to 20 no step of the fixed-point computation wraps: the
  priority is \<open>63 - recent_cpu / 4 - 2 * nice\<close>, each division truncated, clamped to 0..63.
\<close>

theorem new_priority_exact:
  assumes "- (2 ^ 31) \<le> rc" and "rc < 2 ^ 31" and "- 20 \<le> nc" and "nc \<le> 20"
  shows "new_priority rc nc =
    Some (max 0 (min 63 (cdiv (63 * 2 ^ 14 - cdiv rc 4 - 2 * nc * 2 ^ 14) (2 ^ 14))))"
proof -
  have q: "- (2 ^ 29) \<le> cdiv rc 4" "cdiv rc 4 < 2 ^ 29"
    using cdiv_mono [of 4 "- (2 ^ 31)" rc] cdiv_mono [of 4 rc "2 ^ 31 - 1"] assms(1,2)
    by (simp_all add: cdiv_def)
  have "s32 rc = rc" "s32 (nc * 2) = nc * 2" "s32 (nc * 2 * 2 ^ 14) = nc * 2 * 2 ^ 14"
    using assms by (simp_all add: s32_id)
  moreover have "s32 (cdiv rc 4 + nc * 2 * 2 ^ 14) = cdiv rc 4 + nc * 2 * 2 ^ 14"
    using q assms(3,4) by (simp add: s32_id)
  moreover have "s32 (63 * 2 ^ 14 - (cdiv rc 4 + nc * 2 * 2 ^ 14)) = 63 * 2 ^ 14 - (cdiv rc 4 + nc * 2 * 2 ^ 14)"
    using q assms(3,4) by (simp add: s32_id)
  moreover have "63 * 2 ^ 14 - (cdiv rc 4 + nc * 2 * 2 ^ 14) = 63 * 2 ^ 14 - cdiv rc 4 - 2 * nc * 2 ^ 14"
    by simp
  ultimately have "new_priority rc nc =
      Some (clamp_priority (cdiv (63 * 2 ^ 14 - cdiv rc 4 - 2 * nc * 2 ^ 14) (2 ^ 14)))"
    by (simp only: new_priority_def) (simp add: PRI_MAX_def fixed_to_int_def s32_id diff_diff_eq)
  then show ?thesis
    by (simp only: clamp_priority_def PRI_MAX_def PRI_MIN_def max_def min_def) auto
qed

theorem new_priority_exact_witness:
  "new_priority (10 * 2 ^ 14) 3 =
    Some (max 0 (min 63 (cdiv (63 * 2 ^ 14 - cdiv (10 * 2 ^ 14) 4 - 2 * 3 * 2 ^ 14) (2 ^ 14))))"
  by (rule new_priority_exact) simp_all

text \<open>
  (\<^verbatim>\<open>calculate_load_avg\<close>).  As long as the load average and the number of ready threads stay
  within \<open>n \<le> 2184\<close> threads, the update does not overflow: it is the exponential average
  \<open>(59 * load_avg + ready_threads) / 60\<close> and stays within the same bound.
\<close>

theorem new_load_avg_exact:
  assumes "0 \<le> la" and "la \<le> n * 2 ^ 14" and "0 \<le> r" and "r \<le> n" and "n \<le> 2184"
  shows "new_load_avg la r = Some ((59 * la + r * 2 ^ 14) div 60) \<and>
    0 \<le> (59 * la + r * 2 ^ 14) div 60 \<and> (59 * la + r * 2 ^ 14) div 60 \<le> n * 2 ^ 14"
  by (rule new_load_avg_value [OF assms])

theorem new_load_avg_exact_witness:
  "new_load_avg (2 ^ 14) 60 = Some ((59 * 2 ^ 14 + 60 * 2 ^ 14) div 60) \<and>
    0 \<le> (59 * 2 ^ 14 + 60 * 2 ^ 14) div (60 :: int) \<and> (59 * 2 ^ 14 + 60 * 2 ^ 14) div 60 \<le> 60 * (2 ^ 14 :: int)"
  by (rule new_load_avg_exact) simp_all

text \<open>
  (\<^verbatim>\<open>calculate_recent_cpu\<close>).  With a load average of at most 2184 and a recent CPU time that
  is not negative and fits an \<^verbatim>\<open>int\<close>, the update does not trap or wrap, and it decays: the new
  value is at least the nice term and exceeds the old value by at most the nice term.
\<close>

theorem new_recent_cpu_decays:
  assumes "0 \<le> la" and "la \<le> 2184 * 2 ^ 14" and "0 \<le> rc" and "rc < 2 ^ 30"
    and "- 20 \<le> nc" and "nc \<le> 20"
  shows "\<exists>v. new_recent_cpu la rc nc = Some v \<and> nc * 2 ^ 14 \<le> v \<and> v \<le> rc + nc * 2 ^ 14"
proof -
  let ?d = "2 * la + 2 ^ 14" let ?t = "cdiv (2 * la * 2 ^ 14) ?d" let ?u = "cdiv (?t * rc) (2 ^ 14)"
  have d: "s32 (2 * la) = 2 * la" "s32 ?d = ?d" "?d \<noteq> 0" "s64 (2 * la * 2 ^ 14) = 2 * la * 2 ^ 14"
    using assms(1,2) by (simp_all add: s32_id s64_id)
  have t: "0 \<le> ?t" "?t \<le> 2 ^ 14"
    using assms(1) cdiv_le [of ?d "2 * la * 2 ^ 14" "2 ^ 14"] cdiv_ge0 [of ?d "2 * la * 2 ^ 14"]
    by (simp_all add: algebra_simps)
  have tr: "0 \<le> ?t * rc" "?t * rc \<le> 2 ^ 14 * rc"
    using t assms(3) by (simp, meson mult_right_mono)
  have u: "0 \<le> ?u" "?u \<le> rc"
    using tr cdiv_le [of "2 ^ 14" "?t * rc" rc] cdiv_ge0 [of "2 ^ 14" "?t * rc"] by simp_all
  have "?t * rc < 2 ^ 63" using tr assms(4) by simp
  then have "s64 (?t * rc) = ?t * rc" using tr by (intro s64_id) linarith+
  moreover have "s32 ?t = ?t" "s32 rc = rc" "s32 ?u = ?u"
      "s32 (nc * 2 ^ 14) = nc * 2 ^ 14" "s32 (?u + nc * 2 ^ 14) = ?u + nc * 2 ^ 14"
    using t u assms(3-) by (simp_all add: s32_id)
  ultimately have "new_recent_cpu la rc nc = Some (?u + nc * 2 ^ 14)"
    using d s32_id [of "2 ^ 14"] by (simp add: new_recent_cpu_def)
  then show ?thesis using u by simp
qed

theorem new_recent_cpu_decays_witness:
  "\<exists>v. new_recent_cpu (2 ^ 14) (30 * 2 ^ 14) 1 = Some v \<and> 1 * 2 ^ 14 \<le> v \<and> v \<le> 30 * 2 ^ 14 + 1 * 2 ^ 14"
  by (rule new_recent_cpu_decays) simp_all

end
