(* ===== verification/Vaddr.thy ===== *)
theory Vaddr
  imports Prelude
begin

unbundle bit_operations_syntax

text \<open>
  Addresses and page table entries: \<^verbatim>\<open>src/threads/vaddr.h\<close>, \<^verbatim>\<open>src/threads/pte.h\<close> and
  the memory the kernel sees through the one-to-one mapping, as 32-bit words by address.
\<close>

section \<open>Operations\<close>

definition PGBITS :: nat where "PGBITS = 12"
definition PGSIZE :: u32 where "PGSIZE = push_bit PGBITS 1"
definition PGMASK :: u32 where "PGMASK = push_bit 0 (push_bit 12 1 - 1)"
definition PTMASK :: u32 where "PTMASK = push_bit 12 (push_bit 10 1 - 1)"

definition pg_ofs :: "u32 \<Rightarrow> u32" where
  "pg_ofs va = va AND PGMASK"

definition pg_no :: "u32 \<Rightarrow> u32" where
  "pg_no va = drop_bit PGBITS va"

definition pg_round_up :: "u32 \<Rightarrow> u32" where
  "pg_round_up va = (va + PGSIZE - 1) AND NOT PGMASK"

definition pg_round_down :: "u32 \<Rightarrow> u32" where
  "pg_round_down va = va AND NOT PGMASK"

definition PHYS_BASE :: u32 where "PHYS_BASE = 0xc0000000"

definition is_user_vaddr :: "u32 \<Rightarrow> bool" where
  "is_user_vaddr va \<longleftrightarrow> va < PHYS_BASE"

definition is_kernel_vaddr :: "u32 \<Rightarrow> bool" where
  "is_kernel_vaddr va \<longleftrightarrow> va \<ge> PHYS_BASE"

definition ptov :: "u32 \<Rightarrow> u32 option" where
  "ptov paddr = do {
     ASSERT (paddr < PHYS_BASE);
     Some (paddr + PHYS_BASE)
   }"

definition vtop :: "u32 \<Rightarrow> u32 option" where
  "vtop vaddr = do {
     ASSERT (is_kernel_vaddr vaddr);
     Some (vaddr - PHYS_BASE)
   }"

definition pt_no :: "u32 \<Rightarrow> u32" where
  "pt_no va = drop_bit 12 (va AND PTMASK)"

definition pd_no :: "u32 \<Rightarrow> u32" where
  "pd_no va = drop_bit 22 va"

definition PTE_ADDR :: u32 where "PTE_ADDR = 0xfffff000"
definition PTE_P :: u32 where "PTE_P = 0x1"
definition PTE_W :: u32 where "PTE_W = 0x2"
definition PTE_U :: u32 where "PTE_U = 0x4"
definition PTE_A :: u32 where "PTE_A = 0x20"
definition PTE_D :: u32 where "PTE_D = 0x40"

definition pde_create :: "u32 \<Rightarrow> u32 option" where
  "pde_create pt = do {
     ASSERT (pg_ofs pt = 0);
     p \<leftarrow> vtop pt;
     Some (p OR PTE_U OR PTE_P OR PTE_W)
   }"

definition pde_get_pt :: "u32 \<Rightarrow> u32 option" where
  "pde_get_pt pde = do {
     ASSERT (pde AND PTE_P \<noteq> 0);
     ptov (pde AND PTE_ADDR)
   }"

definition pte_create_kernel :: "u32 \<Rightarrow> bool \<Rightarrow> u32 option" where
  "pte_create_kernel page writable = do {
     ASSERT (pg_ofs page = 0);
     p \<leftarrow> vtop page;
     Some (p OR PTE_P OR (if writable then PTE_W else 0))
   }"

definition pte_create_user :: "u32 \<Rightarrow> bool \<Rightarrow> u32 option" where
  "pte_create_user page writable = do {
     p \<leftarrow> pte_create_kernel page writable;
     Some (p OR PTE_U)
   }"

definition pte_get_page :: "u32 \<Rightarrow> u32 option" where
  "pte_get_page pte = ptov (pte AND PTE_ADDR)"

section \<open>Memory\<close>

text \<open>\<open>mem_fill a n w m\<close>: the \<open>n\<close> bytes from \<open>a\<close> on, in 32-bit words, are set to \<open>w\<close>.\<close>

definition mem_fill :: "u32 \<Rightarrow> u32 \<Rightarrow> u32 \<Rightarrow> (u32 \<Rightarrow> u32) \<Rightarrow> u32 \<Rightarrow> u32" where
  "mem_fill a n w m = (\<lambda>x. if x - a < n then w else m x)"

definition mem_copy :: "u32 \<Rightarrow> u32 \<Rightarrow> u32 \<Rightarrow> (u32 \<Rightarrow> u32) \<Rightarrow> u32 \<Rightarrow> u32" where
  "mem_copy dst src n m = (\<lambda>x. if x - dst < n then m (src + (x - dst)) else m x)"

section \<open>Lemmas\<close>

lemma PGSIZE_eq: "PGSIZE = 4096" by (simp add: PGSIZE_def PGBITS_def)
lemma PGMASK_eq: "PGMASK = mask 12" by (simp add: PGMASK_def mask_eq_decr_exp)
lemma PTE_ADDR_eq: "PTE_ADDR = NOT (mask 12)" by (simp add: PTE_ADDR_def mask_eq_decr_exp)

lemma pg_ofs_take: "pg_ofs va = take_bit 12 va"
  by (simp add: pg_ofs_def PGMASK_eq take_bit_eq_mask)

lemma bit_pg_ofs: "bit (pg_ofs va) i \<longleftrightarrow> i < 12 \<and> bit va i"
  by (simp add: pg_ofs_take bit_take_bit_iff)

lemma bit_pg_no: "bit (pg_no va) i \<longleftrightarrow> bit va (12 + i)"
  by (simp add: pg_no_def PGBITS_def bit_drop_bit_eq)

lemma bit_round_down: "bit (pg_round_down va) i \<longleftrightarrow> 12 \<le> i \<and> bit va i"
  by (auto simp: pg_round_down_def PGMASK_eq bit_and_iff bit_not_iff bit_mask_iff dest: bit_imp_le_length)

lemma bit_pd_no: "bit (pd_no va) i \<longleftrightarrow> bit va (22 + i)"
  by (simp add: pd_no_def bit_drop_bit_eq)

lemma PTMASK_bit: "bit PTMASK i \<longleftrightarrow> 12 \<le> i \<and> i < 22"
proof -
  have m: "PTMASK = push_bit 12 (mask 10)" by (simp add: PTMASK_def mask_eq_decr_exp)
  show ?thesis unfolding m by (auto simp: bit_push_bit_iff bit_mask_iff)
qed

lemma bit_pt_no: "bit (pt_no va) i \<longleftrightarrow> i < 10 \<and> bit va (12 + i)"
  by (auto simp: pt_no_def bit_drop_bit_eq bit_and_iff PTMASK_bit)

lemmas page_bits = bit_pg_ofs bit_pg_no bit_round_down bit_pd_no bit_pt_no

text \<open>An address is its page directory index, its page table index and its offset.\<close>

lemma same_page_iff: "pg_no a = pg_no b \<longleftrightarrow> pd_no a = pd_no b \<and> pt_no a = pt_no b"
proof
  assume h: "pg_no a = pg_no b"
  then have b: "bit a (12 + i) = bit b (12 + i)" for i using bit_pg_no by metis
  have "pd_no a = pd_no b"
  proof (rule bit_eqI)
    fix i show "bit (pd_no a) i = bit (pd_no b) i" using b [of "10 + i"] by (simp add: bit_pd_no)
  qed
  moreover have "pt_no a = pt_no b" by (rule bit_eqI) (simp add: bit_pt_no b)
  ultimately show "pd_no a = pd_no b \<and> pt_no a = pt_no b" by simp
next
  assume h: "pd_no a = pd_no b \<and> pt_no a = pt_no b"
  show "pg_no a = pg_no b"
  proof (rule bit_eqI)
    fix i
    show "bit (pg_no a) i = bit (pg_no b) i"
    proof (cases "i < 10")
      case True then show ?thesis using h bit_pt_no by (metis bit_pg_no)
    next
      case False
      then have "12 + i = 22 + (i - 10)" by simp
      then show ?thesis using h bit_pd_no [of a "i - 10"] bit_pd_no [of b "i - 10"] by (simp add: bit_pg_no)
    qed
  qed
qed

lemma page_split: "pg_round_down va + pg_ofs va = va"
proof -
  have "pg_round_down va + pg_ofs va = pg_round_down va OR pg_ofs va"
    by (rule disjunctive_add_eq_or) (rule bit_eqI, auto simp: bit_and_iff page_bits)
  also have "\<dots> = va" by (rule bit_eqI) (auto simp: bit_or_iff page_bits)
  finally show ?thesis .
qed

lemma unat_pd_no: "unat (pd_no va) < 1024"
  using unat_lt32 [of va] by (simp add: pd_no_def drop_bit_eq_div unat_div less_mult_imp_div_less)

lemma unat_pt_no: "unat (pt_no va) < 1024"
proof -
  have "pt_no va = take_bit 10 (pt_no va)" by (rule bit_eqI) (auto simp: bit_take_bit_iff bit_pt_no)
  then have "unat (pt_no va) = take_bit 10 (unat (pt_no va))" by (metis unsigned_take_bit_eq)
  then show ?thesis using take_bit_nat_less_exp [of 10 "unat (pt_no va)"] by simp
qed

text \<open>Entries.\<close>

lemma aligned_iff: "pg_ofs p = 0 \<longleftrightarrow> (\<forall>i<12. \<not> bit p i)"
proof
  assume "pg_ofs p = 0" then show "\<forall>i<12. \<not> bit p i" using bit_pg_ofs [of p] by (metis bit_0_eq bot_apply bot_bool_def)
next
  assume "\<forall>i<12. \<not> bit p i" then show "pg_ofs p = 0" by (intro bit_eqI) (auto simp: bit_pg_ofs)
qed

lemma unat_pg_ofs: "unat (pg_ofs p) = unat p mod 4096"
  by (simp add: pg_ofs_take take_bit_eq_mod unat_mod)

lemma aligned_dvd: "pg_ofs p = 0 \<longleftrightarrow> 4096 dvd unat p"
  by (metis mod_eq_0_iff_dvd unat_eq_zero unat_pg_ofs)

lemma kernel_minus_base: "is_kernel_vaddr p \<Longrightarrow> unat (p - PHYS_BASE) = unat p - 0xc0000000"
  by (simp add: is_kernel_vaddr_def unat_sub PHYS_BASE_def)

lemma aligned_minus_base: "is_kernel_vaddr p \<Longrightarrow> pg_ofs p = 0 \<Longrightarrow> pg_ofs (p - PHYS_BASE) = 0"
  by (simp add: aligned_dvd kernel_minus_base dvd_diff_nat)

text \<open>What the entry built for a page gives back.\<close>

lemma entry_addr:
  assumes "pg_ofs q = 0" and "\<And>i. bit f i \<Longrightarrow> i < 12"
  shows "(q OR f) AND PTE_ADDR = q"
proof (rule bit_eqI)
  fix i assume "possible_bit TYPE(u32) i"
  then have i: "i < 32" by simp
  have "12 \<le> i \<Longrightarrow> \<not> bit f i" "i < 12 \<Longrightarrow> \<not> bit q i" using assms by (auto simp: aligned_iff dest: leD)
  then show "bit ((q OR f) AND PTE_ADDR) i = bit q i"
    using i by (auto simp: bit_and_iff bit_or_iff PTE_ADDR_eq bit_not_iff bit_mask_iff)
qed

lemma kernel_less_base: "is_kernel_vaddr p \<Longrightarrow> p - PHYS_BASE < PHYS_BASE"
  using kernel_minus_base [of p] unat_lt32 [of p] by (simp add: word_less_nat_alt PHYS_BASE_def)

lemma flag_bits: "bit (PTE_U OR PTE_P OR PTE_W) i \<Longrightarrow> i < 12"
  "bit ((PTE_P OR (if w then PTE_W else 0)) OR PTE_U) i \<Longrightarrow> i < 12"
proof -
  have t: "bit (x :: u32) i \<Longrightarrow> take_bit 12 x = x \<Longrightarrow> i < 12" for x by (metis bit_take_bit_iff)
  show "bit (PTE_U OR PTE_P OR PTE_W) i \<Longrightarrow> i < 12"
    by (erule t) (simp add: PTE_U_def PTE_P_def PTE_W_def)
  show "bit ((PTE_P OR (if w then PTE_W else 0)) OR PTE_U) i \<Longrightarrow> i < 12"
    by (erule t) (simp add: PTE_U_def PTE_P_def PTE_W_def)
qed

lemma pde_round_trip:
  assumes "is_kernel_vaddr pt" "pg_ofs pt = 0"
  shows "\<exists>e. pde_create pt = Some e \<and> e \<noteq> 0 \<and> pde_get_pt e = Some pt"
proof -
  let ?f = "PTE_U OR PTE_P OR PTE_W" let ?e = "(pt - PHYS_BASE) OR ?f"
  have a: "?e AND PTE_ADDR = pt - PHYS_BASE"
    using aligned_minus_base [OF assms] flag_bits(1) by (intro entry_addr) auto
  have "bit ?e 0" by (simp add: bit_or_iff PTE_P_def)
  then have "bit (?e AND PTE_P) 0" by (simp add: bit_and_iff PTE_P_def)
  then have "?e AND PTE_P \<noteq> 0" by (metis bit_0_eq bot_apply bot_bool_def)
  then have p: "?e AND PTE_P \<noteq> 0" "?e \<noteq> 0" by auto
  have "pde_create pt = Some ?e" using assms by (simp add: pde_create_def vtop_def or.assoc)
  moreover have "pde_get_pt ?e = Some pt"
    using p(1) a kernel_less_base [OF assms(1)] by (simp add: pde_get_pt_def ptov_def ASSERT_True)
  ultimately show ?thesis using p(2) by blast
qed

lemma pte_round_trip:
  assumes "is_kernel_vaddr page" "pg_ofs page = 0"
  shows "\<exists>e. pte_create_user page w = Some e \<and> e AND PTE_P \<noteq> 0 \<and> pte_get_page e = Some page \<and>
    (e AND PTE_W \<noteq> 0 \<longleftrightarrow> w)"
proof -
  let ?f = "(PTE_P OR (if w then PTE_W else 0)) OR PTE_U" let ?e = "(page - PHYS_BASE) OR ?f"
  have a: "?e AND PTE_ADDR = page - PHYS_BASE"
    using aligned_minus_base [OF assms] flag_bits(2) by (intro entry_addr) auto
  have "bit (?e AND PTE_P) 0" by (simp add: bit_and_iff bit_or_iff PTE_P_def)
  then have p: "?e AND PTE_P \<noteq> 0" by (metis bit_0_eq bot_apply bot_bool_def)
  have nb: "\<not> bit (page - PHYS_BASE) 1"
    using aligned_minus_base [OF assms] by (simp add: aligned_iff)
  have wb: "?e AND PTE_W = (if w then PTE_W else 0)"
  proof (rule bit_eqI)
    fix i
    have "bit PTE_W i \<longleftrightarrow> i = 1" by (auto simp: PTE_W_def bit_simps)
    moreover have "\<not> bit PTE_P (Suc 0)" "\<not> bit PTE_U (Suc 0)" by (simp_all add: PTE_P_def PTE_U_def bit_simps)
    ultimately show "bit (?e AND PTE_W) i = bit (if w then PTE_W else 0) i"
      using nb by (auto simp: bit_and_iff bit_or_iff)
  qed
  have "pte_create_user page w = Some ?e"
    using assms by (simp add: pte_create_user_def pte_create_kernel_def vtop_def or.assoc)
  moreover have "pte_get_page ?e = Some page"
    using a kernel_less_base [OF assms(1)] by (simp add: pte_get_page_def ptov_def)
  moreover have "(?e AND PTE_W \<noteq> 0) = w" unfolding wb by (simp add: PTE_W_def)
  ultimately show ?thesis using p by blast
qed

end
