(* ===== verification/Thread.thy ===== *)
theory Thread
  imports KList Fixed_Point Vaddr
begin

text \<open>
  Threads and the scheduler: \<^verbatim>\<open>src/threads/thread.c\<close>, the interrupt level and
  the external interrupt handler of \<^verbatim>\<open>src/threads/interrupt.c\<close>, and the timer of
  \<^verbatim>\<open>src/devices/timer.c\<close>, in the configuration of the threads kernel
  (\<^verbatim>\<open>USERPROG\<close> is not defined).

  The state is one record.  The memory at a page that may hold a \<^verbatim>\<open>struct thread\<close> is the
  function \<open>thr\<close>; a thread is named by the address of its page.  The intrusive lists are the HOL
  lists of the threads they link, which theory \<open>KList\<close> shows to be what the list functions keep:
  \<^verbatim>\<open>list_insert_ordered\<close> is \<open>insert_ordered\<close>, \<^verbatim>\<open>list_sort\<close> is \<open>sort_key\<close>.

  A thread that is switched out keeps its kernel stack.  Its stack is the list \<open>frames\<close> of the
  places it returns to: a \<open>frame\<close> names a point of the source just behind a call that may switch
  threads, with the local variables that are still needed there.  A function that calls
  \<^verbatim>\<open>schedule\<close> pushes such a frame and ends with the switch; what follows the call is run when the
  frame is popped, by whichever thread is then current.
\<close>

section \<open>State\<close>

datatype thread_status = THREAD_RUNNING | THREAD_READY | THREAD_BLOCKED | THREAD_DYING

record thread =
  tid :: int
  status :: thread_status
  tname :: string
  stack :: u32
  priority :: int
  exit_number :: u32
  child_list :: "addr list"
  parent_list :: "addr list"
  create_success :: bool
  file_tail_prev :: u32
  wakeup :: u64
  nice :: int
  recent_cpu :: int
  magic :: u32

record semaphore =
  sval :: u32
  waiters :: "addr list"

text \<open>The functions a thread can be started on: the idle loop with its semaphore, or a client.\<close>

datatype thread_func = Idle addr | Client

datatype frame =
    FSetLevel bool
  | FIret
  | FSemaLoop addr bool
  | FSemaDown addr
  | FSemaUp addr
  | FSetHolder addr
  | FLockAcquire addr
  | FLockRelease addr
  | FCondBroadcast addr addr
  | FInitThread string int thread_func
  | FTid addr int thread_func
  | FCreateTail addr int int thread_func
  | FKernelThread thread_func
  | FIntrEnable
  | FIdleLoop
  | FIdleHlt

record kernel =
  thr :: "addr \<Rightarrow> thread"
  cur :: addr
  ready_list :: "addr list"
  blocked_list :: "addr list"
  all_list :: "addr list"
  idle_thread :: addr
  initial_thread :: addr
  load_avg :: int
  next_tid :: int
  ticks :: u64
  idle_ticks :: u64
  kernel_ticks :: u64
  thread_ticks :: u32
  thread_prior_aging :: bool
  thread_mlfqs :: bool
  intr_on :: bool
  in_external_intr :: bool
  yield_on_return :: bool
  semas :: "addr \<Rightarrow> semaphore"
  holder :: "addr \<Rightarrow> addr"
  conds :: "addr \<Rightarrow> addr list"
  frames :: "addr \<Rightarrow> frame list"
  retval :: "addr \<Rightarrow> int"

definition THREAD_MAGIC :: u32 where "THREAD_MAGIC = 0xcd6abf4b"
definition TIME_SLICE :: u32 where "TIME_SLICE = 4"
definition TIMER_FREQ :: int where "TIMER_FREQ = 100"

definition upd_thread :: "addr \<Rightarrow> (thread \<Rightarrow> thread) \<Rightarrow> kernel \<Rightarrow> kernel" where
  "upd_thread t f k = k\<lparr>thr := (thr k)(t := f (thr k t))\<rparr>"

definition push_frame :: "frame \<Rightarrow> kernel \<Rightarrow> kernel" where
  "push_frame f k = k\<lparr>frames := (frames k)(cur k := f # frames k (cur k))\<rparr>"

section \<open>Interrupt level\<close>

definition intr_get_level :: "kernel \<Rightarrow> bool" where
  "intr_get_level k = intr_on k"

definition intr_context :: "kernel \<Rightarrow> bool" where
  "intr_context k = in_external_intr k"

definition intr_enable :: "kernel \<Rightarrow> (bool \<times> kernel) option" where
  "intr_enable k = do {
     ASSERT (\<not> intr_context k);
     Some (intr_get_level k, k\<lparr>intr_on := True\<rparr>)
   }"

definition intr_disable :: "kernel \<Rightarrow> bool \<times> kernel" where
  "intr_disable k = (intr_get_level k, k\<lparr>intr_on := False\<rparr>)"

definition intr_set_level :: "bool \<Rightarrow> kernel \<Rightarrow> (bool \<times> kernel) option" where
  "intr_set_level level k = (if level then intr_enable k else Some (intr_disable k))"

definition intr_yield_on_return :: "kernel \<Rightarrow> kernel option" where
  "intr_yield_on_return k = do {
     ASSERT (intr_context k);
     Some (k\<lparr>yield_on_return := True\<rparr>)
   }"

section \<open>Scheduling\<close>

definition running_thread :: "kernel \<Rightarrow> addr" where
  "running_thread k = cur k"

definition is_thread :: "kernel \<Rightarrow> addr \<Rightarrow> bool" where
  "is_thread k t \<longleftrightarrow> t \<noteq> NULL \<and> magic (thr k t) = THREAD_MAGIC"

definition thread_current :: "kernel \<Rightarrow> addr option" where
  "thread_current k = do {
     ASSERT (is_thread k (running_thread k));
     ASSERT (status (thr k (running_thread k)) = THREAD_RUNNING);
     Some (running_thread k)
   }"

definition prio :: "kernel \<Rightarrow> addr \<Rightarrow> int" where
  "prio k t = priority (thr k t)"

definition list_compare_priority :: "kernel \<Rightarrow> addr \<Rightarrow> addr \<Rightarrow> bool" where
  "list_compare_priority k a b \<longleftrightarrow> prio k a > prio k b"

text \<open>
  \<^verbatim>\<open>list_compare_priority\<close> finds the thread from the offset of \<^verbatim>\<open>elem\<close>.  Called on the
  \<^verbatim>\<open>block_elem\<close> of two threads it reads, instead of the priority, the word that lies as far behind
  \<^verbatim>\<open>block_elem\<close> as the priority lies from \<^verbatim>\<open>elem\<close>: offset 184 - 40 + 28 = 172, the field
  \<^verbatim>\<open>file_list.tail.prev\<close>.
\<close>

definition compare_block_elem :: "kernel \<Rightarrow> addr \<Rightarrow> addr \<Rightarrow> bool" where
  "compare_block_elem k a b \<longleftrightarrow>
     sint (file_tail_prev (thr k a)) > sint (file_tail_prev (thr k b))"

definition next_thread_to_run :: "kernel \<Rightarrow> addr \<times> kernel" where
  "next_thread_to_run k =
     (case ready_list k of [] \<Rightarrow> (idle_thread k, k) | t # ts \<Rightarrow> (t, k\<lparr>ready_list := ts\<rparr>))"

text \<open>\<^verbatim>\<open>palloc_free_page\<close> on a thread's page fills it with \<^verbatim>\<open>0xcc\<close> bytes.\<close>

definition poison_thread :: thread where
  "poison_thread = \<lparr>tid = s32 0xcccccccc, status = THREAD_DYING, tname = replicate 16 (CHR 0xcc),
     stack = 0xcccccccc, priority = s32 0xcccccccc, exit_number = 0xcccccccc, child_list = [],
     parent_list = [], create_success = True, file_tail_prev = 0xcccccccc,
     wakeup = 0xcccccccccccccccc, nice = s32 0xcccccccc, recent_cpu = s64 0xcccccccccccccccc,
     magic = 0xcccccccc\<rparr>"

definition thread_schedule_tail :: "addr \<Rightarrow> kernel \<Rightarrow> kernel option" where
  "thread_schedule_tail prev k = do {
     let c = running_thread k;
     ASSERT (\<not> intr_get_level k);
     let k = upd_thread c (status_update (\<lambda>_. THREAD_RUNNING)) k;
     let k = k\<lparr>thread_ticks := 0\<rparr>;
     if prev \<noteq> NULL \<and> status (thr k prev) = THREAD_DYING \<and> prev \<noteq> initial_thread k then do {
       ASSERT (prev \<noteq> c);
       Some (upd_thread prev (\<lambda>_. poison_thread) k)
     } else Some k
   }"

definition schedule :: "kernel \<Rightarrow> kernel option" where
  "schedule k = do {
     let c = running_thread k;
     let (nxt, k) = next_thread_to_run k;
     ASSERT (\<not> intr_get_level k);
     ASSERT (status (thr k c) \<noteq> THREAD_RUNNING);
     ASSERT (is_thread k nxt);
     if c \<noteq> nxt then thread_schedule_tail c (k\<lparr>cur := nxt\<rparr>)
     else thread_schedule_tail NULL k
   }"

definition thread_block :: "kernel \<Rightarrow> kernel option" where
  "thread_block k = do {
     ASSERT (\<not> intr_context k);
     ASSERT (\<not> intr_get_level k);
     c \<leftarrow> thread_current k;
     schedule (upd_thread c (status_update (\<lambda>_. THREAD_BLOCKED)) k)
   }"

definition thread_unblock :: "addr \<Rightarrow> kernel \<Rightarrow> kernel option" where
  "thread_unblock t k = do {
     ASSERT (is_thread k t);
     let (old_level, k) = intr_disable k;
     ASSERT (status (thr k t) = THREAD_BLOCKED);
     let k = k\<lparr>ready_list := insert_ordered (list_compare_priority k) t (ready_list k)\<rparr>;
     let k = upd_thread t (status_update (\<lambda>_. THREAD_READY)) k;
     (_, k) \<leftarrow> intr_set_level old_level k;
     Some k
   }"

definition thread_yield :: "kernel \<Rightarrow> kernel option" where
  "thread_yield k = do {
     c \<leftarrow> thread_current k;
     ASSERT (\<not> intr_context k);
     let (old_level, k) = intr_disable k;
     let k = (if c \<noteq> idle_thread k
              then k\<lparr>ready_list := insert_ordered (list_compare_priority k) c (ready_list k)\<rparr>
              else k);
     let k = upd_thread c (status_update (\<lambda>_. THREAD_READY)) k;
     schedule (push_frame (FSetLevel old_level) k)
   }"

text \<open>\<^verbatim>\<open>thread_exit\<close>: the frames of the dying thread are never returned to.\<close>

definition thread_exit :: "kernel \<Rightarrow> kernel option" where
  "thread_exit k = do {
     ASSERT (\<not> intr_context k);
     let (_, k) = intr_disable k;
     c \<leftarrow> thread_current k;
     let k = k\<lparr>all_list := remove1 c (all_list k)\<rparr>;
     c \<leftarrow> thread_current k;
     let k = upd_thread c (status_update (\<lambda>_. THREAD_DYING)) k;
     schedule (k\<lparr>frames := (frames k)(c := [])\<rparr>)
   }"

section \<open>Accessors\<close>

definition thread_name :: "kernel \<Rightarrow> string option" where
  "thread_name k = do { c \<leftarrow> thread_current k; Some (tname (thr k c)) }"

definition thread_tid :: "kernel \<Rightarrow> int option" where
  "thread_tid k = do { c \<leftarrow> thread_current k; Some (tid (thr k c)) }"

definition thread_set_priority :: "int \<Rightarrow> kernel \<Rightarrow> kernel option" where
  "thread_set_priority p k = do {
     c \<leftarrow> thread_current k;
     if prio k c > p
     then thread_yield (upd_thread c (priority_update (\<lambda>_. p)) k)
     else Some (upd_thread c (priority_update (\<lambda>_. p)) k)
   }"

definition thread_get_priority :: "kernel \<Rightarrow> int option" where
  "thread_get_priority k = do { c \<leftarrow> thread_current k; Some (prio k c) }"

definition thread_set_nice :: "int \<Rightarrow> kernel \<Rightarrow> kernel option" where
  "thread_set_nice n k = do {
     c \<leftarrow> thread_current k;
     let old_priority = prio k c;
     let k = upd_thread c (nice_update (\<lambda>_. n)) k;
     p \<leftarrow> new_priority (recent_cpu (thr k c)) n;
     let k = upd_thread c (priority_update (\<lambda>_. p)) k;
     if old_priority > p then thread_yield k else Some k
   }"

definition thread_get_nice :: "kernel \<Rightarrow> int option" where
  "thread_get_nice k = do { c \<leftarrow> thread_current k; Some (nice (thr k c)) }"

definition thread_get_load_avg :: "kernel \<Rightarrow> int" where
  "thread_get_load_avg k = fixed_to_int (s32 (load_avg k * 100))"

definition thread_get_recent_cpu :: "kernel \<Rightarrow> int option" where
  "thread_get_recent_cpu k = do {
     c \<leftarrow> thread_current k;
     Some (fixed_to_int (s32 (s64 (recent_cpu (thr k c) * 100))))
   }"

fun foreach_thread :: "(addr \<Rightarrow> kernel \<Rightarrow> kernel option) \<Rightarrow> addr list \<Rightarrow> kernel \<Rightarrow> kernel option" where
  "foreach_thread f [] k = Some k"
| "foreach_thread f (t # ts) k = do { k \<leftarrow> f t k; foreach_thread f ts k }"

definition thread_foreach :: "(addr \<Rightarrow> kernel \<Rightarrow> kernel option) \<Rightarrow> kernel \<Rightarrow> kernel option" where
  "thread_foreach f k = do {
     ASSERT (\<not> intr_get_level k);
     foreach_thread f (all_list k) k
   }"

definition thread_findname_foreach :: "string \<Rightarrow> kernel \<Rightarrow> bool" where
  "thread_findname_foreach nm k = list_ex (\<lambda>t. tname (thr k t) = nm) (all_list k)"

section \<open>The timer and the alarm\<close>

definition timer_ticks :: "kernel \<Rightarrow> (u64 \<times> kernel) option" where
  "timer_ticks k = do {
     let (old_level, k) = intr_disable k;
     let t = ticks k;
     (_, k) \<leftarrow> intr_set_level old_level k;
     Some (t, k)
   }"

definition timer_elapsed :: "u64 \<Rightarrow> kernel \<Rightarrow> (u64 \<times> kernel) option" where
  "timer_elapsed before k = do {
     (t, k) \<leftarrow> timer_ticks k;
     Some (t - before, k)
   }"

definition thread_block_with_time :: "u64 \<Rightarrow> kernel \<Rightarrow> kernel option" where
  "thread_block_with_time tm k = do {
     c \<leftarrow> thread_current k;
     ASSERT (\<not> intr_context k);
     let (old_level, k) = intr_disable k;
     let k = upd_thread c (wakeup_update (\<lambda>_. tm)) k;
     let k = k\<lparr>blocked_list := insert_ordered (compare_block_elem k) c (blocked_list k)\<rparr>;
     thread_block (push_frame (FSetLevel old_level) k)
   }"

definition timer_sleep :: "u64 \<Rightarrow> kernel \<Rightarrow> kernel option" where
  "timer_sleep n k = do {
     (start, k) \<leftarrow> timer_ticks k;
     ASSERT (intr_get_level k);
     if sint n < 0 then Some k
     else thread_block_with_time (start + n) k
   }"

fun block_check_loop :: "addr list \<Rightarrow> kernel \<Rightarrow> kernel option" where
  "block_check_loop [] k = Some k"
| "block_check_loop (th # es) k = do {
     (now, k) \<leftarrow> timer_ticks k;
     if wakeup (thr k th) \<le> now then do {
       k \<leftarrow> thread_unblock th k;
       block_check_loop es (k\<lparr>blocked_list := remove1 th (blocked_list k)\<rparr>)
     } else block_check_loop es k
   }"

definition block_check :: "kernel \<Rightarrow> kernel option" where
  "block_check k = do {
     ASSERT (\<not> intr_get_level k);
     if blocked_list k = [] then Some k
     else block_check_loop (blocked_list k) k
   }"

section \<open>Multi-level feedback queue\<close>

definition thread_aging :: "kernel \<Rightarrow> kernel option" where
  "thread_aging k = do {
     c \<leftarrow> thread_current k;
     r \<leftarrow> fixed_cal_int (s32 (recent_cpu (thr k c))) 1 ADD;
     Some (upd_thread c (recent_cpu_update (\<lambda>_. r)) k)
   }"

definition calculate_load_avg :: "kernel \<Rightarrow> kernel option" where
  "calculate_load_avg k = do {
     let ready_length = int (length (ready_list k));
     c \<leftarrow> thread_current k;
     let ready_length = (if c \<noteq> idle_thread k then ready_length + 1 else ready_length);
     la \<leftarrow> new_load_avg (load_avg k) ready_length;
     Some (k\<lparr>load_avg := la\<rparr>)
   }"

definition recent_cpu_step :: "addr \<Rightarrow> kernel \<Rightarrow> kernel option" where
  "recent_cpu_step th k = do {
     r \<leftarrow> new_recent_cpu (load_avg k) (recent_cpu (thr k th)) (nice (thr k th));
     Some (upd_thread th (recent_cpu_update (\<lambda>_. r)) k)
   }"

definition calculate_recent_cpu :: "kernel \<Rightarrow> kernel option" where
  "calculate_recent_cpu k = foreach_thread recent_cpu_step (all_list k) k"

definition priority_step :: "addr \<Rightarrow> kernel \<Rightarrow> kernel option" where
  "priority_step th k = do {
     p \<leftarrow> new_priority (recent_cpu (thr k th)) (nice (thr k th));
     Some (upd_thread th (priority_update (\<lambda>_. p)) k)
   }"

definition calculate_priority :: "kernel \<Rightarrow> kernel option" where
  "calculate_priority k = do {
     c \<leftarrow> thread_current k;
     let old_priority = prio k c;
     k \<leftarrow> foreach_thread priority_step (all_list k) k;
     let k = k\<lparr>ready_list := sort_key (\<lambda>t. - prio k t) (ready_list k)\<rparr>;
     c \<leftarrow> thread_current k;
     if old_priority > prio k c then intr_yield_on_return k else Some k
   }"

section \<open>The timer interrupt\<close>

definition thread_tick :: "kernel \<Rightarrow> kernel option" where
  "thread_tick k = do {
     t \<leftarrow> thread_current k;
     let k = (if t = idle_thread k then k\<lparr>idle_ticks := idle_ticks k + 1\<rparr>
              else k\<lparr>kernel_ticks := kernel_ticks k + 1\<rparr>);
     let k = k\<lparr>thread_ticks := thread_ticks k + 1\<rparr>;
     k \<leftarrow> (if thread_ticks k \<ge> TIME_SLICE then intr_yield_on_return k else Some k);
     k \<leftarrow> block_check k;
     if thread_prior_aging k \<or> thread_mlfqs k then do {
       k \<leftarrow> thread_aging k;
       (now, k) \<leftarrow> timer_ticks k;
       k \<leftarrow> (if sint now mod TIMER_FREQ = 0
             then do { k \<leftarrow> calculate_load_avg k; calculate_recent_cpu k } else Some k);
       (now, k) \<leftarrow> timer_ticks k;
       if sint now mod 4 = 0 then calculate_priority k else Some k
     } else Some k
   }"

definition timer_interrupt :: "kernel \<Rightarrow> kernel option" where
  "timer_interrupt k = thread_tick (k\<lparr>ticks := ticks k + 1\<rparr>)"

text \<open>\<^verbatim>\<open>intr_handler\<close> for an external interrupt, whose registered handler is an argument.\<close>

definition intr_handler_external :: "(kernel \<Rightarrow> kernel option) \<Rightarrow> kernel \<Rightarrow> kernel option" where
  "intr_handler_external handler k = do {
     ASSERT (\<not> intr_get_level k);
     ASSERT (\<not> intr_context k);
     let k = k\<lparr>in_external_intr := True, yield_on_return := False\<rparr>;
     k \<leftarrow> handler k;
     ASSERT (\<not> intr_get_level k);
     ASSERT (intr_context k);
     let k = k\<lparr>in_external_intr := False\<rparr>;
     if yield_on_return k then thread_yield k else Some k
   }"

text \<open>
  The processor takes the timer interrupt: it is enabled, the flags with the interrupt bit set are
  saved in the interrupt frame, to be restored by \<^verbatim>\<open>iret\<close>, and interrupts are off in the handler.
\<close>

definition timer_irq :: "kernel \<Rightarrow> kernel option" where
  "timer_irq k = do {
     ASSERT (intr_get_level k);
     intr_handler_external timer_interrupt ((push_frame FIret k)\<lparr>intr_on := False\<rparr>)
   }"


section \<open>Where a thread is\<close>

text \<open>
  Every live thread other than the running one and the idle thread is in exactly one place: the
  run queue, the list of sleepers, the waiting list of one semaphore, or still being created.
\<close>

datatype place = PReady | PSleep | PWait addr | PMade addr

fun creates :: "frame \<Rightarrow> addr option" where
  "creates (FTid t p fn) = Some t"
| "creates (FCreateTail t n p fn) = Some t"
| "creates _ = None"

primrec made :: "frame list \<Rightarrow> addr list" where
  "made [] = []"
| "made (f # fs) = (case creates f of None \<Rightarrow> made fs | Some t \<Rightarrow> t # made fs)"

fun located :: "kernel \<Rightarrow> place \<Rightarrow> addr list" where
  "located k PReady = ready_list k"
| "located k PSleep = blocked_list k"
| "located k (PWait s) = waiters (semas k s)"
| "located k (PMade c) = made (frames k c)"

fun place_status :: "place \<Rightarrow> thread_status" where
  "place_status PReady = THREAD_READY"
| "place_status _ = THREAD_BLOCKED"

definition located_ok :: "kernel \<Rightarrow> addr \<Rightarrow> bool" where
  "located_ok k c \<longleftrightarrow>
     (\<forall>p. distinct (located k p)) \<and>
     (\<forall>p. \<forall>t\<in>set (located k p). t \<in> set (all_list k) \<and> t \<noteq> c \<and> t \<noteq> idle_thread k \<and>
        status (thr k t) = place_status p) \<and>
     (\<forall>p q t. t \<in> set (located k p) \<longrightarrow> t \<in> set (located k q) \<longrightarrow> p = q) \<and>
     (\<forall>t\<in>set (all_list k). t \<noteq> c \<longrightarrow> t \<noteq> idle_thread k \<longrightarrow> (\<exists>p. t \<in> set (located k p)))"

definition base_ok :: "kernel \<Rightarrow> bool" where
  "base_ok k \<longleftrightarrow> distinct (all_list k) \<and> (\<forall>t\<in>set (all_list k). is_thread k t) \<and>
     sorted (map (\<lambda>t. - prio k t) (ready_list k)) \<and>
     (idle_thread k \<noteq> NULL \<longrightarrow> idle_thread k \<in> set (all_list k) \<and>
        (FIdleLoop \<in> set (frames k (idle_thread k)) \<or> FIdleHlt \<in> set (frames k (idle_thread k))))"

text \<open>The invariant of the scheduler while a thread runs, and between the moment the running
  thread has been put somewhere and the call of \<^verbatim>\<open>schedule\<close>.\<close>

definition sched_inv :: "kernel \<Rightarrow> bool" where
  "sched_inv k \<longleftrightarrow> base_ok k \<and> located_ok k (cur k) \<and> cur k \<in> set (all_list k) \<and>
     status (thr k (cur k)) = THREAD_RUNNING"

definition switch_inv :: "kernel \<Rightarrow> bool" where
  "switch_inv k \<longleftrightarrow> base_ok k \<and> located_ok k NULL \<and> status (thr k (cur k)) \<noteq> THREAD_RUNNING \<and>
     \<not> intr_on k \<and> (cur k \<in> set (all_list k) \<or> status (thr k (cur k)) = THREAD_DYING) \<and>
     (status (thr k (cur k)) = THREAD_DYING \<longrightarrow> cur k \<notin> set (all_list k) \<and> cur k \<noteq> NULL)"

section \<open>Run queue order\<close>

interpretation prio_order: key_order "list_compare_priority k" "\<lambda>t. - prio k t" for k
  by unfold_locales (simp add: list_compare_priority_def)

interpretation prio_elems: elem_order "list_compare_priority k" "\<lambda>t. - prio k t" for k
  by unfold_locales

lemma set_insert_ordered [simp]: "set (insert_ordered lt x xs) = insert x (set xs)"
  using set_append [of "takeWhile (\<lambda>y. \<not> lt x y) xs" "dropWhile (\<lambda>y. \<not> lt x y) xs"]
  by (auto simp: insert_ordered_def dest: set_takeWhileD set_dropWhileD)

lemma distinct_insert_ordered [simp]:
  "distinct (insert_ordered lt x xs) \<longleftrightarrow> x \<notin> set xs \<and> distinct xs"
proof -
  have "mset (insert_ordered lt x xs) = mset (x # xs)"
    unfolding insert_ordered_def
    by (metis mset.simps(2) mset_append takeWhile_dropWhile_id union_mset_add_mset_right)
  then have "distinct (insert_ordered lt x xs) = distinct (x # xs)"
    using mset_eq_imp_distinct_iff by blast
  then show ?thesis by simp
qed


section \<open>Preservation\<close>

lemma located_upd [simp]:
  "located (k\<lparr>intr_on := b\<rparr>) p = located k p" "located (k\<lparr>in_external_intr := b\<rparr>) p = located k p"
  "located (k\<lparr>yield_on_return := b\<rparr>) p = located k p" "located (k\<lparr>load_avg := i\<rparr>) p = located k p"
  "located (k\<lparr>next_tid := i\<rparr>) p = located k p" "located (k\<lparr>ticks := w\<rparr>) p = located k p"
  "located (k\<lparr>idle_ticks := w\<rparr>) p = located k p" "located (k\<lparr>kernel_ticks := w\<rparr>) p = located k p"
  "located (k\<lparr>thread_ticks := n\<rparr>) p = located k p" "located (k\<lparr>cur := a\<rparr>) p = located k p"
  "located (k\<lparr>all_list := l\<rparr>) p = located k p" "located (k\<lparr>thr := h\<rparr>) p = located k p"
  "located (k\<lparr>holder := g\<rparr>) p = located k p" "located (k\<lparr>conds := c\<rparr>) p = located k p"
  "located (k\<lparr>retval := r\<rparr>) p = located k p" "located (k\<lparr>idle_thread := a\<rparr>) p = located k p"
  by (cases p; simp)+

lemma located_ready: "located (k\<lparr>ready_list := l\<rparr>) p = (if p = PReady then l else located k p)"
  by (cases p) simp_all

lemma located_sleep: "located (k\<lparr>blocked_list := l\<rparr>) p = (if p = PSleep then l else located k p)"
  by (cases p) simp_all

lemma located_semas:
  "located (k\<lparr>semas := (semas k)(s := x)\<rparr>) p = (if p = PWait s then waiters x else located k p)"
  by (cases p) simp_all

lemma located_frames:
  "located (k\<lparr>frames := (frames k)(c := fs)\<rparr>) p = (if p = PMade c then made fs else located k p)"
  by (cases p) simp_all

lemma upd_thread_sel [simp]:
  "cur (upd_thread t f k) = cur k" "ready_list (upd_thread t f k) = ready_list k"
  "blocked_list (upd_thread t f k) = blocked_list k" "all_list (upd_thread t f k) = all_list k"
  "idle_thread (upd_thread t f k) = idle_thread k" "initial_thread (upd_thread t f k) = initial_thread k"
  "load_avg (upd_thread t f k) = load_avg k" "next_tid (upd_thread t f k) = next_tid k"
  "ticks (upd_thread t f k) = ticks k" "thread_ticks (upd_thread t f k) = thread_ticks k"
  "intr_on (upd_thread t f k) = intr_on k" "in_external_intr (upd_thread t f k) = in_external_intr k"
  "yield_on_return (upd_thread t f k) = yield_on_return k" "semas (upd_thread t f k) = semas k"
  "holder (upd_thread t f k) = holder k" "conds (upd_thread t f k) = conds k"
  "frames (upd_thread t f k) = frames k" "retval (upd_thread t f k) = retval k"
  "thr (upd_thread t f k) = (thr k)(t := f (thr k t))" "located (upd_thread t f k) p = located k p"
  "thread_prior_aging (upd_thread t f k) = thread_prior_aging k"
  "thread_mlfqs (upd_thread t f k) = thread_mlfqs k"
  by (simp_all add: upd_thread_def)

lemma push_frame_sel [simp]:
  "cur (push_frame f k) = cur k" "ready_list (push_frame f k) = ready_list k"
  "blocked_list (push_frame f k) = blocked_list k" "all_list (push_frame f k) = all_list k"
  "idle_thread (push_frame f k) = idle_thread k" "initial_thread (push_frame f k) = initial_thread k"
  "intr_on (push_frame f k) = intr_on k" "in_external_intr (push_frame f k) = in_external_intr k"
  "semas (push_frame f k) = semas k" "holder (push_frame f k) = holder k" "conds (push_frame f k) = conds k"
  "frames (push_frame f k) = (frames k)(cur k := f # frames k (cur k))"
  "ticks (push_frame f k) = ticks k" "thr (push_frame f k) = thr k" "next_tid (push_frame f k) = next_tid k"
  by (simp_all add: push_frame_def)

lemma located_push: "creates f = None \<Longrightarrow> located (push_frame f k) p = located k p"
  by (cases p) (simp_all add: push_frame_def)

lemma is_thread_cong: "magic (thr k' t) = magic (thr k t) \<Longrightarrow> is_thread k' t = is_thread k t"
  by (simp add: is_thread_def)

text \<open>A thread that is nowhere enters a place.\<close>

lemma located_ok_enter:
  assumes "located_ok k c" and "c \<in> set (all_list k)" and "c \<noteq> idle_thread k"
    and "all_list k' = all_list k" and "idle_thread k' = idle_thread k"
    and "\<And>q. q \<noteq> p \<Longrightarrow> located k' q = located k q"
    and "distinct (located k' p)" and "set (located k' p) = insert c (set (located k p))"
    and "\<And>t. t \<noteq> c \<Longrightarrow> status (thr k' t) = status (thr k t)"
    and "status (thr k' c) = place_status p"
    and "NULL \<notin> set (all_list k)"
  shows "located_ok k' NULL"
  unfolding located_ok_def
proof (intro conjI allI ballI impI)
  show "distinct (located k' q)" for q using assms by (cases "q = p") (simp_all add: located_ok_def)
next
  fix q t assume t: "t \<in> set (located k' q)"
  have *: "t = c \<and> q = p \<or> t \<noteq> c \<and> t \<in> set (located k q)"
    using t assms(1,6,8) by (cases "q = p") (auto simp: located_ok_def)
  then show "t \<in> set (all_list k')" "t \<noteq> idle_thread k'" "status (thr k' t) = place_status q"
    using assms by (auto simp: located_ok_def)
  then show "t \<noteq> NULL" using assms by auto
next
  fix q r t assume "t \<in> set (located k' q)" "t \<in> set (located k' r)"
  then show "q = r" using assms(1,6,8) unfolding located_ok_def by (metis insert_iff)
next
  fix t assume "t \<in> set (all_list k')" "t \<noteq> idle_thread k'"
  then show "\<exists>q. t \<in> set (located k' q)"
    using assms(1,4-6,8) unfolding located_ok_def by (metis insert_iff)
qed

text \<open>A thread leaves a place for nowhere: it becomes the running one.\<close>

lemma located_ok_leave:
  assumes "located_ok k NULL" and "t \<in> set (located k p)"
    and "all_list k' = all_list k" and "idle_thread k' = idle_thread k"
    and "\<And>q. q \<noteq> p \<Longrightarrow> located k' q = located k q"
    and "distinct (located k' p)" and "set (located k' p) = set (located k p) - {t}"
    and "\<And>x. x \<in> set (all_list k) \<Longrightarrow> x \<noteq> t \<Longrightarrow> status (thr k' x) = status (thr k x)"
    and "NULL \<notin> set (all_list k)"
  shows "located_ok k' t"
  unfolding located_ok_def
proof (intro conjI allI ballI impI)
  show "distinct (located k' q)" for q using assms by (cases "q = p") (simp_all add: located_ok_def)
next
  fix q x assume x: "x \<in> set (located k' q)"
  have *: "x \<in> set (located k q) \<and> x \<noteq> t"
    using x assms(1,2,5,7) unfolding located_ok_def by (metis Diff_iff insertCI)
  then show "x \<in> set (all_list k')" "x \<noteq> t" "x \<noteq> idle_thread k'" "status (thr k' x) = place_status q"
    using assms by (auto simp: located_ok_def)
next
  fix q r x assume "x \<in> set (located k' q)" "x \<in> set (located k' r)"
  then show "q = r" using assms(1,5,7) unfolding located_ok_def by (metis Diff_iff)
next
  fix x assume "x \<in> set (all_list k')" "x \<noteq> t" "x \<noteq> idle_thread k'"
  then obtain q where "x \<in> set (located k q)"
    using assms(1,3,4,9) unfolding located_ok_def by metis
  then show "\<exists>q. x \<in> set (located k' q)" using \<open>x \<noteq> t\<close> assms(5,7) by (metis Diff_iff singletonD)
qed

text \<open>A blocked thread moves to the run queue.\<close>

lemma located_ok_move:
  assumes "located_ok k c" and "t \<in> set (located k p)" and "p \<noteq> PReady"
    and "all_list k' = all_list k" and "idle_thread k' = idle_thread k"
    and "\<And>q. q \<noteq> p \<Longrightarrow> q \<noteq> PReady \<Longrightarrow> located k' q = located k q"
    and "distinct (located k' p)" and "set (located k' p) = set (located k p) - {t}"
    and "distinct (located k' PReady)" and "set (located k' PReady) = insert t (set (located k PReady))"
    and "\<And>x. x \<noteq> t \<Longrightarrow> status (thr k' x) = status (thr k x)"
    and "status (thr k' t) = THREAD_READY"
  shows "located_ok k' c"
  unfolding located_ok_def
proof (intro conjI allI ballI impI)
  show "distinct (located k' q)" for q
    using assms by (cases "q = p"; cases "q = PReady") (simp_all add: located_ok_def)
next
  fix q x assume x: "x \<in> set (located k' q)"
  have *: "x = t \<and> q = PReady \<or> x \<noteq> t \<and> x \<in> set (located k q)"
    using x assms(1,2,3,6,8,10) unfolding located_ok_def by (metis Diff_iff insert_iff)
  then show "x \<in> set (all_list k')" "x \<noteq> c" "x \<noteq> idle_thread k'" "status (thr k' x) = place_status q"
    using assms by (auto simp: located_ok_def)
next
  fix q r x assume "x \<in> set (located k' q)" "x \<in> set (located k' r)"
  then show "q = r" using assms(1,2,3,6,8,10) unfolding located_ok_def by (metis Diff_iff insert_iff)
next
  fix x assume "x \<in> set (all_list k')" "x \<noteq> c" "x \<noteq> idle_thread k'"
  then obtain q where q: "x \<in> set (located k q)"
    using assms(1,4,5) unfolding located_ok_def by metis
  then show "\<exists>q. x \<in> set (located k' q)"
    using assms(6,8,10) by (cases "x = t"; cases "q = p"; cases "q = PReady") (metis Diff_iff insert_iff singletonD)+
qed

lemma located_ok_cong:
  assumes "all_list k' = all_list k" "idle_thread k' = idle_thread k" "\<And>p. located k' p = located k p"
    and "\<And>t. t \<in> set (all_list k) \<Longrightarrow> t \<noteq> c \<Longrightarrow> status (thr k' t) = status (thr k t)"
  shows "located_ok k' c = located_ok k c"
proof -
  have "(\<forall>p. \<forall>t\<in>set (located k' p). t \<in> set (all_list k) \<and> t \<noteq> c \<and> t \<noteq> idle_thread k \<and>
          status (thr k' t) = place_status p) =
        (\<forall>p. \<forall>t\<in>set (located k p). t \<in> set (all_list k) \<and> t \<noteq> c \<and> t \<noteq> idle_thread k \<and>
          status (thr k t) = place_status p)"
    using assms(3,4) by metis
  then show ?thesis unfolding located_ok_def assms(1-3) by simp
qed


lemma base_ok_cong:
  assumes "all_list k' = all_list k" "idle_thread k' = idle_thread k" "ready_list k' = ready_list k"
    and "\<And>t. t \<in> set (all_list k) \<Longrightarrow> magic (thr k' t) = magic (thr k t)"
    and "\<And>t. t \<in> set (ready_list k) \<Longrightarrow> prio k' t = prio k t"
    and "\<And>f. f \<in> set (frames k (idle_thread k)) \<Longrightarrow> f \<in> set (frames k' (idle_thread k))"
    and "base_ok k"
  shows "base_ok k'"
proof -
  have "map (\<lambda>t. - prio k' t) (ready_list k) = map (\<lambda>t. - prio k t) (ready_list k)"
    using assms(5) by simp
  then have "sorted (map (\<lambda>t. - prio k' t) (ready_list k))"
    using assms(7) by (simp only: base_ok_def)
  then show ?thesis using assms unfolding base_ok_def by (auto simp: is_thread_def)
qed

lemma base_ok_NULL: "base_ok k \<Longrightarrow> NULL \<notin> set (all_list k)"
  by (auto simp: base_ok_def is_thread_def)

lemma located_inD:
  "located_ok k c \<Longrightarrow> t \<in> set (located k p) \<Longrightarrow>
     t \<in> set (all_list k) \<and> t \<noteq> c \<and> t \<noteq> idle_thread k \<and> status (thr k t) = place_status p"
  by (simp add: located_ok_def)

text \<open>The thread \<^verbatim>\<open>schedule\<close> switches to.\<close>

definition chosen :: "kernel \<Rightarrow> addr" where
  "chosen k = (case ready_list k of [] \<Rightarrow> idle_thread k | t # _ \<Rightarrow> t)"

lemma schedule_keeps:
  "schedule k = Some k' \<Longrightarrow> cur k' = chosen k \<and> semas k' = semas k \<and> holder k' = holder k \<and>
     conds k' = conds k \<and> frames k' = frames k \<and> blocked_list k' = blocked_list k \<and>
     all_list k' = all_list k \<and> idle_thread k' = idle_thread k \<and> ticks k' = ticks k \<and>
     next_tid k' = next_tid k \<and> initial_thread k' = initial_thread k \<and> \<not> intr_on k' \<and>
     in_external_intr k' = in_external_intr k \<and> ready_list k' = tl (ready_list k) \<and>
     status (thr k' (cur k')) = THREAD_RUNNING"
  by (auto simp: schedule_def thread_schedule_tail_def next_thread_to_run_def running_thread_def
      intr_get_level_def chosen_def Let_def monad_simps split: list.splits if_splits)

lemma schedule_eq:
  assumes "\<not> intr_on k" "status (thr k (cur k)) \<noteq> THREAD_RUNNING" "is_thread k (chosen k)"
    and "status (thr k (cur k)) = THREAD_DYING \<Longrightarrow> chosen k \<noteq> cur k"
  shows "schedule k =
    (let k1 = upd_thread (chosen k) (status_update (\<lambda>_. THREAD_RUNNING))
                (k\<lparr>ready_list := tl (ready_list k), cur := chosen k, thread_ticks := 0\<rparr>) in
     Some (if status (thr k (cur k)) = THREAD_DYING \<and> cur k \<noteq> initial_thread k \<and> cur k \<noteq> NULL
           then upd_thread (cur k) (\<lambda>_. poison_thread) k1 else k1))"
proof -
  obtain k1 where k1: "next_thread_to_run k = (chosen k, k1)" "k1 = k\<lparr>ready_list := tl (ready_list k)\<rparr>"
    by (simp add: next_thread_to_run_def chosen_def split: list.splits)
  show ?thesis using assms
    by (auto simp: schedule_def thread_schedule_tail_def k1 running_thread_def intr_get_level_def
        is_thread_def upd_thread_def Let_def)
qed

lemma schedule_ok:
  assumes inv: "switch_inv k" and c: "chosen k \<noteq> NULL"
  shows "\<exists>k'. schedule k = Some k' \<and> sched_inv k' \<and>
    (\<forall>t\<in>set (all_list k). prio k' t = prio k t \<and> wakeup (thr k' t) = wakeup (thr k t))"
proof -
  have b: "base_ok k" and l: "located_ok k NULL" and off: "\<not> intr_on k"
    and st: "status (thr k (cur k)) \<noteq> THREAD_RUNNING"
    and dy: "status (thr k (cur k)) = THREAD_DYING \<Longrightarrow> cur k \<notin> set (all_list k)"
    using inv by (auto simp: switch_inv_def)
  have ca: "chosen k \<in> set (all_list k)"
  proof (cases "ready_list k")
    case Nil then show ?thesis using b c by (simp add: chosen_def base_ok_def)
  next
    case (Cons t ts) then show ?thesis using located_inD [OF l, of t PReady] by (simp add: chosen_def)
  qed
  then have it: "is_thread k (chosen k)" using b by (simp add: base_ok_def)
  have ne: "status (thr k (cur k)) = THREAD_DYING \<Longrightarrow> chosen k \<noteq> cur k" using dy ca by metis
  let ?k1 = "upd_thread (chosen k) (status_update (\<lambda>_. THREAD_RUNNING))
               (k\<lparr>ready_list := tl (ready_list k), cur := chosen k, thread_ticks := 0\<rparr>)"
  obtain k' where s: "schedule k = Some k'"
    and k': "k' = (if status (thr k (cur k)) = THREAD_DYING \<and> cur k \<noteq> initial_thread k \<and> cur k \<noteq> NULL
           then upd_thread (cur k) (\<lambda>_. poison_thread) ?k1 else ?k1)"
    using schedule_eq [OF off st it ne] by (simp add: Let_def)
  have thr': "thr k' t = (if t = chosen k then (thr k t)\<lparr>status := THREAD_RUNNING\<rparr> else thr k t)"
    if "t \<in> set (all_list k)" for t using that dy by (auto simp: k')
  note keep = schedule_keeps [OF s]
  have loc: "located k' p = (if p = PReady then tl (ready_list k) else located k p)" for p
    using keep by (cases p) simp_all
  have lok: "located_ok k' (chosen k)"
  proof (cases "ready_list k")
    case Nil
    have "located_ok k (chosen k)"
      using l Nil base_ok_NULL [OF b] unfolding located_ok_def chosen_def
      by (simp, metis)
    moreover have "located_ok k' (chosen k) = located_ok k (chosen k)"
    proof (rule located_ok_cong)
      fix p show "located k' p = located k p" using loc [of p] Nil by (cases p) simp_all
    next
      fix t assume "t \<in> set (all_list k)" "t \<noteq> chosen k"
      then show "status (thr k' t) = status (thr k t)" using thr' [of t] by simp
    qed (use keep in simp_all)
    ultimately show ?thesis by blast
  next
    case (Cons t ts)
    then have t: "chosen k = t" by (simp add: chosen_def)
    have d: "t \<notin> set ts" "distinct ts" using l Cons unfolding located_ok_def by (metis distinct.simps(2) located.simps(1))+
    show ?thesis
    proof (rule located_ok_leave [OF l, where p = PReady])
      fix x assume "x \<in> set (all_list k)" "x \<noteq> chosen k"
      then show "status (thr k' x) = status (thr k x)" using thr' [of x] by simp
    next
      show "NULL \<notin> set (all_list k)" by (rule base_ok_NULL [OF b])
    next
      fix q assume "q \<noteq> PReady" then show "located k' q = located k q" using loc [of q] by simp
    next
      show "distinct (located k' PReady)" "set (located k' PReady) = set (located k PReady) - {chosen k}"
        using loc [of PReady] Cons d t by simp_all
    qed (use keep in \<open>simp_all add: Cons t\<close>)
  qed
  have rs: "set (ready_list k) \<subseteq> set (all_list k)"
    using located_inD [OF l, of _ PReady] by auto
  have pr: "prio k' t = prio k t" "wakeup (thr k' t) = wakeup (thr k t)" "magic (thr k' t) = magic (thr k t)"
    if "t \<in> set (all_list k)" for t using thr' [OF that] by (simp_all add: prio_def)
  have "map (\<lambda>t. - prio k' t) (tl (ready_list k)) = map (\<lambda>t. - prio k t) (tl (ready_list k))"
    using pr(1) rs by (cases "ready_list k") (auto simp: subset_iff)
  moreover have "sorted (map (\<lambda>t. - prio k t) (tl (ready_list k)))"
    using b by (simp add: base_ok_def map_tl sorted_tl)
  ultimately have "sorted (map (\<lambda>t. - prio k' t) (tl (ready_list k)))" by (simp only:)
  then have bok: "base_ok k'"
    using b pr(3) keep by (simp add: base_ok_def is_thread_def)
  have "status (thr k' (chosen k)) = THREAD_RUNNING" using thr' [OF ca] by simp
  then have "sched_inv k'" using bok lok ca keep by (simp add: sched_inv_def)
  then show ?thesis using s pr by blast
qed


lemma schedule_chosen: "schedule k = Some k' \<Longrightarrow> chosen k \<noteq> NULL"
  by (auto simp: schedule_def next_thread_to_run_def running_thread_def is_thread_def
      chosen_def Let_def monad_simps split: list.splits if_splits)

lemma schedule_inv: "switch_inv k \<Longrightarrow> schedule k = Some k' \<Longrightarrow> sched_inv k'"
  using schedule_ok schedule_chosen by fastforce

lemma sched_inv_current: "sched_inv k \<Longrightarrow> thread_current k = Some (cur k)"
  by (simp add: sched_inv_def base_ok_def thread_current_def running_thread_def)

text \<open>The running thread has been put in place \<open>p\<close>, or is the idle thread and is nowhere.\<close>

lemma switch_inv_enter:
  assumes inv: "sched_inv k" and c: "cur k \<noteq> idle_thread k"
    and k': "cur k' = cur k" "all_list k' = all_list k" "idle_thread k' = idle_thread k" "\<not> intr_on k'"
      "\<And>t. t \<noteq> cur k \<Longrightarrow> thr k' t = thr k t" "magic (thr k' (cur k)) = magic (thr k (cur k))"
      "frames k' (idle_thread k) = frames k (idle_thread k)"
      "sorted (map (\<lambda>t. - prio k' t) (ready_list k'))"
      "status (thr k' (cur k)) = place_status p"
    and p: "\<And>q. q \<noteq> p \<Longrightarrow> located k' q = located k q" "distinct (located k' p)"
      "set (located k' p) = insert (cur k) (set (located k p))"
  shows "switch_inv k'"
proof -
  have i: "base_ok k" "located_ok k (cur k)" "cur k \<in> set (all_list k)"
    using inv by (simp_all add: sched_inv_def)
  have "located_ok k' NULL"
    by (rule located_ok_enter [OF i(2,3) c, where p = p]) (simp_all add: k' p base_ok_NULL [OF i(1)])
  moreover have "base_ok k'"
  proof -
    have "magic (thr k' t) = magic (thr k t)" for t using k'(5,6) by (cases "t = cur k") simp_all
    then show ?thesis using i(1) k' by (simp add: base_ok_def is_thread_def)
  qed
  ultimately show ?thesis using k' i(3) by (cases p) (simp_all add: switch_inv_def)
qed

lemma switch_inv_idle:
  assumes inv: "sched_inv k" and c: "cur k = idle_thread k"
    and k': "cur k' = cur k" "all_list k' = all_list k" "idle_thread k' = idle_thread k" "\<not> intr_on k'"
      "\<And>t. t \<noteq> cur k \<Longrightarrow> thr k' t = thr k t" "magic (thr k' (cur k)) = magic (thr k (cur k))"
      "ready_list k' = ready_list k" "status (thr k' (cur k)) \<noteq> THREAD_RUNNING"
      "status (thr k' (cur k)) \<noteq> THREAD_DYING"
      "FIdleLoop \<in> set (frames k' (idle_thread k)) \<or> FIdleHlt \<in> set (frames k' (idle_thread k))"
    and p: "\<And>q. located k' q = located k q"
  shows "switch_inv k'"
proof -
  have i: "base_ok k" "located_ok k (cur k)" "cur k \<in> set (all_list k)"
    using inv by (simp_all add: sched_inv_def)
  have "located_ok k' (cur k)"
    using i(2) located_ok_cong [of k' k "cur k"] k' p by simp
  then have "located_ok k' NULL"
    using c k'(2,3) base_ok_NULL [OF i(1)] unfolding located_ok_def by metis
  moreover have "base_ok k'"
  proof -
    have m: "magic (thr k' t) = magic (thr k t)" for t using k'(5,6) by (cases "t = cur k") simp_all
    have "t \<noteq> cur k" if "t \<in> set (ready_list k)" for t
      using located_inD [OF i(2), of t PReady] that by simp
    then have "map (\<lambda>t. - prio k' t) (ready_list k) = map (\<lambda>t. - prio k t) (ready_list k)"
      using k'(5) by (simp add: prio_def)
    then have "sorted (map (\<lambda>t. - prio k' t) (ready_list k'))"
      using i(1) k'(7) by (simp only: base_ok_def)
    then show ?thesis using i(1) k' m by (simp add: base_ok_def is_thread_def)
  qed
  ultimately show ?thesis using k' i(3) by (simp add: switch_inv_def)
qed

text \<open>A field of the running thread that the invariant does not mention, or its priority, changes.\<close>

lemma sched_inv_cur_upd:
  assumes "sched_inv k" and "all_list k' = all_list k" "idle_thread k' = idle_thread k"
    "cur k' = cur k" "\<And>p. located k' p = located k p"
    "\<And>t. t \<noteq> cur k \<Longrightarrow> thr k' t = thr k t"
    "magic (thr k' (cur k)) = magic (thr k (cur k))" "status (thr k' (cur k)) = status (thr k (cur k))"
    "set (frames k (idle_thread k)) \<subseteq> set (frames k' (idle_thread k))"
  shows "sched_inv k'"
proof -
  have i: "base_ok k" "located_ok k (cur k)" "cur k \<in> set (all_list k)"
    using assms(1) by (simp_all add: sched_inv_def)
  have m: "magic (thr k' t) = magic (thr k t)" for t using assms(6,7) by (cases "t = cur k") simp_all
  have r: "ready_list k' = ready_list k" using assms(5) [of PReady] by simp
  have "t \<noteq> cur k" if "t \<in> set (ready_list k)" for t
    using located_inD [OF i(2), of t PReady] that by simp
  then have "prio k' t = prio k t" if "t \<in> set (ready_list k)" for t
    using that assms(6) by (simp add: prio_def)
  then have "base_ok k'" using assms(9) by (intro base_ok_cong [OF assms(2,3) r m _ _ i(1)]) blast+
  moreover have "located_ok k' (cur k)"
    using i(2) located_ok_cong [of k' k "cur k"] assms by simp
  ultimately show ?thesis using assms by (simp add: sched_inv_def)
qed

lemma sched_inv_simps [simp]:
  "sched_inv (k\<lparr>intr_on := b\<rparr>) = sched_inv k" "sched_inv (k\<lparr>in_external_intr := b\<rparr>) = sched_inv k"
  "sched_inv (k\<lparr>yield_on_return := b\<rparr>) = sched_inv k" "sched_inv (k\<lparr>load_avg := i\<rparr>) = sched_inv k"
  "sched_inv (k\<lparr>next_tid := i\<rparr>) = sched_inv k" "sched_inv (k\<lparr>ticks := w\<rparr>) = sched_inv k"
  "sched_inv (k\<lparr>idle_ticks := w\<rparr>) = sched_inv k" "sched_inv (k\<lparr>kernel_ticks := w\<rparr>) = sched_inv k"
  "sched_inv (k\<lparr>thread_ticks := n\<rparr>) = sched_inv k" "sched_inv (k\<lparr>retval := r\<rparr>) = sched_inv k"
  "sched_inv (k\<lparr>holder := g\<rparr>) = sched_inv k" "sched_inv (k\<lparr>conds := c\<rparr>) = sched_inv k"
  by (simp_all add: sched_inv_def base_ok_def located_ok_def is_thread_def prio_def)


subsection \<open>Operations\<close>

lemma sched_inv_cur: "sched_inv k \<Longrightarrow> is_thread k (cur k)"
  by (simp add: sched_inv_def base_ok_def)

lemma ready_cur: "sched_inv k \<Longrightarrow> cur k \<notin> set (ready_list k)"
  using located_inD [of k "cur k" _ PReady] by (auto simp: sched_inv_def)

lemma prio_simps [simp]:
  "prio (k\<lparr>intr_on := b\<rparr>) t = prio k t" "prio (k\<lparr>ready_list := l\<rparr>) t = prio k t"
  "prio (push_frame f k) t = prio k t"
  "prio (upd_thread c (status_update g) k) t = prio k t"
  "prio (upd_thread c (wakeup_update h) k) t = prio k t"
  by (simp_all add: prio_def push_frame_def)

lemma compare_simps [simp]:
  "list_compare_priority (k\<lparr>intr_on := b\<rparr>) = list_compare_priority k"
  by (intro ext) (simp add: list_compare_priority_def)

text \<open>The state in which \<^verbatim>\<open>thread_yield\<close> calls \<^verbatim>\<open>schedule\<close>.\<close>

definition yielding :: "kernel \<Rightarrow> kernel" where
  "yielding k = push_frame (FSetLevel (intr_on k))
     (upd_thread (cur k) (status_update (\<lambda>_. THREAD_READY))
       (k\<lparr>intr_on := False, ready_list := (if cur k \<noteq> idle_thread k
          then insert_ordered (list_compare_priority k) (cur k) (ready_list k) else ready_list k)\<rparr>))"

lemma thread_yield_eq:
  "sched_inv k \<Longrightarrow> \<not> in_external_intr k \<Longrightarrow> thread_yield k = schedule (yielding k)"
  by (simp add: thread_yield_def sched_inv_current intr_context_def intr_disable_def
      intr_get_level_def yielding_def Let_def upd_thread_def push_frame_def)

lemma yielding_sel [simp]:
  "ready_list (yielding k) = (if cur k \<noteq> idle_thread k
     then insert_ordered (list_compare_priority k) (cur k) (ready_list k) else ready_list k)"
  "cur (yielding k) = cur k" "idle_thread (yielding k) = idle_thread k"
  "all_list (yielding k) = all_list k" "semas (yielding k) = semas k" "holder (yielding k) = holder k"
  "conds (yielding k) = conds k" "blocked_list (yielding k) = blocked_list k"
  "frames (yielding k) = (frames k)(cur k := FSetLevel (intr_on k) # frames k (cur k))"
  "ticks (yielding k) = ticks k" "in_external_intr (yielding k) = in_external_intr k"
  "prio (yielding k) t = prio k t" "next_tid (yielding k) = next_tid k"
  "thr (yielding k) = (thr k)(cur k := (thr k (cur k))\<lparr>status := THREAD_READY\<rparr>)"
  "intr_on (yielding k) = False"
  by (simp_all add: yielding_def)

lemma yielding_switch:
  assumes inv: "sched_inv k" shows "switch_inv (yielding k)"
proof (cases "cur k = idle_thread k")
  case True
  have "located (yielding k) q = located k q" for q
    using True by (cases q) (simp_all)
  moreover have "idle_thread k \<noteq> NULL" using sched_inv_cur [OF inv] True by (simp add: is_thread_def)
  ultimately show ?thesis using True inv
    by (intro switch_inv_idle [OF inv]) (auto simp: sched_inv_def base_ok_def)
next
  case False
  have o: "located (yielding k) q = located k q" if "q \<noteq> PReady" for q
    using that by (cases q) simp_all
  have i: "sorted (map (\<lambda>t. - prio k t) (ready_list k))" "distinct (ready_list k)"
    using inv unfolding sched_inv_def base_ok_def located_ok_def by (simp, metis located.simps(1))
  show ?thesis
    by (rule switch_inv_enter [OF inv False, where p = PReady])
      (use False i ready_cur [OF inv] o prio_order.sorted_insert_ordered in simp_all)
qed

lemma chosen_nonnull:
  "switch_inv k \<Longrightarrow> ready_list k \<noteq> [] \<or> idle_thread k \<noteq> NULL \<Longrightarrow> chosen k \<noteq> NULL"
  using located_inD [of k NULL "hd (ready_list k)" PReady]
  by (cases "ready_list k") (simp_all add: chosen_def switch_inv_def)

lemma thread_yield_ok:
  assumes inv: "sched_inv k" "\<not> in_external_intr k"
  shows "\<exists>k'. thread_yield k = Some k' \<and> sched_inv k'"
proof -
  have "idle_thread k \<noteq> NULL" if "cur k = idle_thread k"
    using that sched_inv_cur [OF inv(1)] by (simp add: is_thread_def)
  moreover have "ready_list (yielding k) \<noteq> []" if "cur k \<noteq> idle_thread k"
    using that by (simp add: insert_ordered_def)
  ultimately have "chosen (yielding k) \<noteq> NULL"
    by (intro chosen_nonnull [OF yielding_switch [OF inv(1)]]) auto
  then show ?thesis using schedule_ok [OF yielding_switch [OF inv(1)]] thread_yield_eq [OF inv] by auto
qed

lemma thread_yield_keeps:
  assumes "sched_inv k" "\<not> in_external_intr k" "thread_yield k = Some k'"
  shows "semas k' = semas k \<and> holder k' = holder k \<and> conds k' = conds k \<and>
    frames k' = (frames k)(cur k := FSetLevel (intr_on k) # frames k (cur k)) \<and>
    all_list k' = all_list k \<and> idle_thread k' = idle_thread k \<and> blocked_list k' = blocked_list k \<and>
    \<not> in_external_intr k' \<and> ticks k' = ticks k \<and> cur k' = chosen (yielding k)"
  using schedule_keeps [of "yielding k" k'] thread_yield_eq [OF assms(1,2)] assms by simp

lemma thread_yield_inv: "sched_inv k \<Longrightarrow> thread_yield k = Some k' \<Longrightarrow> sched_inv k'"
proof -
  assume a: "sched_inv k" "thread_yield k = Some k'"
  then have "\<not> in_external_intr k"
    by (auto simp: thread_yield_def intr_context_def monad_simps sched_inv_current)
  then show "sched_inv k'" using thread_yield_ok [OF a(1)] a(2) by auto
qed


text \<open>The running thread, already entered in place \<open>p\<close>, blocks.\<close>

lemma thread_block_enter:
  assumes inv: "sched_inv k" and c: "cur k \<noteq> idle_thread k"
    and k1: "cur k1 = cur k" "all_list k1 = all_list k" "idle_thread k1 = idle_thread k" "\<not> intr_on k1"
      "\<not> in_external_intr k1" "\<And>t. t \<noteq> cur k \<Longrightarrow> thr k1 t = thr k t"
      "magic (thr k1 (cur k)) = magic (thr k (cur k))" "status (thr k1 (cur k)) = THREAD_RUNNING"
      "frames k1 (idle_thread k) = frames k (idle_thread k)"
    and p: "p \<noteq> PReady" "\<And>q. q \<noteq> p \<Longrightarrow> located k1 q = located k q" "distinct (located k1 p)"
      "set (located k1 p) = insert (cur k) (set (located k p))"
  shows "switch_inv (upd_thread (cur k) (status_update (\<lambda>_. THREAD_BLOCKED)) k1) \<and>
    thread_block k1 = schedule (upd_thread (cur k) (status_update (\<lambda>_. THREAD_BLOCKED)) k1)"
proof
  let ?k = "upd_thread (cur k) (status_update (\<lambda>_. THREAD_BLOCKED)) k1"
  have r: "ready_list k1 = ready_list k" using p(1) p(2) [of PReady] by simp
  have "t \<noteq> cur k" if "t \<in> set (ready_list k)" for t
    using ready_cur [OF inv] that by blast
  then have "map (\<lambda>t. - prio ?k t) (ready_list k) = map (\<lambda>t. - prio k t) (ready_list k)"
    using k1(6) by (simp add: prio_def)
  then have "sorted (map (\<lambda>t. - prio ?k t) (ready_list ?k))"
    using inv r by (simp only: upd_thread_sel sched_inv_def base_ok_def)
  then show "switch_inv ?k"
    by (intro switch_inv_enter [OF inv c, where p = p]) (use k1 p in \<open>cases p; simp\<close>)+
  have "is_thread k1 (cur k)" using sched_inv_cur [OF inv] k1(7) by (simp add: is_thread_def)
  then show "thread_block k1 = schedule ?k"
    using k1 by (simp add: thread_block_def intr_context_def intr_get_level_def
        thread_current_def running_thread_def)
qed

text \<open>A blocked thread that has been taken out of place \<open>p\<close> is made ready.\<close>

lemma thread_unblock_eq:
  assumes "is_thread k t" "status (thr k t) = THREAD_BLOCKED" "intr_on k \<longrightarrow> \<not> in_external_intr k"
  shows "thread_unblock t k = Some (upd_thread t (status_update (\<lambda>_. THREAD_READY))
    (k\<lparr>ready_list := insert_ordered (list_compare_priority k) t (ready_list k)\<rparr>))"
  using assms
  by (cases "intr_on k") (simp_all add: thread_unblock_def intr_disable_def intr_set_level_def intr_enable_def
      intr_get_level_def intr_context_def upd_thread_def is_thread_def)

lemma thread_unblock_move:
  assumes inv: "sched_inv k" and t: "t \<in> set (located k p)" and p: "p \<noteq> PReady"
    and k1: "cur k1 = cur k" "all_list k1 = all_list k" "idle_thread k1 = idle_thread k" "thr k1 = thr k"
      "intr_on k1 \<longrightarrow> \<not> in_external_intr k1"
      "\<And>f. f \<in> set (frames k (idle_thread k)) \<Longrightarrow> f \<in> set (frames k1 (idle_thread k))"
    and l: "\<And>q. q \<noteq> p \<Longrightarrow> located k1 q = located k q" "distinct (located k1 p)"
      "set (located k1 p) = set (located k p) - {t}"
  shows "\<exists>k'. thread_unblock t k1 = Some k' \<and> sched_inv k' \<and>
    k' = upd_thread t (status_update (\<lambda>_. THREAD_READY))
      (k1\<lparr>ready_list := insert_ordered (list_compare_priority k) t (ready_list k)\<rparr>)"
proof -
  let ?k' = "upd_thread t (status_update (\<lambda>_. THREAD_READY))
    (k1\<lparr>ready_list := insert_ordered (list_compare_priority k) t (ready_list k)\<rparr>)"
  have i: "base_ok k" "located_ok k (cur k)" "cur k \<in> set (all_list k)"
    using inv by (simp_all add: sched_inv_def)
  have st: "status (thr k t) = THREAD_BLOCKED" "t \<noteq> cur k" "t \<in> set (all_list k)"
    using located_inD [OF i(2) t] p by (cases p; simp)+
  have r: "ready_list k1 = ready_list k" using l(1) [of PReady] p by simp
  have lc: "list_compare_priority k1 = list_compare_priority k"
    by (intro ext) (simp add: list_compare_priority_def prio_def k1)
  have nr: "t \<notin> set (ready_list k)" "distinct (ready_list k)"
    using i(2) t p unfolding located_ok_def by (metis located.simps(1))+
  have lo: "located_ok ?k' (cur k)"
  proof (rule located_ok_move [OF i(2) t p])
    fix q assume "q \<noteq> p" "q \<noteq> PReady"
    then show "located ?k' q = located k q" using l(1) [of q] by (cases q) auto
  next
    show "distinct (located ?k' p)" "set (located ?k' p) = set (located k p) - {t}"
      using l p by (cases p; simp)+
  qed (use k1 nr in simp_all)
  have pr: "prio ?k' = prio k" by (intro ext) (simp add: prio_def k1)
  have "sorted (map (\<lambda>x. - prio k x) (insert_ordered (list_compare_priority k) t (ready_list k)))"
    using i(1) by (intro prio_order.sorted_insert_ordered) (simp add: base_ok_def)
  then have "sorted (map (\<lambda>x. - prio ?k' x) (ready_list ?k'))"
    by (simp only: pr) simp
  then have "base_ok ?k'" using i(1) k1 by (auto simp: base_ok_def is_thread_def)
  then have "sched_inv ?k'" using lo i(3) k1 st inv by (simp add: sched_inv_def)
  moreover have "thread_unblock t k1 = Some ?k'"
    using thread_unblock_eq [of k1 t] st i k1 r lc by (simp add: base_ok_def is_thread_def)
  ultimately show ?thesis by blast
qed


subsection \<open>Alarm clock\<close>

lemma timer_ticks_off [simp]: "\<not> intr_on k \<Longrightarrow> timer_ticks k = Some (ticks k, k)"
  by (simp add: timer_ticks_def intr_disable_def intr_set_level_def intr_get_level_def)

lemma timer_ticks_eq: "\<not> in_external_intr k \<Longrightarrow> timer_ticks k = Some (ticks k, k)"
  by (cases "intr_on k")
    (simp_all add: timer_ticks_def intr_disable_def intr_set_level_def intr_get_level_def
      intr_enable_def intr_context_def)

text \<open>What one pass over the sleepers does: the due ones become ready, in list order.\<close>

definition due :: "kernel \<Rightarrow> addr \<Rightarrow> bool" where
  "due k t \<longleftrightarrow> wakeup (thr k t) \<le> ticks k"

lemma block_check_loop_inv:
  assumes "sched_inv k" "\<not> intr_on k" "set es \<subseteq> set (blocked_list k)" "distinct es"
  shows "\<exists>k'. block_check_loop es k = Some k' \<and> sched_inv k' \<and> \<not> intr_on k' \<and>
    set (blocked_list k') = set (blocked_list k) - {t \<in> set es. due k t} \<and>
    set (ready_list k') = set (ready_list k) \<union> {t \<in> set es. due k t} \<and>
    (\<forall>t. wakeup (thr k' t) = wakeup (thr k t) \<and> prio k' t = prio k t) \<and>
    cur k' = cur k \<and> semas k' = semas k \<and> holder k' = holder k \<and> conds k' = conds k \<and>
    frames k' = frames k \<and> all_list k' = all_list k \<and> idle_thread k' = idle_thread k \<and>
    ticks k' = ticks k \<and> in_external_intr k' = in_external_intr k \<and> load_avg k' = load_avg k \<and>
    yield_on_return k' = yield_on_return k \<and> thread_prior_aging k' = thread_prior_aging k \<and>
    thread_mlfqs k' = thread_mlfqs k"
  using assms
proof (induction es arbitrary: k)
  case (Cons t es)
  show ?case
  proof (cases "due k t")
    case False
    then have "block_check_loop (t # es) k = block_check_loop es k"
      using Cons.prems(2) by (simp add: due_def)
    moreover have "{x \<in> set (t # es). due k x} = {x \<in> set es. due k x}" using False by auto
    ultimately show ?thesis using Cons.IH [of k] Cons.prems by simp
  next
    case True
    let ?k1 = "k\<lparr>blocked_list := remove1 t (blocked_list k)\<rparr>"
    have d: "distinct (blocked_list k)"
      using Cons.prems(1) unfolding sched_inv_def located_ok_def by (metis located.simps(2))
    obtain k' where k': "thread_unblock t ?k1 = Some k'" "sched_inv k'"
      and e: "k' = upd_thread t (status_update (\<lambda>_. THREAD_READY))
        (?k1\<lparr>ready_list := insert_ordered (list_compare_priority k) t (ready_list k)\<rparr>)"
      using thread_unblock_move [of k t PSleep ?k1] Cons.prems d
      by (auto simp: located_sleep)
    let ?u = "upd_thread t (status_update (\<lambda>_. THREAD_READY))
        (k\<lparr>ready_list := insert_ordered (list_compare_priority k) t (ready_list k)\<rparr>)"
    have st: "is_thread k t" "status (thr k t) = THREAD_BLOCKED"
      using located_inD [of k "cur k" t PSleep] Cons.prems
      by (auto simp: sched_inv_def base_ok_def)
    then have u: "thread_unblock t k = Some ?u"
      using Cons.prems(2) by (simp add: thread_unblock_eq)
    moreover have "?u\<lparr>blocked_list := remove1 t (blocked_list ?u)\<rparr> = k'"
      by (simp add: e upd_thread_def)
    ultimately have "block_check_loop (t # es) k = block_check_loop es k'"
      using True Cons.prems(2) by (simp add: due_def)
    moreover have "due k' x = due k x" for x by (simp add: due_def e)
    moreover have f: "blocked_list k' = remove1 t (blocked_list k)"
        "set (ready_list k') = insert t (set (ready_list k))" "\<not> intr_on k'"
        "\<forall>x. wakeup (thr k' x) = wakeup (thr k x) \<and> prio k' x = prio k x"
        "cur k' = cur k" "semas k' = semas k" "holder k' = holder k" "conds k' = conds k"
        "frames k' = frames k" "all_list k' = all_list k" "idle_thread k' = idle_thread k"
        "ticks k' = ticks k" "in_external_intr k' = in_external_intr k" "load_avg k' = load_avg k"
        "yield_on_return k' = yield_on_return k" "thread_prior_aging k' = thread_prior_aging k"
        "thread_mlfqs k' = thread_mlfqs k"
      using Cons.prems(2) by (simp_all add: e prio_def)
    moreover have "set es \<subseteq> set (blocked_list k')" using Cons.prems d f(1) by auto
    ultimately obtain k2 where k2: "block_check_loop (t # es) k = Some k2" "sched_inv k2" "\<not> intr_on k2"
      and s2: "set (blocked_list k2) = set (blocked_list k') - {x \<in> set es. due k x}"
        "set (ready_list k2) = set (ready_list k') \<union> {x \<in> set es. due k x}"
      and r2: "(\<forall>x. wakeup (thr k2 x) = wakeup (thr k x) \<and> prio k2 x = prio k x) \<and>
        cur k2 = cur k \<and> semas k2 = semas k \<and> holder k2 = holder k \<and> conds k2 = conds k \<and>
        frames k2 = frames k \<and> all_list k2 = all_list k \<and> idle_thread k2 = idle_thread k \<and>
        ticks k2 = ticks k \<and> in_external_intr k2 = in_external_intr k \<and> load_avg k2 = load_avg k \<and>
        yield_on_return k2 = yield_on_return k \<and> thread_prior_aging k2 = thread_prior_aging k \<and>
        thread_mlfqs k2 = thread_mlfqs k"
      using Cons.IH [OF k'(2)] Cons.prems(4) by auto
    have "set (blocked_list k2) = set (blocked_list k) - {x \<in> set (t # es). due k x}"
      "set (ready_list k2) = set (ready_list k) \<union> {x \<in> set (t # es). due k x}"
      using s2 f(1,2) d True by auto
    then show ?thesis using k2 r2 by blast
  qed
qed simp

lemmas block_check_inv = block_check_loop_inv [OF _ _ subset_refl]


subsection \<open>The timer interrupt\<close>

text \<open>What a handler leaves alone.\<close>

definition same_sync :: "kernel \<Rightarrow> kernel \<Rightarrow> bool" where
  "same_sync k k' \<longleftrightarrow> semas k' = semas k \<and> holder k' = holder k \<and> conds k' = conds k \<and>
     frames k' = frames k \<and> all_list k' = all_list k \<and> idle_thread k' = idle_thread k \<and>
     cur k' = cur k \<and> ticks k' = ticks k \<and> intr_on k' = intr_on k \<and>
     in_external_intr k' = in_external_intr k \<and> thread_prior_aging k' = thread_prior_aging k \<and>
     thread_mlfqs k' = thread_mlfqs k"

lemma same_sync_refl [simp]: "same_sync k k" by (simp add: same_sync_def)

lemma same_sync_trans [trans]: "same_sync k k' \<Longrightarrow> same_sync k' k'' \<Longrightarrow> same_sync k k''"
  by (simp add: same_sync_def)

text \<open>Only statistics of the threads, or their priorities, have changed.\<close>

definition same_but_stats :: "kernel \<Rightarrow> kernel \<Rightarrow> bool" where
  "same_but_stats k k' \<longleftrightarrow> same_sync k k' \<and> blocked_list k' = blocked_list k \<and>
     mset (ready_list k') = mset (ready_list k) \<and>
     (\<forall>t. status (thr k' t) = status (thr k t) \<and> magic (thr k' t) = magic (thr k t) \<and>
        wakeup (thr k' t) = wakeup (thr k t))"

lemma same_but_stats_trans: "same_but_stats k k' \<Longrightarrow> same_but_stats k' k'' \<Longrightarrow> same_but_stats k k''"
  by (auto simp: same_but_stats_def intro: same_sync_trans)

lemma same_but_stats_inv:
  assumes "sched_inv k" "same_but_stats k k'"
    "sorted (map (\<lambda>t. - prio k' t) (ready_list k'))"
  shows "sched_inv k'"
proof -
  have i: "base_ok k" "located_ok k (cur k)" "cur k \<in> set (all_list k)"
    "status (thr k (cur k)) = THREAD_RUNNING" using assms(1) by (simp_all add: sched_inv_def)
  have s: "set (ready_list k') = set (ready_list k)" "distinct (ready_list k') = distinct (ready_list k)"
    using assms(2) mset_eq_setD mset_eq_imp_distinct_iff unfolding same_but_stats_def by blast+
  have l: "set (located k' p) = set (located k p)" "distinct (located k' p) = distinct (located k p)" for p
    using assms(2) s by (cases p; simp add: same_but_stats_def same_sync_def)+
  have "located_ok k' (cur k)"
    using i(2) assms(2) unfolding located_ok_def l by (simp add: same_but_stats_def same_sync_def)
  moreover have "base_ok k'"
    using i(1) assms(2,3) by (simp add: base_ok_def same_but_stats_def same_sync_def is_thread_def)
  ultimately show ?thesis using i assms(2) by (simp add: sched_inv_def same_but_stats_def same_sync_def)
qed

lemma foreach_thread_stats:
  assumes "\<And>t k k'. f t k = Some k' \<Longrightarrow> same_but_stats k k' \<and> ready_list k' = ready_list k"
  shows "foreach_thread f ts k = Some k' \<Longrightarrow> same_but_stats k k' \<and> ready_list k' = ready_list k"
proof (induction ts arbitrary: k)
  case Nil then show ?case by (simp add: same_but_stats_def)
next
  case (Cons t ts)
  then obtain k1 where "f t k = Some k1" "foreach_thread f ts k1 = Some k'" by (auto elim: bind_SomeE)
  then show ?case using Cons.IH assms same_but_stats_trans by fastforce
qed

lemma priority_step_stats:
  "priority_step t k = Some k' \<Longrightarrow> same_but_stats k k' \<and> ready_list k' = ready_list k"
  by (auto simp: priority_step_def same_but_stats_def same_sync_def monad_simps)

lemma recent_cpu_step_stats:
  "recent_cpu_step t k = Some k' \<Longrightarrow> same_but_stats k k' \<and> ready_list k' = ready_list k"
  by (auto simp: recent_cpu_step_def same_but_stats_def same_sync_def monad_simps)

lemma recent_cpu_step_prio: "recent_cpu_step t k = Some k' \<Longrightarrow> prio k' = prio k"
  by (auto simp: recent_cpu_step_def prio_def fun_eq_iff monad_simps)

lemma foreach_recent_cpu_prio: "foreach_thread recent_cpu_step ts k = Some k' \<Longrightarrow> prio k' = prio k"
proof (induction ts arbitrary: k)
  case (Cons t ts)
  then obtain k1 where "recent_cpu_step t k = Some k1" "foreach_thread recent_cpu_step ts k1 = Some k'"
    by (auto elim: bind_SomeE)
  then show ?case using Cons.IH recent_cpu_step_prio by fastforce
qed simp

lemma stats_same_prio_inv:
  assumes "sched_inv k" "same_but_stats k k'" "ready_list k' = ready_list k"
    "\<And>t. t \<in> set (ready_list k) \<Longrightarrow> prio k' t = prio k t"
  shows "sched_inv k'"
proof -
  have "map (\<lambda>t. - prio k' t) (ready_list k') = map (\<lambda>t. - prio k t) (ready_list k)"
    using assms(3,4) by simp
  moreover have "sorted (map (\<lambda>t. - prio k t) (ready_list k))"
    using assms(1) by (simp add: sched_inv_def base_ok_def)
  ultimately have "sorted (map (\<lambda>t. - prio k' t) (ready_list k'))" by (simp only:)
  then show ?thesis by (rule same_but_stats_inv [OF assms(1,2)])
qed

lemma calculate_recent_cpu_inv:
  assumes "sched_inv k" "calculate_recent_cpu k = Some k'" shows "sched_inv k' \<and> same_but_stats k k'"
proof -
  have f: "foreach_thread recent_cpu_step (all_list k) k = Some k'"
    using assms(2) by (simp add: calculate_recent_cpu_def)
  have "same_but_stats k k'" "ready_list k' = ready_list k"
    using foreach_thread_stats [OF recent_cpu_step_stats f] by simp_all
  then show ?thesis
    using stats_same_prio_inv [OF assms(1)] foreach_recent_cpu_prio [OF f] by simp
qed

lemma calculate_load_avg_inv:
  "sched_inv k \<Longrightarrow> calculate_load_avg k = Some k' \<Longrightarrow> sched_inv k' \<and> same_but_stats k k'"
  by (auto simp: calculate_load_avg_def Let_def monad_simps same_but_stats_def same_sync_def)

lemma thread_aging_inv:
  assumes "sched_inv k" "thread_aging k = Some k'" shows "sched_inv k' \<and> same_but_stats k k'"
proof
  obtain r where k': "k' = upd_thread (cur k) (recent_cpu_update (\<lambda>_. r)) k"
    using assms by (auto simp: thread_aging_def sched_inv_current monad_simps)
  then show s: "same_but_stats k k'" by (simp add: same_but_stats_def same_sync_def)
  show "sched_inv k'" by (rule stats_same_prio_inv [OF assms(1) s]) (simp_all add: k' prio_def)
qed

lemma intr_yield_on_return_inv:
  "sched_inv k \<Longrightarrow> intr_yield_on_return k = Some k' \<Longrightarrow> sched_inv k' \<and> same_but_stats k k'"
  by (auto simp: intr_yield_on_return_def monad_simps same_but_stats_def same_sync_def split: if_splits)

lemma calculate_priority_inv:
  assumes "sched_inv k" "calculate_priority k = Some k'" shows "sched_inv k' \<and> same_but_stats k k'"
proof -
  obtain k1 where k1: "foreach_thread priority_step (all_list k) k = Some k1"
    and k': "k' = k1\<lparr>ready_list := sort_key (\<lambda>t. - prio k1 t) (ready_list k1)\<rparr> \<or>
      k' = k1\<lparr>ready_list := sort_key (\<lambda>t. - prio k1 t) (ready_list k1), yield_on_return := True\<rparr>"
    using assms
    by (auto simp: calculate_priority_def sched_inv_current intr_yield_on_return_def Let_def
        monad_simps split: if_splits)
  have s1: "same_but_stats k k1" "ready_list k1 = ready_list k"
    using foreach_thread_stats [OF priority_step_stats k1] by simp_all
  have "same_but_stats k1 k'"
    using k' by (elim disjE) (simp_all add: same_but_stats_def same_sync_def)
  then have s: "same_but_stats k k'" by (rule same_but_stats_trans [OF s1(1)])
  have p: "prio k' = prio k1" using k' by (auto simp: prio_def fun_eq_iff)
  have "sched_inv k'"
    using k' by (intro same_but_stats_inv [OF assms(1) s]) (auto simp: p)
  then show ?thesis using s by blast
qed


text \<open>The periodic work of the feedback scheduler.\<close>

definition mlfqs_work :: "kernel \<Rightarrow> kernel option" where
  "mlfqs_work k = do {
     k \<leftarrow> thread_aging k;
     k \<leftarrow> (if sint (ticks k) mod TIMER_FREQ = 0
           then do { k \<leftarrow> calculate_load_avg k; calculate_recent_cpu k } else Some k);
     if sint (ticks k) mod 4 = 0 then calculate_priority k else Some k
   }"

lemma once_a_second_inv:
  assumes "sched_inv k1"
    and "(if b then do { k \<leftarrow> calculate_load_avg k1; calculate_recent_cpu k } else Some k1) = Some k2"
  shows "sched_inv k2 \<and> same_but_stats k1 k2"
proof (cases b)
  case True
  then obtain k3 where k3: "calculate_load_avg k1 = Some k3" "calculate_recent_cpu k3 = Some k2"
    using assms(2) by (auto elim: bind_SomeE)
  then show ?thesis
    using assms(1) calculate_load_avg_inv [OF _ k3(1)] calculate_recent_cpu_inv [OF _ k3(2)]
    by (blast intro: same_but_stats_trans)
qed (use assms in \<open>simp add: same_but_stats_def\<close>)

lemma mlfqs_work_inv:
  assumes "sched_inv k" "mlfqs_work k = Some k'" shows "sched_inv k' \<and> same_but_stats k k'"
proof -
  obtain k1 k2 where k1: "thread_aging k = Some k1"
    and k2: "(if sint (ticks k1) mod TIMER_FREQ = 0
           then do { k \<leftarrow> calculate_load_avg k1; calculate_recent_cpu k } else Some k1) = Some k2"
    and k': "(if sint (ticks k2) mod 4 = 0 then calculate_priority k2 else Some k2) = Some k'"
    using assms(2) unfolding mlfqs_work_def by (elim bind_SomeE) blast
  note s1 = thread_aging_inv [OF assms(1) k1]
  have "sched_inv k2 \<and> same_but_stats k k2"
    using once_a_second_inv [OF _ k2] s1 same_but_stats_trans by blast
  then show ?thesis
    using k' calculate_priority_inv [of k2 k'] same_but_stats_trans by (auto split: if_splits)
qed

lemma same_but_stats_off: "same_but_stats k k' \<Longrightarrow> intr_on k' = intr_on k"
  by (simp add: same_but_stats_def same_sync_def)

lemma mlfqs_work_eq:
  assumes "sched_inv k" "\<not> intr_on k"
  shows "do {
       k \<leftarrow> thread_aging k;
       (now, k) \<leftarrow> timer_ticks k;
       k \<leftarrow> (if sint now mod TIMER_FREQ = 0
             then do { k \<leftarrow> calculate_load_avg k; calculate_recent_cpu k } else Some k);
       (now, k) \<leftarrow> timer_ticks k;
       if sint now mod 4 = 0 then calculate_priority k else Some k
     } = mlfqs_work k"
proof (cases "thread_aging k")
  case (Some k1)
  then have i1: "sched_inv k1" "\<not> intr_on k1"
    using thread_aging_inv [OF assms(1)] assms(2) same_but_stats_off by blast+
  let ?m = "if sint (ticks k1) mod TIMER_FREQ = 0
            then do { k \<leftarrow> calculate_load_avg k1; calculate_recent_cpu k } else Some k1"
  show ?thesis
  proof (cases ?m)
    case (Some k2)
    have "\<not> intr_on k2" using once_a_second_inv [OF i1(1) Some] i1(2) same_but_stats_off by blast
    then show ?thesis using \<open>thread_aging k = Some k1\<close> Some i1 by (simp add: mlfqs_work_def)
  qed (use Some i1 in \<open>simp add: mlfqs_work_def\<close>)
qed (simp add: mlfqs_work_def)

text \<open>The bookkeeping at the start of \<^verbatim>\<open>thread_tick\<close>, before the sleepers are looked at.\<close>

definition tick_head :: "kernel \<Rightarrow> kernel option" where
  "tick_head k = do {
     let k = (if cur k = idle_thread k then k\<lparr>idle_ticks := idle_ticks k + 1\<rparr>
              else k\<lparr>kernel_ticks := kernel_ticks k + 1\<rparr>);
     let k = k\<lparr>thread_ticks := thread_ticks k + 1\<rparr>;
     if thread_ticks k \<ge> TIME_SLICE then intr_yield_on_return k else Some k
   }"

lemma tick_head_inv:
  assumes "sched_inv k" "tick_head k = Some k'"
  shows "sched_inv k'" "same_but_stats k k'" "ready_list k' = ready_list k" "thr k' = thr k"
  using assms
  by (auto simp: tick_head_def intr_yield_on_return_def Let_def monad_simps same_but_stats_def
      same_sync_def split: if_splits)

lemma tick_head_ok: "in_external_intr k \<Longrightarrow> \<exists>k'. tick_head k = Some k'"
  by (simp add: tick_head_def intr_yield_on_return_def intr_context_def Let_def)

lemma block_check_eq: "\<not> intr_on k \<Longrightarrow> block_check k = block_check_loop (blocked_list k) k"
  by (simp add: block_check_def intr_get_level_def)

lemma thread_tick_split:
  assumes inv: "sched_inv k" and off: "\<not> intr_on k"
  shows "thread_tick k = do {
     k \<leftarrow> tick_head k;
     k \<leftarrow> block_check k;
     if thread_prior_aging k \<or> thread_mlfqs k then mlfqs_work k else Some k }"
proof -
  have "thread_tick k = do {
     k \<leftarrow> tick_head k;
     k \<leftarrow> block_check k;
     if thread_prior_aging k \<or> thread_mlfqs k then do {
       k \<leftarrow> thread_aging k;
       (now, k) \<leftarrow> timer_ticks k;
       k \<leftarrow> (if sint now mod TIMER_FREQ = 0
             then do { k \<leftarrow> calculate_load_avg k; calculate_recent_cpu k } else Some k);
       (now, k) \<leftarrow> timer_ticks k;
       if sint now mod 4 = 0 then calculate_priority k else Some k
     } else Some k }"
    by (simp add: thread_tick_def tick_head_def sched_inv_current [OF inv] Let_def)
  also have "\<dots> = do {
     k \<leftarrow> tick_head k;
     k \<leftarrow> block_check k;
     if thread_prior_aging k \<or> thread_mlfqs k then mlfqs_work k else Some k }"
  proof (cases "tick_head k")
    case (Some k1)
    note h = tick_head_inv [OF inv Some]
    then have o1: "\<not> intr_on k1" using off same_but_stats_off by blast
    have d: "distinct (blocked_list k1)"
      using h(1) unfolding sched_inv_def located_ok_def by (metis located.simps(2))
    obtain k2 where "block_check k1 = Some k2" "sched_inv k2" "\<not> intr_on k2"
      using block_check_inv [OF h(1) o1 d] block_check_eq [OF o1] by auto
    then show ?thesis using Some mlfqs_work_eq by simp
  qed simp
  finally show ?thesis .
qed


lemma thread_tick_inv:
  assumes inv: "sched_inv k" "\<not> intr_on k" and k': "thread_tick k = Some k'"
  shows "sched_inv k' \<and> same_sync k k' \<and>
    set (blocked_list k') = {t \<in> set (blocked_list k). \<not> due k t} \<and>
    set (ready_list k') = set (ready_list k) \<union> {t \<in> set (blocked_list k). due k t}"
proof -
  obtain k1 k2 where k1: "tick_head k = Some k1" and k2: "block_check k1 = Some k2"
    and k3: "(if thread_prior_aging k2 \<or> thread_mlfqs k2 then mlfqs_work k2 else Some k2) = Some k'"
    using k' unfolding thread_tick_split [OF inv] by (elim bind_SomeE) blast
  note h = tick_head_inv [OF inv(1) k1]
  then have o1: "\<not> intr_on k1" "same_sync k k1" "blocked_list k1 = blocked_list k"
    using inv(2) same_but_stats_off [OF h(2)] by (auto simp: same_but_stats_def)
  have d: "distinct (blocked_list k1)"
    using h(1) unfolding sched_inv_def located_ok_def by (metis located.simps(2))
  have due: "due k1 = due k" using o1 h(4) by (auto simp: due_def fun_eq_iff same_sync_def)
  have i2: "sched_inv k2" "same_sync k1 k2"
      "set (blocked_list k2) = {t \<in> set (blocked_list k). \<not> due k t}"
      "set (ready_list k2) = set (ready_list k) \<union> {t \<in> set (blocked_list k). due k t}"
    using block_check_inv [OF h(1) o1(1) d] k2 o1 h(3) due
    by (auto simp: block_check_eq same_sync_def)
  have "sched_inv k' \<and> same_but_stats k2 k'"
    using k3 i2(1) mlfqs_work_inv [of k2 k'] by (auto simp: same_but_stats_def split: if_splits)
  moreover have "set (ready_list k') = set (ready_list k2)"
    using calculation mset_eq_setD unfolding same_but_stats_def by blast
  ultimately show ?thesis using i2 o1(2) same_sync_trans [OF o1(2) i2(2)] same_sync_trans
    unfolding same_but_stats_def by metis
qed


lemma sched_inv_push: "sched_inv k \<Longrightarrow> creates f = None \<Longrightarrow> sched_inv (push_frame f k)"
  by (rule sched_inv_cur_upd [of k]) (auto simp: located_push)

lemma intr_handler_inv:
  assumes inv: "sched_inv k" "\<not> intr_on k" "\<not> in_external_intr k"
    and handler: "\<And>k k'. sched_inv k \<Longrightarrow> \<not> intr_on k \<Longrightarrow> h k = Some k' \<Longrightarrow> sched_inv k' \<and> \<not> intr_on k'"
    and k': "intr_handler_external h k = Some k'"
  shows "sched_inv k' \<and> \<not> in_external_intr k'"
proof -
  let ?k0 = "k\<lparr>in_external_intr := True, yield_on_return := False\<rparr>"
  obtain k1 where k1: "h ?k0 = Some k1"
    and y: "(if yield_on_return (k1\<lparr>in_external_intr := False\<rparr>)
      then thread_yield (k1\<lparr>in_external_intr := False\<rparr>) else Some (k1\<lparr>in_external_intr := False\<rparr>)) = Some k'"
    using k' by (auto simp: intr_handler_external_def monad_simps Let_def split: if_splits)
  have i: "sched_inv (k1\<lparr>in_external_intr := False\<rparr>)" using handler [OF _ _ k1] inv by simp
  show ?thesis
  proof (cases "yield_on_return k1")
    case True
    then show ?thesis using y thread_yield_inv [OF i] thread_yield_keeps [OF i] by auto
  qed (use y i in auto)
qed

lemma timer_interrupt_inv:
  assumes "sched_inv k" "\<not> intr_on k" "timer_interrupt k = Some k'"
  shows "sched_inv k' \<and> \<not> intr_on k'"
  using thread_tick_inv [of "k\<lparr>ticks := ticks k + 1\<rparr>" k'] assms
  by (auto simp: timer_interrupt_def same_sync_def)

lemma timer_irq_inv:
  assumes inv: "sched_inv k" "\<not> in_external_intr k" and k': "timer_irq k = Some k'"
  shows "sched_inv k' \<and> \<not> in_external_intr k'"
proof -
  let ?k = "(push_frame FIret k)\<lparr>intr_on := False\<rparr>"
  have h: "intr_handler_external timer_interrupt ?k = Some k'"
    using k' by (auto simp: timer_irq_def monad_simps split: if_splits)
  have "sched_inv ?k" "\<not> intr_on ?k" "\<not> in_external_intr ?k"
    using sched_inv_push [OF inv(1)] inv(2) by simp_all
  from intr_handler_inv [OF this timer_interrupt_inv h] show ?thesis by simp
qed

lemma sched_inv_set_priority:
  "sched_inv k \<Longrightarrow> sched_inv (upd_thread (cur k) (priority_update f) k)"
  by (rule sched_inv_cur_upd [of k]) simp_all

lemma sched_inv_set_nice: "sched_inv k \<Longrightarrow> sched_inv (upd_thread (cur k) (nice_update f) k)"
  by (rule sched_inv_cur_upd [of k]) simp_all

lemma thread_set_priority_inv:
  assumes inv: "sched_inv k" "\<not> in_external_intr k"
  shows "\<exists>k'. thread_set_priority p k = Some k' \<and> sched_inv k'"
proof -
  let ?k = "upd_thread (cur k) (priority_update (\<lambda>_. p)) k"
  show ?thesis
    using thread_yield_ok [of ?k] sched_inv_set_priority [OF inv(1)] inv
    by (simp add: thread_set_priority_def sched_inv_current)
qed

lemma thread_set_nice_inv:
  assumes inv: "sched_inv k" "\<not> in_external_intr k"
  shows "\<exists>k'. thread_set_nice n k = Some k' \<and> sched_inv k'"
proof -
  obtain p where p: "new_priority (recent_cpu (thr k (cur k))) n = Some p"
    using new_priority_Some by blast
  let ?k1 = "upd_thread (cur k) (nice_update (\<lambda>_. n)) k"
  let ?k = "upd_thread (cur k) (priority_update (\<lambda>_. p)) ?k1"
  have "sched_inv ?k"
    using sched_inv_set_priority [OF sched_inv_set_nice [OF inv(1), of "\<lambda>_. n"], of "\<lambda>_. p"] by simp
  then show ?thesis
    using thread_yield_ok [of ?k] inv p
    by (simp add: thread_set_nice_def sched_inv_current Let_def)
qed

text \<open>Going to sleep.\<close>

lemma sleep_eq:
  assumes inv: "sched_inv k" "\<not> in_external_intr k" and c: "cur k \<noteq> idle_thread k"
  shows "\<exists>k2. thread_block_with_time tm k = schedule k2 \<and> switch_inv k2 \<and>
    ready_list k2 = ready_list k \<and> cur k2 = cur k \<and>
    set (blocked_list k2) = insert (cur k) (set (blocked_list k)) \<and> wakeup (thr k2 (cur k)) = tm \<and>
    semas k2 = semas k \<and> holder k2 = holder k \<and> conds k2 = conds k \<and> idle_thread k2 = idle_thread k \<and>
    all_list k2 = all_list k \<and> \<not> in_external_intr k2 \<and>
    frames k2 = (frames k)(cur k := FSetLevel (intr_on k) # frames k (cur k))"
proof -
  let ?w = "upd_thread (cur k) (wakeup_update (\<lambda>_. tm)) (k\<lparr>intr_on := False\<rparr>)"
  let ?k1 = "push_frame (FSetLevel (intr_on k))
     (?w\<lparr>blocked_list := insert_ordered (compare_block_elem ?w) (cur k) (blocked_list k)\<rparr>)"
  let ?k2 = "upd_thread (cur k) (status_update (\<lambda>_. THREAD_BLOCKED)) ?k1"
  have b: "distinct (blocked_list k)" "cur k \<notin> set (blocked_list k)"
    using inv(1) unfolding sched_inv_def located_ok_def by (metis located.simps(2))+
  have e: "switch_inv ?k2 \<and> thread_block ?k1 = schedule ?k2"
  proof (rule thread_block_enter [OF inv(1) c, where p = PSleep])
    fix q assume "q \<noteq> PSleep"
    then show "located ?k1 q = located k q" by (cases q) simp_all
  qed (use inv b c in \<open>simp_all add: sched_inv_def\<close>)
  moreover have "thread_block_with_time tm k = thread_block ?k1"
    using inv by (simp add: thread_block_with_time_def sched_inv_current intr_context_def
        intr_disable_def intr_get_level_def Let_def upd_thread_def)
  ultimately show ?thesis using inv by (intro exI [of _ ?k2]) simp
qed

lemma thread_block_with_time_inv:
  assumes inv: "sched_inv k" "\<not> in_external_intr k" and c: "cur k \<noteq> idle_thread k"
    and k': "thread_block_with_time tm k = Some k'"
  shows "sched_inv k' \<and> \<not> in_external_intr k'"
  using sleep_eq [OF inv c, of tm] k' schedule_inv schedule_keeps by fastforce

lemma timer_sleep_inv:
  assumes inv: "sched_inv k" "\<not> in_external_intr k" and c: "cur k \<noteq> idle_thread k"
    and k': "timer_sleep n k = Some k'"
  shows "sched_inv k' \<and> \<not> in_external_intr k'"
  using k' thread_block_with_time_inv [OF inv c] inv
  by (auto simp: timer_sleep_def timer_ticks_eq monad_simps split: if_splits)

text \<open>Exit: the thread leaves the list of all threads and its page is freed by its successor.\<close>

lemma thread_exit_inv:
  assumes inv: "sched_inv k" "\<not> in_external_intr k" and c: "cur k \<noteq> idle_thread k"
    and f: "made (frames k (cur k)) = []" and k': "thread_exit k = Some k'"
  shows "sched_inv k' \<and> \<not> in_external_intr k' \<and> cur k \<notin> set (all_list k')"
proof -
  let ?k2 = "(upd_thread (cur k) (status_update (\<lambda>_. THREAD_DYING))
    (k\<lparr>intr_on := False, all_list := remove1 (cur k) (all_list k)\<rparr>))\<lparr>frames := (frames k)(cur k := [])\<rparr>"
  have i: "base_ok k" "located_ok k (cur k)" "cur k \<in> set (all_list k)" "distinct (all_list k)"
    using inv(1) by (simp_all add: sched_inv_def base_ok_def)
  have s: "set (remove1 (cur k) (all_list k)) = set (all_list k) - {cur k}" using i(4) by simp
  have tc: "thread_current (k\<lparr>intr_on := False\<rparr>) = Some (cur k)"
    "thread_current (k\<lparr>intr_on := False, all_list := remove1 (cur k) (all_list k)\<rparr>) = Some (cur k)"
    using sched_inv_cur [OF inv(1)] inv(1)
    by (simp_all add: thread_current_def running_thread_def is_thread_def sched_inv_def)
  have eq: "thread_exit k = schedule ?k2"
    using inv(2) tc by (simp add: thread_exit_def intr_context_def intr_disable_def Let_def upd_thread_def)
  have loc: "located ?k2 p = located k p" for p using f by (cases p) simp_all
  have pr: "prio ?k2 = prio k" by (intro ext) (simp add: prio_def)
  have so: "sorted (map (\<lambda>t. - prio ?k2 t) (ready_list ?k2))"
    unfolding pr using i(1) by (simp add: base_ok_def)
  have l: "located_ok ?k2 NULL"
    using i(2) base_ok_NULL [OF i(1)] unfolding located_ok_def loc
    by (auto simp: s)
  have b: "base_ok ?k2"
    using i(1) so c by (auto simp: base_ok_def is_thread_def)
  have "switch_inv ?k2"
    using l b sched_inv_cur [OF inv(1)] i(4) by (simp add: switch_inv_def is_thread_def)
  then show ?thesis
    using eq k' schedule_inv [of ?k2 k'] schedule_keeps [of ?k2 k'] inv(2) i(4) by simp
qed


section \<open>Properties\<close>

lemma chosen_max:
  assumes "switch_inv k" "schedule k = Some k'"
  shows "\<forall>t\<in>set (ready_list k'). prio k' t \<le> prio k' (cur k')"
proof (cases "ready_list k")
  case Nil then show ?thesis using schedule_keeps [OF assms(2)] by simp
next
  case (Cons t ts)
  have k': "cur k' = t" "ready_list k' = ts"
    using schedule_keeps [OF assms(2)] Cons by (simp_all add: chosen_def)
  have l: "located_ok k NULL" and s: "sorted (map (\<lambda>t. - prio k t) (t # ts))"
    using assms(1) Cons by (simp_all add: switch_inv_def base_ok_def)
  have "set (t # ts) \<subseteq> set (all_list k)" using located_inD [OF l, of _ PReady] Cons by auto
  then have "\<forall>x\<in>set (t # ts). prio k' x = prio k x"
    using schedule_ok [OF assms(1) schedule_chosen [OF assms(2)]] assms(2) by auto
  then show ?thesis using s k' by simp
qed

text \<open>The timer handler returns.  With the feedback scheduler on, the load average has to be in
  the range in which its update does not overflow.\<close>

definition load_ok :: "kernel \<Rightarrow> bool" where
  "load_ok k \<longleftrightarrow> (thread_prior_aging k \<or> thread_mlfqs k \<longrightarrow>
     0 \<le> load_avg k \<and> load_avg k \<le> 2184 * 2 ^ 14 \<and> length (ready_list k) + length (blocked_list k) < 2184)"

lemma foreach_Some:
  assumes "\<And>t k. load_avg k = la \<Longrightarrow> \<exists>k'. f t k = Some k' \<and> load_avg k' = la"
  shows "load_avg k = la \<Longrightarrow> \<exists>k'. foreach_thread f ts k = Some k' \<and> load_avg k' = la"
proof (induction ts arbitrary: k)
  case (Cons t ts)
  then obtain k1 where "f t k = Some k1" "load_avg k1 = la" using assms by blast
  then show ?case using Cons.IH [of k1] by simp
qed simp

lemma priority_step_Some: "\<exists>k'. priority_step t k = Some k' \<and> load_avg k' = load_avg k"
  using new_priority_Some [of "recent_cpu (thr k t)" "nice (thr k t)"] by (auto simp: priority_step_def)

lemma recent_cpu_step_Some:
  assumes "0 \<le> load_avg k" "load_avg k \<le> 2184 * 2 ^ 14"
  shows "\<exists>k'. recent_cpu_step t k = Some k' \<and> load_avg k' = load_avg k"
  using new_recent_cpu_Some [OF assms, of "recent_cpu (thr k t)" "nice (thr k t)"]
  by (auto simp: recent_cpu_step_def)

lemma calculate_priority_Some:
  assumes "sched_inv k" "in_external_intr k" shows "\<exists>k'. calculate_priority k = Some k'"
proof -
  obtain k1 where k1: "foreach_thread priority_step (all_list k) k = Some k1"
    using foreach_Some [of "load_avg k" priority_step k "all_list k"] priority_step_Some by metis
  then have s: "same_but_stats k k1" using foreach_thread_stats [OF priority_step_stats k1] by simp
  then have "thread_current (k1\<lparr>ready_list := l\<rparr>) = Some (cur k)" for l
    using sched_inv_current [OF assms(1)]
    by (auto simp: thread_current_def running_thread_def is_thread_def same_but_stats_def
        same_sync_def monad_simps split: if_splits)
  then show ?thesis using k1 s assms
    by (simp add: calculate_priority_def sched_inv_current intr_yield_on_return_def intr_context_def
        Let_def same_but_stats_def same_sync_def)
qed

lemma calculate_recent_cpu_Some:
  assumes "0 \<le> load_avg k" "load_avg k \<le> 2184 * 2 ^ 14"
  shows "\<exists>k'. calculate_recent_cpu k = Some k'"
  unfolding calculate_recent_cpu_def
  using foreach_Some [of "load_avg k" recent_cpu_step k "all_list k"] recent_cpu_step_Some assms by metis

lemma once_a_second_Some:
  assumes "sched_inv k" "0 \<le> load_avg k" "load_avg k \<le> 2184 * 2 ^ 14" "length (ready_list k) < 2184"
  shows "\<exists>k'. (if b then do { k \<leftarrow> calculate_load_avg k; calculate_recent_cpu k } else Some k) = Some k'"
proof -
  define r where "r = (if cur k \<noteq> idle_thread k then int (length (ready_list k)) + 1 else int (length (ready_list k)))"
  have r: "0 \<le> r" "r \<le> 2184" using assms(4) by (auto simp: r_def)
  let ?la = "(59 * load_avg k + r * 2 ^ 14) div 60"
  have la: "new_load_avg (load_avg k) r = Some ?la" "0 \<le> ?la" "?la \<le> 2184 * 2 ^ 14"
    using new_load_avg_value [OF assms(2,3) r] by simp_all
  then have "calculate_load_avg k = Some (k\<lparr>load_avg := ?la\<rparr>)"
    using sched_inv_current [OF assms(1)] by (simp add: calculate_load_avg_def Let_def r_def)
  then show ?thesis using calculate_recent_cpu_Some [of "k\<lparr>load_avg := ?la\<rparr>"] la(2,3) by simp
qed

lemma mlfqs_work_Some:
  assumes inv: "sched_inv k" "in_external_intr k" and la: "0 \<le> load_avg k" "load_avg k \<le> 2184 * 2 ^ 14"
    and r: "length (ready_list k) < 2184"
  shows "\<exists>k'. mlfqs_work k = Some k'"
proof -
  obtain k1 where k1: "thread_aging k = Some k1" "load_avg k1 = load_avg k" "ready_list k1 = ready_list k"
    using sched_inv_current [OF inv(1)] by (simp add: thread_aging_def)
  note s1 = thread_aging_inv [OF inv(1) k1(1)]
  obtain k2 where k2: "(if sint (ticks k1) mod TIMER_FREQ = 0
      then do { k \<leftarrow> calculate_load_avg k1; calculate_recent_cpu k } else Some k1) = Some k2"
    using once_a_second_Some [of k1] s1 k1 la r by metis
  then have "sched_inv k2" "in_external_intr k2"
    using once_a_second_inv [OF _ k2] s1 inv(2) by (auto simp: same_but_stats_def same_sync_def)
  then show ?thesis using k1(1) k2 calculate_priority_Some [of k2] by (simp add: mlfqs_work_def)
qed

lemma thread_tick_Some:
  assumes inv: "sched_inv k" "\<not> intr_on k" "in_external_intr k" and la: "load_ok k"
  shows "\<exists>k'. thread_tick k = Some k'"
proof -
  obtain k1 where k1: "tick_head k = Some k1" using tick_head_ok [OF inv(3)] by blast
  note h = tick_head_inv [OF inv(1) k1]
  then have o1: "\<not> intr_on k1" using inv(2) same_but_stats_off by blast
  have d: "distinct (blocked_list k1)"
    using h(1) unfolding sched_inv_def located_ok_def by (metis located.simps(2))
  obtain k2 where k2: "block_check k1 = Some k2" "sched_inv k2" "load_avg k2 = load_avg k1"
      "in_external_intr k2 = in_external_intr k1"
      "set (ready_list k2) = set (ready_list k1) \<union> {t \<in> set (blocked_list k1). due k1 t}"
      "thread_prior_aging k2 = thread_prior_aging k1 \<and> thread_mlfqs k2 = thread_mlfqs k1"
    using block_check_inv [OF h(1) o1 d] block_check_eq [OF o1] by auto
  have e: "in_external_intr k1" "load_avg k1 = load_avg k" "blocked_list k1 = blocked_list k"
    using h(2) k1 inv(3)
    by (auto simp: same_but_stats_def same_sync_def tick_head_def intr_yield_on_return_def Let_def
        monad_simps split: if_splits)
  have "distinct (ready_list k2)"
    using k2(2) unfolding sched_inv_def located_ok_def by (metis located.simps(1))
  then have "length (ready_list k2) = card (set (ready_list k2))" by (simp add: distinct_card)
  also have "\<dots> \<le> card (set (ready_list k) \<union> set (blocked_list k))"
    unfolding k2(5) h(3) e(3) by (rule card_mono) auto
  also have "\<dots> \<le> length (ready_list k) + length (blocked_list k)"
    by (rule order_trans [OF card_Un_le]) (simp add: add_mono card_length)
  finally have len: "length (ready_list k2) \<le> length (ready_list k) + length (blocked_list k)" .
  have flags: "thread_prior_aging k2 = thread_prior_aging k \<and> thread_mlfqs k2 = thread_mlfqs k"
    using k2(6) h(2) by (simp add: same_but_stats_def same_sync_def)
  have "\<exists>k'. mlfqs_work k2 = Some k'" if "thread_prior_aging k2 \<or> thread_mlfqs k2"
    using that flags la len e k2 by (intro mlfqs_work_Some) (auto simp: load_ok_def)
  then show ?thesis using k1 k2(1) by (auto simp: thread_tick_split [OF inv(1,2)])
qed

text \<open>A kernel with the main thread running, a second thread ready, one asleep until tick 5 and the
  idle thread blocked.\<close>

definition demo_thread :: "thread_status \<Rightarrow> int \<Rightarrow> thread" where
  "demo_thread st p = \<lparr>tid = 1, status = st, tname = ''demo'', stack = 0, priority = p,
     exit_number = 0, child_list = [], parent_list = [], create_success = True, file_tail_prev = 0,
     wakeup = 5, nice = 0, recent_cpu = 0, magic = THREAD_MAGIC\<rparr>"

definition demo_kernel :: kernel where
  "demo_kernel = \<lparr>thr = (\<lambda>t. if t = 0x1000 then demo_thread THREAD_RUNNING 31
        else if t = 0x3000 then demo_thread THREAD_READY 31
        else demo_thread THREAD_BLOCKED 20),
     cur = 0x1000, ready_list = [0x3000], blocked_list = [0x4000],
     all_list = [0x1000, 0x2000, 0x3000, 0x4000], idle_thread = 0x2000, initial_thread = 0x1000,
     load_avg = 0, next_tid = 5, ticks = 4, idle_ticks = 0, kernel_ticks = 4, thread_ticks = 1,
     thread_prior_aging = False, thread_mlfqs = True, intr_on = False, in_external_intr = False,
     yield_on_return = False, semas = (\<lambda>_. \<lparr>sval = 0, waiters = []\<rparr>), holder = (\<lambda>_. 0),
     conds = (\<lambda>_. []), frames = (\<lambda>t. if t = 0x2000 then [FIdleHlt] else []), retval = (\<lambda>_. 0)\<rparr>"

lemma demo_kernel_inv: "sched_inv demo_kernel"
proof -
  have l: "located demo_kernel p = (if p = PReady then [0x3000] else if p = PSleep then [0x4000] else [])" for p
    by (cases p) (simp_all add: demo_kernel_def)
  have "located_ok demo_kernel 0x1000"
    unfolding located_ok_def l
    by (auto simp: demo_kernel_def demo_thread_def split: if_splits)
  moreover have "base_ok demo_kernel"
    by (simp add: base_ok_def is_thread_def demo_kernel_def demo_thread_def)
  ultimately show ?thesis by (simp add: sched_inv_def demo_kernel_def demo_thread_def)
qed

text \<open>
  C2 (\<^verbatim>\<open>thread_yield\<close>, \<^verbatim>\<open>schedule\<close>).  In every state that satisfies the scheduler invariant
  and is not inside an external interrupt handler (there the assertion of \<^verbatim>\<open>thread_yield\<close> panics) a yield does not panic, keeps the invariant, and the thread that runs next has at least the priority
  of every thread left in the run queue.
\<close>

theorem thread_yield_highest:
  assumes "sched_inv k" and "\<not> in_external_intr k"
  shows "\<exists>k'. thread_yield k = Some k' \<and> sched_inv k' \<and>
    (\<forall>t\<in>set (ready_list k'). prio k' t \<le> prio k' (cur k'))"
proof -
  obtain k' where "thread_yield k = Some k'" "sched_inv k'" using thread_yield_ok [OF assms] by blast
  moreover have "\<forall>t\<in>set (ready_list k'). prio k' t \<le> prio k' (cur k')"
    using chosen_max [OF yielding_switch [OF assms(1)]] thread_yield_eq [OF assms] calculation(1) by simp
  ultimately show ?thesis by blast
qed

theorem thread_yield_highest_witness:
  "\<exists>k'. thread_yield demo_kernel = Some k' \<and> sched_inv k' \<and>
    (\<forall>t\<in>set (ready_list k'). prio k' t \<le> prio k' (cur k'))"
  by (rule thread_yield_highest [OF demo_kernel_inv]) (simp add: demo_kernel_def)

text \<open>
  C4 (\<^verbatim>\<open>timer_interrupt\<close>, \<^verbatim>\<open>block_check\<close>).  The timer handler returns, and the threads
  whose wake-up time has been reached, and only those, have moved from the list of sleepers to the
  run queue; the scheduler invariant, which includes the order of the run queue, still holds.
\<close>

theorem timer_interrupt_wakes:
  assumes "sched_inv k" and "\<not> intr_on k" and "in_external_intr k" and "load_ok k"
  shows "\<exists>k'. timer_interrupt k = Some k' \<and> sched_inv k' \<and> ticks k' = ticks k + 1 \<and>
    set (blocked_list k') = {t \<in> set (blocked_list k). \<not> wakeup (thr k t) \<le> ticks k + 1} \<and>
    set (ready_list k') = set (ready_list k) \<union> {t \<in> set (blocked_list k). wakeup (thr k t) \<le> ticks k + 1}"
proof -
  let ?k = "k\<lparr>ticks := ticks k + 1\<rparr>"
  obtain k' where "thread_tick ?k = Some k'"
    using thread_tick_Some [of ?k] assms by (auto simp: load_ok_def)
  then show ?thesis using thread_tick_inv [of ?k k'] assms
    by (simp add: timer_interrupt_def due_def same_sync_def)
qed

definition demo_irq :: kernel where
  "demo_irq = demo_kernel\<lparr>in_external_intr := True\<rparr>"

lemma demo_irq_inv: "sched_inv demo_irq"
  using demo_kernel_inv by (simp add: demo_irq_def)

theorem timer_interrupt_wakes_witness:
  "\<exists>k'. timer_interrupt demo_irq = Some k' \<and> sched_inv k' \<and> ticks k' = ticks demo_irq + 1 \<and>
    set (blocked_list k') =
      {t \<in> set (blocked_list demo_irq). \<not> wakeup (thr demo_irq t) \<le> ticks demo_irq + 1} \<and>
    set (ready_list k') = set (ready_list demo_irq) \<union>
      {t \<in> set (blocked_list demo_irq). wakeup (thr demo_irq t) \<le> ticks demo_irq + 1}"
  by (rule timer_interrupt_wakes [OF demo_irq_inv]) (simp_all add: demo_irq_def demo_kernel_def load_ok_def)

text \<open>
  (\<^verbatim>\<open>timer_sleep\<close>, \<^verbatim>\<open>thread_block_with_time\<close>).  A thread other than the idle thread
  that sleeps for a number of ticks that is not negative gives up the processor, is entered among the
  sleepers with the tick number at which it is due, and the invariant is kept.
\<close>

theorem timer_sleep_enters:
  assumes "sched_inv k" and "\<not> in_external_intr k" and "intr_on k" and "cur k \<noteq> idle_thread k"
    and "idle_thread k \<noteq> NULL" and "0 \<le> sint n"
  shows "\<exists>k'. timer_sleep n k = Some k' \<and> sched_inv k' \<and> cur k' \<noteq> cur k \<and>
    cur k \<in> set (blocked_list k') \<and> wakeup (thr k' (cur k)) = ticks k + n"
proof -
  obtain k2 where k2: "thread_block_with_time (ticks k + n) k = schedule k2" "switch_inv k2"
    "ready_list k2 = ready_list k" "idle_thread k2 = idle_thread k" "all_list k2 = all_list k"
    "set (blocked_list k2) = insert (cur k) (set (blocked_list k))" "wakeup (thr k2 (cur k)) = ticks k + n"
    using sleep_eq [OF assms(1,2,4), of "ticks k + n"] by blast
  then obtain k' where k': "schedule k2 = Some k'" "sched_inv k'" "wakeup (thr k' (cur k)) = ticks k + n"
    using schedule_ok [OF k2(2)] chosen_nonnull [OF k2(2)] assms(1,5) by (auto simp: sched_inv_def)
  have b: "cur k \<in> set (blocked_list k')" using schedule_keeps [OF k'(1)] k2(6) by simp
  then have "cur k' \<noteq> cur k" using located_inD [of k' "cur k'" "cur k" PSleep] k'(2)
    by (auto simp: sched_inv_def)
  moreover have "timer_sleep n k = Some k'"
    using k2(1) k'(1) assms by (simp add: timer_sleep_def timer_ticks_eq intr_get_level_def)
  ultimately show ?thesis using k' b by blast
qed

theorem timer_sleep_enters_witness:
  "\<exists>k'. timer_sleep 7 (demo_kernel\<lparr>intr_on := True\<rparr>) = Some k' \<and> sched_inv k' \<and>
    cur k' \<noteq> cur (demo_kernel\<lparr>intr_on := True\<rparr>) \<and>
    cur (demo_kernel\<lparr>intr_on := True\<rparr>) \<in> set (blocked_list k') \<and>
    wakeup (thr k' (cur (demo_kernel\<lparr>intr_on := True\<rparr>))) = ticks (demo_kernel\<lparr>intr_on := True\<rparr>) + 7"
  by (rule timer_sleep_enters) (simp_all add: demo_kernel_inv, simp_all add: demo_kernel_def)

end
