(* ===== verification/Synch.thy ===== *)
theory Synch
  imports Thread
begin

text \<open>
  Semaphores, locks and condition variables: \<^verbatim>\<open>src/threads/synch.c\<close>, without
  \<^verbatim>\<open>USERPROG\<close>, so that \<^verbatim>\<open>sema_up\<close> yields.

  Semaphores, lock holders and condition variables are found by address in the kernel record.  The
  semaphore of a lock lies four bytes into the lock, that of a \<^verbatim>\<open>struct semaphore_elem\<close> eight
  bytes into it.  An operation that calls another one in the middle pushes a frame for the rest.
\<close>

section \<open>Operations\<close>

definition lock_sema :: "addr \<Rightarrow> addr" where "lock_sema l = l + 4"
definition elem_sema :: "addr \<Rightarrow> addr" where "elem_sema w = w + 8"

definition upd_sema :: "addr \<Rightarrow> (semaphore \<Rightarrow> semaphore) \<Rightarrow> kernel \<Rightarrow> kernel" where
  "upd_sema s f k = k\<lparr>semas := (semas k)(s := f (semas k s))\<rparr>"

definition sema_init :: "addr \<Rightarrow> u32 \<Rightarrow> kernel \<Rightarrow> kernel option" where
  "sema_init s v k = do {
     ASSERT (s \<noteq> NULL);
     Some (upd_sema s (\<lambda>_. \<lparr>sval = v, waiters = []\<rparr>) k)
   }"

text \<open>The \<^verbatim>\<open>while\<close> loop of \<^verbatim>\<open>sema_down\<close> and what follows it.  A thread that is woken up
  comes back to the test of the loop.\<close>

definition sema_down_loop :: "addr \<Rightarrow> bool \<Rightarrow> kernel \<Rightarrow> kernel option" where
  "sema_down_loop s old_level k =
     (if sval (semas k s) = 0 then do {
        c \<leftarrow> thread_current k;
        let k = upd_sema s (waiters_update (insert_ordered (list_compare_priority k) c)) k;
        thread_block (push_frame (FSemaLoop s old_level) k)
      } else do {
        let k = upd_sema s (sval_update (\<lambda>v. v - 1)) k;
        (_, k) \<leftarrow> intr_set_level old_level k;
        Some k
      })"

definition sema_down :: "addr \<Rightarrow> kernel \<Rightarrow> kernel option" where
  "sema_down s k = do {
     ASSERT (s \<noteq> NULL);
     ASSERT (\<not> intr_context k);
     let (old_level, k) = intr_disable k;
     sema_down_loop s old_level k
   }"

definition sema_try_down :: "addr \<Rightarrow> kernel \<Rightarrow> (bool \<times> kernel) option" where
  "sema_try_down s k = do {
     ASSERT (s \<noteq> NULL);
     let (old_level, k) = intr_disable k;
     let (success, k) = (if sval (semas k s) > 0 then (True, upd_sema s (sval_update (\<lambda>v. v - 1)) k)
                         else (False, k));
     (_, k) \<leftarrow> intr_set_level old_level k;
     Some (success, k)
   }"

definition sema_up :: "addr \<Rightarrow> kernel \<Rightarrow> kernel option" where
  "sema_up s k = do {
     ASSERT (s \<noteq> NULL);
     let (old_level, k) = intr_disable k;
     k \<leftarrow> (case waiters (semas k s) of
             [] \<Rightarrow> Some k
           | t # ts \<Rightarrow> thread_unblock t (upd_sema s (waiters_update (\<lambda>_. ts)) k));
     let k = upd_sema s (sval_update (\<lambda>v. v + 1)) k;
     (_, k) \<leftarrow> intr_set_level old_level k;
     thread_yield k
   }"

definition lock_init :: "addr \<Rightarrow> kernel \<Rightarrow> kernel option" where
  "lock_init l k = do {
     ASSERT (l \<noteq> NULL);
     sema_init (lock_sema l) 1 (k\<lparr>holder := (holder k)(l := NULL)\<rparr>)
   }"

definition lock_held_by_current_thread :: "addr \<Rightarrow> kernel \<Rightarrow> bool option" where
  "lock_held_by_current_thread l k = do {
     ASSERT (l \<noteq> NULL);
     c \<leftarrow> thread_current k;
     Some (holder k l = c)
   }"

definition set_holder :: "addr \<Rightarrow> kernel \<Rightarrow> kernel option" where
  "set_holder l k = do {
     c \<leftarrow> thread_current k;
     Some (k\<lparr>holder := (holder k)(l := c)\<rparr>)
   }"

definition lock_acquire :: "addr \<Rightarrow> kernel \<Rightarrow> kernel option" where
  "lock_acquire l k = do {
     ASSERT (l \<noteq> NULL);
     ASSERT (\<not> intr_context k);
     held \<leftarrow> lock_held_by_current_thread l k;
     ASSERT (\<not> held);
     sema_down (lock_sema l) (push_frame (FSetHolder l) k)
   }"

definition lock_try_acquire :: "addr \<Rightarrow> kernel \<Rightarrow> (bool \<times> kernel) option" where
  "lock_try_acquire l k = do {
     ASSERT (l \<noteq> NULL);
     held \<leftarrow> lock_held_by_current_thread l k;
     ASSERT (\<not> held);
     (success, k) \<leftarrow> sema_try_down (lock_sema l) k;
     if success then do { k \<leftarrow> set_holder l k; Some (True, k) } else Some (False, k)
   }"

definition lock_release :: "addr \<Rightarrow> kernel \<Rightarrow> kernel option" where
  "lock_release l k = do {
     ASSERT (l \<noteq> NULL);
     held \<leftarrow> lock_held_by_current_thread l k;
     ASSERT held;
     Some (push_frame (FSemaUp (lock_sema l)) (k\<lparr>holder := (holder k)(l := NULL)\<rparr>))
   }"

definition cond_init :: "addr \<Rightarrow> kernel \<Rightarrow> kernel option" where
  "cond_init c k = do {
     ASSERT (c \<noteq> NULL);
     Some (k\<lparr>conds := (conds k)(c := [])\<rparr>)
   }"

text \<open>\<open>w\<close> is the address of the local variable \<^verbatim>\<open>waiter\<close> in the stack of the caller.\<close>

definition cond_wait :: "addr \<Rightarrow> addr \<Rightarrow> addr \<Rightarrow> kernel \<Rightarrow> kernel option" where
  "cond_wait c l w k = do {
     ASSERT (c \<noteq> NULL);
     ASSERT (l \<noteq> NULL);
     ASSERT (\<not> intr_context k);
     held \<leftarrow> lock_held_by_current_thread l k;
     ASSERT held;
     k \<leftarrow> sema_init (elem_sema w) 0 k;
     let k = k\<lparr>conds := (conds k)(c := conds k c @ [w])\<rparr>;
     lock_release l (push_frame (FSemaDown (elem_sema w)) (push_frame (FLockAcquire l) k))
   }"

definition cond_signal :: "addr \<Rightarrow> addr \<Rightarrow> kernel \<Rightarrow> kernel option" where
  "cond_signal c l k = do {
     ASSERT (c \<noteq> NULL);
     ASSERT (l \<noteq> NULL);
     ASSERT (\<not> intr_context k);
     held \<leftarrow> lock_held_by_current_thread l k;
     ASSERT held;
     (case conds k c of
        [] \<Rightarrow> Some k
      | w # ws \<Rightarrow> sema_up (elem_sema w) (k\<lparr>conds := (conds k)(c := ws)\<rparr>))
   }"

definition cond_broadcast_loop :: "addr \<Rightarrow> addr \<Rightarrow> kernel \<Rightarrow> kernel option" where
  "cond_broadcast_loop c l k =
     (if conds k c = [] then Some k else cond_signal c l (push_frame (FCondBroadcast c l) k))"

definition cond_broadcast :: "addr \<Rightarrow> addr \<Rightarrow> kernel \<Rightarrow> kernel option" where
  "cond_broadcast c l k = do {
     ASSERT (c \<noteq> NULL);
     ASSERT (l \<noteq> NULL);
     cond_broadcast_loop c l k
   }"


section \<open>Preservation of the scheduler invariant\<close>

definition kinv :: "kernel \<Rightarrow> bool" where
  "kinv k \<longleftrightarrow> sched_inv k \<and> \<not> in_external_intr k"

lemma upd_sema_sel [simp]:
  "cur (upd_sema s f k) = cur k" "ready_list (upd_sema s f k) = ready_list k"
  "blocked_list (upd_sema s f k) = blocked_list k" "all_list (upd_sema s f k) = all_list k"
  "idle_thread (upd_sema s f k) = idle_thread k" "intr_on (upd_sema s f k) = intr_on k"
  "in_external_intr (upd_sema s f k) = in_external_intr k" "holder (upd_sema s f k) = holder k"
  "conds (upd_sema s f k) = conds k" "frames (upd_sema s f k) = frames k" "thr (upd_sema s f k) = thr k"
  "semas (upd_sema s f k) = (semas k)(s := f (semas k s))" "next_tid (upd_sema s f k) = next_tid k"
  "ticks (upd_sema s f k) = ticks k"
  by (simp_all add: upd_sema_def)

lemma sval_waiters_update: "sval_update f (x\<lparr>waiters := w\<rparr>) = \<lparr>sval = f (sval x), waiters = w\<rparr>"
  by (cases x) simp

lemma located_upd_sema:
  "located (upd_sema s f k) p = (if p = PWait s then waiters (f (semas k s)) else located k p)"
  by (cases p) simp_all

lemma located_same_waiters:
  "waiters (f (semas k s)) = waiters (semas k s) \<Longrightarrow> located (upd_sema s f k) p = located k p"
  by (cases p) simp_all

lemma sched_inv_upd_sema:
  "sched_inv k \<Longrightarrow> waiters (f (semas k s)) = waiters (semas k s) \<Longrightarrow> sched_inv (upd_sema s f k)"
  by (rule sched_inv_cur_upd [of k]) (simp_all add: located_same_waiters)

lemma kinv_level: "kinv k \<Longrightarrow> intr_set_level l k = Some (intr_on k, k\<lparr>intr_on := l\<rparr>)"
  by (simp add: kinv_def intr_set_level_def intr_enable_def intr_disable_def intr_context_def
      intr_get_level_def)

lemma kinv_simps [simp]:
  "kinv (k\<lparr>intr_on := b\<rparr>) = kinv k" "kinv (k\<lparr>holder := g\<rparr>) = kinv k" "kinv (k\<lparr>conds := c\<rparr>) = kinv k"
  "kinv (k\<lparr>retval := r\<rparr>) = kinv k" "kinv (k\<lparr>next_tid := i\<rparr>) = kinv k"
  by (simp_all add: kinv_def)

lemma kinv_push: "kinv k \<Longrightarrow> creates f = None \<Longrightarrow> kinv (push_frame f k)"
  by (simp add: kinv_def sched_inv_push)

lemma kinv_upd_sema:
  "kinv k \<Longrightarrow> waiters (f (semas k s)) = waiters (semas k s) \<Longrightarrow> kinv (upd_sema s f k)"
  by (simp add: kinv_def sched_inv_upd_sema)

lemma kinv_current: "kinv k \<Longrightarrow> thread_current k = Some (cur k)"
  by (simp add: kinv_def sched_inv_current)

lemma kinv_waiters:
  assumes "kinv k" shows "distinct (waiters (semas k s))" "cur k \<notin> set (waiters (semas k s))"
  using assms unfolding kinv_def sched_inv_def located_ok_def by (metis located.simps(3))+

text \<open>Taking the semaphore, and waiting for it.\<close>

lemma sema_down_loop_take:
  assumes "kinv k" "sval (semas k s) \<noteq> 0"
  shows "sema_down_loop s l k = Some ((upd_sema s (sval_update (\<lambda>v. v - 1)) k)\<lparr>intr_on := l\<rparr>)"
  using assms kinv_level [of "upd_sema s (sval_update (\<lambda>v. v - 1)) k" l]
  by (simp add: sema_down_loop_def kinv_upd_sema Let_def)

lemma sema_down_loop_wait:
  assumes inv: "kinv k" and off: "\<not> intr_on k" and c: "cur k \<noteq> idle_thread k"
    and z: "sval (semas k s) = 0"
  shows "\<exists>k2. sema_down_loop s l k = schedule k2 \<and> switch_inv k2 \<and> cur k2 = cur k \<and>
    semas k2 = (semas k)(s := waiters_update (insert_ordered (list_compare_priority k) (cur k)) (semas k s)) \<and>
    frames k2 = (frames k)(cur k := FSemaLoop s l # frames k (cur k)) \<and> ready_list k2 = ready_list k \<and>
    holder k2 = holder k \<and> conds k2 = conds k \<and> idle_thread k2 = idle_thread k \<and>
    all_list k2 = all_list k \<and> \<not> in_external_intr k2 \<and> (\<forall>t. prio k2 t = prio k t)"
proof -
  let ?k1 = "push_frame (FSemaLoop s l)
    (upd_sema s (waiters_update (insert_ordered (list_compare_priority k) (cur k))) k)"
  let ?k2 = "upd_thread (cur k) (status_update (\<lambda>_. THREAD_BLOCKED)) ?k1"
  have i: "sched_inv k" "\<not> in_external_intr k" using inv by (simp_all add: kinv_def)
  have e: "switch_inv ?k2 \<and> thread_block ?k1 = schedule ?k2"
  proof (rule thread_block_enter [OF i(1) c, where p = "PWait s"])
    fix q assume "q \<noteq> PWait s"
    then show "located ?k1 q = located k q" by (cases q) simp_all
  qed (use i off c kinv_waiters [OF inv] in \<open>simp_all add: sched_inv_def\<close>)
  moreover have "sema_down_loop s l k = thread_block ?k1"
    using z kinv_current [OF inv] by (simp add: sema_down_loop_def Let_def)
  moreover have "prio ?k2 t = prio k t" for t by (simp add: prio_def)
  ultimately show ?thesis using i by (intro exI [of _ ?k2]) simp
qed

lemma sema_down_loop_inv:
  assumes inv: "kinv k" and c: "cur k \<noteq> idle_thread k" and k': "sema_down_loop s l k = Some k'"
  shows "kinv k'"
proof (cases "sval (semas k s) = 0")
  case True
  then have off: "\<not> intr_on k"
    using k' by (auto simp: sema_down_loop_def thread_block_def intr_get_level_def Let_def monad_simps split: if_splits)
  show ?thesis
    using sema_down_loop_wait [OF inv off c True, of l] k' schedule_inv schedule_keeps
    by (fastforce simp: kinv_def)
next
  case False
  then show ?thesis using sema_down_loop_take [OF inv False] k' kinv_upd_sema [OF inv] by auto
qed

lemma sema_down_inv:
  assumes inv: "kinv k" and c: "cur k \<noteq> idle_thread k" and k': "sema_down s k = Some k'"
  shows "kinv k'"
proof -
  have "sema_down_loop s (intr_on k) (k\<lparr>intr_on := False\<rparr>) = Some k'"
    using k' by (auto simp: sema_down_def intr_disable_def intr_get_level_def Let_def monad_simps
        split: if_splits)
  then show ?thesis using sema_down_loop_inv [of "k\<lparr>intr_on := False\<rparr>"] inv c by simp
qed

text \<open>The state in which \<^verbatim>\<open>sema_up\<close> yields.\<close>

lemma sema_up_eq:
  assumes inv: "kinv k" and s: "s \<noteq> NULL"
  shows "\<exists>k1. sema_up s k = thread_yield k1 \<and> kinv k1 \<and> cur k1 = cur k \<and>
    semas k1 = (semas k)(s := \<lparr>sval = sval (semas k s) + 1, waiters = tl (waiters (semas k s))\<rparr>) \<and>
    frames k1 = frames k \<and> holder k1 = holder k \<and> conds k1 = conds k \<and>
    idle_thread k1 = idle_thread k \<and> all_list k1 = all_list k \<and> intr_on k1 = intr_on k \<and>
    (case waiters (semas k s) of [] \<Rightarrow> ready_list k1 = ready_list k
     | t # _ \<Rightarrow> ready_list k1 = insert_ordered (list_compare_priority k) t (ready_list k))"
proof -
  let ?k0 = "k\<lparr>intr_on := False\<rparr>"
  obtain ka where ka: "(case waiters (semas ?k0 s) of
             [] \<Rightarrow> Some ?k0
           | t # ts \<Rightarrow> thread_unblock t (upd_sema s (waiters_update (\<lambda>_. ts)) ?k0)) = Some ka"
    and ia: "sched_inv ka" "\<not> in_external_intr ka" "cur ka = cur k" "frames ka = frames k"
      "holder ka = holder k" "conds ka = conds k" "idle_thread ka = idle_thread k" "all_list ka = all_list k"
      "semas ka = (semas k)(s := (semas k s)\<lparr>waiters := tl (waiters (semas k s))\<rparr>)"
      "case waiters (semas k s) of [] \<Rightarrow> ready_list ka = ready_list k
       | t # _ \<Rightarrow> ready_list ka = insert_ordered (list_compare_priority k) t (ready_list k)"
  proof (cases "waiters (semas k s)")
    case Nil
    then have "(semas k)(s := (semas k s)\<lparr>waiters := tl (waiters (semas k s))\<rparr>) = semas k"
      by (intro ext) simp
    then show ?thesis using that [of ?k0] inv Nil by (simp add: kinv_def)
  next
    case (Cons t ts)
    let ?k1 = "upd_sema s (waiters_update (\<lambda>_. ts)) ?k0"
    have d: "distinct (t # ts)" using kinv_waiters(1) [OF inv, of s] Cons by simp
    have "\<exists>k'. thread_unblock t ?k1 = Some k' \<and> sched_inv k' \<and>
        k' = upd_thread t (status_update (\<lambda>_. THREAD_READY))
          (?k1\<lparr>ready_list := insert_ordered (list_compare_priority ?k0) t (ready_list ?k0)\<rparr>)"
    proof (rule thread_unblock_move [where p = "PWait s"])
      fix q assume "q \<noteq> PWait s" then show "located ?k1 q = located ?k0 q"
        by (simp add: located_upd_sema)
    qed (use inv Cons d in \<open>auto simp: kinv_def\<close>)
    then show ?thesis using that inv Cons
      by (auto simp: kinv_def upd_sema_def)
  qed
  let ?k1 = "(upd_sema s (sval_update (\<lambda>v. v + 1)) ka)\<lparr>intr_on := intr_on k\<rparr>"
  have ki: "kinv (upd_sema s (sval_update (\<lambda>v. v + 1)) ka)"
    using ia by (simp add: kinv_def sched_inv_upd_sema)
  have "sema_up s k = thread_yield ?k1"
    using ka s kinv_level [OF ki]
    by (simp add: sema_up_def intr_disable_def intr_get_level_def)
  then show ?thesis using ki ia by (intro exI [of _ ?k1]) (simp add: sval_waiters_update split: list.splits)
qed

lemma sema_up_inv:
  assumes "kinv k" "sema_up s k = Some k'" shows "kinv k'"
proof -
  have "s \<noteq> NULL" using assms(2) by (auto simp: sema_up_def monad_simps split: if_splits)
  then obtain k1 where "thread_yield k1 = Some k'" "kinv k1" using sema_up_eq [OF assms(1), of s] assms(2) by auto
  then show ?thesis using thread_yield_inv thread_yield_keeps unfolding kinv_def by blast
qed


lemma held_eq:
  "kinv k \<Longrightarrow> lock_held_by_current_thread l k = (if l = NULL then None else Some (holder k l = cur k))"
  by (simp add: lock_held_by_current_thread_def kinv_current ASSERT_def)

lemma sema_try_down_inv:
  assumes "kinv k" "sema_try_down s k = Some (b, k')" shows "kinv k' \<and> same_sync k (k'\<lparr>semas := semas k\<rparr>)"
proof -
  let ?k0 = "k\<lparr>intr_on := False\<rparr>"
  let ?k1 = "if sval (semas k s) > 0 then upd_sema s (sval_update (\<lambda>v. v - 1)) ?k0 else ?k0"
  have k1: "kinv ?k1" using assms(1) kinv_upd_sema [of ?k0] by simp
  have "k' = ?k1\<lparr>intr_on := intr_on k\<rparr>"
    using assms(2) kinv_level [OF k1]
    by (auto simp: sema_try_down_def intr_disable_def intr_get_level_def Let_def monad_simps
        split: if_splits)
  then show ?thesis using k1 by (simp add: same_sync_def upd_sema_def)
qed

lemma lock_acquire_inv:
  assumes "kinv k" "cur k \<noteq> idle_thread k" "lock_acquire l k = Some k'" shows "kinv k'"
  using sema_down_inv [of "push_frame (FSetHolder l) k" "lock_sema l" k'] assms kinv_push [of k "FSetHolder l"]
  by (auto simp: lock_acquire_def monad_simps split: if_splits)

lemma set_holder_inv: "kinv k \<Longrightarrow> set_holder l k = Some k' \<Longrightarrow> kinv k'"
  by (auto simp: set_holder_def kinv_current)

lemma lock_try_acquire_inv:
  assumes "kinv k" "lock_try_acquire l k = Some (b, k')" shows "kinv k'"
proof -
  obtain s k1 where k1: "sema_try_down (lock_sema l) k = Some (s, k1)"
    and k': "(if s then do { k \<leftarrow> set_holder l k1; Some (True, k) } else Some (False, k1)) = Some (b, k')"
    using assms by (auto simp: lock_try_acquire_def held_eq monad_simps split: if_splits)
  have "kinv k1" using sema_try_down_inv [OF assms(1) k1] by blast
  then show ?thesis using k' set_holder_inv by (auto simp: monad_simps split: if_splits)
qed

lemma lock_release_inv: "kinv k \<Longrightarrow> lock_release l k = Some k' \<Longrightarrow> kinv k'"
  by (auto simp: lock_release_def held_eq monad_simps kinv_push split: if_splits)

lemma sema_init_inv:
  "kinv k \<Longrightarrow> waiters (semas k s) = [] \<Longrightarrow> sema_init s v k = Some k' \<Longrightarrow> kinv k'"
  by (auto simp: sema_init_def monad_simps kinv_upd_sema split: if_splits)

lemma lock_init_inv:
  "kinv k \<Longrightarrow> waiters (semas k (lock_sema l)) = [] \<Longrightarrow> lock_init l k = Some k' \<Longrightarrow> kinv k'"
  by (auto simp: lock_init_def monad_simps split: if_splits
      intro: sema_init_inv [of "k\<lparr>holder := (holder k)(l := NULL)\<rparr>" "lock_sema l"])

lemma cond_wait_inv:
  assumes "kinv k" "waiters (semas k (elem_sema w)) = []" "cond_wait c l w k = Some k'" shows "kinv k'"
proof -
  obtain k1 where k1: "sema_init (elem_sema w) 0 k = Some k1"
    and k': "lock_release l (push_frame (FSemaDown (elem_sema w)) (push_frame (FLockAcquire l)
        (k1\<lparr>conds := (conds k1)(c := conds k1 c @ [w])\<rparr>))) = Some k'"
    using assms by (auto simp: cond_wait_def held_eq monad_simps split: if_splits)
  have "kinv k1" using sema_init_inv [OF assms(1,2) k1] .
  then show ?thesis by (intro lock_release_inv [OF _ k']) (simp add: kinv_push)
qed

lemma cond_signal_inv: "kinv k \<Longrightarrow> cond_signal c l k = Some k' \<Longrightarrow> kinv k'"
  by (auto simp: cond_signal_def held_eq monad_simps split: if_splits list.splits
      intro: sema_up_inv [of "k\<lparr>conds := g\<rparr>" for g])

lemma cond_broadcast_loop_inv: "kinv k \<Longrightarrow> cond_broadcast_loop c l k = Some k' \<Longrightarrow> kinv k'"
  using cond_signal_inv [of "push_frame (FCondBroadcast c l) k" c l k']
  by (auto simp: cond_broadcast_loop_def kinv_push split: if_splits)

lemma cond_broadcast_inv: "kinv k \<Longrightarrow> cond_broadcast c l k = Some k' \<Longrightarrow> kinv k'"
  by (auto simp: cond_broadcast_def monad_simps split: if_splits intro: cond_broadcast_loop_inv)

end
