(* ===== verification/Kernel.thy ===== *)
theory Kernel
  imports Synch
begin

text \<open>
  Creation of threads, the idle thread, and the kernel as a transition system.

  The first part completes \<^verbatim>\<open>src/threads/thread.c\<close>: \<^verbatim>\<open>init_thread\<close>,
  \<^verbatim>\<open>allocate_tid\<close>, \<^verbatim>\<open>thread_create\<close>, \<^verbatim>\<open>kernel_thread\<close>, \<^verbatim>\<open>idle\<close>,
  \<^verbatim>\<open>thread_init\<close> and \<^verbatim>\<open>thread_start\<close>.  A call of \<^verbatim>\<open>lock_acquire\<close> or
  \<^verbatim>\<open>lock_release\<close> in the middle of a function may switch threads, so each of these functions is
  cut there into the pieces that its frames name.

  The second part is the step relation.  One step of the system is a piece of kernel code up to the
  next point where another thread or an interrupt may come in: the current thread returns to its
  innermost frame (\<open>resume\<close>), makes a call of its own (\<open>do_call\<close>), or the timer interrupts it.
\<close>

section \<open>Creating threads\<close>

definition TID_ERROR :: int where "TID_ERROR = - 1"

text \<open>The addresses of \<^verbatim>\<open>tid_lock\<close> and of the lock of the kernel page pool, which
  \<^verbatim>\<open>palloc_get_page\<close> takes.\<close>

definition TID_LOCK :: addr where "TID_LOCK = 0xc0030100"
definition POOL_LOCK :: addr where "POOL_LOCK = 0xc0030200"

definition zero_thread :: thread where
  "zero_thread = \<lparr>tid = 0, status = THREAD_RUNNING, tname = [], stack = 0, priority = 0,
     exit_number = 0, child_list = [], parent_list = [], create_success = False, file_tail_prev = 0,
     wakeup = 0, nice = 0, recent_cpu = 0, magic = 0\<rparr>"

definition init_thread :: "addr \<Rightarrow> string \<Rightarrow> int \<Rightarrow> kernel \<Rightarrow> kernel option" where
  "init_thread t nm p k = do {
     ASSERT (t \<noteq> NULL);
     ASSERT (PRI_MIN \<le> p \<and> p \<le> PRI_MAX);
     let k = upd_thread t (\<lambda>_. zero_thread\<lparr>status := THREAD_BLOCKED, tname := take 15 nm,
               stack := t + PGSIZE, priority := p, magic := THREAD_MAGIC\<rparr>) k;
     let (old_level, k) = intr_disable k;
     let k = k\<lparr>all_list := all_list k @ [t]\<rparr>;
     (_, k) \<leftarrow> intr_set_level old_level k;
     k \<leftarrow> sema_init (t + 100) 0 k;
     k \<leftarrow> sema_init (t + 120) 0 k;
     k \<leftarrow> sema_init (t + 140) 0 k;
     let c = running_thread k;
     let k = upd_thread c (child_list_update (\<lambda>l. l @ [t])) (upd_thread t (child_list_update (\<lambda>_. [])) k);
     let k = upd_thread t (parent_list_update (\<lambda>_. [c]) \<circ> create_success_update (\<lambda>_. True)
               \<circ> file_tail_prev_update (\<lambda>_. t + 164)) k;
     Some (upd_thread t (nice_update (\<lambda>_. nice (thr k c)) \<circ> recent_cpu_update (\<lambda>_. recent_cpu (thr k c))) k)
   }"

definition alloc_frame :: "addr \<Rightarrow> u32 \<Rightarrow> kernel \<Rightarrow> (u32 \<times> kernel) option" where
  "alloc_frame t sz k = do {
     ASSERT (is_thread k t);
     ASSERT (sz mod 4 = 0);
     let k = upd_thread t (stack_update (\<lambda>sp. sp - sz)) k;
     Some (stack (thr k t), k)
   }"

text \<open>\<^verbatim>\<open>thread_create\<close> up to the call of \<^verbatim>\<open>lock_acquire\<close> in
  \<^verbatim>\<open>palloc_get_page (PAL_ZERO)\<close>.\<close>

definition thread_create :: "string \<Rightarrow> int \<Rightarrow> thread_func \<Rightarrow> kernel \<Rightarrow> kernel option" where
  "thread_create nm p fn k =
     lock_acquire POOL_LOCK (push_frame (FLockRelease POOL_LOCK) (push_frame (FInitThread nm p fn) k))"

text \<open>From the return of \<^verbatim>\<open>palloc_get_page\<close>, with its result, to the call of
  \<^verbatim>\<open>lock_acquire\<close> in \<^verbatim>\<open>allocate_tid\<close>.\<close>

definition thread_create_init :: "addr \<Rightarrow> string \<Rightarrow> int \<Rightarrow> thread_func \<Rightarrow> kernel \<Rightarrow> kernel option" where
  "thread_create_init t nm p fn k =
     (if t = NULL then Some (k\<lparr>retval := (retval k)(cur k := TID_ERROR)\<rparr>)
      else do {
        k \<leftarrow> init_thread t nm p k;
        lock_acquire TID_LOCK (push_frame (FTid t p fn) k)
      })"

text \<open>The rest of \<^verbatim>\<open>allocate_tid\<close>.\<close>

definition allocate_tid_tail :: "addr \<Rightarrow> int \<Rightarrow> thread_func \<Rightarrow> kernel \<Rightarrow> kernel option" where
  "allocate_tid_tail t p fn k = do {
     let n = next_tid k;
     let k = k\<lparr>next_tid := s32 (next_tid k + 1)\<rparr>;
     lock_release TID_LOCK (push_frame (FCreateTail t n p fn) k)
   }"

text \<open>The rest of \<^verbatim>\<open>thread_create\<close>: the three stack frames of the new thread, whose innermost
  return address leads to \<^verbatim>\<open>kernel_thread (function, aux)\<close>.\<close>

definition thread_create_tail :: "addr \<Rightarrow> int \<Rightarrow> int \<Rightarrow> thread_func \<Rightarrow> kernel \<Rightarrow> kernel option" where
  "thread_create_tail t n p fn k = do {
     let k = upd_thread t (tid_update (\<lambda>_. n)) k;
     (kf, k) \<leftarrow> alloc_frame t 12 k;
     (ef, k) \<leftarrow> alloc_frame t 4 k;
     (sf, k) \<leftarrow> alloc_frame t 28 k;
     let k = k\<lparr>frames := (frames k)(t := [FKernelThread fn])\<rparr>;
     k \<leftarrow> thread_unblock t k;
     c \<leftarrow> thread_current k;
     let k = k\<lparr>retval := (retval k)(c := n)\<rparr>;
     if prio k c < p then thread_yield k else Some k
   }"

definition idle :: "addr \<Rightarrow> kernel \<Rightarrow> kernel option" where
  "idle started k = do {
     c \<leftarrow> thread_current k;
     sema_up started (push_frame FIdleLoop (k\<lparr>idle_thread := c\<rparr>))
   }"

definition idle_loop :: "kernel \<Rightarrow> kernel option" where
  "idle_loop k = do {
     let (_, k) = intr_disable k;
     thread_block (push_frame FIdleHlt k)
   }"

text \<open>\<^verbatim>\<open>sti; hlt\<close>: interrupts are on, and the processor waits for one before the loop goes on.\<close>

definition idle_hlt :: "kernel \<Rightarrow> kernel option" where
  "idle_hlt k = Some (push_frame FIdleLoop (k\<lparr>intr_on := True\<rparr>))"

text \<open>\<^verbatim>\<open>kernel_thread\<close>.  What a client thread does after the interrupts have been enabled is up
  to the client; when its function returns, it calls \<^verbatim>\<open>thread_exit\<close>.\<close>

definition kernel_thread :: "thread_func \<Rightarrow> kernel \<Rightarrow> kernel option" where
  "kernel_thread fn k = do {
     (_, k) \<leftarrow> intr_enable k;
     (case fn of Idle s \<Rightarrow> idle s k | Client \<Rightarrow> Some k)
   }"

definition thread_start :: "addr \<Rightarrow> kernel \<Rightarrow> kernel option" where
  "thread_start started k = do {
     k \<leftarrow> sema_init started 0 k;
     thread_create ''idle'' PRI_MIN (Idle started)
       (push_frame FIntrEnable (push_frame (FSemaDown started) k))
   }"

section \<open>The transition system\<close>

text \<open>Returning to a frame.  \<open>pg\<close> is the page that the page allocator hands out, if the frame asks
  for one.\<close>

fun run_frame :: "frame \<Rightarrow> addr \<Rightarrow> kernel \<Rightarrow> kernel option" where
  "run_frame (FSetLevel l) pg k = do { (_, k) \<leftarrow> intr_set_level l k; Some k }"
| "run_frame FIret pg k = Some (k\<lparr>intr_on := True\<rparr>)"
| "run_frame (FSemaLoop s l) pg k = sema_down_loop s l k"
| "run_frame (FSemaDown s) pg k = sema_down s k"
| "run_frame (FSemaUp s) pg k = sema_up s k"
| "run_frame (FSetHolder l) pg k = set_holder l k"
| "run_frame (FLockAcquire l) pg k = lock_acquire l k"
| "run_frame (FLockRelease l) pg k = lock_release l k"
| "run_frame (FCondBroadcast c l) pg k = cond_broadcast_loop c l k"
| "run_frame (FInitThread nm p fn) pg k = thread_create_init pg nm p fn k"
| "run_frame (FTid t p fn) pg k = allocate_tid_tail t p fn k"
| "run_frame (FCreateTail t n p fn) pg k = thread_create_tail t n p fn k"
| "run_frame (FKernelThread fn) pg k = kernel_thread fn k"
| "run_frame FIntrEnable pg k = do { (_, k) \<leftarrow> intr_enable k; Some k }"
| "run_frame FIdleLoop pg k = idle_loop k"
| "run_frame FIdleHlt pg k = idle_hlt k"

definition resume :: "addr \<Rightarrow> kernel \<Rightarrow> kernel option" where
  "resume pg k = (case frames k (cur k) of [] \<Rightarrow> None
     | f # fs \<Rightarrow> run_frame f pg (k\<lparr>frames := (frames k)(cur k := fs)\<rparr>))"

text \<open>\<^verbatim>\<open>thread_init\<close>.  Nothing else runs yet, so that the three frames of
  \<^verbatim>\<open>allocate_tid\<close>, behind \<^verbatim>\<open>sema_down\<close>, before \<^verbatim>\<open>sema_up\<close> and behind
  \<^verbatim>\<open>schedule\<close>, are returned to at once.\<close>

definition thread_init :: "kernel \<Rightarrow> kernel option" where
  "thread_init k = do {
     ASSERT (\<not> intr_get_level k);
     k \<leftarrow> lock_init TID_LOCK k;
     let k = k\<lparr>ready_list := [], all_list := [], blocked_list := [], load_avg := 0\<rparr>;
     let t = running_thread k;
     let k = k\<lparr>initial_thread := t\<rparr>;
     k \<leftarrow> init_thread t ''main'' PRI_DEFAULT k;
     let k = upd_thread t (status_update (\<lambda>_. THREAD_RUNNING)) k;
     k \<leftarrow> lock_acquire TID_LOCK k;
     k \<leftarrow> resume NULL k;
     let n = next_tid k;
     let k = k\<lparr>next_tid := s32 (next_tid k + 1)\<rparr>;
     k \<leftarrow> lock_release TID_LOCK k;
     k \<leftarrow> resume NULL k;
     k \<leftarrow> resume NULL k;
     Some (upd_thread t (tid_update (\<lambda>_. n) \<circ> nice_update (\<lambda>_. 0) \<circ> recent_cpu_update (\<lambda>_. 0)) k)
   }"

datatype call =
    CIntrDisable
  | CIntrEnable
  | CYield
  | CExit
  | CSetPriority int
  | CSetNice int
  | CSleep u64
  | CSemaInit addr u32
  | CSemaDown addr
  | CSemaTryDown addr
  | CSemaUp addr
  | CLockInit addr
  | CLockAcquire addr
  | CLockTryAcquire addr
  | CLockRelease addr
  | CCondInit addr
  | CCondWait addr addr addr
  | CCondSignal addr addr
  | CCondBroadcast addr addr
  | CCreate string int

definition ret :: "(bool \<times> kernel) option \<Rightarrow> kernel option" where
  "ret m = do { (b, k) \<leftarrow> m; Some (k\<lparr>retval := (retval k)(cur k := of_bool b)\<rparr>) }"

fun do_call :: "call \<Rightarrow> kernel \<Rightarrow> kernel option" where
  "do_call CIntrDisable k = Some (snd (intr_disable k))"
| "do_call CIntrEnable k = do { (_, k) \<leftarrow> intr_enable k; Some k }"
| "do_call CYield k = thread_yield k"
| "do_call CExit k = thread_exit k"
| "do_call (CSetPriority p) k = thread_set_priority p k"
| "do_call (CSetNice n) k = thread_set_nice n k"
| "do_call (CSleep n) k = timer_sleep n k"
| "do_call (CSemaInit s v) k = sema_init s v k"
| "do_call (CSemaDown s) k = sema_down s k"
| "do_call (CSemaTryDown s) k = ret (sema_try_down s k)"
| "do_call (CSemaUp s) k = sema_up s k"
| "do_call (CLockInit l) k = lock_init l k"
| "do_call (CLockAcquire l) k = lock_acquire l k"
| "do_call (CLockTryAcquire l) k = ret (lock_try_acquire l k)"
| "do_call (CLockRelease l) k = lock_release l k"
| "do_call (CCondInit c) k = cond_init c k"
| "do_call (CCondWait c l w) k = cond_wait c l w k"
| "do_call (CCondSignal c l) k = cond_signal c l k"
| "do_call (CCondBroadcast c l) k = cond_broadcast c l k"
| "do_call (CCreate nm p) k = thread_create nm p Client k"

text \<open>
  What the callers owe: an object is initialised only while no thread waits on it, and the page
  handed out for a new thread is in use neither as a thread nor for a semaphore.
\<close>

fun call_ok :: "call \<Rightarrow> kernel \<Rightarrow> bool" where
  "call_ok (CSemaInit s v) k = (waiters (semas k s) = [])"
| "call_ok (CLockInit l) k = (waiters (semas k (lock_sema l)) = [])"
| "call_ok (CCondWait c l w) k = (waiters (semas k (elem_sema w)) = [])"
| "call_ok _ k = True"

definition fresh_page :: "addr \<Rightarrow> kernel \<Rightarrow> bool" where
  "fresh_page t k \<longleftrightarrow> t \<noteq> NULL \<and> t \<notin> set (all_list k) \<and> frames k t = [] \<and>
     waiters (semas k (t + 100)) = [] \<and> waiters (semas k (t + 120)) = [] \<and>
     waiters (semas k (t + 140)) = []"

inductive step :: "kernel \<Rightarrow> kernel \<Rightarrow> bool" where
  step_tick: "intr_on k \<Longrightarrow> timer_irq k = Some k' \<Longrightarrow> step k k'"
| step_resume: "pg = NULL \<or> fresh_page pg k \<Longrightarrow> resume pg k = Some k' \<Longrightarrow> step k k'"
| step_call: "frames k (cur k) = [] \<Longrightarrow> call_ok c k \<Longrightarrow> do_call c k = Some k' \<Longrightarrow> step k k'"

inductive reachable :: "kernel \<Rightarrow> kernel \<Rightarrow> bool" for k0 where
  reach_refl: "reachable k0 k0"
| reach_step: "reachable k0 k \<Longrightarrow> step k k' \<Longrightarrow> reachable k0 k'"

inductive_cases stepE: "step k k'"


section \<open>What an operation pushes\<close>

fun calm :: "frame \<Rightarrow> bool" where
  "calm (FSetLevel l) = True"
| "calm FIret = True"
| "calm _ = False"

fun starts_idle :: "frame \<Rightarrow> bool" where
  "starts_idle (FInitThread nm p fn) = (fn \<noteq> Client)"
| "starts_idle (FTid t p fn) = (fn \<noteq> Client)"
| "starts_idle (FCreateTail t n p fn) = (fn \<noteq> Client)"
| "starts_idle (FKernelThread fn) = (fn \<noteq> Client)"
| "starts_idle FIdleLoop = True"
| "starts_idle FIdleHlt = True"
| "starts_idle _ = False"

definition plain :: "frame \<Rightarrow> bool" where
  "plain f \<longleftrightarrow> creates f = None \<and> \<not> starts_idle f"

lemma calm_plain: "calm f \<Longrightarrow> plain f"
  by (cases f) (simp_all add: plain_def)

definition pushed :: "(frame \<Rightarrow> bool) \<Rightarrow> kernel \<Rightarrow> kernel \<Rightarrow> bool" where
  "pushed P k k' \<longleftrightarrow> idle_thread k' = idle_thread k \<and> all_list k' = all_list k \<and>
     (\<exists>fs. frames k' = (frames k)(cur k := fs @ frames k (cur k)) \<and> (\<forall>f\<in>set fs. P f))"

lemma pushed_none: "idle_thread k' = idle_thread k \<Longrightarrow> all_list k' = all_list k \<Longrightarrow>
    frames k' = frames k \<Longrightarrow> pushed P k k'"
  unfolding pushed_def by (intro conjI exI [of _ "[]"]) simp_all

lemma pushed_refl [simp]: "pushed P k k" by (rule pushed_none) simp_all

lemma pushed_mono: "pushed P k k' \<Longrightarrow> (\<And>f. P f \<Longrightarrow> Q f) \<Longrightarrow> pushed Q k k'"
  unfolding pushed_def by blast

lemma pushed_push: "pushed P (push_frame f k) k' \<Longrightarrow> P f \<Longrightarrow> pushed P k k'"
  unfolding pushed_def
proof (elim conjE exE)
  fix fs assume a: "P f" "idle_thread k' = idle_thread (push_frame f k)"
    "all_list k' = all_list (push_frame f k)"
    "frames k' = (frames (push_frame f k))(cur (push_frame f k) := fs @ frames (push_frame f k) (cur (push_frame f k)))"
    "\<forall>f\<in>set fs. P f"
  then show "idle_thread k' = idle_thread k \<and> all_list k' = all_list k \<and>
     (\<exists>fs. frames k' = (frames k)(cur k := fs @ frames k (cur k)) \<and> (\<forall>f\<in>set fs. P f))"
    by (intro conjI exI [of _ "fs @ [f]"]) auto
qed

lemma pushed_from:
  "pushed P k1 k' \<Longrightarrow> idle_thread k1 = idle_thread k \<Longrightarrow> all_list k1 = all_list k \<Longrightarrow>
    frames k1 = frames k \<Longrightarrow> cur k1 = cur k \<Longrightarrow> pushed P k k'"
  by (simp add: pushed_def)

lemma schedule_pushed: "schedule k = Some k' \<Longrightarrow> pushed P k k'"
  using schedule_keeps by (intro pushed_none) blast+

lemma thread_block_pushed: "thread_block k = Some k' \<Longrightarrow> pushed P k k'"
  by (auto simp: thread_block_def thread_current_def running_thread_def monad_simps split: if_splits
      dest!: schedule_pushed intro: pushed_from)

lemma thread_yield_pushed: "thread_yield k = Some k' \<Longrightarrow> pushed calm k k'"
  by (auto simp: thread_yield_def thread_current_def running_thread_def monad_simps intr_disable_def Let_def
      split: if_splits dest!: schedule_pushed [where P = calm] pushed_push intro: pushed_from)

lemma thread_set_priority_pushed: "thread_set_priority p k = Some k' \<Longrightarrow> pushed calm k k'"
  by (auto simp: thread_set_priority_def thread_current_def running_thread_def monad_simps split: if_splits
      dest!: thread_yield_pushed intro: pushed_from pushed_none)

lemma thread_set_nice_pushed: "thread_set_nice n k = Some k' \<Longrightarrow> pushed calm k k'"
  by (auto simp: thread_set_nice_def thread_current_def running_thread_def monad_simps Let_def split: if_splits
      dest!: thread_yield_pushed intro: pushed_from pushed_none)

lemma timer_sleep_pushed:
  assumes "kinv k" "cur k \<noteq> idle_thread k" "timer_sleep n k = Some k'"
  shows "pushed calm k k'"
proof (cases "sint n < 0")
  case True
  then show ?thesis using assms
    by (auto simp: timer_sleep_def timer_ticks_eq kinv_def monad_simps split: if_splits)
next
  case False
  then have "thread_block_with_time (ticks k + n) k = Some k'" using assms
    by (auto simp: timer_sleep_def timer_ticks_eq kinv_def monad_simps split: if_splits)
  moreover obtain k2 where "thread_block_with_time (ticks k + n) k = schedule k2"
    "idle_thread k2 = idle_thread k" "all_list k2 = all_list k" "cur k2 = cur k"
    "frames k2 = (frames k)(cur k := FSetLevel (intr_on k) # frames k (cur k))"
    using sleep_eq [of k "ticks k + n"] assms by (auto simp: kinv_def)
  ultimately show ?thesis using schedule_keeps [of k2 k']
    unfolding pushed_def by (intro conjI exI [of _ "[FSetLevel (intr_on k)]"]) simp_all
qed

lemma sema_down_loop_pushed: "sema_down_loop s l k = Some k' \<Longrightarrow> pushed plain k k'"
  by (auto simp: sema_down_loop_def thread_current_def running_thread_def intr_set_level_def intr_enable_def
      intr_disable_def monad_simps Let_def plain_def split: if_splits
      dest!: thread_block_pushed [where P = plain] pushed_push intro: pushed_from pushed_none)

lemma sema_down_pushed: "sema_down s k = Some k' \<Longrightarrow> pushed plain k k'"
  by (auto simp: sema_down_def intr_disable_def monad_simps Let_def split: if_splits
      dest!: sema_down_loop_pushed intro: pushed_from)

lemma sema_up_pushed:
  assumes "kinv k" "sema_up s k = Some k'" shows "pushed calm k k'"
proof -
  have "s \<noteq> NULL" using assms(2) by (auto simp: sema_up_def monad_simps split: if_splits)
  then obtain k1 where k1: "thread_yield k1 = Some k'" "cur k1 = cur k" "frames k1 = frames k"
    "idle_thread k1 = idle_thread k" "all_list k1 = all_list k"
    using sema_up_eq [OF assms(1), of s] assms(2) by auto
  then show ?thesis using thread_yield_pushed [OF k1(1)] by (auto intro: pushed_from)
qed

lemma lock_acquire_pushed: "lock_acquire l k = Some k' \<Longrightarrow> pushed plain k k'"
  by (auto simp: lock_acquire_def monad_simps plain_def split: if_splits
      dest!: sema_down_pushed pushed_push)

lemma lock_release_pushed: "lock_release l k = Some k' \<Longrightarrow> pushed plain k k'"
  unfolding pushed_def
  by (rule conjI, auto simp: lock_release_def monad_simps plain_def split: if_splits)
    (intro exI [of _ "[FSemaUp (lock_sema l)]"], simp add: plain_def)


lemma timer_irq_pushed:
  assumes inv: "kinv k" and k': "timer_irq k = Some k'"
  shows "pushed calm k k'"
proof -
  let ?k0 = "(push_frame FIret k)\<lparr>intr_on := False, in_external_intr := True, yield_on_return := False\<rparr>"
  obtain k1 where k1: "timer_interrupt ?k0 = Some k1"
    and y: "(if yield_on_return k1 then thread_yield (k1\<lparr>in_external_intr := False\<rparr>)
      else Some (k1\<lparr>in_external_intr := False\<rparr>)) = Some k'"
    using k' by (auto simp: timer_irq_def intr_handler_external_def Let_def monad_simps split: if_splits)
  have "sched_inv (?k0\<lparr>ticks := ticks ?k0 + 1\<rparr>)"
    using inv sched_inv_push [of k FIret] by (simp add: kinv_def)
  then have "same_sync (?k0\<lparr>ticks := ticks ?k0 + 1\<rparr>) k1"
    using thread_tick_inv [of "?k0\<lparr>ticks := ticks ?k0 + 1\<rparr>" k1] k1 by (simp add: timer_interrupt_def)
  then have s: "frames k1 = frames (push_frame FIret k)" "idle_thread k1 = idle_thread k"
    "all_list k1 = all_list k" "cur k1 = cur k"
    by (simp_all add: same_sync_def)
  have "pushed calm (k1\<lparr>in_external_intr := False\<rparr>) k'"
    using y thread_yield_pushed by (auto split: if_splits)
  then have "pushed calm (push_frame FIret k) k'" using s by (auto intro: pushed_from)
  then show ?thesis by (rule pushed_push) simp
qed

lemma set_holder_pushed: "set_holder l k = Some k' \<Longrightarrow> pushed P k k'"
  by (auto simp: set_holder_def monad_simps intro: pushed_none)

lemma sema_init_pushed: "sema_init s v k = Some k' \<Longrightarrow> pushed P k k'"
  by (auto simp: sema_init_def monad_simps split: if_splits intro: pushed_none)

lemma lock_init_pushed: "lock_init l k = Some k' \<Longrightarrow> pushed P k k'"
  by (auto simp: lock_init_def monad_simps split: if_splits
      dest!: sema_init_pushed [where P = P] intro: pushed_from)

lemma try_pushed:
  assumes "kinv k" "sema_try_down s k = Some (b, k1)"
  shows "pushed P k k1" "cur k1 = cur k" "kinv k1"
  using sema_try_down_inv [OF assms] by (auto simp: same_sync_def intro: pushed_none)

lemma lock_try_acquire_pushed:
  assumes "kinv k" "lock_try_acquire l k = Some (b, k')" shows "pushed P k k'"
proof -
  obtain s k1 where k1: "sema_try_down (lock_sema l) k = Some (s, k1)"
    and k': "(if s then do { k \<leftarrow> set_holder l k1; Some (True, k) } else Some (False, k1)) = Some (b, k')"
    using assms by (auto simp: lock_try_acquire_def held_eq monad_simps split: if_splits)
  have "frames k1 = frames k \<and> idle_thread k1 = idle_thread k \<and> all_list k1 = all_list k"
    using sema_try_down_inv [OF assms(1) k1] by (auto simp: same_sync_def)
  then show ?thesis using k' by (auto simp: set_holder_def monad_simps split: if_splits intro: pushed_none)
qed

lemma cond_wait_pushed:
  assumes "cond_wait c l w k = Some k'" shows "pushed plain k k'"
proof -
  obtain k1 where k1: "sema_init (elem_sema w) 0 k = Some k1"
    and k': "lock_release l (push_frame (FSemaDown (elem_sema w)) (push_frame (FLockAcquire l)
        (k1\<lparr>conds := (conds k1)(c := conds k1 c @ [w])\<rparr>))) = Some k'"
    using assms by (auto simp: cond_wait_def monad_simps split: if_splits)
  have "pushed plain (k1\<lparr>conds := (conds k1)(c := conds k1 c @ [w])\<rparr>) k'"
    using pushed_push [OF pushed_push [OF lock_release_pushed [OF k']]] by (simp add: plain_def)
  then show ?thesis
    by (rule pushed_from) (use k1 in \<open>auto simp: sema_init_def monad_simps split: if_splits\<close>)
qed

lemma cond_signal_pushed:
  assumes "kinv k" "cond_signal c l k = Some k'" shows "pushed calm k k'"
  using assms
  by (auto simp: cond_signal_def held_eq monad_simps split: if_splits list.splits
      dest!: sema_up_pushed [rotated] intro: pushed_from)

lemma cond_broadcast_loop_pushed:
  assumes "kinv k" "cond_broadcast_loop c l k = Some k'" shows "pushed plain k k'"
proof (cases "conds k c = []")
  case True
  then show ?thesis using assms(2) by (simp add: cond_broadcast_loop_def)
next
  case False
  then have "cond_signal c l (push_frame (FCondBroadcast c l) k) = Some k'"
    using assms(2) by (simp add: cond_broadcast_loop_def)
  then have "pushed calm (push_frame (FCondBroadcast c l) k) k'"
    using assms(1) by (intro cond_signal_pushed) (simp_all add: kinv_push)
  then have "pushed plain (push_frame (FCondBroadcast c l) k) k'" using calm_plain by (rule pushed_mono)
  then show ?thesis by (rule pushed_push) (simp add: plain_def)
qed

section \<open>The system invariant\<close>

definition sys_inv :: "kernel \<Rightarrow> bool" where
  "sys_inv k \<longleftrightarrow> kinv k \<and> idle_thread k \<noteq> NULL \<and>
     (\<forall>f\<in>set (frames k (idle_thread k)). calm f \<or> f = FIdleLoop \<or> f = FIdleHlt) \<and>
     (\<forall>c. c \<noteq> idle_thread k \<longrightarrow> (\<forall>f\<in>set (frames k c). \<not> starts_idle f)) \<and>
     (\<forall>c. \<forall>t\<in>set (made (frames k c)). frames k t = [])"

lemma made_append [simp]: "made (xs @ ys) = made xs @ made ys"
  by (induction xs) (auto split: option.splits)

lemma made_plain: "\<forall>f\<in>set fs. creates f = None \<Longrightarrow> made fs = []"
  by (induction fs) simp_all

text \<open>An operation of the current thread keeps the invariant when it keeps the one of the scheduler
  and pushes only plain frames; on the idle thread only calm ones.\<close>

lemma sys_inv_pushed:
  assumes inv: "sys_inv k" and k': "kinv k'" and p: "pushed P k k'"
    and P: "\<And>f. P f \<Longrightarrow> plain f" "cur k = idle_thread k \<Longrightarrow> (\<And>f. P f \<Longrightarrow> calm f)"
  shows "sys_inv k'"
proof -
  obtain fs where fs: "frames k' = (frames k)(cur k := fs @ frames k (cur k))" "\<forall>f\<in>set fs. P f"
    and i: "idle_thread k' = idle_thread k" using p by (auto simp: pushed_def)
  have pl: "\<forall>f\<in>set fs. creates f = None \<and> \<not> starts_idle f" using fs(2) P(1) by (auto simp: plain_def)
  then have m: "made (frames k' c) = made (frames k c)" for c using fs(1) made_plain [of fs] by simp
  have c: "cur k \<notin> set (made (frames k c))" for c
    using inv located_inD [of k "cur k" "cur k" "PMade c"] by (auto simp: sys_inv_def kinv_def sched_inv_def)
  have "\<forall>c. \<forall>t\<in>set (made (frames k' c)). frames k' t = []"
    using inv c fs(1) unfolding m sys_inv_def by auto
  moreover have "\<forall>f\<in>set (frames k' (idle_thread k')). calm f \<or> f = FIdleLoop \<or> f = FIdleHlt"
    using inv fs i P(2) unfolding sys_inv_def by auto
  moreover have "\<forall>c. c \<noteq> idle_thread k' \<longrightarrow> (\<forall>f\<in>set (frames k' c). \<not> starts_idle f)"
  proof (intro allI impI ballI)
    fix c f assume "c \<noteq> idle_thread k'" "f \<in> set (frames k' c)"
    then have "f \<in> set fs \<or> f \<in> set (frames k c)" using fs(1) by (cases "c = cur k") auto
    then show "\<not> starts_idle f" using inv pl i \<open>c \<noteq> idle_thread k'\<close> by (auto simp: sys_inv_def)
  qed
  moreover have "idle_thread k' \<noteq> NULL" using inv i by (simp add: sys_inv_def)
  ultimately show ?thesis using k' by (simp add: sys_inv_def)
qed


section \<open>Steps keep the invariant\<close>

lemma sys_invD:
  assumes "sys_inv k"
  shows "kinv k" "idle_thread k \<noteq> NULL" "sched_inv k" "\<not> in_external_intr k"
    "cur k \<in> set (all_list k)" "made (frames k (cur k)) = [] \<or> cur k \<noteq> idle_thread k"
    "frames k (idle_thread k) \<noteq> []"
proof -
  show k: "kinv k" "idle_thread k \<noteq> NULL" "sched_inv k" "\<not> in_external_intr k" "cur k \<in> set (all_list k)"
    using assms by (auto simp: sys_inv_def kinv_def sched_inv_def)
  show "frames k (idle_thread k) \<noteq> []"
    using k by (auto simp: sched_inv_def base_ok_def)
  have "\<forall>f\<in>set (frames k (idle_thread k)). creates f = None"
    using assms calm_plain by (auto simp: sys_inv_def plain_def)
  then show "made (frames k (cur k)) = [] \<or> cur k \<noteq> idle_thread k" using made_plain by metis
qed

lemma tick_sys_inv:
  assumes inv: "sys_inv k" and k': "timer_irq k = Some k'" shows "sys_inv k'"
proof (rule sys_inv_pushed [OF inv])
  show "kinv k'" using timer_irq_inv [OF sys_invD(3,4) [OF inv] k'] by (simp add: kinv_def)
  show "pushed calm k k'" using timer_irq_pushed [OF sys_invD(1) [OF inv] k'] .
qed (simp_all add: calm_plain)

text \<open>A call of a client thread: its frames are empty, so it is not the idle thread.\<close>

lemma client_sys_inv:
  assumes inv: "sys_inv k" and c: "cur k \<noteq> idle_thread k" and "kinv k'" "pushed plain k k'"
  shows "sys_inv k'"
  using sys_inv_pushed [OF assms(1,3,4)] c by blast

lemma thread_exit_sys_inv:
  assumes inv: "sys_inv k" and f: "frames k (cur k) = []" and k': "thread_exit k = Some k'"
  shows "sys_inv k'"
proof -
  have c: "cur k \<noteq> idle_thread k" using sys_invD(7) [OF inv] f by auto
  have "kinv k'" using thread_exit_inv [OF sys_invD(3,4) [OF inv] c _ k'] f by (simp add: kinv_def)
  moreover have "frames k' = frames k" "idle_thread k' = idle_thread k"
    using k' f by (auto simp: thread_exit_def intr_disable_def thread_current_def running_thread_def
        Let_def monad_simps split: if_splits dest!: schedule_keeps)
  ultimately show ?thesis using inv by (simp add: sys_inv_def)
qed

lemma thread_yield_kinv: "kinv k \<Longrightarrow> thread_yield k = Some k' \<Longrightarrow> kinv k'"
  using thread_yield_inv thread_yield_keeps unfolding kinv_def by blast

lemma thread_set_priority_kinv:
  "kinv k \<Longrightarrow> thread_set_priority p k = Some k' \<Longrightarrow> kinv k'"
  using thread_yield_kinv [of "upd_thread (cur k) (priority_update (\<lambda>_. p)) k" k']
    sched_inv_set_priority [of k "\<lambda>_. p"]
  by (auto simp: thread_set_priority_def kinv_current kinv_def split: if_splits)

lemma thread_set_nice_kinv:
  assumes "kinv k" "thread_set_nice n k = Some k'" shows "kinv k'"
proof -
  obtain p where k': "(if prio k (cur k) > p then thread_yield (upd_thread (cur k) (priority_update (\<lambda>_. p))
        (upd_thread (cur k) (nice_update (\<lambda>_. n)) k))
      else Some (upd_thread (cur k) (priority_update (\<lambda>_. p)) (upd_thread (cur k) (nice_update (\<lambda>_. n)) k))) = Some k'"
    using assms by (auto simp: thread_set_nice_def kinv_current Let_def elim: bind_SomeE)
  have "kinv (upd_thread (cur k) (priority_update (\<lambda>_. p)) (upd_thread (cur k) (nice_update (\<lambda>_. n)) k))"
    using assms(1) sched_inv_set_priority [OF sched_inv_set_nice [of k "\<lambda>_. n"], of "\<lambda>_. p"]
    by (simp add: kinv_def)
  then show ?thesis using k' thread_yield_kinv by (auto split: if_splits)
qed

lemma ret_eq: "ret m = Some k' \<Longrightarrow> \<exists>b k1. m = Some (b, k1) \<and> k' = k1\<lparr>retval := (retval k1)(cur k1 := of_bool b)\<rparr>"
  by (auto simp: ret_def monad_simps)

lemma pushed_retval: "pushed P k0 k \<Longrightarrow> pushed P k0 (k\<lparr>retval := r\<rparr>)"
  by (simp add: pushed_def)

lemma thread_create_client:
  assumes "kinv k" "cur k \<noteq> idle_thread k" "thread_create nm p Client k = Some k'"
  shows "kinv k'" "pushed plain k k'"
proof -
  let ?k = "push_frame (FLockRelease POOL_LOCK) (push_frame (FInitThread nm p Client) k)"
  have e: "lock_acquire POOL_LOCK ?k = Some k'" using assms(3) by (simp add: thread_create_def)
  show "kinv k'" by (rule lock_acquire_inv [OF _ _ e]) (use assms(1,2) in \<open>simp_all add: kinv_push\<close>)
  show "pushed plain k k'"
    using pushed_push [OF pushed_push [OF lock_acquire_pushed [OF e]]] by (simp add: plain_def)
qed

lemma call_sys_inv:
  assumes inv: "sys_inv k" and f: "frames k (cur k) = []" and ok: "call_ok c k" and k': "do_call c k = Some k'"
  shows "sys_inv k'"
proof -
  note i = sys_invD [OF inv]
  have ci: "cur k \<noteq> idle_thread k" using i(7) f by auto
  note cl = client_sys_inv [OF inv ci]
  have calm: "kinv k' \<Longrightarrow> pushed calm k k' \<Longrightarrow> sys_inv k'"
    using calm_plain by (blast intro: cl pushed_mono)
  show ?thesis
  proof (cases c)
    case CIntrDisable
    then show ?thesis using k' i by (intro cl) (auto simp: intr_disable_def intro: pushed_none)
  next
    case CIntrEnable
    then show ?thesis using k' i
      by (intro cl) (auto simp: intr_enable_def monad_simps split: if_splits intro: pushed_none)
  next
    case CYield
    then show ?thesis using k' thread_yield_kinv [OF i(1)] thread_yield_pushed by (intro calm) auto
  next
    case CExit
    then show ?thesis using thread_exit_sys_inv [OF inv f] k' by simp
  next
    case (CSetPriority p)
    then show ?thesis using k' thread_set_priority_kinv [OF i(1)] thread_set_priority_pushed
      by (intro calm) auto
  next
    case (CSetNice n)
    then show ?thesis using k' thread_set_nice_kinv [OF i(1)] thread_set_nice_pushed by (intro calm) auto
  next
    case (CSleep n)
    then have e: "timer_sleep n k = Some k'" using k' by simp
    show ?thesis using timer_sleep_inv [OF i(3,4) ci e] timer_sleep_pushed [OF i(1) ci e]
      by (intro calm) (simp_all add: kinv_def)
  next
    case (CSemaInit s v)
    then show ?thesis using k' ok i(1) by (intro cl) (auto intro: sema_init_inv sema_init_pushed)
  next
    case (CSemaDown s)
    then show ?thesis using k' sema_down_inv [OF i(1) ci] sema_down_pushed by (intro cl) auto
  next
    case (CSemaTryDown s)
    then have "ret (sema_try_down s k) = Some k'" using k' by simp
    then obtain b k1 where k1: "sema_try_down s k = Some (b, k1)"
      "k' = k1\<lparr>retval := (retval k1)(cur k1 := of_bool b)\<rparr>" using ret_eq by blast
    have "kinv k1" "pushed plain k k1" using try_pushed [OF i(1) k1(1)] by simp_all
    then show ?thesis using k1(2) pushed_retval by (intro cl) simp_all
  next
    case (CSemaUp s)
    then show ?thesis using k' sema_up_inv [OF i(1)] sema_up_pushed [OF i(1)]
      by (intro calm) auto
  next
    case (CLockInit l)
    then show ?thesis using k' ok i(1) by (intro cl) (auto intro: lock_init_inv lock_init_pushed)
  next
    case (CLockAcquire l)
    then show ?thesis using k' lock_acquire_inv [OF i(1) ci] lock_acquire_pushed by (intro cl) auto
  next
    case (CLockTryAcquire l)
    then have "ret (lock_try_acquire l k) = Some k'" using k' by simp
    then obtain b k1 where k1: "lock_try_acquire l k = Some (b, k1)"
      "k' = k1\<lparr>retval := (retval k1)(cur k1 := of_bool b)\<rparr>" using ret_eq by blast
    have "kinv k1" "pushed plain k k1"
      using lock_try_acquire_inv [OF i(1) k1(1)] lock_try_acquire_pushed [OF i(1) k1(1)] by simp_all
    then show ?thesis using k1(2) pushed_retval by (intro cl) simp_all
  next
    case (CLockRelease l)
    then show ?thesis using k' lock_release_inv [OF i(1)] lock_release_pushed by (intro cl) auto
  next
    case (CCondInit c)
    then show ?thesis using k' i(1)
      by (intro cl) (auto simp: cond_init_def monad_simps split: if_splits intro: pushed_none)
  next
    case (CCondWait c l w)
    then show ?thesis using k' ok cond_wait_inv [OF i(1)] cond_wait_pushed by (intro cl) auto
  next
    case (CCondSignal c l)
    then show ?thesis using k' cond_signal_inv [OF i(1)] cond_signal_pushed [OF i(1)]
      by (intro calm) auto
  next
    case (CCondBroadcast c l)
    then show ?thesis using k' cond_broadcast_inv [OF i(1)] cond_broadcast_loop_pushed [OF i(1)]
      by (intro cl) (auto simp: cond_broadcast_def monad_simps split: if_splits)
  next
    case (CCreate nm p)
    then show ?thesis using k' thread_create_client [OF i(1) ci] by (intro cl) auto
  qed
qed


definition pop_frame :: "kernel \<Rightarrow> kernel" where
  "pop_frame k = k\<lparr>frames := (frames k)(cur k := tl (frames k (cur k)))\<rparr>"

lemma pop_frame_sel [simp]:
  "cur (pop_frame k) = cur k" "idle_thread (pop_frame k) = idle_thread k" "all_list (pop_frame k) = all_list k"
  "ready_list (pop_frame k) = ready_list k" "thr (pop_frame k) = thr k" "semas (pop_frame k) = semas k"
  "frames (pop_frame k) = (frames k)(cur k := tl (frames k (cur k)))" "intr_on (pop_frame k) = intr_on k"
  "in_external_intr (pop_frame k) = in_external_intr k" "blocked_list (pop_frame k) = blocked_list k"
  "holder (pop_frame k) = holder k" "conds (pop_frame k) = conds k" "prio (pop_frame k) t = prio k t"
  "next_tid (pop_frame k) = next_tid k"
  by (simp_all add: pop_frame_def prio_def)

lemma located_pop:
  "frames k (cur k) = f # fs \<Longrightarrow> creates f = None \<Longrightarrow> located (pop_frame k) p = located k p"
  by (cases p) simp_all

lemma pop_kinv:
  assumes inv: "kinv k" and f: "frames k (cur k) = f # fs" "creates f = None"
    and idle: "cur k = idle_thread k \<Longrightarrow> calm f"
  shows "kinv (pop_frame k)"
proof -
  have i: "base_ok k" "located_ok k (cur k)" using inv by (simp_all add: kinv_def sched_inv_def)
  have "located_ok (pop_frame k) (cur k)"
    using i(2) located_ok_cong [of "pop_frame k" k "cur k"] located_pop [OF f] by simp
  moreover have "base_ok (pop_frame k)"
    using i(1) idle f(1) by (auto simp: base_ok_def is_thread_def)
  ultimately show ?thesis using inv by (simp add: kinv_def sched_inv_def)
qed

lemma pop_sys_inv:
  assumes inv: "sys_inv k" and f: "frames k (cur k) = f # fs" "creates f = None"
    and idle: "cur k = idle_thread k \<Longrightarrow> calm f"
  shows "sys_inv (pop_frame k)"
proof -
  note loc = located_pop [OF f]
  have k: "kinv (pop_frame k)" using pop_kinv [OF sys_invD(1) [OF inv] f idle] .
  have m: "made (frames (pop_frame k) c) = made (frames k c)" for c using loc [of "PMade c"] by simp
  have "\<forall>c. \<forall>t\<in>set (made (frames (pop_frame k) c)). frames (pop_frame k) t = []"
    unfolding m using inv f by (auto simp: sys_inv_def)
  moreover have "\<forall>f\<in>set (frames (pop_frame k) (idle_thread k)). calm f \<or> f = FIdleLoop \<or> f = FIdleHlt"
    using inv f(1) by (auto simp: sys_inv_def)
  moreover have "\<forall>c. c \<noteq> idle_thread k \<longrightarrow> (\<forall>f\<in>set (frames (pop_frame k) c). \<not> starts_idle f)"
    using inv f(1) by (auto simp: sys_inv_def)
  ultimately show ?thesis using k sys_invD(2) [OF inv] by (simp add: sys_inv_def)
qed

text \<open>The idle thread: it blocks without being entered anywhere.\<close>

lemma idle_block_sys_inv:
  assumes inv: "sys_inv k" and c: "cur k = idle_thread k" and f: "frames k (cur k) = FIdleLoop # fs"
    and k': "idle_loop (pop_frame k) = Some k'"
  shows "sys_inv k'"
proof -
  let ?k1 = "push_frame FIdleHlt ((pop_frame k)\<lparr>intr_on := False\<rparr>)"
  let ?k2 = "upd_thread (cur k) (status_update (\<lambda>_. THREAD_BLOCKED)) ?k1"
  have i: "sched_inv k" "\<not> in_external_intr k" using sys_invD [OF inv] by simp_all
  have "thread_current ?k1 = Some (cur k)"
    using sched_inv_cur [OF i(1)] i(1)
    by (simp add: thread_current_def running_thread_def is_thread_def sched_inv_def)
  then have s: "schedule ?k2 = Some k'"
    using k' i(2) by (simp add: idle_loop_def intr_disable_def thread_block_def intr_context_def
        intr_get_level_def)
  have loc: "located ?k2 q = located k q" for q using f by (cases q) simp_all
  have "switch_inv ?k2"
    by (rule switch_inv_idle [OF i(1) c]) (use loc c in simp_all)
  then have kinv: "kinv k'" using schedule_inv [OF _ s] schedule_keeps [OF s] i(2) by (simp add: kinv_def)
  have fr: "frames k' = (frames k)(cur k := FIdleHlt # fs)" "idle_thread k' = idle_thread k"
    using schedule_keeps [OF s] f by simp_all
  have m: "made (frames k' c) = made (frames k c)" for c using fr f by simp
  have "\<forall>c. \<forall>t\<in>set (made (frames k' c)). frames k' t = []"
    unfolding m using inv f fr(1) by (auto simp: sys_inv_def)
  moreover have "\<forall>f\<in>set (frames k' (idle_thread k)). calm f \<or> f = FIdleLoop \<or> f = FIdleHlt"
    using inv f fr(1) c by (auto simp: sys_inv_def)
  moreover have "\<forall>c. c \<noteq> idle_thread k \<longrightarrow> (\<forall>f\<in>set (frames k' c). \<not> starts_idle f)"
    using inv fr(1) c by (auto simp: sys_inv_def)
  ultimately show ?thesis using kinv sys_invD(2) [OF inv] fr(2) by (simp add: sys_inv_def)
qed

lemma idle_hlt_sys_inv:
  assumes inv: "sys_inv k" and c: "cur k = idle_thread k" and f: "frames k (cur k) = FIdleHlt # fs"
    and k': "idle_hlt (pop_frame k) = Some k'"
  shows "sys_inv k'"
proof -
  have e: "k' = push_frame FIdleLoop ((pop_frame k)\<lparr>intr_on := True\<rparr>)" using k' by (simp add: idle_hlt_def)
  have i: "base_ok k" "located_ok k (cur k)" using sys_invD(3) [OF inv] by (simp_all add: sched_inv_def)
  have loc: "located k' q = located k q" for q using f e by (cases q) simp_all
  have "located_ok k' (cur k)" using i(2) located_ok_cong [of k' k "cur k"] loc e by simp
  moreover have pr: "prio k' = prio k" by (intro ext) (simp add: e prio_def)
  moreover have "base_ok k'" using i(1) c pr by (simp add: base_ok_def is_thread_def e)
  ultimately have kinv: "kinv k'" using sys_invD [OF inv] e by (simp add: kinv_def sched_inv_def)
  have fr: "frames k' = (frames k)(cur k := FIdleLoop # fs)" "idle_thread k' = idle_thread k"
    using e f by simp_all
  have m: "made (frames k' c) = made (frames k c)" for c using fr f by simp
  have "\<forall>c. \<forall>t\<in>set (made (frames k' c)). frames k' t = []"
    unfolding m using inv f fr(1) by (auto simp: sys_inv_def)
  moreover have "\<forall>f\<in>set (frames k' (idle_thread k)). calm f \<or> f = FIdleLoop \<or> f = FIdleHlt"
    using inv f fr(1) c by (auto simp: sys_inv_def)
  moreover have "\<forall>c. c \<noteq> idle_thread k \<longrightarrow> (\<forall>f\<in>set (frames k' c). \<not> starts_idle f)"
    using inv fr(1) c by (auto simp: sys_inv_def)
  ultimately show ?thesis using kinv sys_invD(2) [OF inv] fr(2) by (simp add: sys_inv_def)
qed


subsection \<open>Thread creation\<close>

lemma init_thread_result:
  assumes inv: "kinv k" and fr: "fresh_page t k" and e: "init_thread t nm p k = Some k1"
  shows "cur k1 = cur k" "all_list k1 = all_list k @ [t]" "idle_thread k1 = idle_thread k"
    "frames k1 = frames k" "in_external_intr k1 = in_external_intr k" "located k1 q = located k q"
    "\<And>x. x \<noteq> t \<Longrightarrow> status (thr k1 x) = status (thr k x) \<and> magic (thr k1 x) = magic (thr k x) \<and>
       prio k1 x = prio k x"
    "status (thr k1 t) = THREAD_BLOCKED" "magic (thr k1 t) = THREAD_MAGIC" "prio k1 t = p"
    "nice (thr k1 t) = nice (thr k (cur k))" "recent_cpu (thr k1 t) = recent_cpu (thr k (cur k))"
    "PRI_MIN \<le> p" "p \<le> PRI_MAX" "t \<noteq> cur k"
proof -
  have tc: "t \<noteq> cur k" using inv fr by (auto simp: fresh_page_def kinv_def sched_inv_def)
  have "\<not> in_external_intr k" using inv by (simp add: kinv_def)
  then have k1: "cur k1 = cur k \<and> all_list k1 = all_list k @ [t] \<and> idle_thread k1 = idle_thread k \<and>
    frames k1 = frames k \<and> in_external_intr k1 = in_external_intr k \<and> ready_list k1 = ready_list k \<and>
    blocked_list k1 = blocked_list k \<and>
    semas k1 = (semas k)(t + 100 := \<lparr>sval = 0, waiters = []\<rparr>, t + 120 := \<lparr>sval = 0, waiters = []\<rparr>,
      t + 140 := \<lparr>sval = 0, waiters = []\<rparr>) \<and>
    (\<forall>x. x \<noteq> t \<longrightarrow> status (thr k1 x) = status (thr k x) \<and> magic (thr k1 x) = magic (thr k x) \<and>
       priority (thr k1 x) = priority (thr k x)) \<and>
    status (thr k1 t) = THREAD_BLOCKED \<and> magic (thr k1 t) = THREAD_MAGIC \<and> priority (thr k1 t) = p \<and>
    nice (thr k1 t) = nice (thr k (cur k)) \<and> recent_cpu (thr k1 t) = recent_cpu (thr k (cur k)) \<and>
    PRI_MIN \<le> p \<and> p \<le> PRI_MAX"
    using e tc
    by (auto simp: init_thread_def intr_disable_def intr_set_level_def intr_enable_def intr_context_def
        intr_get_level_def sema_init_def running_thread_def Let_def monad_simps split: if_splits)
  then show "cur k1 = cur k" "all_list k1 = all_list k @ [t]" "idle_thread k1 = idle_thread k"
    "frames k1 = frames k" "in_external_intr k1 = in_external_intr k"
    "\<And>x. x \<noteq> t \<Longrightarrow> status (thr k1 x) = status (thr k x) \<and> magic (thr k1 x) = magic (thr k x) \<and>
       prio k1 x = prio k x"
    "status (thr k1 t) = THREAD_BLOCKED" "magic (thr k1 t) = THREAD_MAGIC" "prio k1 t = p"
    "nice (thr k1 t) = nice (thr k (cur k))" "recent_cpu (thr k1 t) = recent_cpu (thr k (cur k))"
    "PRI_MIN \<le> p" "p \<le> PRI_MAX" by (simp_all add: prio_def)
  show "located k1 q = located k q"
    using k1 fr by (cases q) (auto simp: fresh_page_def)
  show "t \<noteq> cur k" by (rule tc)
qed


lemma create_enters_kinv:
  assumes inv: "kinv k" and c: "cur k \<noteq> idle_thread k" and fr: "fresh_page t k"
    and e: "init_thread t nm p k = Some k1"
  shows "kinv (push_frame (FTid t p fn) k1)"
proof -
  let ?k2 = "push_frame (FTid t p fn) k1"
  note r = init_thread_result [OF inv fr e]
  have i: "base_ok k" "located_ok k (cur k)" "cur k \<in> set (all_list k)"
    "status (thr k (cur k)) = THREAD_RUNNING" using inv by (simp_all add: kinv_def sched_inv_def)
  have t: "t \<noteq> NULL" "t \<notin> set (all_list k)" "frames k t = []" using fr by (simp_all add: fresh_page_def)
  have loc: "located ?k2 q = (if q = PMade (cur k) then t # located k q else located k q)" for q
    using r(1,4) r(6) [of q] by (cases q) simp_all
  have nt: "t \<notin> set (located k q)" for q using located_inD [OF i(2), of t q] t(2) by auto
  have idt: "idle_thread k \<noteq> t" using i(1) t by (auto simp: base_ok_def)
  have "located_ok ?k2 (cur k)"
    unfolding located_ok_def
  proof (intro conjI allI ballI impI)
    fix q
    have "distinct (located k q)" using i(2) unfolding located_ok_def by blast
    then show "distinct (located ?k2 q)" using nt [of q] by (cases "q = PMade (cur k)") (simp_all add: loc del: located.simps)
  next
    fix q x assume "x \<in> set (located ?k2 q)"
    then have "x = t \<and> q = PMade (cur k) \<or> x \<noteq> t \<and> x \<in> set (located k q)"
      using nt by (auto simp: loc split: if_splits)
    then show "x \<in> set (all_list ?k2)" "x \<noteq> cur k" "x \<noteq> idle_thread ?k2" "status (thr ?k2 x) = place_status q"
      using located_inD [OF i(2), of x q] r idt by auto
  next
    fix q q' x assume "x \<in> set (located ?k2 q)" "x \<in> set (located ?k2 q')"
    then show "q = q'" using i(2) nt unfolding located_ok_def
      by (auto simp: loc split: if_splits)
  next
    fix x assume x: "x \<in> set (all_list ?k2)" "x \<noteq> cur k" "x \<noteq> idle_thread ?k2"
    show "\<exists>q. x \<in> set (located ?k2 q)"
    proof (cases "x = t")
      case True then show ?thesis using loc [of "PMade (cur k)"] by (intro exI [of _ "PMade (cur k)"]) simp
    next
      case False
      then obtain q where "x \<in> set (located k q)" using x i(2) r(2,3) unfolding located_ok_def by auto
      then show ?thesis using loc [of q] by (intro exI [of _ q]) (auto simp del: located.simps)
    qed
  qed
  moreover have "base_ok ?k2"
  proof -
    have rd: "ready_list ?k2 = ready_list k" using r(6) [of PReady] by simp
    have "x \<noteq> t" if "x \<in> set (ready_list k)" for x using nt [of PReady] that by auto
    then have "map (\<lambda>x. - prio ?k2 x) (ready_list k) = map (\<lambda>x. - prio k x) (ready_list k)"
      using r(7) by simp
    then have so: "sorted (map (\<lambda>x. - prio ?k2 x) (ready_list ?k2))"
      unfolding rd using i(1) by (simp only: base_ok_def)
    have "is_thread ?k2 x" if "x \<in> set (all_list ?k2)" for x
      using that i(1) r(2,7,9) t(1) by (cases "x = t") (auto simp: base_ok_def is_thread_def)
    then show ?thesis using i(1) so r(1-4) t c by (auto simp: base_ok_def)
  qed
  ultimately show ?thesis using i r inv by (auto simp: kinv_def sched_inv_def)
qed

lemma create_enters:
  assumes inv: "sys_inv k" and c: "cur k \<noteq> idle_thread k" and fr: "fresh_page t k"
    and e: "init_thread t nm p k = Some k1"
  shows "sys_inv (push_frame (FTid t p Client) k1)"
proof -
  let ?k2 = "push_frame (FTid t p Client) k1"
  note r = init_thread_result [OF sys_invD(1) [OF inv] fr e]
  have i: "located_ok k (cur k)" using sys_invD(3) [OF inv] by (simp add: sched_inv_def)
  have t: "frames k t = []" using fr by (simp add: fresh_page_def)
  have ki: "kinv ?k2" using create_enters_kinv [OF sys_invD(1) [OF inv] c fr e] .
  have m: "made (frames ?k2 x) = (if x = cur k then t # made (frames k x) else made (frames k x))" for x
    using r(1,4) by simp
  have nm: "cur k \<notin> set (made (frames k x))" for x
    using located_inD [OF i, of "cur k" "PMade x"] by auto
  have "\<forall>x. \<forall>y\<in>set (made (frames ?k2 x)). frames ?k2 y = []"
  proof (intro allI ballI)
    fix x y assume "y \<in> set (made (frames ?k2 x))"
    then have "y = t \<or> y \<in> set (made (frames k x))" using m [of x] by (auto split: if_splits)
    then show "frames ?k2 y = []" using inv r(1,4,15) t nm [of x] by (auto simp: sys_inv_def)
  qed
  moreover have "\<forall>f\<in>set (frames ?k2 (idle_thread k)). calm f \<or> f = FIdleLoop \<or> f = FIdleHlt"
    using inv r(1,4) c by (auto simp: sys_inv_def)
  moreover have "\<forall>x. x \<noteq> idle_thread k \<longrightarrow> (\<forall>f\<in>set (frames ?k2 x). \<not> starts_idle f)"
    using inv r(1,4) by (auto simp: sys_inv_def)
  ultimately show ?thesis using ki r(3) sys_invD(2) [OF inv] by (simp add: sys_inv_def)
qed

text \<open>One creating frame is replaced by the next.\<close>

lemma create_goes_on_kinv:
  assumes inv: "kinv k" and c: "cur k \<noteq> idle_thread k" and f: "frames k (cur k) = f # fs"
    "creates f' = creates f"
    and k2: "k2 = push_frame f' ((pop_frame k)\<lparr>next_tid := n\<rparr>)"
  shows "kinv k2"
proof -
  have fr: "frames k2 = (frames k)(cur k := f' # fs)" using f by (simp add: k2)
  have loc: "located k2 q = located k q" for q using f fr by (cases q) (simp_all add: k2)
  have "sched_inv k2"
    by (rule sched_inv_cur_upd [of k]) (use inv loc fr c in \<open>simp_all add: k2 kinv_def\<close>)
  then show ?thesis using inv by (simp add: kinv_def k2)
qed

lemma create_goes_on:
  assumes inv: "sys_inv k" and c: "cur k \<noteq> idle_thread k" and f: "frames k (cur k) = f # fs"
    "creates f' = creates f" "\<not> starts_idle f'"
    and k2: "k2 = push_frame f' ((pop_frame k)\<lparr>next_tid := n\<rparr>)"
  shows "sys_inv k2"
proof -
  have fr: "frames k2 = (frames k)(cur k := f' # fs)" using f by (simp add: k2)
  have m: "made (frames k2 x) = made (frames k x)" for x using f fr by simp
  have [simp]: "cur k2 = cur k" "all_list k2 = all_list k" "idle_thread k2 = idle_thread k"
    by (simp_all add: k2)
  have "kinv k2" using create_goes_on_kinv [OF sys_invD(1) [OF inv] c f(1,2) k2] .
  moreover have "cur k \<notin> set (made (frames k x))" for x
    using located_inD [of k "cur k" "cur k" "PMade x"] sys_invD(3) [OF inv] by (auto simp: sched_inv_def)
  then have "\<forall>x. \<forall>y\<in>set (made (frames k2 x)). frames k2 y = []"
    unfolding m using inv fr by (auto simp: sys_inv_def)
  moreover have "\<forall>f\<in>set (frames k2 (idle_thread k)). calm f \<or> f = FIdleLoop \<or> f = FIdleHlt"
    using inv fr c by (auto simp: sys_inv_def)
  moreover have "\<forall>x. x \<noteq> idle_thread k \<longrightarrow> (\<forall>f\<in>set (frames k2 x). \<not> starts_idle f)"
    using inv f fr c by (auto simp: sys_inv_def)
  ultimately show ?thesis using sys_invD(2) [OF inv] by (simp add: sys_inv_def)
qed


lemma sched_inv_cong:
  assumes "sched_inv k" "all_list k' = all_list k" "idle_thread k' = idle_thread k" "cur k' = cur k"
    "\<And>p. located k' p = located k p"
    "\<And>t. status (thr k' t) = status (thr k t) \<and> magic (thr k' t) = magic (thr k t) \<and> prio k' t = prio k t"
    "set (frames k (idle_thread k)) \<subseteq> set (frames k' (idle_thread k))"
  shows "sched_inv k'"
proof -
  have i: "base_ok k" "located_ok k (cur k)" using assms(1) by (simp_all add: sched_inv_def)
  have r: "ready_list k' = ready_list k" using assms(5) [of PReady] by simp
  have "base_ok k'" using assms(6,7) by (intro base_ok_cong [OF assms(2,3) r _ _ _ i(1)]) blast+
  moreover have "located_ok k' (cur k)" using i(2) located_ok_cong [of k' k "cur k"] assms by simp
  ultimately show ?thesis using assms by (simp add: sched_inv_def)
qed

lemma alloc_frame_eq:
  "is_thread k t \<Longrightarrow> sz mod 4 = 0 \<Longrightarrow>
     alloc_frame t sz k = Some (stack (thr k t) - sz, upd_thread t (stack_update (\<lambda>sp. sp - sz)) k)"
  by (simp add: alloc_frame_def Let_def)

text \<open>The state in which the new thread is made ready, seen before the creating frame is popped.\<close>

lemma create_done_kinv:
  assumes inv: "kinv k" and c: "cur k \<noteq> idle_thread k" and f: "frames k (cur k) = FCreateTail t n p fn # fs"
    and ft: "frames k t = []"
    and k1: "k1 = (upd_thread t (tid_update (\<lambda>_. n) \<circ> stack_update g) (pop_frame k))
      \<lparr>frames := (frames (pop_frame k))(t := [FKernelThread fn])\<rparr>"
  shows "\<exists>k2. thread_unblock t k1 = Some k2 \<and> kinv k2 \<and>
    k2 = upd_thread t (status_update (\<lambda>_. THREAD_READY))
      (k1\<lparr>ready_list := insert_ordered (list_compare_priority k1) t (ready_list k)\<rparr>)"
proof -
  have d: "sched_inv k" "\<not> in_external_intr k" using inv by (simp_all add: kinv_def)
  have tm: "t \<in> set (located k (PMade (cur k)))" using f by simp
  then have t: "t \<noteq> cur k" "t \<noteq> idle_thread k" "frames k t = []"
    using located_inD [of k "cur k" t "PMade (cur k)"] d(1) ft by (auto simp: sched_inv_def)
  let ?A = "(upd_thread t (tid_update (\<lambda>_. n) \<circ> stack_update g) k)\<lparr>frames := (frames k)(t := [FKernelThread fn])\<rparr>"
  have locA: "located ?A q = located k q" for q using t(3) by (cases q) simp_all
  have iA: "sched_inv ?A"
    by (rule sched_inv_cong [OF d(1)]) (use locA t in \<open>simp_all add: prio_def\<close>)
  have dm: "distinct (t # made fs)" using d(1) f unfolding sched_inv_def located_ok_def
    by (metis located.simps(4) made.simps(2) creates.simps(2) option.simps(5))
  have loc1: "located k1 q = (if q = PMade (cur k) then made fs else located ?A q)" for q
    using t f by (cases q) (simp_all add: k1)
  have "\<exists>k'. thread_unblock t k1 = Some k' \<and> sched_inv k' \<and>
    k' = upd_thread t (status_update (\<lambda>_. THREAD_READY))
      (k1\<lparr>ready_list := insert_ordered (list_compare_priority ?A) t (ready_list ?A)\<rparr>)"
  proof (rule thread_unblock_move [OF iA, where p = "PMade (cur k)"])
    show "t \<in> set (located ?A (PMade (cur k)))" using tm unfolding locA .
    show "thr k1 = thr ?A" by (simp add: k1)
    show "intr_on k1 \<longrightarrow> \<not> in_external_intr k1" using d(2) by (simp add: k1)
    show "located k1 q = located ?A q" if "q \<noteq> PMade (cur k)" for q using that loc1 by simp
    show "distinct (located k1 (PMade (cur k)))" "set (located k1 (PMade (cur k))) =
      set (located ?A (PMade (cur k))) - {t}" using loc1 [of "PMade (cur k)"] dm f t by auto
  qed (use c t in \<open>simp_all add: k1\<close>)
  moreover have "list_compare_priority ?A = list_compare_priority k1"
    by (intro ext) (simp add: list_compare_priority_def prio_def k1)
  ultimately show ?thesis using d(2) by (auto simp: kinv_def k1)
qed

lemma create_done:
  assumes inv: "sys_inv k" and c: "cur k \<noteq> idle_thread k" and f: "frames k (cur k) = FCreateTail t n p Client # fs"
    and k1: "k1 = (upd_thread t (tid_update (\<lambda>_. n) \<circ> stack_update g) (pop_frame k))
      \<lparr>frames := (frames (pop_frame k))(t := [FKernelThread Client])\<rparr>"
  shows "\<exists>k2. thread_unblock t k1 = Some k2 \<and> sys_inv k2 \<and> cur k2 = cur k \<and> frames k2 = frames k1 \<and>
    t \<in> set (ready_list k2) \<and> prio k2 (cur k) = prio k (cur k)"
proof -
  note d = sys_invD [OF inv]
  have tm: "t \<in> set (located k (PMade (cur k)))" using f by simp
  then have t: "t \<noteq> cur k" "t \<noteq> idle_thread k" "frames k t = []"
    using located_inD [of k "cur k" t "PMade (cur k)"] d(3) inv by (auto simp: sched_inv_def sys_inv_def)
  obtain k2 where k2: "thread_unblock t k1 = Some k2" "kinv k2"
    and e: "k2 = upd_thread t (status_update (\<lambda>_. THREAD_READY))
      (k1\<lparr>ready_list := insert_ordered (list_compare_priority k1) t (ready_list k)\<rparr>)"
    using create_done_kinv [OF d(1) c f t(3) k1] by blast
  have dm: "distinct (t # made fs)" using d(3) f unfolding sched_inv_def located_ok_def
    by (metis located.simps(4) made.simps(2) creates.simps(2) option.simps(5))
  have fr: "frames k2 = (frames k)(cur k := fs, t := [FKernelThread Client])" using f e by (simp add: k1)
  have m: "made (frames k2 x) = (if x = cur k then made fs else made (frames k x))" for x
    using fr t(1,3) by simp
  have nt: "t \<notin> set (made (frames k2 x))" for x
  proof (cases "x = cur k")
    case False
    then have "t \<notin> set (located k (PMade x))" using tm d(3) unfolding sched_inv_def located_ok_def by blast
    then show ?thesis using m False by simp
  qed (use m dm in simp)
  have "\<forall>x. \<forall>y\<in>set (made (frames k2 x)). frames k2 y = []"
  proof (intro allI ballI)
    fix x y assume y: "y \<in> set (made (frames k2 x))"
    then have "y \<in> set (made (frames k x))" using m [of x] f by (auto split: if_splits)
    moreover have "cur k \<notin> set (made (frames k x))"
      using located_inD [of k "cur k" "cur k" "PMade x"] d(3) by (auto simp: sched_inv_def)
    ultimately show "frames k2 y = []" using inv y nt [of x] fr by (auto simp: sys_inv_def)
  qed
  moreover note k2(2)
  moreover have "\<forall>f\<in>set (frames k2 (idle_thread k)). calm f \<or> f = FIdleLoop \<or> f = FIdleHlt"
    using inv fr c t by (auto simp: sys_inv_def)
  moreover have "\<forall>x. x \<noteq> idle_thread k \<longrightarrow> (\<forall>f\<in>set (frames k2 x). \<not> starts_idle f)"
    using inv f fr c by (auto simp: sys_inv_def)
  ultimately have "sys_inv k2" using d(2) k2(2) by (simp add: sys_inv_def e k1)
  moreover have "frames k2 = frames k1" "cur k2 = cur k" "t \<in> set (ready_list k2)" "prio k2 (cur k) = prio k (cur k)"
    using t(1) by (simp_all add: e k1 prio_def)
  ultimately show ?thesis using k2(1) by blast
qed


lemma thread_create_tail_run:
  assumes t: "is_thread k t" and k1: "k1 = (upd_thread t (tid_update (\<lambda>_. n) \<circ> stack_update (\<lambda>sp. sp - 12 - 4 - 28)) (pop_frame k))
      \<lparr>frames := (frames (pop_frame k))(t := [FKernelThread fn])\<rparr>"
    and k2: "thread_unblock t k1 = Some k2" "kinv k2"
  shows "thread_create_tail t n p fn (pop_frame k) =
    (if prio k2 (cur k2) < p then thread_yield (k2\<lparr>retval := (retval k2)(cur k2 := n)\<rparr>)
     else Some (k2\<lparr>retval := (retval k2)(cur k2 := n)\<rparr>))"
proof -
  have it: "is_thread (upd_thread t h (pop_frame k)) t" if "\<And>x. magic (h x) = magic x" for h
    using that t by (simp add: is_thread_def)
  have cmp: "upd_thread t a (upd_thread t b k) = upd_thread t (a \<circ> b) k" for a b k
    by (simp add: upd_thread_def)
  have upd: "stack_update (\<lambda>sp. sp - 28) \<circ> (stack_update (\<lambda>sp. sp - 4) \<circ> (stack_update (\<lambda>sp. sp - 12) \<circ>
      tid_update (\<lambda>_. n))) = tid_update (\<lambda>_. n) \<circ> stack_update (\<lambda>sp :: u32. sp - 12 - 4 - 28)"
    by (simp add: fun_eq_iff)
  have "thread_create_tail t n p fn (pop_frame k) = do {
     k \<leftarrow> thread_unblock t k1;
     c \<leftarrow> thread_current k;
     let k = k\<lparr>retval := (retval k)(c := n)\<rparr>;
     if prio k c < p then thread_yield k else Some k }"
    unfolding thread_create_tail_def Let_def k1 upd [symmetric]
    by (simp add: alloc_frame_eq cmp it comp_def)
  then show ?thesis using k2 kinv_current [OF k2(2)] by (simp add: prio_def)
qed

lemma thread_create_tail_eq:
  assumes inv: "sys_inv k" and c: "cur k \<noteq> idle_thread k" and f: "frames k (cur k) = FCreateTail t n p Client # fs"
  shows "\<exists>k2. sys_inv k2 \<and> cur k2 = cur k \<and> t \<in> set (ready_list k2) \<and> prio k2 (cur k) = prio k (cur k) \<and>
    thread_create_tail t n p Client (pop_frame k) =
      (if prio k (cur k) < p then thread_yield (k2\<lparr>retval := (retval k2)(cur k := n)\<rparr>)
       else Some (k2\<lparr>retval := (retval k2)(cur k := n)\<rparr>))"
proof -
  let ?g = "\<lambda>sp :: u32. sp - 12 - 4 - 28"
  let ?k1 = "(upd_thread t (tid_update (\<lambda>_. n) \<circ> stack_update ?g) (pop_frame k))
      \<lparr>frames := (frames (pop_frame k))(t := [FKernelThread Client])\<rparr>"
  obtain k2 where k2: "thread_unblock t ?k1 = Some k2" "sys_inv k2" "cur k2 = cur k"
    "t \<in> set (ready_list k2)" "prio k2 (cur k) = prio k (cur k)"
    using create_done [OF inv c f, of ?k1 ?g] by blast
  have "is_thread k t"
    using located_inD [of k "cur k" t "PMade (cur k)"] sys_invD(3) [OF inv] f
    by (auto simp: sched_inv_def base_ok_def)
  from thread_create_tail_run [OF this refl k2(1) sys_invD(1) [OF k2(2)]] show ?thesis using k2 by auto
qed

lemma sys_inv_retval [simp]: "sys_inv (k\<lparr>retval := r\<rparr>) = sys_inv k"
  by (simp add: sys_inv_def)

lemma yield_sys_inv: "sys_inv k \<Longrightarrow> thread_yield k = Some k' \<Longrightarrow> sys_inv k'"
  using sys_inv_pushed [of k k' calm] thread_yield_kinv [of k k'] thread_yield_pushed [of k k'] calm_plain
  by (auto dest: sys_invD(1))

lemma resume_sys_inv:
  assumes inv: "sys_inv k" and pg: "pg = NULL \<or> fresh_page pg k" and k': "resume pg k = Some k'"
  shows "sys_inv k'"
proof -
  obtain f fs where f: "frames k (cur k) = f # fs" and r: "run_frame f pg (pop_frame k) = Some k'"
    using k' by (auto simp: resume_def pop_frame_def split: list.splits)
  have fi: "cur k = idle_thread k \<Longrightarrow> calm f \<or> f = FIdleLoop \<or> f = FIdleHlt"
    and fn: "cur k \<noteq> idle_thread k \<Longrightarrow> \<not> starts_idle f"
    using inv f by (auto simp: sys_inv_def)
  have pop: "sys_inv (pop_frame k)" if "creates f = None" "cur k = idle_thread k \<Longrightarrow> calm f"
    using pop_sys_inv [OF inv f] that by blast
  have cl: "sys_inv k'" if "creates f = None" "cur k \<noteq> idle_thread k" "kinv k'" "pushed plain (pop_frame k) k'"
    using client_sys_inv [OF pop _ that(3,4)] that by simp
  have kp: "kinv (pop_frame k)" if "creates f = None" "cur k \<noteq> idle_thread k"
    using sys_invD(1) [OF pop] that by blast
  show ?thesis
  proof (cases f)
    case (FSetLevel l)
    have "sys_inv (pop_frame k)" using pop FSetLevel by simp
    moreover have "k' = (pop_frame k)\<lparr>intr_on := l\<rparr>"
      using r FSetLevel kinv_level [OF sys_invD(1) [OF calculation]] by simp
    ultimately show ?thesis by (simp add: sys_inv_def)
  next
    case FIret
    then have "sys_inv (pop_frame k)" "k' = (pop_frame k)\<lparr>intr_on := True\<rparr>" using pop r by simp_all
    then show ?thesis by (simp add: sys_inv_def)
  next
    case (FSemaLoop s l)
    then have c: "cur k \<noteq> idle_thread k" and e: "sema_down_loop s l (pop_frame k) = Some k'"
      using fi r by auto
    then show ?thesis using FSemaLoop sema_down_loop_inv [OF kp _ e] sema_down_loop_pushed [OF e]
      by (intro cl) auto
  next
    case (FSemaDown s)
    then show ?thesis using fi r kp sema_down_inv [of "pop_frame k" s k'] sema_down_pushed
      by (intro cl) auto
  next
    case (FSemaUp s)
    then show ?thesis using fi r kp sema_up_inv [of "pop_frame k" s k'] sema_up_pushed [of "pop_frame k" s k'] calm_plain
      by (intro cl) (auto intro: pushed_mono)
  next
    case (FSetHolder l)
    then show ?thesis using fi r kp set_holder_inv [of "pop_frame k" l k'] set_holder_pushed by (intro cl) auto
  next
    case (FLockAcquire l)
    then show ?thesis using fi r kp lock_acquire_inv [of "pop_frame k" l k'] lock_acquire_pushed
      by (intro cl) auto
  next
    case (FLockRelease l)
    then show ?thesis using fi r kp lock_release_inv [of "pop_frame k" l k'] lock_release_pushed
      by (intro cl) auto
  next
    case (FCondBroadcast c l)
    then show ?thesis using fi r kp cond_broadcast_loop_inv [of "pop_frame k" c l k']
        cond_broadcast_loop_pushed [of "pop_frame k" c l k']
      by (intro cl) auto
  next
    case (FInitThread nm p fu)
    then have c: "cur k \<noteq> idle_thread k" and [simp]: "fu = Client" using fi fn by auto
    have i: "sys_inv (pop_frame k)" using pop FInitThread c by simp
    have e: "thread_create_init pg nm p Client (pop_frame k) = Some k'" using r FInitThread by simp
    show ?thesis
    proof (cases "pg = NULL")
      case True then show ?thesis using e i by (auto simp: thread_create_init_def)
    next
      case False
      then have fr: "fresh_page pg (pop_frame k)"
        using pg sys_invD(5) [OF inv] by (auto simp: fresh_page_def)
      obtain k1 where k1: "init_thread pg nm p (pop_frame k) = Some k1"
        and l: "lock_acquire TID_LOCK (push_frame (FTid pg p Client) k1) = Some k'"
        using e False by (auto simp: thread_create_init_def elim: bind_SomeE)
      note i1 = create_enters [OF i _ fr k1] and q = init_thread_result [OF sys_invD(1) [OF i] fr k1]
      show ?thesis
        by (rule client_sys_inv [OF i1 _ lock_acquire_inv [OF sys_invD(1) [OF i1] _ l] lock_acquire_pushed [OF l]])
          (use c q in simp_all)
    qed
  next
    case (FTid t p fu)
    then have c: "cur k \<noteq> idle_thread k" and [simp]: "fu = Client" using fi fn by auto
    let ?k1 = "push_frame (FCreateTail t (next_tid k) p Client) ((pop_frame k)\<lparr>next_tid := s32 (next_tid k + 1)\<rparr>)"
    have i1: "sys_inv ?k1" by (rule create_goes_on [OF inv c f]) (simp_all add: FTid)
    have l: "lock_release TID_LOCK ?k1 = Some k'" using r FTid by (simp add: allocate_tid_tail_def Let_def)
    show ?thesis
      by (rule client_sys_inv [OF i1 _ lock_release_inv [OF sys_invD(1) [OF i1] l] lock_release_pushed [OF l]])
        (use c in simp)
  next
    case (FCreateTail t n p fu)
    then have c: "cur k \<noteq> idle_thread k" and [simp]: "fu = Client" using fi fn by auto
    obtain k2 where "sys_inv k2" and "thread_create_tail t n p Client (pop_frame k) =
      (if prio k (cur k) < p then thread_yield (k2\<lparr>retval := (retval k2)(cur k := n)\<rparr>)
       else Some (k2\<lparr>retval := (retval k2)(cur k := n)\<rparr>))"
      using thread_create_tail_eq [OF inv c, of t n p fs] f FCreateTail by auto
    then show ?thesis using yield_sys_inv [of "k2\<lparr>retval := (retval k2)(cur k := n)\<rparr>" k'] r FCreateTail
      by (auto split: if_splits)
  next
    case (FKernelThread fu)
    then have c: "cur k \<noteq> idle_thread k" and "fu = Client" using fi fn by auto
    then have "k' = (pop_frame k)\<lparr>intr_on := True\<rparr>" "sys_inv (pop_frame k)" using r pop FKernelThread
      by (auto simp: kernel_thread_def intr_enable_def monad_simps split: if_splits)
    then show ?thesis by (simp add: sys_inv_def)
  next
    case FIntrEnable
    then have c: "cur k \<noteq> idle_thread k" using fi by auto
    then have "k' = (pop_frame k)\<lparr>intr_on := True\<rparr>" "sys_inv (pop_frame k)" using r pop FIntrEnable
      by (auto simp: intr_enable_def monad_simps split: if_splits)
    then show ?thesis by (simp add: sys_inv_def)
  next
    case FIdleLoop
    then show ?thesis using fn idle_block_sys_inv [OF inv _ f [unfolded FIdleLoop]] r by auto
  next
    case FIdleHlt
    then show ?thesis using fn idle_hlt_sys_inv [OF inv _ f [unfolded FIdleHlt]] r by auto
  qed
qed


lemma step_sys_inv: "step k k' \<Longrightarrow> sys_inv k \<Longrightarrow> sys_inv k'"
  by (induction rule: step.induct) (auto intro: tick_sys_inv resume_sys_inv call_sys_inv)


section \<open>Properties\<close>


lemma demo_sys_inv: "sys_inv demo_kernel"
  using demo_kernel_inv by (simp add: sys_inv_def kinv_def demo_kernel_def)

text \<open>
  C3 (\<^verbatim>\<open>sema_up\<close>).  In a thread, \<^verbatim>\<open>sema_up\<close> does not panic: the value has grown by one,
  the first waiter has left the queue of the semaphore, and the thread that runs next has at least
  the priority of every ready thread, so that a woken thread of higher priority runs at once.
\<close>

theorem sema_up_wakes:
  assumes "sys_inv k" and "s \<noteq> NULL"
  shows "\<exists>k'. sema_up s k = Some k' \<and> sys_inv k' \<and> sval (semas k' s) = sval (semas k s) + 1 \<and>
    waiters (semas k' s) = tl (waiters (semas k s)) \<and>
    (\<forall>t\<in>set (ready_list k'). prio k' t \<le> prio k' (cur k'))"
proof -
  note i = sys_invD [OF assms(1)]
  obtain k1 where k1: "sema_up s k = thread_yield k1" "kinv k1" "semas k1 =
    (semas k)(s := \<lparr>sval = sval (semas k s) + 1, waiters = tl (waiters (semas k s))\<rparr>)"
    using sema_up_eq [OF i(1) assms(2)] by blast
  then have k1i: "sched_inv k1" "\<not> in_external_intr k1" by (simp_all add: kinv_def)
  obtain k' where k': "thread_yield k1 = Some k'" using thread_yield_ok [OF k1i] by blast
  then have up: "sema_up s k = Some k'" using k1(1) by simp
  have "sys_inv k'"
    using sys_inv_pushed [OF assms(1) sema_up_inv [OF i(1) up] sema_up_pushed [OF i(1) up]] calm_plain by blast
  moreover have "\<forall>t\<in>set (ready_list k'). prio k' t \<le> prio k' (cur k')"
    using chosen_max [OF yielding_switch [OF k1i(1)]] k' thread_yield_eq [OF k1i] by simp
  moreover have "semas k' = semas k1" using thread_yield_keeps [OF k1i k'] by simp
  ultimately show ?thesis using up k1(3) by simp
qed

theorem sema_up_wakes_witness:
  "\<exists>k'. sema_up 0x5000 demo_kernel = Some k' \<and> sys_inv k' \<and>
    sval (semas k' 0x5000) = sval (semas demo_kernel 0x5000) + 1 \<and>
    waiters (semas k' 0x5000) = tl (waiters (semas demo_kernel 0x5000)) \<and>
    (\<forall>t\<in>set (ready_list k'). prio k' t \<le> prio k' (cur k'))"
  by (rule sema_up_wakes [OF demo_sys_inv]) simp

text \<open>
  C37 (\<^verbatim>\<open>sema_up\<close> in an interrupt handler).  The comment of \<^verbatim>\<open>sema_up\<close> says that it
  may be called from an interrupt handler; without \<^verbatim>\<open>USERPROG\<close> it ends in
  \<^verbatim>\<open>thread_yield\<close>, whose assertion fails there: the kernel panics in every state.
\<close>

theorem sema_up_in_handler:
  assumes "in_external_intr k"
  shows "sema_up s k = None"
proof (rule ccontr)
  assume "sema_up s k \<noteq> None"
  then obtain k' where k': "sema_up s k = Some k'" by auto
  have unb: "in_external_intr k2 = in_external_intr k1" if "thread_unblock t k1 = Some k2" for t k1 k2
    using that
    by (auto simp: thread_unblock_def intr_disable_def intr_set_level_def intr_enable_def monad_simps Let_def
        split: if_splits)
  have lev: "in_external_intr k2 = in_external_intr k1" if "intr_set_level l k1 = Some (b, k2)" for l b k1 k2
    using that by (auto simp: intr_set_level_def intr_enable_def intr_disable_def monad_simps split: if_splits)
  have "\<exists>k3. in_external_intr k3 \<and> thread_yield k3 = Some k'"
    using k' assms
    by (auto simp: sema_up_def intr_disable_def monad_simps Let_def split: if_splits list.splits
        dest!: unb lev)
  then show False by (auto simp: thread_yield_def intr_context_def monad_simps split: if_splits)
qed

theorem sema_up_in_handler_witness: "sema_up 0x5000 demo_irq = None"
  by (rule sema_up_in_handler) (simp add: demo_irq_def)






end
