(* ===== verification/Boot.thy ===== *)
theory Boot
  imports Kernel
begin

text \<open>
  The start of the kernel, from power on to the running system.

  \<open>boot\<close> is the part of \<^verbatim>\<open>main\<close> in \<^verbatim>\<open>src/threads/init.c\<close> that concerns threads:
  \<^verbatim>\<open>thread_init\<close>, the initialisation of the lock of the kernel page pool by
  \<^verbatim>\<open>palloc_init\<close>, and \<^verbatim>\<open>thread_start\<close> up to its first switching point.  The start
  goes on with steps of the transition system, in three phases, each with an invariant: the first
  thread creates the idle thread with interrupts off (\<open>creating\<close>); interrupts are on, and the first
  thread waits until the idle thread has run (\<open>starting\<close>); the idle thread has entered itself in
  \<^verbatim>\<open>idle_thread\<close>, and from then on \<open>sys_inv\<close> of theory \<open>Kernel\<close> holds.
\<close>

section \<open>Definitions\<close>

definition boot :: "addr \<Rightarrow> kernel \<Rightarrow> kernel option" where
  "boot started k = do {
     k \<leftarrow> thread_init k;
     k \<leftarrow> lock_init POOL_LOCK k;
     thread_start started k
   }"

text \<open>The machine before \<^verbatim>\<open>thread_init\<close>: some stack is in use, no thread exists.\<close>

definition power_on :: "kernel \<Rightarrow> bool" where
  "power_on k \<longleftrightarrow> cur k \<noteq> NULL \<and> idle_thread k = NULL \<and> \<not> in_external_intr k \<and>
     (\<forall>t. frames k t = []) \<and> (\<forall>s. waiters (semas k s) = [])"

section \<open>One thread alone\<close>

text \<open>Before the idle thread runs, the first thread is the only one that can be scheduled.\<close>

definition alone :: "kernel \<Rightarrow> bool" where
  "alone k \<longleftrightarrow> kinv k \<and> idle_thread k = NULL \<and> ready_list k = [] \<and> \<not> intr_on k \<and>
     set (all_list k) \<subseteq> insert (cur k) (set (made (frames k (cur k)))) \<and>
     (\<forall>c. c \<noteq> cur k \<longrightarrow> frames k c = [])"

lemma aloneD:
  assumes "alone k"
  shows "kinv k" "sched_inv k" "\<not> in_external_intr k" "idle_thread k = NULL" "ready_list k = []" "\<not> intr_on k"
    "cur k \<noteq> NULL" "cur k \<noteq> idle_thread k" "waiters (semas k s) = []"
proof -
  show i: "kinv k" "sched_inv k" "\<not> in_external_intr k" "idle_thread k = NULL" "ready_list k = []" "\<not> intr_on k"
    using assms by (simp_all add: alone_def kinv_def)
  show "cur k \<noteq> NULL" "cur k \<noteq> idle_thread k" using sched_inv_cur [OF i(2)] i(4) by (simp_all add: is_thread_def)
  have l: "located_ok k (cur k)" using i(2) by (simp add: sched_inv_def)
  have "t \<notin> set (waiters (semas k s))" for t
  proof
    assume t: "t \<in> set (waiters (semas k s))"
    then have "t \<in> set (all_list k)" "t \<noteq> cur k" using located_inD [OF l, of t "PWait s"] by simp_all
    then have "t \<in> set (located k (PMade (cur k)))" using assms by (auto simp: alone_def)
    moreover have "t \<in> set (located k (PWait s))" using t by simp
    ultimately show False using l unfolding located_ok_def by blast
  qed
  then show "waiters (semas k s) = []" by (cases "waiters (semas k s)") auto
qed

lemma alone_sema_down:
  assumes a: "alone k" and k': "sema_down s k = Some k'"
  shows "sval (semas k s) \<noteq> 0" "k' = upd_sema s (sval_update (\<lambda>v. v - 1)) k"
proof -
  note i = aloneD [OF a]
  have r: "k\<lparr>intr_on := False\<rparr> = k" using i(6) by (cases k) simp
  have l: "sema_down_loop s False k = Some k'"
    using k' i(6) r by (auto simp: sema_down_def intr_disable_def intr_get_level_def Let_def monad_simps split: if_splits)
  show nz: "sval (semas k s) \<noteq> 0"
  proof
    assume "sval (semas k s) = 0"
    then obtain k2 where "schedule k2 = Some k'" "ready_list k2 = []" "idle_thread k2 = NULL"
      using sema_down_loop_wait [OF i(1,6,8), of s False] l i(4,5) by auto
    then show False
      by (auto simp: schedule_def next_thread_to_run_def is_thread_def monad_simps Let_def split: if_splits)
  qed
  have "k' = (upd_sema s (sval_update (\<lambda>v. v - 1)) k)\<lparr>intr_on := False\<rparr>"
    using sema_down_loop_take [OF i(1) nz, of False] l by simp
  moreover have "(upd_sema s (sval_update (\<lambda>v. v - 1)) k)\<lparr>intr_on := False\<rparr> = upd_sema s (sval_update (\<lambda>v. v - 1)) k"
    using i(6) by (cases k) (simp add: upd_sema_def)
  ultimately show "k' = upd_sema s (sval_update (\<lambda>v. v - 1)) k" by simp
qed

lemma alone_push: "alone k \<Longrightarrow> creates f = None \<Longrightarrow> alone (push_frame f k)"
  by (auto simp: alone_def kinv_push)

lemma alone_pop:
  assumes "alone k" "frames k (cur k) = f # fs" "creates f = None" shows "alone (pop_frame k)"
  using assms aloneD(8) [OF assms(1)] pop_kinv [of k f fs] by (auto simp: alone_def)

lemma alone_upd_sema: "alone k \<Longrightarrow> waiters (f (semas k s)) = waiters (semas k s) \<Longrightarrow> alone (upd_sema s f k)"
  by (simp add: alone_def kinv_upd_sema)

lemma alone_simps [simp]:
  "alone (k\<lparr>holder := g\<rparr>) = alone k" "alone (k\<lparr>retval := r\<rparr>) = alone k" "alone (k\<lparr>next_tid := n\<rparr>) = alone k"
  by (simp_all add: alone_def)

lemma alone_lock_acquire:
  assumes a: "alone k" and k': "lock_acquire l k = Some k'"
  shows "k' = upd_sema (lock_sema l) (sval_update (\<lambda>v. v - 1)) (push_frame (FSetHolder l) k)" "alone k'"
proof -
  have "alone (push_frame (FSetHolder l) k)" using alone_push [OF a] by simp
  then show "k' = upd_sema (lock_sema l) (sval_update (\<lambda>v. v - 1)) (push_frame (FSetHolder l) k)"
    using alone_sema_down(2) [of "push_frame (FSetHolder l) k" "lock_sema l" k'] k'
    by (auto simp: lock_acquire_def monad_simps split: if_splits)
  then show "alone k'" using \<open>alone (push_frame (FSetHolder l) k)\<close> by (simp add: alone_upd_sema)
qed

lemma alone_sema_up:
  assumes a: "alone k" and k': "sema_up s k = Some k'"
  shows "alone k'" "cur k' = cur k" "frames k' = (frames k)(cur k := FSetLevel False # frames k (cur k))"
    "x \<noteq> s \<Longrightarrow> semas k' x = semas k x"
proof -
  note i = aloneD [OF a]
  have s: "s \<noteq> NULL" using k' by (auto simp: sema_up_def monad_simps split: if_splits)
  obtain k1 where k1: "sema_up s k = thread_yield k1" "kinv k1" "cur k1 = cur k"
    "semas k1 = (semas k)(s := \<lparr>sval = sval (semas k s) + 1, waiters = []\<rparr>)"
    "frames k1 = frames k" "idle_thread k1 = NULL" "all_list k1 = all_list k" "\<not> intr_on k1" "ready_list k1 = []"
    using sema_up_eq [OF i(1) s] i(4-6) i(9) [of s] by auto
  have y: "thread_yield k1 = Some k'" "sched_inv k1" "\<not> in_external_intr k1" using k' k1 by (auto simp: kinv_def)
  have sc: "schedule (yielding k1) = Some k'" using y thread_yield_eq by simp
  note kp = schedule_keeps [OF sc]
  have c: "cur k' = cur k" "ready_list k' = []" using kp k1 i(7)
    by (auto simp: chosen_def insert_ordered_def)
  show "cur k' = cur k" by (rule c(1))
  show fr: "frames k' = (frames k)(cur k := FSetLevel False # frames k (cur k))" using kp k1 by simp
  show "x \<noteq> s \<Longrightarrow> semas k' x = semas k x" using kp k1 by simp
  have "kinv k'" using sema_up_inv [OF i(1) k'] .
  then show "alone k'" using a c kp k1 fr by (simp add: alone_def)
qed

section \<open>The phases of the start\<close>

text \<open>The frames of the first thread while it creates the idle thread: a creating frame, and above
  it the rest of the lock operation that is under way.\<close>

fun lock_frame :: "addr \<Rightarrow> frame \<Rightarrow> bool" where
  "lock_frame s (FSetLevel l) = (\<not> l)"
| "lock_frame s (FSemaUp x) = (x \<noteq> s)"
| "lock_frame s (FSetHolder l) = True"
| "lock_frame s (FLockRelease l) = (lock_sema l \<noteq> s)"
| "lock_frame s _ = False"

fun idle_frame :: "addr \<Rightarrow> frame \<Rightarrow> bool" where
  "idle_frame s (FInitThread nm p fn) = (fn = Idle s)"
| "idle_frame s (FTid t p fn) = (fn = Idle s)"
| "idle_frame s (FCreateTail t n p fn) = (fn = Idle s)"
| "idle_frame s _ = False"

definition creating :: "addr \<Rightarrow> kernel \<Rightarrow> bool" where
  "creating s k \<longleftrightarrow> alone k \<and> sval (semas k s) = 0 \<and>
     (\<exists>ps g. frames k (cur k) = ps @ [g, FIntrEnable, FSemaDown s] \<and> (\<forall>f\<in>set ps. lock_frame s f) \<and>
        idle_frame s g)"

text \<open>The frames of the first thread afterwards, until the idle thread has run.\<close>

fun wait_frame :: "addr \<Rightarrow> frame \<Rightarrow> bool" where
  "wait_frame s (FSetLevel l) = True"
| "wait_frame s FIret = True"
| "wait_frame s FIntrEnable = True"
| "wait_frame s (FSemaDown x) = (x = s)"
| "wait_frame s (FSemaLoop x l) = (x = s)"
| "wait_frame s _ = False"

fun waits :: "frame \<Rightarrow> bool" where
  "waits (FSemaDown x) = True"
| "waits (FSemaLoop x l) = True"
| "waits _ = False"

definition starting :: "addr \<Rightarrow> kernel \<Rightarrow> bool" where
  "starting s k \<longleftrightarrow> kinv k \<and> idle_thread k = NULL \<and> sval (semas k s) = 0 \<and>
     (\<exists>m i. m \<noteq> i \<and> set (all_list k) \<subseteq> {m, i} \<and> (\<forall>c. c \<noteq> m \<longrightarrow> c \<noteq> i \<longrightarrow> frames k c = []) \<and>
        (frames k i = [] \<or> frames k i = [FKernelThread (Idle s)]) \<and> (i \<in> set (all_list k) \<longrightarrow> frames k i \<noteq> []) \<and>
        (cur k = i \<longrightarrow> \<not> intr_on k) \<and>
        frames k m \<noteq> [] \<and> waits (last (frames k m)) \<and> (\<forall>f\<in>set (frames k m). wait_frame s f))"

lemma startingI:
  assumes "kinv k" "idle_thread k = NULL" "sval (semas k s) = 0" "m \<noteq> i" "set (all_list k) \<subseteq> {m, i}"
    "\<And>c. c \<noteq> m \<Longrightarrow> c \<noteq> i \<Longrightarrow> frames k c = []" "frames k i = [] \<or> frames k i = [FKernelThread (Idle s)]"
    "i \<in> set (all_list k) \<Longrightarrow> frames k i \<noteq> []" "cur k = i \<Longrightarrow> \<not> intr_on k"
    "frames k m \<noteq> []" "waits (last (frames k m))" "\<forall>f\<in>set (frames k m). wait_frame s f"
  shows "starting s k"
  unfolding starting_def using assms by blast

text \<open>No page was left for the idle thread.\<close>

lemma not_created:
  assumes "alone k" "sval (semas k s) = 0" "frames k (cur k) = [FIntrEnable, FSemaDown s]"
  shows "starting s k"
  by (rule startingI [where m = "cur k" and i = "cur k + 1"]) (use assms in \<open>auto simp: alone_def\<close>)

text \<open>The end of \<^verbatim>\<open>thread_create\<close> for the idle thread.\<close>

lemma idle_created:
  assumes a: "alone k" and s: "sval (semas k s) = 0"
    and f: "frames k (cur k) = [FCreateTail t n p (Idle s), FIntrEnable, FSemaDown s]"
    and k': "thread_create_tail t n p (Idle s) (pop_frame k) = Some k'"
  shows "starting s k'"
proof -
  note i = aloneD [OF a]
  let ?fs = "[FIntrEnable, FSemaDown s]"
  have l: "t \<in> set (all_list k)" "t \<noteq> cur k"
    using located_inD [of k "cur k" t "PMade (cur k)"] i(2) f by (auto simp: sched_inv_def)
  have ft: "frames k t = []" using a l by (simp add: alone_def)
  have al: "set (all_list k) \<subseteq> {cur k, t}" using a f by (simp add: alone_def)
  have it: "is_thread k t" using l i(2) by (simp add: sched_inv_def base_ok_def)
  define k1 where "k1 = (upd_thread t (tid_update (\<lambda>_. n) \<circ> stack_update (\<lambda>sp. sp - 12 - 4 - 28)) (pop_frame k))
      \<lparr>frames := (frames (pop_frame k))(t := [FKernelThread (Idle s)])\<rparr>"
  obtain k2 where k2: "thread_unblock t k1 = Some k2" "kinv k2"
    "k2 = upd_thread t (status_update (\<lambda>_. THREAD_READY))
      (k1\<lparr>ready_list := insert_ordered (list_compare_priority k1) t (ready_list k)\<rparr>)"
    using create_done_kinv [OF i(1,8) f ft k1_def] by blast
  have s2: "cur k2 = cur k" "frames k2 = (frames k)(cur k := ?fs, t := [FKernelThread (Idle s)])"
    "idle_thread k2 = NULL" "all_list k2 = all_list k" "semas k2 = semas k" "\<not> intr_on k2" "\<not> in_external_intr k2"
    using k2(3) f i by (simp_all add: k1_def)
  define k3 where "k3 = k2\<lparr>retval := (retval k2)(cur k2 := n)\<rparr>"
  have k3: "kinv k3" using k2(2) by (simp add: k3_def)
  have e: "(if prio k2 (cur k2) < p then thread_yield k3 else Some k3) = Some k'"
    using thread_create_tail_run [OF it k1_def k2(1,2)] k' by (simp add: k3_def split: if_splits)
  show ?thesis
  proof (cases "prio k2 (cur k2) < p")
    case True
    then have y: "thread_yield k3 = Some k'" using e by simp
    note kp = thread_yield_keeps [OF _ _ y]
    have "schedule (yielding k3) = Some k'" using y thread_yield_eq k3 by (simp add: kinv_def)
    then have off: "\<not> intr_on k'" using schedule_keeps by blast
    have k: "frames k' = (frames k3)(cur k := FSetLevel (intr_on k3) # frames k3 (cur k))"
      "semas k' = semas k" "all_list k' = all_list k" "idle_thread k' = NULL" "kinv k'"
      using kp k3 s2 thread_yield_kinv [OF k3 y] by (auto simp: kinv_def k3_def)
    show ?thesis
      by (rule startingI [where m = "cur k" and i = t])
        (use k s a al l ft off s2 in \<open>auto simp: k3_def alone_def\<close>)
  next
    case False
    then have "k' = k3" using e by simp
    then show ?thesis
      by (intro startingI [where m = "cur k" and i = t])
        (use k3 s a al l ft s2 in \<open>auto simp: k3_def alone_def\<close>)
  qed
qed


lemma creatingI: "alone k \<Longrightarrow> sval (semas k s) = 0 \<Longrightarrow> frames k (cur k) = ps @ [g, FIntrEnable, FSemaDown s] \<Longrightarrow>
    \<forall>f\<in>set ps. lock_frame s f \<Longrightarrow> idle_frame s g \<Longrightarrow> creating s k"
  unfolding creating_def by blast

lemma lock_frame_run:
  assumes a: "alone k" and s: "sval (semas k s) = 0"
    and f: "frames k (cur k) = f # ps @ [g, FIntrEnable, FSemaDown s]" "lock_frame s f" "\<forall>f\<in>set ps. lock_frame s f"
    and g: "idle_frame s g" and k': "run_frame f pg (pop_frame k) = Some k'"
  shows "creating s k'"
proof -
  have cr: "creates f = None" using f(2) by (cases f) simp_all
  note p = alone_pop [OF a f(1) cr]
  have fr: "frames (pop_frame k) (cur (pop_frame k)) = ps @ [g, FIntrEnable, FSemaDown s]" using f(1) by simp
  have sp: "sval (semas (pop_frame k) s) = 0" using s by simp
  show ?thesis
  proof (cases f)
    case (FSetLevel l)
    then have "k' = (pop_frame k)\<lparr>intr_on := False\<rparr>" using k' f(2) by (auto simp: intr_set_level_def intr_disable_def)
    moreover have "(pop_frame k)\<lparr>intr_on := False\<rparr> = pop_frame k" using aloneD(6) [OF p] by (cases "pop_frame k") simp
    ultimately show ?thesis using creatingI [OF p sp fr f(3) g] by simp
  next
    case (FSemaUp x)
    then have u: "sema_up x (pop_frame k) = Some k'" "s \<noteq> x" using k' f(2) by auto
    note q = alone_sema_up [OF p u(1)]
    show ?thesis
      by (rule creatingI [OF q(1), of _ "FSetLevel False # ps" g]) (use q(2,3) q(4) [OF u(2)] fr sp f(3) g in simp_all)
  next
    case (FSetHolder l)
    then have "k' = (pop_frame k)\<lparr>holder := (holder (pop_frame k))(l := cur k)\<rparr>"
      using k' kinv_current [OF aloneD(1) [OF p]] by (auto simp: set_holder_def)
    then show ?thesis using creatingI [of k' s ps g] p sp fr f(3) g by simp
  next
    case (FLockRelease l)
    then have e: "k' = push_frame (FSemaUp (lock_sema l)) ((pop_frame k)\<lparr>holder := (holder (pop_frame k))(l := NULL)\<rparr>)"
      "lock_sema l \<noteq> s" using k' f(2) by (auto simp: lock_release_def monad_simps split: if_splits)
    have "alone k'" unfolding e(1) by (rule alone_push) (use p in simp_all)
    then show ?thesis
      by (rule creatingI [of _ _ "FSemaUp (lock_sema l) # ps" g]) (use e fr sp f(3) g in simp_all)
  qed (use f(2) in simp_all)
qed

lemma init_thread_semas:
  assumes "kinv k" "init_thread t nm p k = Some k1"
  shows "ready_list k1 = ready_list k" "intr_on k1 = intr_on k" "sval (semas k s) = 0 \<Longrightarrow> sval (semas k1 s) = 0"
proof -
  have "\<not> in_external_intr k" using assms(1) by (simp add: kinv_def)
  then have "ready_list k1 = ready_list k \<and> intr_on k1 = intr_on k \<and> (sval (semas k s) = 0 \<longrightarrow> sval (semas k1 s) = 0)"
    using assms(2)
    by (auto simp: init_thread_def intr_disable_def intr_set_level_def intr_enable_def intr_context_def
        intr_get_level_def sema_init_def running_thread_def Let_def monad_simps split: if_splits)
  then show "ready_list k1 = ready_list k" "intr_on k1 = intr_on k" "sval (semas k s) = 0 \<Longrightarrow> sval (semas k1 s) = 0"
    by auto
qed

lemma idle_enters:
  assumes a: "alone k" and s: "sval (semas k s) = 0" "lock_sema TID_LOCK \<noteq> s"
    and f: "frames k (cur k) = [FIntrEnable, FSemaDown s]" and pg: "fresh_page t k"
    and k1: "init_thread t nm p k = Some k1"
    and k': "lock_acquire TID_LOCK (push_frame (FTid t p (Idle s)) k1) = Some k'"
  shows "creating s k'"
proof -
  note i = aloneD [OF a]
  let ?k2 = "push_frame (FTid t p (Idle s)) k1"
  note r = init_thread_result [OF i(1) pg k1] and r2 = init_thread_semas [OF i(1) k1]
  have a2: "alone ?k2"
    using create_enters_kinv [OF i(1,8) pg k1, of "Idle s"] a r(1-4) r2(1,2) i(4-6) f by (auto simp: alone_def)
  note l = alone_lock_acquire [OF a2 k']
  show ?thesis
    by (rule creatingI [OF l(2), of _ "[FSetHolder TID_LOCK]" "FTid t p (Idle s)"])
      (use l(1) r(1,4) r2(3) s f in simp_all)
qed

lemma idle_frame_run:
  assumes a: "alone k" and s: "sval (semas k s) = 0" "lock_sema TID_LOCK \<noteq> s"
    and f: "frames k (cur k) = [g, FIntrEnable, FSemaDown s]" "idle_frame s g"
    and pg: "pg = NULL \<or> fresh_page pg k" and k': "run_frame g pg (pop_frame k) = Some k'"
  shows "creating s k' \<or> starting s k'"
proof (cases g)
  case (FInitThread nm p fn)
  then have fn: "fn = Idle s" using f(2) by simp
  have p: "alone (pop_frame k)" using alone_pop [OF a f(1)] FInitThread by simp
  have fr: "frames (pop_frame k) (cur (pop_frame k)) = [FIntrEnable, FSemaDown s]" using f(1) by simp
  have e: "thread_create_init pg nm p (Idle s) (pop_frame k) = Some k'" using k' FInitThread fn by simp
  show ?thesis
  proof (cases "pg = NULL")
    case True
    then have "k' = (pop_frame k)\<lparr>retval := (retval (pop_frame k))(cur (pop_frame k) := TID_ERROR)\<rparr>"
      using e by (simp add: thread_create_init_def)
    then show ?thesis using not_created [of k' s] p fr s by simp
  next
    case False
    have "pg \<noteq> cur k" using pg False aloneD(2) [OF a] by (auto simp: fresh_page_def sched_inv_def)
    then have pf: "fresh_page pg (pop_frame k)" using pg False by (simp add: fresh_page_def)
    obtain k1 where k1: "init_thread pg nm p (pop_frame k) = Some k1"
      "lock_acquire TID_LOCK (push_frame (FTid pg p (Idle s)) k1) = Some k'"
      using e False by (auto simp: thread_create_init_def elim: bind_SomeE)
    have "sval (semas (pop_frame k) s) = 0" using s(1) by simp
    from idle_enters [OF p this s(2) fr pf k1] show ?thesis ..
  qed
next
  case (FTid t p fn)
  let ?k1 = "push_frame (FCreateTail t (next_tid k) p (Idle s)) ((pop_frame k)\<lparr>next_tid := s32 (next_tid k + 1)\<rparr>)"
  have fn: "fn = Idle s" using f(2) FTid by simp
  have "kinv ?k1" by (rule create_goes_on_kinv [OF aloneD(1,8) [OF a] f(1)]) (simp_all add: FTid)
  then have a1: "alone ?k1" using a f(1) FTid by (auto simp: alone_def)
  have "k' = push_frame (FSemaUp (lock_sema TID_LOCK)) (?k1\<lparr>holder := (holder ?k1)(TID_LOCK := NULL)\<rparr>)"
    using k' FTid fn by (auto simp: allocate_tid_tail_def lock_release_def Let_def monad_simps split: if_splits)
  moreover from this have "alone k'" using alone_push [of "?k1\<lparr>holder := (holder ?k1)(TID_LOCK := NULL)\<rparr>"] a1 by simp
  ultimately have "creating s k'"
    by (intro creatingI [of _ _ "[FSemaUp (lock_sema TID_LOCK)]" "FCreateTail t (next_tid k) p (Idle s)"])
      (use s f in simp_all)
  then show ?thesis ..
next
  case (FCreateTail t n p fn)
  then show ?thesis using idle_created [OF a s(1), of t n p k'] f k' by simp
qed (use f(2) in simp_all)

lemma creating_step:
  assumes c: "creating s k" and s: "lock_sema TID_LOCK \<noteq> s" and st: "step k k'"
  shows "creating s k' \<or> starting s k'"
proof -
  obtain ps g where a: "alone k" "sval (semas k s) = 0"
    and f: "frames k (cur k) = ps @ [g, FIntrEnable, FSemaDown s]" "\<forall>f\<in>set ps. lock_frame s f" "idle_frame s g"
    using c unfolding creating_def by blast
  from st show ?thesis
  proof cases
    case step_tick then show ?thesis using aloneD(6) [OF a(1)] by simp
  next
    case step_call then show ?thesis using f(1) by simp
  next
    case (step_resume pg)
    show ?thesis
    proof (cases ps)
      case Nil
      then have fr: "frames k (cur k) = [g, FIntrEnable, FSemaDown s]" using f(1) by simp
      then have "run_frame g pg (pop_frame k) = Some k'" using step_resume(2) by (simp add: resume_def pop_frame_def)
      from idle_frame_run [OF a s fr f(3) step_resume(1) this] show ?thesis .
    next
      case (Cons h ps')
      then have fr: "frames k (cur k) = h # ps' @ [g, FIntrEnable, FSemaDown s]" using f(1) by simp
      then have "run_frame h pg (pop_frame k) = Some k'" using step_resume(2) by (simp add: resume_def pop_frame_def)
      from lock_frame_run [OF a fr _ _ f(3) this] show ?thesis using f(2) Cons by simp
    qed
  qed
qed

section \<open>Waiting for the idle thread\<close>

lemma timer_irq_keeps:
  assumes inv: "kinv k" and k': "timer_irq k = Some k'"
  shows "semas k' = semas k" "cur k' = cur k \<or> \<not> intr_on k'"
proof -
  let ?k0 = "(push_frame FIret k)\<lparr>intr_on := False, in_external_intr := True, yield_on_return := False\<rparr>"
  obtain k1 where k1: "timer_interrupt ?k0 = Some k1"
    and y: "(if yield_on_return k1 then thread_yield (k1\<lparr>in_external_intr := False\<rparr>)
      else Some (k1\<lparr>in_external_intr := False\<rparr>)) = Some k'"
    using k' by (auto simp: timer_irq_def intr_handler_external_def Let_def monad_simps split: if_splits)
  have i0: "sched_inv (?k0\<lparr>ticks := ticks ?k0 + 1\<rparr>)"
    using inv sched_inv_push [of k FIret] by (simp add: kinv_def)
  then have t: "sched_inv k1" "same_sync (?k0\<lparr>ticks := ticks ?k0 + 1\<rparr>) k1"
    using thread_tick_inv [of "?k0\<lparr>ticks := ticks ?k0 + 1\<rparr>" k1] k1 by (simp_all add: timer_interrupt_def)
  then have s: "semas k1 = semas k" "cur k1 = cur k" by (simp_all add: same_sync_def)
  let ?k2 = "k1\<lparr>in_external_intr := False\<rparr>"
  have i2: "sched_inv ?k2" "\<not> in_external_intr ?k2" using t(1) by simp_all
  show "semas k' = semas k" "cur k' = cur k \<or> \<not> intr_on k'"
    using y s thread_yield_keeps [OF i2, of k'] thread_yield_eq [OF i2] schedule_keeps [of "yielding ?k2" k']
    by (auto split: if_splits)
qed

lemma sema_down_loop_stays:
  assumes inv: "kinv k" and c: "cur k \<noteq> idle_thread k" and z: "sval (semas k s) = 0"
    and k': "sema_down_loop s l k = Some k'"
  shows "kinv k'" "sval (semas k' s) = 0" "frames k' = (frames k)(cur k := FSemaLoop s l # frames k (cur k))"
    "idle_thread k' = idle_thread k" "all_list k' = all_list k" "\<not> intr_on k'"
proof -
  have off: "\<not> intr_on k"
    using k' z by (auto simp: sema_down_loop_def thread_block_def intr_get_level_def Let_def monad_simps split: if_splits)
  obtain k2 where k2: "schedule k2 = Some k'"
    "semas k2 = (semas k)(s := waiters_update (insert_ordered (list_compare_priority k) (cur k)) (semas k s))"
    "frames k2 = (frames k)(cur k := FSemaLoop s l # frames k (cur k))" "idle_thread k2 = idle_thread k"
    "all_list k2 = all_list k"
    using sema_down_loop_wait [OF inv off c z, of l] k' by auto
  show "kinv k'" using sema_down_loop_inv [OF inv c k'] .
  show "sval (semas k' s) = 0" "frames k' = (frames k)(cur k := FSemaLoop s l # frames k (cur k))"
    "idle_thread k' = idle_thread k" "all_list k' = all_list k" "\<not> intr_on k'"
    using schedule_keeps [OF k2(1)] k2(2-5) z by simp_all
qed

text \<open>The idle thread takes its place and wakes the first thread up.\<close>

lemma idle_takes_over:
  assumes inv: "kinv k" "idle_thread k = NULL" and fr: "frames k (cur k) = [FKernelThread (Idle s)]"
    and o: "\<And>c f. c \<noteq> cur k \<Longrightarrow> f \<in> set (frames k c) \<Longrightarrow> wait_frame s f"
    and k': "kernel_thread (Idle s) (pop_frame k) = Some k'"
  shows "sys_inv k'"
proof -
  let ?k1 = "push_frame FIdleLoop ((pop_frame k)\<lparr>intr_on := True, idle_thread := cur k\<rparr>)"
  have i: "sched_inv k" "\<not> in_external_intr k" using inv by (simp_all add: kinv_def)
  have wf: "creates f = None \<and> \<not> starts_idle f" if "wait_frame s f" for f using that by (cases f) simp_all
  have m: "made (frames k c) = []" for c
    using o wf fr by (cases "c = cur k") (auto intro: made_plain)
  have m1: "made (frames ?k1 c) = []" for c using m fr by (cases "c = cur k") simp_all
  have loc: "located ?k1 p = located k p" for p using m m1 by (cases p) simp_all
  have pk: "prio ?k1 t = prio k t" for t by (simp add: prio_def pop_frame_def)
  have cn: "cur k \<noteq> NULL" using sched_inv_cur [OF i(1)] by (simp add: is_thread_def)
  have "NULL \<notin> set (all_list k)" using i(1) by (auto simp: sched_inv_def base_ok_def is_thread_def)
  then have "located_ok ?k1 (cur k)"
    using i(1) inv(2) unfolding sched_inv_def located_ok_def loc by (simp add: pop_frame_def) metis
  moreover have "base_ok ?k1"
    using i(1) unfolding sched_inv_def base_ok_def pk by (simp add: is_thread_def)
  ultimately have "kinv ?k1" using i by (simp add: kinv_def sched_inv_def)
  then have s1: "sys_inv ?k1" using m1 o wf fr cn by (auto simp: sys_inv_def)
  have "is_thread (pop_frame k) (cur k)" "status (thr k (cur k)) = THREAD_RUNNING"
    using sched_inv_cur [OF i(1)] i(1) by (simp_all add: is_thread_def sched_inv_def)
  then have u: "sema_up s ?k1 = Some k'"
    using k' i(2) by (simp add: kernel_thread_def idle_def intr_enable_def intr_context_def thread_current_def
        running_thread_def is_thread_def)
  show ?thesis
    by (rule sys_inv_pushed [OF s1 sema_up_inv [OF sys_invD(1) [OF s1] u] sema_up_pushed [OF sys_invD(1) [OF s1] u]])
      (auto simp: calm_plain)
qed

lemma starting_resume:
  assumes k: "kinv k" "idle_thread k = NULL" "sval (semas k s) = 0" "m \<noteq> i" "set (all_list k) \<subseteq> {m, i}"
    "\<And>c. c \<noteq> m \<Longrightarrow> c \<noteq> i \<Longrightarrow> frames k c = []" "frames k i = [] \<or> frames k i = [FKernelThread (Idle s)]"
    "i \<in> set (all_list k) \<Longrightarrow> frames k i \<noteq> []"
    and m: "cur k = m" "frames k m = f # fs" "waits (last (f # fs))" "\<forall>f\<in>set (f # fs). wait_frame s f"
    and r: "run_frame f pg (pop_frame k) = Some k'"
  shows "starting s k'"
proof -
  have cn: "cur k \<noteq> idle_thread k"
    using k(1,2) by (auto simp: kinv_def is_thread_def dest: sched_inv_cur)
  have cr: "creates f = None" using m(4) by (cases f) simp_all
  have p: "kinv (pop_frame k)" using pop_kinv [OF k(1) _ cr] m(1,2) cn by simp
  have fr: "frames (pop_frame k) = (frames k)(m := fs)" using m by simp
  have pops: "starting s k'" if "\<not> waits f" "k' = (pop_frame k)\<lparr>intr_on := b\<rparr>" for b
  proof -
    have "fs \<noteq> []" using that(1) m(3) by auto
    then show ?thesis
      by (intro startingI [where m = m and i = i]) (use that k m p fr in \<open>auto simp: kinv_def\<close>)
  qed
  have loops: "starting s k'" if "kinv k1" "frames k1 = (frames k)(m := fs)" "cur k1 = m" "idle_thread k1 = NULL"
    "sval (semas k1 s) = 0" "all_list k1 = all_list k" "sema_down_loop s l k1 = Some k'" for k1 l
  proof -
    have "cur k1 \<noteq> idle_thread k1" using that(3,4) cn k(2) m(1) by simp
    note q = sema_down_loop_stays [OF that(1) this that(5,7)]
    have "frames k' = (frames k)(m := FSemaLoop s l # fs)" using q(3) that(2,3) by simp
    then show ?thesis
      by (intro startingI [where m = m and i = i]) (use q that k m in \<open>auto split: if_splits\<close>)
  qed
  show ?thesis
  proof (cases f)
    case (FSetLevel l)
    then show ?thesis using r kinv_level [OF p, of l] by (intro pops [of l]) simp_all
  next
    case FIret
    then show ?thesis using r by (intro pops [of True]) simp_all
  next
    case FIntrEnable
    then show ?thesis using r by (intro pops [of True]) (auto simp: intr_enable_def monad_simps split: if_splits)
  next
    case (FSemaDown x)
    then have "sema_down_loop s (intr_on k) ((pop_frame k)\<lparr>intr_on := False\<rparr>) = Some k'"
      using r m(4) by (auto simp: sema_down_def intr_disable_def intr_get_level_def Let_def monad_simps split: if_splits)
    then show ?thesis using p fr m(1) k(2,3) by (intro loops) simp_all
  next
    case (FSemaLoop x l)
    then have "sema_down_loop s l (pop_frame k) = Some k'" using r m(4) by auto
    then show ?thesis using p fr m(1) k(2,3) by (intro loops) simp_all
  qed (use m(4) in simp_all)
qed

lemma starting_tick:
  assumes k: "kinv k" "idle_thread k = NULL" "sval (semas k s) = 0" "m \<noteq> i" "set (all_list k) \<subseteq> {m, i}"
    "\<And>c. c \<noteq> m \<Longrightarrow> c \<noteq> i \<Longrightarrow> frames k c = []" "frames k i = [] \<or> frames k i = [FKernelThread (Idle s)]"
    "i \<in> set (all_list k) \<Longrightarrow> frames k i \<noteq> []"
    and m: "cur k = m" "frames k m \<noteq> []" "waits (last (frames k m))" "\<forall>f\<in>set (frames k m). wait_frame s f"
    and k': "timer_irq k = Some k'"
  shows "starting s k'"
proof -
  obtain fs where fs: "frames k' = (frames k)(m := fs @ frames k m)" "\<forall>f\<in>set fs. calm f"
    and e: "idle_thread k' = NULL" "all_list k' = all_list k"
    using timer_irq_pushed [OF k(1) k'] k(2) m(1) by (auto simp: pushed_def)
  have w: "wait_frame s f" if "f \<in> set fs" for f using fs(2) that by (cases f) auto
  have "kinv k'" using timer_irq_inv [OF _ _ k'] k(1) by (simp add: kinv_def)
  then show ?thesis
    by (intro startingI [where m = m and i = i]) (use timer_irq_keeps [OF k(1) k'] k m e fs(1) w in auto)
qed

lemma starting_step:
  assumes c: "starting s k" and st: "step k k'"
  shows "starting s k' \<or> sys_inv k'"
proof -
  obtain m i where k: "kinv k" "idle_thread k = NULL" "sval (semas k s) = 0" "m \<noteq> i" "set (all_list k) \<subseteq> {m, i}"
    "\<And>c. c \<noteq> m \<Longrightarrow> c \<noteq> i \<Longrightarrow> frames k c = []" "frames k i = [] \<or> frames k i = [FKernelThread (Idle s)]"
    "i \<in> set (all_list k) \<Longrightarrow> frames k i \<noteq> []" and ci: "cur k = i \<Longrightarrow> \<not> intr_on k"
    and m: "frames k m \<noteq> []" "waits (last (frames k m))" "\<forall>f\<in>set (frames k m). wait_frame s f"
    using c unfolding starting_def by blast
  have ca: "cur k \<in> set (all_list k)" using k(1) by (simp add: kinv_def sched_inv_def)
  then have cu: "cur k = m \<or> cur k = i" using k(5) by auto
  from st show ?thesis
  proof cases
    case step_tick
    then have "cur k = m" using cu ci by auto
    from starting_tick [OF k this m step_tick(2)] show ?thesis ..
  next
    case step_call
    then show ?thesis using cu ca k(8) m(1) by auto
  next
    case (step_resume pg)
    show ?thesis
    proof (cases "cur k = m")
      case True
      obtain f fs where f: "frames k m = f # fs" using m(1) by (cases "frames k m") auto
      then have "run_frame f pg (pop_frame k) = Some k'" using step_resume(2) True by (simp add: resume_def pop_frame_def)
      from starting_resume [OF k True f _ _ this] show ?thesis using m f by simp
    next
      case False
      then have "cur k = i" using cu by simp
      then have f: "frames k (cur k) = [FKernelThread (Idle s)]" using k(7,8) ca by auto
      then have r: "kernel_thread (Idle s) (pop_frame k) = Some k'" using step_resume(2) by (simp add: resume_def pop_frame_def)
      have "wait_frame s f" if "c \<noteq> cur k" "f \<in> set (frames k c)" for c f
        using that k(6) [of c] m(3) \<open>cur k = i\<close> by (cases "c = m") auto
      then show ?thesis using idle_takes_over [OF k(1,2) f _ r] by blast
    qed
  qed
qed

section \<open>From power on\<close>

text \<open>A state with one thread, whose stack is empty.\<close>

definition single :: "kernel \<Rightarrow> bool" where
  "single k \<longleftrightarrow> alone k \<and> (\<forall>c. frames k c = [])"

lemma first_thread:
  assumes p: "power_on k" and off: "\<not> intr_on k" and k1: "lock_init TID_LOCK k = Some k1"
    and k2: "init_thread (cur k) ''main'' PRI_DEFAULT (k1\<lparr>ready_list := [], all_list := [], blocked_list := [],
       load_avg := 0, initial_thread := cur k\<rparr>) = Some k2"
  shows "single (upd_thread (cur k) (status_update (\<lambda>_. THREAD_RUNNING)) k2)" "cur k2 = cur k"
proof -
  let ?t = "cur k" and ?k3 = "upd_thread (cur k) (status_update (\<lambda>_. THREAD_RUNNING)) k2"
  have q1: "cur k1 = ?t \<and> idle_thread k1 = NULL \<and> \<not> in_external_intr k1 \<and> \<not> intr_on k1 \<and> (\<forall>s. waiters (semas k1 s) = []) \<and>
      (\<forall>c. frames k1 c = [])"
    using p off k1 by (auto simp: power_on_def lock_init_def sema_init_def monad_simps split: if_splits)
  have q2: "cur k2 = ?t \<and> idle_thread k2 = NULL \<and> \<not> in_external_intr k2 \<and> \<not> intr_on k2 \<and> (\<forall>s. waiters (semas k2 s) = []) \<and>
      (\<forall>c. frames k2 c = []) \<and> ready_list k2 = [] \<and> blocked_list k2 = [] \<and> all_list k2 = [?t] \<and>
      magic (thr k2 ?t) = THREAD_MAGIC"
    using k2 q1
    by (auto simp: init_thread_def intr_disable_def intr_set_level_def intr_enable_def intr_context_def
        intr_get_level_def sema_init_def running_thread_def Let_def monad_simps split: if_splits)
  have l: "located ?k3 x = []" for x using q2 by (cases x) simp_all
  have t: "?t \<noteq> NULL" using p by (simp add: power_on_def)
  have "located_ok ?k3 ?t" unfolding located_ok_def l using q2 by simp
  moreover have "base_ok ?k3" using q2 t by (simp add: base_ok_def is_thread_def)
  ultimately have "kinv ?k3" using q2 by (simp add: kinv_def sched_inv_def)
  then show "single ?k3" using q2 by (simp add: single_def alone_def)
  show "cur k2 = cur k" using q2 by simp
qed

lemma single_acquire:
  assumes "single k" "lock_acquire l k = Some k1" "resume pg k1 = Some k2"
  shows "single k2" "cur k2 = cur k"
proof -
  have a: "alone k" "\<And>c. frames k c = []" using assms(1) by (simp_all add: single_def)
  note l = alone_lock_acquire [OF a(1) assms(2)]
  have f: "frames k1 (cur k1) = [FSetHolder l]" "cur k1 = cur k" using l(1) a(2) by simp_all
  have p: "alone (pop_frame k1)" using alone_pop [OF l(2) f(1)] by simp
  have "k2 = (pop_frame k1)\<lparr>holder := (holder (pop_frame k1))(l := cur k)\<rparr>"
    using assms(3) f kinv_current [OF aloneD(1) [OF p]] by (auto simp: resume_def set_holder_def pop_frame_def)
  then show "single k2" "cur k2 = cur k" using p l(1) a(2) f by (simp_all add: single_def)
qed

lemma single_release:
  assumes "single k" "lock_release l k = Some k1" "resume NULL k1 = Some k2" "resume NULL k2 = Some k3"
  shows "single k3" "cur k3 = cur k"
proof -
  have a: "alone k" "\<And>c. frames k c = []" using assms(1) by (simp_all add: single_def)
  have e1: "k1 = push_frame (FSemaUp (lock_sema l)) (k\<lparr>holder := (holder k)(l := NULL)\<rparr>)"
    using assms(2) by (auto simp: lock_release_def monad_simps split: if_splits)
  then have a1: "alone k1" using alone_push [of "k\<lparr>holder := (holder k)(l := NULL)\<rparr>"] a(1) by simp
  have f1: "frames k1 (cur k1) = [FSemaUp (lock_sema l)]" "cur k1 = cur k" using e1 a(2) by simp_all
  have p1: "alone (pop_frame k1)" using alone_pop [OF a1 f1(1)] by simp
  have "sema_up (lock_sema l) (pop_frame k1) = Some k2" using assms(3) f1 by (simp add: resume_def pop_frame_def)
  note u = alone_sema_up [OF p1 this]
  have f2: "frames k2 (cur k2) = [FSetLevel False]" "cur k2 = cur k" using u(2,3) f1 by simp_all
  have p2: "alone (pop_frame k2)" using alone_pop [OF u(1) f2(1)] by simp
  have "k3 = (pop_frame k2)\<lparr>intr_on := False\<rparr>"
    using assms(4) f2 by (auto simp: resume_def pop_frame_def intr_set_level_def intr_disable_def)
  moreover have "(pop_frame k2)\<lparr>intr_on := False\<rparr> = pop_frame k2" using aloneD(6) [OF p2] by (cases "pop_frame k2") simp
  ultimately have e3: "k3 = pop_frame k2" by simp
  have "frames k2 c = []" if "c \<noteq> cur k" for c using u(3) that e1 a(2) f1(2) by simp
  then show "single k3" using p2 e3 f2 by (simp add: single_def)
  show "cur k3 = cur k" using e3 f2 by simp
qed

lemma single_upd_thread:
  assumes "single k" "\<And>x. magic (f x) = magic x" "\<And>x. status (f x) = status x"
  shows "single (upd_thread (cur k) f k)"
proof -
  have "sched_inv k" "\<not> in_external_intr k" using assms(1) by (simp_all add: single_def alone_def kinv_def)
  moreover from this(1) have "sched_inv (upd_thread (cur k) f k)"
    by (rule sched_inv_cur_upd) (use assms(2,3) in simp_all)
  ultimately show ?thesis using assms(1) by (auto simp: single_def alone_def kinv_def)
qed

lemma thread_init_single:
  assumes p: "power_on k" and k': "thread_init k = Some k'"
  shows "single k'"
proof -
  obtain k1 k2 k3 k4 k5 k6 k7 where off: "\<not> intr_on k"
    and k1: "lock_init TID_LOCK k = Some k1"
    and k2: "init_thread (cur k1) ''main'' PRI_DEFAULT (k1\<lparr>ready_list := [], all_list := [], blocked_list := [],
       load_avg := 0, initial_thread := cur k1\<rparr>) = Some k2"
    and k3: "lock_acquire TID_LOCK (upd_thread (cur k1) (status_update (\<lambda>_. THREAD_RUNNING)) k2) = Some k3"
    and k4: "resume NULL k3 = Some k4"
    and k5: "lock_release TID_LOCK (k4\<lparr>next_tid := s32 (next_tid k4 + 1)\<rparr>) = Some k5"
    and k6: "resume NULL k5 = Some k6" "resume NULL k6 = Some k7"
    and e: "k' = upd_thread (cur k1) (tid_update (\<lambda>_. next_tid k4) \<circ> nice_update (\<lambda>_. 0) \<circ> recent_cpu_update (\<lambda>_. 0)) k7"
    using k' by (auto simp: thread_init_def running_thread_def intr_get_level_def Let_def monad_simps split: if_splits)
  have c1: "cur k1 = cur k" using k1 by (auto simp: lock_init_def sema_init_def monad_simps split: if_splits)
  note s2 = first_thread [OF p off k1 k2 [unfolded c1]]
  note s4 = single_acquire [OF s2(1) k3 [unfolded c1] k4]
  have "single (k4\<lparr>next_tid := s32 (next_tid k4 + 1)\<rparr>)" using s4(1) by (simp add: single_def)
  note s7 = single_release [OF this k5 k6]
  have "cur k7 = cur k1" using s7(2) s4(2) s2(2) c1 by simp
  then show ?thesis using single_upd_thread [OF s7(1)] e by simp
qed

lemma boot_creating:
  assumes p: "power_on k" and s: "s \<noteq> lock_sema TID_LOCK" "s \<noteq> lock_sema POOL_LOCK" and k': "boot s k = Some k'"
  shows "creating s k'"
proof -
  obtain k1 k2 k3 where k1: "thread_init k = Some k1" and k2: "lock_init POOL_LOCK k1 = Some k2"
    and k3: "sema_init s 0 k2 = Some k3"
    and e: "thread_create ''idle'' PRI_MIN (Idle s) (push_frame FIntrEnable (push_frame (FSemaDown s) k3)) = Some k'"
    using k' by (auto simp: boot_def thread_start_def elim!: bind_SomeE)
  have s1: "single k1" by (rule thread_init_single [OF p k1])
  have w: "waiters (semas k1 x) = []" for x using s1 aloneD(9) by (simp add: single_def)
  have "k2 = upd_sema (lock_sema POOL_LOCK) (\<lambda>_. \<lparr>sval = 1, waiters = []\<rparr>) (k1\<lparr>holder := (holder k1)(POOL_LOCK := NULL)\<rparr>)"
    using k2 by (auto simp: lock_init_def sema_init_def monad_simps split: if_splits)
  then have s2: "single k2" "waiters (semas k2 x) = []" for x
    using s1 alone_upd_sema [of "k1\<lparr>holder := (holder k1)(POOL_LOCK := NULL)\<rparr>"] w by (auto simp: single_def)
  have e3: "k3 = upd_sema s (\<lambda>_. \<lparr>sval = 0, waiters = []\<rparr>) k2"
    using k3 by (auto simp: sema_init_def monad_simps split: if_splits)
  then have s3: "alone k3" "\<And>c. frames k3 c = []" "sval (semas k3 s) = 0" using s2 alone_upd_sema by (simp_all add: single_def)
  let ?k4 = "push_frame (FLockRelease POOL_LOCK) (push_frame (FInitThread ''idle'' PRI_MIN (Idle s))
    (push_frame FIntrEnable (push_frame (FSemaDown s) k3)))"
  have a4: "alone ?k4" using s3(1) by (intro alone_push) simp_all
  have l: "lock_acquire POOL_LOCK ?k4 = Some k'" using e by (simp add: thread_create_def)
  note r = alone_lock_acquire [OF a4 l]
  show ?thesis
    by (rule creatingI [OF r(2), of _ "[FSetHolder POOL_LOCK, FLockRelease POOL_LOCK]" "FInitThread ''idle'' PRI_MIN (Idle s)"])
      (use r(1) s3 s in simp_all)
qed

lemma boot_reachable:
  assumes "power_on k0" "s \<noteq> lock_sema TID_LOCK" "s \<noteq> lock_sema POOL_LOCK" "boot s k0 = Some k1" "reachable k1 k"
  shows "creating s k \<or> starting s k \<or> sys_inv k"
  using assms(5)
proof induction
  case reach_refl then show ?case using boot_creating [OF assms(1-4)] by blast
next
  case (reach_step k k')
  then show ?case using creating_step starting_step step_sys_inv assms(2) by metis
qed

lemma boot_kinv:
  assumes "power_on k0" "s \<noteq> lock_sema TID_LOCK" "s \<noteq> lock_sema POOL_LOCK" "boot s k0 = Some k1" "reachable k1 k"
  shows "kinv k"
  using boot_reachable [OF assms] by (auto simp: creating_def starting_def sys_inv_def dest: aloneD(1))

section \<open>Properties\<close>

text \<open>
  C1 (the scheduler as a whole).  The kernel is started: \<^verbatim>\<open>thread_init\<close>, the lock of the page
  pool, \<^verbatim>\<open>thread_start\<close>, on a machine where no thread exists yet.  In every state reached from
  there, by any sequence of timer interrupts, thread switches and calls of the threads, the idle
  thread not yet running or running: the current thread is marked as running, and no thread other
  than it and the idle thread is; a thread other than the idle thread is on the run queue exactly when
  it is ready; the run queue is ordered by priority and holds no thread twice; each blocked thread
  other than the idle thread waits in exactly one place, so that no thread is lost or queued twice;
  and the idle thread, which \<^verbatim>\<open>next_thread_to_run\<close> falls back on, is in none of these places.
\<close>

theorem reachable_scheduler:
  assumes "power_on k0" and "started \<noteq> lock_sema TID_LOCK" and "started \<noteq> lock_sema POOL_LOCK"
    and "boot started k0 = Some k1" and "reachable k1 k"
  shows "(\<forall>t\<in>set (all_list k). status (thr k t) = THREAD_RUNNING \<longrightarrow> t = cur k \<or> t = idle_thread k) \<and>
    status (thr k (cur k)) = THREAD_RUNNING \<and>
    (\<forall>t\<in>set (all_list k). t \<noteq> idle_thread k \<longrightarrow>
       (status (thr k t) = THREAD_READY \<longleftrightarrow> t \<in> set (ready_list k))) \<and>
    distinct (ready_list k) \<and> sorted (map (\<lambda>t. - prio k t) (ready_list k)) \<and>
    (\<forall>t\<in>set (all_list k). t \<noteq> idle_thread k \<longrightarrow> status (thr k t) = THREAD_BLOCKED \<longrightarrow>
       (\<exists>!p. t \<in> set (located k p))) \<and>
    (\<forall>p. idle_thread k \<notin> set (located k p))"
proof -
  have i: "base_ok k" "located_ok k (cur k)" "status (thr k (cur k)) = THREAD_RUNNING"
    using boot_kinv [OF assms] by (simp_all add: kinv_def sched_inv_def)
  have ex: "\<exists>p. t \<in> set (located k p) \<and> status (thr k t) = place_status p"
    if "t \<in> set (all_list k)" "t \<noteq> cur k" "t \<noteq> idle_thread k" for t
    using that i(2) unfolding located_ok_def by blast
  have st: "place_status p \<noteq> THREAD_RUNNING" "place_status p = THREAD_READY \<longleftrightarrow> p = PReady" for p
    by (cases p; simp)+
  have 1: "\<forall>t\<in>set (all_list k). status (thr k t) = THREAD_RUNNING \<longrightarrow> t = cur k \<or> t = idle_thread k"
    using ex st(1) by metis
  have 2: "\<forall>t\<in>set (all_list k). t \<noteq> idle_thread k \<longrightarrow>
       (status (thr k t) = THREAD_READY \<longleftrightarrow> t \<in> set (ready_list k))"
  proof (intro ballI impI iffI)
    fix t assume t: "t \<in> set (all_list k)" "t \<noteq> idle_thread k" "status (thr k t) = THREAD_READY"
    then have "t \<noteq> cur k" using i(3) by auto
    then show "t \<in> set (ready_list k)" using ex [OF t(1) _ t(2)] st(2) t(3) by fastforce
  next
    fix t assume "t \<in> set (ready_list k)"
    then show "status (thr k t) = THREAD_READY" using located_inD [OF i(2), of t PReady] by simp
  qed
  have 3: "\<forall>t\<in>set (all_list k). t \<noteq> idle_thread k \<longrightarrow> status (thr k t) = THREAD_BLOCKED \<longrightarrow>
       (\<exists>!p. t \<in> set (located k p))"
  proof (intro ballI impI)
    fix t assume t: "t \<in> set (all_list k)" "t \<noteq> idle_thread k" "status (thr k t) = THREAD_BLOCKED"
    then have "t \<noteq> cur k" using i(3) by auto
    then obtain p where "t \<in> set (located k p)" using ex [OF t(1) _ t(2)] by blast
    then show "\<exists>!p. t \<in> set (located k p)" using i(2) unfolding located_ok_def by blast
  qed
  have "distinct (ready_list k)" using i(2) unfolding located_ok_def by (metis located.simps(1))
  moreover have "idle_thread k \<notin> set (located k p)" for p using located_inD [OF i(2)] by blast
  ultimately show ?thesis using 1 2 3 i by (simp add: base_ok_def)
qed

text \<open>A machine at power on, whose first thread is on the page at \<open>0xc000e000\<close>, and the start of the
  idle thread on the page at \<open>0xc0100000\<close>.\<close>

definition demo_power :: kernel where
  "demo_power = \<lparr>thr = \<lambda>_. zero_thread, cur = 0xc000e000, ready_list = [], blocked_list = [], all_list = [],
     idle_thread = NULL, initial_thread = NULL, load_avg = 0, next_tid = 1, ticks = 0, idle_ticks = 0,
     kernel_ticks = 0, thread_ticks = 0, thread_prior_aging = False, thread_mlfqs = False, intr_on = False,
     in_external_intr = False, yield_on_return = False, semas = \<lambda>_. \<lparr>sval = 0, waiters = []\<rparr>,
     holder = \<lambda>_. NULL, conds = \<lambda>_. [], frames = \<lambda>_. [], retval = \<lambda>_. 0\<rparr>"

lemma demo_power_on: "power_on demo_power"
  by (simp add: power_on_def demo_power_def)

fun resumes :: "addr list \<Rightarrow> kernel \<Rightarrow> kernel option" where
  "resumes [] k = Some k"
| "resumes (pg # pgs) k = (if pg = NULL \<or> fresh_page pg k then do { k \<leftarrow> resume pg k; resumes pgs k } else None)"

lemma resumes_reachable: "resumes pgs k = Some k' \<Longrightarrow> reachable k0 k \<Longrightarrow> reachable k0 k'"
proof (induction pgs arbitrary: k)
  case (Cons pg pgs)
  then show ?case using reach_step [OF Cons.prems(2) step_resume, of pg] by (auto split: if_splits elim!: bind_SomeE)
qed simp

lemmas boot_defs =
  boot_def thread_init_def demo_power_def lock_init_def sema_init_def init_thread_def
  zero_thread_def running_thread_def intr_get_level_def intr_disable_def intr_set_level_def
  intr_enable_def upd_thread_def Let_def TID_LOCK_def POOL_LOCK_def upd_sema_def lock_sema_def
  PRI_MIN_def PRI_MAX_def PRI_DEFAULT_def THREAD_MAGIC_def PGSIZE_def lock_acquire_def
  intr_context_def lock_held_by_current_thread_def thread_current_def is_thread_def sema_down_def
  sema_down_loop_def push_frame_def resume_def set_holder_def lock_release_def sema_up_def
  thread_yield_def insert_ordered_def schedule_def next_thread_to_run_def thread_schedule_tail_def
  thread_start_def thread_create_def fresh_page_def thread_create_init_def allocate_tid_tail_def
  thread_create_tail_def kernel_thread_def idle_def thread_unblock_def alloc_frame_def
  list_compare_priority_def prio_def thread_block_def

text \<open>The first thread has entered the idle thread and holds \<^verbatim>\<open>tid_lock\<close>.\<close>

definition demo_tid :: kernel where
  "demo_tid = demo_power\<lparr>
     thr := (\<lambda>_. zero_thread)
       (0xc000e000 := zero_thread\<lparr>tid := 1, tname := ''main'', stack := 0xc000e000 + PGSIZE, priority := PRI_DEFAULT,
          child_list := [0xc000e000, 0xc0100000], parent_list := [0xc000e000], create_success := True,
          file_tail_prev := 0xc000e0a4, magic := THREAD_MAGIC\<rparr>,
        0xc0100000 := zero_thread\<lparr>status := THREAD_BLOCKED, tname := ''idle'', stack := 0xc0100000 + PGSIZE,
          parent_list := [0xc000e000], create_success := True, file_tail_prev := 0xc01000a4,
          magic := THREAD_MAGIC\<rparr>),
     all_list := [0xc000e000, 0xc0100000], initial_thread := 0xc000e000, next_tid := s32 2,
     semas := (\<lambda>_. \<lparr>sval = 0, waiters = []\<rparr>)(lock_sema POOL_LOCK := \<lparr>sval = 1, waiters = []\<rparr>),
     holder := (\<lambda>_. NULL)(TID_LOCK := 0xc000e000),
     frames := (\<lambda>_. [])(0xc000e000 := [FTid 0xc0100000 0 (Idle 0xc000ef00), FIntrEnable, FSemaDown 0xc000ef00])\<rparr>"

lemma demo_boots: "(do { k \<leftarrow> boot 0xc000ef00 demo_power; resumes [0, 0, 0, 0, 0xc0100000, 0] k }) = Some demo_tid"
  by (simp add: boot_defs demo_tid_def fun_eq_iff)

lemma demo_idles:
  "map_option (\<lambda>k. (idle_thread k, cur k)) (resumes [0, 0, 0, 0, 0, 0, 0] demo_tid) = Some (0xc0100000, 0xc000e000)"
  by (simp add: boot_defs demo_tid_def)

theorem reachable_scheduler_witness:
  "\<exists>k1 k. boot 0xc000ef00 demo_power = Some k1 \<and> reachable k1 k \<and> idle_thread k = 0xc0100000 \<and>
    cur k = 0xc000e000 \<and> status (thr k (cur k)) = THREAD_RUNNING \<and> distinct (ready_list k) \<and>
    (\<forall>p. 0xc0100000 \<notin> set (located k p))"
proof -
  obtain k1 where k1: "boot 0xc000ef00 demo_power = Some k1" "resumes [0, 0, 0, 0, 0xc0100000, 0] k1 = Some demo_tid"
    using demo_boots by (auto elim: bind_SomeE)
  obtain k where k: "resumes [0, 0, 0, 0, 0, 0, 0] demo_tid = Some k" "idle_thread k = 0xc0100000" "cur k = 0xc000e000"
    using demo_idles by auto
  have r: "reachable k1 k" using resumes_reachable [OF k(1) resumes_reachable [OF k1(2) reach_refl]] .
  have s: "(0xc000ef00 :: addr) \<noteq> lock_sema TID_LOCK" "(0xc000ef00 :: addr) \<noteq> lock_sema POOL_LOCK"
    by (simp_all add: lock_sema_def TID_LOCK_def POOL_LOCK_def)
  show ?thesis using reachable_scheduler [OF demo_power_on s k1(1) r] k1(1) r k(2,3) by metis
qed

end
