(* ===== verification/KBitmap.thy ===== *)
theory KBitmap
  imports Prelude
begin

unbundle bit_operations_syntax

text \<open>
  Bitmaps: \<^verbatim>\<open>src/lib/kernel/bitmap.c\<close>.

  A bitmap is its bit count, a 32-bit \<^verbatim>\<open>size_t\<close>, and the array of 32-bit elements.  An access
  past the end of the array is \<open>None\<close>, like a failed assertion.  The results of \<^verbatim>\<open>malloc\<close> are
  arguments of \<^verbatim>\<open>bitmap_create\<close>: the words of the block, or nothing.

  The abstraction \<open>bm_abs\<close> reads a bitmap as a list of Booleans.  The operations are shown to be
  list operations on it, and the locale \<open>slots\<close> states what the allocators built on a bitmap
  rely on.
\<close>

section \<open>Operations\<close>

definition ELEM_BITS :: u32 where "ELEM_BITS = 32"
definition BITMAP_ERROR :: u32 where "BITMAP_ERROR = 0xffffffff"

record bitmap =
  bit_cnt :: u32
  bits :: "u32 list"

definition elem_idx :: "u32 \<Rightarrow> u32" where
  "elem_idx bit_idx = bit_idx div ELEM_BITS"

definition bit_mask :: "u32 \<Rightarrow> u32" where
  "bit_mask bit_idx = push_bit (unat (bit_idx mod ELEM_BITS)) 1"

definition elem_cnt :: "u32 \<Rightarrow> u32" where
  "elem_cnt n = (n + ELEM_BITS - 1) div ELEM_BITS"

definition byte_cnt :: "u32 \<Rightarrow> u32" where
  "byte_cnt n = 4 * elem_cnt n"

definition last_mask :: "bitmap \<Rightarrow> u32" where
  "last_mask b = (let last_bits = unat (bit_cnt b mod ELEM_BITS) in
     if last_bits \<noteq> 0 then push_bit last_bits 1 - 1 else - 1)"

definition upd_elem :: "u32 \<Rightarrow> (u32 \<Rightarrow> u32) \<Rightarrow> bitmap \<Rightarrow> bitmap option" where
  "upd_elem idx f b = (if unat idx < length (bits b)
     then Some (b\<lparr>bits := (bits b)[unat idx := f (bits b ! unat idx)]\<rparr>) else None)"

definition bitmap_mark :: "u32 \<Rightarrow> bitmap \<Rightarrow> bitmap option" where
  "bitmap_mark bit_idx b = upd_elem (elem_idx bit_idx) (\<lambda>e. e OR bit_mask bit_idx) b"

definition bitmap_reset :: "u32 \<Rightarrow> bitmap \<Rightarrow> bitmap option" where
  "bitmap_reset bit_idx b = upd_elem (elem_idx bit_idx) (\<lambda>e. e AND NOT (bit_mask bit_idx)) b"

definition bitmap_flip :: "u32 \<Rightarrow> bitmap \<Rightarrow> bitmap option" where
  "bitmap_flip bit_idx b = upd_elem (elem_idx bit_idx) (\<lambda>e. e XOR bit_mask bit_idx) b"

definition bitmap_size :: "bitmap \<Rightarrow> u32" where
  "bitmap_size b = bit_cnt b"

definition bitmap_set :: "u32 \<Rightarrow> bool \<Rightarrow> bitmap \<Rightarrow> bitmap option" where
  "bitmap_set idx v b = do {
     ASSERT (idx < bit_cnt b);
     if v then bitmap_mark idx b else bitmap_reset idx b
   }"

definition bitmap_test :: "bitmap \<Rightarrow> u32 \<Rightarrow> bool option" where
  "bitmap_test b idx = do {
     ASSERT (idx < bit_cnt b);
     ASSERT (unat (elem_idx idx) < length (bits b));
     Some (bits b ! unat (elem_idx idx) AND bit_mask idx \<noteq> 0)
   }"

definition bitmap_set_multiple :: "u32 \<Rightarrow> u32 \<Rightarrow> bool \<Rightarrow> bitmap \<Rightarrow> bitmap option" where
  "bitmap_set_multiple start cnt v b = do {
     ASSERT (start \<le> bit_cnt b);
     ASSERT (start + cnt \<le> bit_cnt b);
     for_up (unat cnt) 0 (\<lambda>i. bitmap_set (start + i) v) b
   }"

definition bitmap_set_all :: "bool \<Rightarrow> bitmap \<Rightarrow> bitmap option" where
  "bitmap_set_all v b = bitmap_set_multiple 0 (bitmap_size b) v b"

definition bitmap_count :: "bitmap \<Rightarrow> u32 \<Rightarrow> u32 \<Rightarrow> bool \<Rightarrow> u32 option" where
  "bitmap_count b start cnt v = do {
     ASSERT (start \<le> bit_cnt b);
     ASSERT (start + cnt \<le> bit_cnt b);
     for_up (unat cnt) 0 (\<lambda>i n. do {
       t \<leftarrow> bitmap_test b (start + i);
       Some (if t = v then n + 1 else n) }) 0
   }"

definition bitmap_contains :: "bitmap \<Rightarrow> u32 \<Rightarrow> u32 \<Rightarrow> bool \<Rightarrow> bool option" where
  "bitmap_contains b start cnt v = do {
     ASSERT (start \<le> bit_cnt b);
     ASSERT (start + cnt \<le> bit_cnt b);
     r \<leftarrow> find_up (unat cnt) 0 (\<lambda>i. do { t \<leftarrow> bitmap_test b (start + i); Some (t = v) });
     Some (r \<noteq> None)
   }"

definition bitmap_any :: "bitmap \<Rightarrow> u32 \<Rightarrow> u32 \<Rightarrow> bool option" where
  "bitmap_any b start cnt = bitmap_contains b start cnt True"

definition bitmap_none :: "bitmap \<Rightarrow> u32 \<Rightarrow> u32 \<Rightarrow> bool option" where
  "bitmap_none b start cnt = map_option Not (bitmap_contains b start cnt True)"

definition bitmap_all :: "bitmap \<Rightarrow> u32 \<Rightarrow> u32 \<Rightarrow> bool option" where
  "bitmap_all b start cnt = map_option Not (bitmap_contains b start cnt False)"

definition bitmap_scan :: "bitmap \<Rightarrow> u32 \<Rightarrow> u32 \<Rightarrow> bool \<Rightarrow> u32 option" where
  "bitmap_scan b start cnt v = do {
     ASSERT (start \<le> bit_cnt b);
     if cnt \<le> bit_cnt b then do {
       let lst = bit_cnt b - cnt;
       r \<leftarrow> find_up (Suc (unat lst) - unat start) start
              (\<lambda>i. do { c \<leftarrow> bitmap_contains b i cnt (\<not> v); Some (\<not> c) });
       Some (case r of Some i \<Rightarrow> i | None \<Rightarrow> BITMAP_ERROR)
     } else Some BITMAP_ERROR
   }"

definition bitmap_scan_and_flip :: "u32 \<Rightarrow> u32 \<Rightarrow> bool \<Rightarrow> bitmap \<Rightarrow> (u32 \<times> bitmap) option" where
  "bitmap_scan_and_flip start cnt v b = do {
     idx \<leftarrow> bitmap_scan b start cnt v;
     if idx \<noteq> BITMAP_ERROR then do {
       b \<leftarrow> bitmap_set_multiple idx cnt (\<not> v) b;
       Some (idx, b)
     } else Some (idx, b)
   }"

text \<open>\<^verbatim>\<open>bitmap_create\<close>: \<open>blk\<close> says whether the structure was allocated, \<open>arr\<close> is the block
  of \<^verbatim>\<open>byte_cnt (bit_cnt)\<close> bytes, if that was.\<close>

definition bitmap_create :: "u32 \<Rightarrow> bool \<Rightarrow> u32 list option \<Rightarrow> bitmap option option" where
  "bitmap_create n blk arr =
     (if blk then
        (case arr of
           Some ws \<Rightarrow> do { b \<leftarrow> bitmap_set_all False \<lparr>bit_cnt = n, bits = ws\<rparr>; Some (Some b) }
         | None \<Rightarrow> if n = 0 then do { b \<leftarrow> bitmap_set_all False \<lparr>bit_cnt = n, bits = []\<rparr>; Some (Some b) }
                   else Some None)
      else Some None)"

definition bitmap_buf_size :: "u32 \<Rightarrow> u32" where
  "bitmap_buf_size n = 8 + byte_cnt n"

text \<open>The block is given by its words; the first two hold the structure.\<close>

definition bitmap_create_in_buf :: "u32 \<Rightarrow> u32 list \<Rightarrow> u32 \<Rightarrow> bitmap option" where
  "bitmap_create_in_buf n blk block_size = do {
     ASSERT (block_size \<ge> bitmap_buf_size n);
     bitmap_set_all False \<lparr>bit_cnt = n, bits = drop 2 blk\<rparr>
   }"

definition bitmap_file_size :: "bitmap \<Rightarrow> u32" where
  "bitmap_file_size b = byte_cnt (bit_cnt b)"

section \<open>A bitmap as a list of Booleans\<close>

definition bit_at :: "u32 list \<Rightarrow> nat \<Rightarrow> bool" where
  "bit_at ws i = bit (ws ! (i div 32)) (i mod 32)"

definition bm_ok :: "bitmap \<Rightarrow> bool" where
  "bm_ok b \<longleftrightarrow> unat (bit_cnt b) \<le> 32 * length (bits b)"

definition bm_abs :: "bitmap \<Rightarrow> bool list" where
  "bm_abs b = map (bit_at (bits b)) [0..<unat (bit_cnt b)]"

lemma length_bm_abs [simp]: "length (bm_abs b) = unat (bit_cnt b)"
  by (simp add: bm_abs_def)

lemma nth_bm_abs: "i < unat (bit_cnt b) \<Longrightarrow> bm_abs b ! i = bit_at (bits b) i"
  by (simp add: bm_abs_def)

lemma elem_idx_unat: "unat (elem_idx i) = unat i div 32"
  by (simp add: elem_idx_def ELEM_BITS_def unat_div)

lemma bit_mask_bit: "bit (bit_mask i) j \<longleftrightarrow> j = unat i mod 32"
proof -
  have "unat (i mod 32) = unat i mod 32" by (simp add: unat_mod)
  moreover have "unat i mod 32 < 32" by simp
  ultimately show ?thesis
    by (auto simp: bit_mask_def ELEM_BITS_def bit_simps)
qed

lemma idx_in_range: "bm_ok b \<Longrightarrow> unat i < unat (bit_cnt b) \<Longrightarrow> unat i div 32 < length (bits b)"
  by (simp add: bm_ok_def less_mult_imp_div_less mult.commute)

lemma bit_at_upd:
  assumes "unat i div 32 < length ws"
  shows "bit_at (ws[unat i div 32 := f (ws ! (unat i div 32))]) j =
    (if j div 32 = unat i div 32 then bit (f (ws ! (j div 32))) (j mod 32) else bit_at ws j)"
  using assms by (simp add: bit_at_def nth_list_update)

lemma upd_bit:
  assumes b: "bm_ok b" "unat i < unat (bit_cnt b)"
    and f: "\<And>w j. bit (f w) j = (if j = unat i mod 32 then v (bit w j) else bit w j)"
  shows "\<exists>b'. upd_elem (elem_idx i) f b = Some b' \<and> bm_ok b' \<and> bit_cnt b' = bit_cnt b \<and>
    bm_abs b' = (bm_abs b)[unat i := v (bm_abs b ! unat i)]"
proof -
  let ?b = "b\<lparr>bits := (bits b)[unat i div 32 := f (bits b ! (unat i div 32))]\<rparr>"
  have r: "unat i div 32 < length (bits b)" by (rule idx_in_range [OF b])
  have "bm_abs ?b = (bm_abs b)[unat i := v (bm_abs b ! unat i)]"
  proof (rule nth_equalityI)
    fix j assume "j < length (bm_abs ?b)"
    then have j: "j < unat (bit_cnt b)" by simp
    have "(j div 32 = unat i div 32 \<and> j mod 32 = unat i mod 32) = (j = unat i)"
      by (metis div_mult_mod_eq)
    then show "bm_abs ?b ! j = (bm_abs b)[unat i := v (bm_abs b ! unat i)] ! j"
      using j r by (auto simp: nth_bm_abs bit_at_upd f nth_list_update bit_at_def)
  qed simp
  then show ?thesis using r b by (intro exI [of _ ?b]) (simp add: upd_elem_def elem_idx_unat bm_ok_def)
qed

lemma bitmap_set_abs:
  assumes "bm_ok b" "unat i < unat (bit_cnt b)"
  shows "\<exists>b'. bitmap_set i v b = Some b' \<and> bm_ok b' \<and> bit_cnt b' = bit_cnt b \<and>
    bm_abs b' = (bm_abs b)[unat i := v]"
proof (cases v)
  case True
  then show ?thesis
    using upd_bit [OF assms, of "\<lambda>e. e OR bit_mask i" "\<lambda>_. True"] assms
    by (simp add: bitmap_set_def bitmap_mark_def word_less_nat_alt bit_or_iff bit_mask_bit)
next
  case False
  have "bit (w AND NOT (bit_mask i)) j = (if j = unat i mod 32 then False else bit w j)" for w j
    by (auto simp: bit_and_iff bit_not_iff bit_mask_bit dest: bit_imp_le_length)
  then show ?thesis
    using upd_bit [OF assms, of "\<lambda>e. e AND NOT (bit_mask i)" "\<lambda>_. False"] assms False
    by (simp add: bitmap_set_def bitmap_reset_def word_less_nat_alt)
qed


lemma bitmap_flip_abs:
  assumes "bm_ok b" "unat i < unat (bit_cnt b)"
  shows "\<exists>b'. bitmap_flip i b = Some b' \<and> bm_ok b' \<and> bit_cnt b' = bit_cnt b \<and>
    bm_abs b' = (bm_abs b)[unat i := \<not> bm_abs b ! unat i]"
proof -
  have "bit (w XOR bit_mask i) j = (if j = unat i mod 32 then \<not> bit w j else bit w j)" for w j
    by (auto simp: bit_xor_iff bit_mask_bit)
  then show ?thesis using upd_bit [OF assms, of "\<lambda>e. e XOR bit_mask i" Not] by (simp add: bitmap_flip_def)
qed

lemma and_mask_nonzero: "(w AND bit_mask i \<noteq> 0) = bit w (unat i mod 32)"
proof
  assume "w AND bit_mask i \<noteq> 0"
  then obtain j where "bit (w AND bit_mask i) j" by (metis bit_0_eq bot_apply bot_bool_def bit_eqI)
  then show "bit w (unat i mod 32)" by (auto simp: bit_and_iff bit_mask_bit)
next
  assume "bit w (unat i mod 32)"
  then have "bit (w AND bit_mask i) (unat i mod 32)" by (simp add: bit_and_iff bit_mask_bit)
  then show "w AND bit_mask i \<noteq> 0" by (metis bit_0_eq bot_apply bot_bool_def)
qed

lemma bitmap_test_abs:
  "bm_ok b \<Longrightarrow> unat i < unat (bit_cnt b) \<Longrightarrow> bitmap_test b i = Some (bm_abs b ! unat i)"
  using idx_in_range [of b i]
  by (simp add: bitmap_test_def word_less_nat_alt elem_idx_unat nth_bm_abs bit_at_def and_mask_nonzero ASSERT_True)

text \<open>The bits \<open>s\<close> to \<open>s + c\<close> set to \<open>v\<close>.\<close>

definition fill :: "nat \<Rightarrow> nat \<Rightarrow> bool \<Rightarrow> bool list \<Rightarrow> bool list" where
  "fill s c v xs = take s xs @ replicate c v @ drop (s + c) xs"

lemma length_fill [simp]: "s + c \<le> length xs \<Longrightarrow> length (fill s c v xs) = length xs"
  by (simp add: fill_def)

lemma nth_fill:
  "s + c \<le> length xs \<Longrightarrow> i < length xs \<Longrightarrow>
     fill s c v xs ! i = (if s \<le> i \<and> i < s + c then v else xs ! i)"
  by (auto simp: fill_def nth_append min_def)

lemma fill_0 [simp]: "fill s 0 v xs = xs"
  by (simp add: fill_def)

lemma fill_Suc:
  "s + Suc c \<le> length xs \<Longrightarrow> (fill s c v xs)[s + c := v] = fill s (Suc c) v xs"
  by (rule nth_equalityI) (auto simp: nth_fill nth_list_update)

lemma in_range:
  assumes "unat (s :: u32) + unat (c :: u32) \<le> unat (n :: u32)" shows "s \<le> n" "s + c \<le> n" "unat (s + c) = unat s + unat c"
proof -
  have "unat s + unat c < 2 ^ 32" using assms unat_lt32 [of n] by linarith
  then show u: "unat (s + c) = unat s + unat c" using unat_add_nowrap [of s c] by simp
  show "s \<le> n" "s + c \<le> n" using assms u by (simp_all add: word_le_nat_alt)
qed

lemma unat_offset:
  assumes "unat (s :: u32) + unat (c :: u32) \<le> unat (n :: u32)" "j < unat c"
  shows "unat (s + of_nat j) = unat s + j" "unat s + j < unat n"
proof -
  have "unat (of_nat j :: u32) = j" using assms unat_lt32 [of c] by (simp add: unat_of_nat32)
  then show "unat (s + of_nat j) = unat s + j"
    using assms unat_lt32 [of n] unat_add_nowrap [of s "of_nat j"] by simp
  show "unat s + j < unat n" using assms by simp
qed

lemma bitmap_set_multiple_abs:
  assumes b: "bm_ok b" and r: "unat s + unat c \<le> unat (bit_cnt b)"
  shows "\<exists>b'. bitmap_set_multiple s c v b = Some b' \<and> bm_ok b' \<and> bit_cnt b' = bit_cnt b \<and>
    bm_abs b' = fill (unat s) (unat c) v (bm_abs b)"
proof -
  have "\<exists>b'. for_up (unat c) 0 (\<lambda>i. bitmap_set (s + i) v) b = Some b' \<and>
     bm_ok b' \<and> bit_cnt b' = bit_cnt b \<and> bm_abs b' = fill (unat s) (unat c) v (bm_abs b)"
  proof (rule for_up_inv)
    fix j b1 assume j: "j < unat c" and i: "bm_ok b1 \<and> bit_cnt b1 = bit_cnt b \<and> bm_abs b1 = fill (unat s) j v (bm_abs b)"
    note u = unat_offset [OF r j]
    obtain b2 where b2: "bitmap_set (s + of_nat j) v b1 = Some b2" "bm_ok b2" "bit_cnt b2 = bit_cnt b1"
      "bm_abs b2 = (bm_abs b1)[unat s + j := v]"
      using bitmap_set_abs [of b1 "s + of_nat j" v] i u by auto
    have "bm_abs b2 = fill (unat s) (Suc j) v (bm_abs b)"
      using b2(4) i fill_Suc [of "unat s" j "bm_abs b" v] u by simp
    then show "\<exists>b'. bitmap_set (s + (0 + of_nat j)) v b1 = Some b' \<and>
        bm_ok b' \<and> bit_cnt b' = bit_cnt b \<and> bm_abs b' = fill (unat s) (Suc j) v (bm_abs b)"
      using b2 i by simp
  qed (use b unat_lt32 [of c] in simp_all)
  then show ?thesis using in_range [OF r] by (simp add: bitmap_set_multiple_def)
qed

lemma bitmap_set_all_abs:
  "bm_ok b \<Longrightarrow> \<exists>b'. bitmap_set_all v b = Some b' \<and> bm_ok b' \<and> bit_cnt b' = bit_cnt b \<and>
     bm_abs b' = replicate (unat (bit_cnt b)) v"
  using bitmap_set_multiple_abs [of b 0 "bit_cnt b" v]
  by (simp add: bitmap_set_all_def bitmap_size_def fill_def)

lemma bitmap_contains_abs:
  assumes b: "bm_ok b" and r: "unat s + unat c \<le> unat (bit_cnt b)"
  shows "bitmap_contains b s c v = Some (\<exists>j<unat c. bm_abs b ! (unat s + j) = v)"
proof -
  have "find_up (unat c) 0 (\<lambda>i. do { t \<leftarrow> bitmap_test b (s + i); Some (t = v) }) =
     Some (if \<exists>j<unat c. bm_abs b ! (unat s + j) = v
       then Some (0 + of_nat (LEAST j. j < unat c \<and> bm_abs b ! (unat s + j) = v)) else None)"
    using bitmap_test_abs [OF b] unat_offset [OF r] by (intro find_up_eq) simp
  then show ?thesis using in_range [OF r] by (simp add: bitmap_contains_def)
qed

lemma bitmap_count_abs:
  assumes b: "bm_ok b" and r: "unat s + unat c \<le> unat (bit_cnt b)"
  shows "bitmap_count b s c v =
    Some (of_nat (length (filter (\<lambda>x. x = v) (take (unat c) (drop (unat s) (bm_abs b))))))"
proof -
  let ?f = "\<lambda>j. length (filter (\<lambda>x. x = v) (take j (drop (unat s) (bm_abs b))))"
  have "\<exists>n. for_up (unat c) 0 (\<lambda>i n. do { t \<leftarrow> bitmap_test b (s + i); Some (if t = v then n + 1 else n) }) 0
      = Some n \<and> n = of_nat (?f (unat c))"
  proof (rule for_up_inv)
    fix j n assume j: "j < unat c" and n: "n = of_nat (?f j)"
    have "take (Suc j) (drop (unat s) (bm_abs b)) =
        take j (drop (unat s) (bm_abs b)) @ [bm_abs b ! (unat s + j)]"
      using unat_offset(2) [OF r j] by (simp add: take_Suc_conv_app_nth)
    then show "\<exists>n'. do { t \<leftarrow> bitmap_test b (s + (0 + of_nat j)); Some (if t = v then n + 1 else n) } = Some n' \<and>
        n' = of_nat (?f (Suc j))"
      using n bitmap_test_abs [OF b, of "s + of_nat j"] unat_offset [OF r j] by simp
  qed (use unat_lt32 [of c] in simp_all)
  then show ?thesis using in_range [OF r] by (simp add: bitmap_count_def)
qed

text \<open>The groups of \<open>c\<close> bits of value \<open>v\<close>.\<close>

definition group_at :: "bool list \<Rightarrow> nat \<Rightarrow> nat \<Rightarrow> bool \<Rightarrow> bool" where
  "group_at xs i c v \<longleftrightarrow> i + c \<le> length xs \<and> (\<forall>j<c. xs ! (i + j) = v)"

lemma group_atD: "group_at xs i c v \<Longrightarrow> i \<le> x \<Longrightarrow> x < i + c \<Longrightarrow> xs ! x = v"
  unfolding group_at_def by (metis add_diff_inverse_nat less_diff_conv2 add.commute not_less)

lemma bitmap_scan_abs:
  assumes b: "bm_ok b" and s: "unat s \<le> unat (bit_cnt b)"
  shows "bitmap_scan b s c v =
    Some (if \<exists>i\<ge>unat s. group_at (bm_abs b) i (unat c) v
          then of_nat (LEAST i. unat s \<le> i \<and> group_at (bm_abs b) i (unat c) v) else BITMAP_ERROR)"
proof (cases "c \<le> bit_cnt b")
  case False
  then have "\<not> group_at (bm_abs b) i (unat c) v" for i
    by (simp add: group_at_def word_le_nat_alt)
  then show ?thesis using False s by (simp add: bitmap_scan_def word_le_nat_alt)
next
  case True
  let ?l = "bit_cnt b - c" let ?n = "Suc (unat ?l) - unat s" let ?Q = "\<lambda>j. group_at (bm_abs b) (unat s + j) (unat c) v"
  have l: "unat ?l = unat (bit_cnt b) - unat c" using True by (rule unat_sub)
  have cn: "unat c \<le> unat (bit_cnt b)" using True by (simp add: word_le_nat_alt)
  have P: "do { d \<leftarrow> bitmap_contains b (s + of_nat j) c (\<not> v); Some (\<not> d) } = Some (?Q j)" if "j < ?n" for j
  proof -
    have j: "unat s + j \<le> unat ?l" using that by simp
    have "unat (of_nat j :: u32) = j" using j unat_lt32 [of ?l] by (simp add: unat_of_nat32)
    then have u: "unat (s + of_nat j) = unat s + j"
      using j unat_lt32 [of ?l] unat_add_nowrap [of s "of_nat j"] by simp
    have r: "unat (s + of_nat j) + unat c \<le> unat (bit_cnt b)" using u j l cn by simp
    show ?thesis using bitmap_contains_abs [OF b r, of "\<not> v"] u r
      by (simp add: group_at_def)
  qed
  have ex: "(\<exists>j<?n. ?Q j) = (\<exists>i\<ge>unat s. group_at (bm_abs b) i (unat c) v)"
  proof
    assume "\<exists>i\<ge>unat s. group_at (bm_abs b) i (unat c) v"
    then obtain i where i: "unat s \<le> i" "group_at (bm_abs b) i (unat c) v" by blast
    then have "i \<le> unat ?l" using l by (auto simp: group_at_def)
    then show "\<exists>j<?n. ?Q j" using i by (intro exI [of _ "i - unat s"]) simp
  next
    assume "\<exists>j<?n. ?Q j"
    then show "\<exists>i\<ge>unat s. group_at (bm_abs b) i (unat c) v" using le_add1 by blast
  qed
  have le: "unat s + (LEAST j. j < ?n \<and> ?Q j) = (LEAST i. unat s \<le> i \<and> group_at (bm_abs b) i (unat c) v)"
    if e: "\<exists>j<?n. ?Q j"
  proof (rule sym, rule Least_equality)
    show "unat s \<le> unat s + (LEAST j. j < ?n \<and> ?Q j) \<and> group_at (bm_abs b) (unat s + (LEAST j. j < ?n \<and> ?Q j)) (unat c) v"
      using LeastI_ex [OF e] by simp
  next
    fix i assume i: "unat s \<le> i \<and> group_at (bm_abs b) i (unat c) v"
    then have "i \<le> unat ?l" using l by (auto simp: group_at_def)
    then have "(LEAST j. j < ?n \<and> ?Q j) \<le> i - unat s" using i by (intro Least_le) (auto simp: less_Suc_eq_le diff_less_mono)
    then show "unat s + (LEAST j. j < ?n \<and> ?Q j) \<le> i" using i by linarith
  qed
  have st: "s \<le> bit_cnt b" using s by (simp add: word_le_nat_alt)
  have sm: "s + of_nat m = of_nat (unat s + m)" for m by simp
  let ?r = "find_up ?n s (\<lambda>i. do { d \<leftarrow> bitmap_contains b i c (\<not> v); Some (\<not> d) })"
  have F: "?r = Some (if \<exists>j<?n. ?Q j then Some (s + of_nat (LEAST j. j < ?n \<and> ?Q j)) else None)"
    by (rule find_up_eq) (rule P)
  have B: "bitmap_scan b s c v = map_option (case_option BITMAP_ERROR id) ?r"
    using st True unfolding bitmap_scan_def Let_def by (cases ?r) (auto split: option.splits)
  show ?thesis
  proof (cases "\<exists>j<?n. ?Q j")
    case e: True
    have "?r = Some (Some (of_nat (LEAST i. unat s \<le> i \<and> group_at (bm_abs b) i (unat c) v)))"
      unfolding F if_P [OF e] sm le [OF e] ..
    then show ?thesis unfolding B if_P [OF e [unfolded ex]] by simp
  next
    case e: False
    have "?r = Some None" unfolding F if_not_P [OF e] ..
    then show ?thesis unfolding B if_not_P [OF e [unfolded ex]] by simp
  qed
qed

lemma bitmap_scan_and_flip_abs:
  assumes b: "bm_ok b" and s: "unat s \<le> unat (bit_cnt b)" and n: "unat (bit_cnt b) < 2 ^ 32 - 1"
  shows "\<exists>i b'. bitmap_scan_and_flip s c v b = Some (i, b') \<and> bm_ok b' \<and> bit_cnt b' = bit_cnt b \<and>
    (if \<exists>j\<ge>unat s. group_at (bm_abs b) j (unat c) v
     then unat i = (LEAST j. unat s \<le> j \<and> group_at (bm_abs b) j (unat c) v) \<and>
       group_at (bm_abs b) (unat i) (unat c) v \<and> unat s \<le> unat i \<and>
       bm_abs b' = fill (unat i) (unat c) (\<not> v) (bm_abs b)
     else i = BITMAP_ERROR \<and> b' = b)"
proof (cases "\<exists>j\<ge>unat s. group_at (bm_abs b) j (unat c) v")
  case False
  then have "bitmap_scan b s c v = Some BITMAP_ERROR" using bitmap_scan_abs [OF b s, of c v] by (simp only: if_False)
  then show ?thesis unfolding if_not_P [OF False] using b by (simp add: bitmap_scan_and_flip_def)
next
  case True
  let ?j = "LEAST j. unat s \<le> j \<and> group_at (bm_abs b) j (unat c) v"
  have j: "unat s \<le> ?j" "group_at (bm_abs b) ?j (unat c) v" using LeastI_ex [OF True] by simp_all
  then have r: "?j + unat c \<le> unat (bit_cnt b)" by (simp add: group_at_def)
  then have u: "unat (of_nat ?j :: u32) = ?j" using n by (intro unat_of_nat32) linarith
  have sc: "bitmap_scan b s c v = Some (of_nat ?j)" using bitmap_scan_abs [OF b s, of c v] True by simp
  have ne: "of_nat ?j \<noteq> BITMAP_ERROR"
  proof
    assume "of_nat ?j = BITMAP_ERROR"
    then have "?j = unat BITMAP_ERROR" using u by metis
    then show False using r n by (simp add: BITMAP_ERROR_def)
  qed
  obtain b' where "bitmap_set_multiple (of_nat ?j) c (\<not> v) b = Some b'" "bm_ok b'" "bit_cnt b' = bit_cnt b"
    "bm_abs b' = fill ?j (unat c) (\<not> v) (bm_abs b)"
    using bitmap_set_multiple_abs [OF b, of "of_nat ?j" c "\<not> v"] u r by auto
  then show ?thesis using sc ne u j True by (simp add: bitmap_scan_and_flip_def)
qed

text \<open>Filling a free group and clearing it again.\<close>

lemma fill_undo:
  assumes "group_at xs i c v"
  shows "fill i c v (fill i c w xs) = xs"
proof (rule nth_equalityI)
  have l: "i + c \<le> length xs" using assms by (simp add: group_at_def)
  then show "length (fill i c v (fill i c w xs)) = length xs" by simp
  fix k assume "k < length (fill i c v (fill i c w xs))"
  then show "fill i c v (fill i c w xs) ! k = xs ! k"
    using l group_atD [OF assms, of k] by (simp add: nth_fill)
qed

section \<open>The allocator interface\<close>

text \<open>
  What the page allocator, the swap area and the free map rely on: a structure whose state is a
  Boolean per slot, from which a group of free slots can be taken and to which it can be given back.
\<close>

locale slots =
  fixes used :: "'b \<Rightarrow> bool list" and ok :: "'b \<Rightarrow> bool"
    and take_group :: "u32 \<Rightarrow> 'b \<Rightarrow> (u32 \<times> 'b) option" and give_back :: "u32 \<Rightarrow> u32 \<Rightarrow> 'b \<Rightarrow> 'b option"
    and fail :: u32
  assumes take_total: "ok b \<Longrightarrow> \<exists>i b'. take_group c b = Some (i, b') \<and> ok b'"
    and take_fail: "ok b \<Longrightarrow> take_group c b = Some (i, b') \<Longrightarrow> i = fail \<Longrightarrow>
      b' = b \<and> (\<forall>j. \<not> group_at (used b) j (unat c) False)"
    and take_new: "ok b \<Longrightarrow> take_group c b = Some (i, b') \<Longrightarrow> i \<noteq> fail \<Longrightarrow>
      group_at (used b) (unat i) (unat c) False \<and> used b' = fill (unat i) (unat c) True (used b)"
    and give: "ok b \<Longrightarrow> unat i + unat c \<le> length (used b) \<Longrightarrow>
      \<exists>b'. give_back i c b = Some b' \<and> ok b' \<and> used b' = fill (unat i) (unat c) False (used b)"
begin

text \<open>A group that was handed out is not handed out again while it is held.\<close>

lemma take_disjoint:
  assumes ok: "ok b" and t1: "take_group c b = Some (i, b')" "i \<noteq> fail"
    and t2: "take_group d b' = Some (j, b'')" "j \<noteq> fail"
  shows "{unat i ..< unat i + unat c} \<inter> {unat j ..< unat j + unat d} = {}"
proof -
  have ok': "ok b'" using take_total [OF ok, of c] t1 by auto
  have n1: "group_at (used b) (unat i) (unat c) False" "used b' = fill (unat i) (unat c) True (used b)"
    using take_new [OF ok t1] by simp_all
  have n2: "group_at (used b') (unat j) (unat d) False" using take_new [OF ok' t2] by simp
  have False if x: "x \<in> {unat i ..< unat i + unat c}" "x \<in> {unat j ..< unat j + unat d}" for x
  proof -
    have len: "unat i + unat c \<le> length (used b)" using n1(1) by (simp add: group_at_def)
    have "used b' ! x" using x(1) n1(2) len nth_fill [of "unat i" "unat c" "used b" x True] by simp
    moreover have "\<not> used b' ! x" using group_atD [OF n2] x(2) by simp
    ultimately show False by simp
  qed
  then show ?thesis by blast
qed

text \<open>Taking a group and giving it back restores the state.\<close>

lemma take_give:
  assumes ok: "ok b" and t: "take_group c b = Some (i, b')" "i \<noteq> fail"
  shows "\<exists>b''. give_back i c b' = Some b'' \<and> ok b'' \<and> used b'' = used b"
proof -
  have ok': "ok b'" using take_total [OF ok, of c] t by auto
  have n: "group_at (used b) (unat i) (unat c) False" "used b' = fill (unat i) (unat c) True (used b)"
    using take_new [OF ok t] by simp_all
  then have len: "unat i + unat c \<le> length (used b)" by (simp add: group_at_def)
  have "fill (unat i) (unat c) False (used b') = used b" unfolding n(2) by (rule fill_undo [OF n(1)])
  then show ?thesis using give [OF ok', of i c] n(2) len by simp
qed

end

definition bm_slots_ok :: "bitmap \<Rightarrow> bool" where
  "bm_slots_ok b \<longleftrightarrow> bm_ok b \<and> unat (bit_cnt b) < 2 ^ 32 - 1"

interpretation bm: slots bm_abs bm_slots_ok "\<lambda>c. bitmap_scan_and_flip 0 c False"
  "\<lambda>i c. bitmap_set_multiple i c False" BITMAP_ERROR
proof (unfold_locales, goal_cases)
  case (1 b c)
  then show ?case using bitmap_scan_and_flip_abs [of b 0 c False] by (auto simp: bm_slots_ok_def)
next
  case (2 b c i b')
  then have s: "bm_ok b" "unat (bit_cnt b) < 2 ^ 32 - 1" by (simp_all add: bm_slots_ok_def)
  show ?case
  proof (cases "\<exists>j. group_at (bm_abs b) j (unat c) False")
    case True
    then have "group_at (bm_abs b) (unat i) (unat c) False"
      using bitmap_scan_and_flip_abs [OF s(1) _ s(2), of 0 c False] 2(2) by auto
    then have "unat i \<le> unat (bit_cnt b)" by (simp add: group_at_def)
    then show ?thesis using s(2) 2(3) by (simp add: BITMAP_ERROR_def)
  next
    case False
    then show ?thesis using bitmap_scan_and_flip_abs [OF s(1) _ s(2), of 0 c False] 2(2) by auto
  qed
next
  case (3 b c i b')
  then show ?case using bitmap_scan_and_flip_abs [of b 0 c False]
    by (auto simp: bm_slots_ok_def split: if_splits)
next
  case (4 b i c)
  then show ?case using bitmap_set_multiple_abs [of b i c False] by (auto simp: bm_slots_ok_def)
qed


section \<open>Properties\<close>

text \<open>
  C30 (\<^verbatim>\<open>bitmap_scan_and_flip\<close>).  On a bitmap of fewer than \<open>2^32 - 1\<close> bits and a start within
  it, the function returns: it finds the first group of \<open>c\<close> bits of value \<open>v\<close> at or behind the start
  and flips exactly these bits, or returns \<^verbatim>\<open>BITMAP_ERROR\<close> and changes nothing when there is
  none.  For \<open>c = 0\<close> the empty group at the start is found: the result is the start, where the comment
  of the function says that it is 0.
\<close>

theorem bitmap_scan_and_flip_first:
  assumes "bm_ok b" and "unat s \<le> unat (bit_cnt b)" and "unat (bit_cnt b) < 2 ^ 32 - 1"
  shows "\<exists>i b'. bitmap_scan_and_flip s c v b = Some (i, b') \<and> bm_ok b' \<and> bit_cnt b' = bit_cnt b \<and>
    (if \<exists>j\<ge>unat s. group_at (bm_abs b) j (unat c) v
     then unat i = (LEAST j. unat s \<le> j \<and> group_at (bm_abs b) j (unat c) v) \<and>
       group_at (bm_abs b) (unat i) (unat c) v \<and> unat s \<le> unat i \<and>
       bm_abs b' = fill (unat i) (unat c) (\<not> v) (bm_abs b)
     else i = BITMAP_ERROR \<and> b' = b) \<and>
    (c = 0 \<longrightarrow> i = s \<and> bm_abs b' = bm_abs b)"
proof -
  obtain i b' where r: "bitmap_scan_and_flip s c v b = Some (i, b')" "bm_ok b'" "bit_cnt b' = bit_cnt b"
    and f: "if \<exists>j\<ge>unat s. group_at (bm_abs b) j (unat c) v
     then unat i = (LEAST j. unat s \<le> j \<and> group_at (bm_abs b) j (unat c) v) \<and>
       group_at (bm_abs b) (unat i) (unat c) v \<and> unat s \<le> unat i \<and>
       bm_abs b' = fill (unat i) (unat c) (\<not> v) (bm_abs b)
     else i = BITMAP_ERROR \<and> b' = b"
    using bitmap_scan_and_flip_abs [OF assms, of c v] by blast
  have "i = s \<and> bm_abs b' = bm_abs b" if "c = 0"
  proof -
    have g: "group_at (bm_abs b) (unat s) 0 v" using assms(2) by (simp add: group_at_def)
    then have "unat i = (LEAST j. unat s \<le> j \<and> group_at (bm_abs b) j 0 v) \<and> bm_abs b' = fill (unat i) 0 (\<not> v) (bm_abs b)"
      using f that by (auto split: if_splits)
    moreover have "(LEAST j. unat s \<le> j \<and> group_at (bm_abs b) j 0 v) = unat s" by (rule Least_equality) (use g in auto)
    ultimately show ?thesis by (simp add: fill_def word_unat_eq_iff)
  qed
  then show ?thesis using r f by blast
qed

definition demo_bitmap :: bitmap where
  "demo_bitmap = \<lparr>bit_cnt = 40, bits = [0xffff00ff, 0x0f]\<rparr>"

theorem bitmap_scan_and_flip_first_witness:
  "\<exists>i b'. bitmap_scan_and_flip 3 4 False demo_bitmap = Some (i, b') \<and> bm_ok b' \<and> bit_cnt b' = bit_cnt demo_bitmap \<and>
    (if \<exists>j\<ge>unat (3 :: u32). group_at (bm_abs demo_bitmap) j (unat (4 :: u32)) False
     then unat i = (LEAST j. unat (3 :: u32) \<le> j \<and> group_at (bm_abs demo_bitmap) j (unat (4 :: u32)) False) \<and>
       group_at (bm_abs demo_bitmap) (unat i) (unat (4 :: u32)) False \<and> unat (3 :: u32) \<le> unat i \<and>
       bm_abs b' = fill (unat i) (unat (4 :: u32)) (\<not> False) (bm_abs demo_bitmap)
     else i = BITMAP_ERROR \<and> b' = demo_bitmap)"
  using bitmap_scan_and_flip_first [of demo_bitmap 3 4 False] by (simp add: demo_bitmap_def bm_ok_def)

text \<open>
  (\<^verbatim>\<open>bitmap_set_multiple\<close>, \<^verbatim>\<open>bitmap_count\<close>).  Setting \<open>c\<close> bits from \<open>s\<close> within the
  bitmap sets exactly these, and counting them afterwards gives \<open>c\<close>.
\<close>

theorem bitmap_set_then_count:
  assumes "bm_ok b" and "unat s + unat c \<le> unat (bit_cnt b)"
  shows "\<exists>b'. bitmap_set_multiple s c v b = Some b' \<and> bm_ok b' \<and>
    bm_abs b' = fill (unat s) (unat c) v (bm_abs b) \<and> bitmap_count b' s c v = Some c"
proof -
  obtain b' where b': "bitmap_set_multiple s c v b = Some b'" "bm_ok b'" "bit_cnt b' = bit_cnt b"
    "bm_abs b' = fill (unat s) (unat c) v (bm_abs b)"
    using bitmap_set_multiple_abs [OF assms] by blast
  have "take (unat c) (drop (unat s) (bm_abs b')) = replicate (unat c) v"
    using assms(2) by (simp add: b'(4) fill_def)
  then have "bitmap_count b' s c v = Some c"
    using bitmap_count_abs [OF b'(2), of s c v] assms(2) b'(3) by simp
  then show ?thesis using b' by blast
qed

theorem bitmap_set_then_count_witness:
  "\<exists>b'. bitmap_set_multiple 6 30 False demo_bitmap = Some b' \<and> bm_ok b' \<and>
    bm_abs b' = fill (unat (6 :: u32)) (unat (30 :: u32)) False (bm_abs demo_bitmap) \<and>
    bitmap_count b' 6 30 False = Some 30"
  by (rule bitmap_set_then_count) (simp_all add: demo_bitmap_def bm_ok_def)

end
