(* ===== verification/Palloc.thy ===== *)
theory Palloc
  imports KBitmap Vaddr
begin

text \<open>
  The page allocator: \<^verbatim>\<open>src/threads/palloc.c\<close>.

  The two pools, the memory and the amount of memory are one record.  The bitmap of a pool lies in the
  pages in front of its base; the model keeps it as a value.  Scanning the bitmap runs under the pool's
  lock, so that each function is one step here; the waiting for that lock is part of
  theory \<open>Kernel\<close>.
\<close>

unbundle bit_operations_syntax

section \<open>Operations\<close>

definition PAL_ASSERT :: u32 where "PAL_ASSERT = 1"
definition PAL_ZERO :: u32 where "PAL_ZERO = 2"
definition PAL_USER :: u32 where "PAL_USER = 4"

record pool =
  used_map :: bitmap
  base :: u32

record phys =
  kernel_pool :: pool
  user_pool :: pool
  mem :: "u32 \<Rightarrow> u32"

definition init_pool :: "u32 \<Rightarrow> u32 \<Rightarrow> (u32 \<Rightarrow> u32) \<Rightarrow> pool option" where
  "init_pool bs page_cnt m = do {
     let bm_pages = (bitmap_buf_size page_cnt + PGSIZE - 1) div PGSIZE;
     ASSERT (\<not> bm_pages > page_cnt);
     let page_cnt = page_cnt - bm_pages;
     b \<leftarrow> bitmap_create_in_buf page_cnt
            (map (\<lambda>i. m (bs + 4 * of_nat i)) [0..<unat (bm_pages * PGSIZE) div 4]) (bm_pages * PGSIZE);
     Some \<lparr>used_map = b, base = bs + bm_pages * PGSIZE\<rparr>
   }"

definition palloc_init :: "u32 \<Rightarrow> u32 \<Rightarrow> (u32 \<Rightarrow> u32) \<Rightarrow> phys option" where
  "palloc_init init_ram_pages user_page_limit m = do {
     free_start \<leftarrow> ptov (1024 * 1024);
     free_end \<leftarrow> ptov (init_ram_pages * PGSIZE);
     let free_pages = word_of_int (cdiv (sint (free_end - free_start)) 4096);
     let user_pages = free_pages div 2;
     let user_pages = (if user_pages > user_page_limit then user_page_limit else user_pages);
     let kernel_pages = free_pages - user_pages;
     kp \<leftarrow> init_pool free_start kernel_pages m;
     up \<leftarrow> init_pool (free_start + kernel_pages * PGSIZE) user_pages m;
     Some \<lparr>kernel_pool = kp, user_pool = up, mem = m\<rparr>
   }"

definition page_from_pool :: "pool \<Rightarrow> u32 \<Rightarrow> bool" where
  "page_from_pool p page =
     (let page_no = pg_no page; start_page = pg_no (base p);
          end_page = start_page + bitmap_size (used_map p)
      in page_no \<ge> start_page \<and> page_no < end_page)"

definition pool_get :: "pool \<Rightarrow> u32 \<Rightarrow> (u32 \<times> pool) option" where
  "pool_get p page_cnt = do {
     (page_idx, b) \<leftarrow> bitmap_scan_and_flip 0 page_cnt False (used_map p);
     Some (if page_idx \<noteq> BITMAP_ERROR then base p + PGSIZE * page_idx else 0, p\<lparr>used_map := b\<rparr>)
   }"

definition palloc_get_multiple :: "u32 \<Rightarrow> u32 \<Rightarrow> phys \<Rightarrow> (u32 \<times> phys) option" where
  "palloc_get_multiple flags page_cnt s =
     (if page_cnt = 0 then Some (0, s)
      else do {
        (pages, s) \<leftarrow>
          (if flags AND PAL_USER \<noteq> 0
           then do { (a, p) \<leftarrow> pool_get (user_pool s) page_cnt; Some (a, s\<lparr>user_pool := p\<rparr>) }
           else do { (a, p) \<leftarrow> pool_get (kernel_pool s) page_cnt; Some (a, s\<lparr>kernel_pool := p\<rparr>) });
        if pages \<noteq> 0 then
          Some (pages, if flags AND PAL_ZERO \<noteq> 0
                       then s\<lparr>mem := mem_fill pages (PGSIZE * page_cnt) 0 (mem s)\<rparr> else s)
        else do {
          ASSERT (flags AND PAL_ASSERT = 0);
          Some (pages, s)
        }
      })"

definition palloc_get_page :: "u32 \<Rightarrow> phys \<Rightarrow> (u32 \<times> phys) option" where
  "palloc_get_page flags s = palloc_get_multiple flags 1 s"

definition pool_free :: "pool \<Rightarrow> u32 \<Rightarrow> u32 \<Rightarrow> pool option" where
  "pool_free p pages page_cnt = do {
     let page_idx = pg_no pages - pg_no (base p);
     a \<leftarrow> bitmap_all (used_map p) page_idx page_cnt;
     ASSERT a;
     b \<leftarrow> bitmap_set_multiple page_idx page_cnt False (used_map p);
     Some (p\<lparr>used_map := b\<rparr>)
   }"

definition palloc_free_multiple :: "u32 \<Rightarrow> u32 \<Rightarrow> phys \<Rightarrow> phys option" where
  "palloc_free_multiple pages page_cnt s = do {
     ASSERT (pg_ofs pages = 0);
     if pages = 0 \<or> page_cnt = 0 then Some s
     else do {
       let s' = s\<lparr>mem := mem_fill pages (PGSIZE * page_cnt) 0xcccccccc (mem s)\<rparr>;
       if page_from_pool (kernel_pool s) pages then do {
         p \<leftarrow> pool_free (kernel_pool s) pages page_cnt;
         Some (s'\<lparr>kernel_pool := p\<rparr>)
       } else if page_from_pool (user_pool s) pages then do {
         p \<leftarrow> pool_free (user_pool s) pages page_cnt;
         Some (s'\<lparr>user_pool := p\<rparr>)
       } else None
     }
   }"

definition palloc_free_page :: "u32 \<Rightarrow> phys \<Rightarrow> phys option" where
  "palloc_free_page page s = palloc_free_multiple page 1 s"

section \<open>Pools\<close>

text \<open>A pool whose pages lie in the kernel's part of the address space.\<close>

definition pool_ok :: "pool \<Rightarrow> bool" where
  "pool_ok p \<longleftrightarrow> bm_ok (used_map p) \<and> pg_ofs (base p) = 0 \<and> PHYS_BASE \<le> base p \<and>
     unat (base p) + 4096 * unat (bit_cnt (used_map p)) \<le> 2 ^ 32"

definition page_in :: "pool \<Rightarrow> u32 \<Rightarrow> bool" where
  "page_in p a \<longleftrightarrow> pg_ofs a = 0 \<and> base p \<le> a \<and>
     unat a < unat (base p) + 4096 * unat (bit_cnt (used_map p))"

definition page_idx :: "pool \<Rightarrow> u32 \<Rightarrow> nat" where
  "page_idx p a = (unat a - unat (base p)) div 4096"

definition page_used :: "pool \<Rightarrow> u32 \<Rightarrow> bool" where
  "page_used p a \<longleftrightarrow> bm_abs (used_map p) ! page_idx p a"

definition phys_ok :: "phys \<Rightarrow> bool" where
  "phys_ok s \<longleftrightarrow> pool_ok (kernel_pool s) \<and> pool_ok (user_pool s) \<and>
     unat (base (kernel_pool s)) + 4096 * unat (bit_cnt (used_map (kernel_pool s))) \<le> unat (base (user_pool s))"

lemma pool_ok_bits: "pool_ok p \<Longrightarrow> bm_slots_ok (used_map p)"
  by (simp add: pool_ok_def bm_slots_ok_def PHYS_BASE_def word_le_nat_alt)

lemma unat_pg_no: "unat (pg_no a) = unat a div 4096"
  by (simp add: pg_no_def PGBITS_def drop_bit_eq_div unat_div)

text \<open>The address of slot \<open>i\<close>.\<close>

lemma slot_addr:
  assumes p: "pool_ok p" and i: "unat i < unat (bit_cnt (used_map p))"
  shows "unat (base p + PGSIZE * i) = unat (base p) + 4096 * unat i" "page_in p (base p + PGSIZE * i)"
    "page_idx p (base p + PGSIZE * i) = unat i" "base p + PGSIZE * i \<noteq> 0" "is_kernel_vaddr (base p + PGSIZE * i)"
proof -
  have b: "4096 * unat i + 4096 \<le> 4096 * unat (bit_cnt (used_map p))" using i by simp
  have lim: "unat (base p) + 4096 * unat i < 2 ^ 32" using p b by (simp add: pool_ok_def)
  have m: "unat (PGSIZE * i) = 4096 * unat i"
    using lim by (simp add: PGSIZE_eq unat_word_ariths)
  then show u: "unat (base p + PGSIZE * i) = unat (base p) + 4096 * unat i"
    using lim unat_add_nowrap [of "base p" "PGSIZE * i"] by simp
  have "4096 dvd unat (base p)" using p by (simp add: pool_ok_def aligned_dvd)
  then show "page_in p (base p + PGSIZE * i)"
    using u b by (simp add: page_in_def aligned_dvd word_le_nat_alt)
  show "page_idx p (base p + PGSIZE * i) = unat i" using u by (simp add: page_idx_def)
  have k: "0xc0000000 \<le> unat (base p)" using p by (simp add: pool_ok_def word_le_nat_alt PHYS_BASE_def)
  show "is_kernel_vaddr (base p + PGSIZE * i)"
    using u k by (simp add: is_kernel_vaddr_def word_le_nat_alt PHYS_BASE_def)
  show "base p + PGSIZE * i \<noteq> 0" using u k by auto
qed

lemma page_in_idx:
  assumes p: "pool_ok p" and a: "page_in p a"
  shows "page_idx p a < unat (bit_cnt (used_map p))" "unat a = unat (base p) + 4096 * page_idx p a"
    "unat (pg_no a - pg_no (base p)) = page_idx p a" "page_from_pool p a"
proof -
  have d: "4096 dvd unat a" "4096 dvd unat (base p)" "unat (base p) \<le> unat a"
    using a p by (simp_all add: page_in_def pool_ok_def aligned_dvd word_le_nat_alt)
  then obtain x y where xy: "unat a = 4096 * x" "unat (base p) = 4096 * y" by (metis dvdE)
  then have "y \<le> x" using d(3) by simp
  have id: "page_idx p a = x - y" using xy by (simp add: page_idx_def flip: diff_mult_distrib2)
  have "4096 * x < 4096 * y + 4096 * unat (bit_cnt (used_map p))" using a xy by (simp add: page_in_def)
  then have xl: "x < y + unat (bit_cnt (used_map p))" by linarith
  then show r: "page_idx p a < unat (bit_cnt (used_map p))" using id \<open>y \<le> x\<close> by linarith
  show "unat a = unat (base p) + 4096 * page_idx p a"
    using xy id \<open>y \<le> x\<close> by (simp flip: distrib_left)
  have n: "unat (pg_no a) = x" "unat (pg_no (base p)) = y" by (simp_all add: unat_pg_no xy)
  then show "unat (pg_no a - pg_no (base p)) = page_idx p a"
    using id \<open>y \<le> x\<close> unat_sub [of "pg_no (base p)" "pg_no a"] by (simp add: word_le_nat_alt)
  have "4096 * y + 4096 * unat (bit_cnt (used_map p)) \<le> 2 ^ 32" using p xy by (simp add: pool_ok_def)
  then have "y + unat (bit_cnt (used_map p)) < 2 ^ 32" by simp
  then have "unat (pg_no (base p) + bit_cnt (used_map p)) = y + unat (bit_cnt (used_map p))"
    using n(2) unat_add_nowrap [of "pg_no (base p)" "bit_cnt (used_map p)"] by simp
  then show "page_from_pool p a"
    using n xl \<open>y \<le> x\<close> by (simp add: page_from_pool_def Let_def bitmap_size_def word_le_nat_alt word_less_nat_alt)
qed


lemma page_in_disjoint:
  "phys_ok s \<Longrightarrow> page_in (user_pool s) a \<Longrightarrow> \<not> page_from_pool (kernel_pool s) a"
proof -
  assume s: "phys_ok s" and a: "page_in (user_pool s) a"
  let ?k = "kernel_pool s" let ?n = "bit_cnt (used_map ?k)"
  have k: "4096 dvd unat (base ?k)" "unat (base ?k) + 4096 * unat ?n \<le> unat a"
    using s a by (auto simp: phys_ok_def pool_ok_def aligned_dvd page_in_def word_le_nat_alt)
  then obtain y where y: "unat (base ?k) = 4096 * y" by (metis dvdE)
  have l: "y + unat ?n \<le> unat a div 4096" using k y by (simp add: less_eq_div_iff_mult_less_eq)
  have "unat a div 4096 < 2 ^ 32" using unat_lt32 [of a] by (simp add: less_mult_imp_div_less)
  then have "unat (pg_no (base ?k) + ?n) = y + unat ?n"
    using l unat_add_nowrap [of "pg_no (base ?k)" ?n] y by (simp add: unat_pg_no)
  then show "\<not> page_from_pool ?k a"
    using l by (simp add: page_from_pool_def Let_def bitmap_size_def word_less_nat_alt unat_pg_no)
qed

subsection \<open>Allocation\<close>

text \<open>The pages of a group that starts at \<open>a\<close>.\<close>

definition group_free :: "pool \<Rightarrow> u32 \<Rightarrow> u32 \<Rightarrow> bool" where
  "group_free p a c \<longleftrightarrow> group_at (bm_abs (used_map p)) (page_idx p a) (unat c) False"

lemma pool_get_spec:
  assumes p: "pool_ok p" and c: "c \<noteq> 0"
  shows "\<exists>a p'. pool_get p c = Some (a, p') \<and> pool_ok p' \<and> base p' = base p \<and>
    bit_cnt (used_map p') = bit_cnt (used_map p) \<and>
    (a = 0 \<longrightarrow> p' = p \<and> (\<forall>i. \<not> group_at (bm_abs (used_map p)) i (unat c) False)) \<and>
    (a \<noteq> 0 \<longrightarrow> page_in p a \<and> group_free p a c \<and>
       bm_abs (used_map p') = fill (page_idx p a) (unat c) True (bm_abs (used_map p)))"
proof -
  have n: "unat (bit_cnt (used_map p)) < 2 ^ 32 - 1" and b: "bm_ok (used_map p)"
    using pool_ok_bits [OF p] by (simp_all add: bm_slots_ok_def)
  obtain i b' where sf: "bitmap_scan_and_flip 0 c False (used_map p) = Some (i, b')" "bm_ok b'"
      "bit_cnt b' = bit_cnt (used_map p)"
    using bitmap_scan_and_flip_abs [OF b _ n, of 0 c False] by auto
  let ?p' = "p\<lparr>used_map := b'\<rparr>"
  have ok': "pool_ok ?p'" using p sf by (simp add: pool_ok_def)
  note ok = pool_ok_bits [OF p]
  show ?thesis
  proof (cases "i = BITMAP_ERROR")
    case True
    then have "b' = used_map p" "\<forall>j. \<not> group_at (bm_abs (used_map p)) j (unat c) False"
      using bm.take_fail [OF ok sf(1) True] by simp_all
    then show ?thesis using sf True ok' p by (simp add: pool_get_def)
  next
    case False
    note t = bm.take_new [OF ok sf(1) False]
    then have r: "unat i + unat c \<le> unat (bit_cnt (used_map p))" by (simp add: group_at_def)
    moreover have "0 < unat c" using c by (simp add: unat_gt_0)
    ultimately have "unat i < unat (bit_cnt (used_map p))" by linarith
    note a = slot_addr [OF p this]
    show ?thesis using sf False ok' t a by (simp add: pool_get_def group_free_def)
  qed
qed

lemma pool_free_spec:
  assumes p: "pool_ok p" and a: "page_in p a" and r: "page_idx p a + unat c \<le> unat (bit_cnt (used_map p))"
  shows "pool_free p a c =
    (if \<forall>j<unat c. bm_abs (used_map p) ! (page_idx p a + j)
     then map_option (\<lambda>b. p\<lparr>used_map := b\<rparr>) (bitmap_set_multiple (pg_no a - pg_no (base p)) c False (used_map p))
     else None)"
proof -
  have b: "bm_ok (used_map p)" using p by (simp add: pool_ok_def)
  have u: "unat (pg_no a - pg_no (base p)) = page_idx p a" using page_in_idx(3) [OF p a] .
  have "bitmap_all (used_map p) (pg_no a - pg_no (base p)) c =
      Some (\<forall>j<unat c. bm_abs (used_map p) ! (page_idx p a + j))"
    using bitmap_contains_abs [OF b, of "pg_no a - pg_no (base p)" c False] r u by (simp add: bitmap_all_def)
  then show ?thesis
    by (cases "bitmap_set_multiple (pg_no a - pg_no (base p)) c False (used_map p)")
      (simp_all add: pool_free_def Let_def ASSERT_bind)
qed


text \<open>Allocation over both pools.  \<open>which flags\<close> is the pool the flags select.\<close>

definition which :: "u32 \<Rightarrow> phys \<Rightarrow> pool" where
  "which flags s = (if flags AND PAL_USER \<noteq> 0 then user_pool s else kernel_pool s)"

definition set_which :: "u32 \<Rightarrow> pool \<Rightarrow> phys \<Rightarrow> phys" where
  "set_which flags p s = (if flags AND PAL_USER \<noteq> 0 then s\<lparr>user_pool := p\<rparr> else s\<lparr>kernel_pool := p\<rparr>)"

lemma which_set [simp]: "which flags (set_which flags p s) = p" "mem (set_which flags p s) = mem s"
  by (simp_all add: which_def set_which_def)

lemma phys_ok_which: "phys_ok s \<Longrightarrow> pool_ok (which flags s)"
  by (simp add: phys_ok_def which_def)

lemma phys_ok_set:
  "phys_ok s \<Longrightarrow> pool_ok p \<Longrightarrow> base p = base (which flags s) \<Longrightarrow>
     bit_cnt (used_map p) = bit_cnt (used_map (which flags s)) \<Longrightarrow> phys_ok (set_which flags p s)"
  by (auto simp: phys_ok_def which_def set_which_def)

lemma set_which_self [simp]: "set_which flags (which flags s) s = s"
  by (simp add: set_which_def which_def)

lemma palloc_get_eq:
  assumes "c \<noteq> 0"
  shows "palloc_get_multiple flags c s = do {
     (a, p) \<leftarrow> pool_get (which flags s) c;
     if a \<noteq> 0 then Some (a, (set_which flags p s)\<lparr>mem :=
          if flags AND PAL_ZERO \<noteq> 0 then mem_fill a (PGSIZE * c) 0 (mem s) else mem s\<rparr>)
     else if flags AND PAL_ASSERT = 0 then Some (0, set_which flags p s) else None }"
  using assms
  by (cases "pool_get (which flags s) c")
    (auto simp: palloc_get_multiple_def which_def set_which_def ASSERT_bind split: prod.splits)

lemma palloc_get_spec:
  assumes s: "phys_ok s" and c: "c \<noteq> 0"
  shows "if \<exists>i. group_at (bm_abs (used_map (which flags s))) i (unat c) False
    then \<exists>a s'. palloc_get_multiple flags c s = Some (a, s') \<and> a \<noteq> 0 \<and> phys_ok s' \<and>
      page_in (which flags s) a \<and> group_free (which flags s) a c \<and>
      s' = set_which flags (which flags s') s\<lparr>mem := mem s'\<rparr> \<and> base (which flags s') = base (which flags s) \<and>
      bm_abs (used_map (which flags s')) =
        fill (page_idx (which flags s) a) (unat c) True (bm_abs (used_map (which flags s))) \<and>
      mem s' = (if flags AND PAL_ZERO \<noteq> 0 then mem_fill a (PGSIZE * c) 0 (mem s) else mem s)
    else palloc_get_multiple flags c s = (if flags AND PAL_ASSERT = 0 then Some (0, s) else None)"
proof -
  obtain a p' where g: "pool_get (which flags s) c = Some (a, p')" "pool_ok p'" "base p' = base (which flags s)"
    "bit_cnt (used_map p') = bit_cnt (used_map (which flags s))"
    and z: "a = 0 \<Longrightarrow> p' = which flags s \<and> (\<forall>i. \<not> group_at (bm_abs (used_map (which flags s))) i (unat c) False)"
    and nz: "a \<noteq> 0 \<Longrightarrow> page_in (which flags s) a \<and> group_free (which flags s) a c \<and>
       bm_abs (used_map p') = fill (page_idx (which flags s) a) (unat c) True (bm_abs (used_map (which flags s)))"
    using pool_get_spec [OF phys_ok_which [OF s] c, of flags] by metis
  show ?thesis
  proof (cases "a = 0")
    case True
    then show ?thesis using z [OF True] g by (simp add: palloc_get_eq [OF c])
  next
    case False
    have ex: "\<exists>i. group_at (bm_abs (used_map (which flags s))) i (unat c) False"
      using nz [OF False] by (auto simp: group_free_def)
    let ?m = "if flags AND PAL_ZERO \<noteq> 0 then mem_fill a (PGSIZE * c) 0 (mem s) else mem s"
    let ?s' = "(set_which flags p' s)\<lparr>mem := ?m\<rparr>"
    have w: "which flags ?s' = p'" by (simp add: which_def set_which_def)
    have "phys_ok ?s'" using phys_ok_set [OF s g(2-4)] by (simp add: phys_ok_def)
    moreover have "palloc_get_multiple flags c s = Some (a, ?s')" using g False by (simp add: palloc_get_eq [OF c])
    ultimately show ?thesis unfolding if_P [OF ex] using False nz [OF False] g w
      by (intro exI [of _ a] exI [of _ ?s']) (simp add: w)
  qed
qed


subsection \<open>Release\<close>

lemma page_in_from_pool:
  assumes s: "phys_ok s" and a: "page_in (which flags s) a"
  shows "if flags AND PAL_USER \<noteq> 0 then \<not> page_from_pool (kernel_pool s) a \<and> page_from_pool (user_pool s) a
    else page_from_pool (kernel_pool s) a"
  using assms page_in_disjoint [OF s] page_in_idx(4) [of "which flags s" a] phys_ok_which [OF s, of flags]
  by (auto simp: which_def split: if_splits)

lemma page_in_nonzero: "pool_ok p \<Longrightarrow> page_in p a \<Longrightarrow> a \<noteq> 0"
  by (auto simp: page_in_def pool_ok_def word_le_nat_alt PHYS_BASE_def)

lemma palloc_free_eq:
  assumes s: "phys_ok s" and a: "page_in (which flags s) a" and c: "c \<noteq> 0"
  shows "palloc_free_multiple a c s =
    map_option (\<lambda>p. (set_which flags p s)\<lparr>mem := mem_fill a (PGSIZE * c) 0xcccccccc (mem s)\<rparr>)
      (pool_free (which flags s) a c)"
proof -
  have al: "pg_ofs a = 0" "a \<noteq> 0"
    using a page_in_nonzero [OF phys_ok_which [OF s] a] by (simp_all add: page_in_def)
  show ?thesis
  proof (cases "flags AND PAL_USER \<noteq> 0")
    case True
    then show ?thesis using page_in_from_pool [OF s a] al c
      by (cases "pool_free (user_pool s) a c")
        (simp_all add: palloc_free_multiple_def Let_def which_def set_which_def)
  next
    case False
    then show ?thesis using page_in_from_pool [OF s a] al c
      by (cases "pool_free (kernel_pool s) a c")
        (simp_all add: palloc_free_multiple_def Let_def which_def set_which_def)
  qed
qed

text \<open>A held group is given back; a group that is not held, or only in part, stops the kernel.\<close>

lemma palloc_free_spec:
  assumes s: "phys_ok s" and a: "page_in (which flags s) a" and c: "c \<noteq> 0"
    and r: "page_idx (which flags s) a + unat c \<le> unat (bit_cnt (used_map (which flags s)))"
  shows "if \<forall>j<unat c. bm_abs (used_map (which flags s)) ! (page_idx (which flags s) a + j)
    then \<exists>p. palloc_free_multiple a c s =
        Some ((set_which flags p s)\<lparr>mem := mem_fill a (PGSIZE * c) 0xcccccccc (mem s)\<rparr>) \<and>
      pool_ok p \<and> base p = base (which flags s) \<and> bit_cnt (used_map p) = bit_cnt (used_map (which flags s)) \<and>
      bm_abs (used_map p) = fill (page_idx (which flags s) a) (unat c) False (bm_abs (used_map (which flags s)))
    else palloc_free_multiple a c s = None"
proof -
  let ?p = "which flags s"
  have ok: "pool_ok ?p" by (rule phys_ok_which [OF s])
  have u: "unat (pg_no a - pg_no (base ?p)) = page_idx ?p a" using page_in_idx(3) [OF ok a] .
  obtain b where b: "bitmap_set_multiple (pg_no a - pg_no (base ?p)) c False (used_map ?p) = Some b"
      "bm_ok b" "bit_cnt b = bit_cnt (used_map ?p)"
      "bm_abs b = fill (page_idx ?p a) (unat c) False (bm_abs (used_map ?p))"
    using bitmap_set_multiple_abs [of "used_map ?p" "pg_no a - pg_no (base ?p)" c False] ok r u
    by (auto simp: pool_ok_def)
  have "pool_ok (?p\<lparr>used_map := b\<rparr>)" using ok b by (simp add: pool_ok_def)
  then show ?thesis
    using b palloc_free_eq [OF s a c] pool_free_spec [OF ok a r]
    by (auto intro!: exI [of _ "?p\<lparr>used_map := b\<rparr>"])
qed

lemma palloc_get_SomeD:
  assumes s: "phys_ok s" and g: "palloc_get_multiple flags c s = Some (a, s')" "a \<noteq> 0"
  shows "c \<noteq> 0" "phys_ok s'" "page_in (which flags s) a" "group_free (which flags s) a c"
    "base (which flags s') = base (which flags s)"
    "s' = set_which flags (which flags s') s\<lparr>mem := mem s'\<rparr>"
    "bm_abs (used_map (which flags s')) =
        fill (page_idx (which flags s) a) (unat c) True (bm_abs (used_map (which flags s)))"
    "mem s' = (if flags AND PAL_ZERO \<noteq> 0 then mem_fill a (PGSIZE * c) 0 (mem s) else mem s)"
    "bit_cnt (used_map (which flags s')) = bit_cnt (used_map (which flags s))"
proof -
  show c: "c \<noteq> 0" using g by (auto simp: palloc_get_multiple_def)
  have ex: "\<exists>i. group_at (bm_abs (used_map (which flags s))) i (unat c) False"
  proof (rule ccontr)
    assume "\<not> ?thesis"
    then have "palloc_get_multiple flags c s = (if flags AND PAL_ASSERT = 0 then Some (0, s) else None)"
      using palloc_get_spec [OF s c, of flags] by (simp only: if_False)
    then show False using g by (auto split: if_splits)
  qed
  note q = palloc_get_spec [OF s c, of flags, unfolded if_P [OF ex]]
  from q g show "phys_ok s'" "page_in (which flags s) a" "group_free (which flags s) a c"
    "base (which flags s') = base (which flags s)" "s' = set_which flags (which flags s') s\<lparr>mem := mem s'\<rparr>"
    "bm_abs (used_map (which flags s')) =
        fill (page_idx (which flags s) a) (unat c) True (bm_abs (used_map (which flags s)))"
    "mem s' = (if flags AND PAL_ZERO \<noteq> 0 then mem_fill a (PGSIZE * c) 0 (mem s) else mem s)"
    by (metis option.inject prod.inject)+
  then have "length (bm_abs (used_map (which flags s'))) = length (bm_abs (used_map (which flags s)))"
    by (simp add: group_free_def group_at_def)
  then show "bit_cnt (used_map (which flags s')) = bit_cnt (used_map (which flags s))" by (simp add: word_unat_eq_iff)
qed

lemma palloc_get_other:
  assumes "phys_ok s" "palloc_get_multiple flags c s = Some (a, s')" "a \<noteq> 0"
  shows "if flags AND PAL_USER \<noteq> 0 then kernel_pool s' = kernel_pool s else user_pool s' = user_pool s"
  using palloc_get_SomeD(6) [OF assms] by (simp add: set_which_def split: if_splits)
    (metis phys.select_convs(1,2) phys.surjective phys.update_convs(1-3))+

lemma page_in_group:
  assumes p: "pool_ok p" "page_in p a" "group_free p a c"
  shows "unat a + 4096 * unat c \<le> unat (base p) + 4096 * unat (bit_cnt (used_map p))"
    "unat (PGSIZE * c) = 4096 * unat c"
proof -
  have r: "page_idx p a + unat c \<le> unat (bit_cnt (used_map p))" using p(3) by (simp add: group_free_def group_at_def)
  then have r': "4096 * page_idx p a + 4096 * unat c \<le> 4096 * unat (bit_cnt (used_map p))" by linarith
  then show t: "unat a + 4096 * unat c \<le> unat (base p) + 4096 * unat (bit_cnt (used_map p))"
    using page_in_idx(2) [OF p(1,2)] by simp
  have "0xc0000000 \<le> unat (base p)" "unat (base p) + 4096 * unat (bit_cnt (used_map p)) \<le> 2 ^ 32"
    using p(1) by (simp_all add: pool_ok_def word_le_nat_alt PHYS_BASE_def)
  then have "4096 * unat c < 2 ^ 32" using r' by linarith
  then show "unat (PGSIZE * c) = 4096 * unat c" by (simp add: PGSIZE_eq unat_word_ariths)
qed

subsection \<open>Single pages\<close>

lemma page_idx_eq:
  "pool_ok p \<Longrightarrow> page_in p a \<Longrightarrow> page_in p b \<Longrightarrow> page_idx p a = page_idx p b \<longleftrightarrow> a = b"
  using page_in_idx(2) [of p a] page_in_idx(2) [of p b] by (auto simp: word_unat_eq_iff)

lemma palloc_get_page_SomeD:
  assumes s: "phys_ok s" and g: "palloc_get_page flags s = Some (a, s')" "a \<noteq> 0"
  shows "phys_ok s'" "page_in (which flags s) a" "\<not> page_used (which flags s) a"
    "page_in (which flags s') q = page_in (which flags s) q"
    "page_in (which flags s) q \<Longrightarrow> page_used (which flags s') q \<longleftrightarrow> q = a \<or> page_used (which flags s) q"
    "if flags AND PAL_USER \<noteq> 0 then kernel_pool s' = kernel_pool s else user_pool s' = user_pool s"
    "mem s' = (if flags AND PAL_ZERO \<noteq> 0 then mem_fill a PGSIZE 0 (mem s) else mem s)"
proof -
  note r = palloc_get_SomeD [OF s g [unfolded palloc_get_page_def]]
  let ?p = "which flags s" and ?p' = "which flags s'"
  have ok: "pool_ok ?p" by (rule phys_ok_which [OF s])
  show "phys_ok s'" "page_in ?p a" by (rule r(2), rule r(3))
  have ga: "group_at (bm_abs (used_map ?p)) (page_idx ?p a) 1 False" using r(4) by (simp add: group_free_def)
  then show "\<not> page_used ?p a" using group_atD [OF ga, of "page_idx ?p a"] by (simp add: page_used_def)
  show "page_in ?p' q = page_in ?p q" using r(5,9) by (simp add: page_in_def)
  show "page_used ?p' q \<longleftrightarrow> q = a \<or> page_used ?p q" if q: "page_in ?p q"
  proof -
    have "page_idx ?p' q = page_idx ?p q" using r(5) by (simp add: page_idx_def)
    moreover have "page_idx ?p q < length (bm_abs (used_map ?p))" using page_in_idx(1) [OF ok q] by simp
    moreover have "page_idx ?p q = page_idx ?p a \<longleftrightarrow> q = a" by (rule page_idx_eq [OF ok q r(3)])
    ultimately show ?thesis
      using ga by (auto simp: page_used_def r(7) nth_fill group_at_def)
  qed
  show "if flags AND PAL_USER \<noteq> 0 then kernel_pool s' = kernel_pool s else user_pool s' = user_pool s"
    by (rule palloc_get_other [OF s g [unfolded palloc_get_page_def]])
  show "mem s' = (if flags AND PAL_ZERO \<noteq> 0 then mem_fill a PGSIZE 0 (mem s) else mem s)"
    using r(8) by simp
qed

lemma palloc_get_page_total:
  assumes "phys_ok s" "flags AND PAL_ASSERT = 0"
  shows "\<exists>a s'. palloc_get_page flags s = Some (a, s') \<and> (a = 0 \<longrightarrow> s' = s)"
  using palloc_get_spec [OF assms(1), of 1 flags] assms(2)
  by (auto simp: palloc_get_page_def split: if_splits)

section \<open>Properties\<close>

text \<open>
  C28 (\<^verbatim>\<open>palloc_get_multiple\<close>).  In a well-formed memory a request for \<open>c\<close> pages returns
  exactly when the pool the flags select has \<open>c\<close> consecutive free pages or \<^verbatim>\<open>PAL_ASSERT\<close> is
  not given.  In the first case the result is the aligned kernel address of such a group, whose pages
  are now marked used and which is zeroed if \<^verbatim>\<open>PAL_ZERO\<close> is given, and nothing else changes;
  in the second the result is null and nothing changes.
\<close>

theorem palloc_get_multiple_correct:
  assumes "phys_ok s" and "c \<noteq> 0"
  shows "if \<exists>i. group_at (bm_abs (used_map (which flags s))) i (unat c) False
    then \<exists>a s'. palloc_get_multiple flags c s = Some (a, s') \<and> a \<noteq> 0 \<and> phys_ok s' \<and>
      page_in (which flags s) a \<and> group_free (which flags s) a c \<and>
      s' = set_which flags (which flags s') s\<lparr>mem := mem s'\<rparr> \<and> base (which flags s') = base (which flags s) \<and>
      bm_abs (used_map (which flags s')) =
        fill (page_idx (which flags s) a) (unat c) True (bm_abs (used_map (which flags s))) \<and>
      mem s' = (if flags AND PAL_ZERO \<noteq> 0 then mem_fill a (PGSIZE * c) 0 (mem s) else mem s)
    else palloc_get_multiple flags c s = (if flags AND PAL_ASSERT = 0 then Some (0, s) else None)"
  by (rule palloc_get_spec [OF assms])

text \<open>A small memory: a kernel pool of 40 pages and a user pool of 3.\<close>

definition demo_phys :: phys where
  "demo_phys = \<lparr>kernel_pool = \<lparr>used_map = \<lparr>bit_cnt = 40, bits = [0x3, 0]\<rparr>, base = 0xc0101000\<rparr>,
     user_pool = \<lparr>used_map = \<lparr>bit_cnt = 3, bits = [0x2]\<rparr>, base = 0xc012a000\<rparr>, mem = (\<lambda>_. 7)\<rparr>"

lemma demo_phys_ok: "phys_ok demo_phys"
  by (simp add: phys_ok_def pool_ok_def demo_phys_def bm_ok_def PHYS_BASE_def pg_ofs_def PGMASK_def)

theorem palloc_get_multiple_correct_witness:
  "let flags = PAL_ZERO; c = 4; s = demo_phys in
   if \<exists>i. group_at (bm_abs (used_map (which flags s))) i (unat c) False
    then \<exists>a s'. palloc_get_multiple flags c s = Some (a, s') \<and> a \<noteq> 0 \<and> phys_ok s' \<and>
      page_in (which flags s) a \<and> group_free (which flags s) a c \<and>
      s' = set_which flags (which flags s') s\<lparr>mem := mem s'\<rparr> \<and> base (which flags s') = base (which flags s) \<and>
      bm_abs (used_map (which flags s')) =
        fill (page_idx (which flags s) a) (unat c) True (bm_abs (used_map (which flags s))) \<and>
      mem s' = (if flags AND PAL_ZERO \<noteq> 0 then mem_fill a (PGSIZE * c) 0 (mem s) else mem s)
    else palloc_get_multiple flags c s = (if flags AND PAL_ASSERT = 0 then Some (0, s) else None)"
  unfolding Let_def by (rule palloc_get_multiple_correct [OF demo_phys_ok]) simp

text \<open>
  C19 (\<^verbatim>\<open>palloc_get_multiple\<close>).  Two groups obtained one after the other, from whichever pools,
  share no byte.
\<close>

theorem palloc_groups_disjoint:
  assumes s: "phys_ok s" and g1: "palloc_get_multiple f c s = Some (a, s')" "a \<noteq> 0"
    and g2: "palloc_get_multiple f' d s' = Some (b, s'')" "b \<noteq> 0"
  shows "{unat a ..< unat a + 4096 * unat c} \<inter> {unat b ..< unat b + 4096 * unat d} = {}"
proof -
  note r1 = palloc_get_SomeD [OF s g1] note s' = r1(2)
  note r2 = palloc_get_SomeD [OF s' g2]
  note e1 = page_in_group [OF phys_ok_which [OF s] r1(3,4)]
  note e2 = page_in_group [OF phys_ok_which [OF s'] r2(3,4)]
  have lo: "unat (base (which f s)) \<le> unat a" "unat (base (which f' s')) \<le> unat b"
    using r1(3) r2(3) by (simp_all add: page_in_def word_le_nat_alt)
  show ?thesis
  proof (cases "(f AND PAL_USER \<noteq> 0) = (f' AND PAL_USER \<noteq> 0)")
    case True
    then have w: "which f' s' = which f s'" by (simp add: which_def)
    note a = page_in_idx(2) [OF phys_ok_which [OF s] r1(3)]
    note b = page_in_idx(2) [OF phys_ok_which [OF s'] r2(3)]
    let ?i = "page_idx (which f s) a" and ?j = "page_idx (which f s') b"
    have l: "?i + unat c \<le> length (bm_abs (used_map (which f s)))"
      using r1(4) by (simp add: group_free_def group_at_def)
    have "?i + unat c \<le> ?j \<or> ?j + unat d \<le> ?i"
    proof (rule ccontr)
      assume h: "\<not> ?thesis"
      let ?x = "max ?i ?j"
      have x: "?i \<le> ?x" "?x < ?i + unat c" "?j \<le> ?x" "?x < ?j + unat d"
        using h r1(1) r2(1) by (auto simp: unat_gt_0)
      have "bm_abs (used_map (which f s')) ! ?x" using x(1,2) l by (simp add: r1(7) nth_fill)
      moreover have "\<not> bm_abs (used_map (which f s')) ! ?x"
        using r2(4) x(3,4) group_atD by (fastforce simp: group_free_def w)
      ultimately show False by simp
    qed
    then show ?thesis using a b r1(5) by (auto simp: w)
  next
    case False
    have "unat a + 4096 * unat c \<le> unat b \<or> unat b + 4096 * unat d \<le> unat a"
    proof (cases "f AND PAL_USER \<noteq> 0")
      case True
      then show ?thesis using False s s' e1(1) e2(1) lo r1(5,9) by (auto simp: which_def phys_ok_def)
    next
      case U: False
      then show ?thesis using False s s' e1(1) e2(1) lo r1(5,9) by (auto simp: which_def phys_ok_def)
    qed
    then show ?thesis by auto
  qed
qed

theorem palloc_groups_disjoint_witness:
  "\<exists>a s' b s''. palloc_get_multiple PAL_USER 1 demo_phys = Some (a, s') \<and> a \<noteq> 0 \<and>
    palloc_get_multiple PAL_USER 1 s' = Some (b, s'') \<and> b \<noteq> 0 \<and>
    {unat a ..< unat a + 4096 * unat (1 :: u32)} \<inter> {unat b ..< unat b + 4096 * unat (1 :: u32)} = {}"
proof -
  have "case palloc_get_multiple PAL_USER 1 demo_phys of None \<Rightarrow> False
    | Some (a, s') \<Rightarrow> (case palloc_get_multiple PAL_USER 1 s' of None \<Rightarrow> False | Some (b, _) \<Rightarrow> a \<noteq> 0 \<and> b \<noteq> 0)"
    by code_simp
  then obtain a s' b s'' where g: "palloc_get_multiple PAL_USER 1 demo_phys = Some (a, s')" "a \<noteq> 0"
      "palloc_get_multiple PAL_USER 1 s' = Some (b, s'')" "b \<noteq> 0"
    by (auto split: option.splits)
  then show ?thesis using palloc_groups_disjoint [OF demo_phys_ok g] by blast
qed

text \<open>
  C18 (\<^verbatim>\<open>palloc_get_multiple\<close>, \<^verbatim>\<open>palloc_free_multiple\<close>).  Giving back a group that was
  obtained returns and restores the maps of both pools; the memory outside the group is what it was, and
  giving the group back a second time stops the kernel.
\<close>

theorem palloc_get_free:
  assumes s: "phys_ok s" and g: "palloc_get_multiple f c s = Some (a, s')" "a \<noteq> 0"
  shows "\<exists>s''. palloc_free_multiple a c s' = Some s'' \<and> phys_ok s'' \<and>
    bm_abs (used_map (kernel_pool s'')) = bm_abs (used_map (kernel_pool s)) \<and>
    bm_abs (used_map (user_pool s'')) = bm_abs (used_map (user_pool s)) \<and>
    base (kernel_pool s'') = base (kernel_pool s) \<and> base (user_pool s'') = base (user_pool s) \<and>
    (\<forall>x. PGSIZE * c \<le> x - a \<longrightarrow> mem s'' x = mem s x) \<and>
    palloc_free_multiple a c s'' = None"
proof -
  note r = palloc_get_SomeD [OF s g]
  let ?p = "which f s" and ?p' = "which f s'"
  have idx: "page_idx ?p' a = page_idx ?p a" using r(5) by (simp add: page_idx_def)
  have in': "page_in ?p' a" using r(3,5,9) by (simp add: page_in_def)
  have l: "page_idx ?p a + unat c \<le> length (bm_abs (used_map ?p))"
    using r(4) by (simp add: group_free_def group_at_def)
  have rng: "page_idx ?p' a + unat c \<le> unat (bit_cnt (used_map ?p'))" using l idx r(9) by simp
  have used: "\<forall>j<unat c. bm_abs (used_map ?p') ! (page_idx ?p' a + j)"
    using l by (simp add: r(7) idx nth_fill)
  obtain p where p: "palloc_free_multiple a c s' =
        Some ((set_which f p s')\<lparr>mem := mem_fill a (PGSIZE * c) 0xcccccccc (mem s')\<rparr>)"
      "pool_ok p" "base p = base ?p'" "bit_cnt (used_map p) = bit_cnt (used_map ?p')"
      "bm_abs (used_map p) = fill (page_idx ?p' a) (unat c) False (bm_abs (used_map ?p'))"
    using palloc_free_spec [OF r(2) in' r(1) rng, unfolded if_P [OF used]] by blast
  let ?s = "(set_which f p s')\<lparr>mem := mem_fill a (PGSIZE * c) 0xcccccccc (mem s')\<rparr>"
  have abs: "bm_abs (used_map p) = bm_abs (used_map ?p)"
    using fill_undo [of "bm_abs (used_map ?p)" "page_idx ?p a" "unat c"] r(4)
    by (simp add: p(5) idx r(7) group_free_def)
  have ok: "phys_ok ?s" using phys_ok_set [OF r(2) p(2-4)] by (simp add: phys_ok_def)
  have w: "which f ?s = p" by (simp add: which_def set_which_def)
  note other = palloc_get_other [OF s g]
  have pi: "page_idx p a = page_idx ?p a" using p(3) idx by (simp add: page_idx_def)
  have "\<not> bm_abs (used_map p) ! (page_idx p a + 0)"
    using group_atD [OF r(4) [unfolded group_free_def], of "page_idx ?p a"] r(1) by (simp add: abs pi unat_gt_0)
  then have n: "\<not> (\<forall>j<unat c. bm_abs (used_map p) ! (page_idx p a + j))"
    using r(1) by (metis unat_gt_0)
  have "page_in p a" "page_idx p a + unat c \<le> unat (bit_cnt (used_map p))"
    using in' rng p(3,4) by (simp_all add: page_in_def page_idx_def)
  then have "palloc_free_multiple a c ?s = None"
    using palloc_free_spec [OF ok _ r(1), of f a, unfolded w if_not_P [OF n]] by blast
  moreover have "\<forall>x. PGSIZE * c \<le> x - a \<longrightarrow> mem ?s x = mem s x"
    by (auto simp: r(8) mem_fill_def linorder_not_less [symmetric])
  moreover have "bm_abs (used_map (kernel_pool ?s)) = bm_abs (used_map (kernel_pool s))"
    "bm_abs (used_map (user_pool ?s)) = bm_abs (used_map (user_pool s))"
    "base (kernel_pool ?s) = base (kernel_pool s)" "base (user_pool ?s) = base (user_pool s)"
    using abs p(3) r(5) other by (auto simp: set_which_def which_def split: if_splits)
  ultimately show ?thesis using p(1) ok by blast
qed

theorem palloc_get_free_witness:
  "\<exists>a s' s''. palloc_get_multiple PAL_USER 1 demo_phys = Some (a, s') \<and> a \<noteq> 0 \<and>
    palloc_free_multiple a 1 s' = Some s'' \<and> phys_ok s'' \<and>
    bm_abs (used_map (kernel_pool s'')) = bm_abs (used_map (kernel_pool demo_phys)) \<and>
    bm_abs (used_map (user_pool s'')) = bm_abs (used_map (user_pool demo_phys)) \<and>
    base (kernel_pool s'') = base (kernel_pool demo_phys) \<and> base (user_pool s'') = base (user_pool demo_phys) \<and>
    (\<forall>x. PGSIZE * 1 \<le> x - a \<longrightarrow> mem s'' x = mem demo_phys x) \<and>
    palloc_free_multiple a 1 s'' = None"
proof -
  have "case palloc_get_multiple PAL_USER 1 demo_phys of None \<Rightarrow> False | Some (a, s') \<Rightarrow> a \<noteq> 0"
    by code_simp
  then obtain a s' where g: "palloc_get_multiple PAL_USER 1 demo_phys = Some (a, s')" "a \<noteq> 0"
    by (auto split: option.splits)
  then show ?thesis using palloc_get_free [OF demo_phys_ok g] by blast
qed

text \<open>Initialisation.\<close>

lemma unat_pages: "unat n < 2 ^ 20 \<Longrightarrow> unat (n * PGSIZE) = 4096 * unat n"
  by (simp add: PGSIZE_eq unat_word_ariths)

lemma buf_size:
  assumes "unat n < 2 ^ 20"
  shows "unat (bitmap_buf_size n) = 8 + 4 * ((unat n + 31) div 32)"
proof -
  have "unat (elem_cnt n) = (unat n + 31) div 32"
    using assms by (simp add: elem_cnt_def ELEM_BITS_def unat_div unat_word_ariths)
  moreover have "(unat n + 31) div 32 \<le> 2 ^ 15" using assms by simp
  ultimately show ?thesis by (simp add: bitmap_buf_size_def byte_cnt_def unat_word_ariths)
qed

lemma buf_pages:
  assumes n: "unat n < 2 ^ 20" "0 < unat n"
  defines "k \<equiv> unat ((bitmap_buf_size n + PGSIZE - 1) div PGSIZE)"
  shows "8 + 4 * ((unat n + 31) div 32) \<le> 4096 * k" "k \<le> unat n" "1 \<le> k"
proof -
  let ?q = "(unat n + 31) div 32"
  have q: "?q \<le> 2 ^ 15" using n by simp
  then have u: "k = (8 + 4 * ?q + 4095) div 4096"
    using buf_size [OF n(1)] by (simp add: k_def PGSIZE_eq unat_div unat_word_ariths)
  show "8 + 4 * ?q \<le> 4096 * k" unfolding u by (rule round_up_4096)
  then show "1 \<le> k" by (cases k) simp_all
  have "?q \<le> unat n" using n by simp
  then show "k \<le> unat n" unfolding u using n(2) by simp
qed

lemma init_pool_ok:
  assumes n: "unat n < 2 ^ 20" "0 < unat n"
    and b: "pg_ofs bs = 0" "PHYS_BASE \<le> bs" "unat bs + 4096 * unat n < 2 ^ 32"
  shows "\<exists>p. init_pool bs n m = Some p \<and> pool_ok p \<and> unat bs < unat (base p) \<and>
    unat (base p) + 4096 * unat (bit_cnt (used_map p)) = unat bs + 4096 * unat n \<and>
    unat (bit_cnt (used_map p)) < unat n \<and>
    bm_abs (used_map p) = replicate (unat (bit_cnt (used_map p))) False"
proof -
  let ?k = "(bitmap_buf_size n + PGSIZE - 1) div PGSIZE" let ?K = "unat ?k"
  note k = buf_pages [OF n]
  have kn: "unat (n - ?k) = unat n - ?K" using k(2) by (simp add: unat_sub word_le_nat_alt)
  have kp: "unat (?k * PGSIZE) = 4096 * ?K" using k(2) n by (intro unat_pages) simp
  let ?ws = "map (\<lambda>i. m (bs + 4 * of_nat i)) [0..<unat (?k * PGSIZE) div 4]"
  let ?b = "\<lparr>bit_cnt = n - ?k, bits = drop 2 ?ws\<rparr>"
  have "(unat n - ?K + 31) div 32 \<le> (unat n + 31) div 32" by (rule div_le_mono) simp
  then have buf: "unat (bitmap_buf_size (n - ?k)) \<le> 4096 * ?K"
    using buf_size [of "n - ?k"] kn n k(1) by simp
  have "x \<le> 32 * ((x + 31) div 32)" for x :: nat by presburger
  from this [of "unat n"] have "unat n \<le> 32 * (1024 * ?K - 2)" using k(1) by linarith
  then have ok: "bm_ok ?b" using kn kp by (simp add: bm_ok_def)
  obtain b' where b': "bitmap_set_all False ?b = Some b'" "bm_ok b'" "bit_cnt b' = n - ?k"
    "bm_abs b' = replicate (unat (n - ?k)) False"
    using bitmap_set_all_abs [OF ok, of False] by auto
  have u: "unat (bs + ?k * PGSIZE) = unat bs + 4096 * ?K"
    using kp k(2) b(3) unat_add_nowrap [of bs "?k * PGSIZE"] by simp
  let ?p = "\<lparr>used_map = b', base = bs + ?k * PGSIZE\<rparr>"
  have g: "bitmap_buf_size (n - ?k) \<le> ?k * PGSIZE" using buf kp by (simp add: word_le_nat_alt)
  have h: "\<not> ?k > n" using k(2) by (simp add: word_less_nat_alt)
  have "init_pool bs n m = Some ?p"
    unfolding init_pool_def Let_def bitmap_create_in_buf_def using g h b' by simp
  moreover have e: "unat (base ?p) + 4096 * unat (bit_cnt (used_map ?p)) = unat bs + 4096 * unat n"
    using u b'(3) kn k(2) by simp
  moreover have "pool_ok ?p"
    using b'(2) b e u by (simp add: pool_ok_def aligned_dvd word_le_nat_alt)
  ultimately show ?thesis using u k(2,3) kn b'(3,4) by (intro exI [of _ ?p]) simp
qed

text \<open>
  C29 (\<^verbatim>\<open>palloc_init\<close>).  On a machine with at least 258 pages and less than 1 GB of memory, and a
  limit of at least one user page, initialisation returns a well-formed memory: the two pools do not
  overlap, lie between 1 MB and the end of memory, every page is free, and the user pool respects the
  limit.
\<close>

theorem palloc_init_correct:
  assumes r: "258 \<le> r" "r < 2 ^ 18" and l: "1 \<le> limit"
  shows "\<exists>s. palloc_init r limit m = Some s \<and> phys_ok s \<and> mem s = m \<and>
    unat PHYS_BASE + 2 ^ 20 < unat (base (kernel_pool s)) \<and>
    unat (base (user_pool s)) + 4096 * unat (bit_cnt (used_map (user_pool s))) = unat PHYS_BASE + 4096 * unat r \<and>
    unat (bit_cnt (used_map (user_pool s))) < unat limit \<and>
    bm_abs (used_map (kernel_pool s)) = replicate (unat (bit_cnt (used_map (kernel_pool s)))) False \<and>
    bm_abs (used_map (user_pool s)) = replicate (unat (bit_cnt (used_map (user_pool s)))) False"
proof -
  have R: "258 \<le> unat r" "unat r < 262144" "1 \<le> unat limit"
    using r l by (simp_all add: word_le_nat_alt word_less_nat_alt)
  let ?fs = "0xc0100000 :: u32" and ?fe = "r * PGSIZE + PHYS_BASE"
  have rp: "unat (r * PGSIZE) = 4096 * unat r" using R by (intro unat_pages) simp
  have fe: "ptov (r * PGSIZE) = Some ?fe" "unat ?fe = 4096 * unat r + 0xc0000000"
    using rp R unat_add_nowrap [of "r * PGSIZE" PHYS_BASE]
    by (simp_all add: ptov_def PHYS_BASE_def word_less_nat_alt)
  have fs: "ptov (1024 * 1024) = Some ?fs" by (simp add: ptov_def PHYS_BASE_def)
  have d: "unat (?fe - ?fs) = 4096 * (unat r - 256)" using fe(2) R by (simp add: unat_sub word_le_nat_alt)
  then have "sint (?fe - ?fs) = int (4096 * (unat r - 256))"
    using R sint_small [of "?fe - ?fs"] by simp
  then have fp: "word_of_int (cdiv (sint (?fe - ?fs)) 4096) = (of_nat (unat r - 256) :: u32)"
    by (simp add: cdiv_nonneg)
  define free where "free = (of_nat (unat r - 256) :: u32)"
  define u where "u = (if free div 2 > limit then limit else free div 2)"
  have F: "unat free = unat r - 256" unfolding free_def using R by (intro unat_of_nat32) simp
  have h: "unat (free div 2) = (unat r - 256) div 2" using F by (simp add: unat_div)
  have U: "unat u = min (unat limit) ((unat r - 256) div 2)" using h by (simp add: u_def min_def word_less_nat_alt)
  have K: "unat (free - u) = unat r - 256 - unat u"
    using F U by (subst unat_sub) (simp_all add: word_le_nat_alt min_le_iff_disj)
  have U1: "1 \<le> unat u" "2 * unat u \<le> unat r - 256" unfolding U using R by (auto simp: min_def)
  have K1: "unat (free - u) < 2 ^ 20" "0 < unat (free - u)" "unat (free - u) + unat u = unat r - 256"
    using K U1 R by auto
  have "unat (free - u) < 261888" using K1(3) R by linarith
  then obtain kp where kp: "init_pool ?fs (free - u) m = Some kp" "pool_ok kp" "0xc0100000 < unat (base kp)"
    "unat (base kp) + 4096 * unat (bit_cnt (used_map kp)) = 0xc0100000 + 4096 * unat (free - u)"
    "bm_abs (used_map kp) = replicate (unat (bit_cnt (used_map kp))) False"
    using init_pool_ok [OF K1(1,2), of ?fs m] K1 R by (auto simp: aligned_dvd PHYS_BASE_def)
  let ?us = "?fs + (free - u) * PGSIZE"
  note km = unat_pages [OF K1(1)]
  have us: "unat ?us = 0xc0100000 + 4096 * unat (free - u)"
    using km K1 R unat_add_nowrap [of ?fs "(free - u) * PGSIZE"] by simp
  have ub: "pg_ofs ?us = 0" "PHYS_BASE \<le> ?us" "unat ?us + 4096 * unat u < 2 ^ 32" "unat u < 2 ^ 20"
    using us K1 R U1 by (simp_all add: aligned_dvd word_le_nat_alt PHYS_BASE_def)
  obtain up where up: "init_pool ?us u m = Some up" "pool_ok up" "unat ?us < unat (base up)"
    "unat (base up) + 4096 * unat (bit_cnt (used_map up)) = unat ?us + 4096 * unat u"
    "unat (bit_cnt (used_map up)) < unat u"
    "bm_abs (used_map up) = replicate (unat (bit_cnt (used_map up))) False"
    using init_pool_ok [OF ub(4) _ ub(1-3), of m] U1 by auto
  let ?s = "\<lparr>kernel_pool = kp, user_pool = up, mem = m\<rparr>"
  have "palloc_init r limit m = Some ?s" unfolding palloc_init_def Let_def fs fe(1) Option.bind.bind_lunit fp
      free_def [symmetric] u_def [symmetric] kp(1) up(1) by simp
  moreover have "phys_ok ?s" using kp(2,4) up(2,3) us by (simp add: phys_ok_def)
  moreover have "unat (base up) + 4096 * unat (bit_cnt (used_map up)) = unat PHYS_BASE + 4096 * unat r"
    using up(4) us K1(3) R by (simp add: PHYS_BASE_def)
  moreover have "unat (bit_cnt (used_map up)) < unat limit" using up(5) U by simp
  ultimately show ?thesis using kp(3,5) up(6) by (intro exI [of _ ?s]) (simp add: PHYS_BASE_def)
qed

theorem palloc_init_correct_witness:
  "\<exists>s. palloc_init 1024 100 (\<lambda>_. 5) = Some s \<and> phys_ok s \<and> mem s = (\<lambda>_. 5) \<and>
    unat PHYS_BASE + 2 ^ 20 < unat (base (kernel_pool s)) \<and>
    unat (base (user_pool s)) + 4096 * unat (bit_cnt (used_map (user_pool s))) =
      unat PHYS_BASE + 4096 * unat (1024 :: u32) \<and>
    unat (bit_cnt (used_map (user_pool s))) < unat (100 :: u32) \<and>
    bm_abs (used_map (kernel_pool s)) = replicate (unat (bit_cnt (used_map (kernel_pool s)))) False \<and>
    bm_abs (used_map (user_pool s)) = replicate (unat (bit_cnt (used_map (user_pool s)))) False"
  by (rule palloc_init_correct) simp_all

end
