(* ===== verification/Pagedir.thy ===== *)
theory Pagedir
  imports Palloc
begin

unbundle bit_operations_syntax

text \<open>
  Page directories: \<^verbatim>\<open>src/userprog/pagedir.c\<close>.

  The tables lie in the memory of theory \<open>Palloc\<close> and are read and written there.  The state adds the
  boot page directory, the amount of memory, the page directory base register and the translation
  lookaside buffer, which maps a page number to the entry the processor has cached; loading the
  register empties it.
\<close>

section \<open>Operations\<close>

record mmu =
  ph :: phys
  init_page_dir :: u32
  init_ram_pages :: u32
  cr3 :: u32
  tlb :: "u32 \<Rightarrow> u32 option"

definition load :: "u32 \<Rightarrow> mmu \<Rightarrow> u32" where
  "load a s = mem (ph s) a"

definition store :: "u32 \<Rightarrow> u32 \<Rightarrow> mmu \<Rightarrow> mmu" where
  "store a v s = s\<lparr>ph := (ph s)\<lparr>mem := (mem (ph s))(a := v)\<rparr>\<rparr>"

definition pagedir_activate :: "u32 \<Rightarrow> mmu \<Rightarrow> mmu option" where
  "pagedir_activate pd s = do {
     let pd = (if pd = 0 then init_page_dir s else pd);
     p \<leftarrow> vtop pd;
     Some (s\<lparr>cr3 := p, tlb := (\<lambda>_. None)\<rparr>)
   }"

definition active_pd :: "mmu \<Rightarrow> u32 option" where
  "active_pd s = ptov (cr3 s)"

definition invalidate_pagedir :: "u32 \<Rightarrow> mmu \<Rightarrow> mmu option" where
  "invalidate_pagedir pd s = do {
     a \<leftarrow> active_pd s;
     if a = pd then pagedir_activate pd s else Some s
   }"

definition pagedir_create :: "mmu \<Rightarrow> (u32 \<times> mmu) option" where
  "pagedir_create s = do {
     (pd, p) \<leftarrow> palloc_get_page 0 (ph s);
     let s = s\<lparr>ph := p\<rparr>;
     Some (pd, if pd \<noteq> 0
               then s\<lparr>ph := (ph s)\<lparr>mem := mem_copy pd (init_page_dir s) PGSIZE (mem (ph s))\<rparr>\<rparr> else s)
   }"

definition free_page :: "u32 \<Rightarrow> mmu \<Rightarrow> mmu option" where
  "free_page p s = do { q \<leftarrow> palloc_free_page p (ph s); Some (s\<lparr>ph := q\<rparr>) }"

definition pagedir_destroy :: "u32 \<Rightarrow> mmu \<Rightarrow> mmu option" where
  "pagedir_destroy pd s =
     (if pd = 0 then Some s
      else do {
        ASSERT (pd \<noteq> init_page_dir s);
        s \<leftarrow> for_up (unat (pd_no PHYS_BASE)) 0 (\<lambda>i s.
          if load (pd + 4 * i) s AND PTE_P \<noteq> 0 then do {
            pt \<leftarrow> pde_get_pt (load (pd + 4 * i) s);
            s \<leftarrow> for_up (unat (PGSIZE div 4)) 0 (\<lambda>j s.
              if load (pt + 4 * j) s AND PTE_P \<noteq> 0 then do {
                page \<leftarrow> pte_get_page (load (pt + 4 * j) s);
                free_page page s
              } else Some s) s;
            free_page pt s
          } else Some s) s;
        free_page pd s
      })"

definition lookup_page :: "u32 \<Rightarrow> u32 \<Rightarrow> bool \<Rightarrow> mmu \<Rightarrow> (u32 \<times> mmu) option" where
  "lookup_page pd vaddr create s = do {
     ASSERT (pd \<noteq> 0);
     ASSERT (\<not> create \<or> is_user_vaddr vaddr);
     let pde = pd + 4 * pd_no vaddr;
     (found, s) \<leftarrow>
       (if load pde s = 0 then
          if create then do {
            (pt, p) \<leftarrow> palloc_get_page PAL_ZERO (ph s);
            let s = s\<lparr>ph := p\<rparr>;
            if pt = 0 then Some (False, s)
            else do {
              e \<leftarrow> pde_create pt;
              Some (True, store pde e s)
            }
          } else Some (False, s)
        else Some (True, s));
     if found then do {
       pt \<leftarrow> pde_get_pt (load pde s);
       Some (pt + 4 * pt_no vaddr, s)
     } else Some (0, s)
   }"

definition pagedir_set_page :: "u32 \<Rightarrow> u32 \<Rightarrow> u32 \<Rightarrow> bool \<Rightarrow> mmu \<Rightarrow> (bool \<times> mmu) option" where
  "pagedir_set_page pd upage kpage writable s = do {
     ASSERT (pg_ofs upage = 0);
     ASSERT (pg_ofs kpage = 0);
     ASSERT (is_user_vaddr upage);
     k \<leftarrow> vtop kpage;
     ASSERT (drop_bit 12 k < init_ram_pages s);
     ASSERT (pd \<noteq> init_page_dir s);
     (pte, s) \<leftarrow> lookup_page pd upage True s;
     if pte \<noteq> 0 then do {
       ASSERT (load pte s AND PTE_P = 0);
       e \<leftarrow> pte_create_user kpage writable;
       Some (True, store pte e s)
     } else Some (False, s)
   }"

definition pagedir_get_page :: "u32 \<Rightarrow> u32 \<Rightarrow> mmu \<Rightarrow> u32 option" where
  "pagedir_get_page pd uaddr s = do {
     ASSERT (is_user_vaddr uaddr);
     (pte, s) \<leftarrow> lookup_page pd uaddr False s;
     if pte \<noteq> 0 \<and> load pte s AND PTE_P \<noteq> 0 then do {
       p \<leftarrow> pte_get_page (load pte s);
       Some (p + pg_ofs uaddr)
     } else Some 0
   }"

definition pagedir_clear_page :: "u32 \<Rightarrow> u32 \<Rightarrow> mmu \<Rightarrow> mmu option" where
  "pagedir_clear_page pd upage s = do {
     ASSERT (pg_ofs upage = 0);
     ASSERT (is_user_vaddr upage);
     (pte, s) \<leftarrow> lookup_page pd upage False s;
     if pte \<noteq> 0 \<and> load pte s AND PTE_P \<noteq> 0
     then invalidate_pagedir pd (store pte (load pte s AND NOT PTE_P) s)
     else Some s
   }"

definition pagedir_is_dirty :: "u32 \<Rightarrow> u32 \<Rightarrow> mmu \<Rightarrow> bool option" where
  "pagedir_is_dirty pd vpage s = do {
     (pte, s) \<leftarrow> lookup_page pd vpage False s;
     Some (pte \<noteq> 0 \<and> load pte s AND PTE_D \<noteq> 0)
   }"

definition pagedir_set_dirty :: "u32 \<Rightarrow> u32 \<Rightarrow> bool \<Rightarrow> mmu \<Rightarrow> mmu option" where
  "pagedir_set_dirty pd vpage dirty s = do {
     (pte, s) \<leftarrow> lookup_page pd vpage False s;
     if pte \<noteq> 0 then
       if dirty then Some (store pte (load pte s OR PTE_D) s)
       else invalidate_pagedir pd (store pte (load pte s AND NOT PTE_D) s)
     else Some s
   }"

definition pagedir_is_accessed :: "u32 \<Rightarrow> u32 \<Rightarrow> mmu \<Rightarrow> bool option" where
  "pagedir_is_accessed pd vpage s = do {
     (pte, s) \<leftarrow> lookup_page pd vpage False s;
     Some (pte \<noteq> 0 \<and> load pte s AND PTE_A \<noteq> 0)
   }"

definition pagedir_set_accessed :: "u32 \<Rightarrow> u32 \<Rightarrow> bool \<Rightarrow> mmu \<Rightarrow> mmu option" where
  "pagedir_set_accessed pd vpage accessed s = do {
     (pte, s) \<leftarrow> lookup_page pd vpage False s;
     if pte \<noteq> 0 then
       if accessed then Some (store pte (load pte s OR PTE_A) s)
       else invalidate_pagedir pd (store pte (load pte s AND NOT PTE_A) s)
     else Some s
   }"

section \<open>Well-formed page directories\<close>

text \<open>
  A directory is a used page of the kernel pool.  Each of its entries is null or leads to a page
  table of its own, another used page of the kernel pool.  \<open>pte_of s pd va\<close> is the entry for \<open>va\<close>, zero
  when there is no table for it.  A present entry holds a physical
  address below 1 GB, which the kernel reaches through its mapping.
\<close>

definition kernel_page :: "mmu \<Rightarrow> u32 \<Rightarrow> bool" where
  "kernel_page s p \<longleftrightarrow> page_in (kernel_pool (ph s)) p \<and> page_used (kernel_pool (ph s)) p"

definition pt_of :: "mmu \<Rightarrow> u32 \<Rightarrow> u32 \<Rightarrow> u32 option" where
  "pt_of s pd i = (if load (pd + 4 * i) s = 0 then None else pde_get_pt (load (pd + 4 * i) s))"

definition pte_of :: "mmu \<Rightarrow> u32 \<Rightarrow> u32 \<Rightarrow> u32" where
  "pte_of s pd va = (case pt_of s pd (pd_no va) of Some pt \<Rightarrow> load (pt + 4 * pt_no va) s | None \<Rightarrow> 0)"

definition pd_ok :: "mmu \<Rightarrow> u32 \<Rightarrow> bool" where
  "pd_ok s pd \<longleftrightarrow> phys_ok (ph s) \<and> kernel_page s pd \<and>
     (\<forall>i<1024. load (pd + 4 * i) s \<noteq> 0 \<longrightarrow> (\<exists>pt. pt_of s pd i = Some pt \<and> kernel_page s pt \<and> pt \<noteq> pd)) \<and>
     (\<forall>i<1024. \<forall>j<1024. \<forall>pt. pt_of s pd i = Some pt \<longrightarrow> pt_of s pd j = Some pt \<longrightarrow> i = j) \<and>
     (\<forall>va. is_user_vaddr va \<longrightarrow> pte_of s pd va AND PTE_P \<noteq> 0 \<longrightarrow> pte_of s pd va AND PTE_ADDR < 0x40000000)"

text \<open>Words of aligned pages.\<close>

lemma word_in_page:
  assumes "pg_ofs p = 0" and "i < 1024"
  shows "unat (p + 4 * i) = unat p + 4 * unat i" "pg_no (p + 4 * i) = pg_no p"
proof -
  have i: "unat i < 1024" using assms(2) by (simp add: word_less_nat_alt)
  then have u: "unat (4 * i) = 4 * unat i" by (simp add: unat_word_ariths)
  have "4096 dvd unat p" using assms(1) by (simp add: aligned_dvd)
  then obtain k where k: "unat p = 4096 * k" by (metis dvdE)
  then have "k < 2 ^ 20" using unat_lt32 [of p] by simp
  then have "4096 * k + 4 * unat i < 2 ^ 32" using i by simp
  then show v: "unat (p + 4 * i) = unat p + 4 * unat i" using k u unat_add_nowrap [of p "4 * i"] by simp
  have "unat (pg_no (p + 4 * i)) = unat (pg_no p)" using i by (simp add: unat_pg_no v k)
  then show "pg_no (p + 4 * i) = pg_no p" by (simp add: word_unat_eq_iff)
qed

lemma aligned_eq: "pg_ofs p = 0 \<Longrightarrow> pg_ofs q = 0 \<Longrightarrow> pg_no p = pg_no q \<Longrightarrow> p = q"
  by (metis aligned_dvd dvd_mult_div_cancel unat_pg_no word_unat_eq_iff)

lemma word_in_page_eq:
  assumes "pg_ofs p = 0" "pg_ofs q = 0" "i < 1024" "j < 1024"
  shows "p + 4 * i = q + 4 * j \<longleftrightarrow> p = q \<and> i = j"
proof
  assume e: "p + 4 * i = q + 4 * j"
  then have "pg_no p = pg_no q" using word_in_page(2) assms by metis
  then have "p = q" using aligned_eq assms by blast
  moreover have "unat p + 4 * unat i = unat q + 4 * unat j" using e word_in_page(1) assms by metis
  ultimately show "p = q \<and> i = j" by (simp add: word_unat_eq_iff)
qed simp

lemma no_less_1024: "pd_no va < 1024" "pt_no va < 1024"
  using unat_pd_no [of va] unat_pt_no [of va] by (simp_all add: word_less_nat_alt)

lemma store_simps [simp]:
  "kernel_pool (ph (store a v s)) = kernel_pool (ph s)" "user_pool (ph (store a v s)) = user_pool (ph s)"
  "cr3 (store a v s) = cr3 s" "tlb (store a v s) = tlb s" "init_page_dir (store a v s) = init_page_dir s"
  "init_ram_pages (store a v s) = init_ram_pages s"
  "load b (store a v s) = (if b = a then v else load b s)"
  by (simp_all add: store_def load_def)

lemma kernel_page_store [simp]: "kernel_page (store a v s) p = kernel_page s p"
  by (simp add: kernel_page_def)

lemma phys_ok_store [simp]: "phys_ok (ph (store a v s)) = phys_ok (ph s)"
  by (simp add: phys_ok_def)

lemma kernel_page_addr:
  assumes "phys_ok (ph s)" "kernel_page s p"
  shows "pg_ofs p = 0" "is_kernel_vaddr p" "p \<noteq> 0" "i < 1024 \<Longrightarrow> p + 4 * i \<noteq> 0"
proof -
  have k: "pg_ofs p = 0" "PHYS_BASE \<le> base (kernel_pool (ph s))" "base (kernel_pool (ph s)) \<le> p"
    using assms by (simp_all add: kernel_page_def page_in_def phys_ok_def pool_ok_def)
  then show "pg_ofs p = 0" "is_kernel_vaddr p" by (auto simp: is_kernel_vaddr_def)
  then have u: "0xc0000000 \<le> unat p" by (simp add: is_kernel_vaddr_def word_le_nat_alt PHYS_BASE_def)
  then show "p \<noteq> 0" by auto
  show "p + 4 * i \<noteq> 0" if "i < 1024" using word_in_page(1) [OF k(1) that] u by auto
qed

lemma pd_okD:
  assumes "pd_ok s pd"
  shows "phys_ok (ph s)" "kernel_page s pd"
    "i < 1024 \<Longrightarrow> load (pd + 4 * i) s \<noteq> 0 \<Longrightarrow> \<exists>pt. pt_of s pd i = Some pt \<and> kernel_page s pt \<and> pt \<noteq> pd"
    "i < 1024 \<Longrightarrow> pt_of s pd i = Some pt \<Longrightarrow> kernel_page s pt \<and> pt \<noteq> pd \<and> load (pd + 4 * i) s \<noteq> 0"
    "i < 1024 \<Longrightarrow> j < 1024 \<Longrightarrow> pt_of s pd i = Some pt \<Longrightarrow> pt_of s pd j = Some pt \<Longrightarrow> i = j"
    "is_user_vaddr va \<Longrightarrow> pte_of s pd va AND PTE_P \<noteq> 0 \<Longrightarrow> pte_of s pd va AND PTE_ADDR < 0x40000000"
proof -
  show "phys_ok (ph s)" "kernel_page s pd"
    "is_user_vaddr va \<Longrightarrow> pte_of s pd va AND PTE_P \<noteq> 0 \<Longrightarrow> pte_of s pd va AND PTE_ADDR < 0x40000000"
    using assms by (simp_all add: pd_ok_def)
  show e: "i < 1024 \<Longrightarrow> load (pd + 4 * i) s \<noteq> 0 \<Longrightarrow> \<exists>pt. pt_of s pd i = Some pt \<and> kernel_page s pt \<and> pt \<noteq> pd"
    using assms by (simp add: pd_ok_def)
  show "i < 1024 \<Longrightarrow> pt_of s pd i = Some pt \<Longrightarrow> kernel_page s pt \<and> pt \<noteq> pd \<and> load (pd + 4 * i) s \<noteq> 0"
    using e by (auto simp: pt_of_def split: if_splits)
  show "i < 1024 \<Longrightarrow> j < 1024 \<Longrightarrow> pt_of s pd i = Some pt \<Longrightarrow> pt_of s pd j = Some pt \<Longrightarrow> i = j"
    using assms by (simp add: pd_ok_def)
qed

section \<open>Looking up an entry\<close>

lemma lookup_no_create:
  assumes "pd_ok s pd"
  shows "lookup_page pd va False s =
    Some (case pt_of s pd (pd_no va) of Some pt \<Rightarrow> pt + 4 * pt_no va | None \<Rightarrow> 0, s)"
proof -
  note k = kernel_page_addr [OF pd_okD(1) [OF assms] pd_okD(2) [OF assms]]
  show ?thesis
  proof (cases "load (pd + 4 * pd_no va) s = 0")
    case True then show ?thesis using k by (simp add: lookup_page_def pt_of_def)
  next
    case False
    then obtain pt where "pt_of s pd (pd_no va) = Some pt" using pd_okD(3) [OF assms no_less_1024(1)] by blast
    then show ?thesis using k False by (simp add: lookup_page_def pt_of_def)
  qed
qed

text \<open>Writing the entry for \<open>va\<close> changes the entry of its page and no other.\<close>

lemma store_pte:
  assumes pd: "pd_ok s pd" and pt: "pt_of s pd (pd_no va) = Some pt"
    and v: "v AND PTE_P \<noteq> 0 \<Longrightarrow> v AND PTE_ADDR < 0x40000000"
  shows "pte_of (store (pt + 4 * pt_no va) v s) pd va' = (if pg_no va' = pg_no va then v else pte_of s pd va')"
      (is "?A va'") and "pd_ok (store (pt + 4 * pt_no va) v s) pd"
proof -
  let ?s = "store (pt + 4 * pt_no va) v s"
  note pt' = pd_okD(4) [OF pd no_less_1024(1) pt]
  note al = kernel_page_addr(1) [OF pd_okD(1) [OF pd]]
  have pde: "load (pd + 4 * i) ?s = load (pd + 4 * i) s" if "i < 1024" for i
    using word_in_page_eq [OF al [OF pd_okD(2) [OF pd]] al that no_less_1024(2)] pt' by auto
  then have pts: "pt_of ?s pd i = pt_of s pd i" if "i < 1024" for i using that by (simp add: pt_of_def)
  have pte: "?A va'" for va'
  proof (cases "pt_of s pd (pd_no va')")
    case None
    then have "pg_no va' \<noteq> pg_no va" using pt same_page_iff by (metis option.distinct(1))
    then show ?thesis using None pts [OF no_less_1024(1)] by (simp add: pte_of_def)
  next
    case (Some q)
    have "q + 4 * pt_no va' = pt + 4 * pt_no va \<longleftrightarrow> q = pt \<and> pt_no va' = pt_no va"
      using pd_okD(4) [OF pd no_less_1024(1) Some] pt' by (intro word_in_page_eq al no_less_1024) simp_all
    moreover have "q = pt \<longleftrightarrow> pd_no va' = pd_no va"
      using pd_okD(5) [OF pd no_less_1024(1) no_less_1024(1) Some, of va] pt Some by fastforce
    ultimately show ?thesis using Some pts [OF no_less_1024(1), of va'] by (simp add: pte_of_def same_page_iff)
  qed
  then show "?A va'" .
  have "is_user_vaddr w \<Longrightarrow> pte_of ?s pd w AND PTE_P \<noteq> 0 \<Longrightarrow> pte_of ?s pd w AND PTE_ADDR < 0x40000000" for w
    using pte [of w] v pd_okD(6) [OF pd] by (simp split: if_splits)
  then show "pd_ok ?s pd"
    using pd pde pts by (simp add: pd_ok_def)
qed

lemma offset_in_page:
  assumes "pg_ofs p = 0"
  shows "x - p < PGSIZE \<longleftrightarrow> pg_no x = pg_no p"
proof -
  obtain k where k: "unat p = 4096 * k" using assms by (metis aligned_dvd dvdE)
  have lim: "k < 1048576" using unat_lt32 [of p] k by simp
  have no: "pg_no x = pg_no p \<longleftrightarrow> unat x div 4096 = k" by (simp add: word_unat_eq_iff unat_pg_no k)
  show ?thesis
  proof (cases "p \<le> x")
    case True
    then have "4096 * k \<le> unat x" using k by (simp add: word_le_nat_alt)
    then obtain y where "unat x = 4096 * k + y" using le_Suc_ex by blast
    then have "unat x - 4096 * k < 4096 \<longleftrightarrow> unat x div 4096 = k" by (simp add: div_eq_0_iff)
    then show ?thesis using True k by (simp add: no word_less_nat_alt PGSIZE_eq unat_sub)
  next
    case False
    then have l: "unat x < 4096 * k" using k by (simp add: word_le_nat_alt)
    have "unat (x - p) = 2 ^ 32 + unat x - 4096 * k"
      using unat_sub_if' [of x p] False k l lim by (simp add: word_le_nat_alt)
    moreover have "4096 * k + 4096 \<le> 2 ^ 32" using lim by simp
    moreover have "unat x div 4096 \<noteq> k" using l by (simp add: div_less_iff_less_mult mult.commute less_imp_neq)
    ultimately show ?thesis by (simp add: no word_less_nat_alt PGSIZE_eq)
  qed
qed

lemma new_kernel_page:
  assumes s: "phys_ok (ph s)" and g: "palloc_get_page flags (ph s) = Some (a, p)" "a \<noteq> 0"
    and u: "flags AND PAL_USER = 0"
  shows "phys_ok p" "\<not> kernel_page s a" "kernel_page (s\<lparr>ph := p\<rparr>) q \<longleftrightarrow> q = a \<or> kernel_page s q"
    "user_pool p = user_pool (ph s)"
    "load x (s\<lparr>ph := p\<rparr>) = (if flags AND PAL_ZERO \<noteq> 0 \<and> pg_no x = pg_no a then 0 else load x s)"
proof -
  note r = palloc_get_page_SomeD [OF s g]
  have w: "which flags t = kernel_pool t" for t using u by (simp add: which_def)
  show "phys_ok p" by (rule r(1))
  show "\<not> kernel_page s a" "user_pool p = user_pool (ph s)" using r(3,6) u by (simp_all add: kernel_page_def w)
  show "kernel_page (s\<lparr>ph := p\<rparr>) q \<longleftrightarrow> q = a \<or> kernel_page s q"
    using r(2,4,5) [unfolded w] by (auto simp: kernel_page_def)
  have "pg_ofs a = 0" using r(2) by (simp add: page_in_def)
  then show "load x (s\<lparr>ph := p\<rparr>) = (if flags AND PAL_ZERO \<noteq> 0 \<and> pg_no x = pg_no a then 0 else load x s)"
    by (simp add: load_def r(7) mem_fill_def offset_in_page)
qed

lemma kernel_page_word:
  assumes "phys_ok (ph s)" "kernel_page s p" "kernel_page s q" "i < 1024" "j < 1024"
  shows "p + 4 * i = q + 4 * j \<longleftrightarrow> p = q \<and> i = j"
  using assms by (intro word_in_page_eq kernel_page_addr(1)) auto

text \<open>Installing a fresh, empty page table.\<close>

lemma install_table:
  assumes pd: "pd_ok s pd" and i: "i < 1024" "load (pd + 4 * i) s = 0"
    and g: "palloc_get_page PAL_ZERO (ph s) = Some (pt, p)" "pt \<noteq> 0"
    and e: "pde_create pt = Some e"
  defines "s' \<equiv> store (pd + 4 * i) e (s\<lparr>ph := p\<rparr>)"
  shows "pt_of s' pd i = Some pt" "pte_of s' pd va = pte_of s pd va" "pd_ok s' pd"
proof -
  let ?s1 = "s\<lparr>ph := p\<rparr>"
  note n = new_kernel_page [OF pd_okD(1) [OF pd] g, simplified PAL_ZERO_def PAL_USER_def, simplified]
  have ok: "phys_ok (ph s')" using n(1) by (simp add: s'_def)
  have kp: "kernel_page s' q \<longleftrightarrow> q = pt \<or> kernel_page s q" for q using n(3) by (simp add: s'_def)
  have ne: "pt \<noteq> pd" "kernel_page s q \<Longrightarrow> q \<noteq> pt" for q using n(2) pd_okD(2) [OF pd] by auto
  have kpd: "kernel_page s' pd" "kernel_page s' pt" using kp pd_okD(2) [OF pd] by auto
  have pt: "is_kernel_vaddr pt" "pg_ofs pt = 0" using kernel_page_addr(1,2) [OF ok kpd(2)] by simp_all
  then have e': "e \<noteq> 0" "pde_get_pt e = Some pt" using pde_round_trip e by fastforce+
  have old: "load (q + 4 * j) s' = (if q = pd \<and> j = i then e else load (q + 4 * j) s)"
    if "kernel_page s q" "j < 1024" for q j
  proof -
    have al: "pg_ofs q = 0" using kernel_page_addr(1) [OF pd_okD(1) [OF pd] that(1)] .
    have "pg_no (q + 4 * j) \<noteq> pg_no pt" using word_in_page(2) [OF al that(2)] aligned_eq [OF al pt(2)] ne(2) [OF that(1)] by auto
    moreover have "q + 4 * j = pd + 4 * i \<longleftrightarrow> q = pd \<and> j = i"
      using kernel_page_word [OF pd_okD(1) [OF pd] that(1) pd_okD(2) [OF pd] that(2) i(1)] .
    ultimately show ?thesis using n(5) by (simp add: s'_def)
  qed
  have new: "load (pt + 4 * j) s' = 0" if "j < 1024" for j
  proof -
    have "pt + 4 * j \<noteq> pd + 4 * i" using kernel_page_word [OF ok kpd(2,1) that i(1)] ne(1) by simp
    then show ?thesis using n(5) word_in_page(2) [OF pt(2) that] by (simp add: s'_def)
  qed
  have pts: "pt_of s' pd j = (if j = i then Some pt else pt_of s pd j)" if "j < 1024" for j
    using old [OF pd_okD(2) [OF pd] that] e' by (cases "j = i") (simp_all add: pt_of_def)
  then show "pt_of s' pd i = Some pt" using i by simp
  have fresh: "pt_of s pd j \<noteq> Some pt" if "j < 1024" for j using pd_okD(4) [OF pd that] ne(2) by blast
  have pte: "pte_of s' pd va = pte_of s pd va" for va
  proof (cases "pd_no va = i")
    case True
    then have "pt_of s pd (pd_no va) = None" using i(2) by (simp add: pt_of_def)
    then show ?thesis using pts [OF i(1)] new [OF no_less_1024(2), of va] True by (simp add: pte_of_def)
  next
    case False
    have "load (q + 4 * pt_no va) s' = load (q + 4 * pt_no va) s" if "pt_of s pd (pd_no va) = Some q" for q
      using old [OF _ no_less_1024(2), of q va] pd_okD(4) [OF pd no_less_1024(1) that] by simp
    then show ?thesis using pts [OF no_less_1024(1), of va] False by (simp add: pte_of_def split: option.split)
  qed
  then show "pte_of s' pd va = pte_of s pd va" .
  have "\<exists>q. pt_of s' pd j = Some q \<and> kernel_page s' q \<and> q \<noteq> pd" if "j < 1024" "load (pd + 4 * j) s' \<noteq> 0" for j
    using pts [OF that(1)] that(2) old [OF pd_okD(2) [OF pd] that(1)] kp ne(1) pd_okD(3) [OF pd that(1)]
    by (auto split: if_splits)
  moreover have "j = k" if "j < 1024" "k < 1024" "pt_of s' pd j = Some q" "pt_of s' pd k = Some q" for j k q
    using that(3,4) pts [OF that(1)] pts [OF that(2)] fresh [OF that(1)] fresh [OF that(2)]
      pd_okD(5) [OF pd that(1,2)] by (auto split: if_splits)
  ultimately show "pd_ok s' pd"
    using ok kpd pd_okD(6) [OF pd] unfolding pd_ok_def pte by blast
qed

text \<open>A page table for the address exists, or there is a free page to make one of.\<close>

definition table_room :: "u32 \<Rightarrow> u32 \<Rightarrow> mmu \<Rightarrow> bool" where
  "table_room pd va s \<longleftrightarrow> load (pd + 4 * pd_no va) s \<noteq> 0 \<or>
     (\<exists>q. page_in (kernel_pool (ph s)) q \<and> \<not> page_used (kernel_pool (ph s)) q)"

lemma palloc_get_page_zero:
  assumes s: "phys_ok s" and g: "palloc_get_page flags s = Some (a, s')"
  shows "a \<noteq> 0 \<longleftrightarrow> (\<exists>q. page_in (which flags s) q \<and> \<not> page_used (which flags s) q)"
proof
  assume "a \<noteq> 0"
  then show "\<exists>q. page_in (which flags s) q \<and> \<not> page_used (which flags s) q"
    using palloc_get_page_SomeD(2,3) [OF s g] by blast
next
  assume "\<exists>q. page_in (which flags s) q \<and> \<not> page_used (which flags s) q"
  then obtain q where q: "page_in (which flags s) q" "\<not> page_used (which flags s) q" by blast
  have "page_idx (which flags s) q < length (bm_abs (used_map (which flags s)))"
    using page_in_idx(1) [OF phys_ok_which [OF s] q(1)] by simp
  then have "group_at (bm_abs (used_map (which flags s))) (page_idx (which flags s) q) (unat 1) False"
    using q(2) by (simp add: group_at_def page_used_def)
  then have ex: "\<exists>i. group_at (bm_abs (used_map (which flags s))) i (unat 1) False" by blast
  from palloc_get_spec [OF s, of 1 flags, unfolded if_P [OF ex]] show "a \<noteq> 0" using g by (auto simp: palloc_get_page_def)
qed

lemma lookup_create:
  assumes pd: "pd_ok s pd" and u: "is_user_vaddr va"
  shows "\<exists>pte s'. lookup_page pd va True s = Some (pte, s') \<and> pd_ok s' pd \<and>
    (\<forall>va'. pte_of s' pd va' = pte_of s pd va') \<and> cr3 s' = cr3 s \<and> tlb s' = tlb s \<and>
    init_page_dir s' = init_page_dir s \<and> init_ram_pages s' = init_ram_pages s \<and>
    user_pool (ph s') = user_pool (ph s) \<and> (pte \<noteq> 0 \<longleftrightarrow> table_room pd va s) \<and>
    (if pte = 0 then s' = s else \<exists>pt. pt_of s' pd (pd_no va) = Some pt \<and> pte = pt + 4 * pt_no va)"
proof (cases "load (pd + 4 * pd_no va) s = 0")
  case False
  then obtain pt where pt: "pt_of s pd (pd_no va) = Some pt" using pd_okD(3) [OF pd no_less_1024(1)] by blast
  then have "pt + 4 * pt_no va \<noteq> 0"
    using kernel_page_addr(4) [OF pd_okD(1) [OF pd] _ no_less_1024(2)] pd_okD(4) [OF pd no_less_1024(1) pt] by blast
  then show ?thesis using pt False pd u kernel_page_addr(3) [OF pd_okD(1) [OF pd] pd_okD(2) [OF pd]]
    by (simp add: lookup_page_def pt_of_def table_room_def)
next
  case True
  note pd0 = kernel_page_addr(3) [OF pd_okD(1) [OF pd] pd_okD(2) [OF pd]]
  obtain pt p where g: "palloc_get_page PAL_ZERO (ph s) = Some (pt, p)" "pt = 0 \<longrightarrow> p = ph s"
    using palloc_get_page_total [OF pd_okD(1) [OF pd], of PAL_ZERO] by (auto simp: PAL_ZERO_def PAL_ASSERT_def)
  have room: "table_room pd va s \<longleftrightarrow> pt \<noteq> 0"
    using palloc_get_page_zero [OF pd_okD(1) [OF pd] g(1)] True by (simp add: table_room_def which_def PAL_ZERO_def PAL_USER_def)
  show ?thesis
  proof (cases "pt = 0")
    case z: True
    then show ?thesis using g True pd u pd0 room by (simp add: lookup_page_def)
  next
    case nz: False
    note n = new_kernel_page [OF pd_okD(1) [OF pd] g(1) nz, simplified PAL_ZERO_def PAL_USER_def, simplified]
    have kp: "kernel_page (s\<lparr>ph := p\<rparr>) pt" using n(3) by simp
    note a = kernel_page_addr [OF _ kp, simplified, OF n(1)]
    obtain e where e: "pde_create pt = Some e" "e \<noteq> 0" "pde_get_pt e = Some pt" using pde_round_trip [OF a(2,1)] by blast
    note it = install_table [OF pd no_less_1024(1) True g(1) nz e(1)]
    show ?thesis using g True nz u pd0 e it n(4) room a(4) [OF no_less_1024(2)] by (simp add: lookup_page_def)
  qed
qed

section \<open>The operations on entries\<close>

text \<open>A page directory of a process, and a page frame that may be mapped.\<close>

definition space_ok :: "u32 \<Rightarrow> mmu \<Rightarrow> bool" where
  "space_ok pd s \<longleftrightarrow> pd_ok s pd \<and> pd \<noteq> init_page_dir s \<and> cr3 s < PHYS_BASE"

definition frame_ok :: "mmu \<Rightarrow> u32 \<Rightarrow> bool" where
  "frame_ok s k \<longleftrightarrow> pg_ofs k = 0 \<and> is_kernel_vaddr k \<and> drop_bit 12 (k - PHYS_BASE) < init_ram_pages s"

lemma invalidate_eq:
  assumes "space_ok pd s"
  shows "invalidate_pagedir pd s = Some (if cr3 s + PHYS_BASE = pd then s\<lparr>tlb := (\<lambda>_. None)\<rparr> else s)"
proof -
  have pd: "pd_ok s pd" using assms by (simp add: space_ok_def)
  note k = kernel_page_addr(2,3) [OF pd_okD(1) [OF pd] pd_okD(2) [OF pd]]
  have "pd - PHYS_BASE = cr3 s" if "cr3 s + PHYS_BASE = pd" using that by (metis add_diff_cancel)
  then show ?thesis using assms k
    by (auto simp: invalidate_pagedir_def active_pd_def ptov_def pagedir_activate_def vtop_def space_ok_def)
qed

lemma pt_of_tlb [simp]: "load a (s\<lparr>tlb := t\<rparr>) = load a s" "pt_of (s\<lparr>tlb := t\<rparr>) pd i = pt_of s pd i"
  by (simp_all add: pt_of_def load_def)

lemma pte_of_tlb [simp]: "pte_of (s\<lparr>tlb := t\<rparr>) pd va = pte_of s pd va"
  by (simp add: pte_of_def split: option.split)

lemma pd_ok_tlb [simp]: "pd_ok (s\<lparr>tlb := t\<rparr>) pd = pd_ok s pd"
  by (simp add: pd_ok_def kernel_page_def)

text \<open>What reading, changing and testing an entry come to.\<close>

lemma entry_cases:
  assumes "pd_ok s pd"
  shows "if pt_of s pd (pd_no va) = None then lookup_page pd va False s = Some (0, s) \<and> pte_of s pd va = 0
    else \<exists>pt. pt_of s pd (pd_no va) = Some pt \<and> lookup_page pd va False s = Some (pt + 4 * pt_no va, s) \<and>
      pt + 4 * pt_no va \<noteq> 0 \<and> load (pt + 4 * pt_no va) s = pte_of s pd va"
proof (cases "pt_of s pd (pd_no va)")
  case None
  then show ?thesis using assms by (simp add: lookup_no_create pte_of_def)
next
  case (Some pt)
  then have "pt + 4 * pt_no va \<noteq> 0"
    using kernel_page_addr(4) [OF pd_okD(1) [OF assms(1)] _ no_less_1024(2)]
      pd_okD(4) [OF assms(1) no_less_1024(1)] by blast
  then show ?thesis using Some assms by (simp add: lookup_no_create pte_of_def)
qed

lemma get_page_eq:
  assumes "pd_ok s pd" "is_user_vaddr va"
  shows "pagedir_get_page pd va s = Some
    (if pte_of s pd va AND PTE_P \<noteq> 0 then (pte_of s pd va AND PTE_ADDR) + PHYS_BASE + pg_ofs va else 0)"
proof -
  have "pte_of s pd va AND PTE_ADDR < PHYS_BASE" if "pte_of s pd va AND PTE_P \<noteq> 0"
    using pd_okD(6) [OF assms that] by (rule order_less_trans) (simp add: PHYS_BASE_def)
  then show ?thesis using entry_cases [OF assms(1), of va] assms(2)
    by (auto simp: pagedir_get_page_def pte_get_page_def ptov_def split: if_splits)
qed

lemma get_page_null:
  assumes "pd_ok s pd" "is_user_vaddr va"
  shows "pagedir_get_page pd va s = Some 0 \<longleftrightarrow> pte_of s pd va AND PTE_P = 0"
proof -
  have "(pte_of s pd va AND PTE_ADDR) + PHYS_BASE + pg_ofs va \<noteq> 0" if p: "pte_of s pd va AND PTE_P \<noteq> 0"
  proof -
    let ?a = "pte_of s pd va AND PTE_ADDR"
    have a: "unat ?a < 0x40000000" using pd_okD(6) [OF assms p] by (simp add: word_less_nat_alt)
    have "pg_ofs ?a = 0" by (simp add: pg_ofs_def PGMASK_eq PTE_ADDR_eq and.assoc)
    then have "unat ?a \<le> 0x40000000 - 4096" using a by (auto simp: aligned_dvd elim: dvdE)
    moreover have "unat (pg_ofs va) < 4096" by (simp add: unat_pg_ofs)
    ultimately have "unat (?a + PHYS_BASE + pg_ofs va) = unat ?a + 0xc0000000 + unat (pg_ofs va)"
      by (simp add: unat_word_ariths PHYS_BASE_def)
    then show ?thesis by auto
  qed
  then show ?thesis using get_page_eq [OF assms] by simp
qed

lemma set_page_spec:
  assumes s: "space_ok pd s" and u: "pg_ofs upage = 0" "is_user_vaddr upage" and k: "frame_ok s k"
    and free: "pte_of s pd upage AND PTE_P = 0"
  shows "\<exists>b s' e. pagedir_set_page pd upage k w s = Some (b, s') \<and> space_ok pd s' \<and> cr3 s' = cr3 s \<and> tlb s' = tlb s \<and>
    init_ram_pages s' = init_ram_pages s \<and> user_pool (ph s') = user_pool (ph s) \<and> (\<not> b \<longrightarrow> s' = s) \<and>
    (b \<longleftrightarrow> table_room pd upage s) \<and> pte_create_user k w = Some e \<and>
    (\<forall>va. pte_of s' pd va = (if b \<and> pg_no va = pg_no upage then e else pte_of s pd va))"
proof -
  have pd: "pd_ok s pd" "pd \<noteq> init_page_dir s" using s by (simp_all add: space_ok_def)
  obtain pte s1 where l: "lookup_page pd upage True s = Some (pte, s1)" "pd_ok s1 pd"
    "\<forall>va'. pte_of s1 pd va' = pte_of s pd va'" "cr3 s1 = cr3 s" "tlb s1 = tlb s"
    "init_page_dir s1 = init_page_dir s" "init_ram_pages s1 = init_ram_pages s" "user_pool (ph s1) = user_pool (ph s)"
    "if pte = 0 then s1 = s else \<exists>pt. pt_of s1 pd (pd_no upage) = Some pt \<and> pte = pt + 4 * pt_no upage"
    "pte \<noteq> 0 \<longleftrightarrow> table_room pd upage s"
    using lookup_create [OF pd(1) u(2)] by blast
  obtain e where e: "pte_create_user k w = Some e" "e AND PTE_P \<noteq> 0" "pte_get_page e = Some k"
    using pte_round_trip [of k w] k by (auto simp: frame_ok_def)
  have "e AND PTE_ADDR = k - PHYS_BASE"
    using e(3) by (auto simp: pte_get_page_def ptov_def monad_simps split: if_splits)
  then have ea: "e AND PTE_ADDR < 0x40000000"
    using kernel_minus_base [of k] unat_lt32 [of k] k by (simp add: frame_ok_def word_less_nat_alt)
  have pre: "vtop k = Some (k - PHYS_BASE)" "drop_bit 12 (k - PHYS_BASE) < init_ram_pages s" "pg_ofs k = 0"
    using k by (simp_all add: frame_ok_def vtop_def)
  show ?thesis
  proof (cases "pte = 0")
    case True
    then show ?thesis using l s u pd pre e
      by (intro exI [of _ False] exI [of _ s] exI [of _ e]) (simp add: pagedir_set_page_def)
  next
    case False
    then obtain pt where pt: "pt_of s1 pd (pd_no upage) = Some pt" "pte = pt + 4 * pt_no upage" using l(9) by auto
    have "load pte s1 = pte_of s1 pd upage" using pt by (simp add: pte_of_def)
    then have "pagedir_set_page pd upage k w s = Some (True, store pte e s1)"
      using l u pd pre e False free by (simp add: pagedir_set_page_def)
    moreover have "pd_ok (store pte e s1) pd"
      "\<forall>va. pte_of (store pte e s1) pd va = (if pg_no va = pg_no upage then e else pte_of s pd va)"
      using store_pte [OF l(2) pt(1), of e] ea l(3) pt(2) by simp_all
    ultimately show ?thesis using l(1-8,10) False e s
      by (intro exI [of _ True] exI [of _ "store pte e s1"] exI [of _ e]) (simp add: space_ok_def)
  qed
qed

text \<open>Changing the flags of an entry in place.\<close>

lemma modify_entry:
  assumes s: "space_ok pd s" and pt: "pt_of s pd (pd_no va) = Some pt" and u: "is_user_vaddr va"
    and f: "v AND PTE_ADDR = pte_of s pd va AND PTE_ADDR" "v AND PTE_P \<noteq> 0 \<Longrightarrow> pte_of s pd va AND PTE_P \<noteq> 0"
  defines "s' \<equiv> store (pt + 4 * pt_no va) v s"
  shows "space_ok pd s'" "pte_of s' pd va' = (if pg_no va' = pg_no va then v else pte_of s pd va')"
    "invalidate_pagedir pd s' = Some (if cr3 s + PHYS_BASE = pd then s'\<lparr>tlb := (\<lambda>_. None)\<rparr> else s')"
proof -
  have pd: "pd_ok s pd" using s by (simp add: space_ok_def)
  note p = store_pte [OF pd pt, of v] pd_okD(6) [OF pd u]
  show sp: "space_ok pd s'" using p f s by (auto simp: space_ok_def s'_def)
  show "pte_of s' pd va' = (if pg_no va' = pg_no va then v else pte_of s pd va')" using p f by (auto simp: s'_def)
  show "invalidate_pagedir pd s' = Some (if cr3 s + PHYS_BASE = pd then s'\<lparr>tlb := (\<lambda>_. None)\<rparr> else s')"
    using invalidate_eq [OF sp] by (simp add: s'_def)
qed

lemma same_pte_same_page: "pg_no va = pg_no va' \<Longrightarrow> pte_of s pd va = pte_of s pd va'"
  by (simp add: pte_of_def same_page_iff split: option.split)

lemma flag_masks:
  "(x AND NOT PTE_P) AND PTE_ADDR = x AND PTE_ADDR" "(x AND NOT PTE_P) AND PTE_P = 0"
  "(x OR PTE_D) AND PTE_ADDR = x AND PTE_ADDR" "(x OR PTE_D) AND PTE_P = x AND PTE_P"
  "(x AND NOT PTE_D) AND PTE_ADDR = x AND PTE_ADDR" "(x AND NOT PTE_D) AND PTE_P = x AND PTE_P"
  "(x OR PTE_A) AND PTE_ADDR = x AND PTE_ADDR" "(x OR PTE_A) AND PTE_P = x AND PTE_P"
  "(x AND NOT PTE_A) AND PTE_ADDR = x AND PTE_ADDR" "(x AND NOT PTE_A) AND PTE_P = x AND PTE_P"
  "(x OR PTE_A) AND PTE_D = x AND PTE_D" "(x AND NOT PTE_A) AND PTE_D = x AND PTE_D"
  "(x OR PTE_D) AND PTE_A = x AND PTE_A" "(x AND NOT PTE_D) AND PTE_A = x AND PTE_A"
  "(x AND NOT PTE_P) AND PTE_A = x AND PTE_A" "(x AND NOT PTE_P) AND PTE_D = x AND PTE_D"
  "(x OR PTE_D) AND PTE_D \<noteq> 0" "(x AND NOT PTE_D) AND PTE_D = 0"
  "(x OR PTE_A) AND PTE_A \<noteq> 0" "(x AND NOT PTE_A) AND PTE_A = 0"
  by (simp_all add: PTE_P_def PTE_D_def PTE_A_def PTE_ADDR_def and.assoc bit.conj_disj_distrib2)

text \<open>The four operations that change a present mapping, over the entries.\<close>

definition flushed :: "u32 \<Rightarrow> mmu \<Rightarrow> mmu \<Rightarrow> bool" where
  "flushed pd s s' \<longleftrightarrow> cr3 s' = cr3 s \<and> init_ram_pages s' = init_ram_pages s \<and>
     (if cr3 s + PHYS_BASE = pd then tlb s' = (\<lambda>_. None) else tlb s' = tlb s)"

lemma clear_page_spec:
  assumes s: "space_ok pd s" and u: "pg_ofs va = 0" "is_user_vaddr va"
  shows "\<exists>s'. pagedir_clear_page pd va s = Some s' \<and> space_ok pd s' \<and>
    (if pte_of s pd va AND PTE_P \<noteq> 0 then flushed pd s s' \<and>
       (\<forall>va'. pte_of s' pd va' = (if pg_no va' = pg_no va then pte_of s pd va AND NOT PTE_P else pte_of s pd va'))
     else s' = s)"
proof -
  have pd: "pd_ok s pd" using s by (simp add: space_ok_def)
  note e = entry_cases [OF pd, of va]
  show ?thesis
  proof (cases "pte_of s pd va AND PTE_P \<noteq> 0")
    case False
    then show ?thesis using e s u by (auto simp: pagedir_clear_page_def split: if_splits)
  next
    case True
    then obtain pt where pt: "pt_of s pd (pd_no va) = Some pt" "lookup_page pd va False s = Some (pt + 4 * pt_no va, s)"
      "pt + 4 * pt_no va \<noteq> 0" "load (pt + 4 * pt_no va) s = pte_of s pd va" using e by (auto split: if_splits)
    note m = modify_entry [OF s pt(1) u(2), of "pte_of s pd va AND NOT PTE_P", unfolded flag_masks, OF refl]
    let ?s = "store (pt + 4 * pt_no va) (pte_of s pd va AND NOT PTE_P) s"
    have "pagedir_clear_page pd va s = Some (if cr3 s + PHYS_BASE = pd then ?s\<lparr>tlb := (\<lambda>_. None)\<rparr> else ?s)"
      using pt True u m(3) by (simp add: pagedir_clear_page_def)
    then show ?thesis using m(1,2) True by (simp add: space_ok_def flushed_def)
  qed
qed

lemma set_flag_spec:
  assumes s: "space_ok pd s" and u: "is_user_vaddr va"
  shows "\<exists>s'. pagedir_set_dirty pd va b s = Some s' \<and> space_ok pd s' \<and>
      (if pt_of s pd (pd_no va) = None then s' = s
       else (if b then cr3 s' = cr3 s \<and> tlb s' = tlb s \<and> init_ram_pages s' = init_ram_pages s else flushed pd s s') \<and>
         (\<forall>va'. pte_of s' pd va' = (if pg_no va' \<noteq> pg_no va then pte_of s pd va'
            else if b then pte_of s pd va OR PTE_D else pte_of s pd va AND NOT PTE_D)))" (is ?D)
    "\<exists>s'. pagedir_set_accessed pd va b s = Some s' \<and> space_ok pd s' \<and>
      (if pt_of s pd (pd_no va) = None then s' = s
       else (if b then cr3 s' = cr3 s \<and> tlb s' = tlb s \<and> init_ram_pages s' = init_ram_pages s else flushed pd s s') \<and>
         (\<forall>va'. pte_of s' pd va' = (if pg_no va' \<noteq> pg_no va then pte_of s pd va'
            else if b then pte_of s pd va OR PTE_A else pte_of s pd va AND NOT PTE_A)))" (is ?A)
proof -
  have pd: "pd_ok s pd" using s by (simp add: space_ok_def)
  note e = entry_cases [OF pd, of va]
  show ?D ?A
  proof (atomize (full), cases "pt_of s pd (pd_no va)")
    case None
    then show "?D \<and> ?A" using e s by (simp add: pagedir_set_dirty_def pagedir_set_accessed_def)
  next
    case (Some pt)
    then have pt: "lookup_page pd va False s = Some (pt + 4 * pt_no va, s)"
      "pt + 4 * pt_no va \<noteq> 0" "load (pt + 4 * pt_no va) s = pte_of s pd va" using e by auto
    note m = modify_entry [OF s Some u]
    have ?D
      using m [of "pte_of s pd va OR PTE_D", unfolded flag_masks] m [of "pte_of s pd va AND NOT PTE_D", unfolded flag_masks] pt Some
      by (cases b) (auto simp: pagedir_set_dirty_def flushed_def space_ok_def)
    moreover have ?A
      using m [of "pte_of s pd va OR PTE_A", unfolded flag_masks] m [of "pte_of s pd va AND NOT PTE_A", unfolded flag_masks] pt Some
      by (cases b) (auto simp: pagedir_set_accessed_def flushed_def space_ok_def)
    ultimately show "?D \<and> ?A" ..
  qed
qed

section \<open>The address space interface\<close>

text \<open>
  What the virtual memory code relies on: a partial translation of user addresses that is total in the
  sense that looking up returns, to which a page is added when it is not mapped and from which a page
  is removed.
\<close>

locale address_space =
  fixes ok :: "'s \<Rightarrow> bool" and frame :: "'s \<Rightarrow> u32 \<Rightarrow> bool" and translate :: "u32 \<Rightarrow> 's \<Rightarrow> u32 option"
    and install :: "u32 \<Rightarrow> u32 \<Rightarrow> bool \<Rightarrow> 's \<Rightarrow> (bool \<times> 's) option" and room :: "u32 \<Rightarrow> 's \<Rightarrow> bool" and remove :: "u32 \<Rightarrow> 's \<Rightarrow> 's option"
  assumes translate_total: "ok s \<Longrightarrow> is_user_vaddr va \<Longrightarrow> \<exists>p. translate va s = Some p"
    and install_law: "ok s \<Longrightarrow> pg_ofs u = 0 \<Longrightarrow> is_user_vaddr u \<Longrightarrow> frame s k \<Longrightarrow> translate u s = Some 0 \<Longrightarrow>
      \<exists>b s'. install u k w s = Some (b, s') \<and> ok s' \<and> (b \<longleftrightarrow> room u s) \<and> (\<not> b \<longrightarrow> s' = s) \<and>
        (\<forall>va. is_user_vaddr va \<longrightarrow>
          translate va s' = (if b \<and> pg_no va = pg_no u then Some (k + pg_ofs va) else translate va s))"
    and remove_law: "ok s \<Longrightarrow> pg_ofs u = 0 \<Longrightarrow> is_user_vaddr u \<Longrightarrow>
      \<exists>s'. remove u s = Some s' \<and> ok s' \<and>
        (\<forall>va. is_user_vaddr va \<longrightarrow> translate va s' = (if pg_no va = pg_no u then Some 0 else translate va s))"
begin

text \<open>Every address of a page that is not mapped is not mapped.\<close>

lemma install_remove:
  assumes "ok s" "pg_ofs u = 0" "is_user_vaddr u" "frame s k" "translate u s = Some 0"
    and unmapped: "\<And>va. is_user_vaddr va \<Longrightarrow> pg_no va = pg_no u \<Longrightarrow> translate va s = Some 0"
    and i: "install u k w s = Some (b, s')"
  shows "\<exists>s''. remove u s' = Some s'' \<and> ok s'' \<and> (\<forall>va. is_user_vaddr va \<longrightarrow> translate va s'' = translate va s)"
proof -
  have s': "ok s'" "\<forall>va. is_user_vaddr va \<longrightarrow>
      translate va s' = (if b \<and> pg_no va = pg_no u then Some (k + pg_ofs va) else translate va s)"
    using install_law [OF assms(1-5), of w] i by auto
  show ?thesis using remove_law [OF s'(1) assms(2,3)] s'(2) unmapped by fastforce
qed

end

lemma pte_entry:
  assumes "frame_ok s k" "pte_create_user k w = Some e"
  shows "e AND PTE_P \<noteq> 0" "(e AND PTE_ADDR) + PHYS_BASE = k"
  using pte_round_trip [of k w] assms by (auto simp: frame_ok_def pte_get_page_def ptov_def monad_simps split: if_splits)

lemma translate_set:
  assumes s: "space_ok pd s" and u: "pg_ofs u = 0" "is_user_vaddr u" and k: "frame_ok s k"
    and free: "pagedir_get_page pd u s = Some 0"
  shows "\<exists>b s'. pagedir_set_page pd u k w s = Some (b, s') \<and> space_ok pd s' \<and> (b \<longleftrightarrow> table_room pd u s) \<and> (\<not> b \<longrightarrow> s' = s) \<and>
    (\<forall>va. is_user_vaddr va \<longrightarrow> pagedir_get_page pd va s' =
       (if b \<and> pg_no va = pg_no u then Some (k + pg_ofs va) else pagedir_get_page pd va s))"
proof -
  have pd: "pd_ok s pd" using s by (simp add: space_ok_def)
  have "pte_of s pd u AND PTE_P = 0" using get_page_null [OF pd u(2)] free by simp
  from set_page_spec [OF s u k this, of w] obtain b s' e where
    r: "pagedir_set_page pd u k w s = Some (b, s')" "space_ok pd s'" "\<not> b \<longrightarrow> s' = s" "pte_create_user k w = Some e"
      "\<forall>va. pte_of s' pd va = (if b \<and> pg_no va = pg_no u then e else pte_of s pd va)" "b \<longleftrightarrow> table_room pd u s" by blast
  note pe = pte_entry [OF k r(4)]
  have "pagedir_get_page pd va s' = (if b \<and> pg_no va = pg_no u then Some (k + pg_ofs va) else pagedir_get_page pd va s)"
    if "is_user_vaddr va" for va
    using get_page_eq [OF _ that, of s' pd] get_page_eq [OF pd that] r(2,5) pe by (simp add: space_ok_def)
  then show ?thesis using r by blast
qed

lemma translate_clear:
  assumes s: "space_ok pd s" and u: "pg_ofs u = 0" "is_user_vaddr u"
  shows "\<exists>s'. pagedir_clear_page pd u s = Some s' \<and> space_ok pd s' \<and>
    (\<forall>va. is_user_vaddr va \<longrightarrow> pagedir_get_page pd va s' =
       (if pg_no va = pg_no u then Some 0 else pagedir_get_page pd va s))"
proof -
  have pd: "pd_ok s pd" using s by (simp add: space_ok_def)
  obtain s' where r: "pagedir_clear_page pd u s = Some s'" "space_ok pd s'"
    "if pte_of s pd u AND PTE_P \<noteq> 0 then flushed pd s s' \<and>
       (\<forall>va'. pte_of s' pd va' = (if pg_no va' = pg_no u then pte_of s pd u AND NOT PTE_P else pte_of s pd va'))
     else s' = s" using clear_page_spec [OF s u] by blast
  have "pagedir_get_page pd va s' = (if pg_no va = pg_no u then Some 0 else pagedir_get_page pd va s)"
    if "is_user_vaddr va" for va
    using get_page_eq [OF _ that, of s' pd] get_page_eq [OF pd that] r(2,3) same_pte_same_page [of va u s pd]
    by (auto simp: space_ok_def flag_masks split: if_splits)
  then show ?thesis using r by blast
qed

interpretation pages: address_space "space_ok pd" frame_ok "pagedir_get_page pd" "pagedir_set_page pd"
  "table_room pd" "pagedir_clear_page pd" for pd
proof (unfold_locales, goal_cases)
  case (1 s va) then show ?case using get_page_eq [of s pd va] by (simp add: space_ok_def)
next
  case (2 s u k w) then show ?case by (rule translate_set)
next
  case (3 s u) then show ?case by (rule translate_clear)
qed

section \<open>Properties\<close>

text \<open>
  C5 (\<^verbatim>\<open>pagedir_set_page\<close>, \<^verbatim>\<open>pagedir_get_page\<close>, \<^verbatim>\<open>pagedir_clear_page\<close>).
  Mapping an unmapped user page returns.  It succeeds exactly when the directory has a page table for
  the address or the kernel pool has a free page to make one of; then exactly the addresses of that page
  translate to the frame with their offset and all other user addresses translate as before.  When it
  fails nothing changed.  Clearing the page afterwards restores every translation.
\<close>

theorem pagedir_set_get_clear:
  assumes s: "space_ok pd s" and u: "pg_ofs u = 0" "is_user_vaddr u" and k: "frame_ok s k"
    and free: "pagedir_get_page pd u s = Some 0"
  shows "\<exists>b s'. pagedir_set_page pd u k w s = Some (b, s') \<and>
    (b \<longleftrightarrow> load (pd + 4 * pd_no u) s \<noteq> 0 \<or>
       (\<exists>q. page_in (kernel_pool (ph s)) q \<and> \<not> page_used (kernel_pool (ph s)) q)) \<and> (\<not> b \<longrightarrow> s' = s) \<and>
    (\<forall>va. is_user_vaddr va \<longrightarrow> pagedir_get_page pd va s' =
       (if b \<and> pg_no va = pg_no u then Some (k + pg_ofs va) else pagedir_get_page pd va s)) \<and>
    (\<exists>s''. pagedir_clear_page pd u s' = Some s'' \<and>
       (\<forall>va. is_user_vaddr va \<longrightarrow> pagedir_get_page pd va s'' = pagedir_get_page pd va s))"
proof -
  have pd: "pd_ok s pd" using s by (simp add: space_ok_def)
  have un: "pagedir_get_page pd va s = Some 0" if "is_user_vaddr va" "pg_no va = pg_no u" for va
    using get_page_null [OF pd that(1)] get_page_null [OF pd u(2)] free same_pte_same_page [OF that(2)] by simp
  obtain b s' where i: "pagedir_set_page pd u k w s = Some (b, s')" "\<not> b \<longrightarrow> s' = s"
    "\<forall>va. is_user_vaddr va \<longrightarrow> pagedir_get_page pd va s' =
       (if b \<and> pg_no va = pg_no u then Some (k + pg_ofs va) else pagedir_get_page pd va s)"
    "b \<longleftrightarrow> table_room pd u s"
    using pages.install_law [OF s u k free, of w] by blast
  then show ?thesis using pages.install_remove [OF s u k free un i(1)] unfolding table_room_def by fast
qed

definition demo_mmu :: mmu where
  "demo_mmu = \<lparr>ph = demo_phys\<lparr>mem := (\<lambda>_. 0)\<rparr>, init_page_dir = 0xc0101000, init_ram_pages = 1024,
     cr3 = 0x102000, tlb = (\<lambda>_. None)\<rparr>"

lemma demo_space_ok: "space_ok 0xc0102000 demo_mmu"
proof -
  have l: "load a demo_mmu = 0" for a by (simp add: load_def demo_mmu_def)
  then have t: "pt_of demo_mmu pd i = None" "pte_of demo_mmu pd va = 0" for pd i va by (simp_all add: pt_of_def pte_of_def)
  have k: "kernel_page demo_mmu 0xc0102000"
    by (simp add: kernel_page_def page_in_def page_used_def page_idx_def demo_mmu_def demo_phys_def pg_ofs_def
      PGMASK_def bm_abs_def bit_at_def)
  have "phys_ok (ph demo_mmu)" using demo_phys_ok by (simp add: phys_ok_def demo_mmu_def)
  then have "pd_ok demo_mmu 0xc0102000" using k by (simp add: pd_ok_def l t)
  then show ?thesis by (simp add: space_ok_def) (simp add: demo_mmu_def PHYS_BASE_def)
qed

lemma demo_get: "is_user_vaddr va \<Longrightarrow> pagedir_get_page 0xc0102000 va demo_mmu = Some 0"
  using get_page_null [of demo_mmu "0xc0102000" va] demo_space_ok
  by (simp add: space_ok_def pte_of_def pt_of_def load_def demo_mmu_def)

lemma demo_free_page:
  "page_in (kernel_pool (ph demo_mmu)) 0xc0103000 \<and> \<not> page_used (kernel_pool (ph demo_mmu)) 0xc0103000"
  by (simp add: page_in_def page_used_def page_idx_def demo_mmu_def demo_phys_def pg_ofs_def
      PGMASK_def bm_abs_def bit_at_def)

theorem pagedir_set_get_clear_witness:
  "\<exists>s'. pagedir_set_page 0xc0102000 0x8048000 0xc012b000 True demo_mmu = Some (True, s') \<and>
    (\<forall>va. is_user_vaddr va \<longrightarrow> pagedir_get_page 0xc0102000 va s' =
       (if pg_no va = pg_no 0x8048000 then Some (0xc012b000 + pg_ofs va) else Some 0)) \<and>
    (\<exists>s''. pagedir_clear_page 0xc0102000 0x8048000 s' = Some s'' \<and>
       (\<forall>va. is_user_vaddr va \<longrightarrow> pagedir_get_page 0xc0102000 va s'' = Some 0))"
proof -
  have k: "pg_ofs 0x8048000 = 0" "is_user_vaddr 0x8048000" "frame_ok demo_mmu 0xc012b000"
    by (simp_all add: pg_ofs_def PGMASK_def is_user_vaddr_def PHYS_BASE_def frame_ok_def is_kernel_vaddr_def demo_mmu_def)
  have free: "\<exists>q. page_in (kernel_pool (ph demo_mmu)) q \<and> \<not> page_used (kernel_pool (ph demo_mmu)) q"
    using demo_free_page by blast
  obtain b s' where r: "pagedir_set_page 0xc0102000 0x8048000 0xc012b000 True demo_mmu = Some (b, s')" b
    "\<forall>va. is_user_vaddr va \<longrightarrow> pagedir_get_page 0xc0102000 va s' =
       (if b \<and> pg_no va = pg_no 0x8048000 then Some (0xc012b000 + pg_ofs va) else pagedir_get_page 0xc0102000 va demo_mmu)"
    "\<exists>s''. pagedir_clear_page 0xc0102000 0x8048000 s' = Some s'' \<and>
       (\<forall>va. is_user_vaddr va \<longrightarrow> pagedir_get_page 0xc0102000 va s'' = pagedir_get_page 0xc0102000 va demo_mmu)"
    using pagedir_set_get_clear [OF demo_space_ok k demo_get [OF k(2)], of True] free by blast
  show ?thesis using r demo_get by simp
qed

text \<open>
  The buffer is coherent when every cached entry stands for a present entry of the active directory
  that differs from it at most in accessed and dirty bits which the table has and the cache has not.
\<close>

definition tlb_coherent :: "u32 \<Rightarrow> mmu \<Rightarrow> bool" where
  "tlb_coherent pd s \<longleftrightarrow> (\<forall>va e. is_user_vaddr va \<longrightarrow> tlb s (pg_no va) = Some e \<longrightarrow>
     pte_of s pd va AND PTE_P \<noteq> 0 \<and>
     e AND NOT (PTE_A OR PTE_D) = pte_of s pd va AND NOT (PTE_A OR PTE_D) \<and>
     e AND NOT (pte_of s pd va) AND (PTE_A OR PTE_D) = 0)"

lemma coherent_empty: "tlb s = (\<lambda>_. None) \<Longrightarrow> tlb_coherent pd s"
  by (simp add: tlb_coherent_def)

lemma coherent_mono:
  assumes "tlb_coherent pd s" "tlb s' = tlb s"
    and "\<And>va. is_user_vaddr va \<Longrightarrow> pte_of s pd va AND PTE_P \<noteq> 0 \<Longrightarrow>
      pte_of s' pd va = pte_of s pd va \<or> pte_of s' pd va = pte_of s pd va OR PTE_D \<or>
      pte_of s' pd va = pte_of s pd va OR PTE_A"
  shows "tlb_coherent pd s'"
proof -
  have m: "(x OR PTE_D) AND NOT (PTE_A OR PTE_D) = x AND NOT (PTE_A OR PTE_D)"
    "(x OR PTE_A) AND NOT (PTE_A OR PTE_D) = x AND NOT (PTE_A OR PTE_D)" for x
    by (simp_all add: PTE_A_def PTE_D_def bit.conj_disj_distrib2)
  have z: "e AND NOT (x OR y) AND f = 0" if "e AND NOT x AND f = 0" for e x y f :: u32
    using that by (auto simp: bit_eq_iff bit_simps)
  show ?thesis unfolding tlb_coherent_def
  proof (intro allI impI)
    fix va e assume u: "is_user_vaddr va" and t: "tlb s' (pg_no va) = Some e"
    then have c: "pte_of s pd va AND PTE_P \<noteq> 0"
      "e AND NOT (PTE_A OR PTE_D) = pte_of s pd va AND NOT (PTE_A OR PTE_D)"
      "e AND NOT (pte_of s pd va) AND (PTE_A OR PTE_D) = 0" using assms(1,2) by (auto simp: tlb_coherent_def)
    then show "pte_of s' pd va AND PTE_P \<noteq> 0 \<and>
      e AND NOT (PTE_A OR PTE_D) = pte_of s' pd va AND NOT (PTE_A OR PTE_D) \<and>
      e AND NOT (pte_of s' pd va) AND (PTE_A OR PTE_D) = 0"
      using assms(3) [OF u c(1)] by (elim disjE) (simp_all only: flag_masks m z not_False_eq_True simp_thms)
  qed
qed

lemma coherent_flag:
  assumes c: "tlb_coherent pd s" and a: "cr3 s + PHYS_BASE = pd" and f: "f = PTE_D \<or> f = PTE_A"
    and r: "if pt_of s pd (pd_no u) = None then s' = s
       else (if d then cr3 s' = cr3 s \<and> tlb s' = tlb s \<and> init_ram_pages s' = init_ram_pages s else flushed pd s s') \<and>
         (\<forall>va'. pte_of s' pd va' = (if pg_no va' \<noteq> pg_no u then pte_of s pd va'
            else if d then pte_of s pd u OR f else pte_of s pd u AND NOT f))"
  shows "tlb_coherent pd s'"
proof (cases "pt_of s pd (pd_no u) = None")
  case True then show ?thesis using r c by simp
next
  case e: False
  show ?thesis
  proof (cases d)
    case True
    have v: "pte_of s' pd va = pte_of s pd va \<or> pte_of s' pd va = pte_of s pd va OR f" for va
      using r e True same_pte_same_page [of va u s pd] by simp
    have "tlb s' = tlb s" using r e True by simp
    then show ?thesis using v f by (intro coherent_mono [OF c]) blast+
  next
    case False
    then have "tlb s' = (\<lambda>_. None)" using r e a by (simp add: flushed_def)
    then show ?thesis by (rule coherent_empty)
  qed
qed

lemma coherent_set_page:
  assumes s: "space_ok pd s" and c: "tlb_coherent pd s" and u: "pg_ofs u = 0" "is_user_vaddr u" and k: "frame_ok s k"
    and free: "pagedir_get_page pd u s = Some 0"
  shows "\<exists>b s'. pagedir_set_page pd u k w s = Some (b, s') \<and> tlb_coherent pd s'"
proof -
  have z: "pte_of s pd u AND PTE_P = 0" using get_page_null [OF _ u(2)] free s by (simp add: space_ok_def)
  from set_page_spec [OF s u k z, of w] obtain b s' e where
    r: "pagedir_set_page pd u k w s = Some (b, s')" "tlb s' = tlb s"
      "\<forall>va. pte_of s' pd va = (if b \<and> pg_no va = pg_no u then e else pte_of s pd va)" by blast
  have "tlb_coherent pd s'"
    by (rule coherent_mono [OF c r(2)]) (use r(3) z same_pte_same_page in metis)
  then show ?thesis using r(1) by blast
qed

lemma coherent_clear_page:
  assumes s: "space_ok pd s" and a: "cr3 s + PHYS_BASE = pd" and c: "tlb_coherent pd s"
    and u: "pg_ofs u = 0" "is_user_vaddr u"
  shows "\<exists>s'. pagedir_clear_page pd u s = Some s' \<and> tlb_coherent pd s' \<and> tlb s' (pg_no u) = None"
proof (cases "pte_of s pd u AND PTE_P \<noteq> 0")
  case True
  then show ?thesis using clear_page_spec [OF s u] a coherent_empty by (auto simp: flushed_def)
next
  case False
  then have "tlb s (pg_no u) = None" using c u by (cases "tlb s (pg_no u)") (auto simp: tlb_coherent_def)
  then show ?thesis using clear_page_spec [OF s u] False c by auto
qed

text \<open>
  C6 (\<^verbatim>\<open>pagedir_set_page\<close>, \<^verbatim>\<open>pagedir_clear_page\<close>, \<^verbatim>\<open>pagedir_set_dirty\<close>,
  \<^verbatim>\<open>pagedir_set_accessed\<close>).  Each operation on the active page directory keeps the translation
  lookaside buffer coherent with the tables, and after a page was cleared it holds no entry for it.
\<close>

theorem pagedir_tlb_coherent:
  assumes s: "space_ok pd s" and act: "active_pd s = Some pd" and c: "tlb_coherent pd s"
    and u: "pg_ofs u = 0" "is_user_vaddr u" and k: "frame_ok s k"
  shows "(pagedir_get_page pd u s = Some 0 \<longrightarrow>
      (\<exists>b s'. pagedir_set_page pd u k w s = Some (b, s') \<and> tlb_coherent pd s')) \<and>
    (\<exists>s'. pagedir_clear_page pd u s = Some s' \<and> tlb_coherent pd s' \<and> tlb s' (pg_no u) = None) \<and>
    (\<exists>s'. pagedir_set_dirty pd u d s = Some s' \<and> tlb_coherent pd s') \<and>
    (\<exists>s'. pagedir_set_accessed pd u d s = Some s' \<and> tlb_coherent pd s')"
proof (intro conjI impI)
  have a: "cr3 s + PHYS_BASE = pd" using act by (auto simp: active_pd_def ptov_def monad_simps split: if_splits)
  show "\<exists>b s'. pagedir_set_page pd u k w s = Some (b, s') \<and> tlb_coherent pd s'" if "pagedir_get_page pd u s = Some 0"
    by (rule coherent_set_page [OF s c u k that])
  show "\<exists>s'. pagedir_clear_page pd u s = Some s' \<and> tlb_coherent pd s' \<and> tlb s' (pg_no u) = None"
    by (rule coherent_clear_page [OF s a c u])
  show "\<exists>s'. pagedir_set_dirty pd u d s = Some s' \<and> tlb_coherent pd s'"
    using set_flag_spec(1) [OF s u(2), of d] coherent_flag [OF c a, of PTE_D] by blast
  show "\<exists>s'. pagedir_set_accessed pd u d s = Some s' \<and> tlb_coherent pd s'"
    using set_flag_spec(2) [OF s u(2), of d] coherent_flag [OF c a, of PTE_A] by blast
qed

theorem pagedir_tlb_coherent_witness:
  "let pd = 0xc0102000; u = 0x8048000; k = 0xc012b000; s = demo_mmu in
    (pagedir_get_page pd u s = Some 0 \<longrightarrow>
      (\<exists>b s'. pagedir_set_page pd u k True s = Some (b, s') \<and> tlb_coherent pd s')) \<and>
    (\<exists>s'. pagedir_clear_page pd u s = Some s' \<and> tlb_coherent pd s' \<and> tlb s' (pg_no u) = None) \<and>
    (\<exists>s'. pagedir_set_dirty pd u True s = Some s' \<and> tlb_coherent pd s') \<and>
    (\<exists>s'. pagedir_set_accessed pd u True s = Some s' \<and> tlb_coherent pd s')"
  unfolding Let_def
  by (rule pagedir_tlb_coherent [OF demo_space_ok])
    (simp_all add: active_pd_def ptov_def tlb_coherent_def pg_ofs_def PGMASK_def is_user_vaddr_def PHYS_BASE_def
      frame_ok_def is_kernel_vaddr_def demo_mmu_def)

text \<open>Creating and destroying a directory without user mappings.\<close>

lemma destroy_empty:
  assumes "pd \<noteq> 0" "pd \<noteq> init_page_dir s" "\<forall>i<768. load (pd + 4 * i) s = 0"
  shows "pagedir_destroy pd s = free_page pd s"
proof -
  have n: "unat (pd_no PHYS_BASE) = 768" by (simp add: pd_no_def PHYS_BASE_def)
  let ?f = "\<lambda>i s. if load (pd + 4 * i) s AND PTE_P \<noteq> 0 then do {
            pt \<leftarrow> pde_get_pt (load (pd + 4 * i) s);
            s \<leftarrow> for_up (unat (PGSIZE div 4)) 0 (\<lambda>j s.
              if load (pt + 4 * j) s AND PTE_P \<noteq> 0 then do {
                page \<leftarrow> pte_get_page (load (pt + 4 * j) s);
                free_page page s
              } else Some s) s;
            free_page pt s
          } else Some s"
  have z: "load (pd + 4 * of_nat j) s = 0" if "j < 768" for j
  proof -
    have "(of_nat j :: u32) < 768" using that by (simp add: word_less_nat_alt unat_of_nat32)
    then show ?thesis using assms(3) by blast
  qed
  have "\<exists>t. for_up 768 0 ?f s = Some t \<and> t = s"
    by (rule for_up_inv [of "\<lambda>_ t. t = s"]) (simp_all add: z)
  then show ?thesis using assms(1,2) by (simp add: pagedir_destroy_def n)
qed

lemma memcpy_page:
  assumes "pg_ofs pd = 0" "pg_ofs q = 0" "i < 1024"
  shows "mem_copy pd q PGSIZE m (pd + 4 * i) = m (q + 4 * i)"
    "pg_no x \<noteq> pg_no pd \<Longrightarrow> mem_copy pd q PGSIZE m x = m x"
  using offset_in_page [OF assms(1)] word_in_page(2) [OF assms(1,3)] by (simp_all add: mem_copy_def)

lemma free_page_spec:
  assumes s: "phys_ok (ph s)" and k: "kernel_page s p"
  shows "\<exists>s'. free_page p s = Some s' \<and> phys_ok (ph s') \<and> \<not> kernel_page s' p \<and>
    (\<forall>q. q \<noteq> p \<longrightarrow> kernel_page s' q = kernel_page s q) \<and> user_pool (ph s') = user_pool (ph s) \<and>
    (\<forall>x. pg_no x \<noteq> pg_no p \<longrightarrow> load x s' = load x s)"
proof -
  let ?k = "kernel_pool (ph s)"
  have w: "which 0 t = kernel_pool t" "set_which 0 q t = t\<lparr>kernel_pool := q\<rparr>" for t q
    by (simp_all add: which_def set_which_def)
  have ok: "pool_ok ?k" using phys_ok_which [OF s, of 0] by (simp add: w)
  have p: "page_in ?k p" "page_used ?k p" using k by (simp_all add: kernel_page_def)
  note i = page_in_idx(1) [OF ok p(1)]
  obtain kp where kp: "palloc_free_multiple p 1 (ph s) =
        Some ((ph s)\<lparr>kernel_pool := kp, mem := mem_fill p PGSIZE 0xcccccccc (mem (ph s))\<rparr>)"
      "pool_ok kp" "base kp = base ?k" "bit_cnt (used_map kp) = bit_cnt (used_map ?k)"
      "bm_abs (used_map kp) = fill (page_idx ?k p) 1 False (bm_abs (used_map ?k))"
    using palloc_free_spec [OF s, of 0 p 1] p i by (auto simp: w page_used_def)
  let ?s = "s\<lparr>ph := (ph s)\<lparr>kernel_pool := kp, mem := mem_fill p PGSIZE 0xcccccccc (mem (ph s))\<rparr>\<rparr>"
  have idx: "page_in kp q = page_in ?k q" "page_idx kp q = page_idx ?k q" for q
    using kp(3,4) by (simp_all add: page_in_def page_idx_def)
  have used: "page_used kp q \<longleftrightarrow> q \<noteq> p \<and> page_used ?k q" if q: "page_in ?k q" for q
    using page_in_idx(1) [OF ok q] page_idx_eq [OF ok q p(1)] i by (auto simp: page_used_def idx kp(5) nth_fill)
  have "free_page p s = Some ?s" using kp(1) by (simp add: free_page_def palloc_free_page_def)
  moreover have "phys_ok (ph ?s)" using s kp(2-4) by (simp add: phys_ok_def)
  moreover have "\<not> kernel_page ?s p" "\<forall>q. q \<noteq> p \<longrightarrow> kernel_page ?s q = kernel_page s q"
    using used idx p(1) by (auto simp: kernel_page_def)
  moreover have "\<forall>x. pg_no x \<noteq> pg_no p \<longrightarrow> load x ?s = load x s"
    using offset_in_page [of p] p(1) by (simp add: load_def mem_fill_def page_in_def)
  ultimately show ?thesis by (intro exI [of _ ?s]) simp
qed

lemma user_pd_no: "is_user_vaddr va \<Longrightarrow> pd_no va < 768"
  by (simp add: is_user_vaddr_def PHYS_BASE_def pd_no_def drop_bit_eq_div word_less_nat_alt unat_div less_mult_imp_div_less)

text \<open>A directory that repeats the entries of another one and maps no user page.\<close>

lemma copied_directory:
  assumes ini: "pd_ok s ini" and low: "\<forall>i<768. load (ini + 4 * i) s = 0"
    and ok: "phys_ok (ph s')" and kp: "\<And>q. kernel_page s' q \<longleftrightarrow> q = pd \<or> kernel_page s q" and fresh: "\<not> kernel_page s pd"
    and cp: "\<And>i. i < 1024 \<Longrightarrow> load (pd + 4 * i) s' = load (ini + 4 * i) s"
  shows "pd_ok s' pd" "is_user_vaddr va \<Longrightarrow> pagedir_get_page pd va s' = Some 0"
proof -
  have pts: "pt_of s' pd i = pt_of s ini i" if "i < 1024" for i using cp [OF that] by (simp add: pt_of_def)
  have none: "pt_of s ini (pd_no va) = None" if "is_user_vaddr va" for va
    using low user_pd_no [OF that] by (simp add: pt_of_def)
  have pte: "pte_of s' pd va = 0" if "is_user_vaddr va" for va
    using none [OF that] pts [OF no_less_1024(1), of va] by (simp add: pte_of_def)
  have "\<exists>pt. pt_of s' pd i = Some pt \<and> kernel_page s' pt \<and> pt \<noteq> pd" if "i < 1024" "load (pd + 4 * i) s' \<noteq> 0" for i
    using pd_okD(3) [OF ini that(1)] cp [OF that(1)] that(2) pts [OF that(1)] kp fresh by metis
  moreover have "i = j" if "i < 1024" "j < 1024" "pt_of s' pd i = Some pt" "pt_of s' pd j = Some pt" for i j pt
    using pd_okD(5) [OF ini that(1,2)] that(3,4) pts that(1,2) by simp
  ultimately show pd: "pd_ok s' pd" using ok kp pte unfolding pd_ok_def by auto
  show "is_user_vaddr va \<Longrightarrow> pagedir_get_page pd va s' = Some 0"
    using get_page_null [OF pd] pte by simp
qed

text \<open>
  (\<^verbatim>\<open>pagedir_create\<close>, \<^verbatim>\<open>pagedir_destroy\<close>).  Creating a directory returns null and
  changes nothing, or takes one page that was free and gives a well-formed directory that shares the
  kernel's mappings and maps no user address; destroying it frees that page and no other.
\<close>

theorem pagedir_create_destroy:
  assumes ini: "pd_ok s (init_page_dir s)" and low: "\<forall>i<768. load (init_page_dir s + 4 * i) s = 0"
  shows "\<exists>pd s'. pagedir_create s = Some (pd, s') \<and>
    (if pd = 0 then s' = s
     else \<not> kernel_page s pd \<and> pd_ok s' pd \<and>
       (\<forall>i<1024. load (pd + 4 * i) s' = load (init_page_dir s + 4 * i) s) \<and>
       (\<forall>va. is_user_vaddr va \<longrightarrow> pagedir_get_page pd va s' = Some 0) \<and>
       (\<exists>s''. pagedir_destroy pd s' = Some s'' \<and> (\<forall>q. kernel_page s'' q = kernel_page s q) \<and>
         user_pool (ph s'') = user_pool (ph s) \<and> (\<forall>x. pg_no x \<noteq> pg_no pd \<longrightarrow> load x s'' = load x s)))"
proof -
  note ok = pd_okD(1) [OF ini]
  obtain pd p where g: "palloc_get_page 0 (ph s) = Some (pd, p)" "pd = 0 \<longrightarrow> p = ph s"
    using palloc_get_page_total [OF ok, of 0] by auto
  show ?thesis
  proof (cases "pd = 0")
    case True
    then show ?thesis using g by (simp add: pagedir_create_def)
  next
    case False
    note n = new_kernel_page [OF ok g(1) False, simplified]
    let ?s1 = "s\<lparr>ph := p\<rparr>" let ?m = "mem_copy pd (init_page_dir s) PGSIZE (mem p)"
    let ?s = "s\<lparr>ph := p\<lparr>mem := ?m\<rparr>\<rparr>"
    have ok': "phys_ok (ph ?s)" using n(1) by (simp add: phys_ok_def)
    have kp: "kernel_page ?s q \<longleftrightarrow> q = pd \<or> kernel_page s q" for q using n(3) by (simp add: kernel_page_def)
    have al: "pg_ofs (init_page_dir s) = 0" "pg_ofs pd = 0"
      using kernel_page_addr(1) [OF ok pd_okD(2) [OF ini]] kernel_page_addr(1) [OF ok', of pd] kp by auto
    have ld: "load x ?s = (if pg_no x = pg_no pd then load x ?s else load x s)" for x
      using memcpy_page(2) [OF al(2,1) no_less_1024(1), of x] n(5) by (simp add: load_def)
    have cp: "load (pd + 4 * i) ?s = load (init_page_dir s + 4 * i) s" if "i < 1024" for i
      using memcpy_page(1) [OF al(2,1) that] n(5) by (simp add: load_def)
    note cd = copied_directory [OF ini low ok' kp n(2) cp]
    have ni: "pd \<noteq> init_page_dir s" using n(2) pd_okD(2) [OF ini] by auto
    have "i < 768 \<Longrightarrow> i < 1024" for i :: u32 by (erule order_less_trans) simp
    then have z: "\<forall>i<768. load (pd + 4 * i) ?s = 0" using cp low by simp
    obtain s2 where f: "free_page pd ?s = Some s2" "\<not> kernel_page s2 pd"
      "\<forall>q. q \<noteq> pd \<longrightarrow> kernel_page s2 q = kernel_page ?s q" "user_pool (ph s2) = user_pool (ph ?s)"
      "\<forall>x. pg_no x \<noteq> pg_no pd \<longrightarrow> load x s2 = load x ?s"
      using free_page_spec [OF ok', of pd] kp by blast
    have "pagedir_destroy pd ?s = Some s2" using destroy_empty [OF False _ z] ni f(1) by simp
    moreover have "\<forall>q. kernel_page s2 q = kernel_page s q" using f(2,3) kp n(2) by metis
    moreover have "\<forall>x. pg_no x \<noteq> pg_no pd \<longrightarrow> load x s2 = load x s" using f(5) ld by metis
    moreover have "pagedir_create s = Some (pd, ?s)" using g False by (simp add: pagedir_create_def)
    ultimately show ?thesis using False n(2,4) cd cp f(4) by (intro exI [of _ pd] exI [of _ ?s]) simp
  qed
qed

theorem pagedir_create_destroy_witness:
  "let s = demo_mmu\<lparr>init_page_dir := 0xc0102000\<rparr> in
   \<exists>pd s'. pagedir_create s = Some (pd, s') \<and>
    (if pd = 0 then s' = s
     else \<not> kernel_page s pd \<and> pd_ok s' pd \<and>
       (\<forall>i<1024. load (pd + 4 * i) s' = load (init_page_dir s + 4 * i) s) \<and>
       (\<forall>va. is_user_vaddr va \<longrightarrow> pagedir_get_page pd va s' = Some 0) \<and>
       (\<exists>s''. pagedir_destroy pd s' = Some s'' \<and> (\<forall>q. kernel_page s'' q = kernel_page s q) \<and>
         user_pool (ph s'') = user_pool (ph s) \<and> (\<forall>x. pg_no x \<noteq> pg_no pd \<longrightarrow> load x s'' = load x s)))"
proof -
  have "pd_ok (demo_mmu\<lparr>init_page_dir := a\<rparr>) pd = pd_ok demo_mmu pd" for a pd
    by (simp add: pd_ok_def pte_of_def pt_of_def load_def kernel_page_def cong: option.case_cong)
  then have "pd_ok (demo_mmu\<lparr>init_page_dir := 0xc0102000\<rparr>) 0xc0102000" using demo_space_ok by (simp add: space_ok_def)
  then show ?thesis unfolding Let_def
    by (intro pagedir_create_destroy) (simp_all add: load_def demo_mmu_def)
qed

end
