(* ===== verification/Arith64.thy ===== *)
theory Arith64
  imports Prelude
begin

unbundle bit_operations_syntax

text \<open>
  64-bit division: \<^verbatim>\<open>src/lib/arithmetic.c\<close>, the routines the compiler calls for
  \<^verbatim>\<open>long long\<close> division and remainder.  A trap of the division instruction is \<open>None\<close>.
\<close>

section \<open>Operations\<close>

definition divl :: "u64 \<Rightarrow> u32 \<Rightarrow> u32 option" where
  "divl n d = (let q = n div ucast d in if d = 0 \<or> 2 ^ 32 \<le> q then None else Some (ucast q))"

definition nlz :: "u32 \<Rightarrow> nat" where
  "nlz x =
     (let n = 0;
          (n, x) = (if x \<le> 0x0000FFFF then (n + 16, push_bit 16 x) else (n, x));
          (n, x) = (if x \<le> 0x00FFFFFF then (n + 8, push_bit 8 x) else (n, x));
          (n, x) = (if x \<le> 0x0FFFFFFF then (n + 4, push_bit 4 x) else (n, x));
          (n, x) = (if x \<le> 0x3FFFFFFF then (n + 2, push_bit 2 x) else (n, x))
      in if x \<le> 0x7FFFFFFF then n + 1 else n)"

definition udiv64 :: "u64 \<Rightarrow> u64 \<Rightarrow> u64 option" where
  "udiv64 n d =
     (if drop_bit 32 d = 0 then
        (let b = push_bit 32 (1 :: u64); n1 = ucast (drop_bit 32 n) :: u32; n0 = ucast n :: u32; d0 = ucast d :: u32
         in if d0 = 0 then None
            else do {
              q \<leftarrow> divl (b * ucast (n1 mod d0) + ucast n0) d0;
              Some (ucast q + b * ucast (n1 div d0))
            })
      else if n < d then Some 0
      else (let d1 = ucast (drop_bit 32 d) :: u32; s = nlz d1
            in do {
              q \<leftarrow> divl (drop_bit 1 n) (ucast (drop_bit 32 (push_bit s d)));
              let q = ucast (drop_bit (31 - s) q);
              Some (if n - (q - 1) * d < d then q - 1 else q)
            }))"

definition umod64 :: "u64 \<Rightarrow> u64 \<Rightarrow> u32 option" where
  "umod64 n d = do { q \<leftarrow> udiv64 n d; Some (ucast (n - d * q)) }"

text \<open>Signed numbers are kept as words; \<^verbatim>\<open>n >= 0\<close> reads the word as a signed number.\<close>

definition sdiv64 :: "u64 \<Rightarrow> u64 \<Rightarrow> u64 option" where
  "sdiv64 n d = do {
     let n_abs = (if 0 \<le> sint n then n else - n);
     let d_abs = (if 0 \<le> sint d then d else - d);
     q_abs \<leftarrow> udiv64 n_abs d_abs;
     Some (if (sint n < 0) = (sint d < 0) then q_abs else - q_abs)
   }"

definition smod64 :: "u64 \<Rightarrow> u64 \<Rightarrow> u32 option" where
  "smod64 n d = do { q \<leftarrow> sdiv64 n d; Some (ucast (n - d * q)) }"

definition divdi3 :: "u64 \<Rightarrow> u64 \<Rightarrow> u64 option" where
  "divdi3 n d = sdiv64 n d"

definition moddi3 :: "u64 \<Rightarrow> u64 \<Rightarrow> u64 option" where
  "moddi3 n d = map_option scast (smod64 n d)"

definition udivdi3 :: "u64 \<Rightarrow> u64 \<Rightarrow> u64 option" where
  "udivdi3 n d = udiv64 n d"

definition umoddi3 :: "u64 \<Rightarrow> u64 \<Rightarrow> u64 option" where
  "umoddi3 n d = map_option ucast (umod64 n d)"

section \<open>Counting leading zeros\<close>

text \<open>One round with a shift of \<open>k\<close>: a number of at least \<open>2^m\<close> becomes one of at least \<open>2^(m + k)\<close>.\<close>

lemma unat_push_bit: "unat x * 2 ^ k < 2 ^ LENGTH('a) \<Longrightarrow> unat (push_bit k x :: 'a::len word) = unat x * 2 ^ k"
  by (simp add: unsigned_push_bit_eq push_bit_nat_def take_bit_nat_eq_self)

lemma nlz_round:
  fixes x c :: u32
  assumes x: "unat x = X * 2 ^ n" "2 ^ m \<le> unat x" and c: "Suc (unat c) = 2 ^ (m + k)" and k: "m + 2 * k = 32"
    and r: "(n', x') = (if x \<le> c then (n + k, push_bit k x) else (n, x))"
  shows "unat x' = X * 2 ^ n' \<and> 2 ^ (m + k) \<le> unat x' \<and> n' \<le> n + k"
proof (cases "x \<le> c")
  case True
  then have "unat x < 2 ^ (m + k)" using c by (simp add: word_le_nat_alt)
  then have "unat x * 2 ^ k < 2 ^ (m + k) * 2 ^ k" by simp
  also have "\<dots> = 2 ^ (m + 2 * k)" by (simp add: power_add mult_2)
  finally have "unat (push_bit k x) = unat x * 2 ^ k" by (intro unat_push_bit) (simp add: k)
  then show ?thesis using True x r by (simp add: power_add)
next
  case False
  then show ?thesis using x(1) c r by (simp add: word_le_nat_alt)
qed

lemma nlz_correct:
  assumes "x \<noteq> 0"
  shows "nlz x \<le> 31" "2 ^ 31 \<le> unat x * 2 ^ nlz x" "unat x * 2 ^ nlz x < 2 ^ 32"
proof -
  obtain n1 :: nat and x1 where r1: "(n1, x1) = (if x \<le> 0x0000FFFF then (0 + 16, push_bit 16 x) else (0, x))" by (metis prod.exhaust)
  obtain n2 x2 where r2: "(n2, x2) = (if x1 \<le> 0x00FFFFFF then (n1 + 8, push_bit 8 x1) else (n1, x1))" by (metis prod.exhaust)
  obtain n3 x3 where r3: "(n3, x3) = (if x2 \<le> 0x0FFFFFFF then (n2 + 4, push_bit 4 x2) else (n2, x2))" by (metis prod.exhaust)
  obtain n4 x4 where r4: "(n4, x4) = (if x3 \<le> 0x3FFFFFFF then (n3 + 2, push_bit 2 x3) else (n3, x3))" by (metis prod.exhaust)
  have i1: "unat x1 = unat x * 2 ^ n1 \<and> 2 ^ (0 + 16) \<le> unat x1 \<and> n1 \<le> 0 + 16"
    by (rule nlz_round [OF _ _ _ _ r1]) (use assms in \<open>simp_all add: Suc_le_eq unat_gt_0\<close>)
  have i2: "unat x2 = unat x * 2 ^ n2 \<and> 2 ^ (16 + 8) \<le> unat x2 \<and> n2 \<le> n1 + 8"
    by (rule nlz_round [OF _ _ _ _ r2]) (use i1 in simp_all)
  have i3: "unat x3 = unat x * 2 ^ n3 \<and> 2 ^ (24 + 4) \<le> unat x3 \<and> n3 \<le> n2 + 4"
    by (rule nlz_round [OF _ _ _ _ r3]) (use i2 in simp_all)
  have i4: "unat x4 = unat x * 2 ^ n4 \<and> 2 ^ (28 + 2) \<le> unat x4 \<and> n4 \<le> n3 + 2"
    by (rule nlz_round [OF _ _ _ _ r4]) (use i3 in simp_all)
  have n: "nlz x = (if x4 \<le> 0x7FFFFFFF then n4 + 1 else n4)"
    by (simp only: nlz_def Let_def prod.case flip: r1 r2 r3 r4)
  show "nlz x \<le> 31" "2 ^ 31 \<le> unat x * 2 ^ nlz x" "unat x * 2 ^ nlz x < 2 ^ 32"
    using i1 i2 i3 i4 unat_lt32 [of x4] by (auto simp: n word_le_nat_alt)
qed

section \<open>Division\<close>

lemma unat_lt64: "unat (w :: u64) < 2 ^ 64"
  using unsigned_less [of w, where ?'a = nat] by simp

lemma unat_ucast_32: "unat (ucast (w :: u64) :: u32) = unat w mod 2 ^ 32"
  by (simp add: unsigned_ucast_eq take_bit_eq_mod)

lemma unat_ucast_64: "unat (ucast (w :: u32) :: u64) = unat w"
  using unat_lt32 [of w] by (simp add: unsigned_ucast_eq take_bit_eq_mod)

lemma unat_drop: "unat (drop_bit k (w :: 'a::len word)) = unat w div 2 ^ k"
  using unsigned_less [of w, where ?'a = nat]
  by (simp add: unsigned_drop_bit_eq drop_bit_nat_def take_bit_nat_eq_self)

lemma divl_Some:
  assumes "d \<noteq> 0" "unat n div unat d < 2 ^ 32"
  shows "\<exists>q. divl n d = Some q \<and> unat q = unat n div unat d"
proof -
  have u: "unat (n div ucast d) = unat n div unat d" by (simp add: unat_div unat_ucast_64)
  then have "\<not> 2 ^ 32 \<le> n div ucast d" using assms(2) by (simp add: word_le_nat_alt)
  then show ?thesis using assms u by (simp add: divl_def Let_def unat_ucast_32)
qed

text \<open>The case of a 32-bit divisor: the two halves are divided one after the other.\<close>

lemma div_halves:
  assumes "0 < (D :: nat)" "D < B"
  shows "(B * (H mod D) + L) div D + B * (H div D) = (B * H + L) div D"
    "L < B \<Longrightarrow> (B * (H mod D) + L) div D < B" "L < B \<Longrightarrow> B * (H mod D) + L < B * B"
proof -
  have "B * H = B * (H mod D) + B * (H div D) * D"
    by (metis add.commute div_mult_mod_eq distrib_left mult.assoc)
  then have "B * H + L = (B * (H mod D) + L) + B * (H div D) * D" by simp
  then have "(B * H + L) div D = ((B * (H mod D) + L) + B * (H div D) * D) div D" by (rule arg_cong)
  also have "\<dots> = (B * (H mod D) + L) div D + B * (H div D)" using assms(1) by (subst div_mult_self1) simp_all
  finally show "(B * (H mod D) + L) div D + B * (H div D) = (B * H + L) div D" by (rule sym)
  assume L: "L < B"
  obtain E where E: "D = Suc E" using assms(1) by (cases D) simp_all
  then have "H mod D \<le> E" using mod_less_divisor [OF assms(1), of H] by simp
  then have "B * (H mod D) \<le> B * E" by simp
  from add_le_less_mono [OF this L] have m: "B * (H mod D) + L < B * D" using E by simp
  then show "(B * (H mod D) + L) div D < B" by (simp add: div_less_iff_less_mult assms(1))
  show "B * (H mod D) + L < B * B" using m assms(2) by (meson less_le_trans less_imp_le mult_le_mono2)
qed

text \<open>
  The case of a divisor of more than 32 bits.  \<open>v\<close> is the divisor, shifted to the left until its top bit
  is set and cut to its upper half; dividing by it gives the quotient or the quotient plus one.
\<close>

lemma estimate:
  fixes N D v t :: nat
  assumes v: "2 ^ 31 \<le> v" "v = D div t" and t: "0 < t" and N: "N < 2 ^ 64"
  shows "N div D \<le> N div (v * t)" "N div (v * t) \<le> N div D + 1"
proof -
  let ?E = "v * t" and ?q = "N div D"
  have E: "0 < ?E" "?E \<le> D" using v t by (simp_all add: Suc_le_eq order_less_le_trans div_times_less_eq_dividend)
  have D: "D < ?E + t" using v(2) t by (metis add.commute div_mod_decomp div_mult_mod_eq mod_less_divisor nat_add_left_cancel_less)
  show "N div D \<le> N div ?E" by (rule div_le_mono2 [OF E])
  obtain u where u: "t = Suc u" using t by (cases t) simp_all
  have "D - ?E \<le> u" using D u by linarith
  then have "N * (D - ?E) \<le> N * u" by simp
  also have "\<dots> < 2 ^ 62 * (t * t)"
  proof (cases u)
    case 0 then show ?thesis by (simp add: u)
  next
    case (Suc w)
    have "N * u < 2 ^ 64 * u" using N Suc by (intro mult_strict_right_mono) simp_all
    also have "\<dots> = 2 ^ 62 * (4 * u)" by simp
    also have "\<dots> \<le> 2 ^ 62 * (t * t)" unfolding u Suc by (intro mult_le_mono2) (simp add: algebra_simps)
    finally show ?thesis .
  qed
  also have "\<dots> \<le> (v * v) * (t * t)" using mult_le_mono [OF v(1) v(1)] by simp
  also have "\<dots> = ?E * ?E" by simp
  also have "\<dots> \<le> ?E * D" using E by simp
  finally have "N * (D - ?E) < ?E * D" .
  then have "N * D < ?E * D + N * ?E" using E(2) by (simp add: diff_mult_distrib2 less_diff_conv2)
  also have "\<dots> = ?E * (D + N)" by (simp add: algebra_simps)
  also have "\<dots> < ?E * (D + (?q * D + D))"
  proof -
    have "N < ?q * D + D" using E by (metis add.commute div_mult_mod_eq mod_less_divisor nat_add_left_cancel_less order_less_le_trans)
    then show ?thesis using E(1) by simp
  qed
  also have "\<dots> = (?q + 2) * ?E * D" by (simp add: algebra_simps)
  finally have "N < (?q + 2) * ?E" by simp
  then have "N div ?E < ?q + 2" using E(1) by (simp add: div_less_iff_less_mult)
  then show "N div ?E \<le> ?q + 1" by simp
qed

lemma fix_up:
  fixes N D q :: nat
  assumes q: "N div D \<le> q" "q \<le> N div D + 1" and D: "0 < D" "D \<le> N"
  shows "0 < q" "(q - 1) * D \<le> N" "(if N - (q - 1) * D < D then q - 1 else q) = N div D"
proof -
  have p: "0 < N div D" using D by (simp add: div_greater_zero_iff)
  then show "0 < q" using q(1) by linarith
  have "(q - 1) * D \<le> (N div D) * D" using q(2) by (intro mult_le_mono1) linarith
  then show "(q - 1) * D \<le> N" using div_times_less_eq_dividend [of N D] by linarith
  have e: "N = (N div D) * D + N mod D" and m: "N mod D < D" using D by simp_all
  show "(if N - (q - 1) * D < D then q - 1 else q) = N div D"
  proof (cases "q = N div D")
    case True
    obtain p where "N div D = Suc p" using p gr0_conv_Suc by blast
    then have "N - (q - 1) * D = D + N mod D" using e True by (metis add.assoc add.commute diff_Suc_1 diff_add_inverse mult_Suc)
    then show ?thesis using True by simp
  next
    case False
    then have "q = N div D + 1" using q by linarith
    moreover from this have "N - (q - 1) * D = N mod D" using e by (metis add_diff_cancel_right' minus_div_mult_eq_mod)
    ultimately show ?thesis using m by simp
  qed
qed

lemma udiv64_small:
  assumes d: "d \<noteq> 0" "drop_bit 32 d = 0"
  shows "udiv64 n d = Some (n div d)"
proof -
  let ?N = "unat n" and ?D = "unat d" and ?B = "2 ^ 32 :: nat"
  have "?D div ?B = 0" using d(2) unat_drop [of 32 d] by (metis unat_0)
  then have D: "?D < ?B" "0 < ?D" using d(1) by (auto simp: div_eq_0_iff unat_gt_0)
  let ?n1 = "ucast (drop_bit 32 n) :: u32" and ?n0 = "ucast n :: u32" and ?d0 = "ucast d :: u32"
  have u: "unat ?n1 = ?N div ?B" "unat ?n0 = ?N mod ?B" "unat ?d0 = ?D"
    using unat_lt64 [of n] D by (simp_all add: unat_ucast_32 unat_drop)
  have d0: "?d0 \<noteq> 0" using u(3) D by auto
  let ?L = "?N mod ?B" and ?H = "?N div ?B"
  note h = div_halves [OF D(2,1), where H = ?H and L = ?L]
  have L: "?L < ?B" by simp
  let ?x = "push_bit 32 (1 :: u64) * ucast (?n1 mod ?d0) + ucast ?n0"
  have x: "unat ?x = ?B * (?H mod ?D) + ?L"
  proof -
    have b: "?B * (?H mod ?D) + ?L < 2 ^ 64" using h(3) [OF L] by simp
    have "unat (push_bit 32 (1 :: u64) * ucast (?n1 mod ?d0)) = ?B * (?H mod ?D)"
      using b by (simp add: unat_word_ariths unat_ucast_64 unat_mod u)
    then show ?thesis using b unat_add_nowrap [of "push_bit 32 (1 :: u64) * ucast (?n1 mod ?d0)" "ucast ?n0"]
      by (simp add: unat_ucast_64 u)
  qed
  obtain q where q: "divl ?x ?d0 = Some q" "unat q = (?B * (?H mod ?D) + ?L) div ?D"
    using divl_Some [OF d0, of ?x, unfolded x u] h(2) [OF L] by blast
  have e: "unat q + ?B * (?H div ?D) = ?N div ?D"
    using h(1) q(2) by simp
  have "unat (ucast q + push_bit 32 (1 :: u64) * ucast (?n1 div ?d0)) = ?N div ?D"
  proof -
    have b: "?N div ?D < 2 ^ 64" using unat_lt64 [of n] by (meson div_le_dividend le_less_trans)
    have "unat (push_bit 32 (1 :: u64) * ucast (?n1 div ?d0)) = ?B * (?H div ?D)"
      using b e by (simp add: unat_word_ariths unat_ucast_64 unat_div u)
    then show ?thesis using b e unat_add_nowrap [of "ucast q" "push_bit 32 (1 :: u64) * ucast (?n1 div ?d0)"]
      by (simp add: unat_ucast_64)
  qed
  then have "ucast q + push_bit 32 (1 :: u64) * ucast (?n1 div ?d0) = n div d"
    by (simp add: word_unat_eq_iff unat_div)
  then show ?thesis using d q d0 by (simp add: udiv64_def Let_def)
qed

text \<open>Shifting the divisor until its top bit is set.\<close>

lemma normalise:
  fixes D s :: nat
  assumes s: "s \<le> 31" "2 ^ 31 \<le> D div 2 ^ 32 * 2 ^ s" "D div 2 ^ 32 * 2 ^ s < 2 ^ 32"
  shows "D * 2 ^ s < 2 ^ 64" "D * 2 ^ s div 2 ^ 32 = D div 2 ^ (32 - s)" "2 ^ 31 \<le> D div 2 ^ (32 - s)"
proof -
  let ?t = "2 ^ (32 - s) :: nat"
  have pw: "(2 :: nat) ^ 32 = ?t * 2 ^ s" using s(1) by (simp flip: power_add)
  have "D div 2 ^ 32 * 2 ^ s < ?t * 2 ^ s" using s(3) pw by metis
  then have "D div 2 ^ 32 < ?t" by simp
  then have "D < ?t * 2 ^ 32" by (simp add: div_less_iff_less_mult)
  then have "D * 2 ^ s < ?t * 2 ^ 32 * 2 ^ s" by simp
  also have "\<dots> = 2 ^ 32 * (?t * 2 ^ s)" by simp
  also have "\<dots> = 2 ^ 64" by (simp flip: pw)
  finally show "D * 2 ^ s < 2 ^ 64" .
  have "D * 2 ^ s div (?t * 2 ^ s) = D div ?t" by simp
  then show e: "D * 2 ^ s div 2 ^ 32 = D div ?t" by (metis pw)
  have "D div 2 ^ 32 * 2 ^ s * 2 ^ 32 \<le> D * 2 ^ s" by (simp add: div_times_less_eq_dividend mult.commute mult.left_commute)
  then have "D div 2 ^ 32 * 2 ^ s \<le> D * 2 ^ s div 2 ^ 32" by (simp add: less_eq_div_iff_mult_less_eq)
  then show "2 ^ 31 \<le> D div ?t" using e s(2) by linarith
qed

lemma udiv64_large:
  assumes d: "drop_bit 32 d \<noteq> 0"
  shows "udiv64 n d = Some (n div d)"
proof (cases "n < d")
  case True
  then have "n div d = 0" by (simp add: word_unat_eq_iff unat_div word_less_nat_alt)
  then show ?thesis using True d by (simp add: udiv64_def)
next
  case False
  let ?N = "unat n" and ?D = "unat d"
  let ?d1 = "ucast (drop_bit 32 d) :: u32"
  have ge: "?D \<le> ?N" using False by (simp add: word_less_nat_alt)
  have d1: "unat ?d1 = ?D div 2 ^ 32" using unat_lt64 [of d] by (simp add: unat_ucast_32 unat_drop)
  have hi: "?D div 2 ^ 32 \<noteq> 0" using d unat_drop [of 32 d] by (metis unat_eq_zero)
  then have "?d1 \<noteq> 0" using d1 by auto
  then obtain s where s: "s = nlz ?d1" and z: "s \<le> 31" "2 ^ 31 \<le> ?D div 2 ^ 32 * 2 ^ s" "?D div 2 ^ 32 * 2 ^ s < 2 ^ 32"
    using nlz_correct [of ?d1] d1 by metis
  note n = normalise [OF z]
  let ?t = "2 ^ (32 - s) :: nat" and ?v = "ucast (drop_bit 32 (push_bit s d)) :: u32"
  have p: "unat (push_bit s d) = ?D * 2 ^ s" using n(1) by (intro unat_push_bit) simp
  have "?D * 2 ^ s div 2 ^ 32 < 2 ^ 32" using n(1) by (simp add: div_less_iff_less_mult)
  then have v: "unat ?v = ?D div ?t" using n(2) by (simp add: unat_ucast_32 unat_drop p)
  have D: "0 < ?D" using hi by (cases ?D) simp_all
  note es = estimate [OF n(3) refl _ unat_lt64, of n]
  have v0: "?v \<noteq> 0" using v n(3) by auto
  have "?N div 2 < 2 ^ 63" using unat_lt64 [of n] by simp
  also have "\<dots> \<le> 2 ^ 32 * (?D div ?t)" using n(3) by simp
  finally have "unat (drop_bit 1 n) div unat ?v < 2 ^ 32"
    using n(3) by (simp add: unat_drop v div_less_iff_less_mult)
  then obtain q where q: "divl (drop_bit 1 n) ?v = Some q" "unat q = ?N div 2 div (?D div ?t)"
    using divl_Some [OF v0, of "drop_bit 1 n"] by (auto simp: unat_drop v)
  let ?q = "ucast (drop_bit (31 - s) q) :: u64"
  have "32 - s = Suc (31 - s)" using z(1) by linarith
  then have t: "?t = 2 * 2 ^ (31 - s)" by (simp only: power_Suc)
  have pt: "2 * (?D div ?t) * 2 ^ (31 - s) = (?D div ?t) * ?t" by (subst (2) t) simp
  have uq: "unat ?q = ?N div ((?D div ?t) * ?t)"
    using q(2) by (simp add: unat_ucast_64 unat_drop flip: pt div_mult2_eq)
  note f = fix_up [OF es D ge, folded uq]
  have one: "unat (?q - 1) = unat ?q - 1"
    using f(1) by (subst unat_sub) (simp_all add: word_le_nat_alt)
  have m: "unat ((?q - 1) * d) = (unat ?q - 1) * ?D"
    using f(2) unat_lt64 [of n] by (simp add: unat_word_ariths one)
  have r: "unat (n - (?q - 1) * d) = ?N - (unat ?q - 1) * ?D"
    using f(2) m by (subst unat_sub) (simp_all add: word_le_nat_alt)
  have "(if n - (?q - 1) * d < d then ?q - 1 else ?q) = n div d"
    using f(3) one by (simp add: word_unat_eq_iff unat_div word_less_nat_alt r split: if_splits)
  then show ?thesis using q(1) d False by (auto simp: udiv64_def Let_def simp flip: s split: if_splits)
qed

lemma udiv64_eq: "udiv64 n d = (if d = 0 then None else Some (n div d))"
proof (cases "d = 0")
  case True then show ?thesis by (simp add: udiv64_def)
next
  case False
  then show ?thesis using udiv64_small [of d n] udiv64_large [of d n] by (cases "drop_bit 32 d = 0") simp_all
qed

section \<open>Signed division\<close>

lemma abs_word:
  "uint (if 0 \<le> sint n then n else - n) = \<bar>sint n\<bar>" for n :: u64
proof -
  have r: "- (2 ^ 63) \<le> sint n" "sint n < 2 ^ 63" using sint_greater_eq [of n] sint_less [of n] by simp_all
  have "(if 0 \<le> sint n then n else - n) = word_of_int \<bar>sint n\<bar>" by (simp add: abs_if word_of_int_minus)
  then show ?thesis using r by (simp add: uint_word_of_int abs_if split: if_splits)
qed

lemma sdiv64_eq: "sdiv64 n d = (if d = 0 then None else Some (word_of_int (cdiv (sint n) (sint d))))"
proof (cases "d = 0")
  case True then show ?thesis by (simp add: sdiv64_def udiv64_eq)
next
  case False
  let ?n = "if 0 \<le> sint n then n else - n" and ?d = "if 0 \<le> sint d then d else - d"
  have "?d \<noteq> 0" using False by auto
  moreover have "?n div ?d = word_of_int (\<bar>sint n\<bar> div \<bar>sint d\<bar>)"
    unfolding word_div_def abs_word ..
  ultimately have "sdiv64 n d = Some (if (sint n < 0) = (sint d < 0) then word_of_int (\<bar>sint n\<bar> div \<bar>sint d\<bar>)
      else - word_of_int (\<bar>sint n\<bar> div \<bar>sint d\<bar>))"
    unfolding sdiv64_def Let_def udiv64_eq by (simp split del: if_split)
  then show ?thesis using False by (simp add: cdiv_def)
qed

section \<open>Properties\<close>

text \<open>
  C27 (\<^verbatim>\<open>udiv64\<close>, \<^verbatim>\<open>divl\<close>, \<^verbatim>\<open>nlz\<close>, \<^verbatim>\<open>__udivdi3\<close>).  The unsigned 64-bit
  division, built from a division of 64 by 32 bits, never traps on a divisor other than zero and
  computes the quotient; a zero divisor traps.
\<close>

theorem udivdi3_correct: "udivdi3 n d = (if d = 0 then None else Some (n div d))"
  by (simp add: udivdi3_def udiv64_eq)

text \<open>
  (\<^verbatim>\<open>sdiv64\<close>, \<^verbatim>\<open>__divdi3\<close>).  The signed division is the quotient truncated towards zero,
  reduced to 64 bits, for every dividend and every divisor other than zero.
\<close>

theorem divdi3_correct:
  "divdi3 n d = (if d = 0 then None else Some (word_of_int (cdiv (sint n) (sint d))))"
  by (simp add: divdi3_def sdiv64_eq)

text \<open>
  C38 (\<^verbatim>\<open>umod64\<close>, \<^verbatim>\<open>__umoddi3\<close>).  The unsigned remainder is cut to its low 32 bits, so that it
  is the remainder when the divisor is at most \<open>2^32\<close> but not in general: the remainder of \<open>2^33\<close> by \<open>2^34\<close>
  comes out as zero.
\<close>

theorem umoddi3_low_bits:
  "map_option unat (umoddi3 n d) = (if d = 0 then None else Some (unat n mod unat d mod 2 ^ 32)) \<and>
   (0 < unat d \<and> unat d \<le> 2 ^ 32 \<longrightarrow> umoddi3 n d = Some (n mod d)) \<and>
   umoddi3 (2 ^ 33) (2 ^ 34) = Some 0 \<and> (2 ^ 33 :: u64) mod 2 ^ 34 = 2 ^ 33"
proof -
  have m: "n - d * (n div d) = n mod d" for n d :: u64 by (simp add: minus_mult_div_eq_mod)
  have e: "umoddi3 n d = (if d = 0 then None else Some (ucast (ucast (n mod d) :: u32)))" for n d
    by (simp add: umoddi3_def umod64_def udiv64_eq m)
  have u: "unat (ucast (ucast (n mod d) :: u32) :: u64) = unat n mod unat d mod 2 ^ 32"
    by (simp only: unat_ucast_64 unat_ucast_32 unat_mod)
  have "umoddi3 n d = Some (n mod d)" if "0 < unat d" "unat d \<le> 2 ^ 32"
  proof -
    have "unat n mod unat d < 2 ^ 32" using that mod_less_divisor [OF that(1), of "unat n"] by linarith
    then have "ucast (ucast (n mod d) :: u32) = n mod d" using u by (simp add: word_unat_eq_iff unat_mod)
    then show ?thesis using e [of n d] that by (simp add: unat_gt_0)
  qed
  moreover have "umoddi3 (2 ^ 33) (2 ^ 34) = Some 0" "(2 ^ 33 :: u64) mod 2 ^ 34 = 2 ^ 33"
    by (simp_all add: e)
  ultimately show ?thesis using e [of n d] u by simp
qed

theorem umoddi3_low_bits_witness:
  "map_option unat (umoddi3 1000 7) = Some (unat (1000 :: u64) mod unat (7 :: u64) mod 2 ^ 32) \<and>
   umoddi3 1000 7 = Some (1000 mod 7)"
  using umoddi3_low_bits [of 1000 7] by simp

end
