(* ===== verification/KHash.thy ===== *)
theory KHash
  imports KList
begin

unbundle bit_operations_syntax

text \<open>
  Hash tables with chaining: \<^verbatim>\<open>src/lib/kernel/hash.c\<close>, on top of the lists of theory \<open>KList\<close>.

  The bucket array is a block of lists of 16 bytes each, so that bucket \<open>i\<close> is the list at
  \<open>buckets + 16 i\<close> in the heap.  Where the code calls \<^verbatim>\<open>malloc\<close> for a bucket array the model takes
  the address it returns as an argument \<open>nb\<close>, null when the allocation fails.  The hash function and
  the comparison read the structures the elements are embedded in and no link, so they are functions of
  the address of an element; their auxiliary argument is part of the function.
\<close>

section \<open>Operations\<close>

record hash =
  helem_cnt :: u32
  bucket_cnt :: u32
  buckets :: addr
  hashf :: "addr \<Rightarrow> u32"
  lessf :: less_func

definition bucket_at :: "addr \<Rightarrow> u32 \<Rightarrow> addr" where
  "bucket_at b i = b + 16 * i"

definition find_bucket :: "hash \<Rightarrow> addr \<Rightarrow> addr" where
  "find_bucket H e = (let bucket_idx = hashf H e AND (bucket_cnt H - 1) in bucket_at (buckets H) bucket_idx)"

partial_function (option) find_elem_loop :: "heap \<Rightarrow> hash \<Rightarrow> addr \<Rightarrow> addr \<Rightarrow> addr \<Rightarrow> addr option" where
  "find_elem_loop h H i en e =
     (if i = en then Some NULL
      else if \<not> lessf H i e \<and> \<not> lessf H e i then Some i
      else do {
        i \<leftarrow> list_next h i;
        find_elem_loop h H i en e
      })"

definition find_elem :: "heap \<Rightarrow> hash \<Rightarrow> addr \<Rightarrow> addr \<Rightarrow> addr option" where
  "find_elem h H bucket e = do {
     i \<leftarrow> list_begin h bucket;
     en \<leftarrow> list_end bucket;
     find_elem_loop h H i en e
   }"

definition turn_off_least_1bit :: "u32 \<Rightarrow> u32" where
  "turn_off_least_1bit x = x AND (x - 1)"

definition is_power_of_2 :: "u32 \<Rightarrow> bool" where
  "is_power_of_2 x \<longleftrightarrow> x \<noteq> 0 \<and> turn_off_least_1bit x = 0"

definition MIN_ELEMS_PER_BUCKET :: u32 where "MIN_ELEMS_PER_BUCKET = 1"
definition BEST_ELEMS_PER_BUCKET :: u32 where "BEST_ELEMS_PER_BUCKET = 2"
definition MAX_ELEMS_PER_BUCKET :: u32 where "MAX_ELEMS_PER_BUCKET = 4"

partial_function (option) to_power_of_2 :: "u32 \<Rightarrow> u32 option" where
  "to_power_of_2 x = (if is_power_of_2 x then Some x else to_power_of_2 (turn_off_least_1bit x))"

text \<open>The inner loop of \<^verbatim>\<open>rehash\<close>: the elements of one old bucket go to their new buckets.\<close>

partial_function (option) rehash_move :: "heap \<Rightarrow> hash \<Rightarrow> addr \<Rightarrow> addr \<Rightarrow> heap option" where
  "rehash_move h H elem en =
     (if elem = en then Some h
      else do {
        let new_bucket = find_bucket H elem;
        next \<leftarrow> list_next h elem;
        (_, h) \<leftarrow> list_remove h elem;
        h \<leftarrow> list_push_front h new_bucket elem;
        rehash_move h H next en
      })"

definition rehash :: "addr \<Rightarrow> heap \<Rightarrow> hash \<Rightarrow> (heap \<times> hash) option" where
  "rehash nb h H = do {
     let old_buckets = buckets H;
     let old_bucket_cnt = bucket_cnt H;
     let new_bucket_cnt = helem_cnt H div BEST_ELEMS_PER_BUCKET;
     let new_bucket_cnt = (if new_bucket_cnt < 4 then 4 else new_bucket_cnt);
     new_bucket_cnt \<leftarrow> to_power_of_2 new_bucket_cnt;
     if new_bucket_cnt = old_bucket_cnt then Some (h, H)
     else if nb = NULL then Some (h, H)
     else do {
       h \<leftarrow> for_up (unat new_bucket_cnt) 0 (\<lambda>i h. list_init h (bucket_at nb i)) h;
       let H = H\<lparr>buckets := nb, bucket_cnt := new_bucket_cnt\<rparr>;
       h \<leftarrow> for_up (unat old_bucket_cnt) 0 (\<lambda>i h. do {
              let old_bucket = bucket_at old_buckets i;
              b \<leftarrow> list_begin h old_bucket;
              en \<leftarrow> list_end old_bucket;
              rehash_move h H b en
            }) h;
       Some (h, H)
     }
   }"

definition insert_elem :: "heap \<Rightarrow> hash \<Rightarrow> addr \<Rightarrow> addr \<Rightarrow> (heap \<times> hash) option" where
  "insert_elem h H bucket e = do {
     let H = H\<lparr>helem_cnt := helem_cnt H + 1\<rparr>;
     h \<leftarrow> list_push_front h bucket e;
     Some (h, H)
   }"

definition remove_elem :: "heap \<Rightarrow> hash \<Rightarrow> addr \<Rightarrow> (heap \<times> hash) option" where
  "remove_elem h H e = do {
     let H = H\<lparr>helem_cnt := helem_cnt H - 1\<rparr>;
     (_, h) \<leftarrow> list_remove h e;
     Some (h, H)
   }"

text \<open>A destructor or an action changes a state \<open>'w\<close> of its own and not the table.\<close>

partial_function (option) clear_bucket ::
  "heap \<Rightarrow> addr \<Rightarrow> (addr \<Rightarrow> 'w \<Rightarrow> 'w option) \<Rightarrow> 'w \<Rightarrow> (heap \<times> 'w) option" where
  "clear_bucket h bucket destructor w = do {
     em \<leftarrow> list_empty h bucket;
     if em then Some (h, w)
     else do {
       (e, h) \<leftarrow> list_pop_front h bucket;
       w \<leftarrow> destructor e w;
       clear_bucket h bucket destructor w
     }
   }"

definition hash_clear ::
  "(addr \<Rightarrow> 'w \<Rightarrow> 'w option) option \<Rightarrow> heap \<Rightarrow> hash \<Rightarrow> 'w \<Rightarrow> (heap \<times> hash \<times> 'w) option" where
  "hash_clear destructor h H w = do {
     (h, w) \<leftarrow> for_up (unat (bucket_cnt H)) 0 (\<lambda>i (h, w). do {
         let bucket = bucket_at (buckets H) i;
         (h, w) \<leftarrow> (case destructor of Some d \<Rightarrow> clear_bucket h bucket d w | None \<Rightarrow> Some (h, w));
         h \<leftarrow> list_init h bucket;
         Some (h, w)
       }) (h, w);
     Some (h, H\<lparr>helem_cnt := 0\<rparr>, w)
   }"

definition hash_init :: "addr \<Rightarrow> (addr \<Rightarrow> u32) \<Rightarrow> less_func \<Rightarrow> heap \<Rightarrow> (bool \<times> heap \<times> hash) option" where
  "hash_init nb hs lt h = do {
     let H = \<lparr>helem_cnt = 0, bucket_cnt = 4, buckets = nb, hashf = hs, lessf = lt\<rparr>;
     if nb \<noteq> NULL then do {
       (h, H, _) \<leftarrow> hash_clear None h H ();
       Some (True, h, H)
     } else Some (False, h, H)
   }"

definition hash_destroy ::
  "(addr \<Rightarrow> 'w \<Rightarrow> 'w option) option \<Rightarrow> heap \<Rightarrow> hash \<Rightarrow> 'w \<Rightarrow> (heap \<times> hash \<times> 'w) option" where
  "hash_destroy destructor h H w =
     (if destructor \<noteq> None then hash_clear destructor h H w else Some (h, H, w))"

definition hash_insert :: "addr \<Rightarrow> addr \<Rightarrow> heap \<Rightarrow> hash \<Rightarrow> (addr \<times> heap \<times> hash) option" where
  "hash_insert nb new h H = do {
     let bucket = find_bucket H new;
     old \<leftarrow> find_elem h H bucket new;
     (h, H) \<leftarrow> (if old = NULL then insert_elem h H bucket new else Some (h, H));
     (h, H) \<leftarrow> rehash nb h H;
     Some (old, h, H)
   }"

definition hash_replace :: "addr \<Rightarrow> addr \<Rightarrow> heap \<Rightarrow> hash \<Rightarrow> (addr \<times> heap \<times> hash) option" where
  "hash_replace nb new h H = do {
     let bucket = find_bucket H new;
     old \<leftarrow> find_elem h H bucket new;
     (h, H) \<leftarrow> (if old \<noteq> NULL then remove_elem h H old else Some (h, H));
     (h, H) \<leftarrow> insert_elem h H bucket new;
     (h, H) \<leftarrow> rehash nb h H;
     Some (old, h, H)
   }"

definition hash_find :: "heap \<Rightarrow> hash \<Rightarrow> addr \<Rightarrow> addr option" where
  "hash_find h H e = find_elem h H (find_bucket H e) e"

definition hash_delete :: "addr \<Rightarrow> addr \<Rightarrow> heap \<Rightarrow> hash \<Rightarrow> (addr \<times> heap \<times> hash) option" where
  "hash_delete nb e h H = do {
     found \<leftarrow> find_elem h H (find_bucket H e) e;
     if found \<noteq> NULL then do {
       (h, H) \<leftarrow> remove_elem h H found;
       (h, H) \<leftarrow> rehash nb h H;
       Some (found, h, H)
     } else Some (found, h, H)
   }"

partial_function (option) apply_bucket ::
  "heap \<Rightarrow> addr \<Rightarrow> addr \<Rightarrow> (addr \<Rightarrow> 'w \<Rightarrow> 'w option) \<Rightarrow> 'w \<Rightarrow> 'w option" where
  "apply_bucket h elem en action w =
     (if elem = en then Some w
      else do {
        next \<leftarrow> list_next h elem;
        w \<leftarrow> action elem w;
        apply_bucket h next en action w
      })"

definition hash_apply :: "heap \<Rightarrow> hash \<Rightarrow> (addr \<Rightarrow> 'w \<Rightarrow> 'w option) \<Rightarrow> 'w \<Rightarrow> 'w option" where
  "hash_apply h H action w =
     for_up (unat (bucket_cnt H)) 0 (\<lambda>i w. do {
       let bucket = bucket_at (buckets H) i;
       elem \<leftarrow> list_begin h bucket;
       en \<leftarrow> list_end bucket;
       apply_bucket h elem en action w
     }) w"

record hash_iterator =
  it_bucket :: addr
  it_elem :: addr

definition hash_first :: "hash \<Rightarrow> hash_iterator option" where
  "hash_first H = do {
     e \<leftarrow> list_head (buckets H);
     Some \<lparr>it_bucket = buckets H, it_elem = e\<rparr>
   }"

partial_function (option) hash_next_loop :: "heap \<Rightarrow> hash \<Rightarrow> hash_iterator \<Rightarrow> hash_iterator option" where
  "hash_next_loop h H i = do {
     en \<leftarrow> list_end (it_bucket i);
     if it_elem i = en then do {
       let i = i\<lparr>it_bucket := it_bucket i + 16\<rparr>;
       if it_bucket i \<ge> bucket_at (buckets H) (bucket_cnt H) then Some (i\<lparr>it_elem := NULL\<rparr>)
       else do {
         e \<leftarrow> list_begin h (it_bucket i);
         hash_next_loop h H (i\<lparr>it_elem := e\<rparr>)
       }
     } else Some i
   }"

definition hash_next :: "heap \<Rightarrow> hash \<Rightarrow> hash_iterator \<Rightarrow> (addr \<times> hash_iterator) option" where
  "hash_next h H i = do {
     e \<leftarrow> list_next h (it_elem i);
     i \<leftarrow> hash_next_loop h H (i\<lparr>it_elem := e\<rparr>);
     Some (it_elem i, i)
   }"

definition hash_cur :: "hash_iterator \<Rightarrow> addr" where
  "hash_cur i = it_elem i"

definition hash_size :: "hash \<Rightarrow> u32" where
  "hash_size H = helem_cnt H"

definition hash_empty :: "hash \<Rightarrow> bool" where
  "hash_empty H \<longleftrightarrow> helem_cnt H = 0"

definition FNV_32_PRIME :: u32 where "FNV_32_PRIME = 16777619"
definition FNV_32_BASIS :: u32 where "FNV_32_BASIS = 2166136261"

fun hash_bytes_loop :: "u32 \<Rightarrow> u8 list \<Rightarrow> u32" where
  "hash_bytes_loop hs [] = hs"
| "hash_bytes_loop hs (c # cs) = hash_bytes_loop ((hs * FNV_32_PRIME) XOR ucast c) cs"

definition hash_bytes :: "u8 list \<Rightarrow> u32" where
  "hash_bytes buf = hash_bytes_loop FNV_32_BASIS buf"

text \<open>A string is the list of its bytes in memory; the loop stops at the first null byte.\<close>

fun hash_string_loop :: "u32 \<Rightarrow> u8 list \<Rightarrow> u32 option" where
  "hash_string_loop hs [] = None"
| "hash_string_loop hs (c # cs) =
     (if c \<noteq> 0 then hash_string_loop ((hs * FNV_32_PRIME) XOR ucast c) cs else Some hs)"

definition hash_string :: "u8 list \<Rightarrow> u32 option" where
  "hash_string s = hash_string_loop FNV_32_BASIS s"

definition hash_int :: "u32 \<Rightarrow> u32" where
  "hash_int i = hash_bytes (map (\<lambda>k. ucast (drop_bit (8 * k) i)) [0..<4])"

section \<open>Systems of disjoint lists\<close>

text \<open>\<open>sys h D f\<close>: in \<open>h\<close> each address \<open>l\<close> of \<open>D\<close> is a list with the elements \<open>f l\<close>, and no two share a node.\<close>

definition sys :: "heap \<Rightarrow> addr set \<Rightarrow> (addr \<Rightarrow> addr list) \<Rightarrow> bool" where
  "sys h D f \<longleftrightarrow> (\<forall>l\<in>D. dll h l (f l)) \<and>
     (\<forall>l\<in>D. \<forall>m\<in>D. l \<noteq> m \<longrightarrow> set (nodes l (f l)) \<inter> set (nodes m (f m)) = {})"

definition outside :: "addr set \<Rightarrow> (addr \<Rightarrow> addr list) \<Rightarrow> addr \<Rightarrow> bool" where
  "outside D f p \<longleftrightarrow> (\<forall>l\<in>D. p \<notin> set (nodes l (f l)))"

lemma sys_dll: "sys h D f \<Longrightarrow> l \<in> D \<Longrightarrow> dll h l (f l)"
  by (simp add: sys_def)

lemma sys_upd:
  assumes s: "sys h D f" and l: "l \<in> D" and d: "dll h' l xs"
    and fr: "\<forall>p. p \<notin> N \<longrightarrow> h' p = h p" and N: "N \<subseteq> set (nodes l (f l)) \<union> X"
    and x: "set (nodes l xs) \<subseteq> set (nodes l (f l)) \<union> X" and o: "\<forall>p\<in>X. \<forall>m\<in>D. m \<noteq> l \<longrightarrow> p \<notin> set (nodes m (f m))"
  shows "sys h' D (f(l := xs))"
proof -
  have disj: "set (nodes l (f l) ) \<inter> set (nodes m (f m)) = {}" if "m \<in> D" "m \<noteq> l" for m
    using s l that by (auto simp: sys_def)
  have out: "p \<notin> N \<and> p \<notin> set (nodes l xs)" if "m \<in> D" "m \<noteq> l" "p \<in> set (nodes m (f m))" for m p
    using disj [OF that(1,2)] that o N x by blast
  have "dll h' m (f m)" if "m \<in> D" "m \<noteq> l" for m
    using dll_frame [of m "f m" h' h] out [OF that] fr sys_dll [OF s that(1)] by blast
  moreover have "set (nodes l xs) \<inter> set (nodes m (f m)) = {}" if "m \<in> D" "m \<noteq> l" for m
    using out [OF that] by blast
  moreover have "set (nodes k (f k)) \<inter> set (nodes m (f m)) = {}" if "k \<in> D" "m \<in> D" "k \<noteq> m" for k m
    using s that by (auto simp: sys_def)
  ultimately show ?thesis using d unfolding sys_def by (auto simp: Int_commute)
qed

lemma sys_push_front:
  assumes s: "sys h D f" and l: "l \<in> D" and e: "outside D f e" "e \<noteq> NULL"
  shows "\<exists>h'. list_push_front h l e = Some h' \<and> sys h' D (f(l := e # f l)) \<and>
    (\<forall>p. p \<notin> set (nodes l (e # f l)) \<longrightarrow> h' p = h p)"
proof -
  have "e \<notin> set (nodes l (f l))" using e l by (simp add: outside_def)
  from list_push_front_dll [OF sys_dll [OF s l] this e(2)] obtain h' where
    h': "list_push_front h l e = Some h'" "dll h' l (e # f l)" "\<forall>p. p \<notin> set (nodes l (e # f l)) \<longrightarrow> h' p = h p" by blast
  have "sys h' D (f(l := e # f l))"
    using e by (intro sys_upd [OF s l h'(2,3), where X = "{e}"]) (auto simp: nodes_def outside_def)
  then show ?thesis using h' by blast
qed

lemma sys_push_back:
  assumes s: "sys h D f" and l: "l \<in> D" and e: "outside D f e" "e \<noteq> NULL"
  shows "\<exists>h'. list_push_back h l e = Some h' \<and> sys h' D (f(l := f l @ [e]))"
proof -
  have "e \<notin> set (nodes l (f l))" using e l by (simp add: outside_def)
  from list_push_back_dll [OF sys_dll [OF s l] this e(2)] obtain h' where
    h': "list_push_back h l e = Some h'" "dll h' l (f l @ [e])" "\<forall>p. p \<notin> set (nodes l (f l @ [e])) \<longrightarrow> h' p = h p" by blast
  have "sys h' D (f(l := f l @ [e]))"
    using e by (intro sys_upd [OF s l h'(2,3), where X = "{e}"]) (auto simp: nodes_def outside_def)
  then show ?thesis using h' by blast
qed

lemma sys_remove:
  assumes s: "sys h D f" and l: "l \<in> D" and e: "f l = as @ e # bs"
  shows "\<exists>h'. list_remove h e = Some (hd (bs @ [tail_of l]), h') \<and> sys h' D (f(l := as @ bs)) \<and>
    outside D (f(l := as @ bs)) e \<and> e \<noteq> NULL \<and> (\<forall>p. p \<notin> set (nodes l (f l)) \<longrightarrow> h' p = h p)"
proof -
  have d: "dll h l (as @ e # bs)" using sys_dll [OF s l] e by simp
  from list_remove_dll [OF d] obtain h' where
    h': "list_remove h e = Some (hd (bs @ [tail_of l]), h')" "dll h' l (as @ bs)"
      "\<forall>p. p \<notin> set (nodes l (as @ bs)) \<longrightarrow> h' p = h p" by blast
  have sub: "set (nodes l (as @ bs)) \<subseteq> set (nodes l (f l))" using e by (auto simp: nodes_def)
  have "sys h' D (f(l := as @ bs))"
    using sub by (intro sys_upd [OF s l h'(2,3), where X = "{}"]) auto
  moreover have "outside D (f(l := as @ bs)) e"
  proof -
    have "e \<notin> set (nodes l (as @ bs))" using d by (auto simp: dll_def nodes_def)
    moreover have "e \<notin> set (nodes m (f m))" if "m \<in> D" "m \<noteq> l" for m
    proof -
      have "e \<in> set (nodes l (f l))" using e by (auto simp: nodes_def)
      then show ?thesis using s l that by (auto simp: sys_def)
    qed
    ultimately show ?thesis by (auto simp: outside_def)
  qed
  moreover have "e \<noteq> NULL" using d by (auto simp: dll_def nodes_def)
  ultimately show ?thesis using h' sub by blast
qed

lemma sys_init:
  assumes s: "sys h D f" and l: "l \<noteq> NULL" "tail_of l \<noteq> NULL" and o: "outside D f l" "outside D f (tail_of l)"
  shows "\<exists>h'. list_init h l = Some h' \<and> sys h' (insert l D) (f(l := [])) \<and>
    (\<forall>p. p \<noteq> l \<longrightarrow> p \<noteq> tail_of l \<longrightarrow> h' p = h p)"
proof -
  from list_init_dll [OF l] obtain h' where h': "list_init h l = Some h'" "dll h' l []"
    "\<forall>p. p \<noteq> l \<longrightarrow> p \<noteq> tail_of l \<longrightarrow> h' p = h p" by (auto simp: head_of_def)
  have out: "l \<notin> set (nodes m (f m))" "tail_of l \<notin> set (nodes m (f m))" if "m \<in> D" for m
    using o that by (auto simp: outside_def)
  then have "l \<notin> D" by (auto simp: nodes_def head_of_def)
  have "dll h' m (f m)" if "m \<in> D" for m
    using dll_frame [of m "f m" h' h] out [OF that] h'(3) sys_dll [OF s that] by metis
  moreover have "set (nodes l []) \<inter> set (nodes m (f m)) = {}" if "m \<in> D" for m
    using out [OF that] by (auto simp: nodes_def [of l] head_of_def)
  moreover have "set (nodes k (f k)) \<inter> set (nodes m (f m)) = {}" if "k \<in> D" "m \<in> D" "k \<noteq> m" for k m
    using s that by (auto simp: sys_def)
  ultimately have "sys h' (insert l D) (f(l := []))"
    using h'(2) \<open>l \<notin> D\<close> by (auto simp: sys_def Int_commute)
  then show ?thesis using h' by blast
qed

lemma sys_subset: "sys h D f \<Longrightarrow> D' \<subseteq> D \<Longrightarrow> sys h D' f"
  unfolding sys_def by (meson subsetD)

lemma sys_cong: "(\<And>l. l \<in> D \<Longrightarrow> f l = g l) \<Longrightarrow> sys h D f = sys h D g"
  by (auto simp: sys_def)

section \<open>The number of buckets\<close>

lemma turn_off_less: "x \<noteq> 0 \<Longrightarrow> unat (turn_off_least_1bit x) < unat x"
proof -
  assume x: "x \<noteq> 0"
  have "turn_off_least_1bit x \<le> x - 1" by (simp add: turn_off_least_1bit_def word_and_le1)
  moreover have "unat (x - 1) < unat x" using x by (simp add: unat_minus_one unat_gt_0)
  ultimately show ?thesis by (simp add: word_le_nat_alt)
qed

lemma div_4_pred: "n mod 4 \<noteq> 0 \<Longrightarrow> (n - 1) div 4 = n div 4" for n :: nat
proof -
  assume m: "n mod 4 \<noteq> 0"
  then have "n - 1 = (n mod 4 - 1) + 4 * (n div 4)" using mult_div_mod_eq [of 4 n] by linarith
  moreover have "n mod 4 - 1 < 4" using mod_less_divisor [of 4 n] by linarith
  ultimately show ?thesis by simp
qed

lemma turn_off_ge_4:
  assumes x: "4 \<le> x" and n: "turn_off_least_1bit x \<noteq> 0"
  shows "4 \<le> turn_off_least_1bit x"
proof (cases "unat x mod 4 = 0")
  case True
  have "take_bit 2 x = 0" using True by (simp add: word_unat_eq_iff take_bit_eq_mod unat_mod)
  then have "take_bit 2 (turn_off_least_1bit x) = 0" by (simp add: turn_off_least_1bit_def)
  then have "unat (turn_off_least_1bit x) mod 4 = 0"
    by (simp add: word_unat_eq_iff take_bit_eq_mod unat_mod)
  moreover have "0 < unat (turn_off_least_1bit x)" using n by (simp add: unat_gt_0)
  ultimately show ?thesis by (auto simp: word_le_nat_alt mod_eq_0_iff_dvd dest: dvd_imp_le)
next
  case False
  have x4: "4 \<le> unat x" using x by (simp add: word_le_nat_alt)
  then have m: "unat (x - 1) = unat x - 1" by (intro unat_minus_one) auto
  have "(unat x - 1) div 4 = unat x div 4" by (rule div_4_pred [OF False])
  then have "drop_bit 2 (x - 1) = drop_bit 2 x" using m by (simp add: word_unat_eq_iff drop_bit_eq_div unat_div)
  then have "drop_bit 2 (turn_off_least_1bit x) = drop_bit 2 x" by (simp add: turn_off_least_1bit_def)
  then have "unat (turn_off_least_1bit x) div 4 = unat x div 4"
    by (simp add: word_unat_eq_iff drop_bit_eq_div unat_div)
  then have "0 < unat (turn_off_least_1bit x) div 4" using x4 by (simp add: div_greater_zero_iff)
  then show ?thesis by (simp add: word_le_nat_alt div_greater_zero_iff)
qed

lemma to_power_of_2_total:
  "4 \<le> x \<Longrightarrow> \<exists>y. to_power_of_2 x = Some y \<and> is_power_of_2 y \<and> 4 \<le> y \<and> y \<le> x"
proof (induction x rule: measure_induct_rule [of unat])
  case (less x)
  show ?case
  proof (cases "is_power_of_2 x")
    case True then show ?thesis using less.prems by (subst to_power_of_2.simps) simp
  next
    case False
    have "x \<noteq> 0" using less.prems by auto
    then have n: "turn_off_least_1bit x \<noteq> 0" using False by (simp add: is_power_of_2_def)
    note lt = turn_off_less [OF \<open>x \<noteq> 0\<close>]
    then have "turn_off_least_1bit x \<le> x" by (simp add: word_le_nat_alt)
    then show ?thesis using less.IH [OF lt turn_off_ge_4 [OF less.prems n]] False
      by (subst to_power_of_2.simps) auto
  qed
qed

definition target :: "u32 \<Rightarrow> u32" where
  "target c = (if c div BEST_ELEMS_PER_BUCKET < 4 then 4 else c div BEST_ELEMS_PER_BUCKET)"

lemma target_ge_4: "4 \<le> target c"
  by (simp add: target_def not_less)

section \<open>The bucket array\<close>

definition bucket_set :: "addr \<Rightarrow> u32 \<Rightarrow> addr set" where
  "bucket_set b n = bucket_at b ` {i. i < n}"

definition block_ok :: "addr \<Rightarrow> u32 \<Rightarrow> bool" where
  "block_ok b n \<longleftrightarrow> b \<noteq> NULL \<and> unat b + 16 * unat n < 2 ^ 32"

lemma unat_bucket:
  assumes "block_ok b n" "i < n"
  shows "unat (bucket_at b i) = unat b + 16 * unat i" "unat (tail_of (bucket_at b i)) = unat b + 16 * unat i + 8"
    "bucket_at b i \<noteq> NULL" "tail_of (bucket_at b i) \<noteq> NULL"
proof -
  have l: "unat b + 16 * unat i + 16 \<le> 2 ^ 32" using assms by (simp add: block_ok_def word_less_nat_alt)
  have "unat (16 * i) = 16 * unat i" using l by (simp add: unat_word_ariths)
  then show u: "unat (bucket_at b i) = unat b + 16 * unat i"
    using l unat_add_nowrap [of b "16 * i"] by (simp add: bucket_at_def)
  then show t: "unat (tail_of (bucket_at b i)) = unat b + 16 * unat i + 8"
    using l unat_add_nowrap [of "bucket_at b i" 8] by (simp add: tail_of_def)
  have "0 < unat b" using assms by (simp add: block_ok_def unat_gt_0)
  then show "bucket_at b i \<noteq> NULL" "tail_of (bucket_at b i) \<noteq> NULL" using u t by auto
qed

lemma bucket_inj:
  assumes "block_ok b n" "i < n" "j < n"
  shows "bucket_at b i = bucket_at b j \<longleftrightarrow> i = j" "bucket_at b i \<noteq> tail_of (bucket_at b j)"
    "tail_of (bucket_at b i) = tail_of (bucket_at b j) \<longleftrightarrow> i = j"
proof -
  note u = unat_bucket [OF assms(1)]
  show "bucket_at b i = bucket_at b j \<longleftrightarrow> i = j" "tail_of (bucket_at b i) = tail_of (bucket_at b j) \<longleftrightarrow> i = j"
    using u(1,2) [OF assms(2)] u(1,2) [OF assms(3)] by (auto simp: word_unat_eq_iff)
  have "16 * a \<noteq> 16 * c + 8" for a c :: nat by presburger
  then have "unat (bucket_at b i) \<noteq> unat (tail_of (bucket_at b j))" unfolding u(1) [OF assms(2)] u(2) [OF assms(3)] by simp
  then show "bucket_at b i \<noteq> tail_of (bucket_at b j)" by auto
qed

definition elems :: "addr set \<Rightarrow> (addr \<Rightarrow> addr list) \<Rightarrow> addr set" where
  "elems D f = (\<Union>l\<in>D. set (f l))"

section \<open>Well-formed tables\<close>

text \<open>
  \<open>table_ok key h H f\<close>: the buckets of \<open>H\<close> are disjoint lists, \<open>f\<close> gives their elements; an element is
  in the bucket its hash selects; the elements have different keys; the count is right.  The comparison
  is that of the keys, and elements with equal keys have equal hashes.
\<close>

definition fun_ok :: "(addr \<Rightarrow> 'k::linorder) \<Rightarrow> hash \<Rightarrow> bool" where
  "fun_ok key H \<longleftrightarrow> (\<forall>a b. lessf H a b \<longleftrightarrow> key a < key b) \<and> (\<forall>a b. key a = key b \<longrightarrow> hashf H a = hashf H b)"

definition place_ok :: "heap \<Rightarrow> hash \<Rightarrow> (addr \<Rightarrow> addr list) \<Rightarrow> bool" where
  "place_ok h H f \<longleftrightarrow> sys h (bucket_set (buckets H) (bucket_cnt H)) f \<and> block_ok (buckets H) (bucket_cnt H) \<and>
     is_power_of_2 (bucket_cnt H) \<and> 4 \<le> bucket_cnt H \<and>
     (\<forall>l\<in>bucket_set (buckets H) (bucket_cnt H). \<forall>e\<in>set (f l). find_bucket H e = l)"

definition table_elems :: "hash \<Rightarrow> (addr \<Rightarrow> addr list) \<Rightarrow> addr set" where
  "table_elems H f = elems (bucket_set (buckets H) (bucket_cnt H)) f"

definition table_ok :: "(addr \<Rightarrow> 'k::linorder) \<Rightarrow> heap \<Rightarrow> hash \<Rightarrow> (addr \<Rightarrow> addr list) \<Rightarrow> bool" where
  "table_ok key h H f \<longleftrightarrow> fun_ok key H \<and> place_ok h H f \<and> inj_on key (table_elems H f) \<and>
     unat (helem_cnt H) = card (table_elems H f)"

lemma find_bucket_in: "4 \<le> bucket_cnt H \<Longrightarrow> find_bucket H e \<in> bucket_set (buckets H) (bucket_cnt H)"
proof -
  assume "4 \<le> bucket_cnt H"
  then have "bucket_cnt H \<noteq> 0" by auto
  then have "bucket_cnt H - 1 < bucket_cnt H" by (simp add: word_less_nat_alt unat_minus_one unat_gt_0)
  then have "hashf H e AND (bucket_cnt H - 1) < bucket_cnt H" using word_and_le1 order_le_less_trans by blast
  then show ?thesis by (simp add: find_bucket_def Let_def bucket_set_def)
qed

lemma finite_elems: "finite (table_elems H f)"
  by (simp add: table_elems_def elems_def)

lemma elem_place:
  assumes "place_ok h H f" "e \<in> table_elems H f"
  shows "e \<in> set (f (find_bucket H e))"
  using assms by (auto simp: place_ok_def table_elems_def elems_def)

lemma find_elem_loop_dll:
  "dll h l (xs @ ys) \<Longrightarrow> find_elem_loop h H (hd (ys @ [tail_of l])) (tail_of l) e =
     Some (case find (\<lambda>x. \<not> lessf H x e \<and> \<not> lessf H e x) ys of Some x \<Rightarrow> x | None \<Rightarrow> NULL)"
proof (induction ys arbitrary: xs)
  case Nil
  then show ?case by (subst find_elem_loop.simps) simp
next
  case (Cons y ys)
  then show ?case using dll_step [OF Cons.prems] Cons.IH [of "xs @ [y]"] by (subst find_elem_loop.simps) auto
qed

lemma find_elem_spec:
  assumes p: "place_ok h H f" and k: "fun_ok key H"
  shows "\<exists>r. find_elem h H (find_bucket H e) e = Some r \<and>
    (if r = NULL then \<forall>x\<in>table_elems H f. key x \<noteq> key e else r \<in> table_elems H f \<and> key r = key e)"
proof -
  let ?l = "find_bucket H e"
  have l: "?l \<in> bucket_set (buckets H) (bucket_cnt H)" using p by (intro find_bucket_in) (simp add: place_ok_def)
  have d: "dll h ?l (f ?l)" using p l by (auto simp: place_ok_def intro: sys_dll)
  have eq: "(\<not> lessf H x e \<and> \<not> lessf H e x) = (key x = key e)" for x using k by (auto simp: fun_ok_def)
  have fe: "find_elem h H ?l e = Some (case find (\<lambda>x. key x = key e) (f ?l) of Some x \<Rightarrow> x | None \<Rightarrow> NULL)"
    using find_elem_loop_dll [of h ?l "[]" "f ?l" H e] d
    by (simp add: find_elem_def list_begin_dll list_end_dll eq)
  show ?thesis
  proof (cases "find (\<lambda>x. key x = key e) (f ?l)")
    case None
    have "key x \<noteq> key e" if "x \<in> table_elems H f" for x
    proof
      assume kx: "key x = key e"
      then have "hashf H x = hashf H e" using k unfolding fun_ok_def by blast
      then have "find_bucket H x = ?l" by (simp add: find_bucket_def)
      then show False using elem_place [OF p that] None kx by (simp add: find_None_iff)
    qed
    then show ?thesis using fe None by simp
  next
    case (Some x)
    then have x: "x \<in> set (f ?l)" "key x = key e" by (auto simp: find_Some_iff)
    then have "x \<noteq> NULL" using dll_nonnull(4) [OF d] by blast
    then show ?thesis using fe Some x l by (auto simp: table_elems_def elems_def)
  qed
qed

section \<open>Rehashing\<close>

text \<open>The inner loop empties the list at \<open>l\<close> into the lists of \<open>E\<close> that the hash selects.\<close>

lemma rehash_move_sys:
  "sys h D f \<Longrightarrow> l \<in> D \<Longrightarrow> l \<notin> E \<Longrightarrow> E \<subseteq> D \<Longrightarrow> f l = xs \<Longrightarrow> \<forall>e\<in>set xs. find_bucket H e \<in> E \<Longrightarrow>
   \<exists>h' f'. rehash_move h H (hd (xs @ [tail_of l])) (tail_of l) = Some h' \<and> sys h' D f' \<and> f' l = [] \<and>
     (\<forall>m. m \<noteq> l \<longrightarrow> m \<notin> E \<longrightarrow> f' m = f m) \<and>
     (\<forall>m\<in>E. set (f' m) = set (f m) \<union> {e \<in> set xs. find_bucket H e = m})"
proof (induction xs arbitrary: h f)
  case Nil
  then show ?case by (subst rehash_move.simps) auto
next
  case (Cons x xs)
  let ?m = "find_bucket H x"
  have m: "?m \<in> E" "?m \<noteq> l" "?m \<in> D" using Cons.prems by auto
  have d: "dll h l (x # xs)" using Cons.prems(1,2,5) sys_dll by fastforce
  have nx: "x \<noteq> tail_of l" "list_next h x = Some (hd (xs @ [tail_of l]))"
    using dll_step [of h l "[]" x xs] d by simp_all
  obtain h1 where h1: "list_remove h x = Some (hd (xs @ [tail_of l]), h1)" "sys h1 D (f(l := xs))"
      "outside D (f(l := xs)) x" "x \<noteq> NULL"
    using sys_remove [OF Cons.prems(1,2), of "[]" x xs] Cons.prems(5) by auto
  obtain h2 where h2: "list_push_front h1 ?m x = Some h2" "sys h2 D (f(l := xs, ?m := x # f ?m))"
    using sys_push_front [OF h1(2) m(3) h1(3,4)] m by auto
  let ?f = "f(l := xs, ?m := x # f ?m)"
  obtain h' f' where r: "rehash_move h2 H (hd (xs @ [tail_of l])) (tail_of l) = Some h'" "sys h' D f'" "f' l = []"
      "\<forall>m. m \<noteq> l \<longrightarrow> m \<notin> E \<longrightarrow> f' m = ?f m"
      "\<forall>m\<in>E. set (f' m) = set (?f m) \<union> {e \<in> set xs. find_bucket H e = m}"
    using Cons.IH [OF h2(2) Cons.prems(2-4)] m Cons.prems(6) by auto
  have "rehash_move h H (hd ((x # xs) @ [tail_of l])) (tail_of l) = Some h'"
    using nx h1(1) h2(1) r(1) by (subst rehash_move.simps) simp
  moreover have "\<forall>k. k \<noteq> l \<longrightarrow> k \<notin> E \<longrightarrow> f' k = f k" using r(4) m by auto
  moreover have "\<forall>k\<in>E. set (f' k) = set (f k) \<union> {e \<in> set (x # xs). find_bucket H e = k}"
    using r(5) m Cons.prems(3) by auto
  ultimately show ?case using r(2,3) by blast
qed

text \<open>A fresh block of \<open>n\<close> buckets, and the loop that makes them empty lists.\<close>

definition fresh_block :: "addr \<Rightarrow> u32 \<Rightarrow> addr set \<Rightarrow> (addr \<Rightarrow> addr list) \<Rightarrow> bool" where
  "fresh_block nb n D f \<longleftrightarrow> block_ok nb n \<and>
     (\<forall>i<n. outside D f (bucket_at nb i) \<and> outside D f (tail_of (bucket_at nb i)))"

lemma of_nat_less: "j < unat n \<Longrightarrow> (of_nat j :: u32) < n" "j < unat n \<Longrightarrow> unat (of_nat j :: u32) = j"
  using unat_lt32 [of n] by (simp_all add: word_less_nat_alt unat_of_nat32)

lemma bucket_set_nat: "bucket_set b n = (\<lambda>j. bucket_at b (of_nat j)) ` {..<unat n}"
proof -
  have "i < n \<Longrightarrow> i \<in> of_nat ` {..<unat n}" for i :: u32
    by (rule image_eqI [of _ _ "unat i"]) (simp_all add: word_less_nat_alt)
  then have "{i. i < n} = of_nat ` {..<unat n}" using of_nat_less by auto
  then show ?thesis by (simp add: bucket_set_def image_image)
qed

lemma init_buckets:
  assumes s: "sys h D f" and fr: "fresh_block nb n D f"
  shows "\<exists>h'. for_up (unat n) 0 (\<lambda>i h. list_init h (bucket_at nb i)) h = Some h' \<and>
    sys h' (D \<union> bucket_set nb n) (\<lambda>l. if l \<in> bucket_set nb n then [] else f l)"
proof -
  let ?B = "\<lambda>j. (\<lambda>j. bucket_at nb (of_nat j)) ` {..<j}"
  let ?I = "\<lambda>j h. sys h (D \<union> ?B j) (\<lambda>l. if l \<in> ?B j then [] else f l)"
  have b: "block_ok nb n" using fr by (simp add: fresh_block_def)
  have "\<exists>h'. for_up (unat n) 0 (\<lambda>i h. list_init h (bucket_at nb i)) h = Some h' \<and> ?I (unat n) h'"
  proof (rule for_up_inv [of ?I])
    show "?I 0 h" using s by simp
    show "unat (0 :: u32) + unat n \<le> 2 ^ 32" using unat_lt32 [of n] by simp
    fix j g assume j: "j < unat n" and g: "?I j g"
    let ?i = "of_nat j :: u32" let ?l = "bucket_at nb ?i" let ?f = "\<lambda>l. if l \<in> ?B j then [] else f l"
    have i: "?i < n" using of_nat_less [OF j] by simp
    have new: "?l \<noteq> k" "?l \<noteq> tail_of k" "tail_of ?l \<noteq> k" "tail_of ?l \<noteq> tail_of k" if k: "k \<in> ?B j" for k
    proof -
      obtain m where m: "m < j" "k = bucket_at nb (of_nat m)" using k by auto
      then have "m < unat n" using j by simp
      then have mi: "(of_nat m :: u32) < n" "(of_nat m :: u32) \<noteq> ?i"
        using of_nat_less [OF \<open>m < unat n\<close>] of_nat_less [OF j] m by auto
      show "?l \<noteq> k" "?l \<noteq> tail_of k" "tail_of ?l \<noteq> k" "tail_of ?l \<noteq> tail_of k"
        using bucket_inj [OF b i mi(1)] bucket_inj(2) [OF b mi(1) i] mi(2) m(2) by metis+
    qed
    have out: "outside D f ?l" "outside D f (tail_of ?l)" using fr i by (simp_all add: fresh_block_def)
    have "?l \<notin> D" using out(1) by (auto simp: outside_def nodes_def head_of_def)
    have o: "outside (D \<union> ?B j) ?f p" if "outside D f p" "\<And>k. k \<in> ?B j \<Longrightarrow> p \<noteq> k \<and> p \<noteq> tail_of k" for p
      using that by (auto simp: outside_def nodes_def head_of_def)
    obtain h' where h': "list_init g ?l = Some h'" "sys h' (insert ?l (D \<union> ?B j)) (?f(?l := []))"
      using sys_init [OF g unat_bucket(3,4) [OF b i] o [OF out(1)] o [OF out(2)]] new by blast
    have e: "insert ?l (D \<union> ?B j) = D \<union> ?B (Suc j)" by (auto simp: lessThan_Suc)
    have "?f(?l := []) = (\<lambda>l. if l \<in> ?B (Suc j) then [] else f l)" by (auto simp: lessThan_Suc fun_eq_iff)
    then show "\<exists>s'. list_init g (bucket_at nb (0 + of_nat j)) = Some s' \<and> ?I (Suc j) s'" using h' e by simp
  qed
  then show ?thesis by (simp add: bucket_set_nat)
qed

lemma rehash_loop:
  assumes s: "sys h (D \<union> E) f" and D: "D = bucket_set b n" "block_ok b n" "D \<inter> E = {}"
    and e: "\<forall>x\<in>elems D f. find_bucket H x \<in> E" and nil: "\<forall>m\<in>E. f m = []"
  shows "\<exists>h' f'. for_up (unat n) 0 (\<lambda>i h. do {
              let old_bucket = bucket_at b i;
              x \<leftarrow> list_begin h old_bucket;
              en \<leftarrow> list_end old_bucket;
              rehash_move h H x en
            }) h = Some h' \<and> sys h' (D \<union> E) f' \<and> (\<forall>m\<in>E. set (f' m) = {x \<in> elems D f. find_bucket H x = m})"
proof -
  let ?B = "\<lambda>k. bucket_at b (of_nat k)"
  let ?I = "\<lambda>j h. \<exists>g. sys h (D \<union> E) g \<and> (\<forall>k. j \<le> k \<longrightarrow> k < unat n \<longrightarrow> g (?B k) = f (?B k)) \<and>
    (\<forall>m\<in>E. set (g m) = {x \<in> (\<Union>k<j. set (f (?B k))). find_bucket H x = m})"
  let ?body = "\<lambda>i h. do { let old_bucket = bucket_at b i; x \<leftarrow> list_begin h old_bucket; en \<leftarrow> list_end old_bucket;
     rehash_move h H x en }"
  have "\<exists>h'. for_up (unat n) 0 ?body h = Some h' \<and> ?I (unat n) h'"
  proof (rule for_up_inv [of ?I])
    show "?I 0 h" using s nil by (intro exI [of _ f]) auto
    show "unat (0 :: u32) + unat n \<le> 2 ^ 32" using unat_lt32 [of n] by simp
    fix j h assume j: "j < unat n" and "?I j h"
    then obtain g where g: "sys h (D \<union> E) g" "\<forall>k. j \<le> k \<longrightarrow> k < unat n \<longrightarrow> g (?B k) = f (?B k)"
      "\<forall>m\<in>E. set (g m) = {x \<in> (\<Union>k<j. set (f (?B k))). find_bucket H x = m}" by blast
    let ?l = "?B j"
    have l: "?l \<in> D" "?l \<in> D \<union> E" "?l \<notin> E" using D j by (auto simp: bucket_set_nat)
    have gl: "g ?l = f ?l" using g(2) j by simp
    have "\<forall>x\<in>set (g ?l). find_bucket H x \<in> E" using e l(1) gl by (auto simp: elems_def)
    from rehash_move_sys [OF g(1) l(2,3) Un_upper2 refl this] obtain h' g' where
      r: "rehash_move h H (hd (g ?l @ [tail_of ?l])) (tail_of ?l) = Some h'" "sys h' (D \<union> E) g'"
        "\<forall>m. m \<noteq> ?l \<longrightarrow> m \<notin> E \<longrightarrow> g' m = g m"
        "\<forall>m\<in>E. set (g' m) = set (g m) \<union> {x \<in> set (g ?l). find_bucket H x = m}" by blast
    note d = sys_dll [OF g(1) l(2)]
    have "?body (0 + of_nat j) h = Some h'" using r(1) by (simp add: list_begin_dll [OF d] list_end_dll [OF d])
    moreover have "\<forall>k. Suc j \<le> k \<longrightarrow> k < unat n \<longrightarrow> g' (?B k) = f (?B k)"
    proof (intro allI impI)
      fix k assume k: "Suc j \<le> k" "k < unat n"
      have "(of_nat k :: u32) \<noteq> of_nat j" using of_nat_less(2) [OF k(2)] of_nat_less(2) [OF j] k(1) by auto
      then have "?B k \<noteq> ?l" using bucket_inj(1) [OF D(2) of_nat_less(1) [OF k(2)] of_nat_less(1) [OF j]] by simp
      moreover have "?B k \<notin> E" using D k by (auto simp: bucket_set_nat)
      ultimately show "g' (?B k) = f (?B k)" using r(3) g(2) k by simp
    qed
    moreover have "\<forall>m\<in>E. set (g' m) = {x \<in> (\<Union>k<Suc j. set (f (?B k))). find_bucket H x = m}"
      using r(4) g(3) gl by (auto simp: lessThan_Suc)
    ultimately show "\<exists>s'. ?body (0 + of_nat j) h = Some s' \<and> ?I (Suc j) s'" using r(2) by blast
  qed
  moreover have "elems D f = (\<Union>k<unat n. set (f (?B k)))" by (simp add: elems_def D(1) bucket_set_nat)
  ultimately show ?thesis by auto
qed

lemma fresh_block_le: "fresh_block nb n D f \<Longrightarrow> m \<le> n \<Longrightarrow> fresh_block nb m D f"
  by (auto simp: fresh_block_def block_ok_def word_le_nat_alt word_less_nat_alt)

lemma rehash_spec:
  assumes p: "place_ok h H f"
    and fr: "nb \<noteq> NULL \<Longrightarrow> fresh_block nb (target (helem_cnt H)) (bucket_set (buckets H) (bucket_cnt H)) f"
  shows "\<exists>h' H' f'. rehash nb h H = Some (h', H') \<and> place_ok h' H' f' \<and> table_elems H' f' = table_elems H f \<and>
    hashf H' = hashf H \<and> lessf H' = lessf H \<and> helem_cnt H' = helem_cnt H"
proof -
  let ?D = "bucket_set (buckets H) (bucket_cnt H)"
  obtain y where y: "to_power_of_2 (target (helem_cnt H)) = Some y" "is_power_of_2 y" "4 \<le> y" "y \<le> target (helem_cnt H)"
    using to_power_of_2_total [OF target_ge_4] by blast
  note y1 = y(1) [unfolded target_def]
  show ?thesis
  proof (cases "y = bucket_cnt H \<or> nb = NULL")
    case True
    then have "rehash nb h H = Some (h, H)" using y1 by (auto simp: rehash_def Let_def)
    then show ?thesis using p by blast
  next
    case False
    have fb: "fresh_block nb y ?D f" using fresh_block_le [OF fr y(4)] False by simp
    have s: "sys h ?D f" and bo: "block_ok (buckets H) (bucket_cnt H)" using p by (simp_all add: place_ok_def)
    let ?E = "bucket_set nb y" let ?H = "H\<lparr>buckets := nb, bucket_cnt := y\<rparr>"
    let ?f = "\<lambda>l. if l \<in> ?E then [] else f l"
    obtain h1 where h1: "for_up (unat y) 0 (\<lambda>i h. list_init h (bucket_at nb i)) h = Some h1" "sys h1 (?D \<union> ?E) ?f"
      using init_buckets [OF s fb] by blast
    have "bucket_at nb i \<notin> ?D" if "i < y" for i
      using fb that unfolding fresh_block_def outside_def nodes_def head_of_def by fastforce
    then have dis: "?D \<inter> ?E = {}" by (auto simp: bucket_set_def [of nb])
    have "?f l = f l" if "l \<in> ?D" for l using dis that by auto
    then have el: "elems ?D ?f = table_elems H f" by (simp add: table_elems_def elems_def)
    have fb': "find_bucket ?H x \<in> ?E" for x using find_bucket_in [of ?H x] y(3) by simp
    obtain h2 f2 where h2: "for_up (unat (bucket_cnt H)) 0 (\<lambda>i h. do {
              let old_bucket = bucket_at (buckets H) i;
              b \<leftarrow> list_begin h old_bucket;
              en \<leftarrow> list_end old_bucket;
              rehash_move h ?H b en
            }) h1 = Some h2" "sys h2 (?D \<union> ?E) f2" "\<forall>m\<in>?E. set (f2 m) = {x \<in> table_elems H f. find_bucket ?H x = m}"
      using rehash_loop [OF h1(2) refl bo dis, of ?H] fb' el by auto
    have "rehash nb h H = Some (h2, ?H)" using y1 False h1(1) h2(1) by (simp add: rehash_def Let_def)
    moreover have "place_ok h2 ?H f2"
      using h2(2,3) fb y(2,3) by (auto simp: place_ok_def fresh_block_def intro: sys_subset)
    moreover have "table_elems ?H f2 = table_elems H f"
    proof -
      have "table_elems ?H f2 = (\<Union>m\<in>?E. {x \<in> table_elems H f. find_bucket ?H x = m})"
        using h2(3) by (simp add: table_elems_def elems_def)
      also have "\<dots> = table_elems H f" using fb' by blast
      finally show ?thesis .
    qed
    ultimately show ?thesis by (intro exI [of _ h2] exI [of _ ?H] exI [of _ f2]) simp
  qed
qed

section \<open>Inserting, finding and deleting\<close>

lemma bucket_elems:
  assumes "l \<in> bucket_set (buckets H) (bucket_cnt H)"
  shows "table_elems H (f(l := xs)) = (\<Union>m\<in>bucket_set (buckets H) (bucket_cnt H) - {l}. set (f m)) \<union> set xs"
    "table_elems H f = (\<Union>m\<in>bucket_set (buckets H) (bucket_cnt H) - {l}. set (f m)) \<union> set (f l)"
  using assms by (auto simp: table_elems_def elems_def split: if_splits)

lemma place_ok_cnt: "place_ok h (H\<lparr>helem_cnt := c\<rparr>) f = place_ok h H f"
  by (simp add: place_ok_def find_bucket_def)

lemma place_ok_mono:
  "place_ok h H f \<Longrightarrow> sys h' (bucket_set (buckets H) (bucket_cnt H)) f' \<Longrightarrow> (\<And>l. set (f' l) \<subseteq> set (f l)) \<Longrightarrow>
    place_ok h' H f'"
  unfolding place_ok_def by blast

lemma insert_elem_spec:
  assumes p: "place_ok h H f" and e: "outside (bucket_set (buckets H) (bucket_cnt H)) f e" "e \<noteq> NULL"
  shows "\<exists>h'. insert_elem h H (find_bucket H e) e = Some (h', H\<lparr>helem_cnt := helem_cnt H + 1\<rparr>) \<and>
    place_ok h' (H\<lparr>helem_cnt := helem_cnt H + 1\<rparr>) (f(find_bucket H e := e # f (find_bucket H e))) \<and>
    table_elems H (f(find_bucket H e := e # f (find_bucket H e))) = insert e (table_elems H f)"
proof -
  let ?l = "find_bucket H e" let ?f = "f(?l := e # f ?l)" let ?H = "H\<lparr>helem_cnt := helem_cnt H + 1\<rparr>"
  have l: "?l \<in> bucket_set (buckets H) (bucket_cnt H)" using p by (intro find_bucket_in) (simp add: place_ok_def)
  have s: "sys h (bucket_set (buckets H) (bucket_cnt H)) f" using p by (simp add: place_ok_def)
  obtain h' where h': "list_push_front h ?l e = Some h'" "sys h' (bucket_set (buckets H) (bucket_cnt H)) ?f"
    using sys_push_front [OF s l e] by blast
  have fb: "find_bucket ?H x = find_bucket H x" for x by (simp add: find_bucket_def)
  have "place_ok h' ?H ?f" using p h'(2) by (auto simp: place_ok_def fb)
  moreover have "table_elems H ?f = insert e (table_elems H f)" using bucket_elems [OF l] by simp
  ultimately show ?thesis using h'(1) by (simp add: insert_elem_def)
qed

lemma remove_elem_spec:
  assumes p: "place_ok h H f" and e: "e \<in> table_elems H f"
  shows "\<exists>h' f'. remove_elem h H e = Some (h', H\<lparr>helem_cnt := helem_cnt H - 1\<rparr>) \<and>
    place_ok h' (H\<lparr>helem_cnt := helem_cnt H - 1\<rparr>) f' \<and> table_elems H f' = table_elems H f - {e} \<and>
    outside (bucket_set (buckets H) (bucket_cnt H)) f' e \<and> e \<noteq> NULL \<and> (\<forall>l. set (f' l) \<subseteq> set (f l))"
proof -
  let ?l = "find_bucket H e" and ?D = "bucket_set (buckets H) (bucket_cnt H)"
  let ?H = "H\<lparr>helem_cnt := helem_cnt H - 1\<rparr>"
  have l: "?l \<in> ?D" using p by (intro find_bucket_in) (simp add: place_ok_def)
  have s: "sys h ?D f" using p by (simp add: place_ok_def)
  obtain as bs where fl: "f ?l = as @ e # bs" using elem_place [OF p e] split_list by fastforce
  let ?f = "f(?l := as @ bs)"
  obtain h' where h': "list_remove h e = Some (hd (bs @ [tail_of ?l]), h')" "sys h' ?D ?f" "outside ?D ?f e" "e \<noteq> NULL"
    using sys_remove [OF s l fl] by blast
  have fb: "find_bucket ?H x = find_bucket H x" for x by (simp add: find_bucket_def)
  have sub: "set (?f m) \<subseteq> set (f m)" for m using fl by auto
  have "place_ok h' H ?f" by (rule place_ok_mono [OF p h'(2) sub])
  then have "place_ok h' ?H ?f" by (simp add: place_ok_cnt)
  moreover have "table_elems H ?f = table_elems H f - {e}"
  proof -
    have "e \<notin> table_elems H ?f" using h'(3) by (auto simp: outside_def table_elems_def elems_def nodes_def)
    moreover have "table_elems H f = insert e (table_elems H ?f)" using bucket_elems [OF l] fl by simp
    ultimately show ?thesis by simp
  qed
  ultimately show ?thesis using h' sub by (intro exI [of _ h'] exI [of _ ?f]) (simp add: remove_elem_def)
qed

lemma card_addr: "card (A :: u32 set) \<le> 2 ^ 32" "NULL \<notin> A \<Longrightarrow> card A < 2 ^ 32"
proof -
  have u: "card (UNIV :: u32 set) = 2 ^ 32" by (simp add: Word.card_word)
  show "card A \<le> 2 ^ 32" using card_mono [of UNIV A] u by simp
  show "NULL \<notin> A \<Longrightarrow> card A < 2 ^ 32" using psubset_card_mono [of UNIV A] u by auto
qed

text \<open>Room for a new bucket array of up to \<open>n\<close> buckets, apart from the table and the element \<open>e\<close>.\<close>

definition room :: "addr \<Rightarrow> u32 \<Rightarrow> addr \<Rightarrow> hash \<Rightarrow> (addr \<Rightarrow> addr list) \<Rightarrow> bool" where
  "room nb n e H f \<longleftrightarrow> nb = NULL \<or>
     fresh_block nb n (bucket_set (buckets H) (bucket_cnt H)) f \<and>
     (\<forall>i<n. e \<noteq> bucket_at nb i \<and> e \<noteq> tail_of (bucket_at nb i))"

lemma target_mono: "c \<le> d \<Longrightarrow> target c \<le> target d"
proof -
  assume "c \<le> d"
  then have "unat (c div 2) \<le> unat (d div 2)" by (simp add: word_le_nat_alt unat_div div_le_mono)
  then have "c div 2 \<le> d div 2" by (simp add: word_le_nat_alt)
  then show ?thesis by (auto simp: target_def BEST_ELEMS_PER_BUCKET_def)
qed

lemma fresh_block_sub:
  "fresh_block nb n D f \<Longrightarrow> (\<And>l. l \<in> D \<Longrightarrow> set (f' l) \<subseteq> set (f l) \<union> X) \<Longrightarrow>
     \<forall>i<n. bucket_at nb i \<notin> X \<and> tail_of (bucket_at nb i) \<notin> X \<Longrightarrow> fresh_block nb n D f'"
  unfolding fresh_block_def outside_def nodes_def by (simp add: subset_iff) blast

lemma room_sub:
  assumes r: "room nb n e H f" and m: "m \<le> n" and s: "\<And>l. set (f' l) \<subseteq> set (f l) \<union> {e}" and b: "buckets H' = buckets H" "bucket_cnt H' = bucket_cnt H"
    and nb: "nb \<noteq> NULL"
  shows "fresh_block nb m (bucket_set (buckets H') (bucket_cnt H')) f'"
proof -
  have fb: "fresh_block nb n (bucket_set (buckets H) (bucket_cnt H)) f"
    "\<forall>i<n. e \<noteq> bucket_at nb i \<and> e \<noteq> tail_of (bucket_at nb i)" using r nb by (simp_all add: room_def)
  then have "fresh_block nb n (bucket_set (buckets H) (bucket_cnt H)) f'"
    by (intro fresh_block_sub [OF fb(1), where X = "{e}"]) (use s in auto)
  then show ?thesis using fresh_block_le m b by metis
qed

lemma table_null: "place_ok h H f \<Longrightarrow> NULL \<notin> table_elems H f"
  by (auto simp: place_ok_def table_elems_def elems_def dest!: sys_dll dest: dll_nonnull(4))

lemma count_insert:
  assumes t: "table_ok key h H f" and e: "e \<notin> table_elems H f" "e \<noteq> NULL"
  shows "unat (helem_cnt H + 1) = card (insert e (table_elems H f))" "helem_cnt H \<le> helem_cnt H + 1"
proof -
  have p: "place_ok h H f" and c: "unat (helem_cnt H) = card (table_elems H f)" using t by (simp_all add: table_ok_def)
  have "card (insert e (table_elems H f)) < 2 ^ 32" using table_null [OF p] e by (intro card_addr(2)) auto
  moreover have "card (insert e (table_elems H f)) = Suc (card (table_elems H f))" using e finite_elems by simp
  ultimately show "unat (helem_cnt H + 1) = card (insert e (table_elems H f))"
    using c unat_plus_1 [of "helem_cnt H" "2 ^ 32 - 1"] by simp
  then show "helem_cnt H \<le> helem_cnt H + 1"
    using c \<open>card (insert e (table_elems H f)) = Suc (card (table_elems H f))\<close> by (simp add: word_le_nat_alt)
qed

lemma fun_ok_cong: "hashf H' = hashf H \<Longrightarrow> lessf H' = lessf H \<Longrightarrow> fun_ok key H' = fun_ok key H"
  by (simp only: fun_ok_def)

lemma fun_ok_cnt [simp]: "fun_ok key (H\<lparr>helem_cnt := c\<rparr>) = fun_ok key H"
  by (rule fun_ok_cong) simp_all

lemma rehash_table:
  assumes p: "place_ok h H f" and k: "fun_ok key H" "inj_on key (table_elems H f)" "unat (helem_cnt H) = card (table_elems H f)"
    and fr: "nb \<noteq> NULL \<Longrightarrow> fresh_block nb (target (helem_cnt H)) (bucket_set (buckets H) (bucket_cnt H)) f"
  shows "\<exists>h' H' f'. rehash nb h H = Some (h', H') \<and> table_ok key h' H' f' \<and> table_elems H' f' = table_elems H f"
proof -
  obtain h' H' f' where r: "rehash nb h H = Some (h', H')" "place_ok h' H' f'" "table_elems H' f' = table_elems H f"
    "hashf H' = hashf H" "lessf H' = lessf H" "helem_cnt H' = helem_cnt H" using rehash_spec [OF p fr] by blast
  have "table_ok key h' H' f'" using r k fun_ok_cong [OF r(4,5), of key] by (simp add: table_ok_def)
  then show ?thesis using r by blast
qed

lemma hash_insert_spec:
  assumes t: "table_ok key h H f" and e: "outside (bucket_set (buckets H) (bucket_cnt H)) f e" "e \<noteq> NULL"
    and r: "room nb (target (helem_cnt H + 1)) e H f"
  shows "\<exists>o' h' H' f'. hash_insert nb e h H = Some (o', h', H') \<and> table_ok key h' H' f' \<and>
    (if \<exists>x\<in>table_elems H f. key x = key e
     then o' \<in> table_elems H f \<and> key o' = key e \<and> table_elems H' f' = table_elems H f
     else o' = NULL \<and> table_elems H' f' = insert e (table_elems H f))"
proof -
  have p: "place_ok h H f" and k: "fun_ok key H" "inj_on key (table_elems H f)" "unat (helem_cnt H) = card (table_elems H f)"
    using t by (simp_all add: table_ok_def)
  have ne: "e \<notin> table_elems H f" using e(1) by (auto simp: outside_def table_elems_def elems_def nodes_def)
  note c = count_insert [OF t ne e(2)]
  obtain q where q: "find_elem h H (find_bucket H e) e = Some q"
    "if q = NULL then \<forall>x\<in>table_elems H f. key x \<noteq> key e else q \<in> table_elems H f \<and> key q = key e"
    using find_elem_spec [OF p k(1)] by blast
  show ?thesis
  proof (cases "q = NULL")
    case False
    have "nb \<noteq> NULL \<Longrightarrow> fresh_block nb (target (helem_cnt H)) (bucket_set (buckets H) (bucket_cnt H)) f"
      by (rule room_sub [OF r target_mono [OF c(2)]]) auto
    from rehash_table [OF p k this] show ?thesis using q False by (auto simp: hash_insert_def)
  next
    case True
    let ?H = "H\<lparr>helem_cnt := helem_cnt H + 1\<rparr>" and ?f = "f(find_bucket H e := e # f (find_bucket H e))"
    obtain h1 where h1: "insert_elem h H (find_bucket H e) e = Some (h1, ?H)" "place_ok h1 ?H ?f"
      "table_elems H ?f = insert e (table_elems H f)" using insert_elem_spec [OF p e] by blast
    have te: "table_elems ?H ?f = insert e (table_elems H f)" using h1(3) by (simp add: table_elems_def)
    have cnt: "unat (helem_cnt ?H) = card (table_elems ?H ?f)" using c(1) te by simp
    have new: "\<forall>x\<in>table_elems H f. key x \<noteq> key e" using q(2) True by simp
    then have "inj_on key (table_elems ?H ?f)" unfolding te using k(2) by (auto simp: inj_on_def)
    moreover have "fun_ok key ?H" using k(1) by simp
    moreover have "nb \<noteq> NULL \<Longrightarrow> fresh_block nb (target (helem_cnt ?H)) (bucket_set (buckets ?H) (bucket_cnt ?H)) ?f"
      by (rule room_sub [OF r]) auto
    ultimately obtain h' H' f' where "rehash nb h1 ?H = Some (h', H')" "table_ok key h' H' f'"
      "table_elems H' f' = table_elems ?H ?f" using rehash_table [OF h1(2)] cnt by blast
    then show ?thesis using q(1) True h1(1) new te by (auto simp: hash_insert_def)
  qed
qed

lemma hash_find_spec:
  assumes t: "table_ok key h H f"
  shows "\<exists>r. hash_find h H e = Some r \<and>
    (if \<exists>x\<in>table_elems H f. key x = key e then r \<in> table_elems H f \<and> key r = key e else r = NULL)"
  using find_elem_spec [of h H f key e] t table_null [of h H f] unfolding table_ok_def hash_find_def
  by (auto split: if_splits)

lemma hash_delete_spec:
  assumes t: "table_ok key h H f" and r: "room nb (target (helem_cnt H)) NULL H f"
  shows "\<exists>o' h' H' f'. hash_delete nb e h H = Some (o', h', H') \<and> table_ok key h' H' f' \<and>
    (if \<exists>x\<in>table_elems H f. key x = key e
     then o' \<in> table_elems H f \<and> key o' = key e \<and> table_elems H' f' = table_elems H f - {o'}
     else o' = NULL \<and> h' = h \<and> H' = H \<and> f' = f)"
proof -
  have p: "place_ok h H f" and k: "fun_ok key H" "inj_on key (table_elems H f)" "unat (helem_cnt H) = card (table_elems H f)"
    using t by (simp_all add: table_ok_def)
  obtain q where q: "find_elem h H (find_bucket H e) e = Some q"
    "if q = NULL then \<forall>x\<in>table_elems H f. key x \<noteq> key e else q \<in> table_elems H f \<and> key q = key e"
    using find_elem_spec [OF p k(1)] by blast
  show ?thesis
  proof (cases "q = NULL")
    case True
    then show ?thesis using q t by (auto simp: hash_delete_def)
  next
    case False
    then have qe: "q \<in> table_elems H f" "key q = key e" using q by simp_all
    let ?H = "H\<lparr>helem_cnt := helem_cnt H - 1\<rparr>"
    obtain h1 f1 where h1: "remove_elem h H q = Some (h1, ?H)" "place_ok h1 ?H f1"
      "table_elems H f1 = table_elems H f - {q}" "\<forall>l. set (f1 l) \<subseteq> set (f l)" using remove_elem_spec [OF p qe(1)] by blast
    have te: "table_elems ?H f1 = table_elems H f - {q}" using h1(3) by (simp add: table_elems_def)
    have pos: "0 < card (table_elems H f)" using qe(1) finite_elems card_gt_0_iff by blast
    then have cnt: "unat (helem_cnt ?H) = unat (helem_cnt H) - 1" using k(3) by (simp add: unat_minus_one unat_gt_0 [symmetric])
    then have c: "unat (helem_cnt ?H) = card (table_elems ?H f1)" using k(3) te qe(1) finite_elems by (simp add: card_Diff_singleton)
    have "inj_on key (table_elems ?H f1)" unfolding te using k(2) by (rule inj_on_diff)
    moreover have "fun_ok key ?H" using k(1) by simp
    moreover have "nb \<noteq> NULL \<Longrightarrow> fresh_block nb (target (helem_cnt ?H)) (bucket_set (buckets ?H) (bucket_cnt ?H)) f1"
    proof (rule room_sub [OF r target_mono])
      show "helem_cnt ?H \<le> helem_cnt H" using cnt by (simp add: word_le_nat_alt)
    qed (use h1(4) in auto)
    ultimately obtain h' H' f' where "rehash nb h1 ?H = Some (h', H')" "table_ok key h' H' f'"
      "table_elems H' f' = table_elems ?H f1" using rehash_table [OF h1(2)] c by blast
    then show ?thesis using q(1) False h1(1) qe te by (auto simp: hash_delete_def)
  qed
qed

lemma hash_replace_spec:
  assumes t: "table_ok key h H f" and e: "outside (bucket_set (buckets H) (bucket_cnt H)) f e" "e \<noteq> NULL"
    and r: "room nb (target (helem_cnt H + 1)) e H f"
  shows "\<exists>o' h' H' f'. hash_replace nb e h H = Some (o', h', H') \<and> table_ok key h' H' f' \<and>
    table_elems H' f' = insert e {x \<in> table_elems H f. key x \<noteq> key e} \<and>
    (if \<exists>x\<in>table_elems H f. key x = key e then o' \<in> table_elems H f \<and> key o' = key e else o' = NULL)"
proof -
  have p: "place_ok h H f" and k: "fun_ok key H" "inj_on key (table_elems H f)" "unat (helem_cnt H) = card (table_elems H f)"
    using t by (simp_all add: table_ok_def)
  have ne: "e \<notin> table_elems H f" using e(1) by (auto simp: outside_def table_elems_def elems_def nodes_def)
  note c = count_insert [OF t ne e(2)]
  obtain q where q: "find_elem h H (find_bucket H e) e = Some q"
    "if q = NULL then \<forall>x\<in>table_elems H f. key x \<noteq> key e else q \<in> table_elems H f \<and> key q = key e"
    using find_elem_spec [OF p k(1)] by blast
  let ?E = "{x \<in> table_elems H f. key x \<noteq> key e}"
  obtain h1 n f1 where h1: "(if q \<noteq> NULL then remove_elem h H q else Some (h, H)) = Some (h1, H\<lparr>helem_cnt := n\<rparr>)"
    "place_ok h1 (H\<lparr>helem_cnt := n\<rparr>) f1" "table_elems H f1 = ?E" "\<forall>l. set (f1 l) \<subseteq> set (f l)"
    "unat n = card ?E" "n \<le> helem_cnt H"
  proof (cases "q = NULL")
    case True
    then have "?E = table_elems H f" using q(2) by auto
    then show ?thesis using that [of h "helem_cnt H" f] p k(3) True by simp
  next
    case False
    then have qe: "q \<in> table_elems H f" "key q = key e" using q by simp_all
    then have E: "?E = table_elems H f - {q}" using k(2) by (auto simp: inj_on_def)
    obtain h1 f1 where r: "remove_elem h H q = Some (h1, H\<lparr>helem_cnt := helem_cnt H - 1\<rparr>)"
      "place_ok h1 (H\<lparr>helem_cnt := helem_cnt H - 1\<rparr>) f1" "table_elems H f1 = table_elems H f - {q}"
      "\<forall>l. set (f1 l) \<subseteq> set (f l)" using remove_elem_spec [OF p qe(1)] by blast
    have "0 < card (table_elems H f)" using qe(1) finite_elems card_gt_0_iff by blast
    then have cnt: "unat (helem_cnt H - 1) = unat (helem_cnt H) - 1" using k(3) by (simp add: unat_minus_one unat_gt_0 [symmetric])
    then have "unat (helem_cnt H - 1) = card ?E" unfolding E using k(3) qe(1) finite_elems by (simp add: card_Diff_singleton)
    moreover have "helem_cnt H - 1 \<le> helem_cnt H" using cnt by (simp add: word_le_nat_alt)
    ultimately show ?thesis using that [OF _ r(2) _ r(4)] r(1,3) False E by simp
  qed
  let ?H1 = "H\<lparr>helem_cnt := n\<rparr>"
  have fb: "find_bucket ?H1 e = find_bucket H e" by (simp add: find_bucket_def)
  have te1: "table_elems ?H1 f1 = ?E" using h1(3) by (simp add: table_elems_def)
  have out: "outside (bucket_set (buckets ?H1) (bucket_cnt ?H1)) f1 e"
    using e(1) h1(4) by (auto simp: outside_def nodes_def)
  let ?H2 = "?H1\<lparr>helem_cnt := helem_cnt ?H1 + 1\<rparr>" let ?f2 = "f1(find_bucket ?H1 e := e # f1 (find_bucket ?H1 e))"
  obtain h2 where h2: "insert_elem h1 ?H1 (find_bucket H e) e = Some (h2, ?H2)" "place_ok h2 ?H2 ?f2"
    "table_elems ?H1 ?f2 = insert e ?E" using insert_elem_spec [OF h1(2) out e(2)] te1 fb by auto
  have te2: "table_elems ?H2 ?f2 = insert e ?E" using h2(3) by (simp add: table_elems_def)
  have "inj_on key ?E" using k(2) by (rule inj_on_subset) auto
  then have t1: "table_ok key h1 ?H1 f1" using h1(2,5) te1 k(1) by (simp add: table_ok_def)
  have "unat (helem_cnt ?H2) = card (table_elems ?H2 ?f2)" "helem_cnt ?H2 \<le> helem_cnt H + 1"
  proof -
    show "unat (helem_cnt ?H2) = card (table_elems ?H2 ?f2)" using count_insert(1) [OF t1 _ e(2)] ne te1 te2 by simp
    have "card ?E \<le> card (table_elems H f)" using finite_elems by (intro card_mono) auto
    then show "helem_cnt ?H2 \<le> helem_cnt H + 1"
      using c(1) ne finite_elems count_insert(1) [OF t1 _ e(2)] te1 by (simp add: word_le_nat_alt)
  qed
  moreover have "inj_on key (table_elems ?H2 ?f2)" unfolding te2 using \<open>inj_on key ?E\<close> by auto
  moreover have "fun_ok key ?H2" using k(1) by simp
  moreover have "set (?f2 l) \<subseteq> set (f l) \<union> {e}" for l using h1(4) by auto
  ultimately obtain h' H' f' where "rehash nb h2 ?H2 = Some (h', H')" "table_ok key h' H' f'"
      "table_elems H' f' = table_elems ?H2 ?f2"
    using rehash_table [OF h2(2), of key nb] room_sub [OF r target_mono, of "helem_cnt ?H2" ?f2 ?H2] by auto
  then show ?thesis using q h1(1) h2(1) te2 by (auto simp: hash_replace_def fb split: if_splits)
qed

section \<open>Initialisation and iteration\<close>

lemma for_up_pair:
  "for_up n i (\<lambda>i (h, w). do { h \<leftarrow> g i h; Some (h, w) }) (h, w) = map_option (\<lambda>h. (h, w)) (for_up n i g h)"
proof (induction n arbitrary: i h)
  case (Suc n) then show ?case by (cases "g i h") simp_all
qed simp

lemma hash_init_spec:
  assumes b: "block_ok nb 4" and k: "\<And>x y. lt x y \<longleftrightarrow> key x < key y" "\<And>x y. key x = key y \<Longrightarrow> hs x = hs y"
  shows "\<exists>h' H. hash_init nb hs lt h = Some (True, h', H) \<and> table_ok key h' H (\<lambda>_. []) \<and> table_elems H (\<lambda>_. []) = {}"
proof -
  let ?H = "\<lparr>helem_cnt = 0, bucket_cnt = 4, buckets = nb, hashf = hs, lessf = lt\<rparr>"
  have "sys h {} (\<lambda>_. [])" by (simp add: sys_def)
  moreover have "fresh_block nb 4 {} (\<lambda>_. [])" using b by (simp add: fresh_block_def outside_def)
  ultimately obtain h' where h': "for_up 4 0 (\<lambda>i h. list_init h (bucket_at nb i)) h = Some h'"
    "sys h' (bucket_set nb 4) (\<lambda>l. if l \<in> bucket_set nb 4 then [] else [])"
    using init_buckets [of h "{}" "\<lambda>_. []" nb 4] by auto
  have "hash_clear None h ?H () = Some (h', ?H, ())"
    using for_up_pair [of 4 0 "\<lambda>i h. list_init h (bucket_at nb i)" h "()"] h'(1) by (simp add: hash_clear_def)
  then have "hash_init nb hs lt h = Some (True, h', ?H)" using b by (simp add: hash_init_def block_ok_def)
  moreover have "table_elems ?H (\<lambda>_. []) = {}" by (simp add: table_elems_def elems_def)
  moreover have "fun_ok key ?H" unfolding fun_ok_def hash.select_convs using k by blast
  moreover have "place_ok h' ?H (\<lambda>_. [])"
    using h'(2) b by (simp add: place_ok_def is_power_of_2_def turn_off_least_1bit_def)
  ultimately show ?thesis by (auto simp: table_ok_def)
qed

text \<open>
  The iteration idiom of \<^verbatim>\<open>hash_first\<close>: the elements \<^verbatim>\<open>hash_next\<close> gives until it gives null.
\<close>

partial_function (option) iterate :: "heap \<Rightarrow> hash \<Rightarrow> hash_iterator \<Rightarrow> addr list option" where
  "iterate h H i = do {
     (e, i) \<leftarrow> hash_next h H i;
     if e = NULL then Some [] else do { es \<leftarrow> iterate h H i; Some (e # es) }
   }"

text \<open>The elements from bucket \<open>j\<close> on.\<close>

definition from_bucket :: "hash \<Rightarrow> (addr \<Rightarrow> addr list) \<Rightarrow> nat \<Rightarrow> addr list" where
  "from_bucket H f j = concat (map (\<lambda>k. f (bucket_at (buckets H) (of_nat k))) [j..<unat (bucket_cnt H)])"

lemma from_bucket_rec:
  "j < unat (bucket_cnt H) \<Longrightarrow> from_bucket H f j = f (bucket_at (buckets H) (of_nat j)) @ from_bucket H f (Suc j)"
  by (simp add: from_bucket_def upt_conv_Cons)

lemma bucket_step:
  assumes b: "block_ok (buckets H) n" and j: "j < unat n"
  shows "bucket_at (buckets H) (of_nat j) + 16 = bucket_at (buckets H) (of_nat (Suc j))"
    "bucket_at (buckets H) n \<le> bucket_at (buckets H) (of_nat (Suc j)) \<longleftrightarrow> Suc j = unat n"
proof -
  show e: "bucket_at (buckets H) (of_nat j) + 16 = bucket_at (buckets H) (of_nat (Suc j))"
    by (simp add: bucket_at_def algebra_simps)
  have l: "unat (buckets H) + 16 * unat n < 2 ^ 32" using b by (simp add: block_ok_def)
  have u: "unat (bucket_at (buckets H) (of_nat k)) = unat (buckets H) + 16 * k" if "k \<le> unat n" for k
  proof -
    have "unat (of_nat k :: u32) = k" using that l by (intro unat_of_nat32) simp
    then have "unat (16 * of_nat k :: u32) = 16 * k" using that l by (simp add: unat_word_ariths)
    then show ?thesis using that l unat_add_nowrap [of "buckets H" "16 * of_nat k"] by (simp add: bucket_at_def)
  qed
  show "bucket_at (buckets H) n \<le> bucket_at (buckets H) (of_nat (Suc j)) \<longleftrightarrow> Suc j = unat n"
    using u [of "unat n"] u [of "Suc j"] j by (auto simp: word_le_nat_alt)
qed

text \<open>An iterator at the first of the elements \<open>R\<close> that are still to be visited.\<close>

definition it_at :: "hash \<Rightarrow> (addr \<Rightarrow> addr list) \<Rightarrow> hash_iterator \<Rightarrow> addr list \<Rightarrow> bool" where
  "it_at H f i R \<longleftrightarrow> (if R = [] then it_elem i = NULL
     else \<exists>k xs ys. k < unat (bucket_cnt H) \<and> it_bucket i = bucket_at (buckets H) (of_nat k) \<and>
       f (it_bucket i) = xs @ it_elem i # ys \<and> R = it_elem i # ys @ from_bucket H f (Suc k))"

lemma bucket_dll:
  "place_ok h H f \<Longrightarrow> k < unat (bucket_cnt H) \<Longrightarrow>
     dll h (bucket_at (buckets H) (of_nat k)) (f (bucket_at (buckets H) (of_nat k)))"
  by (auto simp: place_ok_def bucket_set_nat intro: sys_dll)

lemma hash_next_loop_spec:
  assumes p: "place_ok h H f"
  shows "j < unat (bucket_cnt H) \<Longrightarrow> f (bucket_at (buckets H) (of_nat j)) = xs @ ys \<Longrightarrow>
    \<exists>i. hash_next_loop h H \<lparr>it_bucket = bucket_at (buckets H) (of_nat j),
          it_elem = hd (ys @ [tail_of (bucket_at (buckets H) (of_nat j))])\<rparr> = Some i \<and>
      it_at H f i (ys @ from_bucket H f (Suc j))"
proof (induction "unat (bucket_cnt H) - j" arbitrary: j xs ys)
  case 0 then show ?case by simp
next
  case (Suc m)
  let ?b = "\<lambda>k. bucket_at (buckets H) (of_nat k)"
  have bo: "block_ok (buckets H) (bucket_cnt H)" using p by (simp add: place_ok_def)
  note d = bucket_dll [OF p] note dj = d [OF Suc.prems(1)]
  show ?case
  proof (cases ys)
    case (Cons y zs)
    then have "y \<noteq> tail_of (?b j)" using dll_elem_neq [OF dj, of y] Suc.prems(2) by simp
    then show ?thesis using Cons Suc.prems list_end_dll [OF dj]
      by (subst hash_next_loop.simps) (auto simp: it_at_def)
  next
    case Nil
    note st = bucket_step [OF bo Suc.prems(1)]
    show ?thesis
    proof (cases "Suc j = unat (bucket_cnt H)")
      case True
      then have "from_bucket H f (Suc j) = []" by (simp add: from_bucket_def)
      then show ?thesis using Nil True st list_end_dll [OF dj] by (subst hash_next_loop.simps) (simp add: it_at_def)
    next
      case False
      then have j': "Suc j < unat (bucket_cnt H)" using Suc.prems(1) by simp
      have m: "m = unat (bucket_cnt H) - Suc j" using Suc.hyps(2) by simp
      have "hash_next_loop h H \<lparr>it_bucket = ?b j, it_elem = hd (ys @ [tail_of (?b j)])\<rparr> =
          hash_next_loop h H \<lparr>it_bucket = ?b (Suc j), it_elem = hd (f (?b (Suc j)) @ [tail_of (?b (Suc j))])\<rparr>"
        using Nil False st list_end_dll [OF dj] list_begin_dll [OF d [OF j']]
        by (subst hash_next_loop.simps) simp
      then show ?thesis using Suc.hyps(1) [OF m j', of "[]" "f (?b (Suc j))"] Nil from_bucket_rec [OF j', of f]
        by (simp del: of_nat_Suc)
    qed
  qed
qed

lemma hash_next_spec:
  assumes p: "place_ok h H f" and i: "it_at H f i (x # R)"
  shows "\<exists>i'. hash_next h H i = Some (it_elem i', i') \<and> it_at H f i' R"
proof -
  obtain k xs ys where k: "k < unat (bucket_cnt H)" "it_bucket i = bucket_at (buckets H) (of_nat k)"
    "f (it_bucket i) = xs @ it_elem i # ys" "R = ys @ from_bucket H f (Suc k)" using i by (auto simp: it_at_def)
  let ?b = "bucket_at (buckets H) (of_nat k)"
  have d: "dll h ?b (xs @ it_elem i # ys)" using bucket_dll [OF p k(1)] k(2,3) by simp
  note nx = list_next_dll [OF d]
  have rec: "i\<lparr>it_elem := hd (ys @ [tail_of ?b])\<rparr> = \<lparr>it_bucket = ?b, it_elem = hd (ys @ [tail_of ?b])\<rparr>" using k(2) by simp
  show ?thesis using hash_next_loop_spec [OF p k(1), of "xs @ [it_elem i]" ys] k nx by (auto simp: hash_next_def rec)
qed

lemma it_at_elem:
  assumes p: "place_ok h H f" and i: "it_at H f i (x # R)"
  shows "it_elem i = x" "x \<noteq> NULL"
proof -
  obtain k xs ys where k: "k < unat (bucket_cnt H)" "x = it_elem i"
    "f (bucket_at (buckets H) (of_nat k)) = xs @ it_elem i # ys" using i by (auto simp: it_at_def)
  then show "it_elem i = x" "x \<noteq> NULL" using dll_nonnull(4) [OF bucket_dll [OF p k(1)], of x] by simp_all
qed

lemma iterate_spec:
  assumes p: "place_ok h H f"
  shows "it_at H f i (x # R) \<Longrightarrow> iterate h H i = Some R"
proof (induction R arbitrary: i x)
  case Nil
  then show ?case using hash_next_spec [OF p Nil] by (subst iterate.simps) (auto simp: it_at_def)
next
  case (Cons y R)
  obtain i' where i': "hash_next h H i = Some (it_elem i', i')" "it_at H f i' (y # R)"
    using hash_next_spec [OF p Cons.prems] by blast
  note it_at_elem [OF p i'(2)]
  then show ?case using i' Cons.IH [OF i'(2)] by (subst iterate.simps) simp
qed

lemma iterate_all:
  assumes p: "place_ok h H f"
  shows "(hash_first H \<bind> iterate h H) = Some (from_bucket H f 0)"
proof -
  have n: "0 < unat (bucket_cnt H)" using p by (auto simp: place_ok_def word_le_nat_alt)
  let ?b = "buckets H"
  have d: "dll h ?b (f ?b)" using bucket_dll [OF p n] by (simp add: bucket_at_def)
  have nn: "?b \<noteq> NULL" using dll_nonnull(1) [OF d] .
  have nx: "list_next h ?b = Some (hd (f ?b @ [tail_of ?b]))"
    using dll_links(1) [of h ?b "[]" "f ?b"] dll_classify_after [of h ?b "[]" "f ?b"] d nn
    by (simp add: list_next_def get_next_def head_of_def)
  obtain i where i: "hash_next_loop h H \<lparr>it_bucket = ?b, it_elem = hd (f ?b @ [tail_of ?b])\<rparr> = Some i"
    "it_at H f i (f ?b @ from_bucket H f (Suc 0))"
    using hash_next_loop_spec [OF p n, of "[]" "f ?b"] by (auto simp: bucket_at_def)
  have fb: "from_bucket H f 0 = f ?b @ from_bucket H f (Suc 0)" using from_bucket_rec [OF n] by (simp add: bucket_at_def)
  have "hash_first H = Some \<lparr>it_bucket = ?b, it_elem = ?b\<rparr>" using nn by (simp add: hash_first_def list_head_def head_of_def)
  moreover have "iterate h H \<lparr>it_bucket = ?b, it_elem = ?b\<rparr> = Some (from_bucket H f 0)"
  proof (cases "from_bucket H f 0")
    case Nil
    then show ?thesis using nx i fb by (subst iterate.simps) (simp add: hash_next_def it_at_def)
  next
    case (Cons x R)
    then have at: "it_at H f i (x # R)" using i(2) fb by simp
    note it_at_elem [OF p at]
    then show ?thesis using nx i(1) Cons iterate_spec [OF p at] by (subst iterate.simps) (simp add: hash_next_def)
  qed
  ultimately show ?thesis by simp
qed

lemma from_bucket_distinct:
  assumes p: "place_ok h H f"
  shows "distinct (from_bucket H f 0)" "set (from_bucket H f 0) = table_elems H f"
proof -
  let ?b = "\<lambda>k. bucket_at (buckets H) (of_nat k)"
  show "set (from_bucket H f 0) = table_elems H f"
    by (auto simp: from_bucket_def table_elems_def elems_def bucket_set_nat)
  have "distinct (f (?b k))" if "k < unat (bucket_cnt H)" for k
    using bucket_dll [OF p that] by (simp add: dll_def nodes_def)
  moreover have "x \<notin> set (f (?b m))" if "k < unat (bucket_cnt H)" "m < unat (bucket_cnt H)" "k < m" "x \<in> set (f (?b k))" for k m x
  proof -
    have bo: "block_ok (buckets H) (bucket_cnt H)" using p by (simp add: place_ok_def)
    have "?b k \<noteq> ?b m"
      using bucket_inj(1) [OF bo of_nat_less(1) [OF that(1)] of_nat_less(1) [OF that(2)]] of_nat_less(2) that nat_neq_iff by metis
    then show ?thesis using p that by (fastforce simp: place_ok_def sys_def bucket_set_nat nodes_def)
  qed
  ultimately have "distinct (concat (map (\<lambda>k. f (?b k)) [a..<c]))" if "c \<le> unat (bucket_cnt H)" for a c
    using that by (induction c) auto
  then show "distinct (from_bucket H f 0)" by (simp add: from_bucket_def)
qed

section \<open>The interface of a table\<close>

text \<open>
  What the clients of a table rely on.  A state \<open>s\<close> with the description \<open>g\<close> of its layout stands for the
  set \<open>els s g\<close> of elements, which have different keys.
\<close>

locale keyed_set =
  fixes key :: "addr \<Rightarrow> 'k" and rep :: "'s \<Rightarrow> 'g \<Rightarrow> bool" and els :: "'s \<Rightarrow> 'g \<Rightarrow> addr set"
    and lookup :: "addr \<Rightarrow> 's \<Rightarrow> addr option"
    and ins :: "addr \<Rightarrow> addr \<Rightarrow> 's \<Rightarrow> (addr \<times> 's) option" and del :: "addr \<Rightarrow> addr \<Rightarrow> 's \<Rightarrow> (addr \<times> 's) option"
    and may_ins :: "'s \<Rightarrow> 'g \<Rightarrow> addr \<Rightarrow> addr \<Rightarrow> bool" and may_del :: "'s \<Rightarrow> 'g \<Rightarrow> addr \<Rightarrow> bool"
  assumes inj: "rep s g \<Longrightarrow> inj_on key (els s g) \<and> NULL \<notin> els s g"
    and lookup_law: "rep s g \<Longrightarrow> \<exists>r. lookup x s = Some r \<and>
      (if \<exists>y\<in>els s g. key y = key x then r \<in> els s g \<and> key r = key x else r = NULL)"
    and ins_law: "rep s g \<Longrightarrow> may_ins s g nb e \<Longrightarrow> \<exists>r s' g'. ins nb e s = Some (r, s') \<and> rep s' g' \<and>
      (if \<exists>y\<in>els s g. key y = key e then r \<in> els s g \<and> key r = key e \<and> els s' g' = els s g
       else r = NULL \<and> els s' g' = insert e (els s g))"
    and del_law: "rep s g \<Longrightarrow> may_del s g nb \<Longrightarrow> \<exists>r s' g'. del nb e s = Some (r, s') \<and> rep s' g' \<and>
      (if \<exists>y\<in>els s g. key y = key e then r \<in> els s g \<and> key r = key e \<and> els s' g' = els s g - {r}
       else r = NULL \<and> s' = s \<and> g' = g)"
begin

lemma lookup_hit: "rep s g \<Longrightarrow> y \<in> els s g \<Longrightarrow> key y = key x \<Longrightarrow> lookup x s = Some y"
proof -
  assume r: "rep s g" and y: "y \<in> els s g" "key y = key x"
  then have "\<exists>y\<in>els s g. key y = key x" by blast
  from lookup_law [OF r, of x, unfolded if_P [OF this]]
  obtain q where q: "lookup x s = Some q" "q \<in> els s g" "key q = key x" by blast
  then have "q = y" using inj_onD [of key "els s g" q y] inj [OF r] y by simp
  then show ?thesis using q by simp
qed

lemma lookup_miss: "rep s g \<Longrightarrow> \<forall>y\<in>els s g. key y \<noteq> key x \<Longrightarrow> lookup x s = Some NULL"
  using lookup_law [of s g x] by auto

lemma lookup_cong:
  assumes "rep s g" "rep s' g'" "\<And>y. key y = key x \<Longrightarrow> y \<in> els s g \<longleftrightarrow> y \<in> els s' g'"
  shows "lookup x s' = lookup x s"
proof (cases "\<exists>y\<in>els s g. key y = key x")
  case True
  then obtain y where y: "y \<in> els s g" "key y = key x" by blast
  then show ?thesis using lookup_hit [OF assms(1) y] lookup_hit [OF assms(2) _ y(2)] assms(3) by simp
next
  case False
  then show ?thesis using lookup_miss [OF assms(1)] lookup_miss [OF assms(2), of x] assms(3) by auto
qed

lemma insert_lookup:
  assumes r: "rep s g" and m: "may_ins s g nb e"
  shows "\<exists>o' s' g'. ins nb e s = Some (o', s') \<and> rep s' g' \<and> lookup e s = Some o' \<and>
    (\<forall>x. lookup x s' = (if key x = key e \<and> o' = NULL then Some e else lookup x s))"
proof -
  obtain o' s' g' where i: "ins nb e s = Some (o', s')" "rep s' g'"
    "if \<exists>y\<in>els s g. key y = key e then o' \<in> els s g \<and> key o' = key e \<and> els s' g' = els s g
     else o' = NULL \<and> els s' g' = insert e (els s g)" using ins_law [OF r m] by blast
  show ?thesis
  proof (cases "\<exists>y\<in>els s g. key y = key e")
    case True
    then have o: "o' \<in> els s g" "key o' = key e" "els s' g' = els s g" using i(3) by simp_all
    then have "o' \<noteq> NULL" using inj [OF r] by auto
    then show ?thesis using i(1,2) lookup_hit [OF r o(1,2)] lookup_cong [OF r i(2)] o(3) by auto
  next
    case False
    then have e: "o' = NULL" "els s' g' = insert e (els s g)" using i(3) by simp_all
    have "lookup x s' = (if key x = key e \<and> o' = NULL then Some e else lookup x s)" for x
    proof (cases "key x = key e")
      case True
      have "lookup x s' = Some e" by (rule lookup_hit [OF i(2)]) (simp_all add: e True)
      then show ?thesis using True e by simp
    next
      case ne: False
      have "lookup x s' = lookup x s" by (rule lookup_cong [OF r i(2)]) (use e ne in auto)
      then show ?thesis using ne by simp
    qed
    then show ?thesis using i(1,2) lookup_miss [OF r, of e] False e(1) by auto
  qed
qed

lemma delete_lookup:
  assumes r: "rep s g" and m: "may_del s g nb"
  shows "\<exists>o' s' g'. del nb e s = Some (o', s') \<and> rep s' g' \<and> lookup e s = Some o' \<and>
    (\<forall>x. lookup x s' = (if key x = key e then Some NULL else lookup x s))"
proof -
  obtain o' s' g' where i: "del nb e s = Some (o', s')" "rep s' g'"
    "if \<exists>y\<in>els s g. key y = key e then o' \<in> els s g \<and> key o' = key e \<and> els s' g' = els s g - {o'}
     else o' = NULL \<and> s' = s \<and> g' = g" using del_law [OF r m] by blast
  show ?thesis
  proof (cases "\<exists>y\<in>els s g. key y = key e")
    case True
    then have e: "o' \<in> els s g" "key o' = key e" "els s' g' = els s g - {o'}" using i(3) by simp_all
    have "key y \<noteq> key e" if "y \<in> els s' g'" for y
      using inj_onD [of key "els s g" y o'] inj [OF r] that e by auto
    then have out: "\<forall>y\<in>els s' g'. key y \<noteq> key e" by blast
    have "lookup x s' = (if key x = key e then Some NULL else lookup x s)" for x
    proof (cases "key x = key e")
      case True
      have "lookup x s' = Some NULL" by (rule lookup_miss [OF i(2)]) (use out True in simp)
      then show ?thesis using True by simp
    next
      case ne: False
      have "y \<noteq> o'" if "key y = key x" for y using that ne e(2) by auto
      then have "lookup x s' = lookup x s" by (intro lookup_cong [OF r i(2)]) (unfold e(3), blast)
      then show ?thesis using ne by simp
    qed
    then show ?thesis using i(1,2) lookup_hit [OF r e(1,2)] by blast
  next
    case False
    then have "o' = NULL" "s' = s" using i(3) by simp_all
    moreover have "lookup x s = Some NULL" if "key x = key e" for x
      using False that by (intro lookup_miss [OF r]) simp
    ultimately show ?thesis using i(1,2) by auto
  qed
qed

end

definition table_may_ins :: "heap \<times> hash \<Rightarrow> (addr \<Rightarrow> addr list) \<Rightarrow> addr \<Rightarrow> addr \<Rightarrow> bool" where
  "table_may_ins s f nb e \<longleftrightarrow> outside (bucket_set (buckets (snd s)) (bucket_cnt (snd s))) f e \<and> e \<noteq> NULL \<and>
     room nb (target (helem_cnt (snd s) + 1)) e (snd s) f"

definition table_may_del :: "heap \<times> hash \<Rightarrow> (addr \<Rightarrow> addr list) \<Rightarrow> addr \<Rightarrow> bool" where
  "table_may_del s f nb \<longleftrightarrow> room nb (target (helem_cnt (snd s))) NULL (snd s) f"

interpretation ht: keyed_set key "\<lambda>s. table_ok key (fst s) (snd s)" "\<lambda>s. table_elems (snd s)"
  "\<lambda>x s. hash_find (fst s) (snd s) x" "\<lambda>nb e s. hash_insert nb e (fst s) (snd s)"
  "\<lambda>nb e s. hash_delete nb e (fst s) (snd s)" table_may_ins table_may_del for key :: "addr \<Rightarrow> 'k::linorder"
proof (unfold_locales, goal_cases)
  case (1 s g)
  then show ?case using table_null by (auto simp: table_ok_def)
next
  case (2 s g x)
  then show ?case by (rule hash_find_spec)
next
  case (3 s g nb e)
  then show ?case using hash_insert_spec [of key "fst s" "snd s" g e nb] unfolding table_may_ins_def
    by (metis fst_conv snd_conv)
next
  case (4 s g nb e)
  then obtain o' h' H' f' where "hash_delete nb e (fst s) (snd s) = Some (o', h', H')" "table_ok key h' H' f'"
    "if \<exists>x\<in>table_elems (snd s) g. key x = key e
     then o' \<in> table_elems (snd s) g \<and> key o' = key e \<and> table_elems H' f' = table_elems (snd s) g - {o'}
     else o' = NULL \<and> h' = fst s \<and> H' = snd s \<and> f' = g"
    using hash_delete_spec [of key "fst s" "snd s" g nb e] unfolding table_may_del_def by blast
  then show ?case by (intro exI [of _ o'] exI [of _ "(h', H')"] exI [of _ f']) (auto simp: prod_eq_iff split: if_splits)
qed

section \<open>Properties\<close>

text \<open>
  C7 (\<^verbatim>\<open>hash_insert\<close>, \<^verbatim>\<open>hash_find\<close>, \<^verbatim>\<open>rehash\<close>).  Inserting an element into a
  well-formed table returns, whether the bucket array is reallocated or not, and the table is
  well-formed again.  The result is what a search for the key found before; when that was nothing, searches
  for the key now find the new element, and all other searches are unchanged.
\<close>

theorem hash_insert_find:
  assumes "table_ok key h H f" and "table_may_ins (h, H) f nb e"
  shows "\<exists>old h' H' f'. hash_insert nb e h H = Some (old, h', H') \<and> table_ok key h' H' f' \<and>
    hash_find h H e = Some old \<and>
    (\<forall>x. hash_find h' H' x = (if key x = key e \<and> old = NULL then Some e else hash_find h H x))"
proof -
  have "table_ok key (fst (h, H)) (snd (h, H)) f" using assms(1) by simp
  from ht.insert_lookup [OF this assms(2)] show ?thesis by auto
qed

text \<open>An empty table of four buckets at 4096, keyed by address.\<close>

definition demo_table :: "(bool \<times> heap \<times> hash) option" where
  "demo_table = hash_init 4096 id (<) (\<lambda>_. \<lparr>le_prev = 0, le_next = 0\<rparr>)"

lemma demo_table_ok:
  "\<exists>h H. demo_table = Some (True, h, H) \<and> table_ok id h H (\<lambda>_. []) \<and> buckets H = 4096 \<and> bucket_cnt H = 4 \<and> helem_cnt H = 0"
proof -
  have b: "block_ok 4096 4" by (simp add: block_ok_def)
  obtain h H where i: "demo_table = Some (True, h, H)" "table_ok id h H (\<lambda>_. [])"
    using hash_init_spec [OF b, of "(<)" id id "\<lambda>_. \<lparr>le_prev = 0, le_next = 0\<rparr>"] by (auto simp: demo_table_def)
  then have "buckets H = 4096 \<and> bucket_cnt H = 4 \<and> helem_cnt H = 0"
    by (auto simp: demo_table_def hash_init_def hash_clear_def Let_def monad_simps split: option.splits prod.splits)
  then show ?thesis using i by blast
qed

lemma demo_may_ins:
  assumes "buckets H = 4096" "bucket_cnt H = 4"
  shows "table_may_ins (h, H) (\<lambda>_. []) NULL 0x9000"
proof -
  have "0x9000 \<noteq> bucket_at 4096 i \<and> 0x9000 \<noteq> tail_of (bucket_at 4096 i)" if "i < 4" for i
  proof -
    have "unat i < 4" using that by (simp add: word_less_nat_alt)
    then have "unat (bucket_at 4096 i) < 0x9000" "unat (tail_of (bucket_at 4096 i)) < 0x9000"
      using unat_bucket(1,2) [of 4096 4 i] that by (simp_all add: block_ok_def)
    then show ?thesis by auto
  qed
  then show ?thesis using assms
    by (auto simp: table_may_ins_def outside_def bucket_set_def nodes_def head_of_def room_def)
qed

theorem hash_insert_find_witness:
  "\<exists>h H. demo_table = Some (True, h, H) \<and>
    (\<exists>old h' H' f'. hash_insert NULL 0x9000 h H = Some (old, h', H') \<and> table_ok id h' H' f' \<and>
      hash_find h H 0x9000 = Some old \<and>
      (\<forall>x. hash_find h' H' x = (if id x = id 0x9000 \<and> old = NULL then Some 0x9000 else hash_find h H x)))"
  using demo_table_ok hash_insert_find [OF _ demo_may_ins] by blast

text \<open>
  C8 (\<^verbatim>\<open>hash_delete\<close>, \<^verbatim>\<open>hash_find\<close>).  Deleting returns what a search for the key finds;
  afterwards a search for the key finds nothing and all other searches are unchanged.
\<close>

theorem hash_delete_find:
  assumes "table_ok key h H f" and "table_may_del (h, H) f nb"
  shows "\<exists>old h' H' f'. hash_delete nb e h H = Some (old, h', H') \<and> table_ok key h' H' f' \<and>
    hash_find h H e = Some old \<and>
    (\<forall>x. hash_find h' H' x = (if key x = key e then Some NULL else hash_find h H x))"
proof -
  have "table_ok key (fst (h, H)) (snd (h, H)) f" using assms(1) by simp
  from ht.delete_lookup [OF this assms(2), of e] show ?thesis by auto
qed

theorem hash_delete_find_witness:
  "\<exists>h H. demo_table = Some (True, h, H) \<and>
    (\<exists>old h' H' f'. hash_delete NULL 0x9000 h H = Some (old, h', H') \<and> table_ok id h' H' f' \<and>
      hash_find h H 0x9000 = Some old \<and>
      (\<forall>x. hash_find h' H' x = (if id x = id 0x9000 then Some NULL else hash_find h H x)))"
proof -
  obtain h H where d: "demo_table = Some (True, h, H)" "table_ok id h H (\<lambda>_. [])" using demo_table_ok by blast
  have "table_may_del (h, H) (\<lambda>_. []) NULL" by (simp add: table_may_del_def room_def)
  from hash_delete_find [OF d(2) this, of "0x9000"] show ?thesis using d(1) by blast
qed

text \<open>
  C36 (\<^verbatim>\<open>hash_first\<close>, \<^verbatim>\<open>hash_next\<close>).  Calling \<^verbatim>\<open>hash_next\<close> until it returns null, starting
  from \<^verbatim>\<open>hash_first\<close>, ends and visits every element of the table exactly once; their number is
  \<^verbatim>\<open>hash_size\<close>.
\<close>

theorem hash_iteration:
  assumes "table_ok key h H f"
  shows "\<exists>es. (hash_first H \<bind> iterate h H) = Some es \<and> distinct es \<and> set es = table_elems H f \<and>
    length es = unat (hash_size H)"
proof -
  have p: "place_ok h H f" "unat (helem_cnt H) = card (table_elems H f)" using assms by (simp_all add: table_ok_def)
  note d = from_bucket_distinct [OF p(1)]
  then have "length (from_bucket H f 0) = unat (hash_size H)"
    using p(2) distinct_card [OF d(1)] by (simp add: hash_size_def)
  then show ?thesis using iterate_all [OF p(1)] d by blast
qed

theorem hash_iteration_witness:
  "\<exists>h H. demo_table = Some (True, h, H) \<and>
    (\<exists>es. (hash_first H \<bind> iterate h H) = Some es \<and> distinct es \<and> set es = table_elems H (\<lambda>_. []) \<and>
      length es = unat (hash_size H))"
  using demo_table_ok hash_iteration by blast

text \<open>
  (\<^verbatim>\<open>rehash\<close>).  The loop that chooses the number of buckets ends for every element count, with
  a power of two of at least four and at most the larger of four and half the count.
\<close>

theorem rehash_bucket_count:
  "\<exists>n. to_power_of_2 (if c div BEST_ELEMS_PER_BUCKET < 4 then 4 else c div BEST_ELEMS_PER_BUCKET) = Some n \<and>
    is_power_of_2 n \<and> 4 \<le> n \<and> n \<le> max 4 (c div 2)"
proof -
  have "target c \<le> max 4 (c div 2)" by (simp add: target_def BEST_ELEMS_PER_BUCKET_def)
  then show ?thesis using to_power_of_2_total [OF target_ge_4, of c] unfolding target_def by (meson order_trans)
qed

end
