(* ===== verification/Malloc.thy ===== *)
theory Malloc
  imports Palloc KHash
begin

text \<open>
  The block allocator: \<^verbatim>\<open>threads/malloc.c\<close>.  Arena headers are words in the memory of the page allocator, free blocks
  are elements of the lists of \<open>KList\<close>, one list for each descriptor.  The links of a free block lie in its first eight bytes;
  the model keeps them in the heap of \<open>KList\<close> and not in the words of the memory, so a write of a client into a block that it has
  released is not modelled.  The lock of a descriptor is not part of the model either: a request is one step.
\<close>

section \<open>Data\<close>

record desc =
  d_block_size :: u32
  blocks_per_arena :: u32

record mheap =
  pal :: phys
  links :: heap
  descs :: "desc list"

definition ARENA_MAGIC :: u32 where "ARENA_MAGIC = 0x9a548eed"

text \<open>Sizes of \<^verbatim>\<open>struct arena\<close> and \<^verbatim>\<open>struct desc\<close>, the address of the array of descriptors, and the address of a
  descriptor and of its free list.\<close>

definition ARENA_SIZE :: u32 where "ARENA_SIZE = 12"
definition DESC_SIZE :: u32 where "DESC_SIZE = 48"
definition DESCS :: addr where "DESCS = 0xc0031000"

definition desc_at :: "nat \<Rightarrow> addr" where
  "desc_at i = DESCS + DESC_SIZE * of_nat i"

definition free_list :: "addr \<Rightarrow> addr" where
  "free_list d = d + 8"

text \<open>The descriptor at an address.\<close>

definition get_desc :: "addr \<Rightarrow> mheap \<Rightarrow> desc option" where
  "get_desc d s = (let i = unat ((d - DESCS) div DESC_SIZE) in
     if (d - DESCS) mod DESC_SIZE = 0 \<and> i < length (descs s) then Some (descs s ! i) else None)"

text \<open>The members of an arena.\<close>

definition get_word :: "addr \<Rightarrow> mheap \<Rightarrow> u32" where
  "get_word a s = mem (pal s) a"

definition set_word :: "addr \<Rightarrow> u32 \<Rightarrow> mheap \<Rightarrow> mheap" where
  "set_word a w s = s\<lparr>pal := (pal s)\<lparr>mem := (mem (pal s))(a := w)\<rparr>\<rparr>"

definition a_magic :: "addr \<Rightarrow> addr" where "a_magic a = a"
definition a_desc :: "addr \<Rightarrow> addr" where "a_desc a = a + 4"
definition a_free_cnt :: "addr \<Rightarrow> addr" where "a_free_cnt a = a + 8"

text \<open>The first \<open>n\<close> bytes from an aligned address on, in words of four bytes, least significant first.\<close>

definition merge_bytes :: "nat \<Rightarrow> u32 \<Rightarrow> u32 \<Rightarrow> u32" where
  "merge_bytes k w v = (if k \<ge> 4 then w else (w AND mask (8 * k)) OR (v AND NOT (mask (8 * k))))"

text \<open>Byte \<open>j\<close> of the block at an aligned address.\<close>

definition byte_of :: "addr \<Rightarrow> nat \<Rightarrow> mheap \<Rightarrow> u8" where
  "byte_of b j s = ucast (drop_bit (8 * (j mod 4)) (mem (pal s) (b + of_nat (4 * (j div 4)))))"

definition set_bytes :: "addr \<Rightarrow> u32 \<Rightarrow> (u32 \<Rightarrow> u32) \<Rightarrow> mheap \<Rightarrow> mheap" where
  "set_bytes p n w s = s\<lparr>pal := (pal s)\<lparr>mem :=
     (\<lambda>x. if x - p < n then merge_bytes (unat (n - (x - p))) (w (x - p)) (mem (pal s) x) else mem (pal s) x)\<rparr>\<rparr>"

section \<open>Operations\<close>

partial_function (option) malloc_init_loop :: "u32 \<Rightarrow> mheap \<Rightarrow> mheap option" where
  [code]: "malloc_init_loop block_size s =
     (if block_size < PGSIZE div 2 then do {
        let i = length (descs s);
        ASSERT (i + 1 \<le> 10);
        let d = \<lparr>d_block_size = block_size, blocks_per_arena = (PGSIZE - ARENA_SIZE) div block_size\<rparr>;
        h \<leftarrow> list_init (links s) (free_list (desc_at i));
        malloc_init_loop (block_size * 2) (s\<lparr>descs := descs s @ [d], links := h\<rparr>)
      }
      else Some s)"

definition malloc_init :: "mheap \<Rightarrow> mheap option" where
  "malloc_init s = malloc_init_loop 16 s"

definition block_to_arena :: "addr \<Rightarrow> mheap \<Rightarrow> addr option" where
  "block_to_arena b s = do {
     let a = pg_round_down b;
     ASSERT (a \<noteq> NULL);
     ASSERT (get_word (a_magic a) s = ARENA_MAGIC);
     (if get_word (a_desc a) s = NULL then ASSERT (pg_ofs b = ARENA_SIZE)
      else do {
        d \<leftarrow> get_desc (get_word (a_desc a) s) s;
        ASSERT ((pg_ofs b - ARENA_SIZE) mod d_block_size d = 0)
      });
     Some a
   }"

definition arena_to_block :: "addr \<Rightarrow> u32 \<Rightarrow> mheap \<Rightarrow> addr option" where
  "arena_to_block a idx s = do {
     ASSERT (a \<noteq> NULL);
     ASSERT (get_word (a_magic a) s = ARENA_MAGIC);
     d \<leftarrow> get_desc (get_word (a_desc a) s) s;
     ASSERT (idx < blocks_per_arena d);
     Some (a + ARENA_SIZE + idx * d_block_size d)
   }"

fun push_blocks :: "nat \<Rightarrow> u32 \<Rightarrow> addr \<Rightarrow> addr \<Rightarrow> mheap \<Rightarrow> mheap option" where
  "push_blocks 0 i a d s = Some s"
| "push_blocks (Suc n) i a d s = do {
     b \<leftarrow> arena_to_block a i s;
     h \<leftarrow> list_push_back (links s) (free_list d) b;
     push_blocks n (i + 1) a d (s\<lparr>links := h\<rparr>)
   }"

fun remove_blocks :: "nat \<Rightarrow> u32 \<Rightarrow> addr \<Rightarrow> mheap \<Rightarrow> mheap option" where
  "remove_blocks 0 i a s = Some s"
| "remove_blocks (Suc n) i a s = do {
     b \<leftarrow> arena_to_block a i s;
     (_, h) \<leftarrow> list_remove (links s) b;
     remove_blocks n (i + 1) a (s\<lparr>links := h\<rparr>)
   }"

definition init_arena :: "addr \<Rightarrow> addr \<Rightarrow> u32 \<Rightarrow> mheap \<Rightarrow> mheap" where
  "init_arena a d n s = set_word (a_free_cnt a) n (set_word (a_desc a) d (set_word (a_magic a) ARENA_MAGIC s))"

definition malloc_big :: "u32 \<Rightarrow> mheap \<Rightarrow> (addr \<times> mheap) option" where
  "malloc_big sz s = do {
     let page_cnt = (sz + ARENA_SIZE + PGSIZE - 1) div PGSIZE;
     (a, p) \<leftarrow> palloc_get_multiple 0 page_cnt (pal s);
     let s = s\<lparr>pal := p\<rparr>;
     if a = NULL then Some (NULL, s)
     else Some (a + ARENA_SIZE, init_arena a NULL page_cnt s)
   }"

definition new_arena :: "addr \<Rightarrow> mheap \<Rightarrow> (bool \<times> mheap) option" where
  "new_arena d s = do {
     (a, p) \<leftarrow> palloc_get_page 0 (pal s);
     let s = s\<lparr>pal := p\<rparr>;
     if a = NULL then Some (False, s)
     else do {
       dr \<leftarrow> get_desc d s;
       let s = init_arena a d (blocks_per_arena dr) s;
       s \<leftarrow> push_blocks (unat (blocks_per_arena dr)) 0 a d s;
       Some (True, s)
     }
   }"

definition take_block :: "addr \<Rightarrow> mheap \<Rightarrow> (addr \<times> mheap) option" where
  "take_block d s = do {
     (b, h) \<leftarrow> list_pop_front (links s) (free_list d);
     let s = s\<lparr>links := h\<rparr>;
     a \<leftarrow> block_to_arena b s;
     let s = set_word (a_free_cnt a) (get_word (a_free_cnt a) s - 1) s;
     Some (b, s)
   }"

definition malloc :: "u32 \<Rightarrow> mheap \<Rightarrow> (addr \<times> mheap) option" where
  "malloc sz s =
     (if sz = 0 then Some (NULL, s)
      else
        let i = length (takeWhile (\<lambda>d. \<not> d_block_size d \<ge> sz) (descs s)) in
        if i = length (descs s) then malloc_big sz s
        else do {
          let d = desc_at i;
          e \<leftarrow> list_empty (links s) (free_list d);
          (ok, s) \<leftarrow> (if e then new_arena d s else Some (True, s));
          if \<not> ok then Some (NULL, s) else take_block d s
        })"

definition calloc :: "u32 \<Rightarrow> u32 \<Rightarrow> mheap \<Rightarrow> (addr \<times> mheap) option" where
  "calloc a b s = do {
     let sz = a * b;
     if sz < a \<or> sz < b then Some (NULL, s)
     else do {
       (p, s) \<leftarrow> malloc sz s;
       Some (p, if p \<noteq> NULL then set_bytes p sz (\<lambda>_. 0) s else s)
     }
   }"

definition malloc_block_size :: "addr \<Rightarrow> mheap \<Rightarrow> u32 option" where
  "malloc_block_size block s = do {
     a \<leftarrow> block_to_arena block s;
     let d = get_word (a_desc a) s;
     if d \<noteq> NULL then do { d \<leftarrow> get_desc d s; Some (d_block_size d) }
     else Some (PGSIZE * get_word (a_free_cnt a) s - pg_ofs block)
   }"

definition free :: "addr \<Rightarrow> mheap \<Rightarrow> mheap option" where
  "free p s =
     (if p = NULL then Some s
      else do {
        a \<leftarrow> block_to_arena p s;
        let d = get_word (a_desc a) s;
        if d \<noteq> NULL then do {
          dr \<leftarrow> get_desc d s;
          let s = set_bytes p (d_block_size dr) (\<lambda>_. 0xcccccccc) s;
          h \<leftarrow> list_push_front (links s) (free_list d) p;
          let s = s\<lparr>links := h\<rparr>;
          let s = set_word (a_free_cnt a) (get_word (a_free_cnt a) s + 1) s;
          if get_word (a_free_cnt a) s \<ge> blocks_per_arena dr then do {
            ASSERT (get_word (a_free_cnt a) s = blocks_per_arena dr);
            s \<leftarrow> remove_blocks (unat (blocks_per_arena dr)) 0 a s;
            q \<leftarrow> palloc_free_page a (pal s);
            Some (s\<lparr>pal := q\<rparr>)
          }
          else Some s
        }
        else do {
          q \<leftarrow> palloc_free_multiple a (get_word (a_free_cnt a) s) (pal s);
          Some (s\<lparr>pal := q\<rparr>)
        }
      })"

definition realloc :: "addr \<Rightarrow> u32 \<Rightarrow> mheap \<Rightarrow> (addr \<times> mheap) option" where
  "realloc old_block new_size s =
     (if new_size = 0 then do {
        s \<leftarrow> free old_block s;
        Some (NULL, s)
      }
      else do {
        (new_block, s) \<leftarrow> malloc new_size s;
        if old_block \<noteq> NULL \<and> new_block \<noteq> NULL then do {
          old_size \<leftarrow> malloc_block_size old_block s;
          let min_size = (if new_size < old_size then new_size else old_size);
          let s = set_bytes new_block min_size (\<lambda>i. mem (pal s) (old_block + i)) s;
          s \<leftarrow> free old_block s;
          Some (new_block, s)
        }
        else Some (new_block, s)
      })"

section \<open>Arithmetic of blocks\<close>

definition bsz :: "nat \<Rightarrow> nat" where "bsz i = 2 ^ (4 + i)"
definition cnt :: "nat \<Rightarrow> nat" where "cnt i = 4084 div bsz i"

definition blk :: "addr \<Rightarrow> nat \<Rightarrow> nat \<Rightarrow> addr" where
  "blk a i k = a + of_nat (12 + k * bsz i)"

definition mk_desc :: "nat \<Rightarrow> desc" where
  "mk_desc i = \<lparr>d_block_size = of_nat (bsz i), blocks_per_arena = of_nat (cnt i)\<rparr>"

lemma seven: "i < 7 \<Longrightarrow> i = 0 \<or> i = 1 \<or> i = 2 \<or> i = 3 \<or> i = 4 \<or> i = 5 \<or> i = (6 :: nat)"
  by presburger

lemma bsz_bounds: "i < 7 \<Longrightarrow> 16 \<le> bsz i \<and> bsz i \<le> 1024 \<and> 3 \<le> cnt i \<and> cnt i \<le> 255"
  by (drule seven, elim disjE) (simp_all add: bsz_def cnt_def)

lemma blk_fits: "k < cnt i \<Longrightarrow> 12 + k * bsz i + bsz i \<le> 4096"
proof -
  assume "k < cnt i"
  then have "Suc k * bsz i \<le> cnt i * bsz i" by (intro mult_right_mono) auto
  also have "\<dots> \<le> 4084" by (simp add: cnt_def)
  finally show ?thesis by simp
qed

lemma page_ofs_addr:
  assumes "pg_ofs a = 0" and "n < 4096"
  shows "unat (a + of_nat n) = unat a + n" "pg_round_down (a + of_nat n) = a" "pg_ofs (a + of_nat n) = of_nat n"
proof -
  obtain y where y: "unat a = 4096 * y" using assms(1) by (auto simp: aligned_dvd)
  have "4096 * y < 2 ^ 32" using unat_lt32 [of a] y by simp
  then have l: "unat a + n < 2 ^ 32" using assms(2) y by simp
  then show u: "unat (a + of_nat n) = unat a + n" by (simp add: unat_word_ariths unat_of_nat)
  have "unat (pg_ofs (a + of_nat n)) = n" using u y assms(2) by (simp add: unat_pg_ofs)
  then show o: "pg_ofs (a + of_nat n) = of_nat n" by (rule eq_of_nat)
  show "pg_round_down (a + of_nat n) = a" using page_split [of "a + of_nat n"] o by simp
qed

lemma blk_page:
  assumes "pg_ofs a = 0" and "k < cnt i" and "i < 7"
  shows "unat (blk a i k) = unat a + 12 + k * bsz i" "pg_round_down (blk a i k) = a" "pg_ofs (blk a i k) = of_nat (12 + k * bsz i)"
  using page_ofs_addr [OF assms(1), of "12 + k * bsz i"] blk_fits [OF assms(2)] bsz_bounds [OF assms(3)] by (simp_all add: blk_def add.assoc)

lemma blk_inj:
  assumes "pg_ofs a = 0" "k < cnt i" "j < cnt i" "i < 7"
  shows "blk a i k = blk a i j \<longleftrightarrow> k = j"
proof
  assume "blk a i k = blk a i j"
  then have "k * bsz i = j * bsz i" using blk_page(1) [OF assms(1,2,4)] blk_page(1) [OF assms(1,3,4)] by auto
  then show "k = j" using bsz_bounds [OF assms(4)] by simp
qed simp

lemma get_desc_at:
  assumes "i < 7" and "descs s = map mk_desc [0..<7]"
  shows "get_desc (desc_at i) s = Some (mk_desc i)"
proof -
  have "unat (48 * of_nat i :: u32) = 48 * i" using assms(1) by (simp add: unat_word_ariths unat_of_nat)
  then have "(48 * of_nat i :: u32) div 48 = of_nat i" "(48 * of_nat i :: u32) mod 48 = 0"
    using assms(1) by (simp_all add: word_unat_eq_iff unat_div unat_mod unat_of_nat32)
  then show ?thesis using assms by (simp add: get_desc_def desc_at_def DESC_SIZE_def Let_def unat_of_nat32)
qed

section \<open>Groups of pages\<close>

text \<open>\<open>held s a n\<close>: the \<open>n\<close> pages from \<open>a\<close> on are used pages of the kernel pool.  \<open>span a n\<close> is the set of their
  addresses.\<close>

definition held :: "phys \<Rightarrow> addr \<Rightarrow> nat \<Rightarrow> bool" where
  "held s a n \<longleftrightarrow> page_in (kernel_pool s) a \<and> page_idx (kernel_pool s) a + n \<le> unat (bit_cnt (used_map (kernel_pool s))) \<and>
     (\<forall>j<n. bm_abs (used_map (kernel_pool s)) ! (page_idx (kernel_pool s) a + j))"

definition span :: "addr \<Rightarrow> nat \<Rightarrow> nat set" where
  "span a n = {unat a ..< unat a + 4096 * n}"

text \<open>The pages of a span, the pages of the kernel pool that are in use, and the pages that \<open>n\<close> bytes behind an arena
  header take.\<close>

definition page_span :: "addr \<Rightarrow> nat \<Rightarrow> nat set" where
  "page_span a n = {x \<in> span a n. 4096 dvd x}"

definition used_pages :: "phys \<Rightarrow> nat set" where
  "used_pages s = (\<lambda>i. unat (base (kernel_pool s)) + 4096 * i) ` {i. i < unat (bit_cnt (used_map (kernel_pool s))) \<and> bm_abs (used_map (kernel_pool s)) ! i}"

definition all_pages :: "phys \<Rightarrow> nat set" where
  "all_pages s = (\<lambda>i. unat (base (kernel_pool s)) + 4096 * i) ` {..<unat (bit_cnt (used_map (kernel_pool s)))}"

definition pages_for :: "nat \<Rightarrow> nat" where
  "pages_for n = (n + 4107) div 4096"

definition no_pages :: "phys \<Rightarrow> nat \<Rightarrow> bool" where
  "no_pages s n \<longleftrightarrow> \<not> (\<exists>i. group_at (bm_abs (used_map (kernel_pool s))) i n False)"

definition same_pool :: "phys \<Rightarrow> phys \<Rightarrow> bool" where
  "same_pool s s' \<longleftrightarrow> base (kernel_pool s') = base (kernel_pool s) \<and>
     bit_cnt (used_map (kernel_pool s')) = bit_cnt (used_map (kernel_pool s))"

lemma which_0 [simp]: "which 0 s = kernel_pool s" "set_which 0 p s = s\<lparr>kernel_pool := p\<rparr>"
  by (simp_all add: which_def set_which_def)

lemma length_used: "phys_ok s \<Longrightarrow> length (bm_abs (used_map (kernel_pool s))) = unat (bit_cnt (used_map (kernel_pool s)))"
  by simp

lemma span_idx:
  assumes "phys_ok s" and "page_in (kernel_pool s) a" and "page_in (kernel_pool s) b" and "0 < n" and "0 < m"
  shows "span a n \<inter> span b m = {} \<longleftrightarrow>
    page_idx (kernel_pool s) a + n \<le> page_idx (kernel_pool s) b \<or> page_idx (kernel_pool s) b + m \<le> page_idx (kernel_pool s) a"
proof -
  have k: "pool_ok (kernel_pool s)" using assms(1) by (simp add: phys_ok_def)
  note a = page_in_idx(2) [OF k assms(2)] note b = page_in_idx(2) [OF k assms(3)]
  have "span a n \<inter> span b m = {} \<longleftrightarrow> unat a + 4096 * n \<le> unat b \<or> unat b + 4096 * m \<le> unat a" (is "?l \<longleftrightarrow> ?r")
  proof
    assume d: ?l
    have "max (unat a) (unat b) \<notin> span a n \<inter> span b m" using d by blast
    then show ?r using assms(4,5) by (auto simp: span_def max_def split: if_splits)
  qed (auto simp: span_def)
  then show ?thesis unfolding a b by auto
qed

lemma heldD:
  assumes "phys_ok s" and "held s a n"
  shows "pg_ofs a = 0" "a \<noteq> NULL" "unat a + 4096 * n \<le> 2 ^ 32" "base (kernel_pool s) \<le> a"
proof -
  have k: "pool_ok (kernel_pool s)" using assms(1) by (simp add: phys_ok_def)
  have p: "page_in (kernel_pool s) a" "page_idx (kernel_pool s) a + n \<le> unat (bit_cnt (used_map (kernel_pool s)))"
    using assms(2) by (simp_all add: held_def)
  show "pg_ofs a = 0" "base (kernel_pool s) \<le> a" using p(1) by (simp_all add: page_in_def)
  show "a \<noteq> NULL" by (rule page_in_nonzero [OF k p(1)])
  have "4096 * page_idx (kernel_pool s) a + 4096 * n \<le> 4096 * unat (bit_cnt (used_map (kernel_pool s)))" using p(2) by simp
  then show "unat a + 4096 * n \<le> 2 ^ 32" using page_in_idx(2) [OF k p(1)] k by (simp add: pool_ok_def)
qed

lemma used_pages_cong: "kernel_pool s' = kernel_pool s \<Longrightarrow> used_pages s' = used_pages s"
  by (simp add: used_pages_def)

lemma all_pages_same: "same_pool s s' \<Longrightarrow> all_pages s' = all_pages s"
  by (simp add: all_pages_def same_pool_def)

lemma used_pages_sub: "used_pages s \<subseteq> all_pages s" "finite (all_pages s)"
  by (auto simp: used_pages_def all_pages_def)

lemma no_pages_1: "phys_ok s \<Longrightarrow> no_pages s 1 \<longleftrightarrow> all_pages s = used_pages s"
proof -
  assume s: "phys_ok s"
  let ?g = "\<lambda>i. unat (base (kernel_pool s)) + 4096 * i" and ?N = "unat (bit_cnt (used_map (kernel_pool s)))"
  have "inj ?g" by (simp add: inj_def)
  then have "all_pages s = used_pages s \<longleftrightarrow> {..<?N} = {i. i < ?N \<and> bm_abs (used_map (kernel_pool s)) ! i}"
    unfolding all_pages_def used_pages_def by (rule inj_image_eq_iff)
  also have "\<dots> \<longleftrightarrow> (\<forall>i<?N. bm_abs (used_map (kernel_pool s)) ! i)" by auto
  also have "\<dots> \<longleftrightarrow> no_pages s 1" using length_used [OF s] by (auto simp: no_pages_def group_at_def Suc_le_eq)
  finally show ?thesis ..
qed

lemma pages_for_small: "0 < n \<Longrightarrow> n \<le> 1024 \<Longrightarrow> pages_for n = 1"
  unfolding pages_for_def by (intro div_nat_eqI) auto

lemma page_span_idx:
  assumes "phys_ok s" and "page_in (kernel_pool s) a"
  shows "page_span a n = (\<lambda>i. unat (base (kernel_pool s)) + 4096 * i) ` {page_idx (kernel_pool s) a ..< page_idx (kernel_pool s) a + n}"
proof -
  have k: "pool_ok (kernel_pool s)" using assms(1) by (simp add: phys_ok_def)
  let ?b = "unat (base (kernel_pool s))" and ?i = "page_idx (kernel_pool s) a"
  note a = page_in_idx(2) [OF k assms(2)]
  have b: "4096 dvd ?b" using k by (simp add: pool_ok_def aligned_dvd)
  have "x \<in> page_span a n \<longleftrightarrow> x \<in> (\<lambda>i. ?b + 4096 * i) ` {?i ..< ?i + n}" for x
  proof
    assume x: "x \<in> page_span a n"
    then have "4096 dvd x - ?b" "?b \<le> x" using b a by (auto simp: page_span_def span_def intro: dvd_diff_nat)
    then obtain j where j: "x = ?b + 4096 * j" by (metis dvdE le_add_diff_inverse)
    then have "?i \<le> j" "j < ?i + n" using x a by (auto simp: page_span_def span_def)
    then show "x \<in> (\<lambda>i. ?b + 4096 * i) ` {?i ..< ?i + n}" using j by auto
  next
    assume "x \<in> (\<lambda>i. ?b + 4096 * i) ` {?i ..< ?i + n}"
    then obtain j where "?i \<le> j" "j < ?i + n" "x = ?b + 4096 * j" by auto
    then show "x \<in> page_span a n" using a b by (auto simp: page_span_def span_def)
  qed
  then show ?thesis by blast
qed

lemma used_pages_fill:
  assumes s: "phys_ok s" "phys_ok s'" "same_pool s s'" and a: "page_in (kernel_pool s) a"
    "page_idx (kernel_pool s) a + n \<le> unat (bit_cnt (used_map (kernel_pool s)))"
    and f: "bm_abs (used_map (kernel_pool s')) = fill (page_idx (kernel_pool s) a) n v (bm_abs (used_map (kernel_pool s)))"
  shows "used_pages s' = (if v then used_pages s \<union> page_span a n else used_pages s - page_span a n)"
proof -
  let ?k = "kernel_pool s" let ?N = "unat (bit_cnt (used_map ?k))" and ?g = "\<lambda>i. unat (base ?k) + 4096 * i"
  have i: "inj ?g" by (simp add: inj_def)
  have n: "bm_abs (used_map (kernel_pool s')) ! i = (if page_idx ?k a \<le> i \<and> i < page_idx ?k a + n then v else bm_abs (used_map ?k) ! i)" if "i < ?N" for i
    using f that a(2) length_used [OF s(1)] by (simp add: nth_fill)
  have "used_pages s' = ?g ` {i. i < ?N \<and> bm_abs (used_map (kernel_pool s')) ! i}" using s(3) by (simp add: used_pages_def same_pool_def)
  also have "{i. i < ?N \<and> bm_abs (used_map (kernel_pool s')) ! i} =
    (if v then {i. i < ?N \<and> bm_abs (used_map ?k) ! i} \<union> {page_idx ?k a ..< page_idx ?k a + n}
     else {i. i < ?N \<and> bm_abs (used_map ?k) ! i} - {page_idx ?k a ..< page_idx ?k a + n})"
    using n a(2) by (auto split: if_splits)
  finally show ?thesis unfolding page_span_idx [OF s(1) a(1)] used_pages_def by (simp add: image_Un image_set_diff [OF i])
qed

lemma held_used: "phys_ok s \<Longrightarrow> held s a n \<Longrightarrow> page_span a n \<subseteq> used_pages s"
proof -
  assume s: "phys_ok s" and h: "held s a n"
  have p: "page_in (kernel_pool s) a" "page_idx (kernel_pool s) a + n \<le> unat (bit_cnt (used_map (kernel_pool s)))"
    "\<And>j. j < n \<Longrightarrow> bm_abs (used_map (kernel_pool s)) ! (page_idx (kernel_pool s) a + j)" using h by (simp_all add: held_def)
  have "bm_abs (used_map (kernel_pool s)) ! i" if "page_idx (kernel_pool s) a \<le> i" "i < page_idx (kernel_pool s) a + n" for i
    using p(3) [of "i - page_idx (kernel_pool s) a"] that by simp
  then show ?thesis unfolding page_span_idx [OF s p(1)] used_pages_def using p(2) by auto
qed

lemma get_pages:
  assumes s: "phys_ok s" and g: "palloc_get_multiple 0 c s = Some (a, s')" "a \<noteq> 0"
  shows "phys_ok s'" "mem s' = mem s" "same_pool s s'" "held s' a (unat c)" "0 < unat c"
    "used_pages s' = used_pages s \<union> page_span a (unat c)" "used_pages s \<inter> page_span a (unat c) = {}"
    "\<And>b n. held s b n \<Longrightarrow> 0 < n \<Longrightarrow> held s' b n \<and> span a (unat c) \<inter> span b n = {}"
proof -
  let ?k = "kernel_pool s" and ?k' = "kernel_pool s'"
  note r = palloc_get_SomeD [OF s g, unfolded which_0]
  show po: "phys_ok s'" and "mem s' = mem s" and sp: "same_pool s s'" and "0 < unat c"
    using r by (simp_all add: same_pool_def unat_gt_0)
  have ix: "page_idx ?k' b = page_idx ?k b" "page_in ?k' b = page_in ?k b" for b using r(5,9) by (simp_all add: page_idx_def page_in_def)
  have ga: "group_at (bm_abs (used_map ?k)) (page_idx ?k a) (unat c) False" using r(4) by (simp add: group_free_def)
  then have l: "page_idx ?k a + unat c \<le> length (bm_abs (used_map ?k))" by (simp add: group_at_def)
  show "held s' a (unat c)" using r(3,7,9) ix l by (simp add: held_def nth_fill)
  have l': "page_idx ?k a + unat c \<le> unat (bit_cnt (used_map ?k))" using l length_used [OF s] by simp
  show "used_pages s' = used_pages s \<union> page_span a (unat c)" using used_pages_fill [OF s po sp r(3) l' r(7)] by simp
  show "used_pages s \<inter> page_span a (unat c) = {}"
    unfolding page_span_idx [OF s r(3)] used_pages_def using group_atD [OF ga] by auto
  fix b n assume h: "held s b n" "0 < n"
  have ba: "page_in ?k b" "page_idx ?k b + n \<le> length (bm_abs (used_map ?k))" "\<forall>j<n. bm_abs (used_map ?k) ! (page_idx ?k b + j)"
    using h by (simp_all add: held_def)
  have "page_idx ?k a + unat c \<le> page_idx ?k b \<or> page_idx ?k b + n \<le> page_idx ?k a"
  proof (rule ccontr)
    assume n: "\<not> ?thesis"
    define x where "x = max (page_idx ?k a) (page_idx ?k b)"
    have "page_idx ?k a \<le> x" "x < page_idx ?k a + unat c" "page_idx ?k b \<le> x" "x < page_idx ?k b + n" using n h(2) r(1)
      by (auto simp: x_def unat_gt_0)
    moreover from this have "x - page_idx ?k b < n" by linarith
    ultimately show False using group_atD [OF ga, of x] ba(3) [rule_format, of "x - page_idx ?k b"] by simp
  qed
  then have "span a (unat c) \<inter> span b n = {}" using span_idx [OF s r(3) ba(1) _ h(2)] r(1) by (simp add: unat_gt_0)
  moreover have "held s' b n" using ba ix l r(7,9) by (simp add: held_def nth_fill)
  ultimately show "held s' b n \<and> span a (unat c) \<inter> span b n = {}" by blast
qed

lemma get_pages_total: "phys_ok s \<Longrightarrow> \<exists>a s'. palloc_get_multiple 0 c s = Some (a, s') \<and> (a = 0 \<longrightarrow> s' = s)"
  using palloc_get_spec [of s c 0] by (cases "c = 0") (auto simp: palloc_get_multiple_def [of _ 0] split: if_splits)

lemma give_pages:
  assumes s: "phys_ok s" and h: "held s a (unat c)" "c \<noteq> 0"
  shows "\<exists>s'. palloc_free_multiple a c s = Some s' \<and> phys_ok s' \<and> same_pool s s' \<and>
    mem s' = mem_fill a (PGSIZE * c) 0xcccccccc (mem s) \<and> used_pages s' = used_pages s - page_span a (unat c) \<and>
    (\<forall>b n. held s b n \<and> 0 < n \<and> span a (unat c) \<inter> span b n = {} \<longrightarrow> held s' b n)"
proof -
  let ?k = "kernel_pool s"
  have p: "page_in ?k a" "page_idx ?k a + unat c \<le> unat (bit_cnt (used_map ?k))" "\<forall>j<unat c. bm_abs (used_map ?k) ! (page_idx ?k a + j)"
    using h(1) by (simp_all add: held_def)
  obtain q where q: "palloc_free_multiple a c s = Some (s\<lparr>kernel_pool := q, mem := mem_fill a (PGSIZE * c) 0xcccccccc (mem s)\<rparr>)"
    "pool_ok q" "base q = base ?k" "bit_cnt (used_map q) = bit_cnt (used_map ?k)"
    "bm_abs (used_map q) = fill (page_idx ?k a) (unat c) False (bm_abs (used_map ?k))"
    using palloc_free_spec [OF s, of 0 a c, unfolded which_0] p h(2) by auto
  let ?s = "s\<lparr>kernel_pool := q, mem := mem_fill a (PGSIZE * c) 0xcccccccc (mem s)\<rparr>"
  have po: "phys_ok ?s" and sp: "same_pool s ?s" using s q(2-4) by (simp_all add: phys_ok_def same_pool_def)
  have "used_pages ?s = used_pages s - page_span a (unat c)" using used_pages_fill [OF s po sp p(1,2)] q(5) by simp
  moreover have "held ?s b n" if b: "held s b n" "0 < n" "span a (unat c) \<inter> span b n = {}" for b n
  proof -
    have ba: "page_in ?k b" "page_idx ?k b + n \<le> unat (bit_cnt (used_map ?k))" "\<forall>j<n. bm_abs (used_map ?k) ! (page_idx ?k b + j)"
      using b(1) by (simp_all add: held_def)
    have "page_idx ?k a + unat c \<le> page_idx ?k b \<or> page_idx ?k b + n \<le> page_idx ?k a"
      using span_idx [OF s p(1) ba(1) _ b(2)] b(3) h(2) by (simp add: unat_gt_0)
    then show ?thesis using ba q p(2) by (auto simp: held_def page_in_def page_idx_def [of q] page_idx_def [of ?k] nth_fill)
  qed
  ultimately show ?thesis using q(1) po sp by auto
qed

section \<open>The invariant\<close>

text \<open>
  The arenas: \<open>ar a = Some (Inl i)\<close> is an arena of blocks for descriptor \<open>i\<close>, \<open>ar a = Some (Inr c)\<close> a big block of \<open>c\<close>
  pages.  \<open>f l\<close> are the elements of the free list at \<open>l\<close>.
\<close>

type_synonym arenas = "addr \<Rightarrow> (nat + u32) option"

definition pages_of :: "nat + u32 \<Rightarrow> nat" where
  "pages_of k = (case k of Inl i \<Rightarrow> 1 | Inr c \<Rightarrow> unat c)"

abbreviation fl :: "nat \<Rightarrow> addr" where
  "fl i \<equiv> free_list (desc_at i)"

definition free_lists :: "addr set" where
  "free_lists = fl ` {..<7}"

definition free_in :: "(addr \<Rightarrow> addr list) \<Rightarrow> nat \<Rightarrow> addr \<Rightarrow> nat" where
  "free_in f i a = length (filter (\<lambda>b. pg_round_down b = a) (f (fl i)))"

definition header_ok :: "mheap \<Rightarrow> (addr \<Rightarrow> addr list) \<Rightarrow> addr \<Rightarrow> nat + u32 \<Rightarrow> bool" where
  "header_ok s f a k \<longleftrightarrow> get_word (a_magic a) s = ARENA_MAGIC \<and>
     (case k of
        Inl i \<Rightarrow> i < 7 \<and> get_word (a_desc a) s = desc_at i \<and> get_word (a_free_cnt a) s = of_nat (free_in f i a)
      | Inr c \<Rightarrow> c \<noteq> 0 \<and> get_word (a_desc a) s = NULL \<and> get_word (a_free_cnt a) s = c)"

definition block_of :: "arenas \<Rightarrow> nat \<Rightarrow> addr \<Rightarrow> bool" where
  "block_of ar i b \<longleftrightarrow> (\<exists>a k. ar a = Some (Inl i) \<and> k < cnt i \<and> b = blk a i k)"

definition mem_inv :: "mheap \<Rightarrow> bool" where
  "mem_inv s \<longleftrightarrow> phys_ok (pal s) \<and> unat PHYS_BASE + 2 ^ 20 < unat (base (kernel_pool (pal s))) \<and> descs s = map mk_desc [0..<7]"

definition heap_inv :: "mheap \<Rightarrow> arenas \<Rightarrow> (addr \<Rightarrow> addr list) \<Rightarrow> bool" where
  "heap_inv s ar f \<longleftrightarrow> mem_inv s \<and> sys (links s) free_lists f \<and>
     (\<forall>a k. ar a = Some k \<longrightarrow> held (pal s) a (pages_of k) \<and> header_ok s f a k) \<and>
     (\<forall>a b j k. ar a = Some j \<longrightarrow> ar b = Some k \<longrightarrow> a \<noteq> b \<longrightarrow> span a (pages_of j) \<inter> span b (pages_of k) = {}) \<and>
     (\<forall>i<7. \<forall>b\<in>set (f (fl i)). block_of ar i b)"

text \<open>Between requests no arena is entirely unused.\<close>

definition heap_ok :: "mheap \<Rightarrow> arenas \<Rightarrow> (addr \<Rightarrow> addr list) \<Rightarrow> bool" where
  "heap_ok s ar f \<longleftrightarrow> heap_inv s ar f \<and> (\<forall>a i. ar a = Some (Inl i) \<longrightarrow> free_in f i a < cnt i)"

text \<open>The allocated blocks with their sizes.\<close>

definition allocated :: "arenas \<Rightarrow> (addr \<Rightarrow> addr list) \<Rightarrow> (addr \<times> nat) set" where
  "allocated ar f = {(b, bsz i) | b i. block_of ar i b \<and> b \<notin> set (f (fl i))} \<union> {(a + 12, 4096 * unat c - 12) | a c. ar a = Some (Inr c)}"

text \<open>The pages of the arenas; the pages in use that belong to no arena, and all pages of the pool.\<close>

definition arena_pages :: "arenas \<Rightarrow> nat set" where
  "arena_pages ar = (\<Union>a\<in>dom ar. page_span a (pages_of (the (ar a))))"

definition foreign :: "mheap \<Rightarrow> arenas \<Rightarrow> nat set \<times> nat set" where
  "foreign s ar = (used_pages (pal s) - arena_pages ar, all_pages (pal s))"

lemma arena_pages_iff: "x \<in> arena_pages ar \<longleftrightarrow> (\<exists>a k. ar a = Some k \<and> x \<in> page_span a (pages_of k))"
  unfolding arena_pages_def UN_iff Bex_def dom_def mem_Collect_eq by (metis option.collapse option.distinct(1) option.sel)

lemma foreign_cong: "kernel_pool (pal s') = kernel_pool (pal s) \<Longrightarrow> foreign s' ar = foreign s ar"
  unfolding foreign_def by (simp only: used_pages_cong [of "pal s'" "pal s"] all_pages_def)

lemma heap_invD:
  assumes "heap_inv s ar f"
  shows "mem_inv s" "sys (links s) free_lists f"
    "ar a = Some k \<Longrightarrow> held (pal s) a (pages_of k)" "ar a = Some k \<Longrightarrow> header_ok s f a k"
    "ar a = Some j \<Longrightarrow> ar b = Some k \<Longrightarrow> a \<noteq> b \<Longrightarrow> span a (pages_of j) \<inter> span b (pages_of k) = {}"
    "i < 7 \<Longrightarrow> b \<in> set (f (fl i)) \<Longrightarrow> block_of ar i b"
  using assms unfolding heap_inv_def by blast+

lemma mem_invD: "mem_inv s \<Longrightarrow> phys_ok (pal s)" "mem_inv s \<Longrightarrow> descs s = map mk_desc [0..<7]"
  by (simp_all add: mem_inv_def)

lemma arenaD:
  assumes "heap_inv s ar f" and "ar a = Some k"
  shows "pg_ofs a = 0" "a \<noteq> NULL" "0 < pages_of k" "unat a + 4096 * pages_of k \<le> 2 ^ 32" "unat PHYS_BASE + 2 ^ 20 < unat a"
proof -
  note m = heap_invD(1) [OF assms(1)]
  note h = heldD [OF mem_invD(1) [OF m] heap_invD(3) [OF assms]]
  show "pg_ofs a = 0" "a \<noteq> NULL" "unat a + 4096 * pages_of k \<le> 2 ^ 32" by (rule h(1), rule h(2), rule h(3))
  show "0 < pages_of k" using heap_invD(4) [OF assms] by (auto simp: header_ok_def pages_of_def unat_gt_0 split: sum.splits)
  have "unat (base (kernel_pool (pal s))) \<le> unat a" using h(4) by (simp add: word_le_nat_alt)
  moreover have "unat PHYS_BASE + 2 ^ 20 < unat (base (kernel_pool (pal s)))" using m by (simp add: mem_inv_def)
  ultimately show "unat PHYS_BASE + 2 ^ 20 < unat a" by (rule less_le_trans [rotated])
qed

lemma arena_idx: "heap_inv s ar f \<Longrightarrow> ar a = Some (Inl i) \<Longrightarrow> i < 7"
  using heap_invD(4) [of s ar f a "Inl i"] by (simp add: header_ok_def)

lemma fl_simps: "fl i = DESCS + 48 * of_nat i + 8"
  by (simp add: free_list_def desc_at_def DESC_SIZE_def)

lemma fl_addr:
  assumes "i < 7"
  shows "unat (fl i) = 0xc0031008 + 48 * i" "unat (tail_of (fl i)) = 0xc0031010 + 48 * i" "fl i \<in> free_lists" "desc_at i \<noteq> NULL"
proof -
  show "unat (fl i) = 0xc0031008 + 48 * i" "unat (tail_of (fl i)) = 0xc0031010 + 48 * i" "desc_at i \<noteq> NULL"
    using seven [OF assms] by (elim disjE; simp add: fl_simps tail_of_def DESCS_def desc_at_def DESC_SIZE_def free_list_def)+
  show "fl i \<in> free_lists" using assms by (simp add: free_lists_def)
qed

lemma fl_inj:
  assumes "i < 7" "j < 7"
  shows "fl i = fl j \<longleftrightarrow> i = j"
proof
  assume "fl i = fl j"
  then have "unat (fl i) = unat (fl j)" by (rule arg_cong)
  then show "i = j" unfolding fl_addr(1) [OF assms(1)] fl_addr(1) [OF assms(2)] by linarith
qed simp

section \<open>Headers and blocks\<close>

lemma word_simps [simp]:
  "get_word x (s\<lparr>links := h\<rparr>) = get_word x s" "get_word x (set_word y w s) = (if x = y then w else get_word x s)"
  "links (set_word y w s) = links s" "descs (set_word y w s) = descs s"
  "kernel_pool (pal (set_word y w s)) = kernel_pool (pal s)" "user_pool (pal (set_word y w s)) = user_pool (pal s)"
  by (simp_all add: get_word_def set_word_def)

lemma held_cong: "kernel_pool p' = kernel_pool p \<Longrightarrow> held p' a n = held p a n"
  by (simp add: held_def)

lemma phys_ok_cong: "kernel_pool p' = kernel_pool p \<Longrightarrow> user_pool p' = user_pool p \<Longrightarrow> phys_ok p' = phys_ok p"
  by (simp add: phys_ok_def)

lemma mem_inv_simps [simp]: "mem_inv (s\<lparr>links := h\<rparr>) = mem_inv s" "mem_inv (set_word x w s) = mem_inv s"
  by (simp_all add: mem_inv_def phys_ok_cong [of "pal (set_word x w s)" "pal s"])

lemma header_words:
  assumes "pg_ofs a = 0" "pg_ofs b = 0" "a \<noteq> b"
  shows "a_magic a \<noteq> a_free_cnt b" "a_desc a \<noteq> a_free_cnt b" "a_free_cnt a \<noteq> a_free_cnt b" "a_magic a \<noteq> a_magic b" "a_desc a \<noteq> a_magic b"
    "a_free_cnt a \<noteq> a_magic b" "a_magic a \<noteq> a_desc b" "a_desc a \<noteq> a_desc b" "a_free_cnt a \<noteq> a_desc b"
proof -
  have "a + of_nat n \<noteq> b + of_nat m" if "n < 4096" "m < 4096" for n m
    using page_ofs_addr(2) [OF assms(1) that(1)] page_ofs_addr(2) [OF assms(2) that(2)] assms(3) by metis
  from this [of 0 8] this [of 4 8] this [of 8 8] this [of 0 0] this [of 4 0] this [of 8 0] this [of 0 4] this [of 4 4] this [of 8 4]
  show "a_magic a \<noteq> a_free_cnt b" "a_desc a \<noteq> a_free_cnt b" "a_free_cnt a \<noteq> a_free_cnt b" "a_magic a \<noteq> a_magic b" "a_desc a \<noteq> a_magic b"
    "a_free_cnt a \<noteq> a_magic b" "a_magic a \<noteq> a_desc b" "a_desc a \<noteq> a_desc b" "a_free_cnt a \<noteq> a_desc b"
    by (simp_all add: a_magic_def a_desc_def a_free_cnt_def)
qed

lemma header_words_same [simp]: "a_magic a \<noteq> a_free_cnt a" "a_desc a \<noteq> a_free_cnt a" "a_magic a \<noteq> a_desc a"
  by (simp_all add: a_magic_def a_desc_def a_free_cnt_def)

lemma cnt_word:
  assumes "pg_ofs a = 0" "pg_ofs b = 0"
  shows "a_magic a \<noteq> a_free_cnt b" "a_desc a \<noteq> a_free_cnt b" "a \<noteq> b \<Longrightarrow> a_free_cnt a \<noteq> a_free_cnt b"
  using header_words(1-3) [OF assms] by (cases "a = b"; simp)+

lemma block_ofD:
  assumes "heap_inv s ar f" and "block_of ar i b"
  shows "ar (pg_round_down b) = Some (Inl i)" "i < 7" "\<exists>k<cnt i. b = blk (pg_round_down b) i k"
    "unat (pg_round_down b) + 12 \<le> unat b" "unat b + bsz i \<le> unat (pg_round_down b) + 4096"
proof -
  obtain a k where a: "ar a = Some (Inl i)" "k < cnt i" "b = blk a i k" using assms(2) by (auto simp: block_of_def)
  show i: "i < 7" by (rule arena_idx [OF assms(1) a(1)])
  note p = blk_page [OF arenaD(1) [OF assms(1) a(1)] a(2) i]
  have ra: "pg_round_down b = a" using p(2) a(3) by simp
  then show "ar (pg_round_down b) = Some (Inl i)" "\<exists>k<cnt i. b = blk (pg_round_down b) i k" using a by auto
  show "unat (pg_round_down b) + 12 \<le> unat b" "unat b + bsz i \<le> unat (pg_round_down b) + 4096"
    unfolding ra using p(1) blk_fits [OF a(2)] a(3) by simp_all
qed

lemma block_of_unique: "heap_inv s ar f \<Longrightarrow> block_of ar i b \<Longrightarrow> block_of ar j b \<Longrightarrow> i = j"
  using block_ofD(1) [of s ar f i b] block_ofD(1) [of s ar f j b] by simp

lemma blk_conv: "blk a i k = a + ARENA_SIZE + of_nat k * of_nat (bsz i)"
  by (simp add: blk_def ARENA_SIZE_def)

lemma arena_to_block_ok:
  assumes "a \<noteq> NULL" "get_word (a_magic a) s = ARENA_MAGIC" "get_word (a_desc a) s = desc_at i" "i < 7" "descs s = map mk_desc [0..<7]" "k < cnt i"
  shows "arena_to_block a (of_nat k) s = Some (blk a i k)"
proof -
  have "(of_nat k :: u32) < of_nat (cnt i)" using assms(6) bsz_bounds [OF assms(4)] by (simp add: word_less_nat_alt unat_of_nat32)
  then show ?thesis using assms get_desc_at [OF assms(4,5)] by (simp add: arena_to_block_def mk_desc_def blk_conv)
qed

lemma block_to_arena_ok:
  assumes "pg_ofs a = 0" "a \<noteq> NULL" "get_word (a_magic a) s = ARENA_MAGIC" "get_word (a_desc a) s = desc_at i" "i < 7" "descs s = map mk_desc [0..<7]" "k < cnt i"
  shows "block_to_arena (blk a i k) s = Some a"
proof -
  note p = blk_page [OF assms(1,7,5)]
  have z: "of_nat (12 + k * bsz i) - ARENA_SIZE = (of_nat (k * bsz i) :: u32)" by (simp add: ARENA_SIZE_def)
  have "k * bsz i < 2 ^ 32" "bsz i < 2 ^ 32" using blk_fits [OF assms(7)] bsz_bounds [OF assms(5)] by simp_all
  then have "(of_nat (k * bsz i) :: u32) mod of_nat (bsz i) = 0"
    unfolding word_unat_eq_iff unat_mod by (simp only: unat_of_nat32) simp
  then show ?thesis
    using assms p(2,3) get_desc_at [OF assms(5,6)] fl_addr(4) [OF assms(5)] z by (simp add: block_to_arena_def mk_desc_def del: of_nat_add of_nat_mult)
qed

lemma outside_block:
  assumes "unat PHYS_BASE + 2 ^ 20 < unat b" and "\<And>i. i < 7 \<Longrightarrow> b \<notin> set (f (fl i))"
  shows "outside free_lists f b" "b \<noteq> NULL"
proof -
  have "b \<noteq> fl i" "b \<noteq> tail_of (fl i)" if "i < 7" for i
    using fl_addr(1,2) [OF that] assms(1) that by (auto simp: PHYS_BASE_def)
  then show "outside free_lists f b" using assms(2) by (auto simp: outside_def free_lists_def nodes_def head_of_def)
  show "b \<noteq> NULL" using assms(1) by auto
qed

lemma free_in_upd: "i < 7 \<Longrightarrow> j < 7 \<Longrightarrow> free_in (f(fl i := xs)) j a = (if i = j then length (filter (\<lambda>b. pg_round_down b = a) xs) else free_in f j a)"
  by (simp add: free_in_def fl_inj)

text \<open>Changing one free list and the count of one arena.\<close>

lemma heap_inv_step:
  assumes h: "heap_inv s ar f" and a: "ar a = Some (Inl i)" and y: "sys lk free_lists (f(fl i := xs))"
    and b: "\<And>b. b \<in> set xs \<Longrightarrow> block_of ar i b"
    and o: "\<And>c. c \<noteq> a \<Longrightarrow> filter (\<lambda>b. pg_round_down b = c) xs = filter (\<lambda>b. pg_round_down b = c) (f (fl i))"
    and mi: "mem_inv s'" and pl: "kernel_pool (pal s') = kernel_pool (pal s)" and lk: "links s' = lk"
    and m: "\<And>c k. ar c = Some k \<Longrightarrow> get_word (a_magic c) s' = get_word (a_magic c) s \<and> get_word (a_desc c) s' = get_word (a_desc c) s \<and>
       (c \<noteq> a \<longrightarrow> get_word (a_free_cnt c) s' = get_word (a_free_cnt c) s)"
    and n: "get_word (a_free_cnt a) s' = of_nat (length (filter (\<lambda>b. pg_round_down b = a) xs))"
  shows "heap_inv s' ar (f(fl i := xs))"
proof -
  have i: "i < 7" by (rule arena_idx [OF h a])
  have hd: "header_ok s' (f(fl i := xs)) c k" if c: "ar c = Some k" for c k
  proof -
    note hk = heap_invD(4) [OF h c] note mc = m [OF c]
    show ?thesis
    proof (cases k)
      case (Inl j)
      have j: "j < 7" using arena_idx [OF h] c Inl by simp
      have "free_in (f(fl i := xs)) j c = (if c = a then length (filter (\<lambda>b. pg_round_down b = a) xs) else free_in f j c)"
        using free_in_upd [OF i j] o [of c] a c Inl by (auto simp: free_in_def)
      then show ?thesis using hk mc n Inl by (auto simp: header_ok_def)
    next
      case (Inr cc)
      then have "c \<noteq> a" using a c by auto
      then show ?thesis using hk mc Inr by (simp add: header_ok_def)
    qed
  qed
  have "held (pal s') c (pages_of k)" if "ar c = Some k" for c k using heap_invD(3) [OF h that] held_cong [OF pl] by simp
  moreover have "block_of ar j b" if "j < 7" "b \<in> set ((f(fl i := xs)) (fl j))" for j b
    using that b heap_invD(6) [OF h that(1)] fl_inj [OF i that(1)] by (auto split: if_splits)
  ultimately show ?thesis using hd mi y lk heap_invD(5) [OF h] unfolding heap_inv_def by blast
qed

lemma take_block_ok:
  assumes h: "heap_inv s ar f" and i: "i < 7" and b: "f (fl i) = b # bs"
  shows "\<exists>s'. take_block (desc_at i) s = Some (b, s') \<and> heap_inv s' ar (f(fl i := bs)) \<and>
    kernel_pool (pal s') = kernel_pool (pal s) \<and> (\<forall>x. x \<noteq> a_free_cnt (pg_round_down b) \<longrightarrow> get_word x s' = get_word x s)"
proof -
  let ?a = "pg_round_down b"
  have bo: "block_of ar i b" using heap_invD(6) [OF h i] b by simp
  note ba = block_ofD [OF h bo]
  obtain k where k: "k < cnt i" "b = blk ?a i k" using ba(3) by blast
  note hd = heap_invD(4) [OF h ba(1), unfolded header_ok_def]
  have l: "fl i \<in> free_lists" using fl_addr(3) [OF i] .
  have pop: "list_pop_front (links s) (fl i) = (case list_remove (links s) b of None \<Rightarrow> None | Some (_, h') \<Rightarrow> Some (b, h'))"
    using list_front_dll [OF sys_dll [OF heap_invD(2) [OF h] l]] b by (auto simp: list_pop_front_def split: option.splits)
  obtain lk where lk: "list_remove (links s) b = Some (hd (bs @ [tail_of (fl i)]), lk)" "sys lk free_lists (f(fl i := bs))"
    using sys_remove [OF heap_invD(2) [OF h] l, of "[]" b bs] b by auto
  let ?s1 = "s\<lparr>links := lk\<rparr>"
  have bta: "block_to_arena b ?s1 = Some ?a"
    by (subst k(2), rule block_to_arena_ok [OF arenaD(1,2) [OF h ba(1)] _ _ i _ k(1)])
      (use hd mem_invD(2) [OF heap_invD(1) [OF h]] in simp_all)
  let ?s2 = "set_word (a_free_cnt ?a) (get_word (a_free_cnt ?a) ?s1 - 1) ?s1"
  have tk: "take_block (desc_at i) s = Some (b, ?s2)" using pop lk(1) bta by (simp add: take_block_def Let_def)
  have "get_word (a_free_cnt ?a) ?s2 = of_nat (length (filter (\<lambda>x. pg_round_down x = ?a) bs))"
    using hd b by (simp add: free_in_def)
  moreover have "mem_inv ?s2" using heap_invD(1) [OF h] by simp
  ultimately have "heap_inv ?s2 ar (f(fl i := bs))"
    using cnt_word [OF arenaD(1) [OF h] arenaD(1) [OF h ba(1)]] heap_invD(6) [OF h i] b
    by (intro heap_inv_step [OF h ba(1) lk(2)]) auto
  then show ?thesis using tk by auto
qed

section \<open>New arenas\<close>

lemma push_blocks_ok:
  assumes "a \<noteq> NULL" "pg_ofs a = 0" "unat PHYS_BASE + 2 ^ 20 < unat a" "i < 7"
  shows "get_word (a_magic a) s = ARENA_MAGIC \<Longrightarrow> get_word (a_desc a) s = desc_at i \<Longrightarrow> descs s = map mk_desc [0..<7] \<Longrightarrow>
    sys (links s) free_lists f \<Longrightarrow> (\<And>j b. j < 7 \<Longrightarrow> b \<in> set (f (fl j)) \<Longrightarrow> pg_round_down b = a \<Longrightarrow> j = i \<and> b \<in> blk a i ` {..<k}) \<Longrightarrow>
    k + n = cnt i \<Longrightarrow>
    \<exists>h. push_blocks n (of_nat k) a (desc_at i) s = Some (s\<lparr>links := h\<rparr>) \<and> sys h free_lists (f(fl i := f (fl i) @ map (blk a i) [k..<cnt i]))"
proof (induction n arbitrary: k s f)
  case 0
  then show ?case by (intro exI [of _ "links s"]) simp
next
  case (Suc n)
  let ?b = "blk a i k"
  have k: "k < cnt i" using Suc.prems(6) by simp
  note p = blk_page [OF assms(2) k assms(4)]
  have new: "?b \<notin> set (f (fl j))" if "j < 7" for j
  proof
    assume "?b \<in> set (f (fl j))"
    then have "?b \<in> blk a i ` {..<k}" using Suc.prems(5) [OF that] p(2) by blast
    then obtain x where x: "x < k" "blk a i k = blk a i x" by auto
    then show False using blk_inj [OF assms(2) k _ assms(4), of x] k by simp
  qed
  have out: "outside free_lists f ?b" "?b \<noteq> NULL" by (rule outside_block; use assms(3) p(1) new in simp)+
  obtain h where h: "list_push_back (links s) (fl i) ?b = Some h" "sys h free_lists (f(fl i := f (fl i) @ [?b]))"
    using sys_push_back [OF Suc.prems(4) fl_addr(3) [OF assms(4)] out] by blast
  let ?f = "f(fl i := f (fl i) @ [?b])"
  have "\<exists>h'. push_blocks n (of_nat (Suc k)) a (desc_at i) (s\<lparr>links := h\<rparr>) = Some (s\<lparr>links := h, links := h'\<rparr>) \<and>
    sys h' free_lists (?f(fl i := ?f (fl i) @ map (blk a i) [Suc k..<cnt i]))"
  proof (rule Suc.IH [where f = ?f])
    fix j b assume j: "j < 7" and b: "b \<in> set (?f (fl j))" "pg_round_down b = a"
    show "j = i \<and> b \<in> blk a i ` {..<Suc k}"
      using b Suc.prems(5) [OF j _ b(2)] fl_inj [OF assms(4) j] by (auto split: if_splits simp: lessThan_Suc)
  qed (use Suc.prems h in \<open>simp_all add: fun_upd_def\<close>)
  then obtain h' where h': "push_blocks n (of_nat (Suc k)) a (desc_at i) (s\<lparr>links := h\<rparr>) = Some (s\<lparr>links := h'\<rparr>)"
    "sys h' free_lists (f(fl i := f (fl i) @ ?b # map (blk a i) [Suc k..<cnt i]))" by auto
  have "[k..<cnt i] = k # [Suc k..<cnt i]" using k by (simp add: upt_conv_Cons)
  then show ?case
    using h(1) h' arena_to_block_ok [OF assms(1) Suc.prems(1,2) assms(4) Suc.prems(3) k] by (intro exI [of _ h']) (simp add: add.commute fun_upd_def)
qed

lemma init_arena_words:
  assumes "pg_ofs a = 0"
  shows "get_word (a_magic a) (init_arena a d n s) = ARENA_MAGIC" "get_word (a_desc a) (init_arena a d n s) = d"
    "get_word (a_free_cnt a) (init_arena a d n s) = n"
    "pg_ofs c = 0 \<Longrightarrow> c \<noteq> a \<Longrightarrow> get_word (a_magic c) (init_arena a d n s) = get_word (a_magic c) s \<and>
       get_word (a_desc c) (init_arena a d n s) = get_word (a_desc c) s \<and> get_word (a_free_cnt c) (init_arena a d n s) = get_word (a_free_cnt c) s"
    "links (init_arena a d n s) = links s" "descs (init_arena a d n s) = descs s" "mem_inv (init_arena a d n s) = mem_inv s"
    "kernel_pool (pal (init_arena a d n s)) = kernel_pool (pal s)"
    "x \<notin> {a_magic a, a_desc a, a_free_cnt a} \<Longrightarrow> get_word x (init_arena a d n s) = get_word x s"
  using header_words_same [of a] header_words [OF _ assms, of c] by (auto simp: init_arena_def)

lemma fresh_pages:
  assumes h: "heap_inv s ar f" and g: "palloc_get_multiple 0 c (pal s) = Some (a, p)" "a \<noteq> NULL"
  shows "ar a = None" "ar b = Some j \<Longrightarrow> held p b (pages_of j) \<and> span a (unat c) \<inter> span b (pages_of j) = {}" "held p a (unat c)"
    "mem_inv (s\<lparr>pal := p\<rparr>)" "get_word x (s\<lparr>pal := p\<rparr>) = get_word x s" "pg_ofs a = 0" "unat PHYS_BASE + 2 ^ 20 < unat a"
    "unat a + 4096 * unat c \<le> 2 ^ 32"
proof -
  note mi = heap_invD(1) [OF h]
  note gp = get_pages [OF mem_invD(1) [OF mi] g]
  show new: "held p b (pages_of j) \<and> span a (unat c) \<inter> span b (pages_of j) = {}" if "ar b = Some j" for b j
    using gp(8) [OF heap_invD(3) [OF h that] arenaD(3) [OF h that]] by simp
  show "ar a = None"
  proof (rule ccontr)
    assume "ar a \<noteq> None"
    then obtain j where j: "ar a = Some j" by auto
    show False using new [OF j] arenaD(3) [OF h j] gp(5) by (auto simp: span_def)
  qed
  show "held p a (unat c)" by (rule gp(4))
  show m': "mem_inv (s\<lparr>pal := p\<rparr>)" using mi gp(1,3) by (simp add: mem_inv_def same_pool_def)
  show "get_word x (s\<lparr>pal := p\<rparr>) = get_word x s" using gp(2) by (simp add: get_word_def)
  note hd = heldD [OF gp(1) gp(4)]
  show "pg_ofs a = 0" "unat a + 4096 * unat c \<le> 2 ^ 32" by (rule hd(1), rule hd(3))
  have "unat (base (kernel_pool p)) \<le> unat a" using hd(4) by (simp add: word_le_nat_alt)
  then show "unat PHYS_BASE + 2 ^ 20 < unat a" using m' by (auto simp: mem_inv_def elim: less_le_trans)
qed

text \<open>Adding an arena.\<close>

lemma foreign_new:
  assumes h: "heap_inv s ar f" and g: "palloc_get_multiple 0 c (pal s) = Some (a, p)" "a \<noteq> NULL" and c: "pages_of k = unat c"
    and s': "kernel_pool (pal s') = kernel_pool p"
  shows "foreign s' (ar(a := Some k)) = foreign s ar"
proof -
  note gp = get_pages [OF mem_invD(1) [OF heap_invD(1) [OF h]] g]
  have "x \<in> arena_pages (ar(a := Some k)) \<longleftrightarrow> x \<in> arena_pages ar \<or> x \<in> page_span a (unat c)" for x
    unfolding arena_pages_iff fun_upd_apply using fresh_pages(1) [OF h g] c by (metis option.distinct(1) option.inject)
  then have "used_pages p - arena_pages (ar(a := Some k)) = used_pages (pal s) - arena_pages ar" unfolding gp(6) using gp(7) by blast
  moreover have "all_pages (pal s') = all_pages (pal s)" using all_pages_same [OF gp(3)] s' by (simp add: all_pages_def)
  ultimately show ?thesis unfolding foreign_def used_pages_cong [OF s'] by simp
qed

lemma heap_inv_new:
  assumes h: "heap_inv s ar f" and g: "palloc_get_multiple 0 c (pal s) = Some (a, p)" "a \<noteq> NULL" and c: "pages_of k = unat c"
    and s': "mem_inv s'" "kernel_pool (pal s') = kernel_pool p" "header_ok s' f' a k"
    and m: "\<And>b. pg_ofs b = 0 \<Longrightarrow> b \<noteq> a \<Longrightarrow> get_word (a_magic b) s' = get_word (a_magic b) s \<and> get_word (a_desc b) s' = get_word (a_desc b) s \<and>
       get_word (a_free_cnt b) s' = get_word (a_free_cnt b) s"
    and y: "sys (links s') free_lists f'" and b: "\<And>i b. i < 7 \<Longrightarrow> b \<in> set (f' (fl i)) \<Longrightarrow> block_of (ar(a := Some k)) i b"
    and o: "\<And>i b. i < 7 \<Longrightarrow> b \<noteq> a \<Longrightarrow> free_in f' i b = free_in f i b"
  shows "heap_inv s' (ar(a := Some k)) f'"
proof -
  note new = fresh_pages [OF h g]
  have "header_ok s' f' b j" if "ar b = Some j" for b j
  proof -
    have "b \<noteq> a" using that new(1) by auto
    then show ?thesis using heap_invD(4) [OF h that] m [OF arenaD(1) [OF h that]] o by (auto simp: header_ok_def split: sum.splits)
  qed
  moreover have "held (pal s') b (pages_of j)" if "(ar(a := Some k)) b = Some j" for b j
    using that new c held_cong [OF s'(2)] by (auto split: if_splits)
  moreover have "span b (pages_of j) \<inter> span b' (pages_of j') = {}"
    if "(ar(a := Some k)) b = Some j" "(ar(a := Some k)) b' = Some j'" "b \<noteq> b'" for b b' j j'
    using that new(2) c heap_invD(5) [OF h] by (auto simp: Int_commute split: if_splits)
  ultimately show "heap_inv s' (ar(a := Some k)) f'"
    using s' y b unfolding heap_inv_def by (auto split: if_splits)
qed

lemma filter_blks:
  assumes "pg_ofs a = 0" and "i < 7"
  shows "filter (\<lambda>b. pg_round_down b = c) (map (blk a i) [0..<cnt i]) = (if c = a then map (blk a i) [0..<cnt i] else [])"
  using blk_page(2) [OF assms(1) _ assms(2)] by (auto simp: filter_empty_conv filter_id_conv)

lemma new_arena_ok:
  assumes h: "heap_inv s ar f" and i: "i < 7" and e: "f (fl i) = []"
  shows "new_arena (desc_at i) s = Some (False, s) \<and> no_pages (pal s) 1 \<or>
    (\<exists>a s'. new_arena (desc_at i) s = Some (True, s') \<and> foreign s' (ar(a := Some (Inl i))) = foreign s ar \<and> heap_inv s' (ar(a := Some (Inl i))) (f(fl i := map (blk a i) [0..<cnt i])) \<and>
       ar a = None \<and> pg_ofs a = 0 \<and> (\<forall>x. x \<notin> {a_magic a, a_desc a, a_free_cnt a} \<longrightarrow> get_word x s' = get_word x s))"
proof -
  obtain a p where g: "palloc_get_multiple 0 1 (pal s) = Some (a, p)" "a = 0 \<longrightarrow> p = pal s"
    using get_pages_total [OF mem_invD(1) [OF heap_invD(1) [OF h]]] by blast
  show ?thesis
  proof (cases "a = NULL")
    case True
    have "no_pages (pal s) 1"
      using palloc_get_spec [OF mem_invD(1) [OF heap_invD(1) [OF h]], of 1 0] g(1) True by (auto simp: no_pages_def split: if_splits)
    then show ?thesis using g True by (simp add: new_arena_def palloc_get_page_def)
  next
    case False
    note new = fresh_pages [OF h g(1) False]
    note ds = mem_invD(2) [OF new(4)]
    let ?s1 = "init_arena a (desc_at i) (of_nat (cnt i)) (s\<lparr>pal := p\<rparr>)" and ?f = "f(fl i := map (blk a i) [0..<cnt i])"
    note w = init_arena_words [OF new(6), where d = "desc_at i" and n = "of_nat (cnt i)" and s = "s\<lparr>pal := p\<rparr>"]
    have no: "pg_round_down b \<noteq> a" if "j < 7" "b \<in> set (f (fl j))" for j b
      using block_ofD(1) [OF h heap_invD(6) [OF h that]] new(1) by auto
    have "\<exists>h. push_blocks (cnt i) (of_nat 0) a (desc_at i) ?s1 = Some (?s1\<lparr>links := h\<rparr>) \<and> sys h free_lists (f(fl i := f (fl i) @ map (blk a i) [0..<cnt i]))"
      by (rule push_blocks_ok [OF False new(6,7) i]) (use w ds no heap_invD(2) [OF h] in auto)
    then obtain lk where lk: "push_blocks (cnt i) 0 a (desc_at i) ?s1 = Some (?s1\<lparr>links := lk\<rparr>)" "sys lk free_lists ?f" using e by auto
    let ?s2 = "?s1\<lparr>links := lk\<rparr>"
    have "unat (of_nat (cnt i) :: u32) = cnt i" using bsz_bounds [OF i] by (simp add: unat_of_nat32)
    then have na: "new_arena (desc_at i) s = Some (True, ?s2)"
      using g False lk get_desc_at [OF i ds] by (simp add: new_arena_def palloc_get_page_def mk_desc_def Let_def)
    have fi: "free_in ?f j b = (if j = i \<and> b = a then cnt i else free_in f j b)" if "j < 7" for j b
      unfolding free_in_upd [OF i that] filter_blks [OF new(6) i] using e by (auto simp: free_in_def)
    have "foreign ?s2 (ar(a := Some (Inl i))) = foreign s ar" by (rule foreign_new [OF h g(1) False]) (use w in \<open>simp_all add: pages_of_def\<close>)
    moreover have "heap_inv ?s2 (ar(a := Some (Inl i))) ?f"
    proof (rule heap_inv_new [OF h g(1) False])
      show "pages_of (Inl i) = unat (1 :: u32)" by (simp add: pages_of_def)
      show "mem_inv ?s2" using new(4) w by simp
      show "header_ok ?s2 ?f a (Inl i)" using w fi [OF i] i by (simp add: header_ok_def)
      show "block_of (ar(a := Some (Inl i))) j b" if "j < 7" "b \<in> set (?f (fl j))" for j b
      proof (cases "j = i")
        case True
        then show ?thesis using that by (auto simp: block_of_def intro!: exI [of _ a])
      next
        case False
        then have "block_of ar j b" using that heap_invD(6) [OF h that(1)] fl_inj [OF i that(1)] by (auto split: if_splits)
        then show ?thesis using new(1) unfolding block_of_def by (metis fun_upd_apply option.distinct(1))
      qed
    qed (use w new(5) lk(2) fi in auto)
    moreover have "\<forall>x. x \<notin> {a_magic a, a_desc a, a_free_cnt a} \<longrightarrow> get_word x ?s2 = get_word x s" using w(9) new(5) by simp
    ultimately show ?thesis using na new(1,6) by blast
  qed
qed

section \<open>Requests\<close>

text \<open>The words of the allocated blocks are not header words, and the blocks are disjoint.\<close>

lemma allocated_cases:
  assumes "(b, n) \<in> allocated ar f"
  obtains (small) i where "block_of ar i b" "b \<notin> set (f (fl i))" "n = bsz i"
    | (big) a c where "ar a = Some (Inr c)" "b = a + 12" "n = 4096 * unat c - 12"
  using assms by (auto simp: allocated_def)

lemma allocated_iff:
  "(b, n) \<in> allocated ar f \<longleftrightarrow> (\<exists>i. block_of ar i b \<and> b \<notin> set (f (fl i)) \<and> n = bsz i) \<or>
     (\<exists>a c. ar a = Some (Inr c) \<and> b = a + 12 \<and> n = 4096 * unat c - 12)"
  by (auto simp: allocated_def)

definition within :: "addr \<Rightarrow> addr \<Rightarrow> nat \<Rightarrow> bool" where
  "within x b n \<longleftrightarrow> unat b \<le> unat x \<and> unat x < unat b + n"

lemma allocated_arena:
  assumes h: "heap_inv s ar f" and b: "(b, n) \<in> allocated ar g"
  shows "\<exists>k. ar (pg_round_down b) = Some k \<and> unat (pg_round_down b) + 12 \<le> unat b \<and> unat b + n \<le> unat (pg_round_down b) + 4096 * pages_of k \<and>
    (case k of Inl i \<Rightarrow> block_of ar i b \<and> n = bsz i \<and> b \<notin> set (g (fl i)) | Inr c \<Rightarrow> b = pg_round_down b + 12 \<and> n = 4096 * unat c - 12)"
  using b
proof (cases rule: allocated_cases)
  case (small i)
  then show ?thesis using block_ofD [OF h small(1)] by (auto simp: pages_of_def)
next
  case (big a c)
  note p = page_ofs_addr [OF arenaD(1) [OF h big(1)], of 12, simplified]
  have "0 < unat c" using arenaD(3) [OF h big(1)] by (simp add: pages_of_def)
  then show ?thesis using big p by (auto simp: pages_of_def)
qed

lemma allocated_size:
  assumes "heap_inv s ar f" and "(b, n) \<in> allocated ar f"
  shows "ar (pg_round_down b) = Some (Inl i) \<Longrightarrow> n = bsz i" "ar (pg_round_down b) = Some (Inr c) \<Longrightarrow> n = 4096 * unat c - 12"
    "\<exists>k. ar (pg_round_down b) = Some k"
  using allocated_arena [OF assms] by auto

lemma allocated_unique:
  assumes "heap_inv s ar f" and "(b, n) \<in> allocated ar f" and "(b, m) \<in> allocated ar f"
  shows "n = m"
proof -
  obtain k where "ar (pg_round_down b) = Some k" using allocated_size(3) [OF assms(1,2)] by blast
  then show ?thesis using allocated_size(1,2) [OF assms(1,2)] allocated_size(1,2) [OF assms(1,3)] by (cases k) auto
qed

lemma allocated_header:
  assumes h: "heap_inv s ar f" and b: "(b, n) \<in> allocated ar f" and x: "within x b n" and a: "ar a = Some k"
  shows "x \<notin> {a_magic a, a_desc a, a_free_cnt a}"
proof -
  let ?c = "pg_round_down b"
  obtain j where j: "ar ?c = Some j" "unat ?c + 12 \<le> unat b" "unat b + n \<le> unat ?c + 4096 * pages_of j"
    using allocated_arena [OF h b] by blast
  have x: "unat ?c + 12 \<le> unat x" "unat x < unat ?c + 4096 * pages_of j" using x j by (auto simp: within_def)
  have "unat (a + of_nat m) = unat a + m" if "m < 4096" for m by (rule page_ofs_addr(1) [OF arenaD(1) [OF h a] that])
  from this [of 0] this [of 4] this [of 8] have m: "unat y \<in> span a (pages_of k) \<and> unat y < unat a + 12" if "y \<in> {a_magic a, a_desc a, a_free_cnt a}" for y
    using that arenaD(3) [OF h a] by (auto simp: span_def a_magic_def a_desc_def a_free_cnt_def)
  show ?thesis
  proof
    assume y: "x \<in> {a_magic a, a_desc a, a_free_cnt a}"
    show False
    proof (cases "a = ?c")
      case True
      then show False using m [OF y] x by simp
    next
      case False
      have "unat x \<in> span ?c (pages_of j)" using x by (simp add: span_def)
      then show False using m [OF y] heap_invD(5) [OF h a j(1) False] by blast
    qed
  qed
qed

lemma allocated_disjoint:
  assumes h: "heap_inv s ar f" and b: "(b, n) \<in> allocated ar g" and c: "(c, m) \<in> allocated ar g" and ne: "b \<noteq> c"
  shows "unat b + n \<le> unat c \<or> unat c + m \<le> unat b"
proof -
  let ?a = "pg_round_down b" and ?d = "pg_round_down c"
  obtain j where j: "ar ?a = Some j" "unat ?a + 12 \<le> unat b" "unat b + n \<le> unat ?a + 4096 * pages_of j"
    "case j of Inl i \<Rightarrow> block_of ar i b \<and> n = bsz i \<and> b \<notin> set (g (fl i)) | Inr e \<Rightarrow> b = ?a + 12 \<and> n = 4096 * unat e - 12"
    using allocated_arena [OF h b] by blast
  obtain k where k: "ar ?d = Some k" "unat ?d + 12 \<le> unat c" "unat c + m \<le> unat ?d + 4096 * pages_of k"
    "case k of Inl i \<Rightarrow> block_of ar i c \<and> m = bsz i \<and> c \<notin> set (g (fl i)) | Inr e \<Rightarrow> c = ?d + 12 \<and> m = 4096 * unat e - 12"
    using allocated_arena [OF h c] by blast
  show ?thesis
  proof (cases "?a = ?d")
    case False
    note d = heap_invD(5) [OF h j(1) k(1) False]
    have "unat ?a \<notin> span ?d (pages_of k)" "unat ?d \<notin> span ?a (pages_of j)"
      using d arenaD(3) [OF h j(1)] arenaD(3) [OF h k(1)] by (auto simp: span_def)
    then show ?thesis using j(2,3) k(2,3) by (auto simp: span_def)
  next
    case True
    then have jk: "j = k" using j(1) k(1) by simp
    then obtain i where i: "j = Inl i" using j(4) k(4) ne True by (auto split: sum.splits)
    then obtain x y where xy: "x < cnt i" "b = blk ?a i x" "y < cnt i" "c = blk ?a i y"
      using block_ofD(3) [OF h] j(4) k(4) jk True by (metis (no_types, lifting) sum.simps(5))
    have i7: "i < 7" using arena_idx [OF h] j(1) i by simp
    note px = blk_page(1) [OF arenaD(1) [OF h j(1)] xy(1) i7] note py = blk_page(1) [OF arenaD(1) [OF h j(1)] xy(3) i7]
    have u: "unat b = unat ?a + 12 + x * bsz i" "unat c = unat ?a + 12 + y * bsz i" using px py xy by simp_all
    have sz: "n = bsz i" "m = bsz i" using j(4) k(4) i jk by simp_all
    have "x \<noteq> y" using xy ne by auto
    then have "Suc x * bsz i \<le> y * bsz i \<or> Suc y * bsz i \<le> x * bsz i" by (metis Suc_leI mult_le_mono1 nat_neq_iff)
    then show ?thesis using u sz by auto
  qed
qed

lemma free_list_distinct: "heap_inv s ar f \<Longrightarrow> i < 7 \<Longrightarrow> distinct (f (fl i))"
  using sys_dll [OF heap_invD(2) fl_addr(3)] by (auto simp: dll_def nodes_def)

lemma alloc_take:
  assumes h: "heap_inv s ar f" and i: "i < 7" and b: "f (fl i) = b # bs"
  shows "allocated ar (f(fl i := bs)) = insert (b, bsz i) (allocated ar f)" "(b, m) \<notin> allocated ar f"
proof -
  have bo: "block_of ar i b" using heap_invD(6) [OF h i] b by simp
  have nb: "b \<notin> set bs" using free_list_distinct [OF h i] b by simp
  have j7: "j < 7" if "block_of ar j c" for j c using block_ofD(2) [OF h that] .
  have "block_of ar j c \<and> c \<notin> set ((f(fl i := bs)) (fl j)) \<longleftrightarrow> (block_of ar j c \<and> c \<notin> set (f (fl j))) \<or> c = b \<and> j = i" for j c
  proof (cases "j = i")
    case True
    then show ?thesis using b bo nb by auto
  next
    case False
    then show ?thesis using fl_inj [OF i j7, of j c] by auto
  qed
  then show "allocated ar (f(fl i := bs)) = insert (b, bsz i) (allocated ar f)" unfolding allocated_def by blast
  show "(b, m) \<notin> allocated ar f"
  proof
    assume "(b, m) \<in> allocated ar f"
    then obtain k where "ar (pg_round_down b) = Some k" "case k of Inl i \<Rightarrow> block_of ar i b \<and> m = bsz i \<and> b \<notin> set (f (fl i)) | Inr c \<Rightarrow> True"
      using allocated_arena [OF h] by (fastforce split: sum.splits)
    then show False using block_ofD(1) [OF h bo] b by auto
  qed
qed

lemma alloc_new:
  assumes h: "heap_inv s ar f" and i: "i < 7" and e: "f (fl i) = []" and a: "ar a = None" "pg_ofs a = 0"
  shows "allocated (ar(a := Some (Inl i))) (f(fl i := map (blk a i) [0..<cnt i])) = allocated ar f"
proof -
  let ?ar = "ar(a := Some (Inl i))" and ?f = "f(fl i := map (blk a i) [0..<cnt i])"
  have bo: "block_of ?ar j c \<longleftrightarrow> block_of ar j c \<or> j = i \<and> c \<in> blk a i ` {..<cnt i}" for j c
  proof -
    have "ar a' = Some (Inl j) \<Longrightarrow> a' \<noteq> a" for a' using a(1) by auto
    then show ?thesis by (auto simp: block_of_def)
  qed
  have "c \<notin> blk a i ` {..<cnt i}" if "block_of ar j c" for j c
    using block_ofD(1) [OF h that] a(1) blk_page(2) [OF a(2) _ i] by auto
  moreover have "block_of ar j c \<Longrightarrow> j < 7" for j c using block_ofD(2) [OF h] .
  ultimately have "block_of ?ar j c \<and> c \<notin> set (?f (fl j)) \<longleftrightarrow> block_of ar j c \<and> c \<notin> set (f (fl j))" for j c
    using bo [of j c] fl_inj [OF i, of j] e i by (auto simp: atLeast0LessThan split: if_splits)
  moreover have "?ar b = Some (Inr c) \<longleftrightarrow> ar b = Some (Inr c)" for b c using a(1) by auto
  ultimately show ?thesis unfolding allocated_def by blast
qed

lemma alloc_big:
  assumes h: "heap_inv s ar f" and a: "ar a = None" "pg_ofs a = 0"
  shows "allocated (ar(a := Some (Inr c))) f = insert (a + 12, 4096 * unat c - 12) (allocated ar f)" "(a + 12, m) \<notin> allocated ar f"
proof -
  have "block_of (ar(a := Some (Inr c))) j b \<longleftrightarrow> block_of ar j b" for j b
  proof -
    have "ar a' = Some (Inl j) \<Longrightarrow> a' \<noteq> a" for a' using a(1) by auto
    then show ?thesis by (auto simp: block_of_def)
  qed
  moreover have "(ar(a := Some (Inr c))) b = Some (Inr d) \<longleftrightarrow> ar b = Some (Inr d) \<or> b = a \<and> d = c" for b d using a(1) by auto
  ultimately show "allocated (ar(a := Some (Inr c))) f = insert (a + 12, 4096 * unat c - 12) (allocated ar f)"
    unfolding allocated_def by auto
  have "pg_round_down (a + 12) = a" using page_ofs_addr(2) [OF a(2), of 12] by simp
  then show "(a + 12, m) \<notin> allocated ar f" using allocated_arena [OF h, of "a + 12" m] a(1) by auto
qed

definition kept :: "mheap \<Rightarrow> mheap \<Rightarrow> (addr \<times> nat) set \<Rightarrow> bool" where
  "kept s s' A \<longleftrightarrow> (\<forall>(b, n)\<in>A. \<forall>x. within x b n \<longrightarrow> get_word x s' = get_word x s)"

lemma keptI: "(\<And>b n x. (b, n) \<in> A \<Longrightarrow> within x b n \<Longrightarrow> get_word x s' = get_word x s) \<Longrightarrow> kept s s' A"
  by (auto simp: kept_def)

lemma kept_mono: "kept s s' A \<Longrightarrow> B \<subseteq> A \<Longrightarrow> kept s s' B"
  unfolding kept_def by blast

lemma malloc_big_pages:
  assumes h: "heap_ok s ar f" and c: "c = (sz + ARENA_SIZE + PGSIZE - 1) div PGSIZE"
  shows "malloc_big sz s = Some (NULL, s) \<and> (c = 0 \<or> no_pages (pal s) (unat c)) \<or>
    (\<exists>b s' ar'. malloc_big sz s = Some (b, s') \<and> b \<noteq> NULL \<and> heap_ok s' ar' f \<and> foreign s' ar' = foreign s ar \<and>
       allocated ar' f = insert (b, 4096 * unat c - 12) (allocated ar f) \<and> (\<forall>m. (b, m) \<notin> allocated ar f) \<and> kept s s' (allocated ar f))"
proof -
  have hi: "heap_inv s ar f" using h by (simp add: heap_ok_def)
  note po = mem_invD(1) [OF heap_invD(1) [OF hi]]
  obtain a p where g: "palloc_get_multiple 0 c (pal s) = Some (a, p)" "a = 0 \<longrightarrow> p = pal s" using get_pages_total [OF po] by blast
  show ?thesis
  proof (cases "a = NULL")
    case True
    have "no_pages (pal s) (unat c)" if "c \<noteq> 0"
      using palloc_get_spec [OF po that, of 0] g(1) True by (auto simp: no_pages_def split: if_splits)
    then show ?thesis using g True unfolding malloc_big_def Let_def c [symmetric] by auto
  next
    case False
    note new = fresh_pages [OF hi g(1) False]
    let ?s = "init_arena a NULL c (s\<lparr>pal := p\<rparr>)" and ?ar = "ar(a := Some (Inr c))"
    note w = init_arena_words [OF new(6), where d = NULL and n = c and s = "s\<lparr>pal := p\<rparr>"]
    have c0: "c \<noteq> 0" using get_pages(5) [OF po g(1) False] by (simp add: unat_gt_0)
    have hn: "heap_inv ?s ?ar f"
    proof (rule heap_inv_new [OF hi g(1) False])
      show "block_of ?ar i b" if "i < 7" "b \<in> set (f (fl i))" for i b
        using heap_invD(6) [OF hi that] new(1) unfolding block_of_def by (metis fun_upd_apply option.distinct(1))
    qed (use w new c0 heap_invD(2) [OF hi] in \<open>auto simp: header_ok_def pages_of_def\<close>)
    then have "heap_ok ?s ?ar f" using h by (auto simp: heap_ok_def)
    moreover have "a + 12 \<noteq> NULL" using page_ofs_addr(1) [OF new(6), of 12] by auto
    moreover have "foreign ?s ?ar = foreign s ar" by (rule foreign_new [OF hi g(1) False]) (use w in \<open>simp_all add: pages_of_def\<close>)
    moreover have "kept s ?s (allocated ar f)"
    proof (rule keptI)
      fix b n x assume b: "(b, n) \<in> allocated ar f" "within x b n"
      have "(b, n) \<in> allocated ?ar f" using b(1) alloc_big(1) [OF hi new(1,6)] by blast
      then have "x \<notin> {a_magic a, a_desc a, a_free_cnt a}" using allocated_header [OF hn _ b(2)] by simp
      then show "get_word x ?s = get_word x s" using w(9) new(5) by simp
    qed
    moreover have "malloc_big sz s = Some (a + 12, ?s)"
      using g(1) False unfolding malloc_big_def Let_def c [symmetric] by (simp add: ARENA_SIZE_def)
    ultimately show ?thesis using alloc_big [OF hi new(1,6)] by blast
  qed
qed

lemma malloc_big_ok:
  assumes h: "heap_ok s ar f" and sz: "unat sz + 4108 \<le> 2 ^ 32" "sz \<noteq> 0"
  shows "malloc_big sz s = Some (NULL, s) \<and> no_pages (pal s) (pages_for (unat sz)) \<or>
    (\<exists>b s' ar' n. malloc_big sz s = Some (b, s') \<and> b \<noteq> NULL \<and> heap_ok s' ar' f \<and> foreign s' ar' = foreign s ar \<and>
       unat sz \<le> n \<and> pages_for n = pages_for (unat sz) \<and>
       allocated ar' f = insert (b, n) (allocated ar f) \<and> (\<forall>m. (b, m) \<notin> allocated ar f) \<and> kept s s' (allocated ar f))"
proof -
  define c where "c = (sz + ARENA_SIZE + PGSIZE - 1) div PGSIZE"
  have "sz + ARENA_SIZE + PGSIZE - 1 = sz + of_nat 4107" by (simp add: ARENA_SIZE_def PGSIZE_eq)
  then have "unat (sz + ARENA_SIZE + PGSIZE - 1) = unat sz + 4107" using unat_ofs [of sz 4107] sz by (simp only:)
  then have c: "unat c = (unat sz + 4107) div 4096" by (simp add: c_def unat_div PGSIZE_eq)
  have "0 < unat sz" using sz(2) by (simp add: unat_gt_0)
  then have c0: "0 < unat c" unfolding c by (simp add: div_greater_zero_iff)
  then have pf: "pages_for (4096 * unat c - 12) = pages_for (unat sz)" "c \<noteq> 0" "unat c = pages_for (unat sz)"
    using c by (auto simp: pages_for_def)
  have "unat sz \<le> 4096 * unat c - 12"
    unfolding c using mult_div_mod_eq [of 4096 "unat sz + 4107"] mod_less_divisor [of 4096 "unat sz + 4107"] by linarith
  then show ?thesis using malloc_big_pages [OF h c_def] pf by metis
qed

lemma kept_trans: "kept s s1 A \<Longrightarrow> kept s1 s2 A \<Longrightarrow> kept s s2 A"
  unfolding kept_def by fastforce

lemma take_kept:
  assumes h: "heap_inv s ar f" and i: "i < 7" and b: "f (fl i) = b # bs"
    and fr: "\<forall>x. x \<noteq> a_free_cnt (pg_round_down b) \<longrightarrow> get_word x s' = get_word x s"
  shows "kept s s' (allocated ar f)"
proof (rule keptI)
  fix c n x assume c: "(c, n) \<in> allocated ar f" "within x c n"
  have "block_of ar i b" using heap_invD(6) [OF h i] b by simp
  then show "get_word x s' = get_word x s" using allocated_header [OF h c block_ofD(1) [OF h]] fr by blast
qed

lemma free_in_le: "heap_inv s ar f \<Longrightarrow> ar a = Some (Inl i) \<Longrightarrow> free_in f i a \<le> cnt i"
proof -
  assume h: "heap_inv s ar f" and a: "ar a = Some (Inl i)"
  have i: "i < 7" by (rule arena_idx [OF h a])
  let ?xs = "filter (\<lambda>b. pg_round_down b = a) (f (fl i))"
  have "set ?xs \<subseteq> blk a i ` {..<cnt i}" using block_ofD(3) [OF h heap_invD(6) [OF h i]] by fastforce
  then have "card (set ?xs) \<le> card {..<cnt i}" by (meson surj_card_le finite_lessThan)
  moreover have "card (set ?xs) = length ?xs" using free_list_distinct [OF h i] by (intro distinct_card distinct_filter)
  ultimately show ?thesis by (simp only: free_in_def card_lessThan)
qed

text \<open>Taking a block from a list that is not empty.\<close>

lemma take_heap_ok:
  assumes h: "heap_inv s ar f" and i: "i < 7" and b: "f (fl i) = b # bs"
    and o: "\<And>a j. ar a = Some (Inl j) \<Longrightarrow> (j = i \<and> a = pg_round_down b) \<or> free_in f j a < cnt j"
  shows "\<exists>s'. take_block (desc_at i) s = Some (b, s') \<and> heap_ok s' ar (f(fl i := bs)) \<and>
    foreign s' ar = foreign s ar \<and> kept s s' (allocated ar f)"
proof -
  obtain s' where s': "take_block (desc_at i) s = Some (b, s')" "heap_inv s' ar (f(fl i := bs))"
    "kernel_pool (pal s') = kernel_pool (pal s)" "\<forall>x. x \<noteq> a_free_cnt (pg_round_down b) \<longrightarrow> get_word x s' = get_word x s" using take_block_ok [OF h i b] by blast
  have "free_in (f(fl i := bs)) j a < cnt j" if a: "ar a = Some (Inl j)" for a j
  proof -
    have j: "j < 7" by (rule arena_idx [OF h a])
    have le: "free_in f j a \<le> cnt j" by (rule free_in_le [OF h a])
    have "free_in (f(fl i := bs)) j a = (if j = i \<and> a = pg_round_down b then free_in f j a - 1 else free_in f j a)" "j = i \<Longrightarrow> a = pg_round_down b \<Longrightarrow> 0 < free_in f j a"
      unfolding free_in_upd [OF i j] using b by (auto simp: free_in_def)
    then show ?thesis using o [OF a] le by (auto split: if_splits)
  qed
  then show ?thesis using s'(1,2) foreign_cong [OF s'(3)] take_kept [OF h i b s'(4)] by (auto simp: heap_ok_def)
qed

lemma find_desc:
  fixes sz :: u32
  assumes "descs s = map mk_desc [0..<7]"
  defines "i \<equiv> length (takeWhile (\<lambda>d. \<not> d_block_size d \<ge> sz) (descs s))"
  shows "i \<le> 7" "i < 7 \<Longrightarrow> unat sz \<le> bsz i"
proof -
  show l: "i \<le> 7" using length_takeWhile_le [of _ "descs s"] assms(1) unfolding i_def by (metis diff_zero length_map length_upt)
  assume i: "i < 7"
  then have "\<not> (\<not> d_block_size (descs s ! i) \<ge> sz)" unfolding i_def by (intro nth_length_takeWhile) (simp add: assms(1))
  then have "sz \<le> of_nat (bsz i)" using i assms(1) by (simp add: mk_desc_def)
  moreover have "unat (of_nat (bsz i) :: u32) = bsz i" using bsz_bounds [OF i] by (simp add: unat_of_nat32)
  ultimately show "unat sz \<le> bsz i" by (simp add: word_le_nat_alt)
qed

text \<open>The result of a request that succeeds.\<close>

definition granted :: "mheap \<Rightarrow> arenas \<Rightarrow> (addr \<Rightarrow> addr list) \<Rightarrow> u32 \<Rightarrow> addr \<Rightarrow> mheap \<Rightarrow> bool" where
  "granted s ar f sz b s' \<longleftrightarrow> b \<noteq> NULL \<and> (\<exists>ar' f' n. heap_ok s' ar' f' \<and> foreign s' ar' = foreign s ar \<and>
     unat sz \<le> n \<and> pages_for n = pages_for (unat sz) \<and> allocated ar' f' = insert (b, n) (allocated ar f) \<and> (\<forall>m. (b, m) \<notin> allocated ar f) \<and> kept s s' (allocated ar f))"

lemma take_granted:
  assumes s1: "heap_inv s1 ar1 f1" "f1 (fl i) = b # bs" "allocated ar1 f1 = allocated ar f" "foreign s1 ar1 = foreign s ar" "kept s s1 (allocated ar f)"
    and i: "i < 7" "0 < unat sz" "unat sz \<le> bsz i"
    and o: "\<And>a j. ar1 a = Some (Inl j) \<Longrightarrow> (j = i \<and> a = pg_round_down b) \<or> free_in f1 j a < cnt j"
  shows "\<exists>s'. take_block (desc_at i) s1 = Some (b, s') \<and> granted s ar f sz b s'"
proof -
  have "b \<noteq> NULL" using sys_dll [OF heap_invD(2) [OF s1(1)] fl_addr(3) [OF i(1)]] s1(2) by (auto simp: dll_def nodes_def)
  moreover obtain s' where "take_block (desc_at i) s1 = Some (b, s')" "heap_ok s' ar1 (f1(fl i := bs))"
    "foreign s' ar1 = foreign s ar" "kept s1 s' (allocated ar1 f1)" unfolding s1(4) [symmetric]
    using take_heap_ok [OF s1(1) i(1) s1(2) o] by blast
  moreover have "pages_for (bsz i) = pages_for (unat sz)"
    using bsz_bounds [OF i(1)] i(2,3) by (simp add: pages_for_small)
  ultimately show ?thesis
    using alloc_take [OF s1(1) i(1) s1(2)] kept_trans [OF s1(5)] i(3) unfolding granted_def s1(3) by blast
qed

text \<open>A request whose free list is empty gets a new arena first.\<close>

lemma refill_granted:
  assumes h: "heap_ok s ar f" and i: "i < 7" "0 < unat sz" "unat sz \<le> bsz i" and e: "f (fl i) = []"
  shows "new_arena (desc_at i) s = Some (False, s) \<and> no_pages (pal s) 1 \<or>
    (\<exists>s1 b s'. new_arena (desc_at i) s = Some (True, s1) \<and> take_block (desc_at i) s1 = Some (b, s') \<and> granted s ar f sz b s')"
proof -
  have hi: "heap_inv s ar f" and fr: "\<And>a i. ar a = Some (Inl i) \<Longrightarrow> free_in f i a < cnt i" using h by (simp_all add: heap_ok_def)
  consider "new_arena (desc_at i) s = Some (False, s)" "no_pages (pal s) 1"
    | a s1 where "new_arena (desc_at i) s = Some (True, s1)" "heap_inv s1 (ar(a := Some (Inl i))) (f(fl i := map (blk a i) [0..<cnt i]))"
      "ar a = None" "pg_ofs a = 0" "\<forall>x. x \<notin> {a_magic a, a_desc a, a_free_cnt a} \<longrightarrow> get_word x s1 = get_word x s"
      "foreign s1 (ar(a := Some (Inl i))) = foreign s ar"
    using new_arena_ok [OF hi i(1) e] by blast
  then show ?thesis
  proof cases
    case (2 a s1)
    let ?ar = "ar(a := Some (Inl i))" and ?f = "f(fl i := map (blk a i) [0..<cnt i])"
    note al = alloc_new [OF hi i(1) e 2(3,4)]
    have c0: "0 < cnt i" using bsz_bounds [OF i(1)] by simp
    then have hd: "?f (fl i) = blk a i 0 # map (blk a i) [1..<cnt i]" by (simp add: upt_conv_Cons)
    have rd: "pg_round_down (blk a i 0) = a" using blk_page(2) [OF 2(4) c0 i(1)] .
    have kp: "kept s s1 (allocated ar f)"
    proof (rule keptI)
      fix b n x assume b: "(b, n) \<in> allocated ar f" "within x b n"
      then have "x \<notin> {a_magic a, a_desc a, a_free_cnt a}" using allocated_header [OF 2(2) _ b(2)] al by simp
      then show "get_word x s1 = get_word x s" using 2(5) by blast
    qed
    have "(j = i \<and> c = pg_round_down (blk a i 0)) \<or> free_in ?f j c < cnt j" if "?ar c = Some (Inl j)" for c j
    proof (cases "c = a")
      case True
      then show ?thesis using that rd by simp
    next
      case c: False
      then have "ar c = Some (Inl j)" using that by simp
      moreover from this have "j < 7" by (rule arena_idx [OF hi])
      ultimately show ?thesis using fr c unfolding free_in_upd [OF i(1) \<open>j < 7\<close>] filter_blks [OF 2(4) i(1)] using c0 by auto
    qed
    then show ?thesis using take_granted [OF 2(2) hd al 2(6) kp i] 2(1) by blast
  qed simp
qed

lemma malloc_ok:
  assumes h: "heap_ok s ar f" and sz: "unat sz + 4108 \<le> 2 ^ 32"
  shows "malloc sz s = Some (NULL, s) \<and> (sz = 0 \<or> no_pages (pal s) (pages_for (unat sz))) \<or>
    (\<exists>b s'. malloc sz s = Some (b, s') \<and> granted s ar f sz b s')"
proof (cases "sz = 0")
  case False
  then have s0: "0 < unat sz" by (simp add: unat_gt_0)
  have hi: "heap_inv s ar f" and fr: "\<And>a i. ar a = Some (Inl i) \<Longrightarrow> free_in f i a < cnt i" using h by (simp_all add: heap_ok_def)
  note ds = mem_invD(2) [OF heap_invD(1) [OF hi]]
  define i where "i = length (takeWhile (\<lambda>d. \<not> d_block_size d \<ge> sz) (descs s))"
  note fd = find_desc [OF ds, of sz, folded i_def]
  show ?thesis
  proof (cases "i = 7")
    case True
    then have "malloc sz s = malloc_big sz s" using False ds by (simp add: malloc_def i_def)
    then show ?thesis using malloc_big_ok [OF h sz False] unfolding granted_def by (simp only:) blast
  next
    case i: False
    then have i7: "i < 7" and sb: "unat sz \<le> bsz i" using fd by simp_all
    have le: "list_empty (links s) (fl i) = Some (f (fl i) = [])"
      using list_empty_dll [OF sys_dll [OF heap_invD(2) [OF hi] fl_addr(3) [OF i7]]] by simp
    have mz: "malloc sz s = (if f (fl i) = [] then do { (ok, s) \<leftarrow> new_arena (desc_at i) s; if \<not> ok then Some (NULL, s) else take_block (desc_at i) s }
       else take_block (desc_at i) s)"
      unfolding malloc_def i_def [symmetric] using False i ds le by (simp add: Let_def)
    show ?thesis
    proof (cases "f (fl i)")
      case (Cons b bs)
      have "kept s s (allocated ar f)" by (simp add: kept_def)
      then show ?thesis using take_granted [OF hi Cons refl refl _ i7 s0 sb] fr mz Cons by (simp only: list.distinct if_False) blast
    next
      case Nil
      have "pages_for (unat sz) = 1" using bsz_bounds [OF i7] sb s0 by (simp add: pages_for_small)
      then show ?thesis using refill_granted [OF h i7 s0 sb Nil] mz Nil by auto
    qed
  qed
qed (simp add: malloc_def)

section \<open>Releasing blocks\<close>

lemma within_iff: "unat b + n \<le> 2 ^ 32 \<Longrightarrow> n < 2 ^ 32 \<Longrightarrow> x - b < of_nat n \<longleftrightarrow> within x b n"
proof -
  assume l: "unat b + n \<le> 2 ^ 32" "n < 2 ^ 32"
  have n: "unat (of_nat n :: u32) = n" by (rule unat_of_nat32 [OF l(2)])
  show ?thesis
  proof
    assume "x - b < of_nat n"
    then have d: "unat (x - b) < n" using n by (simp add: word_less_nat_alt)
    then have "unat (b + of_nat (unat (x - b))) = unat b + unat (x - b)" by (intro unat_ofs) (use l in simp)
    then show "within x b n" using d by (simp add: within_def)
  next
    assume w: "within x b n"
    then have "unat (x - b) = unat x - unat b" by (simp add: within_def unat_sub word_le_nat_alt)
    then show "x - b < of_nat n" using w n by (auto simp: within_def word_less_nat_alt)
  qed
qed

lemma set_bytes_simps [simp]:
  "links (set_bytes p n w s) = links s" "descs (set_bytes p n w s) = descs s"
  "kernel_pool (pal (set_bytes p n w s)) = kernel_pool (pal s)" "user_pool (pal (set_bytes p n w s)) = user_pool (pal s)"
  "mem_inv (set_bytes p n w s) = mem_inv s"
  "\<not> x - p < n \<Longrightarrow> get_word x (set_bytes p n w s) = get_word x s"
  by (simp_all add: set_bytes_def get_word_def mem_inv_def phys_ok_def)

text \<open>Writing inside an allocated block.\<close>

lemma set_bytes_frame:
  assumes h: "heap_inv s ar f" and b: "(b, n) \<in> allocated ar f" and n: "m \<le> n"
  shows "ar a = Some k \<Longrightarrow> get_word (a_magic a) (set_bytes b (of_nat m) w s) = get_word (a_magic a) s \<and>
      get_word (a_desc a) (set_bytes b (of_nat m) w s) = get_word (a_desc a) s \<and> get_word (a_free_cnt a) (set_bytes b (of_nat m) w s) = get_word (a_free_cnt a) s"
    and "(c, l) \<in> allocated ar f \<Longrightarrow> (c, l) \<noteq> (b, n) \<Longrightarrow> within x c l \<Longrightarrow> get_word x (set_bytes b (of_nat m) w s) = get_word x s"
    and "x - b < of_nat m \<longleftrightarrow> within x b m"
proof -
  obtain j where k: "ar (pg_round_down b) = Some j" "unat (pg_round_down b) + 12 \<le> unat b" "unat b + n \<le> unat (pg_round_down b) + 4096 * pages_of j"
    using allocated_arena [OF h b] by blast
  show wi: "x - b < of_nat m \<longleftrightarrow> within x b m" for x
    by (rule within_iff) (use k(2,3) n arenaD(4,5) [OF h k(1)] in linarith)+
  have o: "get_word x (set_bytes b (of_nat m) w s) = get_word x s" if "\<not> within x b n" for x
    using that wi [of x] n by (auto simp: within_def)
  have "\<not> within x b n" if "ar a = Some k" "x \<in> {a_magic a, a_desc a, a_free_cnt a}" for a k x
    using allocated_header [OF h b _ that(1)] that(2) by blast
  then show "ar a = Some k \<Longrightarrow> get_word (a_magic a) (set_bytes b (of_nat m) w s) = get_word (a_magic a) s \<and>
      get_word (a_desc a) (set_bytes b (of_nat m) w s) = get_word (a_desc a) s \<and> get_word (a_free_cnt a) (set_bytes b (of_nat m) w s) = get_word (a_free_cnt a) s"
    using o by blast
  assume c: "(c, l) \<in> allocated ar f" "(c, l) \<noteq> (b, n)" "within x c l"
  have "b \<noteq> c" using allocated_unique [OF h b] c(1,2) by auto
  then have "\<not> within x b n" using allocated_disjoint [OF h b c(1)] c(3) by (auto simp: within_def)
  then show "get_word x (set_bytes b (of_nat m) w s) = get_word x s" by (rule o)
qed

lemma held_size:
  assumes "phys_ok p" and "held p a (unat c)"
  shows "unat (PGSIZE * c) = 4096 * unat c" "mem_fill a (PGSIZE * c) w m x = (if unat x \<in> span a (unat c) then w else m x)"
proof -
  note h = heldD [OF assms]
  have l: "4096 * unat c < 2 ^ 32" using h(2,3) by (metis add_less_cancel_right add_0 le_less_trans less_le_trans unat_gt_0 word_gt_0 le_add2 less_add_same_cancel2)
  then show u: "unat (PGSIZE * c) = 4096 * unat c" by (simp add: PGSIZE_eq unat_word_ariths)
  then have "PGSIZE * c = of_nat (4096 * unat c)" by (rule eq_of_nat)
  then show "mem_fill a (PGSIZE * c) w m x = (if unat x \<in> span a (unat c) then w else m x)"
    using within_iff [OF h(3) l] by (simp add: mem_fill_def within_def span_def)
qed

text \<open>Giving back an arena with its pages.\<close>

lemma foreign_release:
  assumes h: "heap_inv s ar f" and a: "ar a = Some k" and u: "used_pages (pal s') = used_pages (pal s) - page_span a (pages_of k)" "same_pool (pal s) (pal s')"
  shows "foreign s' (ar(a := None)) = foreign s ar"
proof -
  have d: "page_span a (pages_of k) \<inter> page_span b (pages_of j) = {}" if "ar b = Some j" "b \<noteq> a" for b j
    using heap_invD(5) [OF h a that(1)] that(2) by (auto simp: page_span_def)
  have "x \<in> arena_pages ar \<longleftrightarrow> x \<in> arena_pages (ar(a := None)) \<or> x \<in> page_span a (pages_of k)" for x
    unfolding arena_pages_iff fun_upd_apply using a by (metis option.distinct(1) option.inject)
  moreover have "arena_pages (ar(a := None)) \<inter> page_span a (pages_of k) = {}"
  proof -
    have "x \<notin> page_span a (pages_of k)" if "(ar(a := None)) b = Some j" "x \<in> page_span b (pages_of j)" for b j x
      using d [of b j] that by (auto split: if_splits)
    then show ?thesis unfolding set_eq_iff Int_iff arena_pages_iff by blast
  qed
  ultimately show ?thesis unfolding foreign_def u(1) all_pages_same [OF u(2)] by blast
qed

lemma heap_inv_release:
  assumes h: "heap_inv s ar f" and a: "ar a = Some k" and c: "pages_of k = unat c"
    and y: "sys lk free_lists f'" and b: "\<And>i b. i < 7 \<Longrightarrow> b \<in> set (f' (fl i)) \<Longrightarrow> block_of (ar(a := None)) i b"
    and o: "\<And>i b. i < 7 \<Longrightarrow> b \<noteq> a \<Longrightarrow> free_in f' i b = free_in f i b"
  shows "\<exists>q. palloc_free_multiple a c (pal s) = Some q \<and> heap_inv (s\<lparr>links := lk, pal := q\<rparr>) (ar(a := None)) f' \<and>
    foreign (s\<lparr>links := lk, pal := q\<rparr>) (ar(a := None)) = foreign s ar \<and>
    (\<forall>x. unat x \<notin> span a (unat c) \<longrightarrow> get_word x (s\<lparr>links := lk, pal := q\<rparr>) = get_word x s)"
proof -
  note mi = heap_invD(1) [OF h] note po = mem_invD(1) [OF mi]
  have ha: "held (pal s) a (unat c)" using heap_invD(3) [OF h a] c by simp
  have "c \<noteq> 0" using arenaD(3) [OF h a] c by auto
  then obtain q where q: "palloc_free_multiple a c (pal s) = Some q" "phys_ok q" "same_pool (pal s) q"
    "mem q = mem_fill a (PGSIZE * c) 0xcccccccc (mem (pal s))" "used_pages q = used_pages (pal s) - page_span a (unat c)"
    "\<And>b n. held (pal s) b n \<Longrightarrow> 0 < n \<Longrightarrow> span a (unat c) \<inter> span b n = {} \<Longrightarrow> held q b n"
    using give_pages [OF po ha] by blast
  let ?s = "s\<lparr>links := lk, pal := q\<rparr>"
  have fr: "get_word x ?s = get_word x s" if "unat x \<notin> span a (unat c)" for x
    using held_size(2) [OF po ha] that by (simp add: get_word_def q(4))
  have "held q b (pages_of j) \<and> header_ok ?s f' b j" if bj: "(ar(a := None)) b = Some j" for b j
  proof -
    have ab: "ar b = Some j" "b \<noteq> a" using bj by (auto split: if_splits)
    have d: "span a (unat c) \<inter> span b (pages_of j) = {}" using heap_invD(5) [OF h a ab(1)] ab(2) c by auto
    have "get_word (b + of_nat n) ?s = get_word (b + of_nat n) s" if "n < 4096" for n
    proof (rule fr)
      have "unat (b + of_nat n) \<in> span b (pages_of j)"
        using page_ofs_addr(1) [OF arenaD(1) [OF h ab(1)] that] arenaD(3) [OF h ab(1)] that by (simp add: span_def)
      then show "unat (b + of_nat n) \<notin> span a (unat c)" using d by blast
    qed
    from this [of 0] this [of 4] this [of 8] show ?thesis
      using q(6) [OF heap_invD(3) [OF h ab(1)] arenaD(3) [OF h ab(1)] d] heap_invD(4) [OF h ab(1)] o ab(2)
      by (auto simp: header_ok_def a_magic_def a_desc_def a_free_cnt_def split: sum.splits)
  qed
  moreover have "mem_inv ?s" using mi q(2,3) by (simp add: mem_inv_def same_pool_def)
  moreover have "span b (pages_of j) \<inter> span b' (pages_of j') = {}"
    if "(ar(a := None)) b = Some j" "(ar(a := None)) b' = Some j'" "b \<noteq> b'" for b b' j j'
    using that heap_invD(5) [OF h, of b j b' j'] by (auto split: if_splits)
  ultimately have "heap_inv ?s (ar(a := None)) f'" using y b unfolding heap_inv_def by simp
  then show ?thesis using q(1) fr foreign_release [OF h a, of ?s] q(3,5) c by simp
qed

lemma block_of_del: "ar a = Some (Inr c) \<Longrightarrow> block_of (ar(a := None)) i b = block_of ar i b"
  unfolding block_of_def fun_upd_apply by (metis Inl_Inr_False option.inject option.distinct(1))

lemma free_big_ok:
  assumes h: "heap_ok s ar f" and a: "ar a = Some (Inr c)"
  shows "\<exists>s'. free (a + 12) s = Some s' \<and> heap_ok s' (ar(a := None)) f \<and> foreign s' (ar(a := None)) = foreign s ar \<and>
    allocated (ar(a := None)) f = allocated ar f - {(a + 12, 4096 * unat c - 12)} \<and> kept s s' (allocated ar f - {(a + 12, 4096 * unat c - 12)})"
proof -
  have hi: "heap_inv s ar f" using h by (simp add: heap_ok_def)
  note p = page_ofs_addr [OF arenaD(1) [OF hi a], of 12, simplified]
  note hd = heap_invD(4) [OF hi a, unfolded header_ok_def, simplified]
  have bta: "block_to_arena (a + 12) s = Some a"
    using p hd arenaD(2) [OF hi a] by (simp add: block_to_arena_def ARENA_SIZE_def)
  obtain q where q: "palloc_free_multiple a c (pal s) = Some q" "heap_inv (s\<lparr>links := links s, pal := q\<rparr>) (ar(a := None)) f"
    "\<And>x. unat x \<notin> span a (unat c) \<Longrightarrow> get_word x (s\<lparr>links := links s, pal := q\<rparr>) = get_word x s"
    "foreign (s\<lparr>links := links s, pal := q\<rparr>) (ar(a := None)) = foreign s ar"
    using heap_inv_release [OF hi a, of c "links s" f] heap_invD(2,6) [OF hi] block_of_del [of ar a c, OF a] by (auto simp: pages_of_def)
  let ?s = "s\<lparr>pal := q\<rparr>"
  have ne: "a + 12 \<noteq> NULL" using p(1) by auto
  have fr: "free (a + 12) s = Some ?s" using bta hd q(1) ne by (simp add: free_def Let_def)
  have nb: "b \<noteq> a + 12" if "block_of ar i b" for i b using block_ofD(1) [OF hi that] p(2) a by auto
  have bg: "(ar(a := None)) x = Some (Inr d) \<longleftrightarrow> ar x = Some (Inr d) \<and> (x + 12, 4096 * unat d - 12) \<noteq> (a + 12, 4096 * unat c - 12)" for x d
    using a by auto
  have "(b, n) \<in> allocated (ar(a := None)) f \<longleftrightarrow> (b, n) \<in> allocated ar f \<and> (b, n) \<noteq> (a + 12, 4096 * unat c - 12)" for b n
    unfolding allocated_iff block_of_del [of ar a c, OF a] bg prod.inject using nb by auto
  then have al: "allocated (ar(a := None)) f = allocated ar f - {(a + 12, 4096 * unat c - 12)}" by auto
  have "kept s ?s (allocated ar f - {(a + 12, 4096 * unat c - 12)})"
  proof (rule keptI)
    fix b n x assume "(b, n) \<in> allocated ar f - {(a + 12, 4096 * unat c - 12)}" and x: "within x b n"
    then have b: "(b, n) \<in> allocated ar f" "(b, n) \<noteq> (a + 12, 4096 * unat c - 12)" by blast+
    obtain k where k: "ar (pg_round_down b) = Some k" "unat (pg_round_down b) + 12 \<le> unat b" "unat b + n \<le> unat (pg_round_down b) + 4096 * pages_of k"
      "case k of Inl i \<Rightarrow> True | Inr c \<Rightarrow> b = pg_round_down b + 12 \<and> n = 4096 * unat c - 12"
      using allocated_arena [OF hi b(1)] by (fastforce split: sum.splits)
    have "pg_round_down b \<noteq> a" using k a b(2) by auto
    then have "span (pg_round_down b) (pages_of k) \<inter> span a (unat c) = {}" using heap_invD(5) [OF hi k(1) a] by (simp add: pages_of_def)
    moreover have "unat x \<in> span (pg_round_down b) (pages_of k)" using x k by (auto simp: span_def within_def)
    ultimately show "get_word x ?s = get_word x s" using q(3) [of x] by auto
  qed
  moreover have "heap_ok ?s (ar(a := None)) f" using q(2) h by (auto simp: heap_ok_def split: if_splits)
  moreover have "foreign ?s (ar(a := None)) = foreign s ar" using q(4) by simp
  ultimately show ?thesis using fr al by blast
qed

lemma alloc_push:
  assumes h: "heap_inv s ar f" and b: "block_of ar i b" "b \<notin> set (f (fl i))"
  shows "allocated ar (f(fl i := b # f (fl i))) = allocated ar f - {(b, bsz i)}"
proof -
  have i: "i < 7" using block_ofD(2) [OF h b(1)] .
  have j7: "j < 7" if "block_of ar j c" for j c using block_ofD(2) [OF h that] .
  have sm: "block_of ar j c \<and> c \<notin> set ((f(fl i := b # f (fl i))) (fl j)) \<longleftrightarrow> block_of ar j c \<and> c \<notin> set (f (fl j)) \<and> (c, bsz j) \<noteq> (b, bsz i)" for j c
  proof (cases "j = i")
    case True
    then show ?thesis by auto
  next
    case False
    then show ?thesis using fl_inj [OF i j7, of j c] block_of_unique [OF h b(1), of j] by auto
  qed
  have bg: "a + 12 \<noteq> b" if "ar a = Some (Inr c)" for a c
    using block_ofD(1) [OF h b(1)] page_ofs_addr(2) [OF arenaD(1) [OF h that], of 12] that by auto
  have "(c, n) \<in> allocated ar (f(fl i := b # f (fl i))) \<longleftrightarrow> (c, n) \<in> allocated ar f \<and> (c, n) \<noteq> (b, bsz i)" for c n
    unfolding allocated_iff conj_assoc [symmetric] sm using bg by blast
  then show ?thesis by auto
qed

text \<open>The part of \<open>free\<close> that puts a block into its free list.\<close>

lemma push_block_ok:
  assumes h: "heap_inv s ar f" and b: "block_of ar i b" "b \<notin> set (f (fl i))"
  defines "a \<equiv> pg_round_down b" and "f' \<equiv> f(fl i := b # f (fl i))"
  shows "\<exists>lk s'. list_push_front (links s) (fl i) b = Some lk \<and>
    s' = set_word (a_free_cnt a) (get_word (a_free_cnt a) s + 1) (set_bytes b (of_nat (bsz i)) (\<lambda>_. 0xcccccccc) s\<lparr>links := lk\<rparr>) \<and>
    heap_inv s' ar f' \<and> kept s s' (allocated ar f - {(b, bsz i)}) \<and> get_word (a_free_cnt a) s' = of_nat (free_in f' i a)"
proof -
  note ba = block_ofD [OF h b(1)]
  note ac = ba(1) [folded a_def] note i = ba(2)
  have al: "(b, bsz i) \<in> allocated ar f" using b by (auto simp: allocated_def)
  have out: "outside free_lists f b" "b \<noteq> NULL"
  proof -
    have "b \<notin> set (f (fl j))" if j: "j < 7" for j
    proof
      assume bj: "b \<in> set (f (fl j))"
      then have "i = j" by (rule block_of_unique [OF h b(1) heap_invD(6) [OF h j]])
      then show False using bj b(2) by simp
    qed
    then show "outside free_lists f b" "b \<noteq> NULL"
      using outside_block [of b f] arenaD(5) [OF h ac] ba(4) by (simp_all add: a_def)
  qed
  obtain lk where lk: "list_push_front (links s) (fl i) b = Some lk" "sys lk free_lists f'"
    using sys_push_front [OF heap_invD(2) [OF h] fl_addr(3) [OF i] out] by (auto simp: f'_def)
  let ?s1 = "set_bytes b (of_nat (bsz i)) (\<lambda>_. 0xcccccccc) s\<lparr>links := lk\<rparr>"
  let ?s2 = "set_word (a_free_cnt a) (get_word (a_free_cnt a) s + 1) ?s1"
  note sb = set_bytes_frame(1,2) [OF h al order_refl, where w = "\<lambda>_. 0xcccccccc"]
  note hd = heap_invD(4) [OF h ac, unfolded header_ok_def, simplified]
  have fc: "get_word (a_free_cnt a) ?s2 = of_nat (length (filter (\<lambda>c. pg_round_down c = a) (b # f (fl i))))"
    using hd by (simp add: free_in_def a_def)
  moreover have "mem_inv ?s2" using heap_invD(1) [OF h] by simp
  ultimately have inv: "heap_inv ?s2 ar f'"
    using lk(2) cnt_word [OF arenaD(1) [OF h] arenaD(1) [OF h ac]] heap_invD(6) [OF h i] b sb(1) unfolding f'_def
    by (intro heap_inv_step [OF h ac, where xs = "b # f (fl i)" and lk = lk]) (auto simp: a_def)
  have "kept s ?s2 (allocated ar f - {(b, bsz i)})"
  proof (rule keptI)
    fix c n x assume "(c, n) \<in> allocated ar f - {(b, bsz i)}" "within x c n"
    then have c: "(c, n) \<in> allocated ar f" "(c, n) \<noteq> (b, bsz i)" "within x c n" by blast+
    have "x \<noteq> a_free_cnt a" using allocated_header [OF h c(1,3) ac] by simp
    then show "get_word x ?s2 = get_word x s" using sb(2) [OF c(1,2,3)] by simp
  qed
  moreover have "get_word (a_free_cnt a) ?s2 = of_nat (free_in f' i a)" using fc by (simp add: free_in_def f'_def)
  ultimately show ?thesis using lk(1) inv by blast
qed

lemma remove_blocks_ok:
  assumes "a \<noteq> NULL" "pg_ofs a = 0" "i < 7"
  shows "get_word (a_magic a) s = ARENA_MAGIC \<Longrightarrow> get_word (a_desc a) s = desc_at i \<Longrightarrow> descs s = map mk_desc [0..<7] \<Longrightarrow>
    sys (links s) free_lists f \<Longrightarrow> blk a i ` {k..<cnt i} \<subseteq> set (f (fl i)) \<Longrightarrow> k + n = cnt i \<Longrightarrow>
    \<exists>h. remove_blocks n (of_nat k) a s = Some (s\<lparr>links := h\<rparr>) \<and> sys h free_lists (f(fl i := filter (\<lambda>b. b \<notin> blk a i ` {k..<cnt i}) (f (fl i))))"
proof (induction n arbitrary: k s f)
  case 0
  then show ?case by (intro exI [of _ "links s"]) simp
next
  case (Suc n)
  let ?b = "blk a i k"
  have k: "k < cnt i" using Suc.prems(6) by simp
  have "?b \<in> set (f (fl i))" using Suc.prems(5) k by auto
  then obtain us vs where uv: "f (fl i) = us @ ?b # vs" by (meson split_list)
  obtain h where h: "list_remove (links s) ?b = Some (hd (vs @ [tail_of (fl i)]), h)" "sys h free_lists (f(fl i := us @ vs))"
    using sys_remove [OF Suc.prems(4) fl_addr(3) [OF assms(3)] uv] by blast
  have "distinct (f (fl i))" using sys_dll [OF Suc.prems(4) fl_addr(3) [OF assms(3)]] by (auto simp: dll_def nodes_def)
  then have nb: "?b \<notin> set us" "?b \<notin> set vs" using uv by auto
  let ?f = "f(fl i := us @ vs)"
  have "\<exists>h'. remove_blocks n (of_nat (Suc k)) a (s\<lparr>links := h\<rparr>) = Some (s\<lparr>links := h, links := h'\<rparr>) \<and>
    sys h' free_lists (?f(fl i := filter (\<lambda>b. b \<notin> blk a i ` {Suc k..<cnt i}) (?f (fl i))))"
  proof (rule Suc.IH [where f = ?f])
    have "?b \<notin> blk a i ` {Suc k..<cnt i}"
    proof
      assume "?b \<in> blk a i ` {Suc k..<cnt i}"
      then obtain x where "?b = blk a i x" "Suc k \<le> x" "x < cnt i" by auto
      then show False using blk_inj [OF assms(2) k _ assms(3), of x] by simp
    qed
    note nb = this
    have "blk a i ` {Suc k..<cnt i} \<subseteq> set (f (fl i))" by (rule order_trans [OF image_mono Suc.prems(5)]) auto
    also have "set (f (fl i)) = insert ?b (set (?f (fl i)))" using uv by auto
    finally show "blk a i ` {Suc k..<cnt i} \<subseteq> set (?f (fl i))" unfolding subset_insert [OF nb] .
  qed (use Suc.prems h in \<open>simp_all add: fun_upd_def\<close>)
  then obtain h' where h': "remove_blocks n (of_nat (Suc k)) a (s\<lparr>links := h\<rparr>) = Some (s\<lparr>links := h'\<rparr>)"
    "sys h' free_lists (f(fl i := filter (\<lambda>b. b \<notin> blk a i ` {Suc k..<cnt i}) (us @ vs)))" by auto
  have "{k..<cnt i} = insert k {Suc k..<cnt i}" using k by auto
  then have "filter (\<lambda>b. b \<notin> blk a i ` {k..<cnt i}) (f (fl i)) = filter (\<lambda>b. b \<notin> blk a i ` {Suc k..<cnt i}) (us @ vs)"
  proof -
    assume e: "{k..<cnt i} = insert k {Suc k..<cnt i}"
    have "filter (\<lambda>b. b \<notin> blk a i ` {k..<cnt i}) ws = filter (\<lambda>b. b \<notin> blk a i ` {Suc k..<cnt i}) ws" if "?b \<notin> set ws" for ws
      unfolding e by (rule filter_cong) (use that in auto)
    then show ?thesis using uv nb e by simp
  qed
  then show ?case
    using h(1) h' arena_to_block_ok [OF assms(1) Suc.prems(1,2) assms(3) Suc.prems(3) k] by (intro exI [of _ h']) (simp add: add.commute fun_upd_def)
qed

text \<open>When all blocks of an arena are free, exactly these are in its free list.\<close>

lemma arena_full:
  assumes h: "heap_inv s ar f" and a: "ar a = Some (Inl i)" and c: "free_in f i a = cnt i"
  shows "blk a i ` {0..<cnt i} = {b \<in> set (f (fl i)). pg_round_down b = a}"
proof -
  have i: "i < 7" by (rule arena_idx [OF h a])
  let ?S = "{b \<in> set (f (fl i)). pg_round_down b = a}"
  have s: "?S \<subseteq> blk a i ` {0..<cnt i}" using block_ofD(3) [OF h heap_invD(6) [OF h i]] by fastforce
  have c1: "card ?S = cnt i"
  proof -
    have "card (set (filter (\<lambda>b. pg_round_down b = a) (f (fl i)))) = free_in f i a"
      unfolding free_in_def by (intro distinct_card distinct_filter free_list_distinct [OF h i])
    then show ?thesis using c by simp
  qed
  have c2: "card (blk a i ` {0..<cnt i}) = cnt i"
  proof -
    have "inj_on (blk a i) {0..<cnt i}" using blk_inj [OF arenaD(1) [OF h a] _ _ i] by (intro inj_onI) (meson atLeastLessThan_iff)
    then show ?thesis by (simp add: card_image)
  qed
  show ?thesis by (rule card_subset_eq [OF _ s, symmetric]) (simp_all only: c1 c2 finite_imageI finite_atLeastLessThan)
qed

text \<open>Giving back an arena whose blocks are all free.\<close>

lemma release_arena_ok:
  assumes h: "heap_inv s ar f" and a: "ar a = Some (Inl i)" and c: "free_in f i a = cnt i"
  defines "f' \<equiv> f(fl i := filter (\<lambda>b. pg_round_down b \<noteq> a) (f (fl i)))"
  shows "\<exists>s1 q. remove_blocks (cnt i) 0 a s = Some s1 \<and> palloc_free_page a (pal s1) = Some q \<and> heap_inv (s1\<lparr>pal := q\<rparr>) (ar(a := None)) f' \<and>
    foreign (s1\<lparr>pal := q\<rparr>) (ar(a := None)) = foreign s ar \<and> allocated (ar(a := None)) f' = allocated ar f \<and> kept s (s1\<lparr>pal := q\<rparr>) (allocated ar f)"
proof -
  have i: "i < 7" by (rule arena_idx [OF h a])
  note full = arena_full [OF h a c] note hd = heap_invD(4) [OF h a, unfolded header_ok_def, simplified]
  have "filter (\<lambda>b. b \<notin> blk a i ` {0..<cnt i}) (f (fl i)) = filter (\<lambda>b. pg_round_down b \<noteq> a) (f (fl i))"
    unfolding full by (rule filter_cong) auto
  then obtain lk where lk: "remove_blocks (cnt i) 0 a s = Some (s\<lparr>links := lk\<rparr>)" "sys lk free_lists f'"
    using remove_blocks_ok [OF arenaD(2,1) [OF h a] i, of s f 0 "cnt i"] hd mem_invD(2) [OF heap_invD(1) [OF h]] heap_invD(2) [OF h] full
    by (auto simp: f'_def)
  have j7: "j < 7" if "block_of ar j b" for j b using block_ofD(2) [OF h that] .
  have bo: "block_of (ar(a := None)) j b \<longleftrightarrow> block_of ar j b \<and> pg_round_down b \<noteq> a" for j b
  proof
    assume "block_of (ar(a := None)) j b"
    then obtain a' k where k: "a' \<noteq> a" "ar a' = Some (Inl j)" "k < cnt j" "b = blk a' j k" by (auto simp: block_of_def split: if_splits)
    then show "block_of ar j b \<and> pg_round_down b \<noteq> a"
      using blk_page(2) [OF arenaD(1) [OF h k(2)] k(3) arena_idx [OF h k(2)]] by (auto simp: block_of_def)
  next
    assume b: "block_of ar j b \<and> pg_round_down b \<noteq> a"
    then show "block_of (ar(a := None)) j b" using block_ofD(1,3) [OF h] unfolding block_of_def by (metis fun_upd_other)
  qed
  have sf: "set (f' (fl j)) = {b \<in> set (f (fl j)). pg_round_down b \<noteq> a}" if j: "j < 7" for j
  proof (cases "j = i")
    case False
    then have "pg_round_down b \<noteq> a" if "b \<in> set (f (fl j))" for b using block_ofD(1) [OF h heap_invD(6) [OF h j that]] a by auto
    then show ?thesis using False fl_inj [OF i j] by (auto simp: f'_def)
  qed (simp add: f'_def)
  have "\<exists>q. palloc_free_multiple a 1 (pal s) = Some q \<and> heap_inv (s\<lparr>links := lk, pal := q\<rparr>) (ar(a := None)) f' \<and>
    foreign (s\<lparr>links := lk, pal := q\<rparr>) (ar(a := None)) = foreign s ar \<and>
    (\<forall>x. unat x \<notin> span a (unat (1 :: u32)) \<longrightarrow> get_word x (s\<lparr>links := lk, pal := q\<rparr>) = get_word x s)"
  proof (rule heap_inv_release [OF h a _ lk(2)])
    show "block_of (ar(a := None)) j b" if "j < 7" "b \<in> set (f' (fl j))" for j b
      using that bo sf heap_invD(6) [OF h that(1)] by auto
    show "free_in f' j b = free_in f j b" if "j < 7" "b \<noteq> a" for j b
      unfolding f'_def free_in_upd [OF i that(1)] using that(2) by (auto simp: free_in_def intro!: arg_cong [where f = length] filter_cong)
  qed (simp add: pages_of_def)
  then obtain q where q: "palloc_free_page a (pal (s\<lparr>links := lk\<rparr>)) = Some q" "heap_inv (s\<lparr>links := lk, pal := q\<rparr>) (ar(a := None)) f'"
    "\<And>x. unat x \<notin> span a 1 \<Longrightarrow> get_word x (s\<lparr>links := lk, pal := q\<rparr>) = get_word x s"
    "foreign (s\<lparr>links := lk, pal := q\<rparr>) (ar(a := None)) = foreign s ar" by (auto simp: palloc_free_page_def)
  have sm: "block_of (ar(a := None)) j b \<and> b \<notin> set (f' (fl j)) \<longleftrightarrow> block_of ar j b \<and> b \<notin> set (f (fl j))" for j b
  proof (cases "block_of ar j b \<and> pg_round_down b = a")
    case True
    then have "j = i" using block_ofD(1) [OF h, of j b] a by simp
    moreover have "b \<in> blk a i ` {0..<cnt i}" using True \<open>j = i\<close> block_ofD(3) [OF h, of j b] by auto
    ultimately show ?thesis using bo True full by auto
  next
    case False
    then show ?thesis using bo sf j7 by blast
  qed
  have "(ar(a := None)) x = Some (Inr d) \<longleftrightarrow> ar x = Some (Inr d)" for x d using a by auto
  then have "(b, n) \<in> allocated (ar(a := None)) f' \<longleftrightarrow> (b, n) \<in> allocated ar f" for b n
    unfolding allocated_iff conj_assoc [symmetric] sm by simp
  then have al: "allocated (ar(a := None)) f' = allocated ar f" by auto
  have "kept s (s\<lparr>links := lk, pal := q\<rparr>) (allocated ar f)"
  proof (rule keptI)
    fix b n x assume b: "(b, n) \<in> allocated ar f" and x: "within x b n"
    obtain k where k: "(ar(a := None)) (pg_round_down b) = Some k" "unat (pg_round_down b) + 12 \<le> unat b" "unat b + n \<le> unat (pg_round_down b) + 4096 * pages_of k"
      using allocated_arena [OF q(2), of b n] al b by blast
    then have "ar (pg_round_down b) = Some k" "pg_round_down b \<noteq> a" by (auto split: if_splits)
    then have "span (pg_round_down b) (pages_of k) \<inter> span a 1 = {}" using heap_invD(5) [OF h _ a] by (simp add: pages_of_def)
    moreover have "unat x \<in> span (pg_round_down b) (pages_of k)" using x k by (auto simp: span_def within_def)
    ultimately show "get_word x (s\<lparr>links := lk, pal := q\<rparr>) = get_word x s" using q(3) by blast
  qed
  then show ?thesis using lk(1) q(1,2,4) al by (intro exI [of _ "s\<lparr>links := lk\<rparr>"] exI [of _ q]) simp
qed

text \<open>\<open>free\<close> of a small block: the block is in the free list, and the arena is given back when it was the last one in use.\<close>

lemma free_small_eq:
  assumes h: "heap_inv s ar f" and b: "block_of ar i b" "b \<notin> set (f (fl i))"
  defines "a \<equiv> pg_round_down b" and "f' \<equiv> f(fl i := b # f (fl i))"
  shows "\<exists>s1. heap_inv s1 ar f' \<and> foreign s1 ar = foreign s ar \<and> kept s s1 (allocated ar f - {(b, bsz i)}) \<and> free_in f' i a \<le> cnt i \<and>
    free b s = (if free_in f' i a = cnt i then do {
       s \<leftarrow> remove_blocks (cnt i) 0 a s1; q \<leftarrow> palloc_free_page a (pal s); Some (s\<lparr>pal := q\<rparr>) } else Some s1)"
proof -
  note ba = block_ofD [OF h b(1)]
  let ?a = "pg_round_down b" and ?f = "f(fl i := b # f (fl i))"
  obtain k where k: "k < cnt i" "b = blk ?a i k" using ba(3) by blast
  note hd = heap_invD(4) [OF h ba(1), unfolded header_ok_def, simplified] note ds = mem_invD(2) [OF heap_invD(1) [OF h]]
  have bta: "block_to_arena b s = Some ?a"
    by (subst k(2), rule block_to_arena_ok [OF arenaD(1,2) [OF h ba(1)] _ _ ba(2) _ k(1)]) (use hd ds in simp_all)
  obtain lk s1 where s1: "list_push_front (links s) (fl i) b = Some lk"
    "s1 = set_word (a_free_cnt ?a) (get_word (a_free_cnt ?a) s + 1) (set_bytes b (of_nat (bsz i)) (\<lambda>_. 0xcccccccc) s\<lparr>links := lk\<rparr>)"
    "heap_inv s1 ar ?f" "kept s s1 (allocated ar f - {(b, bsz i)})" "get_word (a_free_cnt ?a) s1 = of_nat (free_in ?f i ?a)"
    using push_block_ok [OF h b] by blast
  have "(b, bsz i) \<in> allocated ar f" using b by (auto simp: allocated_def)
  then have wc: "get_word (a_free_cnt ?a) (set_bytes b (of_nat (bsz i)) (\<lambda>_. 0xcccccccc) s\<lparr>links := lk\<rparr>) = get_word (a_free_cnt ?a) s"
    using set_bytes_frame(1) [OF h _ order_refl ba(1)] by simp
  have bn: "b \<noteq> NULL" using arenaD(5) [OF h ba(1)] ba(4) by auto
  have u: "unat (of_nat (cnt i) :: u32) = cnt i" "free_in ?f i ?a \<le> cnt i"
    using bsz_bounds [OF ba(2)] free_in_le [OF s1(3) ba(1)] by (simp_all add: unat_of_nat32)
  then have ge: "get_word (a_free_cnt ?a) s1 \<ge> of_nat (cnt i) \<longleftrightarrow> free_in ?f i ?a = cnt i"
    unfolding s1(5) using bsz_bounds [OF ba(2)] by (auto simp: word_le_nat_alt unat_of_nat32)
  have "free b s = (if free_in ?f i ?a = cnt i then do {
       s \<leftarrow> remove_blocks (cnt i) 0 ?a s1; q \<leftarrow> palloc_free_page ?a (pal s); Some (s\<lparr>pal := q\<rparr>) } else Some s1)"
  proof -
    have s1': "set_word (a_free_cnt ?a) (get_word (a_free_cnt ?a) (set_bytes b (of_nat (bsz i)) (\<lambda>_. 0xcccccccc) s\<lparr>links := lk\<rparr>) + 1)
        (set_bytes b (of_nat (bsz i)) (\<lambda>_. 0xcccccccc) s\<lparr>links := lk\<rparr>) = s1" unfolding wc s1(2) ..
    have "free_in ?f i ?a = cnt i \<Longrightarrow> get_word (a_free_cnt ?a) s1 = of_nat (cnt i)" using s1(5) by simp
    then show ?thesis
      using bn fl_addr(4) [OF ba(2)] hd
      by (simp only: free_def bta get_desc_at [OF ba(2) ds] mk_desc_def desc.select_convs Let_def Option.bind.simps if_False if_True not_False_eq_True
          s1(1) s1' ge u(1) set_bytes_simps(1)) (simp add: ASSERT_def)
  qed
  moreover have "foreign s1 ar = foreign s ar" by (rule foreign_cong) (simp add: s1(2))
  ultimately show ?thesis using s1(3,4) u(2) unfolding a_def f'_def by blast
qed

lemma free_small_ok:
  assumes h: "heap_ok s ar f" and b: "block_of ar i b" "b \<notin> set (f (fl i))"
  shows "\<exists>s' ar' f'. free b s = Some s' \<and> heap_ok s' ar' f' \<and> foreign s' ar' = foreign s ar \<and> allocated ar' f' = allocated ar f - {(b, bsz i)} \<and>
    kept s s' (allocated ar f - {(b, bsz i)})"
proof -
  have hi: "heap_inv s ar f" and lt: "\<And>a j. ar a = Some (Inl j) \<Longrightarrow> free_in f j a < cnt j" using h by (simp_all add: heap_ok_def)
  note ba = block_ofD [OF hi b(1)]
  let ?a = "pg_round_down b" and ?f = "f(fl i := b # f (fl i))"
  obtain s1 where s1: "heap_inv s1 ar ?f" "kept s s1 (allocated ar f - {(b, bsz i)})" "free_in ?f i ?a \<le> cnt i" "foreign s1 ar = foreign s ar"
    and fr: "free b s = (if free_in ?f i ?a = cnt i then do {
       s \<leftarrow> remove_blocks (cnt i) 0 ?a s1; q \<leftarrow> palloc_free_page ?a (pal s); Some (s\<lparr>pal := q\<rparr>) } else Some s1)"
    using free_small_eq [OF hi b] by blast
  note al = alloc_push [OF hi b]
  show ?thesis
  proof (cases "free_in ?f i ?a = cnt i")
    case False
    have "free_in ?f j c < cnt j" if c: "ar c = Some (Inl j)" for c j
    proof (cases "c = ?a")
      case True
      then show ?thesis using c ba(1) False s1(3) by simp
    next
      case ne: False
      then have "free_in ?f j c = free_in f j c" using free_in_upd [OF ba(2) arena_idx [OF hi c], of f "b # f (fl i)" c] by (auto simp: free_in_def)
      then show ?thesis using lt [OF c] by simp
    qed
    then show ?thesis using fr False s1(1,2,4) al by (auto simp: heap_ok_def)
  next
    case True
    obtain s2 q where q: "remove_blocks (cnt i) 0 ?a s1 = Some s2" "palloc_free_page ?a (pal s2) = Some q"
      "heap_inv (s2\<lparr>pal := q\<rparr>) (ar(?a := None)) (?f(fl i := filter (\<lambda>b. pg_round_down b \<noteq> ?a) (?f (fl i))))"
      "allocated (ar(?a := None)) (?f(fl i := filter (\<lambda>b. pg_round_down b \<noteq> ?a) (?f (fl i)))) = allocated ar ?f"
      "kept s1 (s2\<lparr>pal := q\<rparr>) (allocated ar ?f)" "foreign (s2\<lparr>pal := q\<rparr>) (ar(?a := None)) = foreign s1 ar"
      using release_arena_ok [OF s1(1) ba(1) True] by blast
    let ?g = "?f(fl i := filter (\<lambda>b. pg_round_down b \<noteq> ?a) (?f (fl i)))"
    have "free_in ?g j c < cnt j" if c: "(ar(?a := None)) c = Some (Inl j)" for c j
    proof -
      have c': "ar c = Some (Inl j)" "c \<noteq> ?a" using c by (auto split: if_splits)
      have "free_in ?g j c = free_in f j c"
        using c'(2) free_in_upd [OF ba(2) arena_idx [OF hi c'(1)], of f "filter (\<lambda>b. pg_round_down b \<noteq> ?a) (?f (fl i))" c]
        by (auto simp: free_in_def intro!: arg_cong [where f = length] filter_cong)
      then show ?thesis using lt [OF c'(1)] by simp
    qed
    then have "heap_ok (s2\<lparr>pal := q\<rparr>) (ar(?a := None)) ?g" using q(3) by (simp add: heap_ok_def)
    moreover have "free b s = Some (s2\<lparr>pal := q\<rparr>)" using fr True q(1,2) by simp
    moreover have "kept s (s2\<lparr>pal := q\<rparr>) (allocated ar f - {(b, bsz i)})" using kept_trans [OF s1(2)] q(5) al by simp
    ultimately show ?thesis using q(4,6) s1(4) al by (intro exI conjI) auto
  qed
qed

section \<open>The allocator as a set of blocks\<close>

text \<open>
  \<open>holds s A\<close>: exactly the blocks of \<open>A\<close>, with their sizes, are allocated.  \<open>heap_state s F A\<close>: moreover every page of the
  kernel pool that is in use is a page of \<open>F\<close>, that is of a user of the page allocator other than \<open>malloc\<close>, or of an allocated block.
\<close>

definition holds :: "mheap \<Rightarrow> (addr \<times> nat) set \<Rightarrow> bool" where
  "holds s A \<longleftrightarrow> (\<exists>ar f. heap_ok s ar f \<and> A = allocated ar f)"

definition block_pages :: "(addr \<times> nat) set \<Rightarrow> nat set" where
  "block_pages A = (\<Union>(b, n)\<in>A. page_span (pg_round_down b) (pages_for n))"

definition heap_state :: "mheap \<Rightarrow> nat set \<Rightarrow> (addr \<times> nat) set \<Rightarrow> bool" where
  "heap_state s F A \<longleftrightarrow> holds s A \<and> used_pages (pal s) = F \<union> block_pages A \<and> F \<inter> block_pages A = {}"

lemma allocated_pages:
  assumes "heap_inv s ar f" and "(b, n) \<in> allocated ar f" and "ar (pg_round_down b) = Some k"
  shows "pages_for n = pages_of k"
proof (cases k)
  case (Inl i)
  then have "n = bsz i" "i < 7" using allocated_size(1) [OF assms(1,2)] arena_idx [OF assms(1)] assms(3) by auto
  then show ?thesis using bsz_bounds [of i] Inl by (simp add: pages_for_small pages_of_def)
next
  case (Inr c)
  then have "n = 4096 * unat c - 12" "0 < unat c" using allocated_size(2) [OF assms(1,2)] arenaD(3) [OF assms(1,3)] assms(3) by (auto simp: pages_of_def)
  then show ?thesis using Inr by (simp add: pages_for_def pages_of_def)
qed

lemma arena_in_use:
  assumes h: "heap_ok s ar f" and a: "ar a = Some k"
  shows "\<exists>b n. (b, n) \<in> allocated ar f \<and> pg_round_down b = a"
proof (cases k)
  case (Inl i)
  have hi: "heap_inv s ar f" and lt: "free_in f i a < cnt i" using h a Inl by (simp_all add: heap_ok_def)
  have i: "i < 7" using arena_idx [OF hi] a Inl by simp
  have "\<not> blk a i ` {0..<cnt i} \<subseteq> {b \<in> set (f (fl i)). pg_round_down b = a}"
  proof
    let ?S = "{b \<in> set (f (fl i)). pg_round_down b = a}"
    assume "blk a i ` {0..<cnt i} \<subseteq> ?S"
    moreover have "inj_on (blk a i) {0..<cnt i}" using blk_inj [OF arenaD(1) [OF hi a] _ _ i] by (intro inj_onI) (meson atLeastLessThan_iff)
    ultimately have "cnt i \<le> card ?S" using card_inj_on_le [of "blk a i" "{0..<cnt i}" ?S] by simp
    also have "\<dots> \<le> free_in f i a" unfolding free_in_def using card_length [of "filter (\<lambda>b. pg_round_down b = a) (f (fl i))"] by simp
    finally show False using lt by simp
  qed
  then obtain x where x: "x < cnt i" "blk a i x \<notin> {b \<in> set (f (fl i)). pg_round_down b = a}"
    unfolding image_subset_iff Ball_def atLeastLessThan_iff by blast
  note p = blk_page(2) [OF arenaD(1) [OF hi a] x(1) i]
  have "block_of ar i (blk a i x)" using a Inl x(1) by (auto simp: block_of_def)
  then have "(blk a i x, bsz i) \<in> allocated ar f" using x(2) p by (auto simp: allocated_def)
  then show ?thesis using p by blast
next
  case (Inr c)
  have hi: "heap_inv s ar f" using h by (simp add: heap_ok_def)
  have "pg_round_down (a + 12) = a" using page_ofs_addr(2) [OF arenaD(1) [OF hi a], of 12] by simp
  moreover have "(a + 12, 4096 * unat c - 12) \<in> allocated ar f" using a Inr by (auto simp: allocated_def)
  ultimately show ?thesis by blast
qed

lemma arena_pages_blocks:
  assumes h: "heap_ok s ar f"
  shows "arena_pages ar = block_pages (allocated ar f)"
proof -
  have hi: "heap_inv s ar f" using h by (simp add: heap_ok_def)
  have "x \<in> arena_pages ar \<longleftrightarrow> (\<exists>b n. (b, n) \<in> allocated ar f \<and> x \<in> page_span (pg_round_down b) (pages_for n))" for x
  proof
    assume "x \<in> arena_pages ar"
    then obtain a k where k: "ar a = Some k" "x \<in> page_span a (pages_of k)" unfolding arena_pages_iff by blast
    obtain b n where b: "(b, n) \<in> allocated ar f" "pg_round_down b = a" using arena_in_use [OF h k(1)] by blast
    then show "\<exists>b n. (b, n) \<in> allocated ar f \<and> x \<in> page_span (pg_round_down b) (pages_for n)"
      using allocated_pages [OF hi b(1), of k] k by (intro exI [of _ b] exI [of _ n]) simp
  next
    assume "\<exists>b n. (b, n) \<in> allocated ar f \<and> x \<in> page_span (pg_round_down b) (pages_for n)"
    then obtain b n where b: "(b, n) \<in> allocated ar f" "x \<in> page_span (pg_round_down b) (pages_for n)" by blast
    obtain k where k: "ar (pg_round_down b) = Some k" using allocated_size(3) [OF hi b(1)] by blast
    then show "x \<in> arena_pages ar" using allocated_pages [OF hi b(1) k] b(2) unfolding arena_pages_iff by auto
  qed
  then show ?thesis by (auto simp: block_pages_def)
qed

lemma heap_state_iff:
  "heap_state s F A \<longleftrightarrow> (\<exists>ar f. heap_ok s ar f \<and> A = allocated ar f \<and> foreign s ar = (F, all_pages (pal s)))"
proof
  assume "heap_state s F A"
  then obtain ar f where h: "heap_ok s ar f" "A = allocated ar f" "used_pages (pal s) = F \<union> block_pages A" "F \<inter> block_pages A = {}"
    unfolding heap_state_def holds_def by blast
  then have "used_pages (pal s) - arena_pages ar = F" unfolding arena_pages_blocks [OF h(1)] by blast
  then show "\<exists>ar f. heap_ok s ar f \<and> A = allocated ar f \<and> foreign s ar = (F, all_pages (pal s))" using h(1,2) unfolding foreign_def by blast
next
  assume "\<exists>ar f. heap_ok s ar f \<and> A = allocated ar f \<and> foreign s ar = (F, all_pages (pal s))"
  then obtain ar f where h: "heap_ok s ar f" "A = allocated ar f" "used_pages (pal s) - arena_pages ar = F" unfolding foreign_def by blast
  have hi: "heap_inv s ar f" using h(1) by (simp add: heap_ok_def)
  have "arena_pages ar \<subseteq> used_pages (pal s)"
  proof
    fix x assume "x \<in> arena_pages ar"
    then obtain a k where k: "ar a = Some k" "x \<in> page_span a (pages_of k)" unfolding arena_pages_iff by blast
    then show "x \<in> used_pages (pal s)" using held_used [OF mem_invD(1) [OF heap_invD(1) [OF hi]] heap_invD(3) [OF hi k(1)]] by blast
  qed
  then show "heap_state s F A" using h unfolding heap_state_def holds_def arena_pages_blocks [OF h(1)] by blast
qed

lemma holds_heap_state: "holds s A \<longleftrightarrow> (\<exists>F. heap_state s F A)"
  unfolding heap_state_iff holds_def foreign_def by blast

lemma heap_state_holds: "heap_state s F A \<Longrightarrow> holds s A"
  by (simp add: heap_state_def)

lemma heap_state_malloc:
  assumes "heap_state s F A" and "unat sz + 4108 \<le> 2 ^ 32"
  shows "malloc sz s = Some (NULL, s) \<and> (sz = 0 \<or> no_pages (pal s) (pages_for (unat sz))) \<or>
    (\<exists>b s' n. malloc sz s = Some (b, s') \<and> b \<noteq> NULL \<and> unat sz \<le> n \<and> pages_for n = pages_for (unat sz) \<and> heap_state s' F (insert (b, n) A) \<and>
       all_pages (pal s') = all_pages (pal s) \<and> (\<forall>m. (b, m) \<notin> A) \<and> kept s s' A)"
proof -
  obtain ar f where h: "heap_ok s ar f" "A = allocated ar f" "foreign s ar = (F, all_pages (pal s))" using assms(1) unfolding heap_state_iff by blast
  have st: "heap_state s' F B \<and> all_pages (pal s') = all_pages (pal s)" if "heap_ok s' ar' f'" "B = allocated ar' f'" "foreign s' ar' = foreign s ar" for s' ar' f' B
    using that h(3) unfolding heap_state_iff foreign_def by auto
  show ?thesis
  proof (rule disjE [OF malloc_ok [OF h(1) assms(2)]])
    assume "\<exists>b s'. malloc sz s = Some (b, s') \<and> granted s ar f sz b s'"
    then show ?thesis unfolding granted_def using st h(2) by metis
  qed blast
qed

lemma holds_malloc:
  assumes "holds s A" and "unat sz + 4108 \<le> 2 ^ 32"
  shows "malloc sz s = Some (NULL, s) \<or>
    (\<exists>b s' n. malloc sz s = Some (b, s') \<and> b \<noteq> NULL \<and> unat sz \<le> n \<and> holds s' (insert (b, n) A) \<and> (\<forall>m. (b, m) \<notin> A) \<and> kept s s' A)"
proof -
  obtain F where "heap_state s F A" using assms(1) unfolding holds_heap_state by blast
  from heap_state_malloc [OF this assms(2)] show ?thesis using heap_state_holds by metis
qed

lemma heap_state_free:
  assumes "heap_state s F A" and "(b, n) \<in> A"
  shows "\<exists>s'. free b s = Some s' \<and> heap_state s' F (A - {(b, n)}) \<and> kept s s' (A - {(b, n)})"
proof -
  obtain ar f where h: "heap_ok s ar f" "A = allocated ar f" "foreign s ar = (F, all_pages (pal s))" using assms(1) unfolding heap_state_iff by blast
  have st: "heap_state s' F B" if "heap_ok s' ar' f'" "B = allocated ar' f'" "foreign s' ar' = foreign s ar" for s' ar' f' B
    using that h(3) unfolding heap_state_iff foreign_def by auto
  from assms(2) [unfolded h(2)] show ?thesis
  proof (cases rule: allocated_cases)
    case (small i)
    then show ?thesis using free_small_ok [OF h(1) small(1,2)] st unfolding h(2) by metis
  next
    case (big a c)
    then show ?thesis using free_big_ok [OF h(1) big(1)] st unfolding h(2) by metis
  qed
qed

lemma holds_free:
  assumes "holds s A" and "(b, n) \<in> A"
  shows "\<exists>s'. free b s = Some s' \<and> holds s' (A - {(b, n)}) \<and> kept s s' (A - {(b, n)})"
  using assms heap_state_free heap_state_holds unfolding holds_heap_state by metis

lemma holds_disjoint:
  assumes "holds s A" and "(b, n) \<in> A" and "(c, m) \<in> A" and "b \<noteq> c"
  shows "unat b + n \<le> unat c \<or> unat c + m \<le> unat b"
  using assms allocated_disjoint unfolding holds_def heap_ok_def by blast

text \<open>A heap determines the elements of a list, so the free blocks are those of the abstraction, and no allocated block overlaps
  one of them.\<close>

lemma chain_unique:
  "chain h (x # xs @ [e]) \<Longrightarrow> chain h (x # ys @ [e]) \<Longrightarrow> e \<notin> set xs \<Longrightarrow> e \<notin> set ys \<Longrightarrow> xs = ys"
proof (induction xs arbitrary: x ys)
  case Nil
  then show ?case by (cases ys) auto
next
  case (Cons z zs)
  then obtain y us where ys: "ys = y # us" by (cases ys) auto
  then show ?case using Cons.prems Cons.IH [of z us] by auto
qed

lemma dll_unique: "dll h l xs \<Longrightarrow> dll h l ys \<Longrightarrow> xs = ys"
  by (rule chain_unique [of h "head_of l" xs "tail_of l"]) (auto simp: dll_def nodes_def)

lemma holds_free_disjoint:
  assumes "holds s A" and "(b, n) \<in> A" and "i < 7" and "dll (links s) (fl i) xs" and "x \<in> set xs"
  shows "unat b + n \<le> unat x \<or> unat x + bsz i \<le> unat b"
proof -
  obtain ar f where h: "heap_inv s ar f" "A = allocated ar f" using assms(1) by (auto simp: holds_def heap_ok_def)
  have "xs = f (fl i)" by (rule dll_unique [OF assms(4) sys_dll [OF heap_invD(2) [OF h(1)] fl_addr(3) [OF assms(3)]]])
  then have x: "x \<in> set (f (fl i))" using assms(5) by simp
  then have bo: "block_of ar i x" by (rule heap_invD(6) [OF h(1) assms(3)])
  then have "(x, bsz i) \<in> allocated ar (\<lambda>_. [])" "(b, n) \<in> allocated ar (\<lambda>_. [])" using assms(2) h(2) by (auto simp: allocated_def)
  moreover have "b \<noteq> x"
  proof
    assume "b = x"
    then have "(x, n) \<in> allocated ar f" using assms(2) h(2) by simp
    then show False using allocated_arena [OF h(1), of x n f] block_ofD(1) [OF h(1) bo] x by auto
  qed
  ultimately show ?thesis using allocated_disjoint [OF h(1)] by blast
qed

lemma holds_block:
  assumes "holds s A" and "(b, n) \<in> A"
  shows "b \<noteq> NULL" "unat b + n \<le> 2 ^ 32" "\<And>m. (b, m) \<in> A \<Longrightarrow> m = n" "4 dvd unat b"
proof -
  obtain ar f where h: "heap_inv s ar f" "A = allocated ar f" using assms(1) by (auto simp: holds_def heap_ok_def)
  note b = assms(2) [unfolded h(2)]
  obtain k where k: "ar (pg_round_down b) = Some k" "unat (pg_round_down b) + 12 \<le> unat b" "unat b + n \<le> unat (pg_round_down b) + 4096 * pages_of k"
    using allocated_arena [OF h(1) b] by blast
  show "b \<noteq> NULL" using k(2) by auto
  show "unat b + n \<le> 2 ^ 32" using k(3) arenaD(4) [OF h(1) k(1)] by linarith
  show "m = n" if "(b, m) \<in> A" for m using allocated_unique [OF h(1) b] that h(2) by auto
  have pa: "4 dvd unat a" if "ar a = Some k" for a k
    using arenaD(1) [OF h(1) that] by (auto simp: aligned_dvd intro: dvd_trans [of 4 4096])
  from b show "4 dvd unat b"
  proof (cases rule: allocated_cases)
    case (small i)
    note ba = block_ofD [OF h(1) small(1)]
    obtain x where x: "x < cnt i" "b = blk (pg_round_down b) i x" using ba(3) by blast
    have "unat b = unat (pg_round_down b) + 12 + x * bsz i" using blk_page(1) [OF arenaD(1) [OF h(1) ba(1)] x(1) ba(2)] x(2) by simp
    moreover have "4 dvd bsz i" by (simp add: bsz_def le_imp_power_dvd [of 2 "4 + i" 2, simplified])
    ultimately show ?thesis using pa [OF ba(1)] by (simp add: dvd_add)
  next
    case (big a c)
    have "unat b = unat a + 12" using page_ofs_addr(1) [OF arenaD(1) [OF h(1) big(1)], of 12] big(2) by simp
    then show ?thesis using pa [OF big(1)] by simp
  qed
qed

lemma byte_merge:
  fixes v w :: u32
  assumes "k < r"
  shows "(ucast (drop_bit (8 * k) (merge_bytes r w v)) :: u8) = ucast (drop_bit (8 * k) w)"
proof (cases "r \<ge> 4")
  case False
  have "bit ((w AND mask (8 * r)) OR (v AND NOT (mask (8 * r)))) (8 * k + i) = bit w (8 * k + i)" if "i < 8" for i
    using that assms False by (auto simp: bit_simps)
  then show ?thesis using False by (intro bit_word_eqI) (simp add: merge_bytes_def bit_simps ac_simps)
qed (simp add: merge_bytes_def)

lemma heap_state_set_bytes:
  assumes "heap_state s F A" and "(b, n) \<in> A" and "unat m \<le> n"
  shows "heap_state (set_bytes b m w s) F A" "kept s (set_bytes b m w s) (A - {(b, n)})"
    "j < unat m \<Longrightarrow> byte_of b j (set_bytes b m w s) = ucast (drop_bit (8 * (j mod 4)) (w (of_nat (4 * (j div 4)))))"
proof -
  obtain ar f where h: "heap_ok s ar f" "heap_inv s ar f" "A = allocated ar f" "foreign s ar = (F, all_pages (pal s))"
    using assms(1) unfolding heap_state_iff heap_ok_def by blast
  have m: "m = of_nat (unat m)" by simp
  note fr = set_bytes_frame [OF h(2) assms(2) [unfolded h(3)] assms(3), folded m]
  have "heap_inv (set_bytes b m w s) ar f"
    using h(2) fr(1) held_cong [of "pal (set_bytes b m w s)" "pal s"] unfolding heap_inv_def header_ok_def by (simp split: sum.splits)
  moreover have "foreign (set_bytes b m w s) ar = (F, all_pages (pal (set_bytes b m w s)))" using h(4) foreign_cong [of "set_bytes b m w s" s ar]
    by (simp add: foreign_def)
  ultimately show "heap_state (set_bytes b m w s) F A" unfolding heap_state_iff using h(1,3) by (auto simp: heap_ok_def)
  show "kept s (set_bytes b m w s) (A - {(b, n)})" by (rule keptI) (use fr(2) h(3) in blast)
  assume j: "j < unat m"
  define k where "k = j div 4"
  have k: "4 * k + j mod 4 = j" "4 * k \<le> j" by (simp_all add: k_def)
  have u: "unat (of_nat (4 * k) :: u32) = 4 * k" by (rule unat_of_nat32) (use k j unat_lt32 [of m] in simp)
  then have "(of_nat (4 * k) :: u32) < m" "of_nat (4 * k) \<le> m" using k j by (simp_all add: word_less_nat_alt word_le_nat_alt)
  moreover from this have "j mod 4 < unat (m - of_nat (4 * k))" using u k j by (simp add: unat_sub)
  ultimately show "byte_of b j (set_bytes b m w s) = ucast (drop_bit (8 * (j mod 4)) (w (of_nat (4 * (j div 4)))))"
    unfolding byte_of_def k_def [symmetric] by (simp add: set_bytes_def byte_merge)
qed

lemma holds_set_bytes:
  assumes "holds s A" and "(b, n) \<in> A" and "unat m \<le> n"
  shows "holds (set_bytes b m w s) A"
  using assms heap_state_set_bytes(1) unfolding holds_heap_state by blast

lemma kept_byte:
  assumes "heap_state s F A" and "kept s s' B" and "(b, n) \<in> B" and "(b, n) \<in> A" and "j < n"
  shows "byte_of b j s' = byte_of b j s"
proof -
  have "unat b + n \<le> 2 ^ 32" by (rule holds_block(2) [OF heap_state_holds [OF assms(1)] assms(4)])
  moreover have "4 * (j div 4) \<le> j" by simp
  ultimately have "within (b + of_nat (4 * (j div 4))) b n" using unat_ofs [of b "4 * (j div 4)"] assms(5) by (simp add: within_def)
  then have "get_word (b + of_nat (4 * (j div 4))) s' = get_word (b + of_nat (4 * (j div 4))) s" using assms(2,3) unfolding kept_def by blast
  then show ?thesis by (simp add: byte_of_def get_word_def)
qed

text \<open>A small request takes at most one page.\<close>

definition free_page_cnt :: "mheap \<Rightarrow> nat" where
  "free_page_cnt s = card (all_pages (pal s) - used_pages (pal s))"

lemma pg_round_down_aligned: "pg_ofs (pg_round_down b) = 0"
  by (simp add: pg_ofs_def pg_round_down_def PGMASK_eq bit_eq_iff bit_simps)

lemma page_span_1:
  assumes "4096 dvd unat a"
  shows "page_span a 1 = {unat a}"
proof -
  obtain k where k: "unat a = 4096 * k" using assms by (rule dvdE)
  have "x = unat a" if x: "x \<in> page_span a 1" for x
  proof -
    obtain l where l: "x = 4096 * l" using x unfolding page_span_def by (blast elim: dvdE)
    have "k \<le> l" "l < Suc k" using x k l by (simp_all add: page_span_def span_def)
    then show ?thesis using k l by simp
  qed
  moreover have "unat a \<in> page_span a 1" using assms by (simp add: page_span_def span_def)
  ultimately show ?thesis by blast
qed

lemma free_page_cnt_malloc:
  assumes "heap_state s F A" and "heap_state s' F (insert (b, n) A)" and "all_pages (pal s') = all_pages (pal s)" and "pages_for n = 1"
  shows "free_page_cnt s \<le> Suc (free_page_cnt s')"
proof -
  have "page_span (pg_round_down b) 1 = {unat (pg_round_down b)}"
    by (rule page_span_1) (use pg_round_down_aligned [of b] in \<open>simp add: aligned_dvd\<close>)
  then have "used_pages (pal s') \<subseteq> insert (unat (pg_round_down b)) (used_pages (pal s))"
    using assms unfolding heap_state_def block_pages_def by auto
  then have "all_pages (pal s) - used_pages (pal s) \<subseteq> insert (unat (pg_round_down b)) (all_pages (pal s') - used_pages (pal s'))"
    unfolding assms(3) by blast
  then have "card (all_pages (pal s) - used_pages (pal s)) \<le> card (insert (unat (pg_round_down b)) (all_pages (pal s') - used_pages (pal s')))"
    by (intro card_mono) (simp_all add: used_pages_sub(2))
  also have "\<dots> \<le> Suc (card (all_pages (pal s') - used_pages (pal s')))" by (simp add: card_insert_if used_pages_sub(2))
  finally show ?thesis unfolding free_page_cnt_def .
qed

lemma free_page_cnt_0:
  assumes "heap_state s F A" and "no_pages (pal s) 1"
  shows "free_page_cnt s = 0"
proof -
  have "phys_ok (pal s)" using assms(1) unfolding heap_state_iff heap_ok_def heap_inv_def mem_inv_def by blast
  then show ?thesis using assms(2) no_pages_1 unfolding free_page_cnt_def by simp
qed

text \<open>What the clients of an allocator rely on: a request gives a block of the size asked for, or fails and changes
  nothing; a release takes exactly the block away; blocks do not overlap.  While there is room a light request does not fail, and it
  takes at most one unit of the room.\<close>

fun alloc_all :: "(u32 \<Rightarrow> 's \<Rightarrow> (addr \<times> 's) option) \<Rightarrow> u32 list \<Rightarrow> 's \<Rightarrow> (addr list \<times> 's) option" where
  "alloc_all alloc [] s = Some ([], s)"
| "alloc_all alloc (sz # szs) s = do {
     (b, s) \<leftarrow> alloc sz s;
     (bs, s) \<leftarrow> alloc_all alloc szs s;
     Some (if b = NULL then bs else b # bs, s)
   }"

fun free_all :: "(addr \<Rightarrow> 's \<Rightarrow> 's option) \<Rightarrow> addr list \<Rightarrow> 's \<Rightarrow> 's option" where
  "free_all dealloc [] s = Some s"
| "free_all dealloc (b # bs) s = do {
     s \<leftarrow> dealloc b s;
     free_all dealloc bs s
   }"

locale block_allocator =
  fixes inv :: "'s \<Rightarrow> (addr \<times> nat) set \<Rightarrow> bool" and fits :: "u32 \<Rightarrow> bool" and light :: "u32 \<Rightarrow> bool" and room :: "'s \<Rightarrow> nat"
    and alloc :: "u32 \<Rightarrow> 's \<Rightarrow> (addr \<times> 's) option" and dealloc :: "addr \<Rightarrow> 's \<Rightarrow> 's option"
  assumes alloc: "inv s A \<Longrightarrow> fits sz \<Longrightarrow> \<exists>b s'. alloc sz s = Some (b, s') \<and>
      (if b = NULL then s' = s \<and> (light sz \<longrightarrow> room s = 0)
       else (light sz \<longrightarrow> room s \<le> Suc (room s')) \<and> (\<exists>n. unat sz \<le> n \<and> inv s' (insert (b, n) A) \<and> b \<notin> fst ` A))"
    and dealloc: "inv s A \<Longrightarrow> (b, n) \<in> A \<Longrightarrow> \<exists>s'. dealloc b s = Some s' \<and> inv s' (A - {(b, n)})"
    and one_size: "inv s A \<Longrightarrow> (b, n) \<in> A \<Longrightarrow> (b, m) \<in> A \<Longrightarrow> n = m"
begin

lemma alloc_many:
  "inv s A \<Longrightarrow> \<forall>sz\<in>set szs. fits sz \<Longrightarrow>
     \<exists>bs s' B. alloc_all alloc szs s = Some (bs, s') \<and> inv s' (A \<union> B) \<and> distinct bs \<and> fst ` B = set bs \<and> set bs \<inter> fst ` A = {} \<and> inj_on fst B \<and>
       ((\<forall>sz\<in>set szs. light sz) \<and> length szs \<le> room s \<longrightarrow> length bs = length szs)"
proof (induction szs arbitrary: s A)
  case Nil
  then show ?case by (auto intro: exI [of _ "{}"])
next
  case (Cons sz szs)
  obtain b s1 where b: "alloc sz s = Some (b, s1)" "if b = NULL then s1 = s \<and> (light sz \<longrightarrow> room s = 0)
     else (light sz \<longrightarrow> room s \<le> Suc (room s1)) \<and> (\<exists>n. unat sz \<le> n \<and> inv s1 (insert (b, n) A) \<and> b \<notin> fst ` A)"
    using alloc [OF Cons.prems(1)] Cons.prems(2) by fastforce
  show ?case
  proof (cases "b = NULL")
    case True
    then have nl: "s1 = s" "\<not> (light sz \<and> Suc (length szs) \<le> room s)" using b(2) by auto
    obtain bs s2 B where i: "alloc_all alloc szs s = Some (bs, s2)" "inv s2 (A \<union> B)" "distinct bs" "fst ` B = set bs"
      "set bs \<inter> fst ` A = {}" "inj_on fst B" using Cons.IH [OF Cons.prems(1)] Cons.prems(2) by auto
    then have "alloc_all alloc (sz # szs) s = Some (bs, s2)" using b(1) True nl(1) by simp
    then show ?thesis using i nl(2) by (intro exI [of _ bs] exI [of _ s2] exI [of _ B]) auto
  next
    case False
    then obtain n where n: "inv s1 (insert (b, n) A)" "b \<notin> fst ` A" and rm: "light sz \<longrightarrow> room s \<le> Suc (room s1)" using b(2) by auto
    obtain bs s2 B where i: "alloc_all alloc szs s1 = Some (bs, s2)" "inv s2 (insert (b, n) A \<union> B)" "distinct bs" "fst ` B = set bs"
      "set bs \<inter> fst ` insert (b, n) A = {}" "inj_on fst B"
      and ln: "(\<forall>sz\<in>set szs. light sz) \<and> length szs \<le> room s1 \<longrightarrow> length bs = length szs" using Cons.IH [OF n(1)] Cons.prems(2) by auto
    then have "alloc_all alloc (sz # szs) s = Some (b # bs, s2) \<and> inv s2 (A \<union> insert (b, n) B) \<and> distinct (b # bs) \<and>
      fst ` insert (b, n) B = set (b # bs) \<and> set (b # bs) \<inter> fst ` A = {} \<and> inj_on fst (insert (b, n) B) \<and>
      ((\<forall>z\<in>set (sz # szs). light z) \<and> length (sz # szs) \<le> room s \<longrightarrow> length (b # bs) = length (sz # szs))"
      using b(1) False n(2) rm ln by auto
    then show ?thesis by blast
  qed
qed

lemma free_many:
  "inv s (A \<union> B) \<Longrightarrow> fst ` B = set bs \<Longrightarrow> distinct bs \<Longrightarrow> set bs \<inter> fst ` A = {} \<Longrightarrow> inj_on fst B \<Longrightarrow> \<exists>s'. free_all dealloc bs s = Some s' \<and> inv s' A"
proof (induction bs arbitrary: s B)
  case (Cons b bs)
  have "b \<in> fst ` B" using Cons.prems(2) by simp
  then obtain n where n: "(b, n) \<in> B" by force
  obtain s1 where s1: "dealloc b s = Some s1" "inv s1 (A \<union> B - {(b, n)})" using dealloc [OF Cons.prems(1)] n by blast
  have "A \<union> B - {(b, n)} = A \<union> (B - {(b, n)})" using Cons.prems(4) by force
  moreover have "fst ` (B - {(b, n)}) = set bs"
    using inj_on_image_set_diff [OF Cons.prems(5), of B "{(b, n)}"] n Cons.prems(2,3) by auto
  ultimately show ?case using Cons.IH [of s1 "B - {(b, n)}"] s1 Cons.prems(3,4,5) by (auto simp: inj_on_diff)
qed simp

lemma balanced:
  assumes "inv s A" and "\<forall>sz\<in>set szs. fits sz"
  shows "\<exists>bs s'. alloc_all alloc szs s = Some (bs, s') \<and> ((\<forall>sz\<in>set szs. light sz) \<and> length szs \<le> room s \<longrightarrow> length bs = length szs) \<and> (\<forall>cs. mset cs = mset bs \<longrightarrow> (\<exists>s''. free_all dealloc cs s' = Some s'' \<and> inv s'' A))"
proof -
  obtain bs s' B where r: "alloc_all alloc szs s = Some (bs, s')" "inv s' (A \<union> B)" "distinct bs" "fst ` B = set bs" "set bs \<inter> fst ` A = {}" "inj_on fst B"
    "(\<forall>sz\<in>set szs. light sz) \<and> length szs \<le> room s \<longrightarrow> length bs = length szs"
    using alloc_many [OF assms] by blast
  have "\<exists>s''. free_all dealloc cs s' = Some s'' \<and> inv s'' A" if "mset cs = mset bs" for cs
    using free_many [OF r(2), of cs] r(3-6) that by (metis mset_eq_imp_distinct_iff set_mset_mset)
  then show ?thesis using r(1,7) by blast
qed

end

interpretation heap: block_allocator "\<lambda>s. heap_state s F" "\<lambda>sz. unat sz + 4108 \<le> 2 ^ 32" "\<lambda>sz. 0 < unat sz \<and> unat sz \<le> 1024"
  free_page_cnt malloc free for F
proof
  show "\<exists>b s'. malloc sz s = Some (b, s') \<and>
      (if b = NULL then s' = s \<and> (0 < unat sz \<and> unat sz \<le> 1024 \<longrightarrow> free_page_cnt s = 0)
       else (0 < unat sz \<and> unat sz \<le> 1024 \<longrightarrow> free_page_cnt s \<le> Suc (free_page_cnt s')) \<and>
         (\<exists>n. unat sz \<le> n \<and> heap_state s' F (insert (b, n) A) \<and> b \<notin> fst ` A))"
    if h: "heap_state s F A" and z: "unat sz + 4108 \<le> 2 ^ 32" for s A sz
  proof (rule disjE [OF heap_state_malloc [OF h z]])
    assume n: "malloc sz s = Some (NULL, s) \<and> (sz = 0 \<or> no_pages (pal s) (pages_for (unat sz)))"
    then have "free_page_cnt s = 0" if "0 < unat sz" "unat sz \<le> 1024" using free_page_cnt_0 [OF h] that by (auto simp: pages_for_small)
    then show ?thesis using n by simp
  next
    assume "\<exists>b s' n. malloc sz s = Some (b, s') \<and> b \<noteq> NULL \<and> unat sz \<le> n \<and> pages_for n = pages_for (unat sz) \<and> heap_state s' F (insert (b, n) A) \<and>
       all_pages (pal s') = all_pages (pal s) \<and> (\<forall>m. (b, m) \<notin> A) \<and> kept s s' A"
    then obtain b s' n where m: "malloc sz s = Some (b, s')" "b \<noteq> NULL" "unat sz \<le> n" "pages_for n = pages_for (unat sz)" "heap_state s' F (insert (b, n) A)"
      "all_pages (pal s') = all_pages (pal s)" "\<forall>m. (b, m) \<notin> A" by blast
    have "free_page_cnt s \<le> Suc (free_page_cnt s')" if "0 < unat sz" "unat sz \<le> 1024"
      by (rule free_page_cnt_malloc [OF h m(5,6)]) (use m(4) that in \<open>simp add: pages_for_small\<close>)
    moreover have "b \<notin> fst ` A" using m(7) by auto
    ultimately show ?thesis using m(1,2,3,5) by (intro exI [of _ b] exI [of _ s']) auto
  qed
  show "\<exists>s'. free b s = Some s' \<and> heap_state s' F (A - {(b, n)})" if "heap_state s F A" "(b, n) \<in> A" for s A b n
    using heap_state_free [OF that] by blast
  show "n = m" if "heap_state s F A" "(b, n) \<in> A" "(b, m) \<in> A" for s A b n m
    using holds_block(3) [OF heap_state_holds [OF that(1)] that(3,2)] .
qed

section \<open>Initialisation and the other entry points\<close>

lemma init_loop_ok:
  "i + n = 7 \<Longrightarrow> descs s = map mk_desc [0..<i] \<Longrightarrow> sys (links s) (fl ` {..<i}) (\<lambda>_. []) \<Longrightarrow>
     \<exists>h. malloc_init_loop (of_nat (bsz i)) s = Some (s\<lparr>descs := map mk_desc [0..<7], links := h\<rparr>) \<and> sys h (fl ` {..<7}) (\<lambda>_. [])"
proof (induction n arbitrary: i s)
  case 0
  then have "i = 7" by simp
  then show ?case using 0 by (intro exI [of _ "links s"]) (simp add: malloc_init_loop.simps PGSIZE_eq bsz_def)
next
  case (Suc n)
  then have i: "i < 7" by simp
  have out: "outside (fl ` {..<i}) (\<lambda>_. []) (fl i)" "outside (fl ` {..<i}) (\<lambda>_. []) (tail_of (fl i))"
  proof -
    have "fl i \<noteq> fl j \<and> fl i \<noteq> tail_of (fl j) \<and> tail_of (fl i) \<noteq> fl j \<and> tail_of (fl i) \<noteq> tail_of (fl j)" if "j < i" for j
      using fl_addr(1,2) [OF i] fl_addr(1,2) [of j] that i by auto
    then show "outside (fl ` {..<i}) (\<lambda>_. []) (fl i)" "outside (fl ` {..<i}) (\<lambda>_. []) (tail_of (fl i))"
      by (auto simp: outside_def nodes_def head_of_def)
  qed
  have "fl i \<noteq> NULL" "tail_of (fl i) \<noteq> NULL" using fl_addr(1,2) [OF i] by auto
  then obtain h where h: "list_init (links s) (fl i) = Some h" "sys h (insert (fl i) (fl ` {..<i})) ((\<lambda>_. [])(fl i := []))"
    using sys_init [OF Suc.prems(3) _ _ out] by blast
  let ?s = "s\<lparr>descs := map mk_desc [0..<Suc i], links := h\<rparr>"
  have "\<exists>h'. malloc_init_loop (of_nat (bsz (Suc i))) ?s = Some (?s\<lparr>descs := map mk_desc [0..<7], links := h'\<rparr>) \<and> sys h' (fl ` {..<7}) (\<lambda>_. [])"
    by (rule Suc.IH) (use Suc.prems h in \<open>simp_all add: lessThan_Suc fun_upd_def\<close>)
  moreover have "malloc_init_loop (of_nat (bsz i)) s = malloc_init_loop (of_nat (bsz (Suc i))) ?s"
  proof -
    have "(of_nat (bsz i) :: u32) < PGSIZE div 2" "of_nat (bsz i) * 2 = (of_nat (bsz (Suc i)) :: u32)"
      "(PGSIZE - ARENA_SIZE) div of_nat (bsz i) = of_nat (cnt i)" "length (descs s) = i" "i + 1 \<le> 10"
      using seven [OF i] Suc.prems(2) by (auto simp: bsz_def cnt_def PGSIZE_eq ARENA_SIZE_def)
    then show ?thesis using h(1) Suc.prems(2) by (subst malloc_init_loop.simps) (simp add: mk_desc_def [of i] Let_def)
  qed
  ultimately show ?case by auto
qed

lemma malloc_init_ok:
  assumes "phys_ok (pal s)" and "unat PHYS_BASE + 2 ^ 20 < unat (base (kernel_pool (pal s)))" and "descs s = []"
  shows "\<exists>s'. malloc_init s = Some s' \<and> pal s' = pal s \<and> heap_state s' (used_pages (pal s)) {}"
proof -
  obtain h where h: "malloc_init_loop (of_nat (bsz 0)) s = Some (s\<lparr>descs := map mk_desc [0..<7], links := h\<rparr>)" "sys h (fl ` {..<7}) (\<lambda>_. [])"
    using init_loop_ok [of 0 7 s] assms(3) by (auto simp: sys_def)
  let ?s = "s\<lparr>descs := map mk_desc [0..<7], links := h\<rparr>"
  have "heap_ok ?s (\<lambda>_. None) (\<lambda>_. [])" using assms(1,2) h(2) by (simp add: heap_ok_def heap_inv_def mem_inv_def free_lists_def)
  then have "holds ?s {}" unfolding holds_def by (intro exI conjI) (auto simp: allocated_def block_of_def)
  then have "heap_state ?s (used_pages (pal s)) {}" by (simp add: heap_state_def block_pages_def)
  then show ?thesis using h(1) by (simp add: malloc_init_def bsz_def)
qed

lemma holds_block_size:
  assumes "holds s A" and "(b, n) \<in> A"
  shows "malloc_block_size b s = Some (of_nat n)"
proof -
  obtain ar f where h: "heap_inv s ar f" "A = allocated ar f" using assms(1) by (auto simp: holds_def heap_ok_def)
  from assms(2) [unfolded h(2)] show ?thesis
  proof (cases rule: allocated_cases)
    case (small i)
    note ba = block_ofD [OF h(1) small(1)]
    obtain k where k: "k < cnt i" "b = blk (pg_round_down b) i k" using ba(3) by blast
    note hd = heap_invD(4) [OF h(1) ba(1), unfolded header_ok_def, simplified] note ds = mem_invD(2) [OF heap_invD(1) [OF h(1)]]
    have "block_to_arena b s = Some (pg_round_down b)"
      by (subst k(2), rule block_to_arena_ok [OF arenaD(1,2) [OF h(1) ba(1)] _ _ ba(2) _ k(1)]) (use hd ds in simp_all)
    then show ?thesis using hd get_desc_at [OF ba(2) ds] fl_addr(4) [OF ba(2)] small(3) by (simp add: malloc_block_size_def mk_desc_def Let_def)
  next
    case (big a c)
    note p = page_ofs_addr [OF arenaD(1) [OF h(1) big(1)], of 12, simplified]
    note hd = heap_invD(4) [OF h(1) big(1), unfolded header_ok_def, simplified]
    have "block_to_arena b s = Some a" using p hd arenaD(2) [OF h(1) big(1)] big(2) by (simp add: block_to_arena_def ARENA_SIZE_def)
    moreover have "PGSIZE * c - 12 = of_nat (4096 * unat c - 12)"
      using arenaD(3) [OF h(1) big(1)] by (simp add: pages_of_def PGSIZE_eq of_nat_diff)
    ultimately show ?thesis using hd p(3) big(2,3) by (simp add: malloc_block_size_def Let_def)
  qed
qed


section \<open>Properties\<close>

text \<open>C9: \<^verbatim>\<open>malloc\<close> and \<^verbatim>\<open>free\<close> implement a set of disjoint blocks.  After \<^verbatim>\<open>malloc_init\<close> the set is empty.  A request of up
  to \<open>2 ^ 32 - 4108\<close> bytes returns.  It gives null, with an unchanged state, only for size 0 or when the pool has no group of as many free
  pages as the bytes and an arena header need; else a new block of at least the size asked for, at a multiple of four.  A
  release of an allocated block returns and takes exactly this block away.  Before and after, the pages of the pool in use are the pages \<open>F\<close>
  of its other users and the pages of the allocated blocks, so a release gives the pages of the last block in them back.  Neither changes a word of
  another allocated block, and no allocated block overlaps another one or a block of a free list.\<close>

theorem malloc_free_correct:
  assumes "phys_ok (pal s0)" and "unat PHYS_BASE + 2 ^ 20 < unat (base (kernel_pool (pal s0)))" and "descs s0 = []"
  shows "(\<exists>s. malloc_init s0 = Some s \<and> pal s = pal s0 \<and> heap_state s (used_pages (pal s0)) {}) \<and>
    (\<forall>s F A sz. heap_state s F A \<and> unat sz + 4108 \<le> 2 ^ 32 \<longrightarrow>
       malloc sz s = Some (NULL, s) \<and> (sz = 0 \<or> no_pages (pal s) (pages_for (unat sz))) \<or>
       (\<exists>b s' n. malloc sz s = Some (b, s') \<and> b \<noteq> NULL \<and> unat sz \<le> n \<and> 4 dvd unat b \<and> heap_state s' F (insert (b, n) A) \<and> b \<notin> fst ` A \<and> kept s s' A)) \<and>
    (\<forall>s F A b n. heap_state s F A \<and> (b, n) \<in> A \<longrightarrow>
       (\<exists>s'. free b s = Some s' \<and> heap_state s' F (A - {(b, n)}) \<and> kept s s' (A - {(b, n)}))) \<and>
    (\<forall>s F A b n c m. heap_state s F A \<and> (b, n) \<in> A \<and> (c, m) \<in> A \<and> b \<noteq> c \<longrightarrow> {unat b..<unat b + n} \<inter> {unat c..<unat c + m} = {}) \<and>
    (\<forall>s F A b n i xs x. heap_state s F A \<and> (b, n) \<in> A \<and> i < 7 \<and> dll (links s) (free_list (desc_at i)) xs \<and> x \<in> set xs \<longrightarrow>
       {unat b..<unat b + n} \<inter> {unat x..<unat x + 2 ^ (4 + i)} = {})"
proof (intro conjI allI impI; (elim conjE)?)
  show "\<exists>s. malloc_init s0 = Some s \<and> pal s = pal s0 \<and> heap_state s (used_pages (pal s0)) {}" using malloc_init_ok [OF assms] by blast
  show "malloc sz s = Some (NULL, s) \<and> (sz = 0 \<or> no_pages (pal s) (pages_for (unat sz))) \<or>
       (\<exists>b s' n. malloc sz s = Some (b, s') \<and> b \<noteq> NULL \<and> unat sz \<le> n \<and> 4 dvd unat b \<and> heap_state s' F (insert (b, n) A) \<and> b \<notin> fst ` A \<and> kept s s' A)"
    if h: "heap_state s F A" and z: "unat sz + 4108 \<le> 2 ^ 32" for s F A sz
  proof (rule disjE [OF heap_state_malloc [OF h z]])
    assume "\<exists>b s' n. malloc sz s = Some (b, s') \<and> b \<noteq> NULL \<and> unat sz \<le> n \<and> pages_for n = pages_for (unat sz) \<and> heap_state s' F (insert (b, n) A) \<and>
       all_pages (pal s') = all_pages (pal s) \<and> (\<forall>m. (b, m) \<notin> A) \<and> kept s s' A"
    then obtain b s' n where m: "malloc sz s = Some (b, s')" "b \<noteq> NULL" "unat sz \<le> n" "heap_state s' F (insert (b, n) A)" "\<forall>m. (b, m) \<notin> A" "kept s s' A"
      by blast
    moreover have "4 dvd unat b" by (rule holds_block(4) [OF heap_state_holds [OF m(4)] insertI1])
    moreover have "b \<notin> fst ` A" using m(5) by auto
    ultimately show ?thesis by (intro disjI2 exI conjI)
  qed blast
  show "\<exists>s'. free b s = Some s' \<and> heap_state s' F (A - {(b, n)}) \<and> kept s s' (A - {(b, n)})" if "heap_state s F A" "(b, n) \<in> A" for s F A b n
    by (rule heap_state_free [OF that])
  show "{unat b..<unat b + n} \<inter> {unat c..<unat c + m} = {}" if "heap_state s F A" "(b, n) \<in> A" "(c, m) \<in> A" "b \<noteq> c" for s F A b n c m
    using holds_disjoint [OF heap_state_holds [OF that(1)] that(2-4)] by auto
  show "{unat b..<unat b + n} \<inter> {unat x..<unat x + 2 ^ (4 + i)} = {}"
    if "heap_state s F A" "(b, n) \<in> A" "i < 7" "dll (links s) (fl i) xs" "x \<in> set xs" for s F A b n i xs x
    using holds_free_disjoint [OF heap_state_holds [OF that(1)] that(2-5)] by (auto simp: bsz_def)
qed

text \<open>C32: \<^verbatim>\<open>realloc\<close> of an allocated block to a positive size of up to \<open>2 ^ 32 - 4108\<close> bytes gives null and changes nothing, and
  this only when the pool has too few free pages in a row, or returns a new block of at least the new size, which starts with the
  bytes of the old block, as many as both sizes have; the old block is released, and the other blocks keep their words.  (\<^verbatim>\<open>realloc\<close> to size 0 is \<^verbatim>\<open>free\<close>.)\<close>

theorem realloc_keeps:
  assumes "heap_state s F A" and "(b, n) \<in> A" and "0 < unat m" and "unat m + 4108 \<le> 2 ^ 32"
  shows "realloc b m s = Some (NULL, s) \<and> no_pages (pal s) (pages_for (unat m)) \<or>
    (\<exists>c s' l. realloc b m s = Some (c, s') \<and> unat m \<le> l \<and> heap_state s' F (insert (c, l) (A - {(b, n)})) \<and> c \<notin> fst ` A \<and>
       (\<forall>j < min (unat m) n. byte_of c j s' = byte_of b j s) \<and> kept s s' (A - {(b, n)}))"
proof -
  have m0: "m \<noteq> 0" using assms(3) by auto
  note hb = holds_block [OF heap_state_holds [OF assms(1)] assms(2)]
  consider "malloc m s = Some (NULL, s)" "no_pages (pal s) (pages_for (unat m))"
    | c s1 l where "malloc m s = Some (c, s1)" "c \<noteq> NULL" "unat m \<le> l" "heap_state s1 F (insert (c, l) A)" "\<forall>n. (c, n) \<notin> A" "kept s s1 A"
    using heap_state_malloc [OF assms(1,4)] m0 by blast
  then show ?thesis
  proof cases
    case 1
    then show ?thesis using m0 by (simp add: realloc_def)
  next
    case (2 c s1 l)
    have ne: "(b, n) \<noteq> (c, l)" using 2(5) assms(2) by auto
    have bs: "malloc_block_size b s1 = Some (of_nat n)" by (rule holds_block_size [OF heap_state_holds [OF 2(4)]]) (use assms(2) in simp)
    have "0 < unat b" using hb(1) by (simp add: unat_gt_0)
    then have un: "unat (of_nat n :: u32) = n" using hb(2) by (intro unat_of_nat32) linarith
    define k where "k = (if m < of_nat n then m else of_nat n)"
    have uk: "unat k = min (unat m) n" using un by (simp add: k_def word_less_nat_alt)
    have kl: "unat k \<le> l" using uk 2(3) by simp
    let ?s2 = "set_bytes c k (\<lambda>i. mem (pal s1) (b + i)) s1"
    note sb = heap_state_set_bytes [OF 2(4) insertI1 kl, where w = "\<lambda>i. mem (pal s1) (b + i)"]
    obtain s3 where s3: "free b ?s2 = Some s3" "heap_state s3 F (insert (c, l) A - {(b, n)})" "kept ?s2 s3 (insert (c, l) A - {(b, n)})"
      using heap_state_free [OF sb(1), of b n] assms(2) by blast
    have set: "insert (c, l) A - {(b, n)} = insert (c, l) (A - {(b, n)})" using ne by blast
    have re: "realloc b m s = Some (c, s3)" using m0 2(1,2) hb(1) bs s3(1) unfolding realloc_def by (simp add: Let_def k_def [symmetric])
    have "byte_of c j s3 = byte_of b j s" if j: "j < min (unat m) n" for j
    proof -
      have "byte_of c j s3 = byte_of c j ?s2" by (rule kept_byte [OF sb(1) s3(3)]) (use ne j 2(3) in auto)
      also have "\<dots> = byte_of b j s1" using sb(3) [of j] j uk by (simp add: byte_of_def)
      also have "\<dots> = byte_of b j s" by (rule kept_byte [OF assms(1) 2(6) assms(2,2)]) (use j in simp)
      finally show ?thesis .
    qed
    moreover have "kept s s3 (A - {(b, n)})"
    proof -
      have "kept s s1 (A - {(b, n)})" using 2(6) by (rule kept_mono) blast
      moreover have "kept s1 ?s2 (A - {(b, n)})" using sb(2) by (rule kept_mono) (use 2(5) in blast)
      moreover have "kept ?s2 s3 (A - {(b, n)})" using s3(3) by (rule kept_mono) blast
      ultimately show ?thesis using kept_trans by blast
    qed
    ultimately show ?thesis using re 2(3,5) s3(2) unfolding set by (intro disjI2 exI conjI) (auto simp: image_iff)
  qed
qed

text \<open>C10: Any sequence of requests of up to \<open>2 ^ 32 - 4108\<close> bytes returns, and the blocks it gives can be released in any order; then the set of
  allocated blocks is the old one and exactly the pages are in use that were in use before.  When the requests are for 1 to 1024
  bytes and not more than the pool has free pages, each gives a block.\<close>

theorem malloc_free_balanced:
  assumes "heap_state s F A" and "\<forall>sz\<in>set szs. unat sz + 4108 \<le> 2 ^ 32"
  shows "\<exists>bs s'. alloc_all malloc szs s = Some (bs, s') \<and>
    ((\<forall>sz\<in>set szs. 0 < unat sz \<and> unat sz \<le> 1024) \<and> length szs \<le> free_page_cnt s \<longrightarrow> length bs = length szs) \<and>
    (\<forall>cs. mset cs = mset bs \<longrightarrow> (\<exists>s''. free_all free cs s' = Some s'' \<and> heap_state s'' F A \<and> used_pages (pal s'') = used_pages (pal s)))"
proof -
  have "used_pages (pal s'') = used_pages (pal s)" if "heap_state s'' F A" for s'' using that assms(1) unfolding heap_state_def by blast
  then show ?thesis using heap.balanced [OF assms] by metis
qed

text \<open>\<^verbatim>\<open>calloc\<close> gives null or a block of at least \<open>a * b\<close> bytes, all zero, when the product is small.\<close>

theorem calloc_zeroed:
  assumes "heap_state s F A" and "unat a * unat b + 4108 \<le> 2 ^ 32"
  shows "\<exists>p s'. calloc a b s = Some (p, s') \<and> (p = NULL \<longrightarrow> s' = s) \<and>
    (p \<noteq> NULL \<longrightarrow> (\<exists>n. unat a * unat b \<le> n \<and> heap_state s' F (insert (p, n) A) \<and> p \<notin> fst ` A \<and> kept s s' A) \<and>
       (\<forall>j < unat a * unat b. byte_of p j s' = 0))"
proof -
  have u: "unat (a * b) = unat a * unat b" using assms(2) by (simp add: unat_word_ariths)
  show ?thesis
  proof (cases "a * b < a \<or> a * b < b")
    case True
    then show ?thesis by (simp add: calloc_def)
  next
    case False
    have "unat (a * b) + 4108 \<le> 2 ^ 32" using assms(2) u by simp
    then consider "malloc (a * b) s = Some (NULL, s)"
      | p s1 n where "malloc (a * b) s = Some (p, s1)" "p \<noteq> NULL" "unat (a * b) \<le> n" "heap_state s1 F (insert (p, n) A)" "\<forall>m. (p, m) \<notin> A" "kept s s1 A"
      using heap_state_malloc [OF assms(1)] by blast
    then show ?thesis
    proof cases
      case 1
      then show ?thesis using False by (simp add: calloc_def)
    next
      case (2 p s1 n)
      let ?s = "set_bytes p (a * b) (\<lambda>_. 0) s1"
      note sb = heap_state_set_bytes [OF 2(4) insertI1 2(3)]
      have "kept s1 ?s A" using sb(2) by (rule kept_mono) (use 2(5) in blast)
      then have "kept s ?s A" using kept_trans [OF 2(6)] by blast
      moreover have "calloc a b s = Some (p, ?s)" using False 2(1,2) by (simp add: calloc_def Let_def)
      moreover have "byte_of p j ?s = 0" if "j < unat a * unat b" for j using sb(3) that u by simp
      ultimately show ?thesis using 2(2,3,5) sb(1) u by (intro exI [of _ p] exI [of _ ?s]) (auto simp: image_iff)
    qed
  qed
qed

lemma big_request:
  assumes "heap_ok s ar f" and "sz > 1024"
  shows "malloc sz s = malloc_big sz s"
proof -
  have nz: "sz \<noteq> 0" using assms(2) by auto
  have tw: "takeWhile (\<lambda>d. \<not> d_block_size d \<ge> sz) (descs s) = descs s"
  proof (rule takeWhile_eq_all_conv [THEN iffD2], rule ballI)
    fix d assume "d \<in> set (descs s)"
    moreover have "descs s = map mk_desc [0..<7]" using assms(1) by (simp add: heap_ok_def heap_inv_def mem_inv_def)
    ultimately obtain i where i: "i < 7" "d = mk_desc i" by auto
    then have "unat (d_block_size d) \<le> 1024" using bsz_bounds [OF i(1)] by (simp add: mk_desc_def unat_of_nat32)
    then show "\<not> d_block_size d \<ge> sz" using assms(2) by (simp add: word_less_nat_alt word_le_nat_alt)
  qed
  show ?thesis unfolding malloc_def tw Let_def using nz by simp
qed

text \<open>C39: The sizes of big requests wrap around.  A request for one of the last eleven 32-bit sizes is served with a single
  page, that is with a block of 4084 bytes; and the overflow check of \<^verbatim>\<open>calloc\<close> lets 65537 times 65537 bytes pass, for which
  it allocates 33 pages.\<close>

theorem malloc_calloc_wrap:
  assumes "holds s A" and "\<exists>i. group_at (bm_abs (used_map (kernel_pool (pal s)))) i 33 False"
  shows "(\<forall>sz \<ge> 0xfffffff5. \<exists>b s'. malloc sz s = Some (b, s') \<and> b \<noteq> NULL \<and> holds s' (insert (b, 4084) A)) \<and>
    (\<exists>b s'. calloc 65537 65537 s = Some (b, s') \<and> b \<noteq> NULL \<and> holds s' (insert (b, 33 * 4096 - 12) A))"
proof -
  obtain ar f where h: "heap_ok s ar f" "A = allocated ar f" using assms(1) by (auto simp: holds_def)
  have big: "\<exists>b s'. malloc sz s = Some (b, s') \<and> b \<noteq> NULL \<and> holds s' (insert (b, 4096 * n - 12) A)"
    if sz: "sz > 1024" "unat ((sz + ARENA_SIZE + PGSIZE - 1) div PGSIZE) = n" "0 < n" "n \<le> 33" for sz n
  proof -
    let ?c = "(sz + ARENA_SIZE + PGSIZE - 1) div PGSIZE"
    have "\<exists>i. group_at (bm_abs (used_map (kernel_pool (pal s)))) i n False"
    proof -
      obtain i where "group_at (bm_abs (used_map (kernel_pool (pal s)))) i 33 False" using assms(2) by blast
      then show ?thesis using sz(4) by (intro exI [of _ i]) (auto simp: group_at_def)
    qed
    moreover have "?c \<noteq> 0" using sz(2,3) by auto
    ultimately have "\<not> (?c = 0 \<or> no_pages (pal s) (unat ?c))" unfolding no_pages_def sz(2) by blast
    then show ?thesis
      using malloc_big_pages [OF h(1), of ?c sz] sz(2) big_request [OF h(1) sz(1)] unfolding holds_def h(2) by metis
  qed
  have "\<exists>b s'. malloc sz s = Some (b, s') \<and> b \<noteq> NULL \<and> holds s' (insert (b, 4084) A)" if sz: "sz \<ge> 0xfffffff5" for sz
  proof -
    have "unat (sz - 0xfffffff4) = unat sz - 0xfffffff4" using sz by (simp add: unat_sub word_le_nat_alt)
    moreover have "sz + ARENA_SIZE + PGSIZE - 1 = (sz - 0xfffffff4) + of_nat 4095" by (simp add: ARENA_SIZE_def PGSIZE_eq)
    ultimately have "unat (sz + ARENA_SIZE + PGSIZE - 1) = unat sz - 0xfffffff4 + 4095"
      using unat_ofs [of "sz - 0xfffffff4" 4095] unat_lt32 [of sz] by (simp only:) simp
    moreover have "1 \<le> unat sz - 0xfffffff4" "unat sz - 0xfffffff4 \<le> 11" using sz unat_lt32 [of sz] by (simp_all add: word_le_nat_alt)
    ultimately have "unat ((sz + ARENA_SIZE + PGSIZE - 1) div PGSIZE) = 1" by (simp add: unat_div PGSIZE_eq)
    moreover have "sz > 1024" using sz by (simp add: word_le_nat_alt word_less_nat_alt)
    ultimately show ?thesis using big [of sz 1] by simp
  qed
  moreover have "\<exists>b s'. calloc 65537 65537 s = Some (b, s') \<and> b \<noteq> NULL \<and> holds s' (insert (b, 33 * 4096 - 12) A)"
  proof -
    obtain b s1 where b: "malloc 131073 s = Some (b, s1)" "b \<noteq> NULL" "holds s1 (insert (b, 33 * 4096 - 12) A)"
      using big [of 131073 33] by (auto simp: ARENA_SIZE_def PGSIZE_eq)
    then have "holds (set_bytes b 131073 (\<lambda>_. 0) s1) (insert (b, 33 * 4096 - 12) A)" by (intro holds_set_bytes [OF b(3) insertI1]) simp
    moreover have "(65537 :: u32) * 65537 = 131073" by simp
    then have "calloc 65537 65537 s = Some (b, set_bytes b 131073 (\<lambda>_. 0) s1)" using b by (simp only: calloc_def Let_def) simp
    ultimately show ?thesis using b(2) by blast
  qed
  ultimately show ?thesis by blast
qed


section \<open>Witnesses\<close>

definition demo_mheap :: mheap where
  "demo_mheap = \<lparr>pal = demo_phys, links = (\<lambda>_. \<lparr>le_prev = 0, le_next = 0\<rparr>), descs = []\<rparr>"

lemma demo_mheap_ok: "phys_ok (pal demo_mheap)" "unat PHYS_BASE + 2 ^ 20 < unat (base (kernel_pool (pal demo_mheap)))" "descs demo_mheap = []"
  using demo_phys_ok by (simp_all add: demo_mheap_def demo_phys_def PHYS_BASE_def)

lemma demo_group: "group_at (bm_abs (used_map (kernel_pool demo_phys))) 2 33 False"
  by code_simp

lemma demo_state: "\<exists>s. malloc_init demo_mheap = Some s \<and> heap_state s (used_pages demo_phys) {} \<and> pal s = demo_phys"
  using malloc_init_ok [OF demo_mheap_ok] by (auto simp: demo_mheap_def)

lemma demo_free_pages:
  assumes "pal s = demo_phys"
  shows "33 \<le> free_page_cnt s"
proof -
  let ?g = "\<lambda>i. unat (base (kernel_pool demo_phys)) + 4096 * i" and ?bs = "bm_abs (used_map (kernel_pool demo_phys))"
  have "phys_ok demo_phys" using demo_mheap_ok(1) by (simp add: demo_mheap_def)
  note l = length_used [OF this]
  have "35 \<le> length ?bs" "\<not> ?bs ! i" if "i \<in> {2..<35}" for i
    using that demo_group group_atD [OF demo_group, of i] by (auto simp: group_at_def)
  then have "?g ` {2..<35} \<subseteq> all_pages (pal s) - used_pages (pal s)"
    unfolding assms all_pages_def used_pages_def using l by fastforce
  then have "card (?g ` {2..<35}) \<le> free_page_cnt s" unfolding free_page_cnt_def by (intro card_mono) (simp_all add: used_pages_sub(2))
  moreover have "card (?g ` {2..<35}) = 33" by (simp add: card_image inj_on_def)
  ultimately show ?thesis by simp
qed

text \<open>A heap with one block of at least 100 bytes, and a free page.\<close>

lemma demo_block: "\<exists>s b n. heap_state s (used_pages demo_phys) {(b, n)} \<and> 100 \<le> n \<and> 0 < free_page_cnt s"
proof -
  obtain s where s: "heap_state s (used_pages demo_phys) {}" "pal s = demo_phys" using demo_state by blast
  show ?thesis using heap.alloc [OF s(1), of 100] demo_free_pages [OF s(2)] by (fastforce split: if_splits)
qed

theorem malloc_free_correct_witness:
  "\<exists>s b s' n s''. malloc_init demo_mheap = Some s \<and> malloc 100 s = Some (b, s') \<and> b \<noteq> NULL \<and> 100 \<le> n \<and>
     heap_state s' (used_pages demo_phys) {(b, n)} \<and> free b s' = Some s'' \<and> heap_state s'' (used_pages demo_phys) {}"
proof -
  note t = malloc_free_correct [OF demo_mheap_ok]
  have dp: "pal demo_mheap = demo_phys" by (simp add: demo_mheap_def)
  obtain s where s: "malloc_init demo_mheap = Some s" "pal s = demo_phys" "heap_state s (used_pages demo_phys) {}"
    using t [THEN conjunct1] unfolding dp by blast
  have "\<not> no_pages (pal s) (pages_for (unat (100 :: u32)))"
  proof
    assume "no_pages (pal s) (pages_for (unat (100 :: u32)))"
    then have "free_page_cnt s = 0" using free_page_cnt_0 [OF s(3)] by (simp add: pages_for_small)
    then show False using demo_free_pages [OF s(2)] by simp
  qed
  then obtain b s' n where b: "malloc 100 s = Some (b, s')" "b \<noteq> NULL" "100 \<le> n" "heap_state s' (used_pages demo_phys) {(b, n)}"
    using t [THEN conjunct2, THEN conjunct1, rule_format, of s "used_pages demo_phys" "{}" 100] s(3) by auto
  obtain s'' where "free b s' = Some s''" "heap_state s'' (used_pages demo_phys) {}"
    using t [THEN conjunct2, THEN conjunct2, THEN conjunct1, rule_format, of s' "used_pages demo_phys" "{(b, n)}" b n] b(4) by auto
  then show ?thesis using s(1) b by blast
qed

theorem malloc_calloc_wrap_witness:
  "\<exists>s b s'. malloc_init demo_mheap = Some s \<and> malloc 0xffffffff s = Some (b, s') \<and> b \<noteq> NULL \<and> holds s' {(b, 4084)}"
proof -
  obtain s where s: "malloc_init demo_mheap = Some s" "holds s {}" "pal s = demo_phys" using demo_state heap_state_holds by blast
  then have "\<exists>i. group_at (bm_abs (used_map (kernel_pool (pal s)))) i 33 False" using demo_group by auto
  from malloc_calloc_wrap [OF s(2) this] s(1) show ?thesis by auto
qed

theorem realloc_keeps_witness:
  "\<exists>s b n c s' l. heap_state s (used_pages demo_phys) {(b, n)} \<and> realloc b 99 s = Some (c, s') \<and> 99 \<le> l \<and>
     heap_state s' (used_pages demo_phys) {(c, l)} \<and> byte_of c 98 s' = byte_of b 98 s"
proof -
  obtain s b n where s: "heap_state s (used_pages demo_phys) {(b, n)}" "100 \<le> n" "0 < free_page_cnt s" using demo_block by blast
  have "\<not> no_pages (pal s) (pages_for (unat (99 :: u32)))" using free_page_cnt_0 [OF s(1)] s(3) by (auto simp: pages_for_small)
  then obtain c s' l where "realloc b 99 s = Some (c, s')" "99 \<le> l" "heap_state s' (used_pages demo_phys) {(c, l)}"
    "\<forall>j < min 99 n. byte_of c j s' = byte_of b j s"
    using realloc_keeps [OF s(1) insertI1, of 99] by auto
  then show ?thesis using s(1,2) by (intro exI [of _ s] exI [of _ b] exI [of _ n] exI [of _ c] exI [of _ s'] exI [of _ l]) auto
qed

theorem malloc_free_balanced_witness:
  "\<exists>s bs s' s''. malloc_init demo_mheap = Some s \<and> alloc_all malloc [10, 100, 1000] s = Some (bs, s') \<and> length bs = 3 \<and>
     free_all free (rev bs) s' = Some s'' \<and> heap_state s'' (used_pages demo_phys) {} \<and> used_pages (pal s'') = used_pages demo_phys"
proof -
  obtain s where s: "malloc_init demo_mheap = Some s" "heap_state s (used_pages demo_phys) {}" "pal s = demo_phys" using demo_state by blast
  have "3 \<le> free_page_cnt s" using demo_free_pages [OF s(3)] by simp
  then obtain bs s' where b: "alloc_all malloc [10, 100, 1000] s = Some (bs, s')" "length bs = 3"
    "\<forall>cs. mset cs = mset bs \<longrightarrow> (\<exists>s''. free_all free cs s' = Some s'' \<and> heap_state s'' (used_pages demo_phys) {} \<and> used_pages (pal s'') = used_pages (pal s))"
    using malloc_free_balanced [OF s(2), of "[10, 100, 1000]"] by auto
  obtain s'' where "free_all free (rev bs) s' = Some s''" "heap_state s'' (used_pages demo_phys) {}" "used_pages (pal s'') = used_pages (pal s)"
    using b(3) [rule_format, of "rev bs"] by auto
  then show ?thesis using s(1,3) b(1,2) by auto
qed

theorem calloc_zeroed_witness:
  "\<exists>s p s'. malloc_init demo_mheap = Some s \<and> calloc 10 20 s = Some (p, s') \<and> (p \<noteq> NULL \<longrightarrow> byte_of p 199 s' = 0)"
proof -
  obtain s where s: "malloc_init demo_mheap = Some s" "heap_state s (used_pages demo_phys) {}" using demo_state by blast
  obtain p s' where "calloc 10 20 s = Some (p, s')" "p \<noteq> NULL \<longrightarrow> (\<forall>j < 200. byte_of p j s' = 0)"
    using calloc_zeroed [OF s(2), of 10 20] by auto
  then show ?thesis using s(1) by auto
qed

end
