(* ===== verification/Block.thy ===== *)
theory Block
  imports KList
begin

unbundle bit_operations_syntax

text \<open>
  Block devices: \<^verbatim>\<open>src/devices/block.c\<close> and the sector access of
  \<^verbatim>\<open>src/devices/partition.c\<close>, with the little-endian encoding of words that everything on a disk
  uses.

  A device is driven either by \<^verbatim>\<open>ide.c\<close>, behind which is the medium, a sector of 512 bytes per
  sector number, or by \<^verbatim>\<open>partition.c\<close>, which is a window on another device.  The state holds the
  device structures by address, the list of all devices, the roles, the media, and the results that the
  next calls of \<^verbatim>\<open>malloc\<close> and \<^verbatim>\<open>calloc\<close> give, numbered from zero; a null result is a
  failed allocation.
\<close>

section \<open>Little-endian words\<close>

definition bytes_of_word :: "u32 \<Rightarrow> u8 list" where
  "bytes_of_word w = [ucast w, ucast (drop_bit 8 w), ucast (drop_bit 16 w), ucast (drop_bit 24 w)]"

definition word_of_bytes :: "u8 list \<Rightarrow> u32" where
  "word_of_bytes bs = ucast (bs ! 0) OR push_bit 8 (ucast (bs ! 1)) OR
     push_bit 16 (ucast (bs ! 2)) OR push_bit 24 (ucast (bs ! 3))"

definition bytes_of_words :: "u32 list \<Rightarrow> u8 list" where
  "bytes_of_words ws = concat (map bytes_of_word ws)"

fun words_of_bytes :: "u8 list \<Rightarrow> u32 list" where
  "words_of_bytes (a # b # c # d # bs) = word_of_bytes [a, b, c, d] # words_of_bytes bs"
| "words_of_bytes _ = []"

lemma length_bytes_of_word [simp]: "length (bytes_of_word w) = 4"
  by (simp add: bytes_of_word_def)

lemma word_of_bytes_of_word [simp]: "word_of_bytes (bytes_of_word w @ bs) = w"
proof (rule bit_word_eqI)
  fix n assume "n < LENGTH(32)"
  then have n: "n < 32" by simp
  then consider "n < 8" | "8 \<le> n" "n < 16" | "16 \<le> n" "n < 24" | "24 \<le> n" by linarith
  then show "bit (word_of_bytes (bytes_of_word w @ bs)) n = bit w n"
    using n by cases (auto simp: word_of_bytes_def bytes_of_word_def bit_simps less_diff_conv2)
qed

lemma length_bytes_of_words [simp]: "length (bytes_of_words ws) = 4 * length ws"
  by (induction ws) (simp_all add: bytes_of_words_def)

lemma bytes_of_words_Cons [simp]: "bytes_of_words (w # ws) = bytes_of_word w @ bytes_of_words ws"
  by (simp add: bytes_of_words_def)

lemma words_of_bytes_append [simp]:
  "words_of_bytes (bytes_of_word w @ bs) = w # words_of_bytes bs"
  using word_of_bytes_of_word [of w "[]"] by (simp add: bytes_of_word_def)

lemma words_of_bytes_of_words [simp]: "words_of_bytes (bytes_of_words ws) = ws"
  by (induction ws) (simp_all add: bytes_of_words_def)

lemma length_words_of_bytes: "length (words_of_bytes bs) = length bs div 4"
proof (induction bs rule: words_of_bytes.induct)
  case (1 a b c d bs)
  have "Suc (Suc (Suc (Suc n))) div 4 = Suc (n div 4)" for n by linarith
  then show ?case using 1 by simp
qed simp_all

section \<open>Devices\<close>

definition BLOCK_SECTOR_SIZE :: nat where "BLOCK_SECTOR_SIZE = 512"

datatype block_type = BLOCK_KERNEL | BLOCK_FILESYS | BLOCK_SCRATCH | BLOCK_SWAP | BLOCK_RAW | BLOCK_FOREIGN

definition is_role :: "block_type \<Rightarrow> bool" where
  "is_role t \<longleftrightarrow> t \<in> {BLOCK_KERNEL, BLOCK_FILESYS, BLOCK_SCRATCH, BLOCK_SWAP}"

datatype driver = Ide u32 | Partition addr u32

record block =
  bname :: "u8 list"
  btype :: block_type
  bsize :: u32
  ops :: driver
  read_cnt :: u64
  write_cnt :: u64

record devices =
  all_blocks :: "addr list"
  block_by_role :: "block_type \<Rightarrow> addr"
  blk :: "addr \<Rightarrow> block"
  media :: "u32 \<Rightarrow> u32 \<Rightarrow> u8 list"
  allocs :: "nat \<Rightarrow> addr"

definition malloc :: "devices \<Rightarrow> addr \<times> devices" where
  "malloc d = (allocs d 0, d\<lparr>allocs := \<lambda>n. allocs d (n + 1)\<rparr>)"

definition upd_block :: "addr \<Rightarrow> (block \<Rightarrow> block) \<Rightarrow> devices \<Rightarrow> devices" where
  "upd_block b f d = d\<lparr>blk := (blk d)(b := f (blk d b))\<rparr>"

definition block_type_name :: "block_type \<Rightarrow> string" where
  "block_type_name t = (case t of BLOCK_KERNEL \<Rightarrow> ''kernel'' | BLOCK_FILESYS \<Rightarrow> ''filesys''
     | BLOCK_SCRATCH \<Rightarrow> ''scratch'' | BLOCK_SWAP \<Rightarrow> ''swap'' | BLOCK_RAW \<Rightarrow> ''raw'' | BLOCK_FOREIGN \<Rightarrow> ''foreign'')"

definition block_get_role :: "block_type \<Rightarrow> devices \<Rightarrow> addr option" where
  "block_get_role role d = do { ASSERT (is_role role); Some (block_by_role d role) }"

definition block_set_role :: "block_type \<Rightarrow> addr \<Rightarrow> devices \<Rightarrow> devices option" where
  "block_set_role role b d = do {
     ASSERT (is_role role);
     Some (d\<lparr>block_by_role := (block_by_role d)(role := b)\<rparr>)
   }"

text \<open>The list of devices is the list of their addresses; the end of the list is a null result.\<close>

definition block_first :: "devices \<Rightarrow> addr" where
  "block_first d = (case all_blocks d of [] \<Rightarrow> NULL | b # _ \<Rightarrow> b)"

fun block_after :: "addr \<Rightarrow> addr list \<Rightarrow> addr" where
  "block_after b [] = NULL"
| "block_after b (c # cs) = (if c = b then (case cs of [] \<Rightarrow> NULL | e # _ \<Rightarrow> e) else block_after b cs)"

definition block_next :: "addr \<Rightarrow> devices \<Rightarrow> addr" where
  "block_next b d = block_after b (all_blocks d)"

text \<open>A string in an array of characters ends at its first null byte.\<close>

definition c_string :: "u8 list \<Rightarrow> u8 list" where
  "c_string bs = takeWhile (\<lambda>c. c \<noteq> 0) bs"

definition block_get_by_name :: "u8 list \<Rightarrow> devices \<Rightarrow> addr" where
  "block_get_by_name name d =
     (case find (\<lambda>b. c_string name = c_string (bname (blk d b))) (all_blocks d) of
        Some b \<Rightarrow> b | None \<Rightarrow> NULL)"

definition check_sector :: "addr \<Rightarrow> u32 \<Rightarrow> devices \<Rightarrow> unit option" where
  "check_sector b sector d = (if bsize (blk d b) \<le> sector then None else Some ())"

text \<open>\<^verbatim>\<open>block->ops->read\<close> of a partition is \<^verbatim>\<open>partition_read\<close>, a read of the device below.\<close>

partial_function (option) block_read :: "addr \<Rightarrow> u32 \<Rightarrow> devices \<Rightarrow> (u8 list \<times> devices) option" where
  "block_read b sector d = do {
     check_sector b sector d;
     (buffer, d) \<leftarrow> (case ops (blk d b) of
        Ide aux \<Rightarrow> Some (media d aux sector, d)
      | Partition pb st \<Rightarrow> block_read pb (st + sector) d);
     Some (buffer, upd_block b (read_cnt_update (\<lambda>n. n + 1)) d)
   }"

partial_function (option) block_write :: "addr \<Rightarrow> u32 \<Rightarrow> u8 list \<Rightarrow> devices \<Rightarrow> devices option" where
  "block_write b sector buffer d = do {
     check_sector b sector d;
     ASSERT (btype (blk d b) \<noteq> BLOCK_FOREIGN);
     d \<leftarrow> (case ops (blk d b) of
        Ide aux \<Rightarrow> Some (d\<lparr>media := (media d)(aux := (media d aux)(sector := take BLOCK_SECTOR_SIZE buffer))\<rparr>)
      | Partition pb st \<Rightarrow> block_write pb (st + sector) buffer d);
     Some (upd_block b (write_cnt_update (\<lambda>n. n + 1)) d)
   }"

declare block_read.simps [code] block_write.simps [code]

definition block_size :: "addr \<Rightarrow> devices \<Rightarrow> u32" where "block_size b d = bsize (blk d b)"
definition block_name :: "addr \<Rightarrow> devices \<Rightarrow> u8 list" where "block_name b d = bname (blk d b)"
definition block_type_of :: "addr \<Rightarrow> devices \<Rightarrow> block_type" where "block_type_of b d = btype (blk d b)"

text \<open>\<^verbatim>\<open>strlcpy (block->name, name, sizeof block->name)\<close> keeps at most fifteen characters.\<close>

definition block_register ::
  "u8 list \<Rightarrow> block_type \<Rightarrow> u32 \<Rightarrow> driver \<Rightarrow> devices \<Rightarrow> (addr \<times> devices) option" where
  "block_register name t sz drv d = (let (b, d) = malloc d in
     if b = NULL then None
     else Some (b, upd_block b (\<lambda>_. \<lparr>bname = take 15 (c_string name), btype = t, bsize = sz, ops = drv,
                                     read_cnt = 0, write_cnt = 0\<rparr>) (d\<lparr>all_blocks := all_blocks d @ [b]\<rparr>)))"

section \<open>What a device holds\<close>

text \<open>
  A usable device is a medium, or a partition that lies within one.  \<open>place d b n\<close> is the medium and the
  sector on it behind sector \<open>n\<close> of the device.
\<close>

definition on_disk :: "devices \<Rightarrow> addr \<Rightarrow> bool" where
  "on_disk d b \<longleftrightarrow> btype (blk d b) \<noteq> BLOCK_FOREIGN \<and>
     (\<exists>a. ops (blk d b) = Ide a \<and> (\<forall>n. length (media d a n) = BLOCK_SECTOR_SIZE))"

definition device_ok :: "devices \<Rightarrow> addr \<Rightarrow> bool" where
  "device_ok d b \<longleftrightarrow> btype (blk d b) \<noteq> BLOCK_FOREIGN \<and>
     (case ops (blk d b) of Ide a \<Rightarrow> on_disk d b
      | Partition pb st \<Rightarrow> pb \<noteq> b \<and> on_disk d pb \<and> unat st + unat (bsize (blk d b)) \<le> unat (bsize (blk d pb)))"

definition medium_of :: "devices \<Rightarrow> addr \<Rightarrow> u32" where
  "medium_of d b = (case ops (blk d b) of Ide a \<Rightarrow> a | Partition _ _ \<Rightarrow> 0)"

definition place :: "devices \<Rightarrow> addr \<Rightarrow> u32 \<Rightarrow> u32 \<times> u32" where
  "place d b n = (case ops (blk d b) of Ide a \<Rightarrow> (a, n) | Partition pb st \<Rightarrow> (medium_of d pb, st + n))"

definition sector_at :: "devices \<Rightarrow> addr \<Rightarrow> u32 \<Rightarrow> u8 list" where
  "sector_at d b n = (case place d b n of (a, m) \<Rightarrow> media d a m)"

text \<open>The parts of a device structure that reads and writes keep.\<close>

definition same_devices :: "devices \<Rightarrow> devices \<Rightarrow> bool" where
  "same_devices d d' \<longleftrightarrow> all_blocks d' = all_blocks d \<and> block_by_role d' = block_by_role d \<and>
     allocs d' = allocs d \<and>
     (\<forall>b. bname (blk d' b) = bname (blk d b) \<and> btype (blk d' b) = btype (blk d b) \<and>
        bsize (blk d' b) = bsize (blk d b) \<and> ops (blk d' b) = ops (blk d b))"

lemma same_devices_refl [simp]: "same_devices d d"
  by (simp add: same_devices_def)

lemma same_devices_trans: "same_devices d d' \<Longrightarrow> same_devices d' d'' \<Longrightarrow> same_devices d d''"
  by (simp add: same_devices_def)

lemma same_devices_place: "same_devices d d' \<Longrightarrow> place d' b n = place d b n"
  by (simp add: same_devices_def place_def medium_of_def split: driver.splits)

lemma same_devices_bsize: "same_devices d d' \<Longrightarrow> bsize (blk d' b) = bsize (blk d b)"
  by (simp add: same_devices_def)

lemma same_devices_upd:
  "same_devices d d' \<Longrightarrow> same_devices d (upd_block b (read_cnt_update f) d')"
  "same_devices d d' \<Longrightarrow> same_devices d (upd_block b (write_cnt_update f) d')"
  by (simp_all add: same_devices_def upd_block_def)

lemma media_upd_block [simp]: "media (upd_block b f d) = media d"
  by (simp add: upd_block_def)

lemma device_ok_same:
  assumes "same_devices d d'" "device_ok d b" "\<And>a n. length (media d a n) = BLOCK_SECTOR_SIZE \<Longrightarrow> length (media d' a n) = BLOCK_SECTOR_SIZE"
  shows "device_ok d' b"
proof -
  have s: "btype (blk d' c) = btype (blk d c)" "bsize (blk d' c) = bsize (blk d c)" "ops (blk d' c) = ops (blk d c)" for c
    using assms(1) by (simp_all add: same_devices_def)
  have "on_disk d' c" if "on_disk d c" for c
    using that assms(3) by (auto simp: on_disk_def s)
  then show ?thesis using assms(2) by (simp add: device_ok_def s split: driver.splits)
qed

lemma length_sector_at: "device_ok d b \<Longrightarrow> length (sector_at d b n) = BLOCK_SECTOR_SIZE"
  by (auto simp: device_ok_def on_disk_def sector_at_def place_def medium_of_def split: driver.splits)

lemma block_read_Ide:
  assumes "on_disk d b" "n < bsize (blk d b)"
  shows "\<exists>d'. block_read b n d = Some (media d (medium_of d b) n, d') \<and> same_devices d d' \<and> media d' = media d"
  using assms by (subst block_read.simps) (auto simp: on_disk_def check_sector_def medium_of_def same_devices_upd)

lemma partition_sector:
  assumes "unat st + unat sz \<le> unat (big :: u32)" "n < (sz :: u32)"
  shows "st + n < big" "unat (st + n) = unat st + unat n"
proof -
  have n: "unat n < unat sz" using assms(2) by (simp add: word_less_nat_alt)
  then have "unat st + unat n < 2 ^ 32" using assms(1) unat_lt32 [of big] by linarith
  then show u: "unat (st + n) = unat st + unat n" using unat_add_nowrap [of st n] by simp
  show "st + n < big" using u n assms(1) by (simp add: word_less_nat_alt)
qed

lemma block_read_media:
  assumes "device_ok d b" "n < bsize (blk d b)"
  shows "\<exists>d'. block_read b n d = Some (sector_at d b n, d') \<and> same_devices d d' \<and> media d' = media d"
proof (cases "ops (blk d b)")
  case (Ide a)
  then show ?thesis using assms block_read_Ide [of d b n]
    by (simp add: device_ok_def sector_at_def place_def medium_of_def)
next
  case (Partition pb st)
  then have p: "on_disk d pb" "unat st + unat (bsize (blk d b)) \<le> unat (bsize (blk d pb))"
    using assms(1) by (simp_all add: device_ok_def)
  obtain d' where d': "block_read pb (st + n) d = Some (media d (medium_of d pb) (st + n), d')" "same_devices d d'" "media d' = media d"
    using block_read_Ide [OF p(1) partition_sector(1) [OF p(2) assms(2)]] by blast
  have "block_read b n d = Some (sector_at d b n, upd_block b (read_cnt_update (\<lambda>n. n + 1)) d')"
    using assms(2) Partition d'(1)
    by (subst block_read.simps) (simp add: check_sector_def sector_at_def place_def)
  then show ?thesis using d' same_devices_upd(1) [OF d'(2)] by auto
qed

definition put_sector :: "devices \<Rightarrow> u32 \<times> u32 \<Rightarrow> u8 list \<Rightarrow> u32 \<Rightarrow> u32 \<Rightarrow> u8 list" where
  "put_sector d p buf = (case p of (a, m) \<Rightarrow> (media d)(a := (media d a)(m := buf)))"

lemma block_write_Ide:
  assumes "on_disk d b" "n < bsize (blk d b)" "length buf = BLOCK_SECTOR_SIZE"
  shows "\<exists>d'. block_write b n buf d = Some d' \<and> same_devices d d' \<and> media d' = put_sector d (medium_of d b, n) buf"
proof -
  let ?d = "d\<lparr>media := put_sector d (medium_of d b, n) buf\<rparr>"
  have "block_write b n buf d = Some (upd_block b (write_cnt_update (\<lambda>n. n + 1)) ?d)"
    using assms by (subst block_write.simps) (auto simp: on_disk_def check_sector_def medium_of_def put_sector_def)
  moreover have "same_devices d ?d" by (simp add: same_devices_def)
  ultimately show ?thesis using same_devices_upd(2) by auto
qed

lemma block_write_media:
  assumes "device_ok d b" "n < bsize (blk d b)" "length buf = BLOCK_SECTOR_SIZE"
  shows "\<exists>d'. block_write b n buf d = Some d' \<and> same_devices d d' \<and> media d' = put_sector d (place d b n) buf"
proof (cases "ops (blk d b)")
  case (Ide a)
  then show ?thesis using assms block_write_Ide [of d b n buf]
    by (simp add: device_ok_def place_def medium_of_def)
next
  case (Partition pb st)
  then have p: "on_disk d pb" "unat st + unat (bsize (blk d b)) \<le> unat (bsize (blk d pb))"
    using assms(1) by (simp_all add: device_ok_def)
  obtain d' where d': "block_write pb (st + n) buf d = Some d'" "same_devices d d'" "media d' = put_sector d (medium_of d pb, st + n) buf"
    using block_write_Ide [OF p(1) partition_sector(1) [OF p(2) assms(2)] assms(3)] by blast
  have "block_write b n buf d = Some (upd_block b (write_cnt_update (\<lambda>n. n + 1)) d')"
    using assms Partition d'(1)
    by (subst block_write.simps) (simp add: check_sector_def device_ok_def)
  then show ?thesis using d' same_devices_upd(2) [OF d'(2)] Partition by (auto simp: place_def)
qed

lemma place_inj: "place d b n = place d b m \<Longrightarrow> n = m"
  by (auto simp: place_def split: driver.splits)

lemma block_write_ok:
  assumes "device_ok d b" "n < bsize (blk d b)" "length buf = BLOCK_SECTOR_SIZE"
  shows "\<exists>d'. block_write b n buf d = Some d' \<and> same_devices d d' \<and> device_ok d' b \<and>
    sector_at d' b = (sector_at d b)(n := buf)"
proof -
  obtain d' where d': "block_write b n buf d = Some d'" "same_devices d d'" "media d' = put_sector d (place d b n) buf"
    using block_write_media [OF assms] by blast
  have "sector_at d' b m = ((sector_at d b)(n := buf)) m" for m
    using place_inj [of d b m n] same_devices_place [OF d'(2), of b m] d'(3)
    by (cases "place d b m"; cases "place d b n") (auto simp: sector_at_def put_sector_def)
  moreover have "device_ok d' b"
    using d' assms by (intro device_ok_same [OF d'(2)]) (auto simp: put_sector_def split: prod.splits)
  ultimately show ?thesis using d' by blast
qed

lemma block_read_ok:
  assumes "device_ok d b" "n < bsize (blk d b)"
  shows "\<exists>d'. block_read b n d = Some (sector_at d b n, d') \<and> same_devices d d' \<and> device_ok d' b \<and>
    sector_at d' b = sector_at d b"
proof -
  obtain d' where d': "block_read b n d = Some (sector_at d b n, d')" "same_devices d d'" "media d' = media d"
    using block_read_media [OF assms] by blast
  have "sector_at d' b m = sector_at d b m" for m
    by (simp add: sector_at_def same_devices_place [OF d'(2)] d'(3))
  moreover have "device_ok d' b" using d' assms(1) by (intro device_ok_same [OF d'(2)]) simp_all
  ultimately show ?thesis using d' by blast
qed

end
