(* ===== verification/Inode.thy ===== *)
theory Inode
  imports Block KBitmap
begin

unbundle bit_operations_syntax

text \<open>
  Reading and writing files: the data structures of \<^verbatim>\<open>src/filesys/inode.c\<close> and
  \<^verbatim>\<open>src/filesys/file.c\<close>, and the operations that neither open nor close anything.

  The state of the file system is one record: the devices, the inodes and the open files in memory
  by address, the list of open inodes, the free map and the directories.  A read returns the bytes
  it puts at the start of the caller's buffer, so that the number of bytes read is their number; a
  write takes the bytes of the buffer.  Access through a null pointer does not return.  \<^verbatim>\<open>off_t\<close> is a 32-bit signed integer.
\<close>

section \<open>State\<close>

definition INODE_MAGIC :: u32 where "INODE_MAGIC = 0x494e4f44"

record inode_disk =
  istart :: u32
  ilength :: int
  imagic :: u32
  iunused :: "u32 list"

record inode =
  isector :: u32
  open_cnt :: int
  removed :: bool
  deny_write_cnt :: int
  idata :: inode_disk

record open_file =
  finode :: addr
  fpos :: int
  fdeny_write :: bool
  fread_cnt :: int

record dir =
  dinode :: addr
  dpos :: int

record fs =
  dv :: devices
  fs_device :: addr
  ino :: "addr \<Rightarrow> inode"
  open_inodes :: "addr list"
  fil :: "addr \<Rightarrow> open_file"
  drs :: "addr \<Rightarrow> dir"
  free_map :: bitmap
  free_map_file :: addr

definition upd_inode :: "addr \<Rightarrow> (inode \<Rightarrow> inode) \<Rightarrow> fs \<Rightarrow> fs" where
  "upd_inode i f s = s\<lparr>ino := (ino s)(i := f (ino s i))\<rparr>"

definition upd_file :: "addr \<Rightarrow> (open_file \<Rightarrow> open_file) \<Rightarrow> fs \<Rightarrow> fs" where
  "upd_file i f s = s\<lparr>fil := (fil s)(i := f (fil s i))\<rparr>"

definition fs_malloc :: "fs \<Rightarrow> addr \<times> fs" where
  "fs_malloc s = (let (a, d) = malloc (dv s) in (a, s\<lparr>dv := d\<rparr>))"

definition fs_read :: "u32 \<Rightarrow> fs \<Rightarrow> (u8 list \<times> fs) option" where
  "fs_read n s = do { (buf, d) \<leftarrow> block_read (fs_device s) n (dv s); Some (buf, s\<lparr>dv := d\<rparr>) }"

definition fs_write :: "u32 \<Rightarrow> u8 list \<Rightarrow> fs \<Rightarrow> fs option" where
  "fs_write n buf s = do { d \<leftarrow> block_write (fs_device s) n buf (dv s); Some (s\<lparr>dv := d\<rparr>) }"

section \<open>Inodes\<close>

text \<open>The remainder of C takes the sign of the dividend.\<close>

definition crem :: "int \<Rightarrow> int \<Rightarrow> int" where
  "crem a b = a - cdiv a b * b"

definition bytes_to_sectors :: "int \<Rightarrow> u32" where
  "bytes_to_sectors sz = of_int (cdiv (s32 (s32 (sz + 512) - 1)) 512)"

definition byte_to_sector :: "inode \<Rightarrow> int \<Rightarrow> u32" where
  "byte_to_sector n pos = (if pos < ilength (idata n) then istart (idata n) + of_int (cdiv pos 512) else - 1)"

definition inode_length :: "inode \<Rightarrow> int" where
  "inode_length n = ilength (idata n)"

definition sector_ofs :: "int \<Rightarrow> int" where
  "sector_ofs offset = crem offset 512"

definition chunk_size :: "inode \<Rightarrow> int \<Rightarrow> int \<Rightarrow> int" where
  "chunk_size n sz offset =
     (let inode_left = s32 (inode_length n - offset);
          sector_left = 512 - sector_ofs offset;
          min_left = (if inode_left < sector_left then inode_left else sector_left)
      in if sz < min_left then sz else min_left)"

lemma chunk_size_le: "chunk_size n sz offset \<le> sz"
  by (simp add: chunk_size_def Let_def)

text \<open>A negative offset makes the code copy from or to the memory before the bounce buffer, which is a fault here.\<close>

function read_loop :: "addr \<Rightarrow> int \<Rightarrow> int \<Rightarrow> addr \<Rightarrow> fs \<Rightarrow> (u8 list \<times> fs) option" where
  "read_loop i sz offset bounce s =
     (if 0 < sz \<and> i = NULL then None
      else if sz \<le> 0 then Some ([], s)
      else
        let sector_idx = byte_to_sector (ino s i) offset;
            so = sector_ofs offset;
            c = chunk_size (ino s i) sz offset
        in if c \<le> 0 then Some ([], s)
           else if so = 0 \<and> c = 512 then do {
             (buf, s) \<leftarrow> fs_read sector_idx s;
             (rest, s) \<leftarrow> read_loop i (sz - c) (offset + c) bounce s;
             Some (buf @ rest, s)
           }
           else
             let (bounce, s) = (if bounce = NULL then fs_malloc s else (bounce, s))
             in if bounce = NULL then Some ([], s)
                else if so < 0 then None
                else do {
                  (buf, s) \<leftarrow> fs_read sector_idx s;
                  (rest, s) \<leftarrow> read_loop i (sz - c) (offset + c) bounce s;
                  Some (take (nat c) (drop (nat so) buf) @ rest, s)
                })"
  by pat_completeness auto

termination
  by (relation "measure (\<lambda>(i, sz, offset, bounce, s). nat sz)") auto

declare read_loop.simps [simp del]

definition inode_read_at :: "addr \<Rightarrow> int \<Rightarrow> int \<Rightarrow> fs \<Rightarrow> (u8 list \<times> fs) option" where
  "inode_read_at i sz offset s = read_loop i sz offset NULL s"

text \<open>The sector with the chunk put into it: what the bounce buffer holds when it is written.\<close>

function write_loop :: "addr \<Rightarrow> u8 list \<Rightarrow> int \<Rightarrow> int \<Rightarrow> addr \<Rightarrow> fs \<Rightarrow> (int \<times> fs) option" where
  "write_loop i buffer sz offset bounce s =
     (if 0 < sz \<and> i = NULL then None
      else if sz \<le> 0 then Some (0, s)
      else
        let sector_idx = byte_to_sector (ino s i) offset;
            so = sector_ofs offset;
            c = chunk_size (ino s i) sz offset
        in if c \<le> 0 then Some (0, s)
           else if so = 0 \<and> c = 512 then do {
             s \<leftarrow> fs_write sector_idx (take 512 buffer) s;
             (n, s) \<leftarrow> write_loop i (drop (nat c) buffer) (sz - c) (offset + c) bounce s;
             Some (c + n, s)
           }
           else
             let (bounce, s) = (if bounce = NULL then fs_malloc s else (bounce, s))
             in if bounce = NULL then Some (0, s)
                else if so < 0 then None
                else do {
                  (b, s) \<leftarrow> (if so > 0 \<or> c < 512 - so then fs_read sector_idx s else Some (replicate 512 0, s));
                  s \<leftarrow> fs_write sector_idx
                        (take (nat so) b @ take (nat c) buffer @ drop (nat so + nat c) b) s;
                  (n, s) \<leftarrow> write_loop i (drop (nat c) buffer) (sz - c) (offset + c) bounce s;
                  Some (c + n, s)
                })"
  by pat_completeness auto

termination
  by (relation "measure (\<lambda>(i, buffer, sz, offset, bounce, s). nat sz)") auto

declare write_loop.simps [simp del]

definition inode_write_at :: "addr \<Rightarrow> u8 list \<Rightarrow> int \<Rightarrow> int \<Rightarrow> fs \<Rightarrow> (int \<times> fs) option" where
  "inode_write_at i buffer sz offset s =
     (if i = NULL then None
      else if deny_write_cnt (ino s i) \<noteq> 0 then Some (0, s) else write_loop i buffer sz offset NULL s)"

definition inode_reopen :: "addr \<Rightarrow> fs \<Rightarrow> addr \<times> fs" where
  "inode_reopen i s = (i, if i \<noteq> NULL then upd_inode i (open_cnt_update (\<lambda>n. s32 (n + 1))) s else s)"

definition inode_get_inumber :: "addr \<Rightarrow> fs \<Rightarrow> u32 option" where
  "inode_get_inumber i s = do { ASSERT (i \<noteq> NULL); Some (isector (ino s i)) }"

definition inode_remove :: "addr \<Rightarrow> fs \<Rightarrow> fs option" where
  "inode_remove i s = do { ASSERT (i \<noteq> NULL); Some (upd_inode i (removed_update (\<lambda>_. True)) s) }"

definition inode_deny_write :: "addr \<Rightarrow> fs \<Rightarrow> fs option" where
  "inode_deny_write i s = do {
     ASSERT (i \<noteq> NULL);
     let s = upd_inode i (deny_write_cnt_update (\<lambda>n. s32 (n + 1))) s;
     ASSERT (deny_write_cnt (ino s i) \<le> open_cnt (ino s i));
     Some s
   }"

definition inode_allow_write :: "addr \<Rightarrow> fs \<Rightarrow> fs option" where
  "inode_allow_write i s = do {
     ASSERT (i \<noteq> NULL);
     ASSERT (deny_write_cnt (ino s i) > 0);
     ASSERT (deny_write_cnt (ino s i) \<le> open_cnt (ino s i));
     Some (upd_inode i (deny_write_cnt_update (\<lambda>n. s32 (n - 1))) s)
   }"

section \<open>Open files\<close>

definition file_get_inode :: "addr \<Rightarrow> fs \<Rightarrow> addr option" where
  "file_get_inode f s = do { ASSERT (f \<noteq> NULL); Some (finode (fil s f)) }"

definition file_read :: "addr \<Rightarrow> int \<Rightarrow> fs \<Rightarrow> (u8 list \<times> fs) option" where
  "file_read f sz s = do {
     ASSERT (f \<noteq> NULL);
     (bs, s) \<leftarrow> inode_read_at (finode (fil s f)) sz (fpos (fil s f)) s;
     Some (bs, upd_file f (fpos_update (\<lambda>p. s32 (p + int (length bs)))) s)
   }"

definition file_read_at :: "addr \<Rightarrow> int \<Rightarrow> int \<Rightarrow> fs \<Rightarrow> (u8 list \<times> fs) option" where
  "file_read_at f sz file_ofs s = do { ASSERT (f \<noteq> NULL); inode_read_at (finode (fil s f)) sz file_ofs s }"

definition file_write :: "addr \<Rightarrow> u8 list \<Rightarrow> int \<Rightarrow> fs \<Rightarrow> (int \<times> fs) option" where
  "file_write f buffer sz s = do {
     ASSERT (f \<noteq> NULL);
     (n, s) \<leftarrow> inode_write_at (finode (fil s f)) buffer sz (fpos (fil s f)) s;
     Some (n, upd_file f (fpos_update (\<lambda>p. s32 (p + n))) s)
   }"

definition file_write_at :: "addr \<Rightarrow> u8 list \<Rightarrow> int \<Rightarrow> int \<Rightarrow> fs \<Rightarrow> (int \<times> fs) option" where
  "file_write_at f buffer sz file_ofs s = do { ASSERT (f \<noteq> NULL); inode_write_at (finode (fil s f)) buffer sz file_ofs s }"

definition file_deny_write :: "addr \<Rightarrow> fs \<Rightarrow> fs option" where
  "file_deny_write f s = do {
     ASSERT (f \<noteq> NULL);
     if \<not> fdeny_write (fil s f) then
       inode_deny_write (finode (fil s f)) (upd_file f (fdeny_write_update (\<lambda>_. True)) s)
     else Some s
   }"

definition file_allow_write :: "addr \<Rightarrow> fs \<Rightarrow> fs option" where
  "file_allow_write f s = do {
     ASSERT (f \<noteq> NULL);
     if fdeny_write (fil s f) then
       inode_allow_write (finode (fil s f)) (upd_file f (fdeny_write_update (\<lambda>_. False)) s)
     else Some s
   }"

definition file_length :: "addr \<Rightarrow> fs \<Rightarrow> int option" where
  "file_length f s = do { ASSERT (f \<noteq> NULL); ASSERT (finode (fil s f) \<noteq> NULL); Some (inode_length (ino s (finode (fil s f)))) }"

definition file_seek :: "addr \<Rightarrow> int \<Rightarrow> fs \<Rightarrow> fs option" where
  "file_seek f new_pos s = do {
     ASSERT (f \<noteq> NULL);
     ASSERT (new_pos \<ge> 0);
     Some (upd_file f (fpos_update (\<lambda>_. new_pos)) s)
   }"

definition file_tell :: "addr \<Rightarrow> fs \<Rightarrow> int option" where
  "file_tell f s = do { ASSERT (f \<noteq> NULL); Some (fpos (fil s f)) }"

section \<open>The bytes of a file\<close>

definition sec :: "fs \<Rightarrow> u32 \<Rightarrow> u8 list" where
  "sec s n = sector_at (dv s) (fs_device s) n"

definition sectors :: "inode \<Rightarrow> nat" where
  "sectors n = (nat (inode_length n) + 511) div 512"

definition inode_ok :: "fs \<Rightarrow> addr \<Rightarrow> bool" where
  "inode_ok s i \<longleftrightarrow> i \<noteq> NULL \<and> device_ok (dv s) (fs_device s) \<and> 0 \<le> inode_length (ino s i) \<and> inode_length (ino s i) < 2 ^ 31 \<and>
     unat (istart (idata (ino s i))) + sectors (ino s i) \<le> unat (bsize (blk (dv s) (fs_device s)))"

definition byte_at :: "fs \<Rightarrow> addr \<Rightarrow> nat \<Rightarrow> u8" where
  "byte_at s i p = sec s (istart (idata (ino s i)) + of_nat (p div 512)) ! (p mod 512)"

definition contents :: "fs \<Rightarrow> addr \<Rightarrow> u8 list" where
  "contents s i = map (byte_at s i) [0..<nat (inode_length (ino s i))]"

lemma inode_ok_nonnull: "inode_ok s i \<Longrightarrow> i \<noteq> NULL"
  by (simp add: inode_ok_def)

text \<open>A step that touches the device and the memory allocator only.\<close>

definition io_step :: "fs \<Rightarrow> fs \<Rightarrow> bool" where
  "io_step s s' \<longleftrightarrow> s' = s\<lparr>dv := dv s'\<rparr> \<and> (device_ok (dv s) (fs_device s) \<longrightarrow> device_ok (dv s') (fs_device s)) \<and>
     bsize (blk (dv s') (fs_device s)) = bsize (blk (dv s) (fs_device s)) \<and>
     (\<exists>k. allocs (dv s') = (\<lambda>n. allocs (dv s) (n + k)))"

definition plenty :: "fs \<Rightarrow> bool" where
  "plenty s \<longleftrightarrow> (\<forall>n. allocs (dv s) n \<noteq> NULL)"

lemma io_step_refl [simp]: "io_step s s"
  by (auto simp: io_step_def intro: exI [of _ 0])

lemma io_stepD:
  assumes "io_step s s'"
  shows "ino s' = ino s" "fil s' = fil s" "drs s' = drs s" "open_inodes s' = open_inodes s" "fs_device s' = fs_device s"
    "free_map s' = free_map s" "free_map_file s' = free_map_file s"
    "bsize (blk (dv s') (fs_device s)) = bsize (blk (dv s) (fs_device s))"
    "device_ok (dv s) (fs_device s) \<Longrightarrow> device_ok (dv s') (fs_device s)"
    "plenty s \<Longrightarrow> plenty s'" "inode_ok s i \<Longrightarrow> inode_ok s' i"
proof -
  have e: "s' = s\<lparr>dv := dv s'\<rparr>" using assms by (simp add: io_step_def)
  show f: "ino s' = ino s" "fil s' = fil s" "drs s' = drs s" "open_inodes s' = open_inodes s" "fs_device s' = fs_device s"
    "free_map s' = free_map s" "free_map_file s' = free_map_file s"
    by (subst e, simp)+
  show "bsize (blk (dv s') (fs_device s)) = bsize (blk (dv s) (fs_device s))"
    "device_ok (dv s) (fs_device s) \<Longrightarrow> device_ok (dv s') (fs_device s)"
    "plenty s \<Longrightarrow> plenty s'" using assms by (auto simp: io_step_def plenty_def)
  then show "inode_ok s i \<Longrightarrow> inode_ok s' i" by (simp add: inode_ok_def f)
qed

lemma io_step_trans: "io_step s s' \<Longrightarrow> io_step s' s'' \<Longrightarrow> io_step s s''"
  unfolding io_step_def
  by (elim conjE exE, intro conjI exI)
     (metis (no_types, lifting) fs.select_convs fs.surjective fs.update_convs(1), metis fs.select_convs(2) fs.surjective fs.update_convs(1), metis fs.select_convs(2) fs.surjective fs.update_convs(1), simp add: add.assoc)

section \<open>One round of the transfer loops\<close>

lemma fs_read_ok:
  assumes "device_ok (dv s) (fs_device s)" "n < bsize (blk (dv s) (fs_device s))"
  shows "\<exists>s'. fs_read n s = Some (sec s n, s') \<and> io_step s s' \<and> sec s' = sec s"
proof -
  obtain d' where d': "block_read (fs_device s) n (dv s) = Some (sector_at (dv s) (fs_device s) n, d')"
    "same_devices (dv s) d'" "device_ok d' (fs_device s)" "sector_at d' (fs_device s) = sector_at (dv s) (fs_device s)"
    using block_read_ok [OF assms] by blast
  then have "io_step s (s\<lparr>dv := d'\<rparr>)"
    by (auto simp: io_step_def same_devices_def intro: exI [of _ 0])
  then show ?thesis using d' by (auto simp: fs_read_def sec_def fun_eq_iff)
qed

lemma fs_write_ok:
  assumes "device_ok (dv s) (fs_device s)" "n < bsize (blk (dv s) (fs_device s))" "length buf = 512"
  shows "\<exists>s'. fs_write n buf s = Some s' \<and> io_step s s' \<and> sec s' = (sec s)(n := buf)"
proof -
  obtain d' where d': "block_write (fs_device s) n buf (dv s) = Some d'"
    "same_devices (dv s) d'" "device_ok d' (fs_device s)" "sector_at d' (fs_device s) = (sector_at (dv s) (fs_device s))(n := buf)"
    using block_write_ok [of "dv s" "fs_device s" n buf] assms by (auto simp: BLOCK_SECTOR_SIZE_def)
  then have "io_step s (s\<lparr>dv := d'\<rparr>)"
    by (auto simp: io_step_def same_devices_def intro: exI [of _ 0])
  then show ?thesis using d' by (auto simp: fs_write_def sec_def fun_eq_iff)
qed

lemma sector_at_allocs [simp]: "sector_at (d\<lparr>allocs := f\<rparr>) b n = sector_at d b n"
  by (simp add: sector_at_def place_def medium_of_def split: driver.splits)

lemma fs_malloc_ok:
  "\<exists>s'. fs_malloc s = (allocs (dv s) 0, s') \<and> io_step s s' \<and> sec s' = sec s"
proof -
  have "device_ok (d\<lparr>allocs := f\<rparr>) b = device_ok d b" for d f b
    by (simp add: device_ok_def on_disk_def split: driver.splits)
  then show ?thesis
    by (auto simp: fs_malloc_def malloc_def io_step_def sec_def fun_eq_iff intro: exI [of _ 1])
qed

lemma length_sec: "device_ok (dv s) (fs_device s) \<Longrightarrow> length (sec s n) = 512"
  using length_sector_at by (simp add: sec_def BLOCK_SECTOR_SIZE_def)

lemma div_round_512: "p < n \<Longrightarrow> p div 512 < (n + 511) div 512" for p n :: nat
  using mult_div_mod_eq [of 512 p] mult_div_mod_eq [of 512 "n + 511"] mod_less_divisor [of 512 "n + 511"]
  by linarith

text \<open>The sector that holds byte \<open>p\<close> of a file.\<close>

lemma data_sector:
  assumes ok: "inode_ok s i" and p: "p < nat (inode_length (ino s i))"
  shows "byte_to_sector (ino s i) (int p) = istart (idata (ino s i)) + of_nat (p div 512)"
    "istart (idata (ino s i)) + of_nat (p div 512) < bsize (blk (dv s) (fs_device s))"
    "unat (istart (idata (ino s i)) + of_nat (p div 512)) = unat (istart (idata (ino s i))) + p div 512"
proof -
  let ?st = "istart (idata (ino s i))"
  have l: "int p < inode_length (ino s i)" using p by simp
  have d: "int p div 512 = int (p div 512)" by (simp add: zdiv_int)
  show "byte_to_sector (ino s i) (int p) = ?st + of_nat (p div 512)"
    using l by (simp add: byte_to_sector_def inode_length_def cdiv_nonneg d)
  have k: "p div 512 < sectors (ino s i)" using p by (simp add: sectors_def div_round_512)
  then have b: "unat ?st + p div 512 < unat (bsize (blk (dv s) (fs_device s)))" using ok by (simp add: inode_ok_def)
  then have "unat (of_nat (p div 512) :: u32) = p div 512"
    using unat_lt32 [of "bsize (blk (dv s) (fs_device s))"] by (intro unat_of_nat32) linarith
  then show u: "unat (?st + of_nat (p div 512)) = unat ?st + p div 512"
    using b unat_lt32 [of "bsize (blk (dv s) (fs_device s))"] unat_add_nowrap [of ?st "of_nat (p div 512)"] by simp
  show "?st + of_nat (p div 512) < bsize (blk (dv s) (fs_device s))"
    using u b by (simp add: word_less_nat_alt)
qed

lemma sector_ofs_nat: "sector_ofs (int p) = int (p mod 512)"
  by (simp add: sector_ofs_def crem_def cdiv_nonneg zmod_int minus_div_mult_eq_mod)

text \<open>The number of bytes that a transfer can move: to the end of the file or of the request.\<close>

definition avail :: "inode \<Rightarrow> int \<Rightarrow> nat \<Rightarrow> nat" where
  "avail n sz p = min (nat sz) (nat (inode_length n) - p)"

lemma chunk_size_eq:
  assumes "0 \<le> inode_length n" "inode_length n < 2 ^ 31" "0 \<le> sz" "p < 2 ^ 31"
  shows "nat (chunk_size n sz (int p)) = min (avail n sz p) (512 - p mod 512)"
proof -
  have s: "s32 (inode_length n - int p) = inode_length n - int p" using assms by (intro s32_id) simp_all
  define m where "m = p mod 512"
  obtain L S where e: "inode_length n = int L" "sz = int S" using assms(1,3) by (metis nonneg_int_cases)
  have "m < 512" by (simp add: m_def)
  then show ?thesis unfolding chunk_size_def s sector_ofs_nat Let_def avail_def m_def [symmetric] unfolding e
    by (auto simp: min_def nat_diff_distrib')
qed

lemma block_of:
  assumes "p mod 512 + c \<le> 512" "k < (c :: nat)"
  shows "(p + k) div 512 = p div 512" "(p + k) mod 512 = p mod 512 + k"
proof -
  note e = mult_div_mod_eq [of 512 p] mult_div_mod_eq [of 512 "p + k"]
  have b: "512 * (p div 512) \<le> p + k" "p + k < 512 * (p div 512) + 512" using assms e(1) by linarith+
  show d: "(p + k) div 512 = p div 512" by (rule div_nat_eqI) (use b in simp_all)
  show "(p + k) mod 512 = p mod 512 + k" using e unfolding d by linarith
qed

lemma chunk_bytes:
  assumes "device_ok (dv s) (fs_device s)" "p mod 512 + c \<le> 512"
  shows "take c (drop (p mod 512) (sec s (istart (idata (ino s i)) + of_nat (p div 512)))) = map (byte_at s i) [p..<p + c]"
  using assms length_sec [OF assms(1)]
  by (intro nth_equalityI) (auto simp: byte_at_def block_of [OF assms(2)])

lemma min_step: "c \<le> min a (b - p) \<Longrightarrow> min a (b - p) = c + min (a - c) (b - (p + c))" for a b c p :: nat
  by linarith

text \<open>A round in the middle of the file moves \<open>c > 0\<close> bytes that lie in one sector.\<close>

lemma round_ok:
  assumes ok: "inode_ok s i" and sz: "0 < sz" "avail (ino s i) sz p \<noteq> 0"
  defines "c \<equiv> chunk_size (ino s i) sz (int p)"
  shows "0 < c" "c \<le> sz" "p mod 512 + nat c \<le> 512" "p < nat (inode_length (ino s i))"
    "avail (ino s i) sz p = nat c + avail (ino s i) (sz - c) (p + nat c)"
    "p + nat c \<le> nat (inode_length (ino s i))"
proof -
  have r: "0 \<le> inode_length (ino s i)" "inode_length (ino s i) < 2 ^ 31" using ok by (simp_all add: inode_ok_def)
  show p: "p < nat (inode_length (ino s i))" using sz by (auto simp: avail_def)
  have n: "nat c = min (avail (ino s i) sz p) (512 - p mod 512)"
    unfolding c_def using r sz p by (intro chunk_size_eq) simp_all
  have m: "p mod 512 < 512" by simp
  have pos: "0 < nat c" using n sz(2) m by linarith
  then show "0 < c" by simp
  show "c \<le> sz" unfolding c_def by (rule chunk_size_le)
  show "p mod 512 + nat c \<le> 512" using n m by linarith
  have "nat (sz - c) = nat sz - nat c" using pos by (intro nat_diff_distrib') (use sz(1) in linarith)+
  moreover have "nat c \<le> avail (ino s i) sz p" using n by simp
  ultimately show "avail (ino s i) sz p = nat c + avail (ino s i) (sz - c) (p + nat c)"
    unfolding avail_def by (metis min_step)
  show "p + nat c \<le> nat (inode_length (ino s i))" using n p by (metis avail_def le_diff_conv2 less_imp_le_nat min.boundedE order_refl add.commute)
qed

lemma round_lim: "inode_ok s i \<Longrightarrow> q \<le> nat (inode_length (ino s i)) \<Longrightarrow> q < 2 ^ 31"
  by (erule order_le_less_trans) (simp add: inode_ok_def nat_less_iff)

lemma no_round:
  assumes "inode_ok s i" "0 < sz" "avail (ino s i) sz p = 0" "p < 2 ^ 31"
  shows "chunk_size (ino s i) sz (int p) \<le> 0"
proof -
  have "nat (chunk_size (ino s i) sz (int p)) = 0"
    using assms by (subst chunk_size_eq) (simp_all add: inode_ok_def)
  then show ?thesis by simp
qed

section \<open>The transfer loops\<close>

lemma byte_at_cong: "ino s' = ino s \<Longrightarrow> sec s' = sec s \<Longrightarrow> byte_at s' i = byte_at s i"
  by (simp add: byte_at_def fun_eq_iff)

text \<open>The bounce buffer is allocated on the first round that needs it.\<close>

lemma bounce_ok:
  obtains b s' where "(if bounce = NULL then fs_malloc s else (bounce, s)) = (b, s')" "io_step s s'" "sec s' = sec s"
    "bounce \<noteq> NULL \<or> plenty s \<Longrightarrow> b \<noteq> NULL"
proof (cases "bounce = NULL")
  case True
  then show ?thesis using that fs_malloc_ok [of s] by (auto simp: plenty_def)
next
  case False
  then show ?thesis using that [of bounce s] by simp
qed

definition read_result :: "fs \<Rightarrow> addr \<Rightarrow> int \<Rightarrow> nat \<Rightarrow> bool \<Rightarrow> u8 list \<Rightarrow> fs \<Rightarrow> bool" where
  "read_result s i sz p sure bs s' \<longleftrightarrow> io_step s s' \<and> sec s' = sec s \<and> length bs \<le> avail (ino s i) sz p \<and>
     bs = map (byte_at s i) [p..<p + length bs] \<and> (sure \<longrightarrow> length bs = avail (ino s i) sz p)"

lemma read_result_step:
  assumes ok: "inode_ok s i" "0 < sz" "avail (ino s i) sz p \<noteq> 0"
    and c: "c = chunk_size (ino s i) sz (int p)"
    and s1: "io_step s s1" "sec s1 = sec s"
    and r: "read_result s1 i (sz - c) (p + nat c) sure rest s'"
  shows "read_result s i sz p sure (map (byte_at s i) [p..<p + nat c] @ rest) s'"
proof -
  note R = round_ok [OF ok, folded c]
  have ino: "ino s1 = ino s" using s1(1) by (rule io_stepD)
  have b: "byte_at s1 i = byte_at s i" using ino s1(2) by (rule byte_at_cong)
  have q: "io_step s1 s'" "sec s' = sec s1" "length rest \<le> avail (ino s i) (sz - c) (p + nat c)"
    "rest = map (byte_at s i) [p + nat c..<p + nat c + length rest]"
    "sure \<longrightarrow> length rest = avail (ino s i) (sz - c) (p + nat c)"
    using r by (simp_all add: read_result_def ino b)
  have "[p..<p + (nat c + length rest)] = [p..<p + nat c] @ [p + nat c..<p + nat c + length rest]"
    by (metis add.assoc upt_add_eq_append le_add1)
  then have "map (byte_at s i) [p..<p + (nat c + length rest)] = map (byte_at s i) [p..<p + nat c] @ rest"
    using q(4) by simp
  then show ?thesis using q s1 R(5) io_step_trans [OF s1(1) q(1)]
    by (simp add: read_result_def)
qed

lemma read_result_sure: "read_result s i sz p sure bs s' \<Longrightarrow> (sure' \<Longrightarrow> sure) \<Longrightarrow> read_result s i sz p sure' bs s'"
  by (simp add: read_result_def)

text \<open>The two kinds of round.\<close>

lemma read_loop_direct:
  assumes ok: "inode_ok s i" "0 < sz" "avail (ino s i) sz p \<noteq> 0"
    and c: "c = chunk_size (ino s i) sz (int p)" and n: "n = istart (idata (ino s i)) + of_nat (p div 512)"
    and full: "p mod 512 = 0" "c = 512"
  shows "read_loop i sz (int p) bounce s = do {
      (buf, s) \<leftarrow> fs_read n s; (rest, s) \<leftarrow> read_loop i (sz - c) (int (p + nat c)) bounce s; Some (buf @ rest, s) }"
  using inode_ok_nonnull [OF ok(1)] ok(2) round_ok(1) [OF ok] data_sector(1) [OF ok(1) round_ok(4) [OF ok]] sector_ofs_nat [of p] full
  by (subst read_loop.simps) (simp add: c [symmetric] n)

lemma read_loop_bounced:
  assumes ok: "inode_ok s i" "0 < sz" "avail (ino s i) sz p \<noteq> 0"
    and c: "c = chunk_size (ino s i) sz (int p)" and n: "n = istart (idata (ino s i)) + of_nat (p div 512)"
    and part: "\<not> (p mod 512 = 0 \<and> c = 512)"
    and b: "(if bounce = NULL then fs_malloc s else (bounce, s)) = (b, s0)"
  shows "read_loop i sz (int p) bounce s = (if b = NULL then Some ([], s0) else do {
      (buf, s) \<leftarrow> fs_read n s0; (rest, s) \<leftarrow> read_loop i (sz - c) (int (p + nat c)) b s;
      Some (take (nat c) (drop (p mod 512) buf) @ rest, s) })"
  using inode_ok_nonnull [OF ok(1)] ok(2) round_ok(1) [OF ok, folded c] data_sector(1) [OF ok(1) round_ok(4) [OF ok]] sector_ofs_nat [of p] part b
  by (subst read_loop.simps) (auto simp: c [symmetric] n)

lemma read_loop_ok:
  assumes "inode_ok s i" "p < 2 ^ 31"
  shows "\<exists>bs s'. read_loop i sz (int p) bounce s = Some (bs, s') \<and> read_result s i sz p (bounce \<noteq> NULL \<or> plenty s) bs s'"
  using assms
proof (induction "nat sz" arbitrary: sz p bounce s rule: less_induct)
  case less
  note ok = less.prems(1)
  have dev: "device_ok (dv s) (fs_device s)" using ok by (simp add: inode_ok_def)
  consider "sz \<le> 0" | "0 < sz" "avail (ino s i) sz p = 0" | "0 < sz" "avail (ino s i) sz p \<noteq> 0" by linarith
  then show ?case
  proof cases
    case 1
    then show ?thesis by (subst read_loop.simps) (simp add: read_result_def avail_def)
  next
    case 2
    then show ?thesis using inode_ok_nonnull [OF ok] no_round [OF ok 2 less.prems(2)]
      by (subst read_loop.simps) (simp add: read_result_def)
  next
    case 3
    define c where "c = chunk_size (ino s i) sz (int p)"
    define n where "n = istart (idata (ino s i)) + of_nat (p div 512)"
    note R = round_ok [OF ok 3, folded c_def]
    note D = data_sector(2) [OF ok R(4), folded n_def]
    have IH: "\<exists>bs s'. read_loop i (sz - c) (int (p + nat c)) b s1 = Some (bs, s') \<and>
        read_result s1 i (sz - c) (p + nat c) (b \<noteq> NULL \<or> plenty s1) bs s'" if "io_step s s1" for s1 b
      using R(1,2) io_stepD(11) [OF that ok] round_lim [OF ok R(6)] by (intro less.hyps) auto
    note step = read_result_step [OF ok 3 c_def]
    have chunk: "take (nat c) (drop (p mod 512) (sec s n)) = map (byte_at s i) [p..<p + nat c]"
      using chunk_bytes [OF dev R(3), of i] by (simp add: n_def)
    show ?thesis
    proof (cases "p mod 512 = 0 \<and> c = 512")
      case True
      obtain s1 where s1: "fs_read n s = Some (sec s n, s1)" "io_step s s1" "sec s1 = sec s"
        using fs_read_ok [OF dev D] by blast
      have "sec s n = map (byte_at s i) [p..<p + nat c]"
        using chunk True length_sec [OF dev, of n] by simp
      moreover obtain rest s' where r: "read_loop i (sz - c) (int (p + nat c)) bounce s1 = Some (rest, s')"
        "read_result s1 i (sz - c) (p + nat c) (bounce \<noteq> NULL \<or> plenty s1) rest s'" using IH [OF s1(2)] by blast
      moreover note read_result_sure [OF step [OF s1(2,3) r(2)], of "bounce \<noteq> NULL \<or> plenty s"]
      ultimately show ?thesis using read_loop_direct [OF ok 3 c_def n_def, of bounce] True s1(1) io_stepD(10) [OF s1(2)] by auto
    next
      case False
      obtain b s0 where b: "(if bounce = NULL then fs_malloc s else (bounce, s)) = (b, s0)" "io_step s s0" "sec s0 = sec s"
        "bounce \<noteq> NULL \<or> plenty s \<Longrightarrow> b \<noteq> NULL" by (rule bounce_ok [of bounce s]) blast
      note L = read_loop_bounced [OF ok 3 c_def n_def False b(1)]
      obtain s1 where s1: "fs_read n s0 = Some (sec s0 n, s1)" "io_step s0 s1" "sec s1 = sec s0"
        using fs_read_ok [of s0 n] io_stepD(5,8,9) [OF b(2)] dev D by auto
      have t: "io_step s s1" "sec s1 = sec s" using io_step_trans [OF b(2) s1(2)] s1(3) b(3) by simp_all
      obtain rest s' where r: "read_loop i (sz - c) (int (p + nat c)) b s1 = Some (rest, s')"
        "read_result s1 i (sz - c) (p + nat c) (b \<noteq> NULL \<or> plenty s1) rest s'" using IH [OF t(1)] by blast
      show ?thesis
        using L b s1(1) r(1) chunk step [OF t r(2)] by (cases "b = NULL") (auto simp: read_result_def)
    qed
  qed
qed

text \<open>
  What a write of \<open>m\<close> bytes from position \<open>p\<close> on leaves: the bytes of the file, and all sectors that do
  not belong to it.
\<close>

definition own :: "inode \<Rightarrow> nat set" where
  "own n = {unat (istart (idata n))..<unat (istart (idata n)) + sectors n}"

definition wrote :: "fs \<Rightarrow> addr \<Rightarrow> u8 list \<Rightarrow> nat \<Rightarrow> nat \<Rightarrow> fs \<Rightarrow> bool" where
  "wrote s i buf p m s' \<longleftrightarrow> io_step s s' \<and>
     (\<forall>q < 512 * sectors (ino s i). byte_at s' i q = (if p \<le> q \<and> q < p + m then buf ! (q - p) else byte_at s i q)) \<and>
     (\<forall>k. unat k \<notin> own (ino s i) \<longrightarrow> sec s' k = sec s k)"

lemma wrote_0: "io_step s s' \<Longrightarrow> sec s' = sec s \<Longrightarrow> wrote s i buf p 0 s'"
  using byte_at_cong [of s' s] io_stepD(1) [of s s'] by (auto simp: wrote_def)

lemma wrote_append:
  assumes w1: "wrote s i buf p c s1" and w2: "wrote s1 i (drop c buf) (p + c) m s'" and l: "c \<le> length buf"
  shows "wrote s i buf p (c + m) s'"
proof -
  have io: "io_step s s1" "io_step s1 s'" and ino: "ino s1 = ino s"
    using w1 w2 io_stepD(1) by (auto simp: wrote_def)
  have b1: "byte_at s1 i q = (if p \<le> q \<and> q < p + c then buf ! (q - p) else byte_at s i q)"
    if "q < 512 * sectors (ino s i)" for q using w1 that by (simp add: wrote_def)
  have b2: "byte_at s' i q = (if p + c \<le> q \<and> q < p + c + m then drop c buf ! (q - (p + c)) else byte_at s1 i q)"
    if "q < 512 * sectors (ino s i)" for q using w2 that by (simp add: wrote_def ino)
  have "byte_at s' i q = (if p \<le> q \<and> q < p + (c + m) then buf ! (q - p) else byte_at s i q)"
    if q: "q < 512 * sectors (ino s i)" for q
    using b1 [OF q] b2 [OF q] l by (cases "q < p + c"; cases "p + c \<le> q") (auto simp: nth_drop)
  moreover have "sec s' k = sec s k" if "unat k \<notin> own (ino s i)" for k
    using w1 w2 that by (simp add: wrote_def ino)
  ultimately show ?thesis using io_step_trans [OF io] by (simp add: wrote_def)
qed

text \<open>Replacing the chunk in its sector.\<close>

lemma file_sectors_distinct:
  assumes ok: "inode_ok s i" and q: "q < 512 * sectors (ino s i)" and p: "p < nat (inode_length (ino s i))"
    and e: "istart (idata (ino s i)) + of_nat (q div 512) = istart (idata (ino s i)) + of_nat (p div 512)"
  shows "q div 512 = p div 512"
proof -
  have "sectors (ino s i) < 2 ^ 32"
    using ok unat_lt32 [of "bsize (blk (dv s) (fs_device s))"] by (simp add: inode_ok_def)
  moreover have "q div 512 < sectors (ino s i)" using q by (simp add: less_mult_imp_div_less mult.commute)
  moreover have "p div 512 < sectors (ino s i)" using p by (simp add: sectors_def div_round_512)
  moreover have "(of_nat (q div 512) :: u32) = of_nat (p div 512)" using e by simp
  ultimately show ?thesis by (metis unat_of_nat32 order_less_trans)
qed

lemma wrote_chunk:
  assumes ok: "inode_ok s i" and p: "p < nat (inode_length (ino s i))" and c: "p mod 512 + c \<le> 512" "c \<le> length buf"
    and n: "n = istart (idata (ino s i)) + of_nat (p div 512)"
    and io: "io_step s s1" and w: "sec s1 = (sec s)(n := take (p mod 512) (sec s n) @ take c buf @ drop (p mod 512 + c) (sec s n))"
  shows "wrote s i buf p c s1"
proof -
  have ino: "ino s1 = ino s" using io by (rule io_stepD)
  have len: "length (sec s n) = 512" using ok length_sec by (simp add: inode_ok_def)
  have "byte_at s1 i q = (if p \<le> q \<and> q < p + c then buf ! (q - p) else byte_at s i q)"
    if q: "q < 512 * sectors (ino s i)" for q
  proof (cases "q div 512 = p div 512")
    case False
    then have "istart (idata (ino s i)) + of_nat (q div 512) \<noteq> n"
      using file_sectors_distinct [OF ok q p] n by blast
    moreover have "\<not> (p \<le> q \<and> q < p + c)"
      using False block_of(1) [OF c(1), of "q - p"] by (metis le_add_diff_inverse nat_add_left_cancel_less)
    ultimately show ?thesis by (auto simp: byte_at_def ino w)
  next
    case True
    note E = mult_div_mod_eq [of 512 p] mult_div_mod_eq [of 512 q]
    have m: "q mod 512 < 512" by simp
    have i1: "(p \<le> q \<and> q < p + c) = (p mod 512 \<le> q mod 512 \<and> q mod 512 < p mod 512 + c)"
      "p mod 512 \<le> q mod 512 \<Longrightarrow> q - p = q mod 512 - p mod 512" using E True by linarith+
    show ?thesis
      using True len c m unfolding byte_at_def ino w i1(1) n [symmetric] True
      by (auto simp: nth_append i1)
  qed
  moreover have "sec s1 k = sec s k" if k: "unat k \<notin> own (ino s i)" for k
  proof -
    have "p div 512 < sectors (ino s i)" using p by (simp add: sectors_def div_round_512)
    then have "unat n \<in> own (ino s i)" using data_sector(3) [OF ok p] by (simp add: own_def n)
    then have "k \<noteq> n" using k by blast
    then show ?thesis by (simp add: w)
  qed
  ultimately show ?thesis using io by (simp add: wrote_def)
qed

lemma write_loop_direct:
  assumes ok: "inode_ok s i" "0 < sz" "avail (ino s i) sz p \<noteq> 0"
    and c: "c = chunk_size (ino s i) sz (int p)" and n: "n = istart (idata (ino s i)) + of_nat (p div 512)"
    and full: "p mod 512 = 0" "c = 512"
  shows "write_loop i buf sz (int p) bounce s = do {
      s \<leftarrow> fs_write n (take 512 buf) s;
      (m, s) \<leftarrow> write_loop i (drop (nat c) buf) (sz - c) (int (p + nat c)) bounce s; Some (c + m, s) }"
  using inode_ok_nonnull [OF ok(1)] ok(2) round_ok(1) [OF ok] data_sector(1) [OF ok(1) round_ok(4) [OF ok]] sector_ofs_nat [of p] full
  by (subst write_loop.simps) (simp add: c [symmetric] n)

lemma write_loop_bounced:
  assumes ok: "inode_ok s i" "0 < sz" "avail (ino s i) sz p \<noteq> 0"
    and c: "c = chunk_size (ino s i) sz (int p)" and n: "n = istart (idata (ino s i)) + of_nat (p div 512)"
    and part: "\<not> (p mod 512 = 0 \<and> c = 512)"
    and b: "(if bounce = NULL then fs_malloc s else (bounce, s)) = (b, s0)"
  shows "write_loop i buf sz (int p) bounce s = (if b = NULL then Some (0, s0) else do {
      (old, s) \<leftarrow> fs_read n s0;
      s \<leftarrow> fs_write n (take (p mod 512) old @ take (nat c) buf @ drop (p mod 512 + nat c) old) s;
      (m, s) \<leftarrow> write_loop i (drop (nat c) buf) (sz - c) (int (p + nat c)) b s; Some (c + m, s) })"
proof -
  have "int (p mod 512) + c \<le> 512" using round_ok(1,3) [OF ok, folded c] by linarith
  then have "0 < int (p mod 512) \<or> c < 512 - int (p mod 512)" using part by fastforce
  then show ?thesis
    using inode_ok_nonnull [OF ok(1)] ok(2) round_ok(1) [OF ok, folded c] data_sector(1) [OF ok(1) round_ok(4) [OF ok]] sector_ofs_nat [of p] part b
    by (subst write_loop.simps) (auto simp: c [symmetric] n Let_def)
qed

definition write_result :: "fs \<Rightarrow> addr \<Rightarrow> u8 list \<Rightarrow> int \<Rightarrow> nat \<Rightarrow> bool \<Rightarrow> int \<Rightarrow> fs \<Rightarrow> bool" where
  "write_result s i buf sz p sure n s' \<longleftrightarrow> 0 \<le> n \<and> nat n \<le> avail (ino s i) sz p \<and> wrote s i buf p (nat n) s' \<and>
     (sure \<longrightarrow> nat n = avail (ino s i) sz p)"

lemma write_result_step:
  assumes ok: "inode_ok s i" "0 < sz" "avail (ino s i) sz p \<noteq> 0"
    and c: "c = chunk_size (ino s i) sz (int p)" and w: "wrote s i buf p (nat c) s1" and l: "nat sz \<le> length buf"
    and r: "write_result s1 i (drop (nat c) buf) (sz - c) (p + nat c) sure m s'" and sure: "sure' \<Longrightarrow> sure"
  shows "write_result s i buf sz p sure' (c + m) s'"
proof -
  note R = round_ok [OF ok, folded c]
  have ino: "ino s1 = ino s" using w io_stepD(1) by (auto simp: wrote_def)
  have e: "nat (c + m) = nat c + nat m" using R(1) r by (simp add: write_result_def nat_add_distrib)
  have "nat c \<le> length buf" using R(2) l nat_mono [of c sz] by linarith
  then show ?thesis
    using r R(1,5) sure wrote_append [OF w, of "nat m" s'] unfolding write_result_def ino e by auto
qed

lemma write_loop_ok:
  assumes "inode_ok s i" "p < 2 ^ 31" "nat sz \<le> length buf"
  shows "\<exists>n s'. write_loop i buf sz (int p) bounce s = Some (n, s') \<and> write_result s i buf sz p (bounce \<noteq> NULL \<or> plenty s) n s'"
  using assms
proof (induction "nat sz" arbitrary: sz p bounce s buf rule: less_induct)
  case less
  note ok = less.prems(1)
  have dev: "device_ok (dv s) (fs_device s)" using ok by (simp add: inode_ok_def)
  consider "sz \<le> 0" | "0 < sz" "avail (ino s i) sz p = 0" | "0 < sz" "avail (ino s i) sz p \<noteq> 0" by linarith
  then show ?case
  proof cases
    case 1
    then show ?thesis by (subst write_loop.simps) (simp add: write_result_def avail_def wrote_0)
  next
    case 2
    then show ?thesis using inode_ok_nonnull [OF ok] no_round [OF ok 2 less.prems(2)]
      by (subst write_loop.simps) (simp add: write_result_def wrote_0)
  next
    case 3
    define c where "c = chunk_size (ino s i) sz (int p)"
    define n where "n = istart (idata (ino s i)) + of_nat (p div 512)"
    note R = round_ok [OF ok 3, folded c_def]
    note D = data_sector(2) [OF ok R(4), folded n_def]
    have cl: "nat c \<le> length buf" using R(2) less.prems(3) nat_mono [of c sz] by linarith
    have IH: "\<exists>m s'. write_loop i (drop (nat c) buf) (sz - c) (int (p + nat c)) b s1 = Some (m, s') \<and>
        write_result s1 i (drop (nat c) buf) (sz - c) (p + nat c) (b \<noteq> NULL \<or> plenty s1) m s'" if "io_step s s1" for s1 b
      using R(1,2) io_stepD(11) [OF that ok] round_lim [OF ok R(6)] less.prems(3)
      by (intro less.hyps) (auto simp: nat_diff_distrib')
    note step = write_result_step [OF ok 3 c_def _ less.prems(3)]
    have len: "length (sec s n) = 512" using dev by (rule length_sec)
    define new where "new = take (p mod 512) (sec s n) @ take (nat c) buf @ drop (p mod 512 + nat c) (sec s n)"
    have ln: "length new = 512" using len R(3) cl by (simp add: new_def)
    note put = wrote_chunk [OF ok R(4,3) cl n_def, folded new_def]
    show ?thesis
    proof (cases "p mod 512 = 0 \<and> c = 512")
      case True
      have "new = take 512 buf" using True len by (simp add: new_def)
      then obtain s1 where s1: "fs_write n (take 512 buf) s = Some s1" "io_step s s1" "sec s1 = (sec s)(n := new)"
        using fs_write_ok [OF dev D ln] by auto
      obtain m s' where r: "write_loop i (drop (nat c) buf) (sz - c) (int (p + nat c)) bounce s1 = Some (m, s')"
        "write_result s1 i (drop (nat c) buf) (sz - c) (p + nat c) (bounce \<noteq> NULL \<or> plenty s1) m s'" using IH [OF s1(2)] by blast
      have "write_result s i buf sz p (bounce \<noteq> NULL \<or> plenty s) (c + m) s'"
        by (rule step [OF put [OF s1(2,3)] r(2)]) (use io_stepD(10) [OF s1(2)] in blast)
      then show ?thesis using write_loop_direct [OF ok 3 c_def n_def, of buf bounce] True s1(1) r(1) by simp
    next
      case False
      obtain b s0 where b: "(if bounce = NULL then fs_malloc s else (bounce, s)) = (b, s0)" "io_step s s0" "sec s0 = sec s"
        "bounce \<noteq> NULL \<or> plenty s \<Longrightarrow> b \<noteq> NULL" by (rule bounce_ok [of bounce s]) blast
      note L = write_loop_bounced [OF ok 3 c_def n_def False b(1), of buf]
      obtain s1 where s1: "fs_read n s0 = Some (sec s n, s1)" "io_step s0 s1" "sec s1 = sec s0"
        using fs_read_ok [of s0 n] io_stepD(5,8,9) [OF b(2)] dev D b(3) by auto
      note t = io_step_trans [OF b(2) s1(2)]
      obtain s2 where s2: "fs_write n new s1 = Some s2" "io_step s1 s2" "sec s2 = (sec s)(n := new)"
        using fs_write_ok [of s1 n, OF _ _ ln] io_stepD(5,8,9) [OF t] dev D b(3) s1(3) by auto
      note t2 = io_step_trans [OF t s2(2)]
      obtain m s' where r: "write_loop i (drop (nat c) buf) (sz - c) (int (p + nat c)) b s2 = Some (m, s')"
        "write_result s2 i (drop (nat c) buf) (sz - c) (p + nat c) (b \<noteq> NULL \<or> plenty s2) m s'" using IH [OF t2] by blast
      have "write_result s i buf sz p (bounce \<noteq> NULL \<or> plenty s) (c + m) s'"
        by (rule step [OF put [OF t2 s2(3)] r(2)]) (use b(4) in blast)
      moreover have "write_result s i buf sz p (bounce \<noteq> NULL \<or> plenty s) 0 s0" if "b = NULL"
        using that b(2,3,4) by (auto simp: write_result_def wrote_0)
      ultimately show ?thesis using L s1(1) s2(1) r(1) by (auto simp: new_def [symmetric])
    qed
  qed
qed

section \<open>Files as byte arrays\<close>

text \<open>What the clients of a file rely on: the directories and the free map.\<close>

locale byte_store =
  fixes ok :: "'s \<Rightarrow> bool" and bytes :: "'s \<Rightarrow> u8 list"
    and rd :: "int \<Rightarrow> int \<Rightarrow> 's \<Rightarrow> (u8 list \<times> 's) option"
    and wr :: "u8 list \<Rightarrow> int \<Rightarrow> int \<Rightarrow> 's \<Rightarrow> (int \<times> 's) option"
  assumes rd_ok: "ok s \<Longrightarrow> p < 2 ^ 31 \<Longrightarrow>
      \<exists>s'. rd sz (int p) s = Some (take (nat sz) (drop p (bytes s)), s') \<and> ok s' \<and> bytes s' = bytes s"
    and wr_ok: "ok s \<Longrightarrow> p < 2 ^ 31 \<Longrightarrow> nat sz \<le> length buf \<Longrightarrow>
      \<exists>s'. wr buf sz (int p) s = Some (int (min (nat sz) (length (bytes s) - p)), s') \<and> ok s' \<and>
        bytes s' = overlay p (take (min (nat sz) (length (bytes s) - p)) buf) (bytes s)"
begin

text \<open>Bytes written within the file are read back; the rest of the file is as before.\<close>

lemma write_read:
  assumes "ok s" and "p + length buf \<le> length (bytes s)" and "p < 2 ^ 31"
  shows "\<exists>s' s''. wr buf (int (length buf)) (int p) s = Some (int (length buf), s') \<and>
    rd (int (length buf)) (int p) s' = Some (buf, s'') \<and> ok s'' \<and> bytes s'' = overlay p buf (bytes s)"
proof -
  have m: "min (length buf) (length (bytes s) - p) = length buf" using assms(2) by simp
  obtain s' where s': "wr buf (int (length buf)) (int p) s = Some (int (length buf), s')" "ok s'"
    "bytes s' = overlay p buf (bytes s)"
    using wr_ok [OF assms(1,3), of "int (length buf)" buf] m by auto
  obtain s'' where "rd (int (length buf)) (int p) s' = Some (take (length buf) (drop p (bytes s')), s'')"
    "ok s''" "bytes s'' = bytes s'" using rd_ok [OF s'(2) assms(3), of "int (length buf)"] by auto
  then show ?thesis using s' assms(2) by (auto simp: take_drop_overlay)
qed

text \<open>A short count means the end of the file was reached.\<close>

lemma write_short:
  assumes "ok s" and "p < 2 ^ 31" and "length (bytes s) < p + length buf" and "buf \<noteq> []"
  shows "\<exists>n s'. wr buf (int (length buf)) (int p) s = Some (n, s') \<and> n < int (length buf) \<and> ok s' \<and>
    take p (bytes s') = take p (bytes s) \<and> length (bytes s') = length (bytes s)"
proof -
  let ?m = "min (length buf) (length (bytes s) - p)"
  obtain s' where s': "wr buf (int (length buf)) (int p) s = Some (int ?m, s')" "ok s'"
    "bytes s' = overlay p (take ?m buf) (bytes s)"
    using wr_ok [OF assms(1,2), of "int (length buf)" buf] by auto
  have "?m < length buf" using assms(3,4) by (cases buf) auto
  moreover have "take p (bytes s') = take p (bytes s)" "length (bytes s') = length (bytes s)"
    unfolding s'(3) overlay_def by (cases "p \<le> length (bytes s)"; simp)+
  ultimately show ?thesis using s' by auto
qed

end

text \<open>An inode that can be written, while memory lasts.\<close>

definition writable :: "addr \<Rightarrow> fs \<Rightarrow> bool" where
  "writable i s \<longleftrightarrow> inode_ok s i \<and> deny_write_cnt (ino s i) = 0 \<and> plenty s"

lemma length_contents [simp]: "length (contents s i) = nat (inode_length (ino s i))"
  by (simp add: contents_def)

lemma contents_cong: "ino s' = ino s \<Longrightarrow> sec s' = sec s \<Longrightarrow> contents s' i = contents s i"
  using byte_at_cong [of s' s i] by (simp add: contents_def)

lemma take_upt_min: "take n [p..<l] = [p..<p + min n (l - p)]"
  by (rule nth_equalityI) (auto simp: nth_append)

lemma read_part:
  "map (byte_at s i) [p..<p + avail (ino s i) sz p] = take (nat sz) (drop p (contents s i))"
  by (simp add: contents_def avail_def take_map drop_map take_upt_min)

lemma inode_read_ok:
  assumes "inode_ok s i" "plenty s" "p < 2 ^ 31"
  shows "\<exists>s'. inode_read_at i sz (int p) s = Some (take (nat sz) (drop p (contents s i)), s') \<and>
    io_step s s' \<and> sec s' = sec s \<and> contents s' i = contents s i"
proof -
  obtain bs s' where r: "read_loop i sz (int p) NULL s = Some (bs, s')" "read_result s i sz p True bs s'"
    using read_loop_ok [OF assms(1,3), of sz NULL] assms(2) by auto
  then have "bs = take (nat sz) (drop p (contents s i))"
    using read_part [of s i p sz] unfolding read_result_def by metis
  moreover have "contents s' i = contents s i"
    using r(2) io_stepD(1) [of s s'] by (intro contents_cong) (auto simp: read_result_def)
  ultimately show ?thesis using r by (auto simp: inode_read_at_def read_result_def)
qed

lemma wrote_contents:
  assumes "wrote s i buf p m s'" "p + m \<le> nat (inode_length (ino s i))" "m \<le> length buf"
  shows "contents s' i = overlay p (take m buf) (contents s i)"
proof (rule nth_equalityI)
  have ino: "ino s' = ino s" using assms(1) io_stepD(1) by (auto simp: wrote_def)
  then show "length (contents s' i) = length (overlay p (take m buf) (contents s i))" using assms(2,3) by simp
  fix q assume "q < length (contents s' i)"
  then have q: "q < nat (inode_length (ino s i))" by (simp add: ino)
  then have "q < 512 * sectors (ino s i)"
    using mult_div_mod_eq [of 512 "nat (inode_length (ino s i)) + 511"] mod_less_divisor [of 512 "nat (inode_length (ino s i)) + 511"]
    unfolding sectors_def by linarith
  then have "byte_at s' i q = (if p \<le> q \<and> q < p + m then buf ! (q - p) else byte_at s i q)"
    using assms(1) by (simp add: wrote_def)
  then show "contents s' i ! q = overlay p (take m buf) (contents s i) ! q"
    using q assms(2,3) by (auto simp: contents_def ino nth_overlay)
qed

lemma inode_write_ok:
  assumes "writable i s" "p < 2 ^ 31" "nat sz \<le> length buf"
  defines "m \<equiv> min (nat sz) (length (contents s i) - p)"
  shows "\<exists>s'. inode_write_at i buf sz (int p) s = Some (int m, s') \<and> wrote s i buf p m s' \<and>
    contents s' i = overlay p (take m buf) (contents s i)"
proof -
  have w: "inode_ok s i" "deny_write_cnt (ino s i) = 0" "plenty s" using assms(1) by (simp_all add: writable_def)
  obtain n s' where r: "write_loop i buf sz (int p) NULL s = Some (n, s')" "write_result s i buf sz p True n s'"
    using write_loop_ok [OF w(1) assms(2,3), of NULL] w(3) by auto
  have n: "nat n = m" "n = int m" using r(2) by (auto simp: write_result_def m_def avail_def)
  have wr: "wrote s i buf p m s'" using r(2) unfolding write_result_def n(1) by blast
  have c: "contents s' i = overlay p (take m buf) (contents s i)" if "p + m \<le> nat (inode_length (ino s i))"
    using wrote_contents [OF wr that] assms(3) by (simp add: m_def)
  have z: "contents s' i = contents s i" if "m = 0"
  proof -
    have "wrote s i buf 0 0 s'" using wr that by (auto simp: wrote_def)
    then show ?thesis using wrote_contents by fastforce
  qed
  have "contents s' i = overlay p (take m buf) (contents s i)"
  proof (cases "m = 0")
    case False
    then have "p + m \<le> nat (inode_length (ino s i))" by (auto simp: m_def min_def split: if_splits)
    then show ?thesis by (rule c)
  qed (simp add: z)
  then show ?thesis using r(1) n(2) w(2) wr inode_ok_nonnull [OF w(1)] by (simp add: inode_write_at_def)
qed

interpretation ib: byte_store "writable i" "\<lambda>s. contents s i" "inode_read_at i" "inode_write_at i" for i
proof (unfold_locales, goal_cases)
  case (1 s p sz)
  then obtain s' where s': "inode_read_at i sz (int p) s = Some (take (nat sz) (drop p (contents s i)), s')"
    "io_step s s'" "contents s' i = contents s i"
    using inode_read_ok [of s i p sz] by (auto simp: writable_def)
  have "writable i s'" using 1 io_stepD(1,10,11) [OF s'(2)] by (simp add: writable_def)
  then show ?case using s' by blast
next
  case (2 s p sz buf)
  then obtain s' where s': "inode_write_at i buf sz (int p) s = Some (int (min (nat sz) (length (contents s i) - p)), s')"
    "wrote s i buf p (min (nat sz) (length (contents s i) - p)) s'"
    "contents s' i = overlay p (take (min (nat sz) (length (contents s i) - p)) buf) (contents s i)"
    using inode_write_ok [of i s p sz buf] by blast
  then have "io_step s s'" by (simp add: wrote_def)
  then have "writable i s'" using 2(1) io_stepD(1,10,11) [of s s'] by (simp add: writable_def)
  then show ?case using s' by blast
qed

section \<open>Properties\<close>

text \<open>Another file keeps its bytes when the two share no sector.\<close>

lemma wrote_other:
  assumes w: "wrote s i buf p m s'" and ok: "inode_ok s j" and d: "own (ino s i) \<inter> own (ino s j) = {}"
  shows "contents s' j = contents s j"
proof -
  have ino: "ino s' = ino s" using w io_stepD(1) by (auto simp: wrote_def)
  have "byte_at s' j q = byte_at s j q" if q: "q < nat (inode_length (ino s j))" for q
  proof -
    have "q div 512 < sectors (ino s j)" using q by (simp add: sectors_def div_round_512)
    then have "unat (istart (idata (ino s j)) + of_nat (q div 512)) \<in> own (ino s j)"
      using data_sector(3) [OF ok q] by (simp add: own_def)
    then have "unat (istart (idata (ino s j)) + of_nat (q div 512)) \<notin> own (ino s i)" using d by blast
    then show ?thesis using w by (simp add: byte_at_def wrote_def ino)
  qed
  then show ?thesis by (simp add: contents_def ino)
qed

text \<open>
  C12 (\<^verbatim>\<open>inode_write_at\<close>, \<^verbatim>\<open>inode_read_at\<close>).  While memory lasts, writing a buffer that fits into a
  file reports its full size; reading that range gives the buffer back, the other bytes of the file are
  as before, and so is every file that shares no sector with this one.
\<close>

theorem inode_write_read:
  assumes "writable i s" and "p + length buf \<le> length (contents s i)"
    and "inode_ok s j" and "own (ino s i) \<inter> own (ino s j) = {}"
  shows "\<exists>s' s''. inode_write_at i buf (int (length buf)) (int p) s = Some (int (length buf), s') \<and>
    inode_read_at i (int (length buf)) (int p) s' = Some (buf, s'') \<and>
    contents s'' i = overlay p buf (contents s i) \<and> contents s' j = contents s j"
proof -
  have p: "p < 2 ^ 31" using assms(1,2) round_lim [of s i p] by (simp add: writable_def)
  obtain s' s'' where w: "inode_write_at i buf (int (length buf)) (int p) s = Some (int (length buf), s')"
    "inode_read_at i (int (length buf)) (int p) s' = Some (buf, s'')" "contents s'' i = overlay p buf (contents s i)"
    using ib.write_read [OF assms(1,2) p] by blast
  have "\<exists>m. wrote s i buf p m s'"
    using inode_write_ok [OF assms(1) p, of "int (length buf)" buf] w(1) by auto
  then have "contents s' j = contents s j" using wrote_other assms(3,4) by blast
  then show ?thesis using w by blast
qed

text \<open>
  (\<^verbatim>\<open>file_deny_write\<close>, \<^verbatim>\<open>file_allow_write\<close>).  After \<^verbatim>\<open>file_deny_write\<close> on an open file every
  write through any file of the same inode writes nothing and reports zero, and \<^verbatim>\<open>file_allow_write\<close>
  restores the state before; a second call of either is without effect.
\<close>

theorem file_deny_allow:
  assumes "f \<noteq> NULL" and "finode (fil s f) \<noteq> NULL" and "\<not> fdeny_write (fil s f)" and "0 \<le> deny_write_cnt (ino s (finode (fil s f)))"
    and "deny_write_cnt (ino s (finode (fil s f))) < open_cnt (ino s (finode (fil s f)))"
    and "open_cnt (ino s (finode (fil s f))) < 2 ^ 31"
  shows "\<exists>s'. file_deny_write f s = Some s' \<and> file_deny_write f s' = Some s' \<and>
    inode_write_at (finode (fil s f)) buf sz p s' = Some (0, s') \<and>
    file_allow_write f s' = Some s \<and> file_allow_write f s = Some s"
proof -
  let ?i = "finode (fil s f)"
  let ?d = "deny_write_cnt (ino s ?i)"
  let ?s = "upd_inode ?i (deny_write_cnt_update (\<lambda>n. s32 (n + 1))) (upd_file f (fdeny_write_update (\<lambda>_. True)) s)"
  have w: "s32 (?d + 1) = ?d + 1" using assms by (intro s32_id) simp_all
  have w': "s32 ?d = ?d" using assms by (intro s32_id) simp_all
  have "file_deny_write f s = Some ?s"
    using assms w by (simp add: file_deny_write_def inode_deny_write_def upd_inode_def upd_file_def Let_def)
  moreover have "file_deny_write f ?s = Some ?s"
    using assms(1) by (simp add: file_deny_write_def upd_inode_def upd_file_def)
  moreover have "inode_write_at ?i buf sz p ?s = Some (0, ?s)"
    using assms(2,4) w by (simp add: inode_write_at_def upd_inode_def upd_file_def)
  moreover have "file_allow_write f ?s = Some s"
  proof -
    have "deny_write_cnt_update (\<lambda>n. ?d) (ino s ?i) = ino s ?i" "fdeny_write_update (\<lambda>_. False) (fil s f) = fil s f"
      using assms(3) by simp_all
    then show ?thesis
      using assms w w' by (simp add: file_allow_write_def inode_allow_write_def upd_inode_def upd_file_def fun_upd_idem)
  qed
  moreover have "file_allow_write f s = Some s" using assms(1,3) by (simp add: file_allow_write_def)
  ultimately show ?thesis by blast
qed

lemma file_read_ok:
  assumes "f \<noteq> NULL" "inode_ok s (finode (fil s f))" "plenty s" "fpos (fil s f) = int p" "p + nat m < 2 ^ 31"
  shows "\<exists>s'. file_read f m s = Some (take (nat m) (drop p (contents s (finode (fil s f)))), s') \<and>
    inode_ok s' (finode (fil s f)) \<and> plenty s' \<and> finode (fil s' f) = finode (fil s f) \<and>
    contents s' (finode (fil s f)) = contents s (finode (fil s f)) \<and>
    fpos (fil s' f) = int (p + length (take (nat m) (drop p (contents s (finode (fil s f))))))"
proof -
  let ?i = "finode (fil s f)"
  let ?bs = "take (nat m) (drop p (contents s ?i))"
  obtain s1 where s1: "inode_read_at ?i m (int p) s = Some (?bs, s1)" "io_step s s1" "sec s1 = sec s"
    "contents s1 ?i = contents s ?i"
    using inode_read_ok [OF assms(2,3), of p m] assms(5) by auto
  let ?s = "upd_file f (fpos_update (\<lambda>q. s32 (q + int (length ?bs)))) s1"
  note io = io_stepD [OF s1(2)]
  have l: "length ?bs \<le> nat m" by simp
  then have "s32 (int p + int (length ?bs)) = int (p + length ?bs)"
    using assms(5) by (subst s32_id) simp_all
  moreover have "contents ?s ?i = contents s1 ?i" by (rule contents_cong) (simp_all add: upd_file_def sec_def fun_eq_iff)
  moreover have "inode_ok ?s ?i" "plenty ?s" using io(11) [OF assms(2)] io(10) [OF assms(3)]
    by (simp_all add: upd_file_def inode_ok_def plenty_def)
  moreover have "file_read f m s = Some (?bs, ?s)" using s1(1) assms(1,4) by (simp add: file_read_def)
  ultimately show ?thesis using assms(4) s1(4) io(2) by (simp add: upd_file_def)
qed

text \<open>
  (\<^verbatim>\<open>file_read\<close>).  While memory lasts, two reads one after the other return adjacent parts of the
  file: together what one read of both sizes returns, and the position has moved by that many bytes.
\<close>

theorem file_read_sequence:
  assumes "f \<noteq> NULL" and "inode_ok s (finode (fil s f))" and "plenty s" and "0 \<le> fpos (fil s f)" and "0 \<le> m" and "0 \<le> n"
    and "fpos (fil s f) + m + n < 2 ^ 31"
  shows "\<exists>xs s1 ys s2. file_read f m s = Some (xs, s1) \<and> file_read f n s1 = Some (ys, s2) \<and>
    xs @ ys = take (nat (m + n)) (drop (nat (fpos (fil s f))) (contents s (finode (fil s f)))) \<and>
    fpos (fil s2 f) = fpos (fil s f) + int (length (xs @ ys))"
proof -
  let ?i = "finode (fil s f)"
  define p where "p = nat (fpos (fil s f))"
  have p: "fpos (fil s f) = int p" using assms(4) by (simp add: p_def)
  have "int p + m + n < 2147483648" using assms(7) p by simp
  then have "p + nat m + nat n < 2147483648" using assms(5,6) by linarith
  then have lim: "p + nat m + nat n < 2 ^ 31" by simp
  define xs where "xs = take (nat m) (drop p (contents s ?i))"
  obtain s1 where s1: "file_read f m s = Some (xs, s1)" "inode_ok s1 ?i" "plenty s1" "finode (fil s1 f) = ?i"
    "contents s1 ?i = contents s ?i" "fpos (fil s1 f) = int (p + length xs)"
    using file_read_ok [OF assms(1,2,3) p, of m] lim by (auto simp: xs_def)
  have lx: "length xs \<le> nat m" by (simp add: xs_def)
  define ys where "ys = take (nat n) (drop (p + length xs) (contents s ?i))"
  obtain s2 where s2: "file_read f n s1 = Some (ys, s2)" "fpos (fil s2 f) = int (p + length xs + length ys)"
    using file_read_ok [of f s1 "p + length xs" n] s1 lim lx assms(1) by (auto simp: ys_def)
  have "xs @ ys = take (nat (m + n)) (drop p (contents s ?i))"
  proof (cases "length xs = nat m")
    case True
    then show ?thesis using assms(5,6) by (simp add: xs_def ys_def take_add nat_add_distrib add.commute)
  next
    case False
    then have "drop p (contents s ?i) = xs" "drop (p + length xs) (contents s ?i) = []"
      by (auto simp: xs_def min_def split: if_splits)
    then show ?thesis using lx assms(5,6) by (simp add: ys_def)
  qed
  then show ?thesis using s1(1) s2 unfolding p by auto
qed

text \<open>A disk of 64 sectors with a file system partition of 32, and two small files on it.\<close>

definition demo_devices :: devices where
  "demo_devices = \<lparr>all_blocks = [0x1000, 0x2000], block_by_role = (\<lambda>_. NULL)(BLOCK_FILESYS := 0x2000),
     blk = (\<lambda>_. \<lparr>bname = [], btype = BLOCK_RAW, bsize = 64, ops = Ide 0, read_cnt = 0, write_cnt = 0\<rparr>)
       (0x2000 := \<lparr>bname = [], btype = BLOCK_FILESYS, bsize = 32, ops = Partition 0x1000 8, read_cnt = 0, write_cnt = 0\<rparr>),
     media = (\<lambda>_ n. replicate 512 (ucast n)), allocs = (\<lambda>_. 0x9000)\<rparr>"

definition demo_inode :: "u32 \<Rightarrow> int \<Rightarrow> inode" where
  "demo_inode st l = \<lparr>isector = 0, open_cnt = 1, removed = False, deny_write_cnt = 0,
     idata = \<lparr>istart = st, ilength = l, imagic = INODE_MAGIC, iunused = replicate 125 0\<rparr>\<rparr>"

definition demo_fs :: fs where
  "demo_fs = \<lparr>dv = demo_devices, fs_device = 0x2000,
     ino = (\<lambda>_. demo_inode 4 600)(0x6000 := demo_inode 6 700), open_inodes = [0x5000, 0x6000],
     fil = (\<lambda>_. \<lparr>finode = 0x5000, fpos = 500, fdeny_write = False, fread_cnt = 0\<rparr>), drs = (\<lambda>_. \<lparr>dinode = 0, dpos = 0\<rparr>),
     free_map = \<lparr>bit_cnt = 32, bits = [0]\<rparr>, free_map_file = NULL\<rparr>"

lemma demo_device_ok: "device_ok demo_devices 0x2000"
  by (simp add: demo_devices_def device_ok_def on_disk_def BLOCK_SECTOR_SIZE_def)

lemma demo_inode_ok: "inode_ok demo_fs 0x5000" "inode_ok demo_fs 0x6000"
  using demo_device_ok by (simp_all add: inode_ok_def demo_fs_def demo_inode_def inode_length_def sectors_def) (simp_all add: demo_devices_def)

lemma demo_writable: "writable 0x5000 demo_fs" "plenty demo_fs"
  using demo_inode_ok by (simp_all add: writable_def plenty_def demo_fs_def) (simp_all add: demo_inode_def demo_devices_def)

theorem inode_write_read_witness:
  "\<exists>s' s''. inode_write_at 0x5000 (replicate 30 7) (int (length (replicate 30 (7 :: u8)))) (int 500) demo_fs =
      Some (int (length (replicate 30 (7 :: u8))), s') \<and>
    inode_read_at 0x5000 (int (length (replicate 30 (7 :: u8)))) (int 500) s' = Some (replicate 30 7, s'') \<and>
    contents s'' 0x5000 = overlay 500 (replicate 30 7) (contents demo_fs 0x5000) \<and> contents s' 0x6000 = contents demo_fs 0x6000"
  by (rule inode_write_read [OF demo_writable(1) _ demo_inode_ok(2)])
     (simp_all add: demo_fs_def demo_inode_def inode_length_def own_def sectors_def)

theorem file_deny_allow_witness:
  "\<exists>s'. file_deny_write 0x7000 demo_fs = Some s' \<and> file_deny_write 0x7000 s' = Some s' \<and>
    inode_write_at (finode (fil demo_fs 0x7000)) [1, 2] 2 0 s' = Some (0, s') \<and>
    file_allow_write 0x7000 s' = Some demo_fs \<and> file_allow_write 0x7000 demo_fs = Some demo_fs"
  by (rule file_deny_allow) (simp_all add: demo_fs_def demo_inode_def)

theorem file_read_sequence_witness:
  "\<exists>xs s1 ys s2. file_read 0x7000 20 demo_fs = Some (xs, s1) \<and> file_read 0x7000 200 s1 = Some (ys, s2) \<and>
    xs @ ys = take (nat (20 + 200)) (drop (nat (fpos (fil demo_fs 0x7000))) (contents demo_fs (finode (fil demo_fs 0x7000)))) \<and>
    fpos (fil s2 0x7000) = fpos (fil demo_fs 0x7000) + int (length (xs @ ys))"
  using demo_inode_ok(1) by (intro file_read_sequence demo_writable(2)) (simp_all add: demo_fs_def)

end
