(* ===== verification/Freemap.thy ===== *)
theory Freemap
  imports Inode
begin

unbundle bit_operations_syntax

text \<open>
  Allocation of disk sectors, and the operations that open, close, create and remove files:
  \<^verbatim>\<open>src/filesys/free-map.c\<close>, the rest of \<^verbatim>\<open>src/filesys/inode.c\<close> and
  \<^verbatim>\<open>src/filesys/file.c\<close>, and \<^verbatim>\<open>bitmap_read\<close> and \<^verbatim>\<open>bitmap_write\<close> of
  \<^verbatim>\<open>src/lib/kernel/bitmap.c\<close>.

  A function that stores a result through a pointer and returns whether it succeeded returns an
  option: nothing on failure.
\<close>

section \<open>Bitmaps in files\<close>

definition bitmap_read :: "bitmap \<Rightarrow> addr \<Rightarrow> fs \<Rightarrow> (bool \<times> bitmap \<times> fs) option" where
  "bitmap_read b f s =
     (if bit_cnt b > 0 then do {
        let sz = sint (byte_cnt (bit_cnt b));
        (bs, s) \<leftarrow> file_read_at f sz 0 s;
        let b = b\<lparr>bits := words_of_bytes (overlay 0 bs (bytes_of_words (bits b)))\<rparr>;
        b \<leftarrow> upd_elem (elem_cnt (bit_cnt b) - 1) (\<lambda>e. e AND last_mask b) b;
        Some (int (length bs) = sz, b, s)
      } else Some (True, b, s))"

definition bitmap_write :: "bitmap \<Rightarrow> addr \<Rightarrow> fs \<Rightarrow> (bool \<times> fs) option" where
  "bitmap_write b f s = do {
     let sz = sint (byte_cnt (bit_cnt b));
     (n, s) \<leftarrow> file_write_at f (bytes_of_words (bits b)) sz 0 s;
     Some (n = sz, s)
   }"

section \<open>The free map\<close>

definition FREE_MAP_SECTOR :: u32 where "FREE_MAP_SECTOR = 0"
definition ROOT_DIR_SECTOR :: u32 where "ROOT_DIR_SECTOR = 1"

text \<open>\<open>mem\<close> is what the block that \<^verbatim>\<open>bitmap_create\<close> allocates for the bits holds.\<close>

definition free_map_init :: "u32 list \<Rightarrow> fs \<Rightarrow> fs option" where
  "free_map_init mem s = do {
     let (b, s) = fs_malloc s;
     let (arr, s) = (if b \<noteq> NULL then fs_malloc s else (NULL, s));
     r \<leftarrow> bitmap_create (block_size (fs_device s) (dv s)) (b \<noteq> NULL) (if arr \<noteq> NULL then Some mem else None);
     fm \<leftarrow> r;
     fm \<leftarrow> bitmap_mark FREE_MAP_SECTOR fm;
     fm \<leftarrow> bitmap_mark ROOT_DIR_SECTOR fm;
     Some (s\<lparr>free_map := fm\<rparr>)
   }"

definition free_map_allocate :: "u32 \<Rightarrow> fs \<Rightarrow> (u32 option \<times> fs) option" where
  "free_map_allocate cnt s = do {
     (sector, fm) \<leftarrow> bitmap_scan_and_flip 0 cnt False (free_map s);
     let s = s\<lparr>free_map := fm\<rparr>;
     (written, s) \<leftarrow> (if sector \<noteq> BITMAP_ERROR \<and> free_map_file s \<noteq> NULL
                      then bitmap_write (free_map s) (free_map_file s) s else Some (True, s));
     if \<not> written then do {
       fm \<leftarrow> bitmap_set_multiple sector cnt False (free_map s);
       Some (None, s\<lparr>free_map := fm\<rparr>)
     }
     else Some (if sector \<noteq> BITMAP_ERROR then Some sector else None, s)
   }"

definition free_map_release :: "u32 \<Rightarrow> u32 \<Rightarrow> fs \<Rightarrow> fs option" where
  "free_map_release sector cnt s = do {
     a \<leftarrow> bitmap_all (free_map s) sector cnt;
     ASSERT a;
     fm \<leftarrow> bitmap_set_multiple sector cnt False (free_map s);
     let s = s\<lparr>free_map := fm\<rparr>;
     (_, s) \<leftarrow> bitmap_write (free_map s) (free_map_file s) s;
     Some s
   }"

section \<open>Opening and closing inodes\<close>

definition inode_init :: "fs \<Rightarrow> fs" where
  "inode_init s = s\<lparr>open_inodes := []\<rparr>"

definition encode_inode :: "inode_disk \<Rightarrow> u8 list" where
  "encode_inode d = bytes_of_words (istart d # of_int (ilength d) # imagic d # iunused d)"

definition decode_inode :: "u8 list \<Rightarrow> inode_disk" where
  "decode_inode bs = (let ws = words_of_bytes bs in
     \<lparr>istart = ws ! 0, ilength = sint (ws ! 1), imagic = ws ! 2, iunused = drop 3 ws\<rparr>)"

definition inode_create :: "u32 \<Rightarrow> int \<Rightarrow> fs \<Rightarrow> (bool \<times> fs) option" where
  "inode_create sector l s = do {
     ASSERT (l \<ge> 0);
     let (disk_inode, s) = fs_malloc s;
     if disk_inode \<noteq> NULL then do {
       let sects = bytes_to_sectors l;
       (r, s) \<leftarrow> free_map_allocate sects s;
       case r of
         None \<Rightarrow> Some (False, s)
       | Some st \<Rightarrow> do {
           s \<leftarrow> fs_write sector (encode_inode \<lparr>istart = st, ilength = l, imagic = INODE_MAGIC, iunused = replicate 125 0\<rparr>) s;
           s \<leftarrow> for_up (unat sects) 0 (\<lambda>k. fs_write (st + k) (replicate 512 0)) s;
           Some (True, s)
         }
     } else Some (False, s)
   }"

definition inode_open :: "u32 \<Rightarrow> fs \<Rightarrow> (addr \<times> fs) option" where
  "inode_open sector s =
     (case find (\<lambda>i. isector (ino s i) = sector) (open_inodes s) of
        Some i \<Rightarrow> Some (inode_reopen i s)
      | None \<Rightarrow> do {
          let (i, s) = fs_malloc s;
          if i = NULL then Some (NULL, s) else do {
            let s = s\<lparr>open_inodes := i # open_inodes s\<rparr>;
            (bs, s) \<leftarrow> fs_read sector s;
            Some (i, upd_inode i (\<lambda>_. \<lparr>isector = sector, open_cnt = 1, removed = False,
                                       deny_write_cnt = 0, idata = decode_inode bs\<rparr>) s)
          }
        })"

definition inode_close :: "addr \<Rightarrow> fs \<Rightarrow> fs option" where
  "inode_close i s =
     (if i = NULL then Some s
      else do {
        let s = upd_inode i (open_cnt_update (\<lambda>n. s32 (n - 1))) s;
        if open_cnt (ino s i) = 0 then do {
          let s = s\<lparr>open_inodes := remove1 i (open_inodes s)\<rparr>;
          if removed (ino s i) then do {
            s \<leftarrow> free_map_release (isector (ino s i)) 1 s;
            free_map_release (istart (idata (ino s i))) (bytes_to_sectors (ilength (idata (ino s i)))) s
          } else Some s
        } else Some s
      })"

section \<open>Opening and closing files\<close>

definition file_open :: "addr \<Rightarrow> fs \<Rightarrow> (addr \<times> fs) option" where
  "file_open i s = do {
     let (f, s) = fs_malloc s;
     if i \<noteq> NULL \<and> f \<noteq> NULL
     then Some (f, upd_file f (\<lambda>_. \<lparr>finode = i, fpos = 0, fdeny_write = False, fread_cnt = 0\<rparr>) s)
     else do { s \<leftarrow> inode_close i s; Some (NULL, s) }
   }"

definition file_reopen :: "addr \<Rightarrow> fs \<Rightarrow> (addr \<times> fs) option" where
  "file_reopen f s = do {
     ASSERT (f \<noteq> NULL);
     let (i, s) = inode_reopen (finode (fil s f)) s;
     file_open i s
   }"

definition file_close :: "addr \<Rightarrow> fs \<Rightarrow> fs option" where
  "file_close f s =
     (if f \<noteq> NULL then do { s \<leftarrow> file_allow_write f s; inode_close (finode (fil s f)) s } else Some s)"

definition free_map_open :: "fs \<Rightarrow> fs option" where
  "free_map_open s = do {
     (i, s) \<leftarrow> inode_open FREE_MAP_SECTOR s;
     (f, s) \<leftarrow> file_open i s;
     let s = s\<lparr>free_map_file := f\<rparr>;
     ASSERT (f \<noteq> NULL);
     (r, fm, s) \<leftarrow> bitmap_read (free_map s) f s;
     let s = s\<lparr>free_map := fm\<rparr>;
     ASSERT r;
     Some s
   }"

definition free_map_close :: "fs \<Rightarrow> fs option" where
  "free_map_close s = file_close (free_map_file s) s"

definition free_map_create :: "fs \<Rightarrow> fs option" where
  "free_map_create s = do {
     (c, s) \<leftarrow> inode_create FREE_MAP_SECTOR (sint (bitmap_file_size (free_map s))) s;
     ASSERT c;
     (i, s) \<leftarrow> inode_open FREE_MAP_SECTOR s;
     (f, s) \<leftarrow> file_open i s;
     let s = s\<lparr>free_map_file := f\<rparr>;
     ASSERT (f \<noteq> NULL);
     (r, s) \<leftarrow> bitmap_write (free_map s) f s;
     ASSERT r;
     Some s
   }"

section \<open>The free map on disk\<close>

definition map_ok :: "bitmap \<Rightarrow> bool" where
  "map_ok b \<longleftrightarrow> 0 < unat (bit_cnt b) \<and> unat (bit_cnt b) < 2 ^ 31 \<and> length (bits b) = (unat (bit_cnt b) + 31) div 32"

lemma map_ok_slots: "map_ok b \<Longrightarrow> bm_slots_ok b"
  using mult_div_mod_eq [of 32 "unat (bit_cnt b) + 31"] mod_less_divisor [of 32 "unat (bit_cnt b) + 31"]
  unfolding map_ok_def bm_slots_ok_def bm_ok_def by simp

lemma map_ok_sizes:
  assumes "map_ok b"
  shows "unat (elem_cnt (bit_cnt b)) = length (bits b)" "sint (byte_cnt (bit_cnt b)) = int (4 * length (bits b))"
    "0 < length (bits b)" "4 * length (bits b) < 2 ^ 31"
proof -
  have n: "0 < unat (bit_cnt b)" "unat (bit_cnt b) < 2147483648" "length (bits b) = (unat (bit_cnt b) + 31) div 32"
    using assms by (simp_all add: map_ok_def)
  have "unat (31 + bit_cnt b) = unat (bit_cnt b) + 31"
    using unat_add_nowrap [of 31 "bit_cnt b"] n(2) by simp
  then show e: "unat (elem_cnt (bit_cnt b)) = length (bits b)"
    by (simp add: elem_cnt_def ELEM_BITS_def unat_div n(3))
  have l: "length (bits b) < 2 ^ 27"
    using n(2) unfolding n(3) by (simp add: less_mult_imp_div_less)
  then have "unat (byte_cnt (bit_cnt b)) = 4 * length (bits b)"
    by (simp add: byte_cnt_def unat_word_ariths e)
  moreover show s: "4 * length (bits b) < 2 ^ 31" using l by simp
  ultimately show "sint (byte_cnt (bit_cnt b)) = int (4 * length (bits b))"
    using sint_small [of "byte_cnt (bit_cnt b)"] by simp
  show "0 < length (bits b)" using n by (simp add: div_greater_zero_iff)
qed

text \<open>The operations on bits keep the array.\<close>

lemma for_up_keeps:
  assumes "for_up n i f s = Some s'" "P s" "\<And>j t t'. f j t = Some t' \<Longrightarrow> P t \<Longrightarrow> P t'"
  shows "P s'"
  using assms(1,2)
proof (induction n arbitrary: i s)
  case (Suc n)
  then show ?case using assms(3) by (auto elim!: bind_SomeE)
qed simp

lemma bitmap_set_length: "bitmap_set i v b = Some b' \<Longrightarrow> length (bits b') = length (bits b)"
  by (auto simp: bitmap_set_def bitmap_mark_def bitmap_reset_def upd_elem_def monad_simps split: if_splits)

lemma bitmap_set_multiple_length: "bitmap_set_multiple i c v b = Some b' \<Longrightarrow> length (bits b') = length (bits b)"
  unfolding bitmap_set_multiple_def
  by (auto simp: monad_simps split: if_splits elim!: for_up_keeps dest!: bitmap_set_length)

lemma set_multiple_map_ok:
  assumes "map_ok b" "unat i + unat c \<le> unat (bit_cnt b)"
  shows "\<exists>b'. bitmap_set_multiple i c v b = Some b' \<and> map_ok b' \<and> bit_cnt b' = bit_cnt b \<and>
    bm_abs b' = fill (unat i) (unat c) v (bm_abs b)"
proof -
  have "bm_ok b" using map_ok_slots [OF assms(1)] by (simp add: bm_slots_ok_def)
  from bitmap_set_multiple_abs [OF this assms(2), of v] show ?thesis
    using assms(1) bitmap_set_multiple_length [of i c v b] by (fastforce simp: map_ok_def)
qed

lemma scan_and_flip_map_ok:
  assumes "map_ok b"
  shows "\<exists>i b'. bitmap_scan_and_flip 0 c False b = Some (i, b') \<and> map_ok b' \<and> bit_cnt b' = bit_cnt b \<and>
    (if i = BITMAP_ERROR then b' = b \<and> (\<forall>j. \<not> group_at (bm_abs b) j (unat c) False)
     else group_at (bm_abs b) (unat i) (unat c) False \<and> bm_abs b' = fill (unat i) (unat c) True (bm_abs b) \<and>
       (\<forall>j. group_at (bm_abs b) j (unat c) False \<longrightarrow> unat i \<le> j))"
proof -
  note ok = map_ok_slots [OF assms]
  obtain i b' where r: "bitmap_scan_and_flip 0 c False b = Some (i, b')" "bm_slots_ok b'"
    using bm.take_total [OF ok] by blast
  have "bit_cnt b' = bit_cnt b"
    using bitmap_scan_and_flip_abs [of b 0 c False] ok unfolding r(1) bm_slots_ok_def by auto
  moreover have "length (bits b') = length (bits b)"
    using r(1) bitmap_set_multiple_length [of i c True b]
    unfolding bitmap_scan_and_flip_def by (auto elim!: bind_SomeE split: if_splits)
  ultimately have "map_ok b'" "bit_cnt b' = bit_cnt b" using assms by (simp_all add: map_ok_def)
  moreover have "unat i \<le> j" if "i \<noteq> BITMAP_ERROR" "group_at (bm_abs b) j (unat c) False" for j
  proof -
    have "unat i = (LEAST j. group_at (bm_abs b) j (unat c) False)"
      using bitmap_scan_and_flip_abs [of b 0 c False] ok that unfolding r(1) bm_slots_ok_def by (auto split: if_splits)
    then show ?thesis using that(2) by (simp add: Least_le)
  qed
  ultimately show ?thesis
    using r(1) bm.take_fail [OF ok r(1)] bm.take_new [OF ok r(1)] by (intro exI conjI) (assumption | simp)+
qed

definition map_inode :: "fs \<Rightarrow> addr" where
  "map_inode s = finode (fil s (free_map_file s))"

text \<open>The free map is in memory, and its file is open and large enough.\<close>

definition map_open :: "fs \<Rightarrow> bool" where
  "map_open s \<longleftrightarrow> map_ok (free_map s) \<and> free_map_file s \<noteq> NULL \<and> writable (map_inode s) s \<and>
     4 * length (bits (free_map s)) \<le> length (contents s (map_inode s))"

text \<open>The file holds the bits.\<close>

definition saved :: "fs \<Rightarrow> bool" where
  "saved s \<longleftrightarrow> take (4 * length (bits (free_map s))) (contents s (map_inode s)) = bytes_of_words (bits (free_map s))"

lemma writable_step:
  assumes "writable i s" "io_step s s'"
  shows "writable i s'"
  using assms io_stepD(1) [OF assms(2)] io_stepD(10) [OF assms(2)] io_stepD(11) [OF assms(2)]
  by (simp add: writable_def)

lemma map_open_step:
  assumes "map_open s" "io_step s s'"
  shows "map_open s'"
proof -
  note io = io_stepD [OF assms(2)]
  have "map_inode s' = map_inode s" by (simp add: map_inode_def io)
  then show ?thesis using assms(1) writable_step [OF _ assms(2)] by (simp add: map_open_def io)
qed

lemma bitmap_write_ok:
  assumes "map_open s"
  shows "\<exists>s'. bitmap_write (free_map s) (free_map_file s) s = Some (True, s') \<and> map_open s' \<and> saved s' \<and>
    wrote s (map_inode s) (bytes_of_words (bits (free_map s))) 0 (4 * length (bits (free_map s))) s'"
proof -
  let ?b = "free_map s" and ?i = "map_inode s"
  have m: "map_ok ?b" "free_map_file s \<noteq> NULL" "writable ?i s" "4 * length (bits ?b) \<le> length (contents s ?i)"
    using assms by (simp_all add: map_open_def)
  note z = map_ok_sizes [OF m(1)]
  define n where "n = 4 * length (bits ?b)"
  have l: "n \<le> length (contents s ?i)" "length (bytes_of_words (bits ?b)) = n" using m(4) by (simp_all add: n_def)
  then obtain s' where w: "inode_write_at ?i (bytes_of_words (bits ?b)) (int n) (int 0) s = Some (int n, s')"
    "wrote s ?i (bytes_of_words (bits ?b)) 0 n s'"
    "contents s' ?i = overlay 0 (bytes_of_words (bits ?b)) (contents s ?i)"
    using inode_write_ok [OF m(3), of 0 "int n" "bytes_of_words (bits ?b)"] by (auto simp: min_absorb1)
  have io: "io_step s s'" using w(2) by (simp add: wrote_def)
  have "map_inode s' = ?i" "free_map s' = ?b" by (simp_all add: map_inode_def io_stepD [OF io])
  then have "saved s'" using w(3) l by (simp add: saved_def overlay_def)
  moreover have "bitmap_write ?b (free_map_file s) s = Some (True, s')"
    using w(1) m(2) unfolding bitmap_write_def z(2) n_def [symmetric] by (simp add: file_write_at_def map_inode_def)
  ultimately show ?thesis using w(2) map_open_step [OF assms io] by (auto simp: n_def)
qed

lemma last_mask_bit:
  assumes "k < unat (bit_cnt b)" "k div 32 = (unat (bit_cnt b) - 1) div 32"
  shows "bit (last_mask b) (k mod 32)"
proof -
  let ?n = "unat (bit_cnt b)"
  have e: "unat (bit_cnt b mod ELEM_BITS) = ?n mod 32" by (simp add: ELEM_BITS_def unat_mod)
  show ?thesis
  proof (cases "?n mod 32 = 0")
    case True
    then show ?thesis by (simp add: last_mask_def e)
  next
    case False
    note E = mult_div_mod_eq [of 32 k] mult_div_mod_eq [of 32 ?n]
    have "(?n - 1) div 32 = ?n div 32"
    proof (rule div_nat_eqI)
      show "32 * (?n div 32) \<le> ?n - 1" using E(2) False by linarith
      have "?n - 1 < 32 * (?n div 32) + 32" using E(2) mod_less_divisor [of 32 ?n] by linarith
      then show "?n - 1 < 32 * Suc (?n div 32)" by simp
    qed
    then have "k mod 32 < ?n mod 32" using E assms by linarith
    moreover have "push_bit m 1 - 1 = (mask m :: u32)" for m
      by (simp add: push_bit_eq_mult mask_eq_exp_minus_1)
    ultimately show ?thesis using False by (simp add: last_mask_def e bit_mask_iff)
  qed
qed

lemma bitmap_read_ok:
  assumes o: "map_open s" "saved s" and b: "bit_cnt b = bit_cnt (free_map s)" "length (bits b) = length (bits (free_map s))"
  shows "\<exists>b' s'. bitmap_read b (free_map_file s) s = Some (True, b', s') \<and> map_ok b' \<and> bit_cnt b' = bit_cnt b \<and>
    bm_abs b' = bm_abs (free_map s) \<and> io_step s s' \<and> sec s' = sec s"
proof -
  let ?i = "map_inode s"
  have m: "map_ok (free_map s)" "free_map_file s \<noteq> NULL" "writable ?i s" using o(1) by (simp_all add: map_open_def)
  have mb: "map_ok b" using m(1) b by (simp add: map_ok_def)
  note z = map_ok_sizes [OF mb]
  define n where "n = 4 * length (bits b)"
  define ws where "ws = bits (free_map s)"
  have t: "take n (contents s ?i) = bytes_of_words ws" using o(2) by (simp add: saved_def n_def ws_def b)
  obtain s' where r: "inode_read_at ?i (int n) (int 0) s = Some (bytes_of_words ws, s')" "io_step s s'" "sec s' = sec s"
    using inode_read_ok [of s ?i 0 "int n"] m(3) t by (auto simp: writable_def)
  have lw: "length ws = length (bits b)" by (simp add: ws_def b)
  then have ov: "overlay 0 (bytes_of_words ws) (bytes_of_words (bits b)) = bytes_of_words ws" by (simp add: overlay_def)
  let ?l = "(unat (bit_cnt b) - 1) div 32"
  have n0: "0 < unat (bit_cnt b)" using mb by (simp add: map_ok_def)
  have L: "unat (elem_cnt (bit_cnt b) - 1) = length ws - 1" "length ws - 1 = ?l" "?l < length ws"
  proof -
    have "elem_cnt (bit_cnt b) \<noteq> 0" using z(1,3) by auto
    then show "unat (elem_cnt (bit_cnt b) - 1) = length ws - 1" using z(1) lw by (simp add: unat_minus_one)
    have "unat (bit_cnt b) + 31 = unat (bit_cnt b) - 1 + 32" using n0 by simp
    then show "length ws - 1 = ?l" using mb lw unfolding map_ok_def by (metis div_add_self2 add_diff_cancel_right' zero_neq_numeral)
    then show "?l < length ws" using z(3) lw by linarith
  qed
  have nz: "bit_cnt b > 0" using n0 by (simp add: word_less_nat_alt)
  let ?b = "b\<lparr>bits := ws[?l := ws ! ?l AND last_mask b]\<rparr>"
  have lm: "last_mask (b\<lparr>bits := ws\<rparr>) = last_mask b" by (simp add: last_mask_def)
  have "bitmap_read b (free_map_file s) s = Some (True, ?b, s')"
    using nz r(1) m(2) L lw unfolding bitmap_read_def z(2) n_def [symmetric]
    by (simp add: file_read_at_def map_inode_def ov upd_elem_def lm) (simp add: n_def)
  moreover have "bm_abs ?b = bm_abs (free_map s)"
  proof (rule nth_equalityI)
    fix k assume "k < length (bm_abs ?b)"
    then have k: "k < unat (bit_cnt b)" by simp
    then have "bit_at (ws[?l := ws ! ?l AND last_mask b]) k = bit_at ws k"
      using last_mask_bit [OF k] L(3) by (auto simp: bit_at_def nth_list_update bit_and_iff)
    then show "bm_abs ?b ! k = bm_abs (free_map s) ! k" using k by (simp add: nth_bm_abs b flip: ws_def)
  qed (simp add: b)
  moreover have "map_ok ?b" using mb lw by (simp add: map_ok_def)
  ultimately show ?thesis using r by auto
qed

lemma map_upd_cong:
  "contents (s\<lparr>free_map := fm\<rparr>) i = contents s i" "map_inode (s\<lparr>free_map := fm\<rparr>) = map_inode s"
  "writable i (s\<lparr>free_map := fm\<rparr>) = writable i s" "sec (s\<lparr>free_map := fm\<rparr>) = sec s"
  by (simp_all add: contents_def byte_at_def sec_def map_inode_def writable_def inode_ok_def plenty_def fun_eq_iff)

lemma map_open_upd:
  "map_open s \<Longrightarrow> map_ok fm \<Longrightarrow> bit_cnt fm = bit_cnt (free_map s) \<Longrightarrow> map_open (s\<lparr>free_map := fm\<rparr>)"
  by (simp add: map_open_def map_upd_cong map_ok_def)

text \<open>An allocation changes the free map and the sectors of its file.\<close>

definition map_step :: "fs \<Rightarrow> fs \<Rightarrow> bool" where
  "map_step s s' \<longleftrightarrow> io_step (s\<lparr>free_map := free_map s'\<rparr>) s' \<and> bit_cnt (free_map s') = bit_cnt (free_map s) \<and>
     (\<forall>k. unat k \<notin> own (ino s (map_inode s)) \<longrightarrow> sec s' k = sec s k)"

lemma free_map_allocate_ok:
  assumes "map_open s"
  shows "\<exists>r s'. free_map_allocate c s = Some (r, s') \<and> map_open s' \<and> map_step s s' \<and>
    (case r of
       None \<Rightarrow> s' = s \<and> (\<forall>j. \<not> group_at (bm_abs (free_map s)) j (unat c) False)
     | Some st \<Rightarrow> group_at (bm_abs (free_map s)) (unat st) (unat c) False \<and> saved s' \<and>
         bm_abs (free_map s') = fill (unat st) (unat c) True (bm_abs (free_map s)) \<and>
         (\<forall>j. group_at (bm_abs (free_map s)) j (unat c) False \<longrightarrow> unat st \<le> j))"
proof -
  have m: "map_ok (free_map s)" "free_map_file s \<noteq> NULL" using assms by (simp_all add: map_open_def)
  obtain i b where f: "bitmap_scan_and_flip 0 c False (free_map s) = Some (i, b)" "map_ok b" "bit_cnt b = bit_cnt (free_map s)"
    "if i = BITMAP_ERROR then b = free_map s \<and> (\<forall>j. \<not> group_at (bm_abs (free_map s)) j (unat c) False)
     else group_at (bm_abs (free_map s)) (unat i) (unat c) False \<and> bm_abs b = fill (unat i) (unat c) True (bm_abs (free_map s)) \<and>
       (\<forall>j. group_at (bm_abs (free_map s)) j (unat c) False \<longrightarrow> unat i \<le> j)"
    using scan_and_flip_map_ok [OF m(1), of c] by blast
  show ?thesis
  proof (cases "i = BITMAP_ERROR")
    case True
    then show ?thesis using f assms by (simp add: free_map_allocate_def map_step_def)
  next
    case False
    let ?s = "s\<lparr>free_map := b\<rparr>"
    have o: "map_open ?s" using map_open_upd [OF assms f(2,3)] .
    obtain s' where w: "bitmap_write b (free_map_file s) ?s = Some (True, s')" "map_open s'" "saved s'"
      "wrote ?s (map_inode s) (bytes_of_words (bits b)) 0 (4 * length (bits b)) s'"
      using bitmap_write_ok [OF o] by (auto simp: map_upd_cong)
    have io: "io_step ?s s'" using w(4) by (simp add: wrote_def)
    then have fm: "free_map s' = b" by (simp add: io_stepD(6))
    have "map_step s s'" using io f(3) w(4) by (simp add: map_step_def fm wrote_def map_upd_cong)
    then show ?thesis using f(1,4) w m(2) False fm by (simp add: free_map_allocate_def)
  qed
qed

text \<open>A write, complete or not, leaves the free map in memory alone.\<close>

lemma fs_ops_free_map:
  "fs_write n b s = Some s' \<Longrightarrow> free_map s' = free_map s" "fs_read n s = Some (bs, s') \<Longrightarrow> free_map s' = free_map s"
  "fs_malloc s = (a, s') \<Longrightarrow> free_map s' = free_map s"
  by (auto simp: fs_write_def fs_read_def fs_malloc_def monad_simps split: prod.splits)

lemma write_loop_free_map:
  "write_loop i buf sz ofs bounce s = Some (n, s') \<Longrightarrow> free_map s' = free_map s"
proof (induction "nat sz" arbitrary: buf sz ofs bounce s n s' rule: less_induct)
  case less
  note w = less.prems
  let ?c = "chunk_size (ino s i) sz ofs"
  have IH: "free_map s' = free_map s1" if "write_loop i b (sz - ?c) p b' s1 = Some (m, s')" "0 < sz" "0 < ?c" for b p b' s1 m
    using less.hyps [OF _ that(1)] that(2,3) by simp
  show ?case
  proof (cases "0 < sz \<and> i \<noteq> NULL \<and> 0 < ?c")
    case False
    then show ?thesis using w by (subst (asm) write_loop.simps) (auto split: if_splits simp: Let_def)
  next
    case True
    show ?thesis
    proof (cases "sector_ofs ofs = 0 \<and> ?c = 512")
      case direct: True
      then obtain s1 m where "fs_write (byte_to_sector (ino s i) ofs) (take 512 buf) s = Some s1"
        "write_loop i (drop (nat ?c) buf) (sz - ?c) (ofs + ?c) bounce s1 = Some (m, s')"
        using w True by (subst (asm) write_loop.simps) (auto simp: Let_def elim!: bind_SomeE)
      then show ?thesis using IH True fs_ops_free_map(1) by metis
    next
      case part: False
      obtain b0 s0 where b0: "(if bounce = NULL then fs_malloc s else (bounce, s)) = (b0, s0)" by fastforce
      have f0: "free_map s0 = free_map s" using b0 fs_ops_free_map(3) by (auto split: if_splits)
      let ?so = "sector_ofs ofs" and ?sec = "byte_to_sector (ino s i) ofs"
      have e: "(if b0 = NULL then Some (0, s0) else if ?so < 0 then None else do {
          (b, s) \<leftarrow> (if ?so > 0 \<or> ?c < 512 - ?so then fs_read ?sec s0 else Some (replicate 512 0, s0));
          s \<leftarrow> fs_write ?sec (take (nat ?so) b @ take (nat ?c) buf @ drop (nat ?so + nat ?c) b) s;
          (n, s) \<leftarrow> write_loop i (drop (nat ?c) buf) (sz - ?c) (ofs + ?c) b0 s;
          Some (?c + n, s) }) = Some (n, s')"
        using w True part b0 by (subst (asm) write_loop.simps) (simp add: Let_def)
      show ?thesis
      proof (cases "b0 = NULL")
        case True then show ?thesis using e f0 by simp
      next
        case False
        then obtain b s1 s2 m where "(if ?so > 0 \<or> ?c < 512 - ?so then fs_read ?sec s0 else Some (replicate 512 0, s0)) = Some (b, s1)"
          "fs_write ?sec (take (nat ?so) b @ take (nat ?c) buf @ drop (nat ?so + nat ?c) b) s1 = Some s2"
          "write_loop i (drop (nat ?c) buf) (sz - ?c) (ofs + ?c) b0 s2 = Some (m, s')"
          using e by (auto elim!: bind_SomeE split: if_splits)
        moreover from this(1) have "free_map s1 = free_map s0" using fs_ops_free_map(2) by (auto split: if_splits)
        ultimately show ?thesis using IH True f0 fs_ops_free_map(1) by metis
      qed
    qed
  qed
qed

lemma bitmap_write_free_map: "bitmap_write b f s = Some (r, s') \<Longrightarrow> free_map s' = free_map s"
  by (auto simp: bitmap_write_def file_write_at_def inode_write_at_def monad_simps Let_def split: if_splits
      dest!: write_loop_free_map)

text \<open>An allocation whose map cannot be written to the file is undone.\<close>

lemma free_map_allocate_undone:
  assumes m: "map_ok (free_map s)" "free_map_file s \<noteq> NULL"
    and f: "bitmap_scan_and_flip 0 c False (free_map s) = Some (st, b)" "st \<noteq> BITMAP_ERROR"
    and w: "bitmap_write b (free_map_file s) (s\<lparr>free_map := b\<rparr>) = Some (False, s1)"
  shows "\<exists>fm. free_map_allocate c s = Some (None, s1\<lparr>free_map := fm\<rparr>) \<and> bm_abs fm = bm_abs (free_map s)"
proof -
  have fm: "free_map s1 = b" using bitmap_write_free_map [OF w] by simp
  have b: "map_ok b" "bit_cnt b = bit_cnt (free_map s)" "group_at (bm_abs (free_map s)) (unat st) (unat c) False"
    "bm_abs b = fill (unat st) (unat c) True (bm_abs (free_map s))"
    using scan_and_flip_map_ok [OF m(1), of c] f by auto
  have "unat st + unat c \<le> unat (bit_cnt b)" using b(2,3) by (simp add: group_at_def)
  then obtain b' where b': "bitmap_set_multiple st c False b = Some b'"
    "bm_abs b' = fill (unat st) (unat c) False (bm_abs b)" using set_multiple_map_ok [OF b(1)] by blast
  have "free_map_allocate c s = Some (None, s1\<lparr>free_map := b'\<rparr>)"
    using f m(2) w b'(1) fm by (simp add: free_map_allocate_def)
  moreover have "bm_abs b' = bm_abs (free_map s)" unfolding b'(2) b(4) by (rule fill_undo [OF b(3)])
  ultimately show ?thesis by blast
qed

lemma free_map_release_ok:
  assumes "map_open s" "group_at (bm_abs (free_map s)) (unat st) (unat c) True"
  shows "\<exists>s'. free_map_release st c s = Some s' \<and> map_open s' \<and> map_step s s' \<and> saved s' \<and>
    bm_abs (free_map s') = fill (unat st) (unat c) False (bm_abs (free_map s))"
proof -
  have m: "map_ok (free_map s)" "free_map_file s \<noteq> NULL" using assms by (simp_all add: map_open_def)
  have r: "unat st + unat c \<le> unat (bit_cnt (free_map s))" using assms(2) by (simp add: group_at_def)
  obtain b where b: "bitmap_set_multiple st c False (free_map s) = Some b" "map_ok b" "bit_cnt b = bit_cnt (free_map s)"
    "bm_abs b = fill (unat st) (unat c) False (bm_abs (free_map s))" using set_multiple_map_ok [OF m(1) r] by blast
  have "bm_ok (free_map s)" using map_ok_slots [OF m(1)] by (simp add: bm_slots_ok_def)
  then have "bitmap_all (free_map s) st c = Some True"
    using bitmap_contains_abs [OF _ r, of False] assms(2) by (simp add: bitmap_all_def group_at_def)
  moreover let ?s = "s\<lparr>free_map := b\<rparr>"
  have o: "map_open ?s" using map_open_upd [OF assms(1) b(2,3)] .
  obtain s' where w: "bitmap_write b (free_map_file s) ?s = Some (True, s')" "map_open s'" "saved s'"
    "wrote ?s (map_inode s) (bytes_of_words (bits b)) 0 (4 * length (bits b)) s'"
    using bitmap_write_ok [OF o] by (auto simp: map_upd_cong)
  have io: "io_step ?s s'" using w(4) by (simp add: wrote_def)
  then have fm: "free_map s' = b" by (simp add: io_stepD(6))
  have "map_step s s'" using io b(3) w(4) by (simp add: map_step_def fm wrote_def map_upd_cong)
  ultimately show ?thesis using b w fm by (simp add: free_map_release_def)
qed

section \<open>Creating and opening inodes\<close>

lemma decode_encode:
  assumes "- (2 ^ 31) \<le> ilength d" "ilength d < 2 ^ 31"
  shows "decode_inode (encode_inode d) = d"
proof -
  have "sint (of_int (ilength d) :: u32) = ilength d"
    using assms by (simp add: signed_of_int signed_take_bit_int_eq_self)
  then show ?thesis by (simp add: decode_inode_def encode_inode_def)
qed

lemma length_encode: "length (iunused d) = 125 \<Longrightarrow> length (encode_inode d) = 512"
  by (simp add: encode_inode_def)

lemma bytes_to_sectors_nat:
  assumes "0 \<le> l" "l < 2 ^ 31 - 512"
  shows "unat (bytes_to_sectors l) = (nat l + 511) div 512"
proof -
  have w: "s32 (l + 512) = l + 512" "s32 (l + 512 - 1) = l + 511"
    using assms by (subst s32_id; simp)+
  have e: "(l + 511) div 512 = int ((nat l + 511) div 512)" using assms(1) by (simp add: zdiv_int)
  have b: "(nat l + 511) div 512 < 2 ^ 32" using assms by (simp add: div_less_dividend less_mult_imp_div_less)
  have "bytes_to_sectors l = of_nat ((nat l + 511) div 512)"
    unfolding bytes_to_sectors_def w using assms(1) by (simp add: cdiv_nonneg e)
  then show ?thesis using unat_of_nat32 [OF b] by simp
qed

text \<open>Zeroing a range of sectors.\<close>

lemma zero_sectors:
  assumes d: "device_ok (dv s) (fs_device s)" and r: "unat st + n \<le> unat (bsize (blk (dv s) (fs_device s)))"
  shows "\<exists>s'. for_up n 0 (\<lambda>k. fs_write (st + k) (replicate 512 0)) s = Some s' \<and> io_step s s' \<and>
    (\<forall>k. sec s' k = (if unat st \<le> unat k \<and> unat k < unat st + n then replicate 512 0 else sec s k))"
proof -
  let ?z = "\<lambda>j s'. io_step s s' \<and> (\<forall>k. sec s' k = (if unat st \<le> unat k \<and> unat k < unat st + j then replicate 512 0 else sec s k))"
  have "\<exists>s'. for_up n 0 (\<lambda>k. fs_write (st + k) (replicate 512 0)) s = Some s' \<and> ?z n s'"
  proof (rule for_up_inv)
    fix j t assume j: "j < n" and z: "?z j t"
    have b: "unat st + j < unat (bsize (blk (dv s) (fs_device s)))" using r j by linarith
    have "unat (of_nat j :: u32) = j" using b unat_lt32 [of "bsize (blk (dv s) (fs_device s))"] by (intro unat_of_nat32) linarith
    then have u: "unat (st + of_nat j) = unat st + j"
      using b unat_lt32 [of "bsize (blk (dv s) (fs_device s))"] unat_add_nowrap [of st "of_nat j"] by simp
    note io = io_stepD [OF conjunct1 [OF z]]
    have "st + of_nat j < bsize (blk (dv t) (fs_device t))" using b u by (simp add: io word_less_nat_alt)
    then obtain t' where t': "fs_write (st + of_nat j) (replicate 512 0) t = Some t'" "io_step t t'"
      "sec t' = (sec t)(st + of_nat j := replicate 512 0)"
      using fs_write_ok [of t "st + of_nat j" "replicate 512 0"] io d by auto
    have "sec t' k = (if unat st \<le> unat k \<and> unat k < unat st + Suc j then replicate 512 0 else sec s k)" for k
    proof (cases "k = st + of_nat j")
      case False
      then have "unat k \<noteq> unat st + j" using u by (metis word_unat_eq_iff)
      then show ?thesis using False z t'(3) by auto
    qed (simp add: t'(3) u)
    then show "\<exists>t'. fs_write (st + (0 + of_nat j)) (replicate 512 0) t = Some t' \<and> ?z (Suc j) t'"
      using t' io_step_trans [OF conjunct1 [OF z] t'(2)] by auto
  qed (use r unat_lt32 [of "bsize (blk (dv s) (fs_device s))"] in auto)
  then show ?thesis by blast
qed

text \<open>The state after a file was created: the data sectors were free and are allocated and zero, the
  inode sector holds the inode, and no sector changes but these and those of the free map file.\<close>

definition created :: "fs \<Rightarrow> u32 \<Rightarrow> int \<Rightarrow> u32 \<Rightarrow> fs \<Rightarrow> bool" where
  "created s sector l st s' \<longleftrightarrow>
     (let n = (nat l + 511) div 512 in
      group_at (bm_abs (free_map s)) (unat st) n False \<and>
      bm_abs (free_map s') = fill (unat st) n True (bm_abs (free_map s)) \<and>
      (\<forall>k. unat st \<le> unat k \<and> unat k < unat st + n \<longrightarrow> sec s' k = replicate 512 0) \<and>
      decode_inode (sec s' sector) = \<lparr>istart = st, ilength = l, imagic = INODE_MAGIC, iunused = replicate 125 0\<rparr> \<and>
      (\<forall>k. k \<noteq> sector \<and> \<not> (unat st \<le> unat k \<and> unat k < unat st + n) \<and> unat k \<notin> own (ino s (map_inode s)) \<longrightarrow> sec s' k = sec s k))"

text \<open>The free map covers the device, and the sectors of its file are in use.\<close>

definition map_wf :: "fs \<Rightarrow> bool" where
  "map_wf s \<longleftrightarrow> map_open s \<and> bit_cnt (free_map s) = bsize (blk (dv s) (fs_device s)) \<and>
     (\<forall>k \<in> own (ino s (map_inode s)). bm_abs (free_map s) ! k)"

lemma map_wfD:
  assumes "map_wf s"
  shows "map_open s" "device_ok (dv s) (fs_device s)" "plenty s"
    "\<And>st n. group_at (bm_abs (free_map s)) st n False \<Longrightarrow> {st..<st + n} \<inter> own (ino s (map_inode s)) = {}"
proof -
  show "map_open s" "device_ok (dv s) (fs_device s)" "plenty s"
    using assms by (simp_all add: map_wf_def map_open_def writable_def inode_ok_def)
  fix st n assume "group_at (bm_abs (free_map s)) st n False"
  from group_atD [OF this] show "{st..<st + n} \<inter> own (ino s (map_inode s)) = {}"
    using assms unfolding map_wf_def by (meson atLeastLessThan_iff disjoint_iff)
qed

lemma map_wf_io:
  assumes "map_wf s" "io_step s s'"
  shows "map_wf s'"
proof -
  note io = io_stepD [OF assms(2)]
  have "map_inode s' = map_inode s" by (simp add: map_inode_def io)
  then show ?thesis using assms(1) map_open_step [OF _ assms(2)] by (simp add: map_wf_def io)
qed

lemma map_stepD:
  assumes "map_step s s'"
  shows "ino s' = ino s" "fil s' = fil s" "drs s' = drs s" "open_inodes s' = open_inodes s" "fs_device s' = fs_device s"
    "free_map_file s' = free_map_file s" "map_inode s' = map_inode s"
    "bsize (blk (dv s') (fs_device s)) = bsize (blk (dv s) (fs_device s))" "bit_cnt (free_map s') = bit_cnt (free_map s)"
    "inode_ok s i \<Longrightarrow> inode_ok s' i" "plenty s \<Longrightarrow> plenty s'"
proof -
  let ?s = "s\<lparr>free_map := free_map s'\<rparr>"
  have "io_step ?s s'" using assms by (simp add: map_step_def)
  note io = io_stepD [OF this]
  show "ino s' = ino s" "fil s' = fil s" "drs s' = drs s" "open_inodes s' = open_inodes s" "fs_device s' = fs_device s"
    "free_map_file s' = free_map_file s" "bsize (blk (dv s') (fs_device s)) = bsize (blk (dv s) (fs_device s))"
    using io(1-5,7,8) by simp_all
  then show "map_inode s' = map_inode s" by (simp add: map_inode_def)
  show "bit_cnt (free_map s') = bit_cnt (free_map s)" using assms by (simp add: map_step_def)
  have "inode_ok ?s i = inode_ok s i" "plenty ?s = plenty s" by (simp_all add: inode_ok_def plenty_def)
  then show "inode_ok s i \<Longrightarrow> inode_ok s' i" "plenty s \<Longrightarrow> plenty s'" using io(10,11) by blast+
qed

lemma map_wf_fill:
  assumes "map_wf s" "map_step s s'" "map_open s'" "bm_abs (free_map s') = fill st n True (bm_abs (free_map s))"
    "st + n \<le> unat (bit_cnt (free_map s))"
  shows "map_wf s'"
proof -
  note d = map_stepD [OF assms(2)]
  have "bm_abs (free_map s') ! k" if k: "k \<in> own (ino s (map_inode s))" for k
  proof -
    have "writable (map_inode s) s" using map_wfD(1) [OF assms(1)] by (simp add: map_open_def)
    then have "k < unat (bit_cnt (free_map s))"
      using k assms(1) by (auto simp: own_def writable_def inode_ok_def map_wf_def)
    then show ?thesis using assms(1,4,5) k by (simp add: nth_fill map_wf_def)
  qed
  then show ?thesis using assms(1,3) by (simp add: map_wf_def d)
qed

lemma inode_create_ok:
  assumes wf: "map_wf s" and l: "0 \<le> l" "l < 2 ^ 31 - 512"
    and sector: "sector < bsize (blk (dv s) (fs_device s))" "bm_abs (free_map s) ! unat sector"
  shows "\<exists>r s'. inode_create sector l s = Some (r, s') \<and> map_wf s' \<and> map_inode s' = map_inode s \<and>
    ino s' = ino s \<and> open_inodes s' = open_inodes s \<and> fil s' = fil s \<and> fs_device s' = fs_device s \<and> drs s' = drs s \<and>
    bsize (blk (dv s') (fs_device s)) = bsize (blk (dv s) (fs_device s)) \<and>
    (if r then \<exists>st. created s sector l st s'
     else sec s' = sec s \<and> free_map s' = free_map s \<and>
       (\<forall>j. \<not> group_at (bm_abs (free_map s)) j ((nat l + 511) div 512) False))"
proof -
  let ?n = "(nat l + 511) div 512"
  note n = bytes_to_sectors_nat [OF l]
  obtain s1 where s1: "fs_malloc s = (allocs (dv s) 0, s1)" "io_step s s1" "sec s1 = sec s"
    using fs_malloc_ok by blast
  note io1 = io_stepD [OF s1(2)]
  have m1: "map_inode s1 = map_inode s" by (simp add: map_inode_def io1)
  have wf1: "map_wf s1" by (rule map_wf_io [OF wf s1(2)])
  have nn: "allocs (dv s) 0 \<noteq> NULL" using map_wfD(3) [OF wf] by (simp add: plenty_def)
  obtain r s2 where r: "free_map_allocate (bytes_to_sectors l) s1 = Some (r, s2)" "map_open s2" "map_step s1 s2"
    and R: "case r of None \<Rightarrow> s2 = s1 \<and> (\<forall>j. \<not> group_at (bm_abs (free_map s)) j ?n False)
       | Some st \<Rightarrow> group_at (bm_abs (free_map s)) (unat st) ?n False \<and>
           bm_abs (free_map s2) = fill (unat st) ?n True (bm_abs (free_map s))"
    using free_map_allocate_ok [OF map_wfD(1) [OF wf1], of "bytes_to_sectors l"]
    by (auto simp: n io1 split: option.splits)
  show ?thesis
  proof (cases r)
    case None
    then show ?thesis using r R s1 nn l wf1 m1 io1 by (simp add: inode_create_def) blast
  next
    case (Some st)
    then have g: "group_at (bm_abs (free_map s)) (unat st) ?n False" "bm_abs (free_map s2) = fill (unat st) ?n True (bm_abs (free_map s))"
      using R by simp_all
    have rng: "unat st + ?n \<le> unat (bit_cnt (free_map s))" using g(1) by (simp add: group_at_def)
    note d2 = map_stepD [OF r(3)]
    have wf2: "map_wf s2" using map_wf_fill [OF wf1 r(3,2)] g(2) rng by (simp add: io1)
    let ?d = "\<lparr>istart = st, ilength = l, imagic = INODE_MAGIC, iunused = replicate 125 0\<rparr>"
    have bs: "bsize (blk (dv s2) (fs_device s2)) = bsize (blk (dv s) (fs_device s))" using d2 io1 by simp
    obtain s3 where s3: "fs_write sector (encode_inode ?d) s2 = Some s3" "io_step s2 s3" "sec s3 = (sec s2)(sector := encode_inode ?d)"
      using fs_write_ok [OF map_wfD(2) [OF wf2], of sector "encode_inode ?d"] sector(1) bs by (auto simp: length_encode)
    note io3 = io_stepD [OF s3(2)]
    have wf3: "map_wf s3" by (rule map_wf_io [OF wf2 s3(2)])
    have "unat st + ?n \<le> unat (bsize (blk (dv s3) (fs_device s3)))"
      using rng wf bs by (simp add: io3 map_wf_def)
    then obtain s4 where s4: "for_up ?n 0 (\<lambda>k. fs_write (st + k) (replicate 512 0)) s3 = Some s4" "io_step s3 s4"
      "\<And>k. sec s4 k = (if unat st \<le> unat k \<and> unat k < unat st + ?n then replicate 512 0 else sec s3 k)"
      using zero_sectors [OF map_wfD(2) [OF wf3], of st ?n] by blast
    note io4 = io_stepD [OF s4(2)]
    have ns: "\<not> (unat st \<le> unat sector \<and> unat sector < unat st + ?n)"
      using group_atD [OF g(1)] sector(2) by blast
    have sec2: "sec s2 k = sec s k" if "unat k \<notin> own (ino s (map_inode s))" for k
      using r(3) that s1(3) by (simp add: map_step_def io1 m1)
    have "created s sector l st s4"
      using g l ns by (auto simp: created_def Let_def s4(3) s3(3) sec2 io3 io4 decode_encode)
    moreover have "inode_create sector l s = Some (True, s4)"
      using s1(1) nn l r(1) Some s3(1) s4(1) by (simp add: inode_create_def n)
    ultimately show ?thesis using map_wf_io [OF wf3 s4(2)] d2 m1 io1 io3 io4 by (auto simp: map_inode_def)
  qed
qed

lemma inode_open_new:
  assumes d: "device_ok (dv s) (fs_device s)" "plenty s" and sector: "sector < bsize (blk (dv s) (fs_device s))"
    and new: "\<forall>i \<in> set (open_inodes s). isector (ino s i) \<noteq> sector"
  shows "\<exists>i s'. inode_open sector s = Some (i, s') \<and> i \<noteq> NULL \<and> i = allocs (dv s) 0 \<and> sec s' = sec s \<and>
    ino s' = (ino s)(i := \<lparr>isector = sector, open_cnt = 1, removed = False, deny_write_cnt = 0, idata = decode_inode (sec s sector)\<rparr>) \<and>
    open_inodes s' = i # open_inodes s \<and> fil s' = fil s \<and> free_map s' = free_map s \<and> free_map_file s' = free_map_file s \<and>
    fs_device s' = fs_device s \<and> bsize (blk (dv s') (fs_device s)) = bsize (blk (dv s) (fs_device s)) \<and>
    device_ok (dv s') (fs_device s) \<and> plenty s'"
proof -
  have f: "find (\<lambda>i. isector (ino s i) = sector) (open_inodes s) = None" using new by (simp add: find_None_iff)
  obtain s1 where s1: "fs_malloc s = (allocs (dv s) 0, s1)" "io_step s s1" "sec s1 = sec s" using fs_malloc_ok by blast
  note io1 = io_stepD [OF s1(2)]
  let ?i = "allocs (dv s) 0" and ?s = "s1\<lparr>open_inodes := allocs (dv s) 0 # open_inodes s1\<rparr>"
  have nn: "?i \<noteq> NULL" using d(2) by (simp add: plenty_def)
  have "sec ?s = sec s1" by (simp add: sec_def fun_eq_iff)
  then obtain s2 where s2: "fs_read sector ?s = Some (sec s sector, s2)" "io_step ?s s2" "sec s2 = sec s"
    using fs_read_ok [of ?s sector] io1 d(1) sector s1(3) by auto
  note io2 = io_stepD [OF s2(2)]
  let ?r = "upd_inode ?i (\<lambda>_. \<lparr>isector = sector, open_cnt = 1, removed = False, deny_write_cnt = 0, idata = decode_inode (sec s sector)\<rparr>) s2"
  have p: "plenty ?s" "device_ok (dv ?s) (fs_device ?s)" using io1 d by (simp_all add: plenty_def)
  have "inode_open sector s = Some (?i, ?r)" using f s1(1) nn s2(1) by (simp add: inode_open_def)
  moreover have "sec ?r = sec s" using s2(3) by (simp add: sec_def upd_inode_def fun_eq_iff)
  ultimately show ?thesis
    using nn p io1 io2 by (simp add: upd_inode_def) (simp add: plenty_def)
qed

section \<open>Properties\<close>

lemma free_map_allocate_round:
  assumes "map_open s"
  shows "\<exists>r s'. free_map_allocate c s = Some (r, s') \<and>
    (\<forall>k. unat k \<notin> own (ino s (map_inode s)) \<longrightarrow> sec s' k = sec s k) \<and>
    (case r of
       None \<Rightarrow> s' = s \<and> (\<forall>j. \<not> group_at (bm_abs (free_map s)) j (unat c) False)
     | Some st \<Rightarrow> group_at (bm_abs (free_map s)) (unat st) (unat c) False \<and>
         bm_abs (free_map s') = fill (unat st) (unat c) True (bm_abs (free_map s)) \<and>
         (\<exists>b t. bitmap_read (free_map s) (free_map_file s) s' = Some (True, b, t) \<and> bm_abs b = bm_abs (free_map s')) \<and>
         (\<exists>s''. free_map_release st c s' = Some s'' \<and> bm_abs (free_map s'') = bm_abs (free_map s)))"
proof -
  obtain r s' where a: "free_map_allocate c s = Some (r, s')" "map_open s'" "map_step s s'"
    and R: "case r of None \<Rightarrow> s' = s \<and> (\<forall>j. \<not> group_at (bm_abs (free_map s)) j (unat c) False)
     | Some st \<Rightarrow> group_at (bm_abs (free_map s)) (unat st) (unat c) False \<and> saved s' \<and>
         bm_abs (free_map s') = fill (unat st) (unat c) True (bm_abs (free_map s)) \<and>
         (\<forall>j. group_at (bm_abs (free_map s)) j (unat c) False \<longrightarrow> unat st \<le> j)"
    using free_map_allocate_ok [OF assms] by blast
  note d = map_stepD [OF a(3)]
  have S: "\<exists>b t. bitmap_read (free_map s) (free_map_file s) s' = Some (True, b, t) \<and> bm_abs b = bm_abs (free_map s')"
    "\<exists>s''. free_map_release st c s' = Some s'' \<and> bm_abs (free_map s'') = bm_abs (free_map s)" if r: "r = Some st" for st
  proof -
    have g: "group_at (bm_abs (free_map s)) (unat st) (unat c) False" "saved s'"
      "bm_abs (free_map s') = fill (unat st) (unat c) True (bm_abs (free_map s))" using R r by simp_all
    have len: "length (bits (free_map s)) = length (bits (free_map s'))"
      using assms a(2) d(9) by (simp add: map_open_def map_ok_def)
    show "\<exists>b t. bitmap_read (free_map s) (free_map_file s) s' = Some (True, b, t) \<and> bm_abs b = bm_abs (free_map s')"
      using bitmap_read_ok [OF a(2) g(2) _ len] d(6,9) by auto
    have "unat st + unat c \<le> length (bm_abs (free_map s))" using g(1) unfolding group_at_def by blast
    then have "group_at (bm_abs (free_map s')) (unat st) (unat c) True"
      unfolding group_at_def g(3) by (simp add: nth_fill)
    from free_map_release_ok [OF a(2) this] show "\<exists>s''. free_map_release st c s' = Some s'' \<and> bm_abs (free_map s'') = bm_abs (free_map s)"
      using fill_undo [OF g(1)] g(3) by auto
  qed
  have "\<forall>k. unat k \<notin> own (ino s (map_inode s)) \<longrightarrow> sec s' k = sec s k" using a(3) by (simp add: map_step_def)
  then show ?thesis using a(1) R S by (cases r) auto
qed

text \<open>
  C16 (\<^verbatim>\<open>free_map_allocate\<close>, \<^verbatim>\<open>free_map_release\<close>).  With the free map file open, large enough and
  writable and memory left, an allocation either returns sectors that were all free, marks exactly these and leaves the new map on
  disk, where reading it back gives the same bits, and releasing them restores the map; or there is no such group of sectors and
  nothing changes.  No sector outside the free map file is written.  In every state, an allocation that finds its sectors but
  cannot write the map to the file, or not all of it, fails and the map in memory is again what it was.
\<close>

theorem free_map_allocate_release:
  assumes "map_ok (free_map s)" and "free_map_file s \<noteq> NULL"
  shows "(map_open s \<longrightarrow> (\<exists>r s'. free_map_allocate c s = Some (r, s') \<and>
    (\<forall>k. unat k \<notin> own (ino s (map_inode s)) \<longrightarrow> sec s' k = sec s k) \<and>
    (case r of
       None \<Rightarrow> s' = s \<and> (\<forall>j. \<not> group_at (bm_abs (free_map s)) j (unat c) False)
     | Some st \<Rightarrow> group_at (bm_abs (free_map s)) (unat st) (unat c) False \<and>
         bm_abs (free_map s') = fill (unat st) (unat c) True (bm_abs (free_map s)) \<and>
         (\<exists>b t. bitmap_read (free_map s) (free_map_file s) s' = Some (True, b, t) \<and> bm_abs b = bm_abs (free_map s')) \<and>
         (\<exists>s''. free_map_release st c s' = Some s'' \<and> bm_abs (free_map s'') = bm_abs (free_map s))))) \<and>
    (\<forall>st b s1. bitmap_scan_and_flip 0 c False (free_map s) = Some (st, b) \<longrightarrow> st \<noteq> BITMAP_ERROR \<longrightarrow>
       bitmap_write b (free_map_file s) (s\<lparr>free_map := b\<rparr>) = Some (False, s1) \<longrightarrow>
       (\<exists>fm. free_map_allocate c s = Some (None, s1\<lparr>free_map := fm\<rparr>) \<and> bm_abs fm = bm_abs (free_map s)))"
  using free_map_allocate_round [of s c] free_map_allocate_undone [OF assms] by blast

text \<open>
  C15 (\<^verbatim>\<open>inode_create\<close>, \<^verbatim>\<open>inode_open\<close>).  When the device has room for the data, creating an
  inode of \<open>l\<close> bytes in an allocated sector succeeds, and opening it gives a file of \<open>l\<close> zero bytes whose sectors were all free
  before and are allocated now; a file whose sectors were allocated keeps its contents.
\<close>

theorem inode_create_open:
  assumes wf: "map_wf s" and l: "0 \<le> l" "l < 2 ^ 31 - 512"
    and sector: "sector < bsize (blk (dv s) (fs_device s))" "bm_abs (free_map s) ! unat sector"
    and room: "\<exists>j. group_at (bm_abs (free_map s)) j ((nat l + 511) div 512) False"
    and new: "\<forall>i \<in> set (open_inodes s). isector (ino s i) \<noteq> sector"
    and other: "inode_ok s j" "\<forall>k \<in> own (ino s j). bm_abs (free_map s) ! k" "unat sector \<notin> own (ino s j)"
      "own (ino s (map_inode s)) \<inter> own (ino s j) = {}"
  shows "\<exists>s1 i s2. inode_create sector l s = Some (True, s1) \<and> inode_open sector s1 = Some (i, s2) \<and> i \<noteq> NULL \<and>
    contents s2 i = replicate (nat l) 0 \<and>
    (\<forall>k \<in> own (ino s2 i). \<not> bm_abs (free_map s) ! k \<and> bm_abs (free_map s2) ! k) \<and>
    contents s1 j = contents s j"
proof -
  let ?n = "(nat l + 511) div 512"
  obtain s1 st where s1: "inode_create sector l s = Some (True, s1)" "map_wf s1" "ino s1 = ino s" "open_inodes s1 = open_inodes s"
    "fs_device s1 = fs_device s" "created s sector l st s1"
    using inode_create_ok [OF wf l sector] room by (auto split: if_splits)
  have C: "group_at (bm_abs (free_map s)) (unat st) ?n False" "bm_abs (free_map s1) = fill (unat st) ?n True (bm_abs (free_map s))"
    "\<And>k. unat st \<le> unat k \<Longrightarrow> unat k < unat st + ?n \<Longrightarrow> sec s1 k = replicate 512 0"
    "decode_inode (sec s1 sector) = \<lparr>istart = st, ilength = l, imagic = INODE_MAGIC, iunused = replicate 125 0\<rparr>"
    "\<And>k. k \<noteq> sector \<Longrightarrow> \<not> (unat st \<le> unat k \<and> unat k < unat st + ?n) \<Longrightarrow> unat k \<notin> own (ino s (map_inode s)) \<Longrightarrow> sec s1 k = sec s k"
    using s1(6) by (auto simp: created_def Let_def)
  have rng: "unat st + ?n \<le> length (bm_abs (free_map s))" using C(1) unfolding group_at_def by blast
  have B: "bsize (blk (dv s1) (fs_device s1)) = bit_cnt (free_map s)" "bit_cnt (free_map s) = bsize (blk (dv s) (fs_device s))"
  proof -
    have "length (bm_abs (free_map s1)) = length (bm_abs (free_map s))" using C(2) rng by simp
    then show "bsize (blk (dv s1) (fs_device s1)) = bit_cnt (free_map s)" using s1(2) by (simp add: map_wf_def word_unat_eq_iff)
    show "bit_cnt (free_map s) = bsize (blk (dv s) (fs_device s))" using wf by (simp add: map_wf_def)
  qed
  obtain i s2 where o: "inode_open sector s1 = Some (i, s2)" "i \<noteq> NULL" "sec s2 = sec s1"
    "idata (ino s2 i) = decode_inode (sec s1 sector)" "free_map s2 = free_map s1"
    using inode_open_new [OF map_wfD(2,3) [OF s1(2)], of sector] new s1(3,4) sector(1) B by auto
  have i: "inode_length (ino s2 i) = l" "istart (idata (ino s2 i)) = st" using o(4) C(4) by (simp_all add: inode_length_def)
  have own: "own (ino s2 i) = {unat st..<unat st + ?n}" by (simp add: own_def i sectors_def)
  have zero: "byte_at s2 i q = 0" if q: "q < nat l" for q
  proof -
    have k: "q div 512 < ?n" using q by (rule div_round_512)
    then have "unat (of_nat (q div 512) :: u32) = q div 512"
      using rng unat_lt32 [of "bit_cnt (free_map s)"] by (intro unat_of_nat32) simp
    then have "unat (st + of_nat (q div 512)) = unat st + q div 512"
      using rng k unat_lt32 [of "bit_cnt (free_map s)"] unat_add_nowrap [of st "of_nat (q div 512)"] by simp
    then have "sec s2 (st + of_nat (q div 512)) = replicate 512 0" using o(3) C(3) k by simp
    then show ?thesis by (simp add: byte_at_def i)
  qed
  have "contents s2 i = replicate (nat l) 0" using zero by (intro nth_equalityI) (simp_all add: contents_def i)
  moreover have "\<not> bm_abs (free_map s) ! k \<and> bm_abs (free_map s2) ! k" if "k \<in> own (ino s2 i)" for k
    using that group_atD [OF C(1), of k] rng by (simp add: own o(5) C(2) nth_fill)
  moreover have "contents s1 j = contents s j"
  proof -
    have "sec s1 k = sec s k" if k: "unat k \<in> own (ino s j)" for k
      using k other group_atD [OF C(1), of "unat k"] by (intro C(5)) auto
    then have "byte_at s1 j q = byte_at s j q" if q: "q < nat (inode_length (ino s j))" for q
      using data_sector(3) [OF other(1) q] div_round_512 [OF q] by (simp add: byte_at_def s1(3) own_def sectors_def)
    then show ?thesis by (simp add: contents_def s1(3))
  qed
  ultimately show ?thesis using s1(1) o(1,2) by blast
qed

text \<open>The demonstration disk with an open free map: the first eight sectors are in use.\<close>

definition demo_map_fs :: fs where
  "demo_map_fs = demo_fs\<lparr>ino := (ino demo_fs)(0x8100 := demo_inode 2 4),
     fil := (fil demo_fs)(0x8000 := \<lparr>finode = 0x8100, fpos = 0, fdeny_write = False, fread_cnt = 0\<rparr>),
     free_map := \<lparr>bit_cnt = 32, bits = [255]\<rparr>, free_map_file := 0x8000\<rparr>"

lemmas demo_map_simps = demo_map_fs_def demo_fs_def demo_inode_def inode_length_def sectors_def map_inode_def own_def

lemma demo_map_open: "map_open demo_map_fs" "map_inode demo_map_fs = 0x8100"
proof -
  show i: "map_inode demo_map_fs = 0x8100" by (simp add: demo_map_simps)
  have "inode_ok demo_map_fs 0x8100"
    using demo_device_ok by (simp add: inode_ok_def demo_map_simps) (simp add: demo_devices_def)
  then have "writable 0x8100 demo_map_fs"
    using demo_writable(2) by (simp add: writable_def plenty_def) (simp add: demo_map_simps)
  then show "map_open demo_map_fs" unfolding map_open_def i by (simp add: map_ok_def demo_map_simps)
qed

lemma demo_bits: "bm_abs (free_map demo_map_fs) = replicate 8 True @ replicate 24 False"
  by (simp add: demo_map_simps bm_abs_def bit_at_def upt_rec) (simp add: eval_nat_numeral)

lemma demo_map_wf: "map_wf demo_map_fs"
proof -
  have "own (ino demo_map_fs (map_inode demo_map_fs)) = {2}" unfolding demo_map_open(2) by (auto simp: demo_map_simps)
  moreover have "bm_abs (free_map demo_map_fs) ! 2" unfolding demo_bits by (simp add: nth_append)
  moreover have "bit_cnt (free_map demo_map_fs) = bsize (blk (dv demo_map_fs) (fs_device demo_map_fs))"
    by (simp add: demo_map_simps demo_devices_def)
  ultimately show ?thesis using demo_map_open(1) by (simp add: map_wf_def)
qed

text \<open>The same with writes to the free map file denied.\<close>

definition demo_denied_fs :: fs where
  "demo_denied_fs = upd_inode 0x8100 (deny_write_cnt_update (\<lambda>_. 1)) demo_map_fs"

lemma demo_denied: "\<exists>st b. bitmap_scan_and_flip 0 3 False (free_map demo_denied_fs) = Some (st, b) \<and> st \<noteq> BITMAP_ERROR \<and>
    bitmap_write b (free_map_file demo_denied_fs) (demo_denied_fs\<lparr>free_map := b\<rparr>) = Some (False, demo_denied_fs\<lparr>free_map := b\<rparr>)"
proof -
  have fm: "free_map demo_denied_fs = free_map demo_map_fs" by (simp add: demo_denied_fs_def upd_inode_def)
  have m: "map_ok (free_map demo_denied_fs)" using demo_map_open(1) by (simp add: map_open_def fm)
  obtain st b where b: "bitmap_scan_and_flip 0 3 False (free_map demo_denied_fs) = Some (st, b)" "bit_cnt b = 32"
    "if st = BITMAP_ERROR then b = free_map demo_denied_fs \<and> (\<forall>j. \<not> group_at (bm_abs (free_map demo_denied_fs)) j (unat (3 :: u32)) False)
     else group_at (bm_abs (free_map demo_denied_fs)) (unat st) (unat (3 :: u32)) False \<and>
       bm_abs b = fill (unat st) (unat (3 :: u32)) True (bm_abs (free_map demo_denied_fs)) \<and>
       (\<forall>j. group_at (bm_abs (free_map demo_denied_fs)) j (unat (3 :: u32)) False \<longrightarrow> unat st \<le> j)"
    using scan_and_flip_map_ok [OF m, of 3] by (auto simp: fm demo_map_simps)
  have "group_at (bm_abs (free_map demo_denied_fs)) 8 (unat (3 :: u32)) False"
    by (simp add: fm demo_bits group_at_def nth_append)
  then have "st \<noteq> BITMAP_ERROR" using b(3) by auto
  moreover have "bitmap_write b (free_map_file demo_denied_fs) (demo_denied_fs\<lparr>free_map := b\<rparr>) = Some (False, demo_denied_fs\<lparr>free_map := b\<rparr>)"
    using b(2) by (simp add: bitmap_write_def file_write_at_def inode_write_at_def demo_denied_fs_def upd_inode_def
        demo_map_fs_def byte_cnt_def elem_cnt_def ELEM_BITS_def)
  ultimately show ?thesis using b(1) by blast
qed

theorem free_map_allocate_release_witness:
  "(\<exists>r s'. free_map_allocate 3 demo_map_fs = Some (r, s') \<and>
    (\<forall>k. unat k \<notin> own (ino demo_map_fs (map_inode demo_map_fs)) \<longrightarrow> sec s' k = sec demo_map_fs k) \<and>
    (case r of
       None \<Rightarrow> s' = demo_map_fs \<and> (\<forall>j. \<not> group_at (bm_abs (free_map demo_map_fs)) j (unat (3 :: u32)) False)
     | Some st \<Rightarrow> group_at (bm_abs (free_map demo_map_fs)) (unat st) (unat (3 :: u32)) False \<and>
         bm_abs (free_map s') = fill (unat st) (unat (3 :: u32)) True (bm_abs (free_map demo_map_fs)) \<and>
         (\<exists>b t. bitmap_read (free_map demo_map_fs) (free_map_file demo_map_fs) s' = Some (True, b, t) \<and> bm_abs b = bm_abs (free_map s')) \<and>
         (\<exists>s''. free_map_release st 3 s' = Some s'' \<and> bm_abs (free_map s'') = bm_abs (free_map demo_map_fs)))) \<and>
   (\<exists>s'. free_map_allocate 3 demo_denied_fs = Some (None, s') \<and> bm_abs (free_map s') = bm_abs (free_map demo_map_fs))"
proof -
  have e: "map_ok (free_map demo_map_fs)" "free_map_file demo_map_fs \<noteq> NULL" "free_map demo_denied_fs = free_map demo_map_fs"
    "free_map_file demo_denied_fs = free_map_file demo_map_fs"
    using demo_map_open(1) by (simp_all add: map_open_def demo_denied_fs_def upd_inode_def)
  obtain st b where "bitmap_scan_and_flip 0 3 False (free_map demo_denied_fs) = Some (st, b)" "st \<noteq> BITMAP_ERROR"
    "bitmap_write b (free_map_file demo_denied_fs) (demo_denied_fs\<lparr>free_map := b\<rparr>) = Some (False, demo_denied_fs\<lparr>free_map := b\<rparr>)"
    using demo_denied by blast
  then have "\<exists>fm. free_map_allocate 3 demo_denied_fs = Some (None, demo_denied_fs\<lparr>free_map := fm\<rparr>) \<and> bm_abs fm = bm_abs (free_map demo_map_fs)"
    using free_map_allocate_release [of demo_denied_fs 3] e by fastforce
  then have "\<exists>s'. free_map_allocate 3 demo_denied_fs = Some (None, s') \<and> bm_abs (free_map s') = bm_abs (free_map demo_map_fs)"
    by fastforce
  then show ?thesis using free_map_allocate_release [OF e(1,2), of 3] demo_map_open(1) by blast
qed

theorem inode_create_open_witness:
  "\<exists>s1 i s2. inode_create 3 1000 demo_map_fs = Some (True, s1) \<and> inode_open 3 s1 = Some (i, s2) \<and> i \<noteq> NULL \<and>
    contents s2 i = replicate (nat 1000) 0 \<and>
    (\<forall>k \<in> own (ino s2 i). \<not> bm_abs (free_map demo_map_fs) ! k \<and> bm_abs (free_map s2) ! k) \<and>
    contents s1 0x5000 = contents demo_map_fs 0x5000"
proof -
  have "group_at (bm_abs (free_map demo_map_fs)) 8 ((nat 1000 + 511) div 512) False"
    by (simp add: demo_bits group_at_def nth_append)
  then have "\<exists>j. group_at (bm_abs (free_map demo_map_fs)) j ((nat 1000 + 511) div 512) False" by blast
  moreover have "inode_ok demo_map_fs 0x5000"
    using demo_device_ok by (simp add: inode_ok_def demo_map_simps) (simp add: demo_devices_def)
  moreover have "own (ino demo_map_fs 0x5000) = {4, 5}" "own (ino demo_map_fs (map_inode demo_map_fs)) = {2}"
    unfolding demo_map_open(2) by (auto simp: demo_map_simps)
  moreover have "isector (ino demo_map_fs i) = 0" for i by (simp add: demo_map_simps)
  moreover have "3 < bsize (blk (dv demo_map_fs) (fs_device demo_map_fs))" by (simp add: demo_map_simps demo_devices_def)
  ultimately show ?thesis by (intro inode_create_open [OF demo_map_wf]) (simp_all add: demo_bits nth_append)
qed

end
