(* ===== verification/Directory.thy ===== *)
theory Directory
  imports Freemap
begin

unbundle bit_operations_syntax

text \<open>
  Directories and the operations of the file system by name: \<^verbatim>\<open>src/filesys/directory.c\<close> and
  \<^verbatim>\<open>src/filesys/filesys.c\<close>.

  A directory is a file of entries of twenty bytes: the sector of the inode, the name in fifteen bytes and
  the flag.  A name is given by its bytes, up to a null byte or the end of the list.
\<close>

section \<open>Directories\<close>

definition NAME_MAX :: nat where "NAME_MAX = 14"

record dir_entry =
  inode_sector :: u32
  ename :: "u8 list"
  in_use :: bool

definition encode_entry :: "dir_entry \<Rightarrow> u8 list" where
  "encode_entry e = bytes_of_word (inode_sector e) @ ename e @ [if in_use e then 1 else 0]"

definition decode_entry :: "u8 list \<Rightarrow> dir_entry" where
  "decode_entry bs = \<lparr>inode_sector = word_of_bytes (take 4 bs), ename = take 15 (drop 4 bs), in_use = bs ! 19 \<noteq> 0\<rparr>"

definition dir_create :: "u32 \<Rightarrow> u32 \<Rightarrow> fs \<Rightarrow> (bool \<times> fs) option" where
  "dir_create sector entry_cnt s = inode_create sector (sint (entry_cnt * 20)) s"

definition dir_open :: "addr \<Rightarrow> fs \<Rightarrow> (addr \<times> fs) option" where
  "dir_open i s = do {
     let (d, s) = fs_malloc s;
     if i \<noteq> NULL \<and> d \<noteq> NULL
     then Some (d, s\<lparr>drs := (drs s)(d := \<lparr>dinode = i, dpos = 0\<rparr>)\<rparr>)
     else do { s \<leftarrow> inode_close i s; Some (NULL, s) }
   }"

definition dir_open_root :: "fs \<Rightarrow> (addr \<times> fs) option" where
  "dir_open_root s = do { (i, s) \<leftarrow> inode_open ROOT_DIR_SECTOR s; dir_open i s }"

definition dir_reopen :: "addr \<Rightarrow> fs \<Rightarrow> (addr \<times> fs) option" where
  "dir_reopen d s = do {
     ASSERT (d \<noteq> NULL);
     let (i, s) = inode_reopen (dinode (drs s d)) s;
     dir_open i s
   }"

definition dir_close :: "addr \<Rightarrow> fs \<Rightarrow> fs option" where
  "dir_close d s = (if d \<noteq> NULL then inode_close (dinode (drs s d)) s else Some s)"

definition dir_get_inode :: "addr \<Rightarrow> fs \<Rightarrow> addr option" where
  "dir_get_inode d s = do { ASSERT (d \<noteq> NULL); Some (dinode (drs s d)) }"

text \<open>\<^verbatim>\<open>strcmp (name, e.name)\<close>: behind the fifteen bytes of the name lies the flag, which is not null
  in an entry that is compared.  \<^verbatim>\<open>dir_add\<close> always writes a terminator into the fifteen bytes; for an entry of a
  corrupt directory without one, the flag, taken as 1, is the last character here, while the comparison in memory would go on.\<close>

definition same_name :: "u8 list \<Rightarrow> dir_entry \<Rightarrow> bool" where
  "same_name name e \<longleftrightarrow> c_string name = c_string (ename e @ [1])"

partial_function (option) lookup_loop :: "addr \<Rightarrow> u8 list \<Rightarrow> int \<Rightarrow> fs \<Rightarrow> ((dir_entry \<times> int) option \<times> fs) option" where
  "lookup_loop i name ofs s = do {
     (bs, s) \<leftarrow> inode_read_at i 20 ofs s;
     if length bs = 20 then
       (let e = decode_entry bs in
        if in_use e \<and> same_name name e then Some (Some (e, ofs), s)
        else lookup_loop i name (s32 (ofs + 20)) s)
     else Some (None, s)
   }"

definition dlookup :: "addr \<Rightarrow> u8 list \<Rightarrow> fs \<Rightarrow> ((dir_entry \<times> int) option \<times> fs) option" where
  "dlookup d name s = do {
     ASSERT (d \<noteq> NULL);
     lookup_loop (dinode (drs s d)) name 0 s
   }"

definition dir_lookup :: "addr \<Rightarrow> u8 list \<Rightarrow> fs \<Rightarrow> (addr \<times> fs) option" where
  "dir_lookup d name s = do {
     (r, s) \<leftarrow> dlookup d name s;
     case r of
       Some (e, ofs) \<Rightarrow> inode_open (inode_sector e) s
     | None \<Rightarrow> Some (NULL, s)
   }"

text \<open>The search for a free slot: the bytes of the last entry read, laid over what the local variable held
  before, and the offset.\<close>

partial_function (option) slot_loop :: "addr \<Rightarrow> u8 list \<Rightarrow> int \<Rightarrow> fs \<Rightarrow> (u8 list \<times> int \<times> fs) option" where
  "slot_loop i e ofs s = do {
     (bs, s) \<leftarrow> inode_read_at i 20 ofs s;
     let e = overlay 0 bs e;
     if length bs = 20 then
       (if \<not> in_use (decode_entry e) then Some (e, ofs, s) else slot_loop i e (s32 (ofs + 20)) s)
     else Some (e, ofs, s)
   }"

text \<open>\<^verbatim>\<open>strlcpy (e.name, name, 15)\<close> leaves the bytes behind the null byte as they are.\<close>

definition set_name :: "u8 list \<Rightarrow> u8 list \<Rightarrow> u8 list" where
  "set_name name old = overlay 0 (take NAME_MAX (c_string name) @ [0]) old"

text \<open>\<open>e0\<close> is what the local variable \<^verbatim>\<open>e\<close> holds on entry.\<close>

definition dir_add :: "u8 list \<Rightarrow> addr \<Rightarrow> u8 list \<Rightarrow> u32 \<Rightarrow> fs \<Rightarrow> (bool \<times> fs) option" where
  "dir_add e0 d name sect s = do {
     ASSERT (d \<noteq> NULL);
     if c_string name = [] \<or> NAME_MAX < length (c_string name) then Some (False, s)
     else do {
       (r, s) \<leftarrow> dlookup d name s;
       if r \<noteq> None then Some (False, s)
       else do {
         (eb, ofs, s) \<leftarrow> slot_loop (dinode (drs s d)) e0 0 s;
         let e = \<lparr>inode_sector = sect, ename = set_name name (ename (decode_entry eb)), in_use = True\<rparr>;
         (n, s) \<leftarrow> inode_write_at (dinode (drs s d)) (encode_entry e) 20 ofs s;
         Some (n = 20, s)
       }
     }
   }"

definition dir_remove :: "addr \<Rightarrow> u8 list \<Rightarrow> fs \<Rightarrow> (bool \<times> fs) option" where
  "dir_remove d name s = do {
     ASSERT (d \<noteq> NULL);
     (r, s) \<leftarrow> dlookup d name s;
     (success, i, s) \<leftarrow> (case r of
        None \<Rightarrow> Some (False, NULL, s)
      | Some (e, ofs) \<Rightarrow> do {
          (i, s) \<leftarrow> inode_open (inode_sector e) s;
          if i = NULL then Some (False, i, s)
          else do {
            (n, s) \<leftarrow> inode_write_at (dinode (drs s d)) (encode_entry (e\<lparr>in_use := False\<rparr>)) 20 ofs s;
            if n \<noteq> 20 then Some (False, i, s)
            else do { s \<leftarrow> inode_remove i s; Some (True, i, s) }
          }
        });
     s \<leftarrow> inode_close i s;
     Some (success, s)
   }"

partial_function (option) readdir_loop :: "addr \<Rightarrow> fs \<Rightarrow> (u8 list option \<times> fs) option" where
  "readdir_loop d s = do {
     (bs, s) \<leftarrow> inode_read_at (dinode (drs s d)) 20 (dpos (drs s d)) s;
     if length bs = 20 then
       (let s = s\<lparr>drs := (drs s)(d := (drs s d)\<lparr>dpos := s32 (dpos (drs s d) + 20)\<rparr>)\<rparr>;
            e = decode_entry bs
        in if in_use e then Some (Some (take NAME_MAX (c_string (ename e @ [1]))), s) else readdir_loop d s)
     else Some (None, s)
   }"

declare lookup_loop.simps [code] slot_loop.simps [code] readdir_loop.simps [code]

definition dir_readdir :: "addr \<Rightarrow> fs \<Rightarrow> (u8 list option \<times> fs) option" where
  "dir_readdir d s = do { ASSERT (d \<noteq> NULL); readdir_loop d s }"

section \<open>The file system\<close>

definition do_format :: "fs \<Rightarrow> fs option" where
  "do_format s = do {
     s \<leftarrow> free_map_create s;
     (r, s) \<leftarrow> dir_create ROOT_DIR_SECTOR 16 s;
     ASSERT r;
     free_map_close s
   }"

text \<open>\<open>mem\<close> is the uninitialised memory that the free map is allocated in.\<close>

definition filesys_init :: "u32 list \<Rightarrow> bool \<Rightarrow> fs \<Rightarrow> fs option" where
  "filesys_init mem format s = do {
     b \<leftarrow> block_get_role BLOCK_FILESYS (dv s);
     let s = s\<lparr>fs_device := b\<rparr>;
     ASSERT (b \<noteq> NULL);
     let s = inode_init s;
     s \<leftarrow> free_map_init mem s;
     s \<leftarrow> (if format then do_format s else Some s);
     free_map_open s
   }"

definition filesys_done :: "fs \<Rightarrow> fs option" where
  "filesys_done s = free_map_close s"

definition filesys_create :: "u8 list \<Rightarrow> u8 list \<Rightarrow> int \<Rightarrow> fs \<Rightarrow> (bool \<times> fs) option" where
  "filesys_create e0 name initial_size s = do {
     (d, s) \<leftarrow> dir_open_root s;
     (success, sect, s) \<leftarrow>
       (if d = NULL then Some (False, 0, s)
        else do {
          (r, s) \<leftarrow> free_map_allocate 1 s;
          case r of
            None \<Rightarrow> Some (False, 0, s)
          | Some sect \<Rightarrow> do {
              (c, s) \<leftarrow> inode_create sect initial_size s;
              if \<not> c then Some (False, sect, s)
              else do { (a, s) \<leftarrow> dir_add e0 d name sect s; Some (a, sect, s) }
            }
        });
     s \<leftarrow> (if \<not> success \<and> sect \<noteq> 0 then free_map_release sect 1 s else Some s);
     s \<leftarrow> dir_close d s;
     Some (success, s)
   }"

definition filesys_open :: "u8 list \<Rightarrow> fs \<Rightarrow> (addr \<times> fs) option" where
  "filesys_open name s = do {
     (d, s) \<leftarrow> dir_open_root s;
     (i, s) \<leftarrow> (if d \<noteq> NULL then dir_lookup d name s else Some (NULL, s));
     s \<leftarrow> dir_close d s;
     file_open i s
   }"

definition filesys_remove :: "u8 list \<Rightarrow> fs \<Rightarrow> (bool \<times> fs) option" where
  "filesys_remove name s = do {
     (d, s) \<leftarrow> dir_open_root s;
     (success, s) \<leftarrow> (if d \<noteq> NULL then dir_remove d name s else Some (False, s));
     s \<leftarrow> dir_close d s;
     Some (success, s)
   }"

section \<open>The entries of a directory\<close>

definition entry_at :: "u8 list \<Rightarrow> nat \<Rightarrow> dir_entry" where
  "entry_at bs k = decode_entry (take 20 (drop (20 * k) bs))"

definition entries :: "fs \<Rightarrow> addr \<Rightarrow> dir_entry list" where
  "entries s i = map (entry_at (contents s i)) [0..<length (contents s i) div 20]"

definition matches :: "u8 list \<Rightarrow> dir_entry \<Rightarrow> bool" where
  "matches name e \<longleftrightarrow> in_use e \<and> same_name name e"

text \<open>The abstract directory: what a name is bound to.\<close>

definition bound :: "fs \<Rightarrow> addr \<Rightarrow> u8 list \<Rightarrow> u32 option" where
  "bound s i name = map_option inode_sector (find (matches name) (entries s i))"

fun find_from :: "('a \<Rightarrow> bool) \<Rightarrow> 'a list \<Rightarrow> nat \<Rightarrow> ('a \<times> nat) option" where
  "find_from P [] k = None"
| "find_from P (x # xs) k = (if P x then Some (x, k) else find_from P xs (Suc k))"

lemma find_from_find: "map_option fst (find_from P xs k) = find P xs"
  by (induction xs arbitrary: k) auto

lemma find_from_None: "find_from P xs k = None \<longleftrightarrow> (\<forall>x \<in> set xs. \<not> P x)"
  by (induction xs arbitrary: k) auto

lemma find_from_SomeD:
  "find_from P xs k = Some (x, j) \<Longrightarrow> k \<le> j \<and> j < k + length xs \<and> xs ! (j - k) = x \<and> P x \<and> (\<forall>m < j - k. \<not> P (xs ! m))"
proof (induction xs arbitrary: k)
  case (Cons y xs)
  show ?case
  proof (cases "P y")
    case False
    then have f: "Suc k \<le> j \<and> j < Suc k + length xs \<and> xs ! (j - Suc k) = x \<and> P x \<and> (\<forall>m < j - Suc k. \<not> P (xs ! m))"
      using Cons.IH [of "Suc k"] Cons.prems by auto
    then have e: "j - k = Suc (j - Suc k)" by linarith
    have "\<not> P ((y # xs) ! m)" if "m < j - k" for m
      using that f False by (cases m) (auto simp: e)
    then show ?thesis using f by (simp add: e)
  qed (use Cons in auto)
qed simp

lemma length_entries [simp]: "length (entries s i) = length (contents s i) div 20"
  by (simp add: entries_def)

lemma nth_entries: "k < length (entries s i) \<Longrightarrow> entries s i ! k = entry_at (contents s i) k"
  by (simp add: entries_def)

lemma entries_cong: "contents s' i = contents s i \<Longrightarrow> entries s' i = entries s i"
  by (simp add: entries_def)

lemma slot_read:
  "length (take 20 (drop (20 * k) bs)) = 20 \<longleftrightarrow> k < length bs div 20" for bs :: "u8 list"
proof -
  have "20 * k + 20 \<le> length bs \<longleftrightarrow> Suc k \<le> length bs div 20"
    by (simp add: less_eq_div_iff_mult_less_eq algebra_simps)
  then show ?thesis by (auto simp: min_def)
qed

lemma lookup_loop_ok:
  assumes "inode_ok s i" "plenty s" "k \<le> length (entries s i)"
  shows "\<exists>s'. lookup_loop i name (int (20 * k)) s =
      Some (map_option (\<lambda>(e, j). (e, int (20 * j))) (find_from (matches name) (drop k (entries s i)) k), s') \<and>
    io_step s s' \<and> sec s' = sec s"
  using assms
proof (induction "length (entries s i) - k" arbitrary: k s)
  case (0 k s)
  have e: "k = length (entries s i)" using 0 by simp
  have lim: "20 * k < 2 ^ 31" using round_lim [OF 0(2), of "20 * k"] e by simp
  define bs where "bs = take 20 (drop (20 * k) (contents s i))"
  obtain s1 where s1: "inode_read_at i 20 (int (20 * k)) s = Some (bs, s1)"
    "io_step s s1" "sec s1 = sec s" using inode_read_ok [OF 0(2,3) lim, of 20] by (auto simp: bs_def)
  have "length bs = 20 \<longleftrightarrow> k < length (entries s i)" unfolding bs_def by (simp only: slot_read length_entries)
  then show ?case using s1 e by (subst lookup_loop.simps) simp
next
  case (Suc m k s)
  have k: "k < length (entries s i)" using Suc(2) by linarith
  have b: "20 * k + 20 \<le> nat (inode_length (ino s i))" using slot_read [of k "contents s i"] k by (simp add: min_def split: if_splits)
  have lim: "20 * k + 20 < 2 ^ 31" using round_lim [OF Suc(3) b] .
  define bs where "bs = take 20 (drop (20 * k) (contents s i))"
  obtain s1 where s1: "inode_read_at i 20 (int (20 * k)) s = Some (bs, s1)"
    "io_step s s1" "sec s1 = sec s" "contents s1 i = contents s i"
    using inode_read_ok [OF Suc(3,4), of "20 * k" 20] lim by (auto simp: bs_def)
  have len: "length bs = 20" using slot_read [of k "contents s i"] k unfolding bs_def by simp
  have en: "decode_entry bs = entries s i ! k" using k by (simp add: nth_entries entry_at_def bs_def)
  have w: "s32 (int (20 * k) + 20) = int (20 * Suc k)" using lim by (subst s32_id) simp_all
  have dr: "drop k (entries s i) = entries s i ! k # drop (Suc k) (entries s i)" using k by (simp add: Cons_nth_drop_Suc)
  have es: "entries s1 i = entries s i" using s1(4) by (rule entries_cong)
  have m: "m = length (entries s i) - Suc k" using Suc(2) by linarith
  obtain s' where s': "lookup_loop i name (int (20 * Suc k)) s1 =
      Some (map_option (\<lambda>(e, j). (e, int (20 * j))) (find_from (matches name) (drop (Suc k) (entries s i)) (Suc k)), s')"
    "io_step s1 s'" "sec s' = sec s1"
    using Suc(1) [of s1 "Suc k"] m k io_stepD(10) [OF s1(2) Suc(4)] io_stepD(11) [OF s1(2) Suc(3)] unfolding es by auto
  show ?case
  proof (cases "matches name (entries s i ! k)")
    case True
    then show ?thesis using s1 len en unfolding dr
      by (subst lookup_loop.simps) (auto simp: matches_def)
  next
    case False
    have "lookup_loop i name (int (20 * k)) s = lookup_loop i name (int (20 * Suc k)) s1"
      using s1(1) len en False w by (subst lookup_loop.simps) (auto simp: matches_def Let_def)
    then show ?thesis using s' s1(3) False io_step_trans [OF s1(2) s'(2)] unfolding dr by simp
  qed
qed

lemma slot_loop_ok:
  assumes "inode_ok s i" "plenty s" "k \<le> length (entries s i)" "length e = 20"
  shows "\<exists>e' s'. slot_loop i e (int (20 * k)) s =
      Some (e', int (20 * (case find_from (\<lambda>e. \<not> in_use e) (drop k (entries s i)) k of Some (_, j) \<Rightarrow> j | None \<Rightarrow> length (entries s i))), s') \<and>
    length e' = 20 \<and> io_step s s' \<and> sec s' = sec s"
  using assms
proof (induction "length (entries s i) - k" arbitrary: k s e)
  case (0 k s e)
  have e: "k = length (entries s i)" using 0 by simp
  have lim: "20 * k < 2 ^ 31" using round_lim [OF 0(2), of "20 * k"] e by simp
  define bs where "bs = take 20 (drop (20 * k) (contents s i))"
  obtain s1 where s1: "inode_read_at i 20 (int (20 * k)) s = Some (bs, s1)"
    "io_step s s1" "sec s1 = sec s" using inode_read_ok [OF 0(2,3) lim, of 20] by (auto simp: bs_def)
  have "length bs = 20 \<longleftrightarrow> k < length (entries s i)" unfolding bs_def by (simp only: slot_read length_entries)
  moreover have "length bs \<le> 20" by (simp add: bs_def)
  ultimately show ?case using s1 e 0(5) by (subst slot_loop.simps) (simp add: Let_def)
next
  case (Suc m k s e)
  have k: "k < length (entries s i)" using Suc(2) by linarith
  have b: "20 * k + 20 \<le> nat (inode_length (ino s i))" using slot_read [of k "contents s i"] k by (simp add: min_def split: if_splits)
  have lim: "20 * k + 20 < 2 ^ 31" using round_lim [OF Suc(3) b] .
  define bs where "bs = take 20 (drop (20 * k) (contents s i))"
  obtain s1 where s1: "inode_read_at i 20 (int (20 * k)) s = Some (bs, s1)"
    "io_step s s1" "sec s1 = sec s" "contents s1 i = contents s i"
    using inode_read_ok [OF Suc(3,4), of "20 * k" 20] lim by (auto simp: bs_def)
  have len: "length bs = 20" using slot_read [of k "contents s i"] k unfolding bs_def by simp
  have ov: "overlay 0 bs e = bs" using len Suc(6) by (simp add: overlay_def)
  have en: "decode_entry bs = entries s i ! k" using k by (simp add: nth_entries entry_at_def bs_def)
  have w: "s32 (int (20 * k) + 20) = int (20 * Suc k)" using lim by (subst s32_id) simp_all
  have dr: "drop k (entries s i) = entries s i ! k # drop (Suc k) (entries s i)" using k by (simp add: Cons_nth_drop_Suc)
  have es: "entries s1 i = entries s i" using s1(4) by (rule entries_cong)
  have m: "m = length (entries s i) - Suc k" using Suc(2) by linarith
  define J where "J = (case find_from (\<lambda>e. \<not> in_use e) (drop (Suc k) (entries s i)) (Suc k) of Some (_, j) \<Rightarrow> j | None \<Rightarrow> length (entries s i))"
  obtain e' s' where s': "slot_loop i bs (int (20 * Suc k)) s1 = Some (e', int (20 * J), s')" "length e' = 20" "io_step s1 s'" "sec s' = sec s1"
    using Suc(1) [of s1 "Suc k" bs] m k len io_stepD(10) [OF s1(2) Suc(4)] io_stepD(11) [OF s1(2) Suc(3)]
    unfolding es J_def by auto
  show ?case
  proof (cases "in_use (entries s i ! k)")
    case False
    then show ?thesis using s1 len en ov unfolding dr by (subst slot_loop.simps) (simp add: Let_def)
  next
    case True
    have "slot_loop i e (int (20 * k)) s = slot_loop i bs (int (20 * Suc k)) s1"
      using s1(1) len en ov True w by (subst slot_loop.simps) (simp add: Let_def)
    then show ?thesis using s' s1(3) True io_step_trans [OF s1(2) s'(3)] unfolding dr by (simp add: J_def)
  qed
qed

section \<open>Changing an entry\<close>

lemma length_encode_entry: "length (ename e) = 15 \<Longrightarrow> length (encode_entry e) = 20"
  by (simp add: encode_entry_def)

lemma decode_encode_entry: "length (ename e) = 15 \<Longrightarrow> decode_entry (encode_entry e) = e"
  using word_of_bytes_of_word [of "inode_sector e" "[]"] by (simp add: decode_entry_def encode_entry_def nth_append)

lemma take_drop_overlay_block:
  assumes "length x = 20" "20 * j + 20 \<le> length bs" "20 * k + 20 \<le> length bs"
  shows "take 20 (drop (20 * k) (overlay (20 * j) x bs)) = (if k = j then x else take 20 (drop (20 * k) bs))"
proof (rule nth_equalityI)
  fix q assume "q < length (take 20 (drop (20 * k) (overlay (20 * j) x bs)))"
  then have q: "q < 20" by simp
  have "(20 * j \<le> 20 * k + q \<and> 20 * k + q < 20 * j + 20) = (k = j)" using q by linarith
  then show "take 20 (drop (20 * k) (overlay (20 * j) x bs)) ! q = (if k = j then x else take 20 (drop (20 * k) bs)) ! q"
    using q assms by (simp add: nth_overlay)
qed (use assms in simp)

lemma block_bound: "k < length bs div 20 \<Longrightarrow> 20 * k + 20 \<le> length bs" for bs :: "'a list"
  using mult_div_mod_eq [of 20 "length bs"] by linarith

lemma entries_overlay:
  assumes "contents s' i = overlay (20 * j) (encode_entry e) (contents s i)" "length (ename e) = 15" "j < length (entries s i)"
  shows "entries s' i = (entries s i)[j := e]"
proof (rule nth_equalityI)
  have x: "length (encode_entry e) = 20" using assms(2) by (rule length_encode_entry)
  have b: "20 * j + 20 \<le> length (contents s i)" using assms(3) by (intro block_bound) simp
  have l: "length (contents s' i) = length (contents s i)" unfolding assms(1) using x b by simp
  then show "length (entries s' i) = length ((entries s i)[j := e])" by (simp only: length_entries length_list_update)
  fix k assume "k < length (entries s' i)"
  then have k: "k < length (contents s i) div 20" using l by (simp only: length_entries)
  have "entry_at (contents s' i) k = (if k = j then e else entry_at (contents s i) k)"
    unfolding entry_at_def assms(1) take_drop_overlay_block [OF x b block_bound [OF k]]
    using decode_encode_entry [OF assms(2)] by simp
  then show "entries s' i ! k = (entries s i)[j := e] ! k"
    using k l assms(3) nth_entries [of k s' i] nth_entries [of k s i]
    by (simp only: length_entries) (simp add: nth_list_update)
qed

lemma find_update:
  assumes "j < length xs" "\<not> P (xs ! j)"
  shows "\<not> P x \<Longrightarrow> find P (xs[j := x]) = find P xs"
    "P x \<Longrightarrow> find P xs = None \<Longrightarrow> find P (xs[j := x]) = Some x"
  using assms
proof (induction xs arbitrary: j)
  case (Cons y xs)
  { case 1 then show ?case using Cons by (cases j) auto }
  { case 2 then show ?case using Cons by (cases j) (auto split: if_splits) }
qed simp_all

lemma c_string_nonzero: "0 \<notin> set (c_string bs)"
  using set_takeWhileD [of 0 "\<lambda>c. c \<noteq> 0" bs] by (auto simp: c_string_def)

lemma c_string_append0: "0 \<notin> set xs \<Longrightarrow> c_string (xs @ 0 # ys) = xs"
  by (induction xs) (auto simp: c_string_def)

lemma set_name_ok:
  assumes "length (c_string name) \<le> NAME_MAX" "length old = 15"
  shows "length (set_name name old) = 15" "c_string (set_name name old @ [1]) = c_string name"
  using assms c_string_append0 [OF c_string_nonzero, of name] by (simp_all add: set_name_def overlay_def NAME_MAX_def)

text \<open>Names are compared as strings.\<close>

lemma bound_cong: "c_string nm = c_string nm' \<Longrightarrow> bound s i nm = bound s i nm'"
  by (simp add: bound_def matches_def same_name_def cong: find_cong)

lemma bound_add:
  assumes es: "entries s' i = (entries s i)[j := e]" and j: "j < length (entries s i)" "\<not> in_use (entries s i ! j)"
    and e: "in_use e" "c_string (ename e @ [1]) = c_string name" and new: "bound s i name = None"
  shows "bound s' i nm = (if c_string nm = c_string name then Some (inode_sector e) else bound s i nm)"
proof -
  have old: "\<not> matches nm (entries s i ! j)" for nm using j(2) by (simp add: matches_def)
  have m: "matches nm e \<longleftrightarrow> c_string nm = c_string name" using e by (simp add: matches_def same_name_def)
  have "find (matches nm) (entries s i) = None" if "c_string nm = c_string name"
    using new bound_cong [OF that, of s i] by (simp add: bound_def)
  then show ?thesis using find_update [where P = "matches nm" and x = e, OF j(1) old] m unfolding bound_def es by auto
qed

section \<open>Adding a name\<close>

lemma dlookup_ok:
  assumes "d \<noteq> NULL" "dinode (drs s d) = i" "inode_ok s i" "plenty s"
  shows "\<exists>r s'. dlookup d name s = Some (r, s') \<and> io_step s s' \<and> sec s' = sec s \<and>
    (case r of None \<Rightarrow> bound s i name = None
     | Some (e, ofs) \<Rightarrow> \<exists>j < length (entries s i). ofs = int (20 * j) \<and> e = entries s i ! j \<and> matches name e \<and>
         (\<forall>k < j. \<not> matches name (entries s i ! k)) \<and> bound s i name = Some (inode_sector e))"
proof -
  define f where "f = find_from (matches name) (entries s i) 0"
  obtain s' where s': "dlookup d name s = Some (map_option (\<lambda>(e, j). (e, int (20 * j))) f, s')" "io_step s s'" "sec s' = sec s"
    using lookup_loop_ok [OF assms(3,4), of 0 name] assms(1,2) by (auto simp: dlookup_def f_def)
  have b: "bound s i name = map_option inode_sector (map_option fst f)"
    unfolding f_def bound_def find_from_find ..
  show ?thesis
  proof (cases f)
    case None
    then show ?thesis using s' b by simp
  next
    case (Some p)
    then obtain e j where f: "f = Some (e, j)" by (cases p) simp
    have "j < length (entries s i)" "entries s i ! j = e" "matches name e" "\<forall>k < j. \<not> matches name (entries s i ! k)"
      using find_from_SomeD [OF f [unfolded f_def]] by auto
    then show ?thesis using s' b by (auto simp: f)
  qed
qed

text \<open>\<open>valid_name\<close> is the check of \<^verbatim>\<open>dir_add\<close>; \<open>full\<close> says that no slot is free.\<close>

definition valid_name :: "u8 list \<Rightarrow> bool" where
  "valid_name name \<longleftrightarrow> c_string name \<noteq> [] \<and> length (c_string name) \<le> NAME_MAX"

definition full :: "fs \<Rightarrow> addr \<Rightarrow> bool" where
  "full s i \<longleftrightarrow> (\<forall>e \<in> set (entries s i). in_use e)"

text \<open>A directory file that can be changed and that consists of whole entries.\<close>

definition dir_file :: "addr \<Rightarrow> fs \<Rightarrow> bool" where
  "dir_file i s \<longleftrightarrow> writable i s \<and> length (contents s i) mod 20 = 0"

lemma write_entry:
  assumes w: "dir_file i s" and e: "length (ename e) = 15" and J: "J \<le> length (entries s i)"
  shows "\<exists>s'. inode_write_at i (encode_entry e) 20 (int (20 * J)) s = Some (if J < length (entries s i) then 20 else 0, s') \<and>
    io_step s s' \<and> (\<forall>k. unat k \<notin> own (ino s i) \<longrightarrow> sec s' k = sec s k) \<and> entries s' i = (entries s i)[J := e]"
proof -
  have io: "writable i s" "inode_ok s i" "length (contents s i) mod 20 = 0" using w by (simp_all add: dir_file_def writable_def)
  have lim: "20 * J < 2 ^ 31" using round_lim [OF io(2), of "20 * J"] J by simp
  have len20: "length (encode_entry e) = 20" by (rule length_encode_entry [OF e])
  define m where "m = min 20 (length (contents s i) - 20 * J)"
  obtain s' where s': "inode_write_at i (encode_entry e) 20 (int (20 * J)) s = Some (int m, s')"
    "wrote s i (encode_entry e) (20 * J) m s'" "contents s' i = overlay (20 * J) (take m (encode_entry e)) (contents s i)"
    using inode_write_ok [OF io(1) lim, of 20 "encode_entry e"] len20 unfolding m_def by auto
  have step: "io_step s s'" "\<And>k. unat k \<notin> own (ino s i) \<Longrightarrow> sec s' k = sec s k" using s'(2) by (auto simp: wrote_def)
  show ?thesis
  proof (cases "J < length (entries s i)")
    case True
    then have "20 * J + 20 \<le> length (contents s i)" by (intro block_bound) simp
    then have m: "m = 20" by (simp add: m_def)
    have "entries s' i = (entries s i)[J := e]"
      using s'(3) len20 unfolding m by (intro entries_overlay [OF _ e True]) simp
    then show ?thesis using s'(1) step True m by auto
  next
    case False
    then have "20 * J = length (contents s i)" using J io(3) mult_div_mod_eq [of 20 "length (contents s i)"] by simp
    then have "m = 0" by (simp add: m_def)
    moreover from this have "entries s' i = entries s i" using s'(3) by (simp add: entries_def)
    moreover have "(entries s i)[J := e] = entries s i" using False by (intro list_update_beyond) simp
    ultimately show ?thesis using s'(1) step False by auto
  qed
qed

lemma dir_file_step:
  assumes "dir_file i s" "io_step s s'"
  shows "dir_file i s'"
  using assms writable_step [OF _ assms(2)] io_stepD(1) [OF assms(2)] by (simp add: dir_file_def)

lemma entries_step: "io_step s t \<Longrightarrow> sec t = sec s \<Longrightarrow> entries t i = entries s i"
  using contents_cong [of t s i] io_stepD(1) [of s t] by (simp add: entries_def)

lemma dir_add_new:
  assumes d: "d \<noteq> NULL" "dinode (drs s d) = i" and w: "dir_file i s" and e0: "length e0 = 20"
    and new: "valid_name name" "bound s i name = None"
  shows "\<exists>s' e J. dir_add e0 d name sect s = Some (\<not> full s i, s') \<and> io_step s s' \<and>
    (\<forall>k. unat k \<notin> own (ino s i) \<longrightarrow> sec s' k = sec s k) \<and> entries s' i = (entries s i)[J := e] \<and>
    in_use e \<and> inode_sector e = sect \<and> c_string (ename e @ [1]) = c_string name \<and>
    (if full s i then J = length (entries s i) else J < length (entries s i) \<and> \<not> in_use (entries s i ! J))"
proof -
  have io: "inode_ok s i" "plenty s" using w by (simp_all add: dir_file_def writable_def)
  obtain r s1 where s1: "dlookup d name s = Some (r, s1)" "io_step s s1" "sec s1 = sec s"
    and "case r of None \<Rightarrow> True | Some (e, ofs) \<Rightarrow> bound s i name = Some (inode_sector e)"
    using dlookup_ok [OF d io, of name] by (fastforce split: option.splits)
  then have r: "r = None" using new(2) by (cases r) auto
  note i1 = io_stepD [OF s1(2)] and es1 = entries_step [OF s1(2,3), of i]
  define f where "f = find_from (\<lambda>e. \<not> in_use e) (entries s i) 0"
  define J where "J = (case f of Some (_, j) \<Rightarrow> j | None \<Rightarrow> length (entries s i))"
  obtain e' s2 where s2: "slot_loop i e0 0 s1 = Some (e', int (20 * J), s2)" "length e' = 20" "io_step s1 s2" "sec s2 = sec s1"
    using slot_loop_ok [OF i1(11) [OF io(1)] i1(10) [OF io(2)], of 0 e0] e0 unfolding es1 by (auto simp: J_def f_def)
  note t = io_step_trans [OF s1(2) s2(3)]
  note i2 = io_stepD [OF t]
  have es2: "entries s2 i = entries s i" using entries_step [OF t, of i] s1(3) s2(4) by simp
  define e where "e = \<lparr>inode_sector = sect, ename = set_name name (ename (decode_entry e')), in_use = True\<rparr>"
  have l15: "length (ename (decode_entry e')) = 15" using s2(2) by (simp add: decode_entry_def)
  have ne: "length (ename e) = 15" "c_string (ename e @ [1]) = c_string name" "in_use e" "inode_sector e = sect"
    using set_name_ok [OF _ l15, of name] new(1) by (simp_all add: e_def valid_name_def)
  have J: "J \<le> length (entries s i)" "if full s i then J = length (entries s i) else J < length (entries s i) \<and> \<not> in_use (entries s i ! J)"
    using find_from_SomeD [of "\<lambda>e. \<not> in_use e" "entries s i" 0] find_from_None [of "\<lambda>e. \<not> in_use e" "entries s i" 0]
    by (auto simp: J_def f_def full_def split: option.splits)
  obtain s3 where s3: "inode_write_at i (encode_entry e) 20 (int (20 * J)) s2 = Some (if J < length (entries s i) then 20 else 0, s3)"
    "io_step s2 s3" "\<And>k. unat k \<notin> own (ino s i) \<Longrightarrow> sec s3 k = sec s2 k" "entries s3 i = (entries s i)[J := e]"
    using write_entry [OF dir_file_step [OF w t] ne(1), of J] J(1) es2 i2(1) by auto
  have "dir_add e0 d name sect s = Some (\<not> full s i, s3)"
    using d s1(1) r s2(1) s3(1) new(1) i1(3) i2(3) J(2) by (auto simp: dir_add_def valid_name_def e_def Let_def split: if_splits)
  then show ?thesis using s3(4) ne J(2) io_step_trans [OF t s3(2)] s3(3) s1(3) s2(4)
    by (intro exI [of _ s3] exI [of _ e] exI [of _ J]) simp
qed

text \<open>\<^verbatim>\<open>dir_add\<close> binds the name, or changes no binding.\<close>

lemma dir_add_ok:
  assumes d: "d \<noteq> NULL" "dinode (drs s d) = i" and w: "dir_file i s" and e0: "length e0 = 20"
  shows "\<exists>r s'. dir_add e0 d name sect s = Some (r, s') \<and> io_step s s' \<and>
    (\<forall>k. unat k \<notin> own (ino s i) \<longrightarrow> sec s' k = sec s k) \<and>
    r = (valid_name name \<and> bound s i name = None \<and> \<not> full s i) \<and>
    (\<forall>nm. bound s' i nm = (if r \<and> c_string nm = c_string name then Some sect else bound s i nm))"
proof -
  have io: "inode_ok s i" "plenty s" using w by (simp_all add: dir_file_def writable_def)
  consider "\<not> valid_name name" | "valid_name name" "bound s i name \<noteq> None" | "valid_name name" "bound s i name = None" by blast
  then show ?thesis
  proof cases
    case 1
    then show ?thesis using d(1) by (auto simp: dir_add_def valid_name_def)
  next
    case 2
    obtain r s1 where s1: "dlookup d name s = Some (r, s1)" "io_step s s1" "sec s1 = sec s" "r \<noteq> None"
      using dlookup_ok [OF d io, of name] 2(2) by (auto split: option.splits)
    then have "dir_add e0 d name sect s = Some (False, s1)" using 2 d(1) by (auto simp: dir_add_def valid_name_def)
    then show ?thesis using 2(2) s1(2,3) entries_step [OF s1(2,3), of i] by (auto simp: bound_def)
  next
    case 3
    obtain s' e J where a: "dir_add e0 d name sect s = Some (\<not> full s i, s')" "io_step s s'"
      "\<forall>k. unat k \<notin> own (ino s i) \<longrightarrow> sec s' k = sec s k" "entries s' i = (entries s i)[J := e]"
      "in_use e" "inode_sector e = sect" "c_string (ename e @ [1]) = c_string name"
      "if full s i then J = length (entries s i) else J < length (entries s i) \<and> \<not> in_use (entries s i ! J)"
      using dir_add_new [OF d w e0 3] by blast
    show ?thesis
    proof (cases "full s i")
      case True
      then have "entries s' i = entries s i" using a(4,8) list_update_beyond [of "entries s i" J e] by simp
      then show ?thesis using a(1,2,3) True by (simp add: bound_def) blast
    next
      case False
      then have j: "J < length (entries s i)" "\<not> in_use (entries s i ! J)" using a(8) by simp_all
      show ?thesis using a(1,2,3,6) False 3 bound_add [OF a(4) j a(5,7) 3(2)] by (simp, blast)
    qed
  qed
qed

section \<open>A directory as a table of names\<close>

text \<open>What the file system relies on: a table from names to sectors with a bounded number of places.\<close>

locale name_table =
  fixes ok :: "'s \<Rightarrow> bool" and tab :: "'s \<Rightarrow> u8 list \<Rightarrow> u32 option" and no_room :: "'s \<Rightarrow> bool"
    and look :: "u8 list \<Rightarrow> 's \<Rightarrow> (u32 option \<times> 's) option"
    and add :: "u8 list \<Rightarrow> u32 \<Rightarrow> 's \<Rightarrow> (bool \<times> 's) option"
  assumes look_ok: "ok s \<Longrightarrow> \<exists>s'. look nm s = Some (tab s nm, s') \<and> ok s' \<and> tab s' = tab s"
    and add_ok: "ok s \<Longrightarrow> \<exists>s'. add nm v s = Some (valid_name nm \<and> tab s nm = None \<and> \<not> no_room s, s') \<and> ok s' \<and>
      (\<forall>x. tab s' x = (if (valid_name nm \<and> tab s nm = None \<and> \<not> no_room s) \<and> c_string x = c_string nm then Some v else tab s x))"
begin

lemma add_look:
  assumes "ok s" "add nm v s = Some (r, s')"
  shows "\<exists>s''. look x s' = Some (if r \<and> c_string x = c_string nm then Some v else tab s x, s'')"
proof -
  have "ok s'" "tab s' x = (if r \<and> c_string x = c_string nm then Some v else tab s x)"
    using add_ok [OF assms(1), of nm v] assms(2) by auto
  then show ?thesis using look_ok [of s' x] by auto
qed

lemma add_twice:
  assumes "ok s" "add nm v s = Some (True, s')"
  shows "\<exists>s''. add nm w s' = Some (False, s'') \<and> tab s'' = tab s'"
proof -
  have a: "ok s'" "tab s' nm = Some v" using add_ok [OF assms(1), of nm v] assms(2) by auto
  obtain s'' where "add nm w s' = Some (False, s'')" "\<forall>x. tab s'' x = tab s' x" using add_ok [OF a(1), of nm w] a(2) by auto
  then show ?thesis by auto
qed

end

definition open_dir :: "addr \<Rightarrow> addr \<Rightarrow> fs \<Rightarrow> bool" where
  "open_dir d i s \<longleftrightarrow> d \<noteq> NULL \<and> dinode (drs s d) = i \<and> dir_file i s"

definition sector_of_name :: "addr \<Rightarrow> u8 list \<Rightarrow> fs \<Rightarrow> (u32 option \<times> fs) option" where
  "sector_of_name d nm s = do { (r, s) \<leftarrow> dlookup d nm s; Some (map_option (inode_sector \<circ> fst) r, s) }"

lemma open_dir_step: "open_dir d i s \<Longrightarrow> io_step s s' \<Longrightarrow> open_dir d i s'"
  using dir_file_step [of i s s'] io_stepD(3) [of s s'] by (simp add: open_dir_def)

lemma sector_of_name_ok:
  assumes "open_dir d i s"
  shows "\<exists>s'. sector_of_name d nm s = Some (bound s i nm, s') \<and> open_dir d i s' \<and> bound s' i = bound s i"
proof -
  have d: "d \<noteq> NULL" "dinode (drs s d) = i" "inode_ok s i" "plenty s"
    using assms by (simp_all add: open_dir_def dir_file_def writable_def)
  obtain r s' where s': "dlookup d nm s = Some (r, s')" "io_step s s'" "sec s' = sec s"
    and r: "case r of None \<Rightarrow> bound s i nm = None | Some (e, ofs) \<Rightarrow> bound s i nm = Some (inode_sector e)"
    using dlookup_ok [OF d, of nm] by (fastforce split: option.splits)
  have "map_option (inode_sector \<circ> fst) r = bound s i nm" using r by (cases r) auto
  then show ?thesis using s' open_dir_step [OF assms s'(2)] entries_step [OF s'(2,3), of i]
    by (simp add: sector_of_name_def bound_def fun_eq_iff)
qed

interpretation names: name_table "\<lambda>s. open_dir d i s \<and> length e0 = 20" "\<lambda>s. bound s i" "\<lambda>s. full s i"
  "sector_of_name d" "dir_add e0 d" for d i e0
proof (unfold_locales, goal_cases)
  case (1 s nm)
  then show ?case using sector_of_name_ok [of d i s nm] by auto
next
  case (2 s nm v)
  then obtain r s' where s': "dir_add e0 d nm v s = Some (r, s')" "io_step s s'"
    "r = (valid_name nm \<and> bound s i nm = None \<and> \<not> full s i)"
    "\<forall>x. bound s' i x = (if r \<and> c_string x = c_string nm then Some v else bound s i x)"
    using dir_add_ok [of d s i e0 nm v] by (auto simp: open_dir_def)
  then show ?case using 2 open_dir_step [of d i s s'] by blast
qed

section \<open>Properties\<close>

text \<open>
  C14 (\<^verbatim>\<open>dir_add\<close>, \<^verbatim>\<open>lookup\<close>).  In a directory that can be written, while memory lasts, adding a name
  succeeds exactly when the name is valid, not in use, and a slot is free; then a search finds the new
  sector under that name and what it found before under every other; otherwise every search finds what
  it found before.  Adding the name again fails.
\<close>

theorem dir_add_lookup:
  assumes "open_dir d i s" and "length e0 = 20"
  shows "\<exists>r s'. dir_add e0 d name sect s = Some (r, s') \<and> r = (valid_name name \<and> bound s i name = None \<and> \<not> full s i) \<and>
    (\<forall>nm. \<exists>t. sector_of_name d nm s' = Some (if r \<and> c_string nm = c_string name then Some sect else bound s i nm, t)) \<and>
    (r \<longrightarrow> (\<exists>t. dir_add e0 d name sect' s' = Some (False, t) \<and> bound t i = bound s' i))"
proof -
  note ok = conjI [OF assms]
  obtain r s' where a: "dir_add e0 d name sect s = Some (r, s')" "r = (valid_name name \<and> bound s i name = None \<and> \<not> full s i)"
    using names.add_ok [OF ok] by blast
  then show ?thesis using names.add_look [OF ok a(1)] names.add_twice [OF ok, of name sect s' sect'] by auto
qed

section \<open>Creating a file\<close>

text \<open>The root directory as it is on disk: the inode that opening it would give, and its bindings.\<close>

definition root_node :: "fs \<Rightarrow> inode" where
  "root_node s = \<lparr>isector = ROOT_DIR_SECTOR, open_cnt = 1, removed = False, deny_write_cnt = 0,
     idata = decode_inode (sec s ROOT_DIR_SECTOR)\<rparr>"

definition root_view :: "fs \<Rightarrow> fs" where
  "root_view s = s\<lparr>ino := (\<lambda>_. root_node s)\<rparr>"

definition root_bound :: "fs \<Rightarrow> u8 list \<Rightarrow> u32 option" where
  "root_bound s = bound (root_view s) 1"

definition root_full :: "fs \<Rightarrow> bool" where
  "root_full s = full (root_view s) 1"

text \<open>A mounted file system: the free map is open, the root directory is well-formed, its sectors and those of the two inodes are in
  use and are not those of the free map, it is not open, and allocated memory is not that of an open inode.\<close>

definition mounted :: "fs \<Rightarrow> bool" where
  "mounted s \<longleftrightarrow> map_wf s \<and> ROOT_DIR_SECTOR < bsize (blk (dv s) (fs_device s)) \<and> inode_ok (root_view s) 1 \<and> nat (inode_length (root_node s)) mod 20 = 0 \<and>
     (\<forall>k \<in> insert 0 (insert 1 (own (root_node s))). bm_abs (free_map s) ! k) \<and>
     own (root_node s) \<inter> own (ino s (map_inode s)) = {} \<and> 1 \<notin> own (root_node s) \<union> own (ino s (map_inode s)) \<and>
     (\<forall>i \<in> set (open_inodes s). isector (ino s i) \<noteq> ROOT_DIR_SECTOR) \<and>
     (\<forall>n. allocs (dv s) n \<noteq> map_inode s)"

lemma contents_agree:
  assumes ok: "inode_ok s i" and d: "idata (ino t j) = idata (ino s i)"
    and k: "\<And>k. unat k \<in> own (ino s i) \<Longrightarrow> sec t k = sec s k"
  shows "contents t j = contents s i"
proof -
  have l: "inode_length (ino t j) = inode_length (ino s i)" using d by (simp add: inode_length_def)
  have "byte_at t j q = byte_at s i q" if q: "q < nat (inode_length (ino s i))" for q
    using data_sector(3) [OF ok q] div_round_512 [OF q] k by (simp add: byte_at_def d own_def sectors_def)
  then show ?thesis by (simp add: contents_def l)
qed

lemma root_agree:
  assumes "mounted s" "idata (ino t i) = idata (root_node s)" "\<And>k. unat k \<in> own (root_node s) \<Longrightarrow> sec t k = sec s k"
  shows "entries t i = entries (root_view s) 1" "length (contents t i) = nat (inode_length (root_node s))"
proof -
  have v: "ino (root_view s) 1 = root_node s" "sec (root_view s) = sec s" by (simp_all add: root_view_def sec_def fun_eq_iff)
  have "contents t i = contents (root_view s) 1"
    using assms by (intro contents_agree) (simp_all add: mounted_def v)
  then show "entries t i = entries (root_view s) 1" "length (contents t i) = nat (inode_length (root_node s))"
    by (simp_all only: entries_def length_contents v)
qed

lemma map_wf_cong:
  assumes "free_map t = free_map s" "free_map_file t = free_map_file s" "fil t = fil s" "fs_device t = fs_device s"
    "ino t (map_inode s) = ino s (map_inode s)" "device_ok (dv t) (fs_device s)" "plenty t"
    "bsize (blk (dv t) (fs_device s)) = bsize (blk (dv s) (fs_device s))"
  shows "map_wf s \<Longrightarrow> map_wf t" "map_inode t = map_inode s"
proof -
  show i: "map_inode t = map_inode s" using assms by (simp add: map_inode_def)
  show "map_wf s \<Longrightarrow> map_wf t" using assms i by (simp add: map_wf_def map_open_def writable_def inode_ok_def)
qed

lemma dir_open_root_ok:
  assumes m: "mounted s"
  shows "\<exists>d i t. dir_open_root s = Some (d, t) \<and> open_dir d i t \<and> map_wf t \<and> map_inode t = map_inode s \<and> i \<noteq> NULL \<and>
    sec t = sec s \<and> free_map t = free_map s \<and> ino t = (ino s)(i := root_node s) \<and> i \<noteq> map_inode s \<and>
    open_inodes t = i # open_inodes s \<and> fs_device t = fs_device s \<and> bsize (blk (dv t) (fs_device s)) = bsize (blk (dv s) (fs_device s))"
proof -
  have wf: "map_wf s" and fr: "\<And>n. allocs (dv s) n \<noteq> map_inode s" and no: "\<forall>i \<in> set (open_inodes s). isector (ino s i) \<noteq> ROOT_DIR_SECTOR"
    and b: "ROOT_DIR_SECTOR < bsize (blk (dv s) (fs_device s))"
    using m by (simp_all add: mounted_def)
  obtain i s1 where s1: "inode_open ROOT_DIR_SECTOR s = Some (i, s1)" "i \<noteq> NULL" "i = allocs (dv s) 0" "sec s1 = sec s"
    "ino s1 = (ino s)(i := root_node s)" "open_inodes s1 = i # open_inodes s" "fil s1 = fil s" "free_map s1 = free_map s"
    "free_map_file s1 = free_map_file s" "fs_device s1 = fs_device s"
    "bsize (blk (dv s1) (fs_device s)) = bsize (blk (dv s) (fs_device s))" "device_ok (dv s1) (fs_device s)" "plenty s1"
    using inode_open_new [OF map_wfD(2,3) [OF wf] b no] unfolding root_node_def by blast
  obtain s2 where s2: "fs_malloc s1 = (allocs (dv s1) 0, s2)" "io_step s1 s2" "sec s2 = sec s1" using fs_malloc_ok by blast
  note io = io_stepD [OF s2(2)]
  let ?d = "allocs (dv s1) 0"
  let ?t = "s2\<lparr>drs := (drs s2)(?d := \<lparr>dinode = i, dpos = 0\<rparr>)\<rparr>"
  have d: "?d \<noteq> NULL" using s1(13) by (simp add: plenty_def)
  have im: "i \<noteq> map_inode s" using fr s1(3) by simp
  have sec: "sec ?t = sec s" using s2(3) s1(4) by (simp add: sec_def fun_eq_iff)
  have dev: "device_ok (dv ?t) (fs_device s)" "plenty ?t" "bsize (blk (dv ?t) (fs_device s)) = bsize (blk (dv s) (fs_device s))"
    using io s1 by (simp_all add: plenty_def)
  have "map_wf ?t \<and> map_inode ?t = map_inode s"
    using map_wf_cong [of ?t s] wf dev io s1 im by simp
  moreover have "dir_file i ?t"
  proof -
    have n: "ino ?t i = root_node s" "fs_device ?t = fs_device s" using io(1,5) s1(5,10) by simp_all
    have "inode_ok ?t i" using m s1(2) dev n by (simp add: mounted_def inode_ok_def root_view_def)
    then show ?thesis using dev m n by (simp add: dir_file_def writable_def mounted_def root_node_def)
  qed
  moreover have "dir_open_root s = Some (?d, ?t)" using s1(1,2) s2(1) d by (simp add: dir_open_root_def dir_open_def)
  ultimately show ?thesis using s1 io sec dev im d
    by (intro exI [of _ ?d] exI [of _ i] exI [of _ ?t]) (simp add: open_dir_def)
qed

text \<open>A free group of \<open>n + 1\<close> sectors leaves room for \<open>n\<close> after the first free sector was taken.\<close>

lemma group_after_one:
  assumes "group_at xs j (n + 1) False" "x < length xs" "x \<le> j"
  shows "\<exists>j'. group_at (fill x 1 True xs) j' n False"
proof -
  have len: "length (fill x 1 True xs) = length xs" using assms(2) by simp
  have nth: "fill x 1 True xs ! k = (k = x \<or> xs ! k)" if "k < length xs" for k
    using nth_fill [of x 1 xs k True] that assms(2) by auto
  have g: "k < length xs \<and> \<not> xs ! k" if "j \<le> k" "k < j + (n + 1)" for k
    using that group_atD [OF assms(1) that] assms(1) by (auto simp: group_at_def)
  have "fill x 1 True xs ! (j + 1 + k) = False \<and> j + 1 + k < length xs" if k: "k < n" for k
    using g [of "j + 1 + k"] nth [of "j + 1 + k"] k assms(3) by auto
  moreover have "j + 1 + n \<le> length xs" using assms(1) by (auto simp: group_at_def)
  ultimately show ?thesis unfolding group_at_def len by blast
qed

text \<open>The sectors of the root directory and of its inode survive an allocation and a creation.\<close>

lemma root_kept:
  assumes m: "mounted s" and k: "unat k \<in> insert 1 (own (root_node s))"
    and g: "group_at (bm_abs (free_map s)) a n False"
  shows "\<not> (a \<le> unat k \<and> unat k < a + n)" "unat k \<notin> own (ino s (map_inode s))" "unat k < length (bm_abs (free_map s))"
    "bm_abs (free_map s) ! unat k"
proof -
  show b: "bm_abs (free_map s) ! unat k" using m k by (auto simp: mounted_def)
  show "unat k < length (bm_abs (free_map s))"
    using m k by (auto simp: mounted_def map_wf_def inode_ok_def root_view_def own_def ROOT_DIR_SECTOR_def word_less_nat_alt)
  show "\<not> (a \<le> unat k \<and> unat k < a + n)" using b group_atD [OF g] by blast
  show "unat k \<notin> own (ino s (map_inode s))" using m k by (auto simp: mounted_def)
qed

text \<open>Up to the entry in the directory.\<close>

lemma create_front:
  assumes m: "mounted s" and l: "0 \<le> l" "l < 2 ^ 31 - 512"
    and room: "group_at (bm_abs (free_map s)) j ((nat l + 511) div 512 + 1) False"
    and t: "open_dir d i t" "map_wf t" "map_inode t = map_inode s" "sec t = sec s" "free_map t = free_map s"
      "ino t = (ino s)(i := root_node s)" "i \<noteq> map_inode s" "fs_device t = fs_device s"
      "bsize (blk (dv t) (fs_device s)) = bsize (blk (dv s) (fs_device s))"
  shows "\<exists>sect t1 t2 st. free_map_allocate 1 t = Some (Some sect, t1) \<and> inode_create sect l t1 = Some (True, t2) \<and>
    group_at (bm_abs (free_map s)) (unat sect) 1 False \<and> bm_abs (free_map t1) = fill (unat sect) 1 True (bm_abs (free_map s)) \<and>
    created t1 sect l st t2 \<and> map_wf t2 \<and> map_inode t2 = map_inode s \<and> open_dir d i t2 \<and> ino t2 = ino t \<and>
    open_inodes t2 = open_inodes t \<and> drs t2 = drs t \<and> fs_device t2 = fs_device s \<and>
    (\<forall>k. unat k \<in> insert 1 (own (root_node s)) \<longrightarrow> sec t2 k = sec s k)"
proof -
  let ?bm = "bm_abs (free_map s)" and ?n = "(nat l + 511) div 512"
  have g1: "group_at ?bm j 1 False" using room group_atD [OF room, of j] by (simp add: group_at_def)
  obtain r t1 where a: "free_map_allocate 1 t = Some (r, t1)" "map_open t1" "map_step t t1"
    and R: "case r of None \<Rightarrow> \<forall>j. \<not> group_at ?bm j 1 False
      | Some sect \<Rightarrow> group_at ?bm (unat sect) 1 False \<and> bm_abs (free_map t1) = fill (unat sect) 1 True ?bm \<and>
          (\<forall>j. group_at ?bm j 1 False \<longrightarrow> unat sect \<le> j)"
    using free_map_allocate_ok [OF map_wfD(1) [OF t(2)], of 1] by (auto simp: t(5) split: option.splits)
  then obtain sect where sect: "r = Some sect" "group_at ?bm (unat sect) 1 False" "bm_abs (free_map t1) = fill (unat sect) 1 True ?bm"
    "unat sect \<le> j"
    using g1 by (cases r) auto
  have sl: "unat sect < length ?bm" using sect(2) by (simp add: group_at_def)
  note d1 = map_stepD [OF a(3)]
  have wf1: "map_wf t1" using map_wf_fill [OF t(2) a(3,2), of "unat sect" 1] sect(3) sl by (simp add: t(5))
  have bc: "bit_cnt (free_map s) = bsize (blk (dv s) (fs_device s))" using m by (simp add: mounted_def map_wf_def)
  have s1: "sect < bsize (blk (dv t1) (fs_device t1))" using sl bc d1 t(8,9) by (simp add: word_less_nat_alt)
  have u1: "bm_abs (free_map t1) ! unat sect" unfolding sect(3) using sl by (simp add: nth_fill)
  obtain j' where g2: "group_at (bm_abs (free_map t1)) j' ?n False"
    using group_after_one [OF room sl sect(4)] sect(3) by auto
  obtain t2 st where c: "inode_create sect l t1 = Some (True, t2)" "map_wf t2" "map_inode t2 = map_inode t1" "ino t2 = ino t1"
    "open_inodes t2 = open_inodes t1" "fs_device t2 = fs_device t1" "drs t2 = drs t1"
    "bsize (blk (dv t2) (fs_device t1)) = bsize (blk (dv t1) (fs_device t1))" "created t1 sect l st t2"
    using inode_create_ok [OF wf1 l s1 u1] g2 by (auto split: if_splits)
  have K: "sec t2 k = sec s k" if k: "unat k \<in> insert 1 (own (root_node s))" for k
  proof -
    note rk = root_kept [OF m k]
    have ks: "k \<noteq> sect" using rk(1) [OF sect(2)] by auto
    have gs: "group_at (bm_abs (free_map t1)) (unat st) ?n False" using c(9) by (simp add: created_def Let_def)
    have "bm_abs (free_map t1) ! unat k"
      unfolding sect(3) using rk(3,4) [OF sect(2)] sl by (simp add: nth_fill)
    then have "\<not> (unat st \<le> unat k \<and> unat k < unat st + ?n)" using group_atD [OF gs] by blast
    moreover have mo: "own (ino t1 (map_inode t1)) = own (ino s (map_inode s))" using d1 t(3,6,7) by simp
    ultimately have "sec t2 k = sec t1 k"
      using c(9) ks rk(2) [OF sect(2)] by (simp add: created_def Let_def mo)
    moreover have "sec t1 k = sec t k" using a(3) rk(2) [OF sect(2)] t(3,6,7) by (simp add: map_step_def)
    ultimately show ?thesis by (simp add: t(4))
  qed
  have "open_dir d i t2"
  proof -
    have "writable i t" using t(1) by (simp add: open_dir_def dir_file_def)
    then have "writable i t2"
      using map_wfD(2,3) [OF c(2)] c(4,6,8) d1(1,5,8) by (simp add: writable_def inode_ok_def)
    then show ?thesis using t(1) c(4,7) d1(1,3) by (simp add: open_dir_def dir_file_def)
  qed
  then show ?thesis
    using a(1) sect(1-3) c(1,2,9) K c(3,4,5,6,7) d1 t(3,8)
    by (intro exI [of _ sect] exI [of _ t1] exI [of _ t2] exI [of _ st]) simp
qed

lemma dir_close_root:
  assumes "d \<noteq> NULL" "dinode (drs s d) = i" "i \<noteq> NULL" "open_cnt (ino s i) = 1" "\<not> removed (ino s i)"
  shows "\<exists>s'. dir_close d s = Some s' \<and> sec s' = sec s \<and> free_map s' = free_map s \<and> open_inodes s' = remove1 i (open_inodes s)"
  using assms by (simp add: dir_close_def inode_close_def upd_inode_def s32_def sec_def fun_eq_iff)

lemma root_bound_eq:
  assumes m: "mounted s" and t: "idata (ino t i) = idata (root_node s)" "inode_ok t i"
    and k1: "sec s' ROOT_DIR_SECTOR = sec s ROOT_DIR_SECTOR" and k: "\<And>k. unat k \<in> own (root_node s) \<Longrightarrow> sec s' k = sec t k"
  shows "root_bound s' = bound t i"
proof -
  have n: "root_node s' = root_node s" using k1 by (simp add: root_node_def)
  have o: "own (ino t i) = own (root_node s)" using t(1) by (simp add: own_def sectors_def inode_length_def)
  have "contents (root_view s') 1 = contents t i"
  proof (rule contents_agree [OF t(2)])
    show "idata (ino (root_view s') 1) = idata (ino t i)" using t(1) n by (simp add: root_view_def)
    show "sec (root_view s') k = sec t k" if "unat k \<in> own (ino t i)" for k
      using k that o by (simp add: root_view_def sec_def)
  qed
  then show ?thesis by (simp add: root_bound_def bound_def entries_def fun_eq_iff)
qed

lemma filesys_create_ok:
  fixes name :: "u8 list"
  assumes m: "mounted s" and l: "0 \<le> l" "l < 2 ^ 31 - 512" and e0: "length e0 = 20"
    and room: "group_at (bm_abs (free_map s)) j ((nat l + 511) div 512 + 1) False"
  defines "r \<equiv> valid_name name \<and> root_bound s name = None \<and> \<not> root_full s"
  shows "\<exists>s' sect st. filesys_create e0 name l s = Some (r, s') \<and>
    group_at (bm_abs (free_map s)) (unat sect) 1 False \<and>
    group_at (fill (unat sect) 1 True (bm_abs (free_map s))) (unat st) ((nat l + 511) div 512) False \<and>
    bm_abs (free_map s') =
      (let b = fill (unat st) ((nat l + 511) div 512) True (fill (unat sect) 1 True (bm_abs (free_map s)))
       in if r then b else fill (unat sect) 1 False b) \<and>
    (\<forall>nm. root_bound s' nm = (if r \<and> c_string nm = c_string name then Some sect else root_bound s nm)) \<and>
    (r \<longrightarrow> decode_inode (sec s' sect) = \<lparr>istart = st, ilength = l, imagic = INODE_MAGIC, iunused = replicate 125 0\<rparr> \<and>
       (\<forall>k. unat st \<le> unat k \<and> unat k < unat st + (nat l + 511) div 512 \<longrightarrow> sec s' k = replicate 512 0))"
proof -
  let ?bm = "bm_abs (free_map s)" and ?n = "(nat l + 511) div 512"
  obtain d i t where t: "dir_open_root s = Some (d, t)" "open_dir d i t" "map_wf t" "map_inode t = map_inode s" "i \<noteq> NULL"
    "sec t = sec s" "free_map t = free_map s" "ino t = (ino s)(i := root_node s)" "i \<noteq> map_inode s"
    "open_inodes t = i # open_inodes s" "fs_device t = fs_device s" "bsize (blk (dv t) (fs_device s)) = bsize (blk (dv s) (fs_device s))"
    using dir_open_root_ok [OF m] by blast
  obtain sect t1 t2 st where f: "free_map_allocate 1 t = Some (Some sect, t1)" "inode_create sect l t1 = Some (True, t2)"
    "group_at ?bm (unat sect) 1 False" "bm_abs (free_map t1) = fill (unat sect) 1 True ?bm"
    "created t1 sect l st t2" "map_wf t2" "map_inode t2 = map_inode s" "open_dir d i t2" "ino t2 = ino t" "open_inodes t2 = open_inodes t"
    "drs t2 = drs t" "fs_device t2 = fs_device s" "\<And>k. unat k \<in> insert 1 (own (root_node s)) \<Longrightarrow> sec t2 k = sec s k"
    using create_front [OF m l room t(2,3,4,6,7,8,9,11,12)] by blast
  have C: "group_at (bm_abs (free_map t1)) (unat st) ?n False" "bm_abs (free_map t2) = fill (unat st) ?n True (bm_abs (free_map t1))"
    "\<And>k. unat st \<le> unat k \<Longrightarrow> unat k < unat st + ?n \<Longrightarrow> sec t2 k = replicate 512 0"
    "decode_inode (sec t2 sect) = \<lparr>istart = st, ilength = l, imagic = INODE_MAGIC, iunused = replicate 125 0\<rparr>"
    using f(5) by (auto simp: created_def Let_def)
  have dn: "d \<noteq> NULL" "dinode (drs t2 d) = i" "dir_file i t2" using f(8) by (simp_all add: open_dir_def)
  have ii: "ino t2 i = root_node s" using f(9) t(8) by simp
  have B: "bound t2 i = root_bound s" "full t2 i = root_full s"
    using root_agree(1) [OF m, of t2 i] f(13) ii by (simp_all add: bound_def root_bound_def full_def root_full_def fun_eq_iff)
  obtain t3 where a: "dir_add e0 d name sect t2 = Some (r, t3)" "io_step t2 t3" "\<And>k. unat k \<notin> own (root_node s) \<Longrightarrow> sec t3 k = sec t2 k"
    "\<And>nm. bound t3 i nm = (if r \<and> c_string nm = c_string name then Some sect else root_bound s nm)"
    using dir_add_ok [OF dn e0, of name sect] unfolding B ii r_def by blast
  note io = io_stepD [OF a(2)]
  have wf3: "map_wf t3" by (rule map_wf_io [OF f(6) a(2)])
  have mi3: "map_inode t3 = map_inode s" "ino t3 i = root_node s" "dinode (drs t3 d) = i" "free_map t3 = free_map t2"
    using f(7) io ii dn(2) by (simp_all add: map_inode_def)
  have sl: "unat sect < length ?bm" using f(3) by (simp add: group_at_def)
  have sect0: "sect \<noteq> 0" using group_atD [OF f(3), of 0] m by (auto simp: mounted_def)
  define b where "b = fill (unat st) ?n True (fill (unat sect) 1 True ?bm)"
  have b3: "bm_abs (free_map t3) = b" using mi3(4) C(2) f(4) by (simp add: b_def)
  have stl: "unat st + ?n \<le> length ?bm" using C(1) f(4) sl by (simp add: group_at_def)
  have "b ! unat sect" using stl sl by (simp add: b_def nth_fill)
  then have g3: "group_at (bm_abs (free_map t3)) (unat sect) (unat (1 :: u32)) True"
    using b3 stl sl by (simp add: group_at_def b_def)
  obtain t4 where t4: "(if \<not> r \<and> sect \<noteq> 0 then free_map_release sect 1 t3 else Some t3) = Some t4"
    "ino t4 = ino t3" "drs t4 = drs t3" "\<And>k. unat k \<notin> own (ino s (map_inode s)) \<Longrightarrow> sec t4 k = sec t3 k" "r \<Longrightarrow> t4 = t3"
    "bm_abs (free_map t4) = (if r then b else fill (unat sect) 1 False b)"
  proof (cases r)
    case True
    then show ?thesis using that [of t3] b3 by simp
  next
    case False
    obtain u where u: "free_map_release sect 1 t3 = Some u" "map_step t3 u" "bm_abs (free_map u) = fill (unat sect) 1 False b"
      using free_map_release_ok [OF map_wfD(1) [OF wf3] g3] b3 by auto
    have "own (ino t3 (map_inode t3)) = own (ino s (map_inode s))" using mi3(1) io(1) f(9) t(8,9) by simp
    then show ?thesis using that [of u] u False sect0 map_stepD [OF u(2)] by (simp add: map_step_def)
  qed
  have rn: "open_cnt (root_node s) = 1" "\<not> removed (root_node s)" by (simp_all add: root_node_def)
  obtain t5 where t5: "dir_close d t4 = Some t5" "sec t5 = sec t4" "free_map t5 = free_map t4"
    using dir_close_root [OF dn(1), of t4 i] t(5) mi3 t4(2,3) rn by auto
  have run: "filesys_create e0 name l s = Some (r, t5)"
    using t(1) dn(1) f(1,2) a(1) t4(1) t5(1) by (simp add: filesys_create_def)
  have u1: "unat ROOT_DIR_SECTOR = 1" by (simp add: ROOT_DIR_SECTOR_def)
  have k1: "sec t5 ROOT_DIR_SECTOR = sec s ROOT_DIR_SECTOR"
    using t5(2) t4(4) a(3) f(13) u1 m by (simp add: mounted_def)
  have k2: "sec t5 k = sec t3 k" if "unat k \<in> own (root_node s)" for k
    using t5(2) t4(4) that m by (auto simp: mounted_def)
  have "inode_ok t3 i" using dn(3) io(11) by (simp add: dir_file_def writable_def)
  then have "root_bound t5 = bound t3 i"
    using root_bound_eq [OF m _ _ k1 k2] mi3(2) by simp
  moreover have "decode_inode (sec t5 sect) = decode_inode (sec t2 sect)" if r
    using that t5(2) t4(5) a(3) root_kept(1) [OF m _ f(3), of sect] by fastforce
  moreover have "sec t5 k = replicate 512 0" if "r" "unat st \<le> unat k" "unat k < unat st + ?n" for k
  proof -
    have "unat k \<notin> own (root_node s)"
    proof
      assume "unat k \<in> own (root_node s)"
      then have "bm_abs (free_map t1) ! unat k"
        unfolding f(4) using root_kept(3,4) [OF m _ f(3), of k] sl by (simp add: nth_fill)
      then show False using group_atD [OF C(1), of "unat k"] that by blast
    qed
    then show ?thesis using that C(3) t5(2) t4(5) a(3) by simp
  qed
  ultimately show ?thesis
    using run a(4) f(3,4) C(1,4) t5(3) t4(6) unfolding b_def
    by (intro exI [of _ t5] exI [of _ sect] exI [of _ st]) (simp add: Let_def)
qed

text \<open>The number of sectors in use.\<close>

definition used_count :: "bool list \<Rightarrow> nat" where
  "used_count xs = length (filter id xs)"

lemma group_split:
  assumes "group_at xs a c v"
  shows "xs = take a xs @ replicate c v @ drop (a + c) xs"
proof (rule nth_equalityI)
  have l: "a + c \<le> length xs" using assms by (simp add: group_at_def)
  then show "length xs = length (take a xs @ replicate c v @ drop (a + c) xs)" by simp
  fix k assume "k < length xs"
  then show "xs ! k = (take a xs @ replicate c v @ drop (a + c) xs) ! k"
    using l group_atD [OF assms, of k] by (auto simp: nth_append min_def)
qed

lemma used_count_fill:
  "group_at xs a c False \<Longrightarrow> used_count (fill a c True xs) = used_count xs + c"
  "group_at xs a c True \<Longrightarrow> used_count (fill a c False xs) + c = used_count xs"
proof -
  have f: "used_count (fill a c v xs) = used_count (take a xs) + (if v then c else 0) + used_count (drop (a + c) xs)" for v
    by (simp add: used_count_def fill_def)
  have g: "used_count xs = used_count (take a xs) + (if v then c else 0) + used_count (drop (a + c) xs)" if "group_at xs a c v" for v
    using arg_cong [OF group_split [OF that], of used_count] by (simp add: used_count_def)
  show "group_at xs a c False \<Longrightarrow> used_count (fill a c True xs) = used_count xs + c"
    "group_at xs a c True \<Longrightarrow> used_count (fill a c False xs) + c = used_count xs"
    using f g by fastforce+
qed

text \<open>
  C13 (\<^verbatim>\<open>filesys_create\<close>).  On a mounted file system with \<open>n + 1\<close> consecutive free sectors, \<open>n\<close> being the
  number of sectors of the file, creating a file under a valid and unused name in a root directory with a
  free slot succeeds: the name is then bound to a sector that was free and that holds an inode of the
  given length over \<open>n\<close> sectors of zeros, which were free too and are not the sector of the inode; exactly
  these \<open>n + 1\<close> sectors are marked in the free map, and every other name is bound as before.
\<close>

theorem filesys_create_binds:
  assumes "mounted s" and "0 \<le> l" and "l < 2 ^ 31 - 512" and "length e0 = 20"
    and "group_at (bm_abs (free_map s)) j ((nat l + 511) div 512 + 1) False"
    and "valid_name name" and "root_bound s name = None" and "\<not> root_full s"
  shows "\<exists>s' sect st. filesys_create e0 name l s = Some (True, s') \<and>
    (\<forall>nm. root_bound s' nm = (if c_string nm = c_string name then Some sect else root_bound s nm)) \<and>
    ilength (decode_inode (sec s' sect)) = l \<and> istart (decode_inode (sec s' sect)) = st \<and>
    (\<forall>k. unat k \<in> {unat st..<unat st + (nat l + 511) div 512} \<longrightarrow> sec s' k = replicate 512 0) \<and>
    unat sect \<notin> {unat st..<unat st + (nat l + 511) div 512} \<and>
    (\<forall>k \<in> insert (unat sect) {unat st..<unat st + (nat l + 511) div 512}.
       k < length (bm_abs (free_map s)) \<and> \<not> bm_abs (free_map s) ! k) \<and>
    length (bm_abs (free_map s')) = length (bm_abs (free_map s)) \<and>
    (\<forall>k < length (bm_abs (free_map s)). bm_abs (free_map s') ! k \<longleftrightarrow>
       bm_abs (free_map s) ! k \<or> k \<in> insert (unat sect) {unat st..<unat st + (nat l + 511) div 512})"
proof -
  let ?bm = "bm_abs (free_map s)" and ?n = "(nat l + 511) div 512"
  obtain s' sect st where c: "filesys_create e0 name l s = Some (True, s')" "group_at ?bm (unat sect) 1 False"
    "group_at (fill (unat sect) 1 True ?bm) (unat st) ?n False"
    "bm_abs (free_map s') = fill (unat st) ?n True (fill (unat sect) 1 True ?bm)"
    "\<forall>nm. root_bound s' nm = (if c_string nm = c_string name then Some sect else root_bound s nm)"
    "decode_inode (sec s' sect) = \<lparr>istart = st, ilength = l, imagic = INODE_MAGIC, iunused = replicate 125 0\<rparr>"
    "\<forall>k. unat st \<le> unat k \<and> unat k < unat st + ?n \<longrightarrow> sec s' k = replicate 512 0"
    using filesys_create_ok [OF assms(1-5), where name = name] assms(6-8) by (auto simp: Let_def)
  have x: "unat sect < length ?bm" "\<not> ?bm ! unat sect" using c(2) by (simp_all add: group_at_def)
  let ?b1 = "fill (unat sect) 1 True ?bm"
  have l1: "length ?b1 = length ?bm" using x(1) by simp
  have n1: "?b1 ! k = (k = unat sect \<or> ?bm ! k)" if "k < length ?bm" for k
    using nth_fill [of "unat sect" 1 ?bm k True] that x(1) by auto
  have rng: "unat st + ?n \<le> length ?bm" using c(3) l1 by (simp add: group_at_def)
  have d: "k < length ?bm \<and> k \<noteq> unat sect \<and> \<not> ?bm ! k" if "k \<in> {unat st..<unat st + ?n}" for k
    using group_atD [OF c(3), of k] n1 [of k] that rng by auto
  have "bm_abs (free_map s') ! k \<longleftrightarrow> ?bm ! k \<or> k \<in> insert (unat sect) {unat st..<unat st + ?n}" if "k < length ?bm" for k
    unfolding c(4) using nth_fill [of "unat st" ?n ?b1 k True] n1 [OF that] that rng l1 by auto
  moreover have "length (bm_abs (free_map s')) = length ?bm" unfolding c(4) using rng l1 by simp
  ultimately show ?thesis using c(1,5,6,7) d x by (intro exI [of _ s'] exI [of _ sect] exI [of _ st]) auto
qed

text \<open>
  C17 (\<^verbatim>\<open>filesys_create\<close>).  When the name is invalid or in use, or the directory is full, the call fails
  and every name is bound as before, but the \<open>n\<close> data sectors of the new inode stay allocated: only the
  sector of the inode is released.
\<close>

theorem filesys_create_leaks:
  assumes "mounted s" and "0 \<le> l" and "l < 2 ^ 31 - 512" and "length e0 = 20"
    and "group_at (bm_abs (free_map s)) j ((nat l + 511) div 512 + 1) False"
    and "\<not> valid_name name \<or> root_bound s name \<noteq> None \<or> root_full s"
  shows "\<exists>s'. filesys_create e0 name l s = Some (False, s') \<and> root_bound s' = root_bound s \<and>
    used_count (bm_abs (free_map s')) = used_count (bm_abs (free_map s)) + (nat l + 511) div 512"
proof -
  let ?bm = "bm_abs (free_map s)" and ?n = "(nat l + 511) div 512"
  have f: "(valid_name name \<and> root_bound s name = None \<and> \<not> root_full s) = False" using assms(6) by blast
  obtain s' and sect st :: u32 where c: "filesys_create e0 name l s = Some (False, s')" "group_at ?bm (unat sect) 1 False"
    "group_at (fill (unat sect) 1 True ?bm) (unat st) ?n False"
    "bm_abs (free_map s') = fill (unat sect) 1 False (fill (unat st) ?n True (fill (unat sect) 1 True ?bm))"
    "\<forall>nm. root_bound s' nm = root_bound s nm"
    using filesys_create_ok [OF assms(1-5), where name = name] unfolding f by auto
  let ?b = "fill (unat st) ?n True (fill (unat sect) 1 True ?bm)"
  have l: "unat sect + 1 \<le> length ?bm" "unat st + ?n \<le> length ?bm" using c(2,3) by (simp_all add: group_at_def)
  then have "group_at ?b (unat sect) 1 True" by (simp add: group_at_def nth_fill)
  then have "used_count (bm_abs (free_map s')) + 1 = used_count ?bm + ?n + 1"
    using used_count_fill(2) [of ?b "unat sect" 1] used_count_fill(1) [OF c(3)] used_count_fill(1) [OF c(2)] c(4) by (simp add: Let_def)
  then show ?thesis using c(1,5) by (auto simp: fun_eq_iff)
qed

text \<open>The demonstration disk with an empty root directory of sixteen entries in sector three.\<close>

definition demo_root :: inode_disk where
  "demo_root = \<lparr>istart = 3, ilength = 320, imagic = INODE_MAGIC, iunused = replicate 125 0\<rparr>"

definition demo_root_fs :: fs where
  "demo_root_fs = demo_map_fs\<lparr>dv := (dv demo_map_fs)\<lparr>media := (\<lambda>_ n. if n = 9 then encode_inode demo_root else replicate 512 0)\<rparr>\<rparr>"

lemma demo_root_sec: "sec demo_root_fs n = (if n = 1 then encode_inode demo_root else replicate 512 0)"
proof -
  have "8 + n = 9 \<longleftrightarrow> n = 1" for n :: u32
  proof
    assume "8 + n = 9"
    then have "8 + n - 8 = 9 - 8" by simp
    then show "n = 1" by simp
  qed simp
  then show ?thesis
    by (simp add: sec_def demo_root_fs_def demo_map_fs_def demo_fs_def demo_devices_def sector_at_def place_def medium_of_def)
qed

lemma demo_root_node: "idata (root_node demo_root_fs) = demo_root" "inode_length (root_node demo_root_fs) = 320"
  "own (root_node demo_root_fs) = {3}"
proof -
  show i: "idata (root_node demo_root_fs) = demo_root"
    by (simp add: root_node_def demo_root_sec ROOT_DIR_SECTOR_def decode_encode demo_root_def)
  then show l: "inode_length (root_node demo_root_fs) = 320" by (simp add: inode_length_def demo_root_def)
  show "own (root_node demo_root_fs) = {3}" by (auto simp: own_def i sectors_def l demo_root_def)
qed

lemma demo_mounted: "mounted demo_root_fs"
proof -
  have l: "length (encode_inode demo_root) = BLOCK_SECTOR_SIZE" by (simp add: length_encode demo_root_def BLOCK_SECTOR_SIZE_def)
  have d: "device_ok (dv demo_root_fs) 0x2000"
    by (simp add: demo_root_fs_def demo_map_fs_def demo_fs_def demo_devices_def device_ok_def on_disk_def l BLOCK_SECTOR_SIZE_def)
  have f: "fs_device demo_root_fs = 0x2000" "fs_device demo_map_fs = 0x2000" "free_map demo_root_fs = free_map demo_map_fs"
    "blk (dv demo_root_fs) = blk (dv demo_map_fs)" "allocs (dv demo_root_fs) n = 0x9000" "bsize (blk (dv demo_map_fs) 0x2000) = 32"
    "isector (ino demo_root_fs i) = 0" for n i
    by (simp_all add: demo_root_fs_def demo_map_fs_def demo_fs_def demo_devices_def demo_inode_def)
  have w: "map_wf demo_root_fs" "map_inode demo_root_fs = 0x8100"
    using map_wf_cong [of demo_root_fs demo_map_fs] demo_map_wf demo_map_open(2) d f
    by (simp_all add: plenty_def) (simp_all add: demo_root_fs_def)
  have o: "own (ino demo_root_fs 0x8100) = {2}" by (auto simp: demo_root_fs_def demo_map_simps)
  have n: "istart (idata (root_node demo_root_fs)) = 3" "sectors (root_node demo_root_fs) = 1"
    using demo_root_node by (simp_all add: demo_root_def sectors_def)
  have "inode_ok (root_view demo_root_fs) 1"
    using d f demo_root_node(2) n by (simp add: inode_ok_def root_view_def)
  then show ?thesis
    using w f o demo_root_node by (simp add: mounted_def demo_bits nth_append ROOT_DIR_SECTOR_def)
qed

lemma demo_root_entries:
  assumes "e \<in> set (entries (root_view demo_root_fs) 1)" shows "\<not> in_use e"
proof -
  have i: "ino (root_view demo_root_fs) 1 = root_node demo_root_fs" "sec (root_view demo_root_fs) = sec demo_root_fs"
    by (simp_all add: root_view_def sec_def fun_eq_iff)
  have c: "contents (root_view demo_root_fs) 1 = replicate 320 0"
  proof (rule nth_equalityI)
    fix q assume "q < length (contents (root_view demo_root_fs) 1)"
    then have "q < 320" by (simp add: i demo_root_node)
    then show "contents (root_view demo_root_fs) 1 ! q = replicate 320 0 ! q"
      by (simp add: contents_def byte_at_def i demo_root_node) (simp add: demo_root_def demo_root_sec)
  qed (simp add: i demo_root_node)
  then show ?thesis using assms by (auto simp: entries_def c entry_at_def decode_entry_def)
qed

lemma demo_room: "group_at (bm_abs (free_map demo_root_fs)) 8 ((nat 600 + 511) div 512 + 1) False"
proof -
  have "free_map demo_root_fs = free_map demo_map_fs" by (simp add: demo_root_fs_def)
  then show ?thesis by (simp add: demo_bits group_at_def nth_append)
qed

lemma demo_unbound: "root_bound demo_root_fs nm = None" "\<not> root_full demo_root_fs"
proof -
  show "root_bound demo_root_fs nm = None"
    using demo_root_entries by (auto simp: root_bound_def bound_def find_None_iff matches_def)
  have "entries (root_view demo_root_fs) 1 \<noteq> []" by (simp add: entries_def root_view_def demo_root_node)
  then show "\<not> root_full demo_root_fs" using demo_root_entries by (auto simp: root_full_def full_def)
qed

theorem filesys_create_binds_witness:
  "\<exists>s' sect st. filesys_create (replicate 20 0) [97, 98] 600 demo_root_fs = Some (True, s') \<and>
    (\<forall>nm. root_bound s' nm = (if c_string nm = c_string [97, 98] then Some sect else root_bound demo_root_fs nm)) \<and>
    ilength (decode_inode (sec s' sect)) = 600 \<and> istart (decode_inode (sec s' sect)) = st \<and>
    (\<forall>k. unat k \<in> {unat st..<unat st + (nat 600 + 511) div 512} \<longrightarrow> sec s' k = replicate 512 0) \<and>
    unat sect \<notin> {unat st..<unat st + (nat 600 + 511) div 512} \<and>
    (\<forall>k \<in> insert (unat sect) {unat st..<unat st + (nat 600 + 511) div 512}.
       k < length (bm_abs (free_map demo_root_fs)) \<and> \<not> bm_abs (free_map demo_root_fs) ! k) \<and>
    length (bm_abs (free_map s')) = length (bm_abs (free_map demo_root_fs)) \<and>
    (\<forall>k < length (bm_abs (free_map demo_root_fs)). bm_abs (free_map s') ! k \<longleftrightarrow>
       bm_abs (free_map demo_root_fs) ! k \<or> k \<in> insert (unat sect) {unat st..<unat st + (nat 600 + 511) div 512})"
  by (rule filesys_create_binds [OF demo_mounted _ _ _ demo_room _ demo_unbound])
     (simp_all add: valid_name_def c_string_def NAME_MAX_def)

theorem filesys_create_leaks_witness:
  "\<exists>s'. filesys_create (replicate 20 0) [] 600 demo_root_fs = Some (False, s') \<and> root_bound s' = root_bound demo_root_fs \<and>
    used_count (bm_abs (free_map s')) = used_count (bm_abs (free_map demo_root_fs)) + (nat 600 + 511) div 512"
  by (rule filesys_create_leaks [OF demo_mounted _ _ _ demo_room]) (simp_all add: valid_name_def c_string_def)

theorem dir_add_lookup_witness:
  "\<exists>d i s r s'. dir_open_root demo_root_fs = Some (d, s) \<and> dir_add (replicate 20 0) d [97] 9 s = Some (r, s') \<and>
    r = (valid_name [97] \<and> bound s i [97] = None \<and> \<not> full s i) \<and>
    (\<forall>nm. \<exists>t. sector_of_name d nm s' = Some (if r \<and> c_string nm = c_string [97] then Some 9 else bound s i nm, t)) \<and>
    (r \<longrightarrow> (\<exists>t. dir_add (replicate 20 0) d [97] 10 s' = Some (False, t) \<and> bound t i = bound s' i))"
proof -
  obtain d i s where s: "dir_open_root demo_root_fs = Some (d, s)" "open_dir d i s"
    using dir_open_root_ok [OF demo_mounted] by blast
  have "length (replicate 20 (0 :: u8)) = 20" by simp
  from dir_add_lookup [OF s(2) this, of "[97]" 9 10] s(1) show ?thesis by blast
qed

end
