(* ===== verification/KString.thy ===== *)
theory KString
  imports KList
begin

text \<open>
  The memory and string functions of \<^verbatim>\<open>lib/string.c\<close>, on the bytes of the memory by address.  A loop over a
  counted block is recursive on the count; a loop over a string runs until it meets a null byte and is a
  \<^theory_text>\<open>partial_function (option)\<close>.  Addresses are 32-bit words and wrap.

  \<open>cstr m p xs\<close> says that the bytes at \<open>p\<close> are the string \<open>xs\<close> with its terminator and end before the top
  of the memory; every function is shown to compute the operation on lists that its comment describes.
\<close>

section \<open>Operations\<close>

type_synonym bytes = "addr \<Rightarrow> u8"

fun copy_up :: "nat \<Rightarrow> addr \<Rightarrow> addr \<Rightarrow> bytes \<Rightarrow> addr \<times> bytes" where
  "copy_up 0 dst src m = (dst, m)"
| "copy_up (Suc n) dst src m = copy_up n (dst + 1) (src + 1) (m(dst := m src))"

fun copy_down :: "nat \<Rightarrow> addr \<Rightarrow> addr \<Rightarrow> bytes \<Rightarrow> addr \<times> bytes" where
  "copy_down 0 dst src m = (dst, m)"
| "copy_down (Suc n) dst src m = copy_down n (dst - 1) (src - 1) (m(dst - 1 := m (src - 1)))"

definition memcpy :: "addr \<Rightarrow> addr \<Rightarrow> u32 \<Rightarrow> bytes \<Rightarrow> (addr \<times> bytes) option" where
  "memcpy dst src sz m = do {
     ASSERT (dst \<noteq> NULL \<or> sz = 0);
     ASSERT (src \<noteq> NULL \<or> sz = 0);
     Some (dst, snd (copy_up (unat sz) dst src m))
   }"

definition memmove :: "addr \<Rightarrow> addr \<Rightarrow> u32 \<Rightarrow> bytes \<Rightarrow> (addr \<times> bytes) option" where
  "memmove dst src sz m = do {
     ASSERT (dst \<noteq> NULL \<or> sz = 0);
     ASSERT (src \<noteq> NULL \<or> sz = 0);
     Some (if dst < src then copy_up (unat sz) dst src m
           else copy_down (unat sz) (dst + sz) (src + sz) m)
   }"

fun memcmp_loop :: "nat \<Rightarrow> addr \<Rightarrow> addr \<Rightarrow> bytes \<Rightarrow> int" where
  "memcmp_loop 0 a b m = 0"
| "memcmp_loop (Suc n) a b m =
     (if m a \<noteq> m b then (if m b < m a then 1 else -1) else memcmp_loop n (a + 1) (b + 1) m)"

definition memcmp :: "addr \<Rightarrow> addr \<Rightarrow> u32 \<Rightarrow> bytes \<Rightarrow> int option" where
  "memcmp a b sz m = do {
     ASSERT (a \<noteq> NULL \<or> sz = 0);
     ASSERT (b \<noteq> NULL \<or> sz = 0);
     Some (memcmp_loop (unat sz) a b m)
   }"

partial_function (option) strcmp_loop :: "addr \<Rightarrow> addr \<Rightarrow> bytes \<Rightarrow> int option" where
  [code]: "strcmp_loop a b m =
     (if m a \<noteq> 0 \<and> m a = m b then strcmp_loop (a + 1) (b + 1) m
      else Some (if m a < m b then -1 else if m b < m a then 1 else 0))"

definition strcmp :: "addr \<Rightarrow> addr \<Rightarrow> bytes \<Rightarrow> int option" where
  "strcmp a b m = do {
     ASSERT (a \<noteq> NULL);
     ASSERT (b \<noteq> NULL);
     strcmp_loop a b m
   }"

fun memchr_loop :: "nat \<Rightarrow> addr \<Rightarrow> u8 \<Rightarrow> bytes \<Rightarrow> addr" where
  "memchr_loop 0 block ch m = NULL"
| "memchr_loop (Suc n) block ch m = (if m block = ch then block else memchr_loop n (block + 1) ch m)"

definition memchr :: "addr \<Rightarrow> u8 \<Rightarrow> u32 \<Rightarrow> bytes \<Rightarrow> addr option" where
  "memchr block ch sz m = do {
     ASSERT (block \<noteq> NULL \<or> sz = 0);
     Some (memchr_loop (unat sz) block ch m)
   }"

partial_function (option) strchr_loop :: "addr \<Rightarrow> u8 \<Rightarrow> bytes \<Rightarrow> addr option" where
  [code]: "strchr_loop s c m =
     (if m s = c then Some s else if m s = 0 then Some NULL else strchr_loop (s + 1) c m)"

definition strchr :: "addr \<Rightarrow> u8 \<Rightarrow> bytes \<Rightarrow> addr option" where
  "strchr s c m = do {
     ASSERT (s \<noteq> NULL);
     strchr_loop s c m
   }"

partial_function (option) strcspn_loop :: "addr \<Rightarrow> addr \<Rightarrow> u32 \<Rightarrow> bytes \<Rightarrow> u32 option" where
  [code]: "strcspn_loop s stop len m =
     (if m (s + len) \<noteq> 0 then do {
        r \<leftarrow> strchr stop (m (s + len)) m;
        if r \<noteq> NULL then Some len else strcspn_loop s stop (len + 1) m
      }
      else Some len)"

definition strcspn :: "addr \<Rightarrow> addr \<Rightarrow> bytes \<Rightarrow> u32 option" where
  "strcspn s stop m = strcspn_loop s stop 0 m"

partial_function (option) strpbrk :: "addr \<Rightarrow> addr \<Rightarrow> bytes \<Rightarrow> addr option" where
  [code]: "strpbrk s stop m =
     (if m s \<noteq> 0 then do {
        r \<leftarrow> strchr stop (m s) m;
        if r \<noteq> NULL then Some s else strpbrk (s + 1) stop m
      }
      else Some NULL)"

partial_function (option) strrchr_loop :: "addr \<Rightarrow> u8 \<Rightarrow> addr \<Rightarrow> bytes \<Rightarrow> addr option" where
  [code]: "strrchr_loop s c p m =
     (if m s \<noteq> 0 then strrchr_loop (s + 1) c (if m s = c then s else p) m else Some p)"

definition strrchr :: "addr \<Rightarrow> u8 \<Rightarrow> bytes \<Rightarrow> addr option" where
  "strrchr s c m = strrchr_loop s c NULL m"

partial_function (option) strspn_loop :: "addr \<Rightarrow> addr \<Rightarrow> u32 \<Rightarrow> bytes \<Rightarrow> u32 option" where
  [code]: "strspn_loop s skip len m =
     (if m (s + len) \<noteq> 0 then do {
        r \<leftarrow> strchr skip (m (s + len)) m;
        if r = NULL then Some len else strspn_loop s skip (len + 1) m
      }
      else Some len)"

definition strspn :: "addr \<Rightarrow> addr \<Rightarrow> bytes \<Rightarrow> u32 option" where
  "strspn s skip m = strspn_loop s skip 0 m"

partial_function (option) strlen_loop :: "addr \<Rightarrow> bytes \<Rightarrow> addr option" where
  [code]: "strlen_loop p m = (if m p \<noteq> 0 then strlen_loop (p + 1) m else Some p)"

definition strlen :: "addr \<Rightarrow> bytes \<Rightarrow> u32 option" where
  "strlen s m = do {
     ASSERT (s \<noteq> NULL);
     p \<leftarrow> strlen_loop s m;
     Some (p - s)
   }"

definition strstr :: "addr \<Rightarrow> addr \<Rightarrow> bytes \<Rightarrow> addr option" where
  "strstr haystack needle m = do {
     haystack_len \<leftarrow> strlen haystack m;
     needle_len \<leftarrow> strlen needle m;
     if needle_len \<le> haystack_len then do {
       r \<leftarrow> find_up (Suc (unat (haystack_len - needle_len))) 0
              (\<lambda>i. do { c \<leftarrow> memcmp (haystack + i) needle needle_len m; Some (c = 0) });
       Some (case r of Some i \<Rightarrow> haystack + i | None \<Rightarrow> NULL)
     }
     else Some NULL
   }"

text \<open>The first loop of \<^verbatim>\<open>strtok_r\<close> stops at the terminator, with the result \<open>False\<close>, or at the first byte of
  a token.\<close>

partial_function (option) skip_delimiters :: "addr \<Rightarrow> addr \<Rightarrow> bytes \<Rightarrow> (bool \<times> addr) option" where
  [code]: "skip_delimiters s delimiters m = do {
     r \<leftarrow> strchr delimiters (m s) m;
     if r \<noteq> NULL then (if m s = 0 then Some (False, s) else skip_delimiters (s + 1) delimiters m)
     else Some (True, s)
   }"

partial_function (option) skip_token :: "addr \<Rightarrow> addr \<Rightarrow> bytes \<Rightarrow> addr option" where
  [code]: "skip_token s delimiters m = do {
     r \<leftarrow> strchr delimiters (m s) m;
     if r = NULL then skip_token (s + 1) delimiters m else Some s
   }"

text \<open>The result is the token, the new value of \<^verbatim>\<open>*save_ptr\<close> and the memory.\<close>

definition strtok_r :: "addr \<Rightarrow> addr \<Rightarrow> addr \<Rightarrow> bytes \<Rightarrow> (addr \<times> addr \<times> bytes) option" where
  "strtok_r s delimiters save m = do {
     ASSERT (delimiters \<noteq> NULL);
     let s = (if s = NULL then save else s);
     ASSERT (s \<noteq> NULL);
     (found, token) \<leftarrow> skip_delimiters s delimiters m;
     if \<not> found then Some (NULL, token, m)
     else do {
       e \<leftarrow> skip_token token delimiters m;
       Some (if m e \<noteq> 0 then (token, e + 1, m(e := 0)) else (token, e, m))
     }
   }"

text \<open>The loop that the comment gives as the usage of \<^verbatim>\<open>strtok_r\<close>, collecting the tokens.\<close>

partial_function (option) strtok_all :: "addr \<Rightarrow> addr \<Rightarrow> addr \<Rightarrow> bytes \<Rightarrow> (addr list \<times> bytes) option" where
  [code]: "strtok_all s delimiters save m = do {
     (token, save, m) \<leftarrow> strtok_r s delimiters save m;
     if token \<noteq> NULL then do {
       (ts, m) \<leftarrow> strtok_all NULL delimiters save m;
       Some (token # ts, m)
     }
     else Some ([], m)
   }"

fun memset_loop :: "nat \<Rightarrow> addr \<Rightarrow> u8 \<Rightarrow> bytes \<Rightarrow> bytes" where
  "memset_loop 0 dst v m = m"
| "memset_loop (Suc n) dst v m = memset_loop n (dst + 1) v (m(dst := v))"

definition memset :: "addr \<Rightarrow> u8 \<Rightarrow> u32 \<Rightarrow> bytes \<Rightarrow> (addr \<times> bytes) option" where
  "memset dst v sz m = do {
     ASSERT (dst \<noteq> NULL \<or> sz = 0);
     Some (dst, memset_loop (unat sz) dst v m)
   }"

function strnlen_loop :: "addr \<Rightarrow> u32 \<Rightarrow> u32 \<Rightarrow> bytes \<Rightarrow> u32" where
  "strnlen_loop s len maxlen m = (if m (s + len) \<noteq> 0 \<and> len < maxlen then strnlen_loop s (len + 1) maxlen m else len)"
  by pat_completeness auto
termination
proof (relation "measure (\<lambda>(s, len, maxlen, m). unat maxlen - unat len)")
  fix s len maxlen :: u32 and m :: bytes
  assume "m (s + len) \<noteq> 0 \<and> len < maxlen"
  then have "unat len < unat maxlen" by (simp add: word_less_nat_alt)
  moreover from this have "unat (len + 1) = Suc (unat len)" by (rule unat_plus_1) (simp add: unat_lt32 [simplified])
  ultimately show "((s, len + 1, maxlen, m), s, len, maxlen, m) \<in> measure (\<lambda>(s, len, maxlen, m). unat maxlen - unat len)" by simp
qed simp

declare strnlen_loop.simps [simp del]

definition strnlen :: "addr \<Rightarrow> u32 \<Rightarrow> bytes \<Rightarrow> u32" where
  "strnlen s maxlen m = strnlen_loop s 0 maxlen m"

definition strlcpy :: "addr \<Rightarrow> addr \<Rightarrow> u32 \<Rightarrow> bytes \<Rightarrow> (u32 \<times> bytes) option" where
  "strlcpy dst src sz m = do {
     ASSERT (dst \<noteq> NULL);
     ASSERT (src \<noteq> NULL);
     src_len \<leftarrow> strlen src m;
     if sz > 0 then do {
       let dst_len = (if src_len < sz - 1 then src_len else sz - 1);
       (_, m) \<leftarrow> memcpy dst src dst_len m;
       Some (src_len, m(dst + dst_len := 0))
     }
     else Some (src_len, m)
   }"

definition strlcat :: "addr \<Rightarrow> addr \<Rightarrow> u32 \<Rightarrow> bytes \<Rightarrow> (u32 \<times> bytes) option" where
  "strlcat dst src sz m = do {
     ASSERT (dst \<noteq> NULL);
     ASSERT (src \<noteq> NULL);
     src_len \<leftarrow> strlen src m;
     dst_len \<leftarrow> strlen dst m;
     if sz > 0 \<and> dst_len < sz then do {
       let copy_cnt = (if src_len < sz - dst_len - 1 then src_len else sz - dst_len - 1);
       (_, m) \<leftarrow> memcpy (dst + dst_len) src copy_cnt m;
       Some (src_len + dst_len, m(dst + (dst_len + copy_cnt) := 0))
     }
     else Some (src_len + dst_len, m)
   }"

section \<open>Strings in memory\<close>

primrec str_at :: "bytes \<Rightarrow> addr \<Rightarrow> u8 list \<Rightarrow> bool" where
  "str_at m p [] \<longleftrightarrow> m p = 0"
| "str_at m p (x # xs) \<longleftrightarrow> m p = x \<and> x \<noteq> 0 \<and> str_at m (p + 1) xs"

definition cstr :: "bytes \<Rightarrow> addr \<Rightarrow> u8 list \<Rightarrow> bool" where
  "cstr m p xs \<longleftrightarrow> p \<noteq> NULL \<and> unat p + length xs < 2 ^ 32 \<and> str_at m p xs"

definition block_at :: "bytes \<Rightarrow> addr \<Rightarrow> nat \<Rightarrow> u8 list" where
  "block_at m p n = map (\<lambda>i. m (p + of_nat i)) [0..<n]"

named_theorems string_simps \<open>the string functions on strings in memory\<close>

lemma block_at_simps [simp]: "block_at m p 0 = []" "block_at m p (Suc n) = m p # block_at m (p + 1) n"
  by (simp_all add: block_at_def map_upt_Suc add.assoc del: upt_Suc)

lemma length_block_at [simp]: "length (block_at m p n) = n"
  by (simp add: block_at_def)

lemma cstr_Nil [simp]: "cstr m p [] \<longleftrightarrow> p \<noteq> NULL \<and> m p = 0"
  using unat_lt32 [of p] by (auto simp: cstr_def)

lemma cstr_ConsD:
  assumes "cstr m p (x # xs)"
  shows "p \<noteq> NULL" "m p = x" "x \<noteq> 0" "cstr m (p + 1) xs" "unat (p + 1) = Suc (unat p)" "p + 1 \<noteq> NULL"
proof -
  show u: "unat (p + 1) = Suc (unat p)" using assms unat_plus_1 [of p "2 ^ 32 - 1"] by (auto simp: cstr_def)
  then show "p + 1 \<noteq> NULL" by (metis nat.simps(3) unat_0)
  then show "p \<noteq> NULL" "m p = x" "x \<noteq> 0" "cstr m (p + 1) xs" using assms u by (auto simp: cstr_def)
qed

lemma cstrD: "cstr m p xs \<Longrightarrow> p \<noteq> NULL" "cstr m p xs \<Longrightarrow> unat p + length xs < 2 ^ 32"
  by (auto simp: cstr_def)

lemma str_at_conv: "str_at m p xs \<longleftrightarrow> block_at m p (length xs) = xs \<and> 0 \<notin> set xs \<and> m (p + of_nat (length xs)) = 0"
  by (induction xs arbitrary: p) (auto simp: add.assoc)

lemma cstr_conv:
  "cstr m p xs \<longleftrightarrow> p \<noteq> NULL \<and> unat p + length xs < 2 ^ 32 \<and> block_at m p (length xs) = xs \<and> 0 \<notin> set xs \<and>
     m (p + of_nat (length xs)) = 0"
  by (simp add: cstr_def str_at_conv)

lemma cstr_nonzero: "cstr m p xs \<Longrightarrow> 0 \<notin> set xs"
  by (simp add: cstr_conv)

lemma cstr_appendD: "cstr m p (xs @ ys) \<Longrightarrow> cstr m (p + of_nat (length xs)) ys"
proof (induction xs arbitrary: p)
  case (Cons x xs)
  from Cons.prems have "cstr m (p + 1) (xs @ ys)" using cstr_ConsD(4) [of m p x "xs @ ys"] by simp
  from Cons.IH [OF this] show ?case by (simp add: add.assoc)
qed simp

lemma unat_cstr_ofs: "cstr m p xs \<Longrightarrow> i \<le> length xs \<Longrightarrow> unat (p + of_nat i) = unat p + i"
  by (simp add: cstr_def unat_word_ariths unat_of_nat)

lemma nth_block_at: "i < n \<Longrightarrow> block_at m p n ! i = m (p + of_nat i)"
  by (simp add: block_at_def)

lemma cstr_nth: "cstr m p xs \<Longrightarrow> i < length xs \<Longrightarrow> m (p + of_nat i) = xs ! i"
  using nth_block_at [of i "length xs" m p] by (simp add: cstr_conv)

lemma take_block_at: "k \<le> n \<Longrightarrow> take k (block_at m p n) = block_at m p k"
  by (simp add: block_at_def take_map)

lemma drop_block_at: "drop k (block_at m p n) = block_at m (p + of_nat k) (n - k)"
  by (rule nth_equalityI) (simp_all add: nth_block_at add.assoc)

lemma block_at_cstr: "cstr m p xs \<Longrightarrow> j + k \<le> length xs \<Longrightarrow> block_at m (p + of_nat j) k = take k (drop j xs)"
  by (rule nth_equalityI) (simp_all add: nth_block_at cstr_nth [of m p xs, symmetric] add.assoc)

section \<open>Searching\<close>

lemma strlen_loop_ok: "cstr m p xs \<Longrightarrow> strlen_loop p m = Some (p + of_nat (length xs))"
proof (induction xs arbitrary: p)
  case (Cons x xs)
  then show ?case using cstr_ConsD [OF Cons.prems] by (simp add: strlen_loop.simps [of p] add.assoc)
qed (simp add: strlen_loop.simps)

lemma strlen_ok [string_simps]: "cstr m p xs \<Longrightarrow> strlen p m = Some (of_nat (length xs))"
  by (simp add: strlen_def strlen_loop_ok cstrD)

lemma strchr_loop_ok:
  "cstr m p xs \<Longrightarrow> strchr_loop p c m =
     Some (if c = 0 \<or> c \<in> set xs then p + of_nat (length (takeWhile (\<lambda>x. x \<noteq> c) xs)) else NULL)"
proof (induction xs arbitrary: p)
  case (Cons x xs)
  then show ?case using cstr_ConsD [OF Cons.prems] by (simp add: strchr_loop.simps [of p] add.assoc)
qed (simp add: strchr_loop.simps)

lemma strchr_ok [string_simps]:
  "cstr m p xs \<Longrightarrow> strchr p c m =
     Some (if c = 0 \<or> c \<in> set xs then p + of_nat (length (takeWhile (\<lambda>x. x \<noteq> c) xs)) else NULL)"
  by (simp add: strchr_def strchr_loop_ok cstrD)

lemma strchr_found:
  assumes "cstr m p xs"
  shows "\<exists>r. strchr p c m = Some r \<and> (r \<noteq> NULL \<longleftrightarrow> c = 0 \<or> c \<in> set xs)"
proof -
  have "unat (p + of_nat (length (takeWhile (\<lambda>x. x \<noteq> c) xs))) = unat p + length (takeWhile (\<lambda>x. x \<noteq> c) xs)"
    using unat_cstr_ofs [OF assms] length_takeWhile_le by blast
  moreover have "unat p > 0" using cstrD(1) [OF assms] by (simp add: unat_gt_0)
  ultimately have "p + of_nat (length (takeWhile (\<lambda>x. x \<noteq> c) xs)) \<noteq> NULL" by (metis add_gr_0 less_irrefl unat_0)
  then show ?thesis using strchr_ok [OF assms] by auto
qed

lemma strcspn_loop_ok:
  "cstr m q ds \<Longrightarrow> cstr m (p + n) xs \<Longrightarrow>
     strcspn_loop p q n m = Some (n + of_nat (length (takeWhile (\<lambda>x. x \<notin> set ds) xs)))"
proof (induction xs arbitrary: n)
  case (Cons x xs)
  note c = cstr_ConsD [OF Cons.prems(2)]
  obtain r where r: "strchr q x m = Some r" "r \<noteq> NULL \<longleftrightarrow> x \<in> set ds" using strchr_found [OF Cons.prems(1), of x] c(3) by auto
  have "strcspn_loop p q (n + 1) m = Some (n + 1 + of_nat (length (takeWhile (\<lambda>x. x \<notin> set ds) xs)))"
    using Cons.IH [of "n + 1"] Cons.prems(1) c(4) by (simp add: add.assoc)
  then show ?case using c(2,3) r by (simp add: strcspn_loop.simps [of p q n] add.assoc)
qed (simp add: strcspn_loop.simps)

lemma strcspn_ok [string_simps]:
  "cstr m q ds \<Longrightarrow> cstr m p xs \<Longrightarrow> strcspn p q m = Some (of_nat (length (takeWhile (\<lambda>x. x \<notin> set ds) xs)))"
  using strcspn_loop_ok [of m q ds p 0 xs] by (simp add: strcspn_def)

lemma strspn_loop_ok:
  "cstr m q ds \<Longrightarrow> cstr m (p + n) xs \<Longrightarrow>
     strspn_loop p q n m = Some (n + of_nat (length (takeWhile (\<lambda>x. x \<in> set ds) xs)))"
proof (induction xs arbitrary: n)
  case (Cons x xs)
  note c = cstr_ConsD [OF Cons.prems(2)]
  obtain r where r: "strchr q x m = Some r" "r \<noteq> NULL \<longleftrightarrow> x \<in> set ds" using strchr_found [OF Cons.prems(1), of x] c(3) by auto
  have "strspn_loop p q (n + 1) m = Some (n + 1 + of_nat (length (takeWhile (\<lambda>x. x \<in> set ds) xs)))"
    using Cons.IH [of "n + 1"] Cons.prems(1) c(4) by (simp add: add.assoc)
  then show ?case using c(2,3) r by (auto simp: strspn_loop.simps [of p q n] add.assoc)
qed (simp add: strspn_loop.simps)

lemma strspn_ok [string_simps]:
  "cstr m q ds \<Longrightarrow> cstr m p xs \<Longrightarrow> strspn p q m = Some (of_nat (length (takeWhile (\<lambda>x. x \<in> set ds) xs)))"
  using strspn_loop_ok [of m q ds p 0 xs] by (simp add: strspn_def)

lemma strpbrk_ok [string_simps]:
  "cstr m q ds \<Longrightarrow> cstr m p xs \<Longrightarrow> strpbrk p q m =
     Some (if set xs \<inter> set ds = {} then NULL else p + of_nat (length (takeWhile (\<lambda>x. x \<notin> set ds) xs)))"
proof (induction xs arbitrary: p)
  case (Cons x xs)
  note c = cstr_ConsD [OF Cons.prems(2)]
  obtain r where r: "strchr q x m = Some r" "r \<noteq> NULL \<longleftrightarrow> x \<in> set ds" using strchr_found [OF Cons.prems(1), of x] c(3) by auto
  then show ?case using c(2,3) Cons.IH [OF Cons.prems(1) c(4)] by (simp add: strpbrk.simps [of p] add.assoc)
qed (simp add: strpbrk.simps)

lemma takeWhile_lt: "c \<in> set ys \<Longrightarrow> length (takeWhile (\<lambda>x. x \<noteq> c) ys) < length ys"
  by (induction ys) auto

lemma strrchr_loop_ok:
  "cstr m p xs \<Longrightarrow> strrchr_loop p c q m =
     Some (if c \<in> set xs then p + of_nat (length xs - Suc (length (takeWhile (\<lambda>x. x \<noteq> c) (rev xs)))) else q)"
proof (induction xs arbitrary: p q)
  case (Cons x xs)
  note c = cstr_ConsD [OF Cons.prems]
  have l: "c \<in> set xs \<Longrightarrow> length (takeWhile (\<lambda>x. x \<noteq> c) (rev xs)) < length xs"
    using takeWhile_lt [of c "rev xs"] by simp
  have "takeWhile (\<lambda>x. x \<noteq> c) (rev xs) = rev xs" if "c \<notin> set xs" using that by (auto simp: takeWhile_eq_all_conv)
  then show ?case using c(2,3) Cons.IH [OF c(4)] l
    by (auto simp: strrchr_loop.simps [of p] takeWhile_append takeWhile_append1 Suc_diff_Suc add.assoc simp flip: of_nat_Suc)
qed (simp add: strrchr_loop.simps)

lemma strrchr_ok [string_simps]:
  "cstr m p xs \<Longrightarrow> strrchr p c m =
     Some (if c \<in> set xs then p + of_nat (length xs - Suc (length (takeWhile (\<lambda>x. x \<noteq> c) (rev xs)))) else NULL)"
  by (simp add: strrchr_def strrchr_loop_ok)

section \<open>Comparing\<close>

definition cmp_blocks :: "u8 list \<Rightarrow> u8 list \<Rightarrow> int" where
  "cmp_blocks xs ys = (if xs = ys then 0 else if ord_class.lexordp xs ys then -1 else 1)"

lemma memcmp_loop_ok: "memcmp_loop n a b m = cmp_blocks (block_at m a n) (block_at m b n)"
  by (induction n arbitrary: a b) (auto simp: cmp_blocks_def)

lemma memcmp_ok [string_simps]:
  "a \<noteq> NULL \<and> b \<noteq> NULL \<or> n = 0 \<Longrightarrow> memcmp a b n m = Some (cmp_blocks (block_at m a (unat n)) (block_at m b (unat n)))"
  by (auto simp: memcmp_def memcmp_loop_ok)

lemma memcmp_zero: "a \<noteq> NULL \<Longrightarrow> b \<noteq> NULL \<Longrightarrow> memcmp a b n m = Some 0 \<longleftrightarrow> block_at m a (unat n) = block_at m b (unat n)"
  by (auto simp: memcmp_ok cmp_blocks_def)

lemma strcmp_loop_ok: "cstr m a xs \<Longrightarrow> cstr m b ys \<Longrightarrow> strcmp_loop a b m = Some (cmp_blocks xs ys)"
proof (induction xs arbitrary: a b ys)
  case Nil
  show ?case
  proof (cases ys)
    case (Cons y zs)
    note d = cstr_ConsD [OF Nil.prems(2) [unfolded Cons]]
    then show ?thesis using Nil.prems(1) Cons by (simp add: strcmp_loop.simps cmp_blocks_def word_gt_0)
  qed (use Nil.prems in \<open>simp add: strcmp_loop.simps cmp_blocks_def\<close>)
next
  case (Cons x xs)
  note c = cstr_ConsD [OF Cons.prems(1)]
  show ?case
  proof (cases ys)
    case Nil then show ?thesis using c(2,3) Cons.prems(2) by (simp add: strcmp_loop.simps cmp_blocks_def word_gt_0)
  next
    case (Cons y zs)
    note d = cstr_ConsD [OF Cons.prems(2) [unfolded Cons]]
    show ?thesis using c(2,3) d(2,3) Cons Cons.IH [OF c(4) d(4)] by (auto simp: strcmp_loop.simps [of a b] cmp_blocks_def)
  qed
qed

lemma strcmp_ok [string_simps]: "cstr m a xs \<Longrightarrow> cstr m b ys \<Longrightarrow> strcmp a b m = Some (cmp_blocks xs ys)"
  by (simp add: strcmp_def strcmp_loop_ok cstrD)

lemma cmp_blocks_zero [simp]: "cmp_blocks xs ys = 0 \<longleftrightarrow> xs = ys"
  by (simp add: cmp_blocks_def)

lemma memchr_loop_ok:
  "memchr_loop n p c m = (if c \<in> set (block_at m p n) then p + of_nat (length (takeWhile (\<lambda>x. x \<noteq> c) (block_at m p n))) else NULL)"
  by (induction n arbitrary: p) (auto simp: add.assoc)

lemma memchr_ok [string_simps]:
  "p \<noteq> NULL \<or> n = 0 \<Longrightarrow> memchr p c n m =
     Some (if c \<in> set (block_at m p (unat n)) then p + of_nat (length (takeWhile (\<lambda>x. x \<noteq> c) (block_at m p (unat n)))) else NULL)"
  by (auto simp: memchr_def memchr_loop_ok)

text \<open>\<open>occurs xs ys i\<close>: the string \<open>ys\<close> stands in \<open>xs\<close> at offset \<open>i\<close>.\<close>

definition occurs :: "u8 list \<Rightarrow> u8 list \<Rightarrow> nat \<Rightarrow> bool" where
  "occurs xs ys i \<longleftrightarrow> i + length ys \<le> length xs \<and> take (length ys) (drop i xs) = ys"

lemma strstr_ok [string_simps]:
  assumes "cstr m p xs" and "cstr m q ys"
  shows "strstr p q m = Some (if \<exists>i. occurs xs ys i then p + of_nat (LEAST i. occurs xs ys i) else NULL)"
proof -
  let ?n = "length xs" and ?k = "length ys"
  have u: "unat (of_nat ?n :: u32) = ?n" "unat (of_nat ?k :: u32) = ?k"
    using cstrD(2) [OF assms(1)] cstrD(2) [OF assms(2)] by (simp_all add: unat_of_nat)
  then have le: "(of_nat ?k :: u32) \<le> of_nat ?n \<longleftrightarrow> ?k \<le> ?n" by (simp add: word_le_nat_alt)
  show ?thesis
  proof (cases "?k \<le> ?n")
    case False
    then show ?thesis using assms le by (simp add: strstr_def strlen_ok occurs_def)
  next
    case True
    have d: "unat (of_nat ?n - of_nat ?k :: u32) = ?n - ?k" using le True u by (simp add: unat_sub)
    have *: "(do { c \<leftarrow> memcmp (p + (0 + of_nat j)) q (of_nat ?k) m; Some (c = 0) }) = Some (occurs xs ys j)"
      if "j < Suc (?n - ?k)" for j
    proof -
      have j: "j + ?k \<le> ?n" using that True by simp
      have "unat (p + of_nat j) = unat p + j" by (rule unat_cstr_ofs [OF assms(1)]) (use j in simp)
      then have "p + of_nat j \<noteq> NULL" using cstrD(1) [OF assms(1)] by (metis add_eq_0_iff_both_eq_0 unat_0 unat_eq_zero)
      moreover have "block_at m (p + of_nat j) ?k = take ?k (drop j xs)"
        by (rule block_at_cstr [OF assms(1) j])
      moreover have "block_at m q ?k = ys" using assms(2) by (simp add: cstr_conv)
      ultimately show ?thesis using j cstrD(1) [OF assms(2)] u(2) by (simp add: memcmp_ok occurs_def)
    qed
    have "j < Suc (?n - ?k) \<and> occurs xs ys j \<longleftrightarrow> occurs xs ys j" for j by (auto simp: occurs_def)
    then have e: "(\<exists>j<Suc (?n - ?k). occurs xs ys j) \<longleftrightarrow> (\<exists>i. occurs xs ys i)"
      "(LEAST j. j < Suc (?n - ?k) \<and> occurs xs ys j) = (LEAST i. occurs xs ys i)" by simp_all
    let ?P = "\<lambda>i. do { c \<leftarrow> memcmp (p + i) q (of_nat ?k) m; Some (c = 0) }"
    have "find_up (Suc (?n - ?k)) 0 ?P = Some (if \<exists>i. occurs xs ys i then Some (of_nat (LEAST i. occurs xs ys i)) else None)"
      using find_up_eq [where i = 0 and n = "Suc (?n - ?k)" and Q = "occurs xs ys" and P = ?P, OF *] unfolding e by simp
    then show ?thesis using assms le True d by (auto simp: strstr_def strlen_ok simp del: find_up.simps)
  qed
qed

lemma strnlen_loop_ok:
  "unat n + k = unat maxlen \<Longrightarrow>
     strnlen_loop p n maxlen m = n + of_nat (length (takeWhile (\<lambda>x. x \<noteq> 0) (block_at m (p + n) k)))"
proof (induction k arbitrary: n)
  case 0 then show ?case by (simp add: strnlen_loop.simps [of p n] word_less_nat_alt)
next
  case (Suc k)
  then have l: "n < maxlen" "unat (n + 1) = Suc (unat n)"
    using unat_plus_1 [of n "unat maxlen"] unat_lt32 [of maxlen] by (simp_all add: word_less_nat_alt)
  then show ?case using Suc.IH [of "n + 1"] Suc.prems by (simp add: strnlen_loop.simps [of p n] add.assoc)
qed

lemma strnlen_ok [string_simps]: "strnlen p n m = of_nat (length (takeWhile (\<lambda>x. x \<noteq> 0) (block_at m p (unat n))))"
  using strnlen_loop_ok [of 0 "unat n" n p m] by (simp add: strnlen_def)

section \<open>Copying\<close>

text \<open>\<open>copied dst src n m\<close> is the memory \<open>m\<close> after all \<open>n\<close> bytes have been moved at once.\<close>

definition copied :: "addr \<Rightarrow> addr \<Rightarrow> nat \<Rightarrow> bytes \<Rightarrow> bytes" where
  "copied dst src n m = (\<lambda>a. if unat (a - dst) < n then m (src + (a - dst)) else m a)"

definition apart :: "addr \<Rightarrow> addr \<Rightarrow> nat \<Rightarrow> bool" where
  "apart dst src n \<longleftrightarrow> (\<forall>i<n. \<forall>j<n. dst + of_nat i \<noteq> src + of_nat j)"

lemma unat_minus_1: "x \<noteq> 0 \<Longrightarrow> unat (x - 1 :: u32) = unat x - 1"
  by (simp add: unat_minus_one)

lemma offset_step: "unat (a - dst :: u32) < Suc n \<longleftrightarrow> a = dst \<or> unat (a - (dst + 1)) < n" if "n < 2 ^ 32"
proof (cases "a = dst")
  case False
  then have "unat (a - dst - 1) = unat (a - dst) - 1" "0 < unat (a - dst)" by (simp_all add: unat_minus_1 unat_gt_0)
  then show ?thesis using False by (simp add: diff_diff_eq) linarith
qed simp

text \<open>The ascending loop is right when no byte of the source is overwritten before it is read.\<close>

lemma copy_up_ok:
  assumes "\<And>i j. i < j \<Longrightarrow> j < n \<Longrightarrow> dst + of_nat i \<noteq> src + of_nat j" and "n < 2 ^ 32"
  shows "copy_up n dst src m = (dst + of_nat n, copied dst src n m)"
  using assms
proof (induction n arbitrary: dst src m)
  case (Suc n)
  have "dst + 1 + of_nat i \<noteq> src + 1 + of_nat j" if "i < j" "j < n" for i j
    using Suc.prems(1) [of "Suc i" "Suc j"] that by (simp add: add.assoc)
  then have IH: "copy_up n (dst + 1) (src + 1) (m(dst := m src)) =
      (dst + 1 + of_nat n, copied (dst + 1) (src + 1) n (m(dst := m src)))" using Suc.IH Suc.prems(2) by simp
  have "copied (dst + 1) (src + 1) n (m(dst := m src)) a = copied dst src (Suc n) m a" for a
  proof (cases "unat (a - (dst + 1)) < n")
    case True
    let ?j = "unat (a - (dst + 1))"
    have "dst + of_nat 0 \<noteq> src + of_nat (Suc ?j)" by (rule Suc.prems(1)) (use True in auto)
    then have "src + 1 + (a - (dst + 1)) \<noteq> dst" by (simp add: add.assoc add.commute)
    then show ?thesis using True offset_step [of n a dst] Suc.prems(2) by (simp add: copied_def algebra_simps)
  next
    case False
    then show ?thesis using offset_step [of n a dst] Suc.prems(2) by (auto simp: copied_def)
  qed
  then show ?case using IH by (simp add: add.assoc fun_eq_iff)
qed (simp add: copied_def)

lemma offset_last: "unat (a - dst :: u32) < Suc n \<longleftrightarrow> a = dst + of_nat n \<or> unat (a - dst) < n" if "n < 2 ^ 32"
proof -
  have "a = dst + of_nat n \<longleftrightarrow> a - dst = of_nat n" by (metis add.commute add_diff_cancel_left' diff_add_cancel)
  also have "\<dots> \<longleftrightarrow> unat (a - dst) = n" using that by (auto simp: unat_of_nat32)
  finally show ?thesis by auto
qed

lemma copy_down_ok:
  assumes "\<And>i j. i < j \<Longrightarrow> j < n \<Longrightarrow> dst + of_nat j \<noteq> src + of_nat i" and "n < 2 ^ 32"
  shows "copy_down n (dst + of_nat n) (src + of_nat n) m = (dst, copied dst src n m)"
  using assms
proof (induction n arbitrary: m)
  case (Suc n)
  let ?m = "m(dst + of_nat n := m (src + of_nat n))"
  have IH: "copy_down n (dst + of_nat n) (src + of_nat n) ?m = (dst, copied dst src n ?m)"
    using Suc.IH Suc.prems by simp
  have "copied dst src n ?m a = copied dst src (Suc n) m a" for a
  proof (cases "unat (a - dst) < n")
    case True
    have "dst + of_nat n \<noteq> src + of_nat (unat (a - dst))" by (rule Suc.prems(1)) (use True in auto)
    then show ?thesis using True by (simp add: copied_def)
  next
    case False
    then show ?thesis using offset_last [of n a dst] Suc.prems(2) by (auto simp: copied_def)
  qed
  then show ?case using IH by (simp add: fun_eq_iff algebra_simps)
qed (simp add: copied_def)

lemma memset_loop_ok: "n < 2 ^ 32 \<Longrightarrow> memset_loop n p v m = (\<lambda>a. if unat (a - p) < n then v else m a)"
proof (induction n arbitrary: p m)
  case (Suc n)
  then show ?case by (auto simp: offset_step fun_eq_iff)
qed simp

lemma memset_ok [string_simps]: "p \<noteq> NULL \<Longrightarrow> memset p v n m = Some (p, \<lambda>a. if unat (a - p) < unat n then v else m a)"
  using unat_lt32 [of n] by (simp add: memset_def memset_loop_ok)

lemma memcpy_ok [string_simps]:
  assumes "dst \<noteq> NULL" and "src \<noteq> NULL" and "apart dst src (unat n)"
  shows "memcpy dst src n m = Some (dst, copied dst src (unat n) m)"
  using copy_up_ok [of "unat n" dst src m] assms unat_lt32 [of n] by (simp add: memcpy_def apart_def)

text \<open>C25: \<^verbatim>\<open>memmove\<close> moves overlapping blocks as if the source were read completely before anything is
  written.  When the destination is below the source it returns the address behind the block that was
  written, and not the destination.\<close>

theorem memmove_overlap:
  assumes "dst \<noteq> NULL" and "src \<noteq> NULL" and "unat dst + unat n \<le> 2 ^ 32" and "unat src + unat n \<le> 2 ^ 32"
  shows "\<exists>m'. memmove dst src n m = Some (if dst < src then dst + n else dst, m') \<and>
    block_at m' dst (unat n) = block_at m src (unat n) \<and>
    (\<forall>a :: addr. unat a < unat dst \<or> unat dst + unat n \<le> unat a \<longrightarrow> m' a = m a)"
proof (intro exI conjI)
  have n: "unat n < 2 ^ 32" by (rule unat_lt32)
  show "memmove dst src n m = Some (if dst < src then dst + n else dst, copied dst src (unat n) m)"
  proof (cases "dst < src")
    case True
    have "dst + of_nat i \<noteq> src + of_nat j" if "i < j" "j < unat n" for i j
    proof
      assume "dst + of_nat i = src + of_nat j"
      then have "unat dst + i = unat src + j" using that assms(3,4) unat_ofs [of dst i] unat_ofs [of src j] by simp
      then show False using that True by (simp add: word_less_nat_alt)
    qed
    from copy_up_ok [OF this n] show ?thesis using assms(1,2) True by (simp add: memmove_def)
  next
    case False
    have "dst + of_nat j \<noteq> src + of_nat i" if "i < j" "j < unat n" for i j
    proof
      assume "dst + of_nat j = src + of_nat i"
      then have "unat dst + j = unat src + i" using that assms(3,4) unat_ofs [of dst j] unat_ofs [of src i] by simp
      then show False using that False by (simp add: word_less_nat_alt)
    qed
    from copy_down_ok [OF this n] show ?thesis using assms(1,2) False by (simp add: memmove_def)
  qed
  show "block_at (copied dst src (unat n) m) dst (unat n) = block_at m src (unat n)"
    using n by (auto simp: block_at_def copied_def unat_of_nat)
  show "\<forall>a :: addr. unat a < unat dst \<or> unat dst + unat n \<le> unat a \<longrightarrow> copied dst src (unat n) m a = m a"
  proof (intro allI impI)
    fix a :: addr assume a: "unat a < unat dst \<or> unat dst + unat n \<le> unat a"
    have "\<not> unat (a - dst) < unat n"
    proof
      assume l: "unat (a - dst) < unat n"
      have "unat dst + unat (a - dst) < 2 ^ 32" using l assms(3) by linarith
      from unat_ofs [OF this] have "unat a = unat dst + unat (a - dst)" by simp
      then show False using a l by linarith
    qed
    then show "copied dst src (unat n) m a = m a" by (simp add: copied_def)
  qed
qed

section \<open>Writing a block of bytes\<close>

definition put :: "bytes \<Rightarrow> addr \<Rightarrow> u8 list \<Rightarrow> bytes" where
  "put m p cs = (\<lambda>a. if unat (a - p) < length cs then cs ! unat (a - p) else m a)"

lemma ofs_eq: "k < 2 ^ 32 \<Longrightarrow> a = p + of_nat k \<longleftrightarrow> unat (a - p :: u32) = k"
  by (auto simp: unat_of_nat32)

lemma put_snoc: "length cs < 2 ^ 32 \<Longrightarrow> (put m p cs)(p + of_nat (length cs) := c) = put m p (cs @ [c])"
  by (rule ext) (auto simp: put_def ofs_eq nth_append)

lemma put_single: "m(p := c) = put m p [c]"
  using put_snoc [of "[]" m p c] by (simp add: put_def)

lemma put_frame:
  assumes "unat p + length cs \<le> 2 ^ 32" and "unat a < unat p \<or> unat p + length cs \<le> unat a"
  shows "put m p cs a = m a"
proof -
  have "\<not> unat (a - p) < length cs"
  proof
    assume d: "unat (a - p) < length cs"
    have "unat (p + of_nat (unat (a - p))) = unat p + unat (a - p)" by (rule unat_ofs) (use d assms(1) in simp)
    then show False using d assms(2) by simp
  qed
  then show ?thesis by (simp add: put_def)
qed

section \<open>Bounded copies\<close>

lemma block_at_cong: "(\<And>i. i < n \<Longrightarrow> m (p + of_nat i) = m' (p + of_nat i)) \<Longrightarrow> block_at m p n = block_at m' p n"
  by (simp add: block_at_def)

lemma apartI:
  assumes "unat dst + n \<le> unat src \<or> unat src + n \<le> unat dst" and "unat dst + n \<le> 2 ^ 32" and "unat src + n \<le> 2 ^ 32"
  shows "apart dst src n"
  unfolding apart_def
proof (intro allI impI notI)
  fix i j assume "i < n" "j < n" "dst + of_nat i = src + of_nat j"
  then have "unat dst + i = unat src + j" using assms(2,3) unat_ofs [of dst i] unat_ofs [of src j] by simp
  then show False using assms(1) \<open>i < n\<close> \<open>j < n\<close> by linarith
qed

text \<open>The block at \<open>dst\<close> of a memory in which \<open>k\<close> bytes have been copied there and terminated.\<close>

lemma cstr_copied:
  assumes "dst \<noteq> NULL" and "unat dst + k < 2 ^ 32" and "block_at m src k = xs" and "0 \<notin> set xs"
  shows "cstr ((copied dst src k m)(dst + of_nat k := 0)) dst xs"
proof -
  have "length xs = k" using assms(3) by auto
  moreover have "block_at ((copied dst src k m)(dst + of_nat k := 0)) dst k = block_at m src k"
    using assms(2) by (intro nth_equalityI) (auto simp: nth_block_at copied_def of_nat_inj32 unat_of_nat32)
  ultimately show ?thesis using assms by (auto simp: cstr_conv)
qed

lemma copied_frame:
  "unat dst + k < 2 ^ 32 \<Longrightarrow> unat a < unat dst \<or> unat dst + k < unat a \<Longrightarrow>
     ((copied dst src k m)(dst + of_nat k := 0)) a = m a"
proof -
  assume u: "unat dst + k < 2 ^ 32" and a: "unat a < unat dst \<or> unat dst + k < unat a"
  have "a \<noteq> dst + of_nat k" using a unat_ofs [OF u] by auto
  moreover have "\<not> unat (a - dst) < k"
  proof
    assume l: "unat (a - dst) < k"
    then have "unat a = unat dst + unat (a - dst)" using u unat_ofs [of dst "unat (a - dst)"] by simp
    then show False using a l by linarith
  qed
  ultimately show ?thesis by (simp add: copied_def)
qed

text \<open>\<^verbatim>\<open>strlcpy\<close> leaves a terminated string in a buffer of \<open>n > 0\<close> bytes: the source, cut to
  \<open>n - 1\<close> bytes.  It returns the length of the source and writes nothing outside the buffer.\<close>

theorem strlcpy_correct:
  assumes "cstr m src xs" and "dst \<noteq> NULL" and "0 < n" and "unat dst + unat n \<le> 2 ^ 32"
    and "apart dst src (min (length xs) (unat n - 1))"
  shows "\<exists>m'. strlcpy dst src n m = Some (of_nat (length xs), m') \<and> cstr m' dst (take (unat n - 1) xs) \<and>
    (\<forall>a :: addr. unat a < unat dst \<or> unat dst + unat n \<le> unat a \<longrightarrow> m' a = m a)"
proof -
  let ?k = "min (length xs) (unat n - 1)"
  have n: "0 < unat n" using assms(3) by (simp add: unat_gt_0)
  have l: "unat (of_nat (length xs) :: u32) = length xs" using cstrD(2) [OF assms(1)] by (simp add: unat_of_nat)
  have n1: "unat (n - 1) = unat n - 1" using n by (simp add: unat_minus_1 unat_gt_0)
  let ?d = "if of_nat (length xs) < n - 1 then of_nat (length xs) else n - 1"
  have d: "unat ?d = ?k" "?d = of_nat ?k"
  proof -
    show "unat ?d = ?k" using l n1 by (simp add: word_less_nat_alt)
    then show "?d = of_nat ?k" by (rule eq_of_nat)
  qed
  have k: "unat dst + ?k < 2 ^ 32" using assms(4) n by auto
  have b: "block_at m src ?k = take (unat n - 1) xs" using block_at_cstr [OF assms(1), of 0 ?k] by (auto simp: min_def)
  let ?m = "(copied dst src ?k m)(dst + of_nat ?k := 0)"
  have "strlcpy dst src n m = Some (of_nat (length xs), ?m)"
    using assms d memcpy_ok [of dst src ?d m] by (simp add: strlcpy_def strlen_ok cstrD Let_def del: of_nat_min)
  moreover have "cstr ?m dst (take (unat n - 1) xs)"
    by (rule cstr_copied [OF assms(2) k b]) (use cstr_nonzero [OF assms(1)] in \<open>auto dest: in_set_takeD\<close>)
  moreover have "?m a = m a" if "unat a < unat dst \<or> unat dst + unat n \<le> unat a" for a :: addr
    by (rule copied_frame [OF k]) (use that n in auto)
  ultimately show ?thesis by blast
qed

text \<open>A string stays where nothing of it is written.\<close>

lemma cstr_cong:
  assumes "cstr m p xs" and "\<And>a. unat p \<le> unat a \<Longrightarrow> unat a \<le> unat p + length xs \<Longrightarrow> m' a = m a"
  shows "cstr m' p xs"
proof -
  have *: "m' (p + of_nat i) = m (p + of_nat i)" if "i \<le> length xs" for i
    by (rule assms(2)) (use unat_cstr_ofs [OF assms(1) that] that in simp_all)
  have "block_at m' p (length xs) = block_at m p (length xs)" by (rule block_at_cong) (simp add: *)
  then show ?thesis using assms(1) * [of "length xs"] by (simp add: cstr_conv)
qed

lemma strlcat_ok [string_simps]:
  assumes "cstr m src xs" and "cstr m dst ys" and "length ys < unat n" and "unat dst + unat n \<le> 2 ^ 32"
    and "apart (dst + of_nat (length ys)) src (min (length xs) (unat n - length ys - 1))"
  shows "\<exists>m'. strlcat dst src n m = Some (of_nat (length xs) + of_nat (length ys), m') \<and>
    cstr m' dst (ys @ take (unat n - length ys - 1) xs) \<and>
    (\<forall>a :: addr. unat a < unat dst + length ys \<or> unat dst + unat n \<le> unat a \<longrightarrow> m' a = m a)"
proof -
  let ?y = "of_nat (length ys) :: u32" and ?k = "min (length xs) (unat n - length ys - 1)"
  let ?p = "dst + of_nat (length ys)"
  have l: "unat (of_nat (length xs) :: u32) = length xs" "unat ?y = length ys"
    using cstrD(2) [OF assms(1)] cstrD(2) [OF assms(2)] by (simp_all add: unat_of_nat)
  have ly: "?y < n" using assms(3) l by (simp add: word_less_nat_alt)
  then have "unat (n - ?y) = unat n - length ys" using l by (simp add: unat_sub)
  then have n1: "unat (n - ?y - 1) = unat n - length ys - 1" using ly by (simp add: unat_minus_1)
  let ?d = "if of_nat (length xs) < n - ?y - 1 then of_nat (length xs) else n - ?y - 1"
  have d: "unat ?d = ?k" using l n1 by (simp add: word_less_nat_alt)
  have d': "?d = of_nat ?k" by (rule eq_of_nat [OF d])
  have p: "unat ?p = unat dst + length ys" by (rule unat_cstr_ofs [OF assms(2)]) simp
  then have p0: "?p \<noteq> NULL" using cstrD(1) [OF assms(2)] by (metis add_eq_0_iff_both_eq_0 unat_0 unat_eq_zero)
  have k: "unat ?p + ?k < 2 ^ 32" using assms(3,4) p by auto
  have b: "block_at m src ?k = take (unat n - length ys - 1) xs" using block_at_cstr [OF assms(1), of 0 ?k] by (auto simp: min_def)
  let ?m = "(copied ?p src ?k m)(?p + of_nat ?k := 0)"
  have "strlcat dst src n m = Some (of_nat (length xs) + ?y, ?m)"
    using assms d d' p0 ly memcpy_ok [of ?p src ?d m]
    by (auto simp: strlcat_def strlen_ok cstrD Let_def add.assoc word_gt_0 simp del: of_nat_min)
  moreover have c: "cstr ?m ?p (take (unat n - length ys - 1) xs)"
    by (rule cstr_copied [OF p0 k b]) (use cstr_nonzero [OF assms(1)] in \<open>auto dest: in_set_takeD\<close>)
  moreover have f: "?m a = m a" if "unat a < unat dst + length ys \<or> unat dst + unat n \<le> unat a" for a :: addr
    by (rule copied_frame [OF k]) (use that p assms(3) in auto)
  moreover have "cstr ?m dst (ys @ take (unat n - length ys - 1) xs)"
  proof -
    have "block_at ?m dst (length ys) = ys"
    proof (rule nth_equalityI)
      fix i assume "i < length (block_at ?m dst (length ys))"
      then have i: "i < length ys" by simp
      have "?m (dst + of_nat i) = m (dst + of_nat i)" by (rule f) (use unat_cstr_ofs [OF assms(2), of i] i in simp)
      then show "block_at ?m dst (length ys) ! i = ys ! i" using i cstr_nth [OF assms(2) i] by (simp only: nth_block_at)
    qed simp
    moreover have "block_at ?m dst (length ys + j) = block_at ?m dst (length ys) @ block_at ?m ?p j" for j
      by (rule nth_equalityI) (auto simp: nth_block_at nth_append add.assoc simp del: fun_upd_apply)
    ultimately show ?thesis using c assms(2) p unfolding cstr_conv [of ?m] cstr_conv [of m dst]
      by (simp add: add.assoc del: fun_upd_apply)
  qed
  ultimately show ?thesis by blast
qed

section \<open>Tokens\<close>

text \<open>The maximal substrings without delimiters, in order.\<close>

function tokens :: "u8 set \<Rightarrow> u8 list \<Rightarrow> u8 list list" where
  "tokens D xs = (let ys = dropWhile (\<lambda>x. x \<in> D) xs
     in if ys = [] then [] else takeWhile (\<lambda>x. x \<notin> D) ys # tokens D (tl (dropWhile (\<lambda>x. x \<notin> D) ys)))"
  by pat_completeness auto
termination
proof (relation "measure (\<lambda>(D, xs). length xs)")
  fix D :: "u8 set" and xs ys
  assume ys: "ys = dropWhile (\<lambda>x. x \<in> D) xs" "ys \<noteq> []"
  then have "0 < length ys" by blast
  moreover have "length ys \<le> length xs" "length (dropWhile (\<lambda>x. x \<notin> D) ys) \<le> length ys"
    unfolding ys(1) by (rule length_dropWhile_le)+
  ultimately show "((D, tl (dropWhile (\<lambda>x. x \<notin> D) ys)), (D, xs)) \<in> measure (\<lambda>(D, xs). length xs)"
    by (simp del: length_greater_0_conv)
qed simp

declare tokens.simps [simp del]

lemma skip_delimiters_ok:
  "cstr m d ds \<Longrightarrow> cstr m s xs \<Longrightarrow>
     skip_delimiters s d m = Some (dropWhile (\<lambda>x. x \<in> set ds) xs \<noteq> [], s + of_nat (length (takeWhile (\<lambda>x. x \<in> set ds) xs)))"
proof (induction xs arbitrary: s)
  case Nil
  then show ?case using strchr_found [OF Nil.prems(1), of 0] by (auto simp: skip_delimiters.simps [of s])
next
  case (Cons x xs)
  note c = cstr_ConsD [OF Cons.prems(2)]
  obtain r where r: "strchr d x m = Some r" "r \<noteq> NULL \<longleftrightarrow> x \<in> set ds" using strchr_found [OF Cons.prems(1), of x] c(3) by auto
  then show ?case using c(2,3) Cons.IH [OF Cons.prems(1) c(4)] by (auto simp: skip_delimiters.simps [of s] add.assoc)
qed

lemma skip_token_ok:
  "cstr m d ds \<Longrightarrow> cstr m s xs \<Longrightarrow> skip_token s d m = Some (s + of_nat (length (takeWhile (\<lambda>x. x \<notin> set ds) xs)))"
proof (induction xs arbitrary: s)
  case Nil
  then show ?case using strchr_found [OF Nil.prems(1), of 0] by (auto simp: skip_token.simps [of s])
next
  case (Cons x xs)
  note c = cstr_ConsD [OF Cons.prems(2)]
  obtain r where r: "strchr d x m = Some r" "r \<noteq> NULL \<longleftrightarrow> x \<in> set ds" using strchr_found [OF Cons.prems(1), of x] c(3) by auto
  then show ?case using c(2,3) Cons.IH [OF Cons.prems(1) c(4)] by (auto simp: skip_token.simps [of s] add.assoc)
qed

lemma tokens_step:
  assumes "set u \<subseteq> D" and "set t \<inter> D = {}" and "t \<noteq> []" and "zs = [] \<or> hd zs \<in> D"
  shows "tokens D (u @ t @ zs) = t # tokens D (tl zs)"
proof -
  have "dropWhile (\<lambda>x. x \<in> D) (t @ zs) = t @ zs" using assms(2,3) by (cases t) auto
  moreover have "dropWhile (\<lambda>x. x \<in> D) (u @ t @ zs) = dropWhile (\<lambda>x. x \<in> D) (t @ zs)"
    using assms(1) by (intro dropWhile_append2) auto
  moreover have "\<And>x. x \<in> set t \<Longrightarrow> x \<notin> D" using assms(2) by blast
  then have "takeWhile (\<lambda>x. x \<notin> D) (t @ zs) = t @ takeWhile (\<lambda>x. x \<notin> D) zs" "dropWhile (\<lambda>x. x \<notin> D) (t @ zs) = dropWhile (\<lambda>x. x \<notin> D) zs"
    by (simp_all add: takeWhile_append2 dropWhile_append2)
  moreover have "takeWhile (\<lambda>x. x \<notin> D) zs = []" "dropWhile (\<lambda>x. x \<notin> D) zs = zs" using assms(4) by (cases zs; auto)+
  ultimately show ?thesis using assms(3) by (subst tokens.simps) simp
qed

lemma split_token:
  obtains "set xs \<subseteq> D" "tokens D xs = []"
  | u t zs where "xs = u @ t @ zs" "set u \<subseteq> D" "set t \<inter> D = {}" "t \<noteq> []" "zs = [] \<or> hd zs \<in> D"
    "tokens D xs = t # tokens D (tl zs)"
proof (cases "set xs \<subseteq> D")
  case True
  then have "dropWhile (\<lambda>x. x \<in> D) xs = []" by auto
  then have "tokens D xs = []" by (subst tokens.simps) simp
  then show ?thesis using True that(1) by blast
next
  case False
  define ys where "ys = dropWhile (\<lambda>x. x \<in> D) xs"
  have ys: "ys \<noteq> []" "hd ys \<notin> D" using False hd_dropWhile [of "\<lambda>x. x \<in> D" xs] unfolding ys_def by auto
  let ?t = "takeWhile (\<lambda>x. x \<notin> D) ys" and ?z = "dropWhile (\<lambda>x. x \<notin> D) ys" and ?u = "takeWhile (\<lambda>x. x \<in> D) xs"
  have x: "xs = ?u @ ?t @ ?z" by (simp add: ys_def)
  have p: "set ?u \<subseteq> D" "set ?t \<inter> D = {}" "?t \<noteq> []" "?z = [] \<or> hd ?z \<in> D"
    using ys hd_dropWhile [of "\<lambda>x. x \<notin> D" ys] by (auto dest: set_takeWhileD) (cases ys; simp)
  show ?thesis by (rule that(2) [OF x p]) (subst x, rule tokens_step [OF p])
qed

text \<open>One call: the token is a string of its own, the rest follows at the saved position, and nothing outside
  the bytes of the string is written.\<close>

lemma strtok_r_token:
  assumes d: "cstr m d ds" and s: "cstr m s (u @ t @ zs)"
    and apart: "unat s + length (u @ t @ zs) < unat d \<or> unat d + length ds < unat s"
    and start: "(if a = NULL then save else a) = s"
    and u: "set u \<subseteq> set ds" and t: "set t \<inter> set ds = {}" "t \<noteq> []" and z: "zs = [] \<or> hd zs \<in> set ds"
  shows "\<exists>p save' m'. strtok_r a d save m = Some (p, save', m') \<and> p \<noteq> NULL \<and> cstr m' p t \<and> cstr m' save' (tl zs) \<and> cstr m' d ds \<and>
    unat s \<le> unat p \<and> unat save' + length (tl zs) \<le> unat s + length (u @ t @ zs) \<and>
    unat p + length t + (if zs = [] then 0 else 1) = unat save' \<and>
    (\<forall>b :: addr. unat b < unat s \<or> unat s + length (u @ t @ zs) \<le> unat b \<longrightarrow> m' b = m b)"
proof -
  define p where "p = s + of_nat (length u)"
  define e where "e = p + of_nat (length t)"
  have ct: "cstr m p (t @ zs)" using cstr_appendD [OF s] by (simp add: p_def)
  have cz: "cstr m e zs" using cstr_appendD [OF ct] by (simp add: e_def)
  have p: "unat p = unat s + length u" using unat_cstr_ofs [OF s, of "length u"] by (simp add: p_def)
  have e: "unat e = unat p + length t" using unat_cstr_ofs [OF ct, of "length t"] by (simp add: e_def)
  have p0: "p \<noteq> NULL" by (rule cstrD(1) [OF ct])
  have tz: "takeWhile (\<lambda>x. x \<in> set ds) (u @ t @ zs) = u" "dropWhile (\<lambda>x. x \<in> set ds) (u @ t @ zs) \<noteq> []"
    "takeWhile (\<lambda>x. x \<notin> set ds) (t @ zs) = t"
    using u t z by (auto simp: takeWhile_append subset_iff disjoint_iff) (cases t; cases zs; auto)+
  have skip: "skip_delimiters s d m = Some (True, p)" using skip_delimiters_ok [OF d s] tz(1,2) by (simp add: p_def)
  have tok: "skip_token p d m = Some e" using skip_token_ok [OF d ct] tz(3) by (simp add: e_def)
  note s0 = cstrD(1) [OF s] and d0 = cstrD(1) [OF d]
  have bt: "block_at m p (length t) = t" using block_at_cstr [OF ct, of 0 "length t"] by simp
  have nt: "0 \<notin> set t" using cstr_nonzero [OF ct] by simp
  show ?thesis
  proof (cases zs)
    case Nil
    have "strtok_r a d save m = Some (p, e, m)" using skip tok s0 d0 start cz Nil by (simp add: strtok_r_def Let_def)
    then show ?thesis using p0 ct cz d p e Nil by auto
  next
    case (Cons y ys)
    note c = cstr_ConsD [OF cz [unfolded Cons]]
    let ?m = "m(e := 0)"
    have 1: "strtok_r a d save m = Some (p, e + 1, ?m)"
      using skip tok s0 d0 start c(2,3) by (simp add: strtok_r_def Let_def)
    have "block_at ?m p (length t) = block_at m p (length t)"
    proof (rule block_at_cong)
      fix i assume "i < length t"
      then have "unat (p + of_nat i) < unat e" using unat_cstr_ofs [OF ct, of i] e by simp
      then show "?m (p + of_nat i) = m (p + of_nat i)" by auto
    qed
    then have 2: "cstr ?m p t" using p0 cstrD(2) [OF ct] bt nt by (simp add: cstr_conv flip: e_def)
    have 3: "cstr ?m (e + 1) (tl zs)" unfolding Cons list.sel by (rule cstr_cong [OF c(4)]) (use c(5) in auto)
    have 4: "cstr ?m d ds" by (rule cstr_cong [OF d]) (use apart e p Cons in auto)
    have 5: "?m b = m b" if "unat b < unat s \<or> unat s + length (u @ t @ zs) \<le> unat b" for b :: addr
      using that e p Cons by auto
    have 6: "unat s \<le> unat p" "unat (e + 1) + length (tl zs) \<le> unat s + length (u @ t @ zs)"
      "unat p + length t + (if zs = [] then 0 else 1) = unat (e + 1)" using p e Cons c(5) by auto
    show ?thesis using 1 2 3 4 5 6 p0 by blast
  qed
qed

lemma strtok_r_end:
  assumes "cstr m d ds" and "cstr m s xs" and "(if a = NULL then save else a) = s" and "set xs \<subseteq> set ds"
  shows "\<exists>save'. strtok_r a d save m = Some (NULL, save', m)"
proof -
  have "dropWhile (\<lambda>x. x \<in> set ds) xs = []" using assms(4) by auto
  then show ?thesis using skip_delimiters_ok [OF assms(1,2)] assms(3) cstrD(1) [OF assms(1)] cstrD(1) [OF assms(2)]
    by (simp add: strtok_r_def Let_def)
qed

text \<open>C23: calling \<^verbatim>\<open>strtok_r\<close> until it returns null, as its comment shows, ends and yields strings that are exactly
  the maximal substrings without delimiters, in order; only bytes of the string are changed.\<close>

theorem strtok_r_tokens:
  assumes "cstr m d ds" and "cstr m s xs" and "unat s + length xs < unat d \<or> unat d + length ds < unat s"
    and "(if a = NULL then save else a) = s"
  shows "\<exists>ts m'. strtok_all a d save m = Some (ts, m') \<and> list_all2 (cstr m') ts (tokens (set ds) xs) \<and>
    (\<forall>b :: addr. unat b < unat s \<or> unat s + length xs \<le> unat b \<longrightarrow> m' b = m b)"
  using assms
proof (induction "length xs" arbitrary: xs s a save m rule: less_induct)
  case less
  note d = less.prems(1) and s = less.prems(2)
  show ?case
  proof (cases rule: split_token [of xs "set ds"])
    case 1
    then obtain save' where "strtok_r a d save m = Some (NULL, save', m)" using strtok_r_end [OF d s less.prems(4)] by blast
    then show ?thesis using 1(2) by (simp add: strtok_all.simps [of a])
  next
    case (2 u t zs)
    obtain p save' m1 where r: "strtok_r a d save m = Some (p, save', m1)" "p \<noteq> NULL" "cstr m1 p t" "cstr m1 save' (tl zs)" "cstr m1 d ds"
      "unat s \<le> unat p" "unat save' + length (tl zs) \<le> unat s + length xs"
      "unat p + length t + (if zs = [] then 0 else 1) = unat save'"
      "\<forall>b :: addr. unat b < unat s \<or> unat s + length xs \<le> unat b \<longrightarrow> m1 b = m b"
      using strtok_r_token [OF d s [unfolded 2(1)] less.prems(3) [unfolded 2(1)] less.prems(4) 2(2-5)] unfolding 2(1) by blast
    have len: "length (tl zs) < length xs" using 2(1,4) by (cases t) simp_all
    have ap: "unat save' + length (tl zs) < unat d \<or> unat d + length ds < unat save'" using less.prems(3) r(6-8) by linarith
    obtain ts m2 where ts: "strtok_all NULL d save' m1 = Some (ts, m2)" "list_all2 (cstr m2) ts (tokens (set ds) (tl zs))"
      "\<forall>b :: addr. unat b < unat save' \<or> unat save' + length (tl zs) \<le> unat b \<longrightarrow> m2 b = m1 b"
      using less.hyps [OF len r(5,4) ap, of NULL save'] by auto
    have "cstr m2 p t"
    proof (rule cstr_cong [OF r(3)])
      fix b :: addr assume b: "unat p \<le> unat b" "unat b \<le> unat p + length t"
      show "m2 b = m1 b" by (rule ts(3) [rule_format]) (use b r(8) in \<open>cases "zs = []"; auto\<close>)
    qed
    moreover have "m2 b = m b" if "unat b < unat s \<or> unat s + length xs \<le> unat b" for b :: addr
    proof -
      have "m2 b = m1 b" by (rule ts(3) [rule_format]) (use that r(6-8) in linarith)
      then show ?thesis using r(9) that by simp
    qed
    ultimately show ?thesis using r(1,2) ts(1,2) 2(6) by (simp add: strtok_all.simps [of a])
  qed
qed

section \<open>Demonstration\<close>

text \<open>A memory with a string, its copy target, and a string of delimiters.\<close>

definition demo_text :: "u8 list" where
  "demo_text = [32, 97, 98, 32, 32, 99]"

definition demo_bytes :: bytes where
  "demo_bytes = (\<lambda>a. if unat a < 100 \<or> 106 \<le> unat a then (if a = 200 then 32 else 0) else demo_text ! (unat a - 100))"

lemma demo_cstr: "cstr demo_bytes 100 demo_text" "cstr demo_bytes 200 [32]"
  by (simp_all add: cstr_def demo_bytes_def demo_text_def)

theorem memmove_overlap_witness:
  "\<exists>m'. memmove 101 100 6 demo_bytes = Some (if (101 :: addr) < 100 then 101 + 6 else 101, m') \<and>
    block_at m' 101 (unat (6 :: u32)) = block_at demo_bytes 100 (unat (6 :: u32)) \<and>
    (\<forall>a :: addr. unat a < unat (101 :: addr) \<or> unat (101 :: addr) + unat (6 :: u32) \<le> unat a \<longrightarrow> m' a = demo_bytes a)"
  by (rule memmove_overlap) simp_all

theorem strlcpy_correct_witness:
  "\<exists>m'. strlcpy 300 100 4 demo_bytes = Some (of_nat (length demo_text), m') \<and> cstr m' 300 (take (unat (4 :: u32) - 1) demo_text) \<and>
    (\<forall>a :: addr. unat a < unat (300 :: addr) \<or> unat (300 :: addr) + unat (4 :: u32) \<le> unat a \<longrightarrow> m' a = demo_bytes a)"
proof (rule strlcpy_correct [OF demo_cstr(1)])
  show "apart 300 100 (min (length demo_text) (unat (4 :: u32) - 1))"
    by (rule apartI) (simp_all add: demo_text_def)
qed simp_all

theorem strtok_r_tokens_witness:
  "tokens (set [32]) demo_text = [[97, 98], [99]] \<and>
   (\<exists>ts m'. strtok_all 100 200 0 demo_bytes = Some (ts, m') \<and> list_all2 (cstr m') ts (tokens (set [32]) demo_text) \<and>
    (\<forall>b :: addr. unat b < unat (100 :: addr) \<or> unat (100 :: addr) + length demo_text \<le> unat b \<longrightarrow> m' b = demo_bytes b))"
proof
  show "tokens (set [32]) demo_text = [[97, 98], [99]]" by (simp add: tokens.simps demo_text_def)
  show "\<exists>ts m'. strtok_all 100 200 0 demo_bytes = Some (ts, m') \<and> list_all2 (cstr m') ts (tokens (set [32]) demo_text) \<and>
    (\<forall>b :: addr. unat b < unat (100 :: addr) \<or> unat (100 :: addr) + length demo_text \<le> unat b \<longrightarrow> m' b = demo_bytes b)"
    by (rule strtok_r_tokens [OF demo_cstr(2,1)]) (simp_all add: demo_text_def)
qed

lemma block_at_add: "block_at m p (a + b) = block_at m p a @ block_at m (p + of_nat a) b"
  by (induction a arbitrary: p) (simp_all add: add_ac)

lemma block_at_concat: "block_at m p (c * n) = concat (map (\<lambda>k. block_at m (p + of_nat (c * k)) c) [0..<n])"
  by (induction n) (simp_all add: block_at_add add.commute [of c])

lemma put_append:
  assumes "length xs + length ys < 2 ^ 32"
  shows "put (put m p xs) (p + of_nat (length xs)) ys = put m p (xs @ ys)"
proof
  fix a
  let ?d = "unat (a - p)" and ?L = "of_nat (length xs) :: u32"
  have L: "unat ?L = length xs" by (rule unat_of_nat32) (use assms in simp)
  have e: "a - (p + ?L) = (a - p) - ?L" by simp
  show "put (put m p xs) (p + ?L) ys a = put m p (xs @ ys) a"
  proof (cases "length xs \<le> ?d")
    case True
    then have "unat (a - (p + ?L)) = ?d - length xs" unfolding e using L by (simp add: unat_sub word_le_nat_alt)
    then show ?thesis using True by (auto simp: put_def nth_append)
  next
    case False
    have "\<not> unat (a - (p + ?L)) < length ys"
    proof
      assume l: "unat (a - (p + ?L)) < length ys"
      have "unat (a - (p + ?L) + ?L) = unat (a - (p + ?L)) + length xs" by (rule unat_ofs) (use l assms in simp)
      then show False using False by simp
    qed
    then show ?thesis using False by (simp add: put_def nth_append)
  qed
qed

end
