(* ===== verification/KStdlib.thy ===== *)
theory KStdlib
  imports KString
begin

text \<open>
  \<^verbatim>\<open>lib/ctype.h\<close> and \<^verbatim>\<open>lib/stdlib.c\<close>: character classes, \<^verbatim>\<open>atoi\<close>, the heap sort behind
  \<^verbatim>\<open>qsort\<close> and the binary search, on arrays of elements of any size in the bytes of the memory.  A
  comparison function of the source takes the addresses of two elements; here it also takes the memory it
  reads them from.  Locale \<open>comparison\<close> is what the comments require of it.
\<close>

section \<open>Character classes\<close>

definition islower :: "int \<Rightarrow> bool" where "islower c \<longleftrightarrow> 97 \<le> c \<and> c \<le> 122"
definition isupper :: "int \<Rightarrow> bool" where "isupper c \<longleftrightarrow> 65 \<le> c \<and> c \<le> 90"
definition isalpha :: "int \<Rightarrow> bool" where "isalpha c \<longleftrightarrow> islower c \<or> isupper c"
definition isdigit :: "int \<Rightarrow> bool" where "isdigit c \<longleftrightarrow> 48 \<le> c \<and> c \<le> 57"
definition isalnum :: "int \<Rightarrow> bool" where "isalnum c \<longleftrightarrow> isalpha c \<or> isdigit c"
definition isxdigit :: "int \<Rightarrow> bool" where
  "isxdigit c \<longleftrightarrow> isdigit c \<or> 97 \<le> c \<and> c \<le> 102 \<or> 65 \<le> c \<and> c \<le> 70"
definition isspace :: "int \<Rightarrow> bool" where
  "isspace c \<longleftrightarrow> c = 32 \<or> c = 12 \<or> c = 10 \<or> c = 13 \<or> c = 9 \<or> c = 11"
definition isblank :: "int \<Rightarrow> bool" where "isblank c \<longleftrightarrow> c = 32 \<or> c = 9"
definition isgraph :: "int \<Rightarrow> bool" where "isgraph c \<longleftrightarrow> 32 < c \<and> c < 127"
definition isprint :: "int \<Rightarrow> bool" where "isprint c \<longleftrightarrow> 32 \<le> c \<and> c < 127"
definition iscntrl :: "int \<Rightarrow> bool" where "iscntrl c \<longleftrightarrow> 0 \<le> c \<and> c < 32 \<or> c = 127"
definition isascii :: "int \<Rightarrow> bool" where "isascii c \<longleftrightarrow> 0 \<le> c \<and> c < 128"
definition ispunct :: "int \<Rightarrow> bool" where "ispunct c \<longleftrightarrow> isprint c \<and> \<not> isalnum c \<and> \<not> isspace c"
definition tolower :: "int \<Rightarrow> int" where "tolower c = (if isupper c then c - 65 + 97 else c)"
definition toupper :: "int \<Rightarrow> int" where "toupper c = (if islower c then c - 97 + 65 else c)"

section \<open>Decimal numbers\<close>

text \<open>A byte of the memory read as \<^verbatim>\<open>char\<close> is signed.\<close>

partial_function (option) atoi_space :: "addr \<Rightarrow> bytes \<Rightarrow> addr option" where
  [code]: "atoi_space s m = (if isspace (uint (m s)) then atoi_space (s + 1) m else Some s)"

partial_function (option) atoi_digits :: "addr \<Rightarrow> int \<Rightarrow> bytes \<Rightarrow> int option" where
  [code]: "atoi_digits s v m =
     (if isdigit (sint (m s)) then atoi_digits (s + 1) (s32 (s32 (v * 10) - (sint (m s) - 48))) m else Some v)"

definition atoi :: "addr \<Rightarrow> bytes \<Rightarrow> int option" where
  "atoi s m = do {
     ASSERT (s \<noteq> NULL);
     s \<leftarrow> atoi_space s m;
     let negative = (m s = 45);
     let s = (if m s = 43 \<or> m s = 45 then s + 1 else s);
     v \<leftarrow> atoi_digits s 0 m;
     Some (if negative then v else s32 (- v))
   }"

section \<open>Sorting and searching\<close>

type_synonym compare_func = "addr \<Rightarrow> addr \<Rightarrow> bytes \<Rightarrow> int"

fun swap_loop :: "nat \<Rightarrow> u32 \<Rightarrow> addr \<Rightarrow> addr \<Rightarrow> bytes \<Rightarrow> bytes" where
  "swap_loop 0 i a b m = m"
| "swap_loop (Suc n) i a b m =
     (let t = m (a + i); m = m(a + i := m (b + i)) in swap_loop n (i + 1) a b (m(b + i := t)))"

definition do_swap :: "addr \<Rightarrow> u32 \<Rightarrow> u32 \<Rightarrow> u32 \<Rightarrow> bytes \<Rightarrow> bytes" where
  "do_swap array a_idx b_idx sz m =
     (let a = array + (a_idx - 1) * sz; b = array + (b_idx - 1) * sz in swap_loop (unat sz) 0 a b m)"

definition do_compare :: "addr \<Rightarrow> u32 \<Rightarrow> u32 \<Rightarrow> u32 \<Rightarrow> compare_func \<Rightarrow> bytes \<Rightarrow> int" where
  "do_compare array a_idx b_idx sz compare m =
     compare (array + (a_idx - 1) * sz) (array + (b_idx - 1) * sz) m"

partial_function (option) heapify :: "addr \<Rightarrow> u32 \<Rightarrow> u32 \<Rightarrow> u32 \<Rightarrow> compare_func \<Rightarrow> bytes \<Rightarrow> bytes option" where
  [code]: "heapify array i cnt sz compare m =
     (let left = 2 * i; right = 2 * i + 1; mx = i;
          mx = (if left \<le> cnt \<and> 0 < do_compare array left mx sz compare m then left else mx);
          mx = (if right \<le> cnt \<and> 0 < do_compare array right mx sz compare m then right else mx)
      in if mx = i then Some m
         else heapify array mx cnt sz compare (do_swap array i mx sz m))"

fun build_loop :: "nat \<Rightarrow> addr \<Rightarrow> u32 \<Rightarrow> u32 \<Rightarrow> compare_func \<Rightarrow> bytes \<Rightarrow> bytes option" where
  "build_loop 0 array cnt sz compare m = Some m"
| "build_loop (Suc i) array cnt sz compare m = do {
     m \<leftarrow> heapify array (of_nat (Suc i)) cnt sz compare m;
     build_loop i array cnt sz compare m
   }"

fun extract_loop :: "nat \<Rightarrow> addr \<Rightarrow> u32 \<Rightarrow> compare_func \<Rightarrow> bytes \<Rightarrow> bytes option" where
  "extract_loop i array sz compare m =
     (if 1 < i then do {
        let m = do_swap array 1 (of_nat i) sz m;
        m \<leftarrow> heapify array 1 (of_nat i - 1) sz compare m;
        extract_loop (i - 1) array sz compare m
      }
      else Some m)"

definition ksort :: "addr \<Rightarrow> u32 \<Rightarrow> u32 \<Rightarrow> compare_func \<Rightarrow> bytes \<Rightarrow> bytes option" where
  "ksort array cnt sz compare m = do {
     ASSERT (array \<noteq> NULL \<or> cnt = 0);
     ASSERT (sz > 0);
     m \<leftarrow> build_loop (unat (cnt div 2)) array cnt sz compare m;
     extract_loop (unat cnt) array sz compare m
   }"

text \<open>\<^verbatim>\<open>compare_thunk\<close> calls the function that \<^verbatim>\<open>AUX\<close> points to.\<close>

definition compare_thunk :: "compare_func \<Rightarrow> compare_func" where
  "compare_thunk aux a b m = aux a b m"

definition qsort :: "addr \<Rightarrow> u32 \<Rightarrow> u32 \<Rightarrow> compare_func \<Rightarrow> bytes \<Rightarrow> bytes option" where
  "qsort array cnt sz compare m = ksort array cnt sz (compare_thunk compare) m"

partial_function (option) search_loop :: "addr \<Rightarrow> addr \<Rightarrow> addr \<Rightarrow> u32 \<Rightarrow> compare_func \<Rightarrow> bytes \<Rightarrow> addr option" where
  [code]: "search_loop key first lst sz compare m =
     (if first < lst then
        let range = (lst - first) div sz; middle = first + (range div 2) * sz; cmp = compare key middle m
        in if cmp < 0 then search_loop key first middle sz compare m
           else if 0 < cmp then search_loop key (middle + sz) lst sz compare m
           else Some middle
      else Some NULL)"

definition binary_search :: "addr \<Rightarrow> addr \<Rightarrow> u32 \<Rightarrow> u32 \<Rightarrow> compare_func \<Rightarrow> bytes \<Rightarrow> addr option" where
  "binary_search key array cnt sz compare m = search_loop key array (array + sz * cnt) sz compare m"

definition bsearch :: "addr \<Rightarrow> addr \<Rightarrow> u32 \<Rightarrow> u32 \<Rightarrow> compare_func \<Rightarrow> bytes \<Rightarrow> addr option" where
  "bsearch key array cnt sz compare m = binary_search key array cnt sz (compare_thunk compare) m"

section \<open>Comparison functions\<close>

text \<open>What the comments of \<^verbatim>\<open>qsort\<close> and \<^verbatim>\<open>bsearch\<close> require of \<^verbatim>\<open>COMPARE\<close>: the sign of the result orders the elements.\<close>

locale comparison =
  fixes c :: "'a \<Rightarrow> 'a \<Rightarrow> int"
  assumes flip: "0 < c x y \<longleftrightarrow> c y x < 0"
    and trans: "c x y \<le> 0 \<Longrightarrow> c y z \<le> 0 \<Longrightarrow> c x z \<le> 0"
begin

lemma refl [simp]: "c x x \<le> 0"
  using flip [of x x] by linarith

lemma linear: "\<not> c x y \<le> 0 \<Longrightarrow> c y x \<le> 0"
  using flip [of x y] by simp

end

section \<open>Heaps in lists\<close>

text \<open>Positions count from one, as in the source: the children of \<open>i\<close> are \<open>2 * i\<close> and \<open>2 * i + 1\<close>.\<close>

definition el :: "'a list \<Rightarrow> nat \<Rightarrow> 'a" where
  "el xs i = xs ! (i - 1)"

definition lswap :: "'a list \<Rightarrow> nat \<Rightarrow> nat \<Rightarrow> 'a list" where
  "lswap xs a b = xs[a - 1 := el xs b, b - 1 := el xs a]"

text \<open>Among the first \<open>n\<close> elements, every position from \<open>k\<close> on is at least its children; with an exception at
  \<open>i\<close>, whose children still fit below its parent.\<close>

definition heap_from :: "('a \<Rightarrow> 'a \<Rightarrow> int) \<Rightarrow> 'a list \<Rightarrow> nat \<Rightarrow> nat \<Rightarrow> bool" where
  "heap_from c xs n k \<longleftrightarrow> (\<forall>j. 2 \<le> j \<and> j \<le> n \<and> k \<le> j div 2 \<longrightarrow> c (el xs j) (el xs (j div 2)) \<le> 0)"

definition heap_except :: "('a \<Rightarrow> 'a \<Rightarrow> int) \<Rightarrow> 'a list \<Rightarrow> nat \<Rightarrow> nat \<Rightarrow> nat \<Rightarrow> bool" where
  "heap_except c xs n k i \<longleftrightarrow>
     (\<forall>j. 2 \<le> j \<and> j \<le> n \<and> k \<le> j div 2 \<and> j div 2 \<noteq> i \<longrightarrow> c (el xs j) (el xs (j div 2)) \<le> 0) \<and>
     (\<forall>j. 2 \<le> i \<and> j \<le> n \<and> j div 2 = i \<and> k \<le> i div 2 \<longrightarrow> c (el xs j) (el xs (i div 2)) \<le> 0)"

definition largest :: "('a \<Rightarrow> 'a \<Rightarrow> int) \<Rightarrow> 'a list \<Rightarrow> nat \<Rightarrow> nat \<Rightarrow> nat" where
  "largest c xs i n =
     (let mx = (if 2 * i \<le> n \<and> 0 < c (el xs (2 * i)) (el xs i) then 2 * i else i)
      in if 2 * i + 1 \<le> n \<and> 0 < c (el xs (2 * i + 1)) (el xs mx) then 2 * i + 1 else mx)"

lemma length_lswap [simp]: "length (lswap xs a b) = length xs"
  by (simp add: lswap_def)

lemma el_lswap:
  "1 \<le> a \<Longrightarrow> a \<le> length xs \<Longrightarrow> 1 \<le> b \<Longrightarrow> b \<le> length xs \<Longrightarrow> 1 \<le> j \<Longrightarrow> j \<le> length xs \<Longrightarrow>
     el (lswap xs a b) j = (if j = b then el xs a else if j = a then el xs b else el xs j)"
  by (auto simp: el_def lswap_def nth_list_update)

lemma mset_lswap [simp]: "1 \<le> a \<Longrightarrow> a \<le> length xs \<Longrightarrow> 1 \<le> b \<Longrightarrow> b \<le> length xs \<Longrightarrow> mset (lswap xs a b) = mset xs"
  unfolding lswap_def el_def by (rule mset_swap) auto

lemma drop_lswap [simp]: "a \<le> n \<Longrightarrow> b \<le> n \<Longrightarrow> 0 < a \<Longrightarrow> 0 < b \<Longrightarrow> drop n (lswap xs a b) = drop n xs"
  by (simp add: lswap_def)

lemma children: "j div 2 = i \<longleftrightarrow> j = 2 * i \<or> j = Suc (2 * i)" for i j :: nat
  by presburger

context comparison
begin

lemma largest_child:
  assumes "largest c xs i n \<noteq> i"
  shows "largest c xs i n div 2 = i" "largest c xs i n \<le> n"
  using assms by (auto simp: largest_def Let_def split: if_splits)

lemma largest_ge:
  assumes "j div 2 = i" and "j \<le> n"
  shows "c (el xs j) (el xs (largest c xs i n)) \<le> 0"
  using assms linear [of "el xs (2 * i)" "el xs i"] linear [of "el xs (2 * i + 1)" "el xs i"]
    linear [of "el xs (2 * i + 1)" "el xs (2 * i)"]
    trans [of "el xs (2 * i)" "el xs i" "el xs (2 * i + 1)"]
  unfolding children [of j] by (auto simp: largest_def Let_def not_less)

lemma largest_self:
  "c (el xs i) (el xs (largest c xs i n)) \<le> 0"
  using linear [of "el xs (2 * i)" "el xs i"] linear [of "el xs (2 * i + 1)" "el xs i"]
    linear [of "el xs (2 * i + 1)" "el xs (2 * i)"]
    trans [of "el xs i" "el xs (2 * i)" "el xs (2 * i + 1)"]
  by (auto simp: largest_def Let_def not_less)

lemma heap_stop: "heap_except c xs n k i \<Longrightarrow> largest c xs i n = i \<Longrightarrow> heap_from c xs n k"
  using largest_ge [of _ i n xs] unfolding heap_from_def heap_except_def by metis

lemma heap_down:
  assumes "heap_except c xs n k i" and "largest c xs i n = mx" and "mx \<noteq> i" and "1 \<le> i" and "k \<le> i" and "n \<le> length xs"
  shows "heap_except c (lswap xs i mx) n k mx"
proof -
  note h = assms(1) [unfolded heap_except_def]
  have mx: "mx div 2 = i" "mx \<le> n" using largest_child [of xs i n] assms(2,3) by auto
  then have im: "i < mx" "2 \<le> mx" using assms(4) by linarith+
  have e: "el (lswap xs i mx) j = (if j = mx then el xs i else if j = i then el xs mx else el xs j)" if "1 \<le> j" "j \<le> n" for j
    using that mx im assms(4,6) by (intro el_lswap) auto
  have one: "c (el (lswap xs i mx) j) (el (lswap xs i mx) (j div 2)) \<le> 0"
    if j: "2 \<le> j" "j \<le> n" "k \<le> j div 2" "j div 2 \<noteq> mx" for j
  proof -
    have p: "el (lswap xs i mx) (j div 2) = (if j div 2 = i then el xs mx else el xs (j div 2))" using e [of "j div 2"] j by auto
    consider "j = mx" | "j = i" | "j \<noteq> mx" "j \<noteq> i" "j div 2 = i" | "j \<noteq> mx" "j \<noteq> i" "j div 2 \<noteq> i" by blast
    then show ?thesis
    proof cases
      case 1 then show ?thesis using e [of j] p j mx largest_self [of xs i n] assms(2) by simp
    next
      case 2
      then have "c (el xs mx) (el xs (i div 2)) \<le> 0" using h j mx by blast
      then show ?thesis using 2 e [of j] p j im by simp
    next
      case 3 then show ?thesis using e [of j] p j largest_ge [of j i n xs] assms(2) by simp
    next
      case 4 then show ?thesis using e [of j] p j h by simp
    qed
  qed
  have two: "c (el (lswap xs i mx) j) (el (lswap xs i mx) (mx div 2)) \<le> 0"
    if j: "j \<le> n" "j div 2 = mx" "k \<le> mx div 2" for j
  proof -
    have "c (el xs j) (el xs mx) \<le> 0" using h j im assms(5) by auto
    then show ?thesis using e [of j] e [of i] j im mx assms(4) by auto
  qed
  show ?thesis unfolding heap_except_def using one two by blast
qed

lemma heap_start: "1 \<le> k \<Longrightarrow> heap_from c xs n (Suc k) \<Longrightarrow> heap_except c xs n k k"
  by (auto simp: heap_from_def heap_except_def)

lemma heap_leaves: "n div 2 < k \<Longrightarrow> heap_from c xs n k"
  using div_le_mono [of _ n 2] unfolding heap_from_def by (metis le_less_trans not_less)

lemma heap_root: "heap_from c xs n 1 \<Longrightarrow> 1 \<le> j \<Longrightarrow> j \<le> n \<Longrightarrow> c (el xs j) (el xs 1) \<le> 0"
proof (induction j rule: less_induct)
  case (less j)
  show ?case
  proof (cases "j = 1")
    case False
    then have j: "2 \<le> j" "j div 2 < j" "1 \<le> j div 2" "j div 2 \<le> n" using less.prems by auto
    then have "c (el xs j) (el xs (j div 2)) \<le> 0" using less.prems unfolding heap_from_def by blast
    then show ?thesis using less.IH [OF j(2) less.prems(1) j(3,4)] trans by blast
  qed simp
qed

end

section \<open>Arrays of elements\<close>

definition slot :: "addr \<Rightarrow> u32 \<Rightarrow> nat \<Rightarrow> addr" where
  "slot A sz k = A + of_nat k * sz"

definition elems :: "bytes \<Rightarrow> addr \<Rightarrow> u32 \<Rightarrow> nat \<Rightarrow> u8 list list" where
  "elems m A sz n = map (\<lambda>k. block_at m (slot A sz k) (unat sz)) [0..<n]"

definition array_ok :: "addr \<Rightarrow> u32 \<Rightarrow> nat \<Rightarrow> bool" where
  "array_ok A sz n \<longleftrightarrow> A \<noteq> NULL \<and> 0 < unat sz \<and> unat A + n * unat sz \<le> 2 ^ 32"

text \<open>Two memories agree outside the array.\<close>

definition only_array :: "addr \<Rightarrow> u32 \<Rightarrow> nat \<Rightarrow> bytes \<Rightarrow> bytes \<Rightarrow> bool" where
  "only_array A sz n m m' \<longleftrightarrow> (\<forall>a. unat a < unat A \<or> unat A + n * unat sz \<le> unat a \<longrightarrow> m' a = m a)"

lemma only_array_refl [simp]: "only_array A sz n m m"
  by (simp add: only_array_def)

lemma only_array_trans: "only_array A sz n m m1 \<Longrightarrow> only_array A sz n m1 m2 \<Longrightarrow> only_array A sz n m m2"
  by (simp add: only_array_def)

lemma length_elems [simp]: "length (elems m A sz n) = n"
  by (simp add: elems_def)

lemma el_elems: "1 \<le> i \<Longrightarrow> i \<le> n \<Longrightarrow> el (elems m A sz n) i = block_at m (slot A sz (i - 1)) (unat sz)"
  by (cases i) (auto simp: el_def elems_def)

lemma slot_offset_bound: "k < n \<Longrightarrow> i < s \<Longrightarrow> k * s + i < n * s" for k n i s :: nat
proof -
  assume "k < n" "i < s"
  then have "Suc k * s \<le> n * s" by (intro mult_le_mono1) simp
  then show ?thesis using \<open>i < s\<close> by simp
qed

lemma unat_slot:
  assumes "array_ok A sz n" and "k < n" and "i < unat sz"
  shows "unat (slot A sz k + of_nat i) = unat A + k * unat sz + i"
proof -
  have b: "unat A + (k * unat sz + i) < 2 ^ 32" using slot_offset_bound [OF assms(2,3)] assms(1) by (simp add: array_ok_def)
  have "slot A sz k + of_nat i = A + of_nat (k * unat sz + i)" by (simp add: slot_def add.assoc)
  then show ?thesis using unat_ofs [OF b] by (simp add: add.assoc)
qed

lemma slot_eq:
  assumes "array_ok A sz n" and "k < n" "i < unat sz" and "l < n" "j < unat sz"
  shows "slot A sz k + of_nat i = slot A sz l + of_nat j \<longleftrightarrow> k = l \<and> i = j"
proof
  assume "slot A sz k + of_nat i = slot A sz l + of_nat j"
  then have e: "k * unat sz + i = l * unat sz + j" using unat_slot [OF assms(1-3)] unat_slot [OF assms(1,4,5)] by simp
  then have "(k * unat sz + i) div unat sz = (l * unat sz + j) div unat sz" by simp
  then have "k = l" using assms(3,5) by simp
  then show "k = l \<and> i = j" using e by simp
qed simp

lemma slot_in:
  assumes "array_ok A sz n" and "k < n" "i < unat sz" and "l < n"
  shows "unat (slot A sz k + of_nat i - slot A sz l) < unat sz \<longleftrightarrow> k = l"
proof
  assume "unat (slot A sz k + of_nat i - slot A sz l) < unat sz" (is "?d < _")
  then show "k = l" using slot_eq [OF assms, of ?d] by simp
qed (use assms(3) unat_lt32 [of sz] in \<open>simp add: unat_of_nat32\<close>)

lemma apart_iff: "n \<le> 2 ^ 32 \<Longrightarrow> apart a b n \<longleftrightarrow> (\<forall>x. \<not> (unat (x - a) < n \<and> unat (x - b) < n))"
proof
  assume l: "\<forall>x. \<not> (unat (x - a) < n \<and> unat (x - b) < n)" and n: "n \<le> 2 ^ 32"
  show "apart a b n" unfolding apart_def
  proof (intro allI impI notI)
    fix i j assume ij: "i < n" "j < n" "a + of_nat i = b + of_nat j"
    have "unat (a + of_nat i - a) < n" using ij(1) n by (simp add: unat_of_nat32)
    moreover have "unat (a + of_nat i - b) < n" unfolding ij(3) using ij(2) n by (simp add: unat_of_nat32)
    ultimately show False using l by blast
  qed
next
  assume ap: "apart a b n"
  show "\<forall>x. \<not> (unat (x - a) < n \<and> unat (x - b) < n)"
  proof (intro allI notI)
    fix x assume "unat (x - a) < n \<and> unat (x - b) < n"
    then have "a + of_nat (unat (x - a)) \<noteq> b + of_nat (unat (x - b))" using ap unfolding apart_def by blast
    then show False by simp
  qed
qed

definition bytes_swapped :: "addr \<Rightarrow> addr \<Rightarrow> nat \<Rightarrow> bytes \<Rightarrow> bytes" where
  "bytes_swapped a b n m = (\<lambda>x. if unat (x - a) < n then m (b + (x - a)) else if unat (x - b) < n then m (a + (x - b)) else m x)"

lemma swap_loop_ok: "apart (a + i) (b + i) n \<Longrightarrow> n < 2 ^ 32 \<Longrightarrow> swap_loop n i a b m = bytes_swapped (a + i) (b + i) n m"
proof (induction n arbitrary: i m)
  case (Suc n)
  define p q where "p = a + i" and "q = b + i"
  have ap: "\<not> (unat (x - p) < Suc n \<and> unat (x - q) < Suc n)" for x
    using Suc.prems apart_iff [of "Suc n" p q] by (simp add: p_def q_def)
  have st: "unat (x - r) < Suc n \<longleftrightarrow> x = r \<or> unat (x - (r + 1)) < n" for x r :: addr
    using offset_step [of n] Suc.prems(2) by simp
  have "apart (a + (i + 1)) (b + (i + 1)) n"
    using ap Suc.prems(2) by (subst apart_iff) (auto simp: st add.assoc p_def q_def)
  then have IH: "swap_loop n (i + 1) a b m' = bytes_swapped (p + 1) (q + 1) n m'" for m'
    using Suc.IH [of "i + 1" m'] Suc.prems(2) by (simp add: add.assoc p_def q_def)
  let ?m = "m(p := m q, q := m p)"
  have u: "\<not> unat (- 1 :: u32) < n" using Suc.prems(2) by (simp add: unsigned_minus_1_eq_mask mask_eq_exp_minus_1)
  have ne: "p \<noteq> q" using ap [of p] by auto
  have "bytes_swapped (p + 1) (q + 1) n ?m x = bytes_swapped p q (Suc n) m x" for x
  proof -
    have k: "q + 1 + (x - (p + 1)) = q + (x - p)" "p + 1 + (x - (q + 1)) = p + (x - q)" by (simp_all add: algebra_simps)
    have "q + (x - p) \<noteq> p \<and> q + (x - p) \<noteq> q" if "unat (x - (p + 1)) < n" "x \<noteq> p"
      using ap [of "q + (x - p)"] that st [of x p] by auto
    moreover have "p + (x - q) \<noteq> p \<and> p + (x - q) \<noteq> q" if "unat (x - (q + 1)) < n" "x \<noteq> q"
      using ap [of "p + (x - q)"] that st [of x q] by auto
    ultimately show ?thesis using ap [of x] ne u unfolding bytes_swapped_def st k
      by (cases "x = p"; cases "x = q") auto
  qed
  then show ?case using IH by (simp add: Let_def fun_eq_iff flip: p_def q_def)
qed (simp add: bytes_swapped_def)

lemma bytes_swapped_frame:
  assumes "array_ok A sz n" and "k < n" and "l < n" and "unat a < unat A \<or> unat A + n * unat sz \<le> unat a"
  shows "bytes_swapped (slot A sz k) (slot A sz l) (unat sz) m a = m a"
proof -
  have "\<not> unat (a - slot A sz j) < unat sz" if "j < n" for j
  proof
    assume l: "unat (a - slot A sz j) < unat sz" (is "?d < _")
    have "unat (slot A sz j + of_nat ?d) = unat A + j * unat sz + ?d" by (rule unat_slot [OF assms(1) that l])
    then show False using assms(4) slot_offset_bound [OF that l] by simp
  qed
  then show ?thesis using assms(2,3) by (simp add: bytes_swapped_def)
qed

lemma slot_pred: "1 \<le> a \<Longrightarrow> A + (of_nat a - 1) * sz = slot A sz (a - 1)"
  by (simp add: slot_def of_nat_diff)

lemma do_swap_ok:
  assumes ok: "array_ok A sz n" and a: "1 \<le> a" "a \<le> n" and b: "1 \<le> b" "b \<le> n" and "a \<noteq> b"
  shows "elems (do_swap A (of_nat a) (of_nat b) sz m) A sz n = lswap (elems m A sz n) a b"
    and "only_array A sz n m (do_swap A (of_nat a) (of_nat b) sz m)"
proof -
  have lt: "a - 1 < n" "b - 1 < n" "a - 1 \<noteq> b - 1" using assms by auto
  have "apart (slot A sz (a - 1)) (slot A sz (b - 1)) (unat sz)"
    unfolding apart_def using slot_eq [OF ok] lt by blast
  then have e: "do_swap A (of_nat a) (of_nat b) sz m = bytes_swapped (slot A sz (a - 1)) (slot A sz (b - 1)) (unat sz) m"
    using swap_loop_ok [of "slot A sz (a - 1)" 0 "slot A sz (b - 1)" "unat sz" m] unat_lt32 [of sz]
    by (simp only: do_swap_def Let_def slot_pred [OF a(1)] slot_pred [OF b(1)] add_0_right)
  show "only_array A sz n m (do_swap A (of_nat a) (of_nat b) sz m)"
    unfolding only_array_def e using bytes_swapped_frame [OF ok lt(1,2)] by blast
  have byte: "bytes_swapped (slot A sz (a - 1)) (slot A sz (b - 1)) (unat sz) m (slot A sz k + of_nat i) =
      m (slot A sz (if k = b - 1 then a - 1 else if k = a - 1 then b - 1 else k) + of_nat i)" if "k < n" "i < unat sz" for k i
    using slot_in [OF ok that lt(1)] slot_in [OF ok that lt(2)] lt(3) by (auto simp: bytes_swapped_def)
  show "elems (do_swap A (of_nat a) (of_nat b) sz m) A sz n = lswap (elems m A sz n) a b"
  proof (rule nth_equalityI)
    fix k assume "k < length (elems (do_swap A (of_nat a) (of_nat b) sz m) A sz n)"
    then have k: "k < n" by simp
    have "block_at (bytes_swapped (slot A sz (a - 1)) (slot A sz (b - 1)) (unat sz) m) (slot A sz k) (unat sz) =
        block_at m (slot A sz (if k = b - 1 then a - 1 else if k = a - 1 then b - 1 else k)) (unat sz)"
      by (rule nth_equalityI) (use byte [OF k] in \<open>simp_all add: nth_block_at\<close>)
    then show "elems (do_swap A (of_nat a) (of_nat b) sz m) A sz n ! k = lswap (elems m A sz n) a b ! k"
      using k lt unfolding e by (simp add: elems_def lswap_def el_def nth_list_update)
  qed simp
qed

text \<open>A comparison function that looks at the bytes of the two elements only.\<close>

definition compares :: "compare_func \<Rightarrow> u32 \<Rightarrow> (u8 list \<Rightarrow> u8 list \<Rightarrow> int) \<Rightarrow> bool" where
  "compares compare sz c \<longleftrightarrow> (\<forall>a b m. compare a b m = c (block_at m a (unat sz)) (block_at m b (unat sz)))"

lemma do_compare_ok:
  "compares compare sz c \<Longrightarrow> 1 \<le> a \<Longrightarrow> a \<le> n \<Longrightarrow> 1 \<le> b \<Longrightarrow> b \<le> n \<Longrightarrow>
     do_compare A (of_nat a) (of_nat b) sz compare m = c (el (elems m A sz n) a) (el (elems m A sz n) b)"
  by (simp add: do_compare_def slot_pred compares_def el_elems)

lemma heapify_step:
  assumes "compares compare sz c" and "1 \<le> i" and "i \<le> n" and "k \<le> n" and "n < 2 ^ 31"
  shows "heapify A (of_nat i) (of_nat k) sz compare m =
    (let mx = largest c (elems m A sz n) i k
     in if mx = i then Some m else heapify A (of_nat mx) (of_nat k) sz compare (do_swap A (of_nat i) (of_nat mx) sz m))"
proof -
  have le: "(of_nat a :: u32) \<le> of_nat k \<longleftrightarrow> a \<le> k" if "a < 2 ^ 32" for a
    using that assms(4,5) by (simp add: word_le_nat_alt unat_of_nat32)
  define l r where "l = 2 * i" and "r = 2 * i + 1"
  have ch: "2 * of_nat i = (of_nat l :: u32)" "of_nat l + 1 = (of_nat r :: u32)" by (simp_all add: l_def r_def)
  have lr: "1 \<le> l" "l < 2 ^ 32" "1 \<le> r" "r < 2 ^ 32" using assms(2-5) by (simp_all add: l_def r_def)
  have lg: "largest c (elems m A sz n) i k = (let mx = (if l \<le> k \<and> 0 < c (el (elems m A sz n) l) (el (elems m A sz n) i) then l else i)
      in if r \<le> k \<and> 0 < c (el (elems m A sz n) r) (el (elems m A sz n) mx) then r else mx)"
    by (simp only: largest_def l_def r_def)
  have cmp: "do_compare A (of_nat a) (of_nat b) sz compare m = c (el (elems m A sz n) a) (el (elems m A sz n) b)"
    if "1 \<le> a" "a \<le> k" "1 \<le> b" "b \<le> n" for a b using do_compare_ok [OF assms(1)] that assms(4) by simp
  define x where "x = (if l \<le> k \<and> 0 < c (el (elems m A sz n) l) (el (elems m A sz n) i) then l else i)"
  have x: "1 \<le> x" "x \<le> n" using lr assms(2-4) by (simp_all add: x_def)
  have a: "(if (of_nat l :: u32) \<le> of_nat k \<and> 0 < do_compare A (of_nat l) (of_nat i) sz compare m then of_nat l else of_nat i) = (of_nat x :: u32)"
    using cmp [of l i] le [OF lr(2)] lr assms(2,3) by (auto simp: x_def)
  have b: "(if (of_nat r :: u32) \<le> of_nat k \<and> 0 < do_compare A (of_nat r) (of_nat x) sz compare m
      then of_nat r else of_nat x) = (of_nat (largest c (elems m A sz n) i k) :: u32)"
    unfolding lg using cmp [of r x] le [OF lr(4)] lr x by (auto simp: Let_def simp flip: x_def)
  have l: "largest c (elems m A sz n) i k \<le> n" using assms(3,4) by (auto simp: largest_def Let_def)
  have "(of_nat (largest c (elems m A sz n) i k) :: u32) = of_nat i \<longleftrightarrow> largest c (elems m A sz n) i k = i"
    using l assms(3,5) by (intro of_nat_inj32) auto
  then show ?thesis unfolding heapify.simps [of A "of_nat i"] Let_def ch a b by (simp add: Let_def)
qed

section \<open>Heap sort\<close>

text \<open>The order that a comparison function stands for.\<close>

definition cmp_order :: "('a \<Rightarrow> 'a \<Rightarrow> int) \<Rightarrow> bool" where
  "cmp_order c \<longleftrightarrow> (\<forall>x y. 0 < c x y \<longleftrightarrow> c y x < 0) \<and> (\<forall>x y z. c x y \<le> 0 \<longrightarrow> c y z \<le> 0 \<longrightarrow> c x z \<le> 0)"

lemma comparison_iff: "comparison c \<longleftrightarrow> cmp_order c"
  by (auto simp: comparison_def cmp_order_def)

text \<open>What a step of the sort keeps: the elements behind \<open>k\<close>, the multiset, and the rest of the memory.\<close>

definition rearranged :: "addr \<Rightarrow> u32 \<Rightarrow> nat \<Rightarrow> nat \<Rightarrow> bytes \<Rightarrow> bytes \<Rightarrow> bool" where
  "rearranged A sz n k m m' \<longleftrightarrow> mset (elems m' A sz n) = mset (elems m A sz n) \<and>
     drop k (elems m' A sz n) = drop k (elems m A sz n) \<and> only_array A sz n m m'"

lemma rearranged_refl [simp]: "rearranged A sz n k m m"
  by (simp add: rearranged_def)

lemma rearranged_trans: "rearranged A sz n k m m1 \<Longrightarrow> rearranged A sz n k m1 m2 \<Longrightarrow> rearranged A sz n k m m2"
  by (auto simp: rearranged_def intro: only_array_trans)

lemma rearranged_swap:
  "array_ok A sz n \<Longrightarrow> 1 \<le> a \<Longrightarrow> a \<le> k \<Longrightarrow> 1 \<le> b \<Longrightarrow> b \<le> k \<Longrightarrow> k \<le> n \<Longrightarrow> a \<noteq> b \<Longrightarrow>
     rearranged A sz n k m (do_swap A (of_nat a) (of_nat b) sz m)"
  unfolding rearranged_def using do_swap_ok [of A sz n a b m] by simp

lemma rearranged_take:
  assumes "rearranged A sz n k m m'"
  shows "mset (take k (elems m' A sz n)) = mset (take k (elems m A sz n))"
proof -
  have "mset xs = mset (take k xs) + mset (drop k xs)" for xs :: "u8 list list"
    by (metis append_take_drop_id mset_append)
  then show ?thesis using assms unfolding rearranged_def by (metis add_right_cancel)
qed

lemma heapify_ok:
  assumes "comparison c" and "compares compare sz c" and ok: "array_ok A sz n" and "1 \<le> i" and "i \<le> k" and "k \<le> n" and "n < 2 ^ 31"
    and "lo \<le> i" and "heap_except c (elems m A sz n) k lo i"
  shows "\<exists>m'. heapify A (of_nat i) (of_nat k) sz compare m = Some m' \<and> heap_from c (elems m' A sz n) k lo \<and> rearranged A sz n k m m'"
  using assms(4-)
proof (induction "k - i" arbitrary: i m rule: less_induct)
  case less
  define mx where "mx = largest c (elems m A sz n) i k"
  have i: "i \<le> n" using less.prems by simp
  show ?case
  proof (cases "mx = i")
    case True
    then have "heap_from c (elems m A sz n) k lo"
      using comparison.heap_stop [OF assms(1) less.prems(6)] mx_def by simp
    then show ?thesis using True heapify_step [OF assms(2) less.prems(1) i less.prems(3,4), of A m] mx_def by (simp add: Let_def)
  next
    case False
    let ?m = "do_swap A (of_nat i) (of_nat mx) sz m"
    have mx: "mx div 2 = i" "mx \<le> k" using comparison.largest_child [OF assms(1), of "elems m A sz n" i k] False mx_def by auto
    then have im: "i < mx" "1 \<le> mx" "lo \<le> mx" using less.prems by linarith+
    have "heap_except c (elems ?m A sz n) k lo mx"
      using comparison.heap_down [OF assms(1) less.prems(6) mx_def [symmetric] False less.prems(1,5)] less.prems(3)
        do_swap_ok(1) [OF ok, of i mx m] less.prems(1,2) mx im by simp
    moreover have "k - mx < k - i" using im mx less.prems(2) by linarith
    ultimately obtain m' where m': "heapify A (of_nat mx) (of_nat k) sz compare ?m = Some m'" "heap_from c (elems m' A sz n) k lo"
      "rearranged A sz n k ?m m'" using less.hyps [of mx ?m] im mx less.prems by blast
    have "rearranged A sz n k m ?m" by (rule rearranged_swap [OF ok]) (use less.prems mx im in auto)
    then have "rearranged A sz n k m m'" using m'(3) rearranged_trans by blast
    moreover have "heapify A (of_nat i) (of_nat k) sz compare m = Some m'"
      using heapify_step [OF assms(2) less.prems(1) i less.prems(3,4), of A m] mx_def False m'(1) by (simp add: Let_def)
    ultimately show ?thesis using m'(2) by blast
  qed
qed

lemma build_loop_ok:
  assumes "comparison c" and "compares compare sz c" and ok: "array_ok A sz n" and "n < 2 ^ 31"
  shows "i \<le> n \<Longrightarrow> heap_from c (elems m A sz n) n (Suc i) \<Longrightarrow>
    \<exists>m'. build_loop i A (of_nat n) sz compare m = Some m' \<and> heap_from c (elems m' A sz n) n 1 \<and> rearranged A sz n n m m'"
proof (induction i arbitrary: m)
  case (Suc i)
  have "heap_except c (elems m A sz n) n (Suc i) (Suc i)"
    by (rule comparison.heap_start [OF assms(1)]) (use Suc.prems in auto)
  then obtain m1 where m1: "heapify A (of_nat (Suc i)) (of_nat n) sz compare m = Some m1"
    "heap_from c (elems m1 A sz n) n (Suc i)" "rearranged A sz n n m m1"
    using heapify_ok [OF assms(1-3), of "Suc i" n "Suc i" m] Suc.prems(1) assms(4) by auto
  obtain m2 where "build_loop i A (of_nat n) sz compare m1 = Some m2" "heap_from c (elems m2 A sz n) n 1" "rearranged A sz n n m1 m2"
    using Suc.IH [OF _ m1(2)] Suc.prems(1) by auto
  then show ?case using m1 rearranged_trans by fastforce
qed simp

lemma extract_state:
  assumes "comparison c" and "1 < i" and "i \<le> length xs" and "heap_from c xs i 1"
    and "mset (take (i - 1) zs) = mset (take (i - 1) (lswap xs 1 i))" and "drop (i - 1) zs = drop (i - 1) (lswap xs 1 i)"
    and "sorted_wrt (\<lambda>x y. c x y \<le> 0) (drop i xs)" and "\<forall>x\<in>set (take i xs). \<forall>y\<in>set (drop i xs). c x y \<le> 0"
  shows "sorted_wrt (\<lambda>x y. c x y \<le> 0) (drop (i - 1) zs)" and "\<forall>x\<in>set (take (i - 1) zs). \<forall>y\<in>set (drop (i - 1) zs). c x y \<le> 0"
proof -
  let ?ys = "lswap xs 1 i"
  have e: "el ?ys i = el xs 1" using assms(2,3) by (subst el_lswap) auto
  have d: "drop (i - 1) zs = el xs 1 # drop i xs"
  proof -
    have "drop (i - 1) ?ys = el ?ys i # drop (Suc (i - 1)) ?ys"
      unfolding el_def by (rule Cons_nth_drop_Suc [symmetric]) (use assms(2,3) in simp)
    then show ?thesis using assms(2,6) e by simp
  qed
  have t: "set (take i ?ys) = set (take i xs)"
  proof -
    have "drop i ?ys = drop i xs" using assms(2) by simp
    moreover have "mset ?ys = mset xs" using assms(2,3) by simp
    ultimately have "mset (take i ?ys) = mset (take i xs)" by (metis add_right_cancel append_take_drop_id mset_append)
    then show ?thesis by (metis set_mset_mset)
  qed
  have r: "c x (el xs 1) \<le> 0" if x: "x \<in> set (take i xs)" for x
  proof -
    obtain j where "j < length (take i xs)" "take i xs ! j = x" using x unfolding in_set_conv_nth by blast
    then have "j < i" "x = xs ! j" by auto
    then show ?thesis using comparison.heap_root [OF assms(1,4), of "Suc j"] by (simp add: el_def)
  qed
  have s: "set (take (i - 1) zs) \<subseteq> set (take i xs)"
    using assms(5) t set_take_subset_set_take [of "i - 1" i ?ys] by (metis diff_le_self set_mset_mset)
  have "el xs 1 \<in> set (take i xs)" using assms(2,3) by (auto simp: el_def in_set_conv_nth intro!: exI [of _ 0])
  then show "sorted_wrt (\<lambda>x y. c x y \<le> 0) (drop (i - 1) zs)" using assms(7,8) d by simp
  show "\<forall>x\<in>set (take (i - 1) zs). \<forall>y\<in>set (drop (i - 1) zs). c x y \<le> 0" using s r assms(8) d by auto
qed

lemma extract_loop_ok:
  assumes "comparison c" and "compares compare sz c" and ok: "array_ok A sz n" and "n < 2 ^ 31"
  shows "i \<le> n \<Longrightarrow> heap_from c (elems m A sz n) i 1 \<Longrightarrow> sorted_wrt (\<lambda>x y. c x y \<le> 0) (drop i (elems m A sz n)) \<Longrightarrow>
    \<forall>x\<in>set (take i (elems m A sz n)). \<forall>y\<in>set (drop i (elems m A sz n)). c x y \<le> 0 \<Longrightarrow>
    \<exists>m'. extract_loop i A sz compare m = Some m' \<and> sorted_wrt (\<lambda>x y. c x y \<le> 0) (elems m' A sz n) \<and> rearranged A sz n n m m'"
proof (induction i arbitrary: m)
  case 0 then show ?case by simp
next
  case (Suc i)
  let ?xs = "elems m A sz n"
  show ?case
  proof (cases "i = 0")
    case True
    have "sorted_wrt (\<lambda>x y. c x y \<le> 0) (take 1 ?xs @ drop 1 ?xs)"
      unfolding sorted_wrt_append using Suc.prems(3,4) True by (cases ?xs) simp_all
    then show ?thesis using True by simp
  next
    case False
    then have i: "1 < Suc i" "i < n" "1 \<le> i" using Suc.prems(1) by simp_all
    let ?m = "do_swap A 1 (of_nat (Suc i)) sz m"
    have sw: "elems ?m A sz n = lswap ?xs 1 (Suc i)" "rearranged A sz n n m ?m"
      using do_swap_ok(1) [OF ok, of 1 "Suc i" m] rearranged_swap [OF ok, of 1 n "Suc i" m] i by simp_all
    have "heap_from c (elems ?m A sz n) i 2"
      unfolding sw(1) heap_from_def
    proof (intro allI impI)
      fix j assume j: "2 \<le> j \<and> j \<le> i \<and> 2 \<le> j div 2"
      have "el (lswap ?xs 1 (Suc i)) j = el ?xs j" "el (lswap ?xs 1 (Suc i)) (j div 2) = el ?xs (j div 2)"
        using j i div_le_dividend [of j 2] by (subst el_lswap; auto)+
      then show "c (el (lswap ?xs 1 (Suc i)) j) (el (lswap ?xs 1 (Suc i)) (j div 2)) \<le> 0"
        using Suc.prems(2) j unfolding heap_from_def by simp
    qed
    then have "heap_except c (elems ?m A sz n) i 1 1" using comparison.heap_start [OF assms(1), of 1] by (simp add: numeral_2_eq_2)
    then obtain m1 where m1: "heapify A 1 (of_nat i) sz compare ?m = Some m1" "heap_from c (elems m1 A sz n) i 1" "rearranged A sz n i ?m m1"
      using heapify_ok [OF assms(1-3), of 1 i 1 ?m] i assms(4) by auto
    have r: "rearranged A sz n n m m1" using sw(2) m1(3) by (auto simp: rearranged_def intro: only_array_trans)
    have mt: "mset (take i (elems m1 A sz n)) = mset (take i (lswap ?xs 1 (Suc i)))" "drop i (elems m1 A sz n) = drop i (lswap ?xs 1 (Suc i))"
      using rearranged_take [OF m1(3)] m1(3) sw(1) by (simp_all add: rearranged_def)
    have st: "sorted_wrt (\<lambda>x y. c x y \<le> 0) (drop i (elems m1 A sz n))"
      "\<forall>x\<in>set (take i (elems m1 A sz n)). \<forall>y\<in>set (drop i (elems m1 A sz n)). c x y \<le> 0"
      using extract_state [OF assms(1) i(1) _ Suc.prems(2) _ _ Suc.prems(3,4), of "elems m1 A sz n"] mt Suc.prems(1) by simp_all
    obtain m2 where "extract_loop i A sz compare m1 = Some m2" "sorted_wrt (\<lambda>x y. c x y \<le> 0) (elems m2 A sz n)" "rearranged A sz n n m1 m2"
      using Suc.IH [OF _ m1(2)] st i by auto
    then show ?thesis using m1(1) r i(1) rearranged_trans by (auto simp: extract_loop.simps [of "Suc i"])
  qed
qed

text \<open>C20: \<^verbatim>\<open>qsort\<close> returns on every array of less than \<open>2 ^ 31\<close> elements, of any size, and with every comparison
  function that orders the elements; the array then holds the same elements in ascending order, and no
  other byte of the memory has changed.\<close>

theorem qsort_correct:
  assumes "cmp_order c" and "compares compare sz c" and "array_ok A sz (unat n)" and "unat n < 2 ^ 31"
  shows "\<exists>m'. qsort A n sz compare m = Some m' \<and> sorted_wrt (\<lambda>x y. c x y \<le> 0) (elems m' A sz (unat n)) \<and>
    mset (elems m' A sz (unat n)) = mset (elems m A sz (unat n)) \<and> only_array A sz (unat n) m m'"
proof -
  let ?n = "unat n"
  have c: "comparison c" using assms(1) comparison_iff by blast
  have t: "compare_thunk compare = compare" by (simp add: compare_thunk_def fun_eq_iff)
  have h: "unat (n div 2) = ?n div 2" by (simp add: unat_div)
  have "heap_from c (elems m A sz ?n) ?n (Suc (?n div 2))" by (rule comparison.heap_leaves [OF c]) simp
  then obtain m1 where m1: "build_loop (?n div 2) A n sz compare m = Some m1" "heap_from c (elems m1 A sz ?n) ?n 1" "rearranged A sz ?n ?n m m1"
    using build_loop_ok [OF c assms(2-4), of "?n div 2" m] by auto
  obtain m2 where m2: "extract_loop ?n A sz compare m1 = Some m2" "sorted_wrt (\<lambda>x y. c x y \<le> 0) (elems m2 A sz ?n)" "rearranged A sz ?n ?n m1 m2"
    using extract_loop_ok [OF c assms(2-4), of ?n m1] m1(2) by auto
  have "A \<noteq> NULL" "sz > 0" using assms(3) by (simp_all add: array_ok_def unat_gt_0 word_gt_0)
  then have "qsort A n sz compare m = Some m2" using m1(1) m2(1) h t by (simp add: qsort_def ksort_def del: extract_loop.simps)
  then show ?thesis using rearranged_trans [OF m1(3) m2(3)] m2(2) by (auto simp: rearranged_def)
qed

section \<open>Binary search\<close>

text \<open>The loop looks at the positions \<open>lo\<close> to \<open>hi - 1\<close>; the result is a position with \<open>P\<close>, if there is one.\<close>

definition hit :: "(nat \<Rightarrow> bool) \<Rightarrow> (nat \<Rightarrow> addr) \<Rightarrow> nat \<Rightarrow> nat \<Rightarrow> addr \<Rightarrow> bool" where
  "hit P q lo hi r \<longleftrightarrow>
     (if \<exists>k. lo \<le> k \<and> k < hi \<and> P k then \<exists>k. lo \<le> k \<and> k < hi \<and> r = q k \<and> P k else r = NULL)"

lemma hit_widen:
  assumes "hit P q lo' hi' r" and "lo \<le> lo'" and "hi' \<le> hi" and "\<And>k. lo \<le> k \<Longrightarrow> k < hi \<Longrightarrow> P k \<Longrightarrow> lo' \<le> k \<and> k < hi'"
  shows "hit P q lo hi r"
proof (cases "\<exists>k. lo' \<le> k \<and> k < hi' \<and> P k")
  case True
  then obtain k where k: "lo' \<le> k" "k < hi'" "r = q k" "P k" using assms(1) by (auto simp: hit_def)
  then have "lo \<le> k" "k < hi" using assms(2,3) by simp_all
  then show ?thesis using k unfolding hit_def by auto
next
  case False
  then have "r = NULL" "\<not> (\<exists>k. lo \<le> k \<and> k < hi \<and> P k)" using assms(1,4) by (auto simp: hit_def)
  then show ?thesis by (simp only: hit_def if_False)
qed

lemma search_loop_ok:
  assumes c: "comparison c" and cmp: "compares compare sz c" and ok: "array_ok A sz n" and top: "unat A + n * unat sz < 2 ^ 32"
    and srt: "sorted_wrt (\<lambda>x y. c x y \<le> 0) (elems m A sz n)"
  shows "lo \<le> hi \<Longrightarrow> hi \<le> n \<Longrightarrow> \<exists>r. search_loop key (slot A sz lo) (slot A sz hi) sz compare m = Some r \<and>
    hit (\<lambda>k. c (block_at m key (unat sz)) (elems m A sz n ! k) = 0) (slot A sz) lo hi r"
proof (induction "hi - lo" arbitrary: lo hi rule: less_induct)
  case less
  let ?key = "block_at m key (unat sz)" and ?xs = "elems m A sz n"
  have sz: "0 < unat sz" using ok by (simp add: array_ok_def)
  have us: "unat (slot A sz k) = unat A + k * unat sz" if "k \<le> n" for k
  proof -
    have "unat A + k * unat sz < 2 ^ 32" using top mult_le_mono1 [OF that, of "unat sz"] by linarith
    from unat_ofs [OF this] show ?thesis by (simp add: slot_def)
  qed
  show ?case
  proof (cases "lo = hi")
    case True then show ?thesis by (auto simp: search_loop.simps hit_def)
  next
    case False
    then have lt: "lo < hi" using less.prems(1) by simp
    define mid where "mid = lo + (hi - lo) div 2"
    have mid: "lo \<le> mid" "mid < hi" "mid < n" using lt less.prems(2) by (auto simp: mid_def)
    have fl: "slot A sz lo < slot A sz hi" using us [of lo] us [of hi] lt less.prems(2) sz by (simp add: word_less_nat_alt)
    have "unat (slot A sz hi - slot A sz lo) = (hi - lo) * unat sz"
      using us [of lo] us [of hi] lt less.prems(2) fl by (simp add: unat_sub diff_mult_distrib)
    then have "unat ((slot A sz hi - slot A sz lo) div sz) = hi - lo" using sz by (simp add: unat_div)
    then have "unat ((slot A sz hi - slot A sz lo) div sz div 2) = (hi - lo) div 2" by (simp add: unat_div)
    then have "(slot A sz hi - slot A sz lo) div sz div 2 = of_nat ((hi - lo) div 2)" by (rule eq_of_nat)
    then have md: "slot A sz lo + (slot A sz hi - slot A sz lo) div sz div 2 * sz = slot A sz mid"
      by (simp add: slot_def mid_def algebra_simps)
    have cm: "compare key (slot A sz mid) m = c ?key (?xs ! mid)" using cmp mid(3) by (simp add: compares_def elems_def)
    have sl: "slot A sz mid + sz = slot A sz (Suc mid)" by (simp add: slot_def algebra_simps)
    note step = search_loop.simps [of key "slot A sz lo" "slot A sz hi" sz compare m, unfolded Let_def md cm sl]
    have le: "c (?xs ! i) (?xs ! j) \<le> 0" if "i \<le> j" "j < n" for i j
      using that srt comparison.refl [OF c] by (cases "i = j") (auto simp: sorted_wrt_iff_nth_less)
    consider "c ?key (?xs ! mid) < 0" | "0 < c ?key (?xs ! mid)" | "c ?key (?xs ! mid) = 0" by linarith
    then show ?thesis
    proof cases
      case 1
      have out: "c ?key (?xs ! k) \<noteq> 0" if "mid \<le> k" "k < hi" for k
      proof
        assume "c ?key (?xs ! k) = 0"
        then have "c (?xs ! k) ?key \<le> 0" using comparison.flip [OF c, of "?xs ! k" ?key] by simp
        then have "c (?xs ! mid) ?key \<le> 0" using le [of mid k] that less.prems(2) comparison.trans [OF c, of "?xs ! mid" "?xs ! k" ?key] by simp
        then show False using 1 comparison.flip [OF c, of "?xs ! mid" ?key] by simp
      qed
      have "mid - lo < hi - lo" "mid \<le> n" using mid by simp_all
      from less.hyps [OF this(1) mid(1) this(2)] obtain r where r: "search_loop key (slot A sz lo) (slot A sz mid) sz compare m = Some r"
        "hit (\<lambda>k. c ?key (?xs ! k) = 0) (slot A sz) lo mid r" by blast
      have "hit (\<lambda>k. c ?key (?xs ! k) = 0) (slot A sz) lo hi r"
        by (rule hit_widen [OF r(2)]) (use mid out in \<open>auto simp: not_le [symmetric]\<close>)
      then show ?thesis using step fl 1 r(1) by simp
    next
      case 2
      have out: "c ?key (?xs ! k) \<noteq> 0" if "lo \<le> k" "k \<le> mid" for k
      proof
        assume "c ?key (?xs ! k) = 0"
        then have "c ?key (?xs ! mid) \<le> 0" using le [of k mid] that mid(3) comparison.trans [OF c, of ?key "?xs ! k" "?xs ! mid"] by simp
        then show False using 2 by simp
      qed
      have "hi - Suc mid < hi - lo" "Suc mid \<le> hi" using mid by simp_all
      from less.hyps [OF this less.prems(2)] obtain r where r: "search_loop key (slot A sz (Suc mid)) (slot A sz hi) sz compare m = Some r"
        "hit (\<lambda>k. c ?key (?xs ! k) = 0) (slot A sz) (Suc mid) hi r" by blast
      have "hit (\<lambda>k. c ?key (?xs ! k) = 0) (slot A sz) lo hi r"
        by (rule hit_widen [OF r(2)]) (use mid out in \<open>auto simp: not_le [symmetric] Suc_le_eq\<close>)
      then show ?thesis using step fl 2 r(1) by simp
    next
      case 3 then show ?thesis using step fl mid by (auto simp: hit_def)
    qed
  qed
qed

text \<open>\<^verbatim>\<open>bsearch\<close> in a sorted array returns, with the address of an element that compares equal to the key
  when there is one, and with a null pointer otherwise.\<close>

theorem bsearch_correct:
  assumes "cmp_order c" and "compares compare sz c" and "array_ok A sz (unat n)" and "unat A + unat n * unat sz < 2 ^ 32"
    and "sorted_wrt (\<lambda>x y. c x y \<le> 0) (elems m A sz (unat n))"
  shows "\<exists>r. bsearch key A n sz compare m = Some r \<and>
    (if \<exists>x\<in>set (elems m A sz (unat n)). c (block_at m key (unat sz)) x = 0
     then \<exists>k. k < unat n \<and> r = slot A sz k \<and> c (block_at m key (unat sz)) (elems m A sz (unat n) ! k) = 0
     else r = NULL)"
proof -
  have c: "comparison c" using assms(1) comparison_iff by blast
  have t: "compare_thunk compare = compare" by (simp add: compare_thunk_def fun_eq_iff)
  have b: "A = slot A sz 0" "A + sz * n = slot A sz (unat n)" by (simp_all add: slot_def mult.commute)
  have e: "(\<exists>x\<in>set (elems m A sz (unat n)). c (block_at m key (unat sz)) x = 0) \<longleftrightarrow>
      (\<exists>k. 0 \<le> k \<and> k < unat n \<and> c (block_at m key (unat sz)) (elems m A sz (unat n) ! k) = 0)"
    by (auto simp: in_set_conv_nth) (metis length_elems nth_mem)
  show ?thesis unfolding e bsearch_def binary_search_def t b(2)
    using search_loop_ok [OF c assms(2-5), of 0 "unat n" key] unfolding hit_def
    by (simp only: le0 simp_thms order.refl True_implies_equals flip: b(1))
qed

section \<open>Decimal numbers\<close>

text \<open>The value of a string of decimal digits.\<close>

definition digit :: "u8 \<Rightarrow> bool" where
  "digit x \<longleftrightarrow> 48 \<le> uint x \<and> uint x \<le> 57"

definition dec_value :: "u8 list \<Rightarrow> int" where
  "dec_value ds = foldl (\<lambda>v x. v * 10 + (uint x - 48)) 0 ds"

lemma sint_small8: "uint x < 128 \<Longrightarrow> sint (x :: u8) = uint x"
  unfolding sint_uint by (intro signed_take_bit_int_eq_self) (simp_all add: order_trans [OF _ uint_ge_0])

lemma isdigit_iff: "isdigit (sint (x :: u8)) \<longleftrightarrow> digit x"
proof (cases "uint x < 128")
  case True then show ?thesis by (simp add: isdigit_def digit_def sint_small8)
next
  case False
  have "(uint x + 128) mod 256 = (uint x - 128 + 256) mod 256" by (simp add: add.commute)
  also have "\<dots> = uint x - 128" using False uint_lt2p [of x] by (subst mod_add_self2) simp
  finally have "(uint x + 128) mod 256 - 128 = uint x - 256" by simp
  then have "sint x = uint x - 256" by (simp add: sint_uint signed_take_bit_eq_take_bit_shift take_bit_eq_mod)
  then show ?thesis using False uint_lt2p [of x] by (simp add: isdigit_def digit_def)
qed

lemma dec_value_snoc: "dec_value (ds @ [x]) = dec_value ds * 10 + (uint x - 48)"
  by (simp add: dec_value_def)

lemma s32_eqI: "(x - y) mod 2 ^ 32 = 0 \<Longrightarrow> s32 x = s32 y"
  unfolding s32_def by (metis add_diff_cancel_right mod_eq_dvd_iff mod_0_imp_dvd)

lemma s32_mod: "\<exists>k. s32 x = x + k * 2 ^ 32"
  unfolding s32_def by (intro exI [of _ "- ((x + 2 ^ 31) div 2 ^ 32)"]) (simp add: minus_div_mult_eq_mod [symmetric])

lemma s32_cong: "s32 (s32 (s32 x * 10) - y) = s32 (x * 10 - y)" "s32 (- s32 x) = s32 (- x)"
proof -
  obtain k where k: "s32 x = x + k * 2 ^ 32" using s32_mod by blast
  obtain l where l: "s32 (s32 x * 10) = s32 x * 10 + l * 2 ^ 32" using s32_mod by blast
  have "s32 (s32 x * 10) = (x + k * 2 ^ 32) * 10 + l * 2 ^ 32" using l k by simp
  then show "s32 (s32 (s32 x * 10) - y) = s32 (x * 10 - y)" by (intro s32_eqI) (simp add: algebra_simps)
  show "s32 (- s32 x) = s32 (- x)" unfolding k by (rule s32_eqI) simp
qed

lemma atoi_space_ok:
  "cstr m p (ws @ xs) \<Longrightarrow> \<forall>x\<in>set ws. isspace (uint x) \<Longrightarrow> xs = [] \<or> \<not> isspace (uint (hd xs)) \<Longrightarrow>
     atoi_space p m = Some (p + of_nat (length ws))"
proof (induction ws arbitrary: p)
  case Nil
  then show ?case by (cases xs) (auto simp: atoi_space.simps [of p] isspace_def dest: cstr_ConsD(2))
next
  case (Cons x ws)
  note c = cstr_ConsD [OF Cons.prems(1) [unfolded append_Cons]]
  then show ?case using Cons.IH [OF c(4)] Cons.prems(2,3) by (simp add: atoi_space.simps [of p] add.assoc)
qed

lemma atoi_digits_ok:
  "cstr m p (ds @ xs) \<Longrightarrow> \<forall>x\<in>set ds. digit x \<Longrightarrow> xs = [] \<or> \<not> digit (hd xs) \<Longrightarrow>
     atoi_digits p (s32 (- dec_value es)) m = Some (s32 (- dec_value (es @ ds)))"
proof (induction ds arbitrary: p es)
  case Nil
  then show ?case by (cases xs) (auto simp: atoi_digits.simps [of p] isdigit_iff digit_def isdigit_def [of 0] dest: cstr_ConsD(2))
next
  case (Cons x ds)
  note c = cstr_ConsD [OF Cons.prems(1) [unfolded append_Cons]]
  have x: "digit x" using Cons.prems(2) by simp
  then have "sint x = uint x" by (intro sint_small8) (simp add: digit_def)
  then have "s32 (s32 (s32 (- dec_value es) * 10) - (sint x - 48)) = s32 (- dec_value (es @ [x]))"
    unfolding s32_cong dec_value_snoc by (simp add: algebra_simps)
  then show ?case using Cons.IH [OF c(4), of "es @ [x]"] Cons.prems(2,3) c(2) x by (simp add: atoi_digits.simps [of p] isdigit_iff)
qed

text \<open>\<^verbatim>\<open>atoi\<close> skips white space, reads an optional sign and the longest string of digits, and returns the
  value reduced to 32 bits, whatever follows.\<close>

theorem atoi_correct:
  assumes "cstr m p (ws @ sg @ ds @ xs)" and "\<forall>x\<in>set ws. isspace (uint x)" and "sg \<in> {[], [43], [45]}"
    and "ds \<noteq> []" and "\<forall>x\<in>set ds. digit x" and "xs = [] \<or> \<not> digit (hd xs)"
  shows "atoi p m = Some (s32 (if sg = [45] then - dec_value ds else dec_value ds))"
proof -
  let ?p = "p + of_nat (length ws)"
  have dg: "digit (hd ds)" using assms(4,5) by (cases ds) auto
  have c: "cstr m ?p (sg @ ds @ xs)" by (rule cstr_appendD [OF assms(1)])
  have hd: "hd (sg @ ds @ xs) = (if sg = [] then hd ds else hd sg)" using assms(4) by simp
  have "\<not> isspace (uint (hd (sg @ ds @ xs)))" unfolding hd using assms(3) dg by (auto simp: isspace_def digit_def)
  then have sp: "atoi_space p m = Some ?p" using atoi_space_ok [OF assms(1,2)] by blast
  have b: "m ?p = hd (sg @ ds @ xs)" using c assms(4) cstr_ConsD(2) [of m ?p "hd (sg @ ds @ xs)" "tl (sg @ ds @ xs)"] by simp
  have "hd ds \<noteq> 43" "hd ds \<noteq> 45" using dg by (auto simp: digit_def)
  then have neg: "m ?p = 45 \<longleftrightarrow> sg = [45]" "m ?p = 43 \<or> m ?p = 45 \<longleftrightarrow> sg \<noteq> []" unfolding b hd using assms(3) by auto
  have "cstr m (?p + of_nat (length sg)) (ds @ xs)" by (rule cstr_appendD [OF c])
  then have "atoi_digits (?p + of_nat (length sg)) 0 m = Some (s32 (- dec_value ds))"
    using atoi_digits_ok [of m _ ds xs "[]"] assms(5,6) by (simp add: dec_value_def s32_def)
  moreover have "(if m ?p = 43 \<or> m ?p = 45 then ?p + 1 else ?p) = ?p + of_nat (length sg)" unfolding neg(2) using assms(3) by auto
  ultimately show ?thesis using sp neg(1) cstrD(1) [OF assms(1)] s32_cong(2) [of "- dec_value ds"] by (simp add: atoi_def Let_def)
qed

section \<open>Comparison of bytes\<close>

text \<open>\<^verbatim>\<open>memcmp\<close> on elements of two bytes is a comparison function.\<close>

interpretation byte_order: comparison cmp_blocks
proof
  show "0 < cmp_blocks x y \<longleftrightarrow> cmp_blocks y x < 0" for x y
    using lexordp_linear [of x y] lexordp_antisym [of x y] by (auto simp: cmp_blocks_def)
  show "cmp_blocks x z \<le> 0" if "cmp_blocks x y \<le> 0" "cmp_blocks y z \<le> 0" for x y z
    using that lexordp_trans [of x y z] by (auto simp: cmp_blocks_def split: if_splits)
qed

lemma cmp_order_bytes: "cmp_order cmp_blocks"
  using comparison_iff byte_order.comparison_axioms by blast

definition compare_pairs :: compare_func where
  "compare_pairs a b m = memcmp_loop 2 a b m"

lemma compares_pairs: "compares compare_pairs 2 cmp_blocks"
  by (simp add: compares_def compare_pairs_def memcmp_loop_ok)

section \<open>Demonstration\<close>

definition demo_array :: bytes where
  "demo_array = (\<lambda>a. if a = 100 then 3 else if a = 102 then 1 else if a = 103 then 9 else if a = 104 then 1 else if a = 106 then 2 else 0)"

theorem qsort_correct_witness:
  "\<exists>m'. qsort 100 3 2 compare_pairs demo_array = Some m' \<and> sorted_wrt (\<lambda>x y. cmp_blocks x y \<le> 0) (elems m' 100 2 (unat (3 :: u32))) \<and>
    mset (elems m' 100 2 (unat (3 :: u32))) = mset (elems demo_array 100 2 (unat (3 :: u32))) \<and> only_array 100 2 (unat (3 :: u32)) demo_array m'"
  by (rule qsort_correct [OF cmp_order_bytes compares_pairs]) (simp_all add: array_ok_def)

theorem bsearch_correct_witness:
  "\<exists>r. bsearch 104 104 2 2 compare_pairs demo_array = Some r \<and>
    (if \<exists>x\<in>set (elems demo_array 104 2 (unat (2 :: u32))). cmp_blocks (block_at demo_array 104 (unat (2 :: u32))) x = 0
     then \<exists>k. k < unat (2 :: u32) \<and> r = slot 104 2 k \<and> cmp_blocks (block_at demo_array 104 (unat (2 :: u32))) (elems demo_array 104 2 (unat (2 :: u32)) ! k) = 0
     else r = NULL)"
proof (rule bsearch_correct [OF cmp_order_bytes compares_pairs])
  show "sorted_wrt (\<lambda>x y. cmp_blocks x y \<le> 0) (elems demo_array 104 2 (unat (2 :: u32)))"
    by (simp add: elems_def slot_def block_at_def upt_rec demo_array_def cmp_blocks_def)
qed (simp_all add: array_ok_def)

theorem atoi_correct_witness:
  "atoi 100 (\<lambda>a. if a = 100 then 32 else if a = 101 then 45 else if a = 102 then 52 else if a = 103 then 50 else 0) =
    Some (s32 (if [45] = [45 :: u8] then - dec_value [52, 50] else dec_value [52, 50])) \<and> dec_value [52, 50] = 42"
proof
  let ?m = "\<lambda>a :: addr. if a = 100 then 32 else if a = 101 then 45 else if a = 102 then 52 else if a = 103 then 50 else 0 :: u8"
  have "cstr ?m 100 ([32] @ [45] @ [52, 50] @ [])" by (simp add: cstr_def)
  then show "atoi 100 ?m = Some (s32 (if [45] = [45 :: u8] then - dec_value [52, 50] else dec_value [52, 50]))"
    by (rule atoi_correct) (simp_all add: isspace_def digit_def)
qed (simp add: dec_value_def)

end
