(* ===== verification/Stdio.thy ===== *)
theory Stdio
  imports KStdlib
begin

unbundle bit_operations_syntax

text \<open>
  Formatted output: \<^verbatim>\<open>lib/stdio.c\<close> and the console of \<^verbatim>\<open>lib/kernel/console.c\<close> that \<^verbatim>\<open>printf\<close> writes to.

  The output function of the source gets a character and a pointer to auxiliary data; here it maps a pair
  of the memory and the auxiliary data to such a pair.  A format or a string is a \<open>ctext\<close>: a constant of
  the program, or an address in the memory.  A variable argument list is the list of 32-bit words on the
  stack; reading past its end is \<open>None\<close>, as is a write past the digit buffer of \<^verbatim>\<open>format_integer\<close> and a read
  past a constant.
\<close>

section \<open>Data\<close>

abbreviation chr :: "char \<Rightarrow> u8" where
  "chr c \<equiv> of_char c"

abbreviation str :: "string \<Rightarrow> u8 list" where
  "str s \<equiv> map of_char s"

type_synonym ctext = "u8 list + addr"

definition char_at :: "bytes \<Rightarrow> ctext \<Rightarrow> nat \<Rightarrow> u8" where
  "char_at m s i = (case s of Inl cs \<Rightarrow> if i < length cs then cs ! i else 0 | Inr p \<Rightarrow> m (p + of_nat i))"

definition in_text :: "ctext \<Rightarrow> nat \<Rightarrow> bool" where
  "in_text s i \<longleftrightarrow> (case s of Inl cs \<Rightarrow> i \<le> length cs | Inr p \<Rightarrow> True)"

datatype flag = MINUS | PLUS | SPACE | POUND | ZERO | GROUP

datatype arg_type = CHAR_T | SHORT_T | INT_T | INTMAX_T | LONG_T | LONGLONG_T | PTRDIFFT_T | SIZET_T

record printf_conversion =
  flags :: "flag set"
  width :: int
  precision :: int
  atype :: arg_type

record integer_base =
  ibase :: u64
  idigits :: "u8 list"
  ix :: u8
  igroup :: nat

definition base_d :: integer_base where
  "base_d = \<lparr>ibase = 10, idigits = str ''0123456789'', ix = 0, igroup = 3\<rparr>"
definition base_o :: integer_base where
  "base_o = \<lparr>ibase = 8, idigits = str ''01234567'', ix = 0, igroup = 3\<rparr>"
definition base_x :: integer_base where
  "base_x = \<lparr>ibase = 16, idigits = str ''0123456789abcdef'', ix = chr CHR ''x'', igroup = 4\<rparr>"
definition base_X :: integer_base where
  "base_X = \<lparr>ibase = 16, idigits = str ''0123456789ABCDEF'', ix = chr CHR ''X'', igroup = 4\<rparr>"

record vsnprintf_aux =
  aux_p :: addr
  aux_length :: int
  max_length :: int

type_synonym 'x out_func = "u8 \<Rightarrow> bytes \<times> 'x \<Rightarrow> bytes \<times> 'x"

section \<open>Parsing a conversion\<close>

definition va_arg :: "u32 list \<Rightarrow> (u32 \<times> u32 list) option" where
  "va_arg args = (case args of [] \<Rightarrow> None | a # as \<Rightarrow> Some (a, as))"

definition va_arg64 :: "u32 list \<Rightarrow> (u64 \<times> u32 list) option" where
  "va_arg64 args = do {
     (lo, args) \<leftarrow> va_arg args;
     (hi, args) \<leftarrow> va_arg args;
     Some (ucast lo + 2 ^ 32 * ucast hi, args)
   }"

definition flag_of :: "u8 \<Rightarrow> flag option" where
  "flag_of c =
     (if c = chr CHR ''-'' then Some MINUS else if c = chr CHR ''+'' then Some PLUS
      else if c = chr CHR '' '' then Some SPACE else if c = chr CHR ''#'' then Some POUND
      else if c = chr CHR ''0'' then Some ZERO else if c = 39 then Some GROUP else None)"

partial_function (option) parse_flags :: "bytes \<Rightarrow> ctext \<Rightarrow> nat \<Rightarrow> flag set \<Rightarrow> (flag set \<times> nat) option" where
  [code]: "parse_flags m fmt i fl =
     (case flag_of (char_at m fmt i) of
        Some f \<Rightarrow> parse_flags m fmt (i + 1) (insert f fl)
      | None \<Rightarrow> Some (fl, i))"

partial_function (option) parse_number :: "bytes \<Rightarrow> ctext \<Rightarrow> nat \<Rightarrow> int \<Rightarrow> (int \<times> nat) option" where
  [code]: "parse_number m fmt i v =
     (if isdigit (sint (char_at m fmt i))
      then parse_number m fmt (i + 1) (s32 (s32 (s32 (v * 10) + sint (char_at m fmt i)) - 48))
      else Some (v, i))"

definition parse_type :: "bytes \<Rightarrow> ctext \<Rightarrow> nat \<Rightarrow> arg_type \<times> nat" where
  "parse_type m fmt i =
     (if char_at m fmt i = chr CHR ''h'' then
        (if char_at m fmt (i + 1) = chr CHR ''h'' then (CHAR_T, i + 2) else (SHORT_T, i + 1))
      else if char_at m fmt i = chr CHR ''j'' then (INTMAX_T, i + 1)
      else if char_at m fmt i = chr CHR ''l'' then
        (if char_at m fmt (i + 1) = chr CHR ''l'' then (LONGLONG_T, i + 2) else (LONG_T, i + 1))
      else if char_at m fmt i = chr CHR ''t'' then (PTRDIFFT_T, i + 1)
      else if char_at m fmt i = chr CHR ''z'' then (SIZET_T, i + 1)
      else (INT_T, i))"

definition parse_conversion :: "bytes \<Rightarrow> ctext \<Rightarrow> nat \<Rightarrow> u32 list \<Rightarrow> (printf_conversion \<times> nat \<times> u32 list) option" where
  "parse_conversion m fmt i args = do {
     (fl, i) \<leftarrow> parse_flags m fmt i {};
     let fl = (if MINUS \<in> fl then fl - {ZERO} else fl);
     let fl = (if PLUS \<in> fl then fl - {SPACE} else fl);
     (w, i, args) \<leftarrow> (if char_at m fmt i = chr CHR ''*'' then do {
                          (a, args) \<leftarrow> va_arg args;
                          Some (sint a, i + 1, args)
                        }
                        else do {
                          (w, i) \<leftarrow> parse_number m fmt i 0;
                          Some (w, i, args)
                        });
     let (w, fl) = (if w < 0 then (s32 (- w), insert MINUS fl) else (w, fl));
     (p, i, args) \<leftarrow> (if char_at m fmt i = chr CHR ''.'' then do {
                          (p, i, args) \<leftarrow> (if char_at m fmt (i + 1) = chr CHR ''*'' then do {
                                               (a, args) \<leftarrow> va_arg args;
                                               Some (sint a, i + 2, args)
                                             }
                                             else do {
                                               (p, i) \<leftarrow> parse_number m fmt (i + 1) 0;
                                               Some (p, i, args)
                                             });
                          Some (if p < 0 then -1 else p, i, args)
                        }
                        else Some (-1, i, args));
     let fl = (if p \<ge> 0 then fl - {ZERO} else fl);
     let (t, i) = parse_type m fmt i;
     Some (\<lparr>flags = fl, width = w, precision = p, atype = t\<rparr>, i, args)
   }"

section \<open>Conversions\<close>

fun output_dup :: "u8 \<Rightarrow> nat \<Rightarrow> 'x out_func \<Rightarrow> bytes \<times> 'x \<Rightarrow> bytes \<times> 'x" where
  "output_dup c 0 out s = s"
| "output_dup c (Suc n) out s = output_dup c n out (out c s)"

text \<open>The buffer of 64 characters, in the order in which it is filled.\<close>

definition push :: "u8 \<Rightarrow> u8 list \<Rightarrow> u8 list option" where
  "push c buf = (if length buf < 64 then Some (buf @ [c]) else None)"

partial_function (option) digits_loop :: "flag set \<Rightarrow> integer_base \<Rightarrow> u64 \<Rightarrow> nat \<Rightarrow> u8 list \<Rightarrow> u8 list option" where
  [code]: "digits_loop fl b value digit_cnt buf =
     (if value > 0 then do {
        buf \<leftarrow> (if GROUP \<in> fl \<and> digit_cnt > 0 \<and> digit_cnt mod igroup b = 0 then push (chr CHR '','') buf else Some buf);
        buf \<leftarrow> push (idigits b ! unat (value mod ibase b)) buf;
        digits_loop fl b (value div ibase b) (digit_cnt + 1) buf
      }
      else Some buf)"

function zeros_loop :: "int \<Rightarrow> u8 list \<Rightarrow> u8 list" where
  "zeros_loop prec buf = (if int (length buf) < prec \<and> length buf < 63 then zeros_loop prec (buf @ [chr CHR ''0'']) else buf)"
  by pat_completeness auto
termination by (relation "measure (\<lambda>(prec, buf). 63 - length buf)") auto

fun output_rev :: "u8 list \<Rightarrow> 'x out_func \<Rightarrow> bytes \<times> 'x \<Rightarrow> bytes \<times> 'x" where
  "output_rev [] out s = s"
| "output_rev (c # cs) out s = output_rev cs out (out c s)"

definition format_integer :: "u64 \<Rightarrow> bool \<Rightarrow> bool \<Rightarrow> integer_base \<Rightarrow> printf_conversion \<Rightarrow> 'x out_func \<Rightarrow> bytes \<times> 'x \<Rightarrow> (bytes \<times> 'x) option" where
  "format_integer value is_signed negative b c out s = do {
     let sign = (if is_signed then
                   (if PLUS \<in> flags c then (if negative then chr CHR ''-'' else chr CHR ''+'')
                    else if SPACE \<in> flags c then (if negative then chr CHR ''-'' else chr CHR '' '')
                    else if negative then chr CHR ''-'' else 0)
                 else 0);
     let x = (if POUND \<in> flags c \<and> value \<noteq> 0 then ix b else 0);
     buf \<leftarrow> digits_loop (flags c) b value 0 [];
     let buf = zeros_loop (if precision c < 0 then 1 else precision c) buf;
     buf \<leftarrow> (if POUND \<in> flags c \<and> ibase b = 8 \<and> (buf = [] \<or> last buf \<noteq> chr CHR ''0'')
             then push (chr CHR ''0'') buf else Some buf);
     let pad_cnt = nat (width c - int (length buf) - (if x \<noteq> 0 then 2 else 0) - (if sign \<noteq> 0 then 1 else 0));
     let s = (if MINUS \<notin> flags c \<and> ZERO \<notin> flags c then output_dup (chr CHR '' '') pad_cnt out s else s);
     let s = (if sign \<noteq> 0 then out sign s else s);
     let s = (if x \<noteq> 0 then out x (out (chr CHR ''0'') s) else s);
     let s = (if ZERO \<in> flags c then output_dup (chr CHR ''0'') pad_cnt out s else s);
     let s = output_rev (rev buf) out s;
     Some (if MINUS \<in> flags c then output_dup (chr CHR '' '') pad_cnt out s else s)
   }"

fun output_text :: "nat \<Rightarrow> nat \<Rightarrow> ctext \<Rightarrow> 'x out_func \<Rightarrow> bytes \<times> 'x \<Rightarrow> bytes \<times> 'x" where
  "output_text 0 i t out s = s"
| "output_text (Suc n) i t out s = output_text n (i + 1) t out (out (char_at (fst s) t i) s)"

definition format_string :: "ctext \<Rightarrow> int \<Rightarrow> printf_conversion \<Rightarrow> 'x out_func \<Rightarrow> bytes \<times> 'x \<Rightarrow> bytes \<times> 'x" where
  "format_string t len c out s =
     (let s = (if width c > len \<and> MINUS \<notin> flags c then output_dup (chr CHR '' '') (nat (width c - len)) out s else s);
          s = output_text (nat len) 0 t out s
      in if width c > len \<and> MINUS \<in> flags c then output_dup (chr CHR '' '') (nat (width c - len)) out s else s)"

text \<open>The arguments of the integer conversions, at the widths of the 32-bit machine.\<close>

definition signed_arg :: "arg_type \<Rightarrow> u32 list \<Rightarrow> (int \<times> u32 list) option" where
  "signed_arg t args =
     (if t = INTMAX_T \<or> t = LONGLONG_T then do { (a, args) \<leftarrow> va_arg64 args; Some (sint a, args) }
      else do {
        (a, args) \<leftarrow> va_arg args;
        Some (case t of CHAR_T \<Rightarrow> sint (ucast a :: u8) | SHORT_T \<Rightarrow> sint (ucast a :: u16)
              | SIZET_T \<Rightarrow> if uint a > 0xffffffff div 2 then uint a - 0xffffffff - 1 else uint a
              | _ \<Rightarrow> sint a, args)
      })"

definition unsigned_arg :: "arg_type \<Rightarrow> u32 list \<Rightarrow> (u64 \<times> u32 list) option" where
  "unsigned_arg t args =
     (if t = INTMAX_T \<or> t = LONGLONG_T then va_arg64 args
      else do {
        (a, args) \<leftarrow> va_arg args;
        Some (case t of CHAR_T \<Rightarrow> ucast (ucast a :: u8) | SHORT_T \<Rightarrow> ucast (ucast a :: u16)
              | PTRDIFFT_T \<Rightarrow> scast a AND (push_bit 1 0x7fffffff OR 1)
              | _ \<Rightarrow> ucast a, args)
      })"

section \<open>The main loop\<close>

partial_function (option) vprintf_loop ::
    "ctext \<Rightarrow> nat \<Rightarrow> u32 list \<Rightarrow> 'x out_func \<Rightarrow> bytes \<times> 'x \<Rightarrow> (bytes \<times> 'x) option" where
  [code]: "vprintf_loop fmt i args out s =
     (if \<not> in_text fmt i then None
      else if char_at (fst s) fmt i = 0 then Some s
      else if char_at (fst s) fmt i \<noteq> chr CHR ''%'' then
        vprintf_loop fmt (i + 1) args out (out (char_at (fst s) fmt i) s)
      else if char_at (fst s) fmt (i + 1) = chr CHR ''%'' then vprintf_loop fmt (i + 2) args out (out (chr CHR ''%'') s)
      else do {
        (c, i, args) \<leftarrow> parse_conversion (fst s) fmt (i + 1) args;
        let f = char_at (fst s) fmt i;
        (args, s) \<leftarrow>
          (if f \<in> {chr CHR ''d'', chr CHR ''i''} then do {
             (value, args) \<leftarrow> signed_arg (atype c) args;
             s \<leftarrow> format_integer (of_int (if value < 0 then - value else value)) True (value < 0) base_d c out s;
             Some (args, s)
           }
           else if f \<in> {chr CHR ''o'', chr CHR ''u'', chr CHR ''x'', chr CHR ''X''} then do {
             (value, args) \<leftarrow> unsigned_arg (atype c) args;
             let b = (if f = chr CHR ''o'' then base_o else if f = chr CHR ''u'' then base_d
                      else if f = chr CHR ''x'' then base_x else base_X);
             s \<leftarrow> format_integer value False False b c out s;
             Some (args, s)
           }
           else if f = chr CHR ''c'' then do {
             (a, args) \<leftarrow> va_arg args;
             Some (args, format_string (Inl [ucast a]) 1 c out s)
           }
           else if f = chr CHR ''s'' then do {
             (a, args) \<leftarrow> va_arg args;
             let t = (if a = NULL then Inl (str ''(null)'') else Inr a);
             let len = (if a = NULL then (if of_int (precision c) < (6 :: u32) then of_int (precision c) else 6)
                        else strnlen a (of_int (precision c)) (fst s));
             Some (args, format_string t (sint (len :: u32)) c out s)
           }
           else if f = chr CHR ''p'' then do {
             (a, args) \<leftarrow> va_arg args;
             s \<leftarrow> format_integer (ucast a) False False base_x (c\<lparr>flags := {POUND}\<rparr>) out s;
             Some (args, s)
           }
           else if f \<in> {chr CHR ''f'', chr CHR ''e'', chr CHR ''E'', chr CHR ''g'', chr CHR ''G'', chr CHR ''n''} then do {
             s \<leftarrow> vprintf_loop (Inl (str ''<<no %%%c in kernel>>'')) 0 [ucast f] out s;
             Some (args, s)
           }
           else do {
             s \<leftarrow> vprintf_loop (Inl (str ''<<no %%%c conversion>>'')) 0 [ucast f] out s;
             Some (args, s)
           });
        vprintf_loop fmt (i + 1) args out s
      })"

definition vprintf_core :: "ctext \<Rightarrow> u32 list \<Rightarrow> 'x out_func \<Rightarrow> bytes \<times> 'x \<Rightarrow> (bytes \<times> 'x) option" where
  "vprintf_core fmt args out s = vprintf_loop fmt 0 args out s"

section \<open>Output to a buffer\<close>

definition vsnprintf_helper :: "vsnprintf_aux out_func" where
  "vsnprintf_helper c s =
     (case s of (m, aux) \<Rightarrow>
        if aux_length aux < max_length aux
        then (m(aux_p aux := c), aux\<lparr>aux_length := s32 (aux_length aux + 1), aux_p := aux_p aux + 1\<rparr>)
        else (m, aux\<lparr>aux_length := s32 (aux_length aux + 1)\<rparr>))"

definition vsnprintf :: "addr \<Rightarrow> u32 \<Rightarrow> ctext \<Rightarrow> u32 list \<Rightarrow> bytes \<Rightarrow> (int \<times> bytes) option" where
  "vsnprintf buffer buf_size fmt args m = do {
     let aux = \<lparr>aux_p = buffer, aux_length = 0, max_length = (if buf_size > 0 then sint (buf_size - 1) else 0)\<rparr>;
     (m, aux) \<leftarrow> vprintf_core fmt args vsnprintf_helper (m, aux);
     Some (aux_length aux, if buf_size > 0 then m(aux_p aux := 0) else m)
   }"

definition snprintf :: "addr \<Rightarrow> u32 \<Rightarrow> ctext \<Rightarrow> u32 list \<Rightarrow> bytes \<Rightarrow> (int \<times> bytes) option" where
  "snprintf buffer buf_size fmt args m = vsnprintf buffer buf_size fmt args m"

section \<open>Output to the console\<close>

text \<open>The console is the sequence of characters given to the serial port and the display, and their number.  The
  lock around it is not part of the state: a call is one step.\<close>

record console =
  shown :: "u8 list"
  write_cnt :: int

definition putchar_have_lock :: "u8 \<Rightarrow> console \<Rightarrow> console" where
  "putchar_have_lock c con = con\<lparr>write_cnt := s64 (write_cnt con + 1), shown := shown con @ [c]\<rparr>"

definition vprintf_helper :: "(int \<times> console) out_func" where
  "vprintf_helper c s = (case s of (m, char_cnt, con) \<Rightarrow> (m, s32 (char_cnt + 1), putchar_have_lock c con))"

definition vprintf :: "ctext \<Rightarrow> u32 list \<Rightarrow> bytes \<Rightarrow> console \<Rightarrow> (int \<times> console) option" where
  "vprintf fmt args m con = do {
     (m, char_cnt, con) \<leftarrow> vprintf_core fmt args vprintf_helper (m, 0, con);
     Some (char_cnt, con)
   }"

definition printf :: "ctext \<Rightarrow> u32 list \<Rightarrow> bytes \<Rightarrow> console \<Rightarrow> (int \<times> console) option" where
  "printf fmt args m con = vprintf fmt args m con"

partial_function (option) puts_loop :: "addr \<Rightarrow> bytes \<Rightarrow> console \<Rightarrow> console option" where
  [code]: "puts_loop s m con = (if m s \<noteq> 0 then puts_loop (s + 1) m (putchar_have_lock (m s) con) else Some con)"

definition puts :: "addr \<Rightarrow> bytes \<Rightarrow> console \<Rightarrow> (int \<times> console) option" where
  "puts s m con = do {
     con \<leftarrow> puts_loop s m con;
     Some (0, putchar_have_lock 10 con)
   }"

fun putbuf :: "addr \<Rightarrow> nat \<Rightarrow> bytes \<Rightarrow> console \<Rightarrow> console" where
  "putbuf buffer 0 m con = con"
| "putbuf buffer (Suc n) m con = putbuf (buffer + 1) n m (putchar_have_lock (m buffer) con)"

definition putchar :: "u32 \<Rightarrow> console \<Rightarrow> u32 \<times> console" where
  "putchar c con = (c, putchar_have_lock (ucast c) con)"

definition console_print_stats :: "bytes \<Rightarrow> console \<Rightarrow> console option" where
  "console_print_stats m con = do {
     (_, con) \<leftarrow> printf (Inl (str ''Console: %lld characters output'' @ [10]))
        [of_int (write_cnt con), of_int (write_cnt con div 2 ^ 32)] m con;
     Some con
   }"

function size_loop :: "u64 \<Rightarrow> string list \<Rightarrow> u64 \<times> string list" where
  "size_loop sz fp =
     (if 1024 \<le> sz \<and> length fp > 1 then size_loop (sz div 1024) (tl fp) else (sz, fp))"
  by pat_completeness auto
termination by (relation "measure (\<lambda>(sz, fp). length fp)") auto

text \<open>The second argument of the last call is a constant string, so the conversion \<^verbatim>\<open>%s\<close> is written out.\<close>

definition print_human_readable_size :: "u64 \<Rightarrow> bytes \<Rightarrow> console \<Rightarrow> console option" where
  "print_human_readable_size sz m con =
     (if sz = 1 then do { (_, con) \<leftarrow> printf (Inl (str ''1 byte'')) [] m con; Some con }
      else do {
        let (sz, fp) = size_loop sz [''bytes'', ''kB'', ''MB'', ''GB'', ''TB''];
        (_, con) \<leftarrow> printf (Inl (str ''%llu '' @ str (hd fp))) [ucast sz, ucast (drop_bit 32 sz)] m con;
        Some con
      })"

text \<open>\<open>prints\<close> makes a sequence of calls of \<^verbatim>\<open>printf\<close>; a line of \<^verbatim>\<open>hex_dump\<close> is one such sequence.\<close>

fun prints :: "(u8 list \<times> u32 list) list \<Rightarrow> bytes \<Rightarrow> console \<Rightarrow> console option" where
  "prints [] m con = Some con"
| "prints ((fmt, args) # cs) m con = do { (_, con) \<leftarrow> printf (Inl fmt) args m con; prints cs m con }"

definition hex_line :: "u32 \<Rightarrow> addr \<Rightarrow> nat \<Rightarrow> nat \<Rightarrow> bool \<Rightarrow> bytes \<Rightarrow> (u8 list \<times> u32 list) list" where
  "hex_line ofs buf start en ascii m =
     [(str ''%08jx  '', [ofs - ofs mod 16, 0])] @
     replicate start (str ''   '', []) @
     map (\<lambda>i. (str ''%02hhx%c'', [ucast (m (buf + of_nat (i - start))), if i = 7 then ucast (chr CHR ''-'') else ucast (chr CHR '' '')]))
       [start..<en] @
     (if ascii then
        replicate (16 - en) (str ''   '', []) @ [(str ''|'', [])] @ replicate start (str '' '', []) @
        map (\<lambda>i. (str ''%c'', [if isprint (uint (m (buf + of_nat (i - start)))) then ucast (m (buf + of_nat (i - start))) else ucast (chr CHR ''.'')]))
          [start..<en] @
        replicate (16 - en) (str '' '', []) @ [(str ''|'', [])]
      else []) @
     [([10], [])]"

function hex_dump :: "u32 \<Rightarrow> addr \<Rightarrow> nat \<Rightarrow> bool \<Rightarrow> bytes \<Rightarrow> console \<Rightarrow> console option" where
  "hex_dump ofs buf sz ascii m con =
     (if sz = 0 then Some con
      else do {
        let start = unat (ofs mod 16);
        let en = (if 16 - start > sz then start + sz else 16);
        con \<leftarrow> prints (hex_line ofs buf start en ascii m) m con;
        hex_dump (ofs + of_nat (en - start)) (buf + of_nat (en - start)) (sz - (en - start)) ascii m con
      })"
  by pat_completeness auto
termination
proof (relation "measure (\<lambda>(ofs, buf, sz, ascii, m, con). sz)")
  fix ofs :: u32 and buf :: addr and sz start en :: nat and ascii m con con'
  assume *: "sz \<noteq> 0" "start = unat (ofs mod 16)" "en = (if 16 - start > sz then start + sz else 16)"
  have "unat (ofs mod 16) < 16" by (simp add: unat_mod)
  then have "0 < en - start" using * by auto
  then show "((ofs + of_nat (en - start), buf + of_nat (en - start), sz - (en - start), ascii, m, con'), ofs, buf, sz, ascii, m, con)
      \<in> measure (\<lambda>(ofs, buf, sz, ascii, m, con). sz)" using * by simp
qed simp

section \<open>What is written\<close>

declare zeros_loop.simps [simp del] hex_dump.simps [simp del]

lemma output_dup_fold [simp]: "output_dup c n out s = fold out (replicate n c) s"
  by (induction n arbitrary: s) simp_all

lemma output_rev_fold [simp]: "output_rev cs out s = fold out cs s"
  by (induction cs arbitrary: s) simp_all

text \<open>The digits of a number, least significant first.\<close>

function nat_digits :: "nat \<Rightarrow> nat \<Rightarrow> nat list" where
  "nat_digits b n = (if b < 2 \<or> n = 0 then [] else n mod b # nat_digits b (n div b))"
  by pat_completeness auto
termination by (relation "measure snd") auto

declare nat_digits.simps [simp del]

lemma nat_digits_0 [simp]: "nat_digits b 0 = []"
  by (simp add: nat_digits.simps)

lemma nat_digits_step: "2 \<le> b \<Longrightarrow> 0 < n \<Longrightarrow> nat_digits b n = n mod b # nat_digits b (n div b)"
  by (simp add: nat_digits.simps [of b n])

lemma nat_digits_less: "2 \<le> b \<Longrightarrow> d \<in> set (nat_digits b n) \<Longrightarrow> d < b"
proof (induction b n rule: nat_digits.induct)
  case (1 b n)
  then show ?case by (cases "n = 0") (auto simp: nat_digits_step)
qed

lemma length_nat_digits: "2 \<le> b \<Longrightarrow> n < b ^ k \<Longrightarrow> length (nat_digits b n) \<le> k"
proof (induction k arbitrary: n)
  case (Suc k)
  then have "n div b < b ^ k" by (simp add: less_mult_imp_div_less mult.commute)
  then show ?case using Suc by (cases "n = 0") (simp_all add: nat_digits_step)
qed simp

lemma nat_digits_value: "2 \<le> b \<Longrightarrow> foldr (\<lambda>d v. d + b * v) (nat_digits b n) 0 = n"
proof (induction b n rule: nat_digits.induct)
  case (1 b n)
  then show ?case by (cases "n = 0") (simp_all add: nat_digits_step)
qed

text \<open>Digits with a comma after each group.\<close>

fun group_digits :: "bool \<Rightarrow> nat \<Rightarrow> nat \<Rightarrow> u8 list \<Rightarrow> u8 list" where
  "group_digits g k n [] = []"
| "group_digits g k n (d # ds) = (if g \<and> 0 < n \<and> n mod k = 0 then [chr CHR '','', d] else [d]) @ group_digits g k (n + 1) ds"

lemma length_group_digits: "length (group_digits g k n ds) \<le> 2 * length ds"
proof (induction ds arbitrary: n)
  case (Cons d ds)
  have "length (group_digits g k (n + 1) ds) \<le> 2 * length ds" by (rule Cons.IH)
  then show ?case by auto
qed simp

lemma group_digits_off [simp]: "group_digits False k n ds = ds"
  by (induction ds arbitrary: n) auto

definition digit_text :: "integer_base \<Rightarrow> u64 \<Rightarrow> u8 list" where
  "digit_text b v = map (\<lambda>d. idigits b ! d) (nat_digits (unat (ibase b)) (unat v))"

lemma digits_loop_ok:
  assumes "2 \<le> unat (ibase b)"
  shows "length buf + 2 * length (digit_text b v) \<le> 64 \<Longrightarrow>
    digits_loop fl b v n buf = Some (buf @ group_digits (GROUP \<in> fl) (igroup b) n (digit_text b v))"
proof (induction "unat v" arbitrary: v n buf rule: less_induct)
  case less
  show ?case
  proof (cases "v = 0")
    case True then show ?thesis by (simp add: digits_loop.simps [of fl b 0] digit_text_def)
  next
    case False
    then have v: "0 < unat v" by (simp add: unat_gt_0)
    have t: "digit_text b v = idigits b ! (unat (v mod ibase b)) # digit_text b (v div ibase b)"
      using v assms by (simp add: digit_text_def nat_digits_step unat_div unat_mod)
    have "unat (v div ibase b) < unat v" using v assms by (simp add: unat_div)
    note IH = less.hyps [OF this]
    let ?x = "idigits b ! (unat (v mod ibase b))"
    show ?thesis using less.prems t False IH [of "buf @ [?x]"] IH [of "buf @ [chr CHR '','', ?x]"]
      by (auto simp: digits_loop.simps [of fl b v] push_def word_gt_0)
  qed
qed

lemma zeros_loop_eq: "zeros_loop p buf = buf @ replicate (nat (min p 63) - length buf) (chr CHR ''0'')"
proof (induction p buf rule: zeros_loop.induct)
  case (1 p buf)
  show ?case
  proof (cases "int (length buf) < p \<and> length buf < 63")
    case True
    then have "nat (min p 63) - length buf = Suc (nat (min p 63) - Suc (length buf))" by linarith
    then show ?thesis using 1 True by (simp add: zeros_loop.simps [of p buf])
  next
    case False
    then have "nat (min p 63) - length buf = 0" by linarith
    then show ?thesis by (subst zeros_loop.simps) (simp only: False if_False replicate_0 append_Nil2)
  qed
qed

text \<open>The text of an integer conversion.\<close>

definition sign_text :: "bool \<Rightarrow> bool \<Rightarrow> printf_conversion \<Rightarrow> u8 list" where
  "sign_text is_signed negative c =
     (if \<not> is_signed then []
      else if negative then [chr CHR ''-'']
      else if PLUS \<in> flags c then [chr CHR ''+'']
      else if SPACE \<in> flags c then [chr CHR '' ''] else [])"

definition num_text :: "u64 \<Rightarrow> integer_base \<Rightarrow> printf_conversion \<Rightarrow> u8 list" where
  "num_text v b c =
     (let ds = zeros_loop (if precision c < 0 then 1 else precision c) (group_digits (GROUP \<in> flags c) (igroup b) 0 (digit_text b v))
      in rev (if POUND \<in> flags c \<and> ibase b = 8 \<and> (ds = [] \<or> last ds \<noteq> chr CHR ''0'') then ds @ [chr CHR ''0''] else ds))"

definition prefix_text :: "u64 \<Rightarrow> integer_base \<Rightarrow> printf_conversion \<Rightarrow> u8 list" where
  "prefix_text v b c = (if POUND \<in> flags c \<and> v \<noteq> 0 \<and> ix b \<noteq> 0 then [chr CHR ''0'', ix b] else [])"

definition int_text :: "u64 \<Rightarrow> bool \<Rightarrow> bool \<Rightarrow> integer_base \<Rightarrow> printf_conversion \<Rightarrow> u8 list" where
  "int_text v is_signed negative b c =
     (let body = sign_text is_signed negative c @ prefix_text v b c; num = num_text v b c;
          pad = nat (width c - int (length (body @ num)))
      in (if MINUS \<notin> flags c \<and> ZERO \<notin> flags c then replicate pad (chr CHR '' '') else []) @ body @
         (if ZERO \<in> flags c then replicate pad (chr CHR ''0'') else []) @ num @
         (if MINUS \<in> flags c then replicate pad (chr CHR '' '') else []))"

lemma bases_ok:
  "b \<in> {base_d, base_o, base_x, base_X} \<Longrightarrow> 8 \<le> unat (ibase b)"
  by (auto simp: base_d_def base_o_def base_x_def base_X_def)

lemma length_digit_text: "b \<in> {base_d, base_o, base_x, base_X} \<Longrightarrow> length (digit_text b v) \<le> 22"
proof -
  assume b: "b \<in> {base_d, base_o, base_x, base_X}"
  have "unat v < 2 ^ 64" using unsigned_less [of v, where ?'a = nat] by simp
  also have "(2 :: nat) ^ 64 \<le> 8 ^ 22" by simp
  also have "\<dots> \<le> unat (ibase b) ^ 22" using bases_ok [OF b] by (rule power_mono) simp
  finally show ?thesis using length_nat_digits [of "unat (ibase b)" "unat v" 22] bases_ok [OF b] by (simp add: digit_text_def)
qed

text \<open>An integer conversion in one of the four bases never overruns the buffer, and writes its text.\<close>

lemma format_integer_ok:
  assumes b: "b \<in> {base_d, base_o, base_x, base_X}"
  shows "format_integer v sg neg b c out s = Some (fold out (int_text v sg neg b c) s)"
proof -
  let ?g = "group_digits (GROUP \<in> flags c) (igroup b) 0 (digit_text b v)"
  let ?z = "zeros_loop (if precision c < 0 then 1 else precision c) ?g"
  have l: "length (digit_text b v) \<le> 22" by (rule length_digit_text [OF b])
  have d: "digits_loop (flags c) b v 0 [] = Some ?g" using digits_loop_ok [of b "[]" v "flags c" 0] bases_ok [OF b] l by simp
  have "length ?g \<le> 44" using length_group_digits [of "GROUP \<in> flags c" "igroup b" 0 "digit_text b v"] l by simp
  then have z: "length ?z < 64" by (simp add: zeros_loop_eq)
  have n: "num_text v b c = rev (if POUND \<in> flags c \<and> ibase b = 8 \<and> (?z = [] \<or> last ?z \<noteq> chr CHR ''0'') then ?z @ [chr CHR ''0''] else ?z)"
    by (simp add: num_text_def Let_def)
  have p: "(if POUND \<in> flags c \<and> ibase b = 8 \<and> (?z = [] \<or> last ?z \<noteq> chr CHR ''0'') then push (chr CHR ''0'') ?z else Some ?z)
      = Some (rev (num_text v b c))" unfolding n using z by (simp add: push_def)
  define sign where "sign = (if sg then (if PLUS \<in> flags c then (if neg then chr CHR ''-'' else chr CHR ''+'')
        else if SPACE \<in> flags c then (if neg then chr CHR ''-'' else chr CHR '' '') else if neg then chr CHR ''-'' else 0) else (0 :: u8))"
  have sn: "sign_text sg neg c = (if sign \<noteq> 0 then [sign] else [])" by (simp add: sign_text_def sign_def)
  define x where "x = (if POUND \<in> flags c \<and> v \<noteq> 0 then ix b else 0)"
  have xn: "prefix_text v b c = (if x \<noteq> 0 then [chr CHR ''0'', x] else [])" by (simp add: prefix_text_def x_def)
  define w where "w = length (num_text v b c)"
  show ?thesis unfolding format_integer_def Let_def d option.sel bind.bind_lunit p int_text_def sn xn
    by (simp add: fold_append add.commute diff_diff_eq flip: sign_def x_def)
qed

section \<open>Reading the format\<close>

definition rest_at :: "u8 list \<Rightarrow> nat \<Rightarrow> u8 list \<Rightarrow> bool" where
  "rest_at cs i r \<longleftrightarrow> i \<le> length cs \<and> drop i cs = r"

lemma rest_at_char: "rest_at cs i r \<Longrightarrow> char_at m (Inl cs) (i + k) = (if k < length r then r ! k else 0)"
  by (auto simp: rest_at_def char_at_def)

lemma rest_at_head: "rest_at cs i (x # r) \<Longrightarrow> char_at m (Inl cs) i = x" "rest_at cs i [] \<Longrightarrow> char_at m (Inl cs) i = 0"
  using rest_at_char [of cs i "x # r" m 0] rest_at_char [of cs i "[]" m 0] by simp_all

lemma rest_at_in: "rest_at cs i r \<Longrightarrow> in_text (Inl cs) i"
  by (simp add: rest_at_def in_text_def)

lemma rest_at_append: "rest_at cs i (xs @ r) \<Longrightarrow> rest_at cs (i + length xs) r"
proof -
  assume r: "rest_at cs i (xs @ r)"
  then have "length (drop i cs) = length xs + length r" "i \<le> length cs" by (simp_all add: rest_at_def)
  then have "i + length xs \<le> length cs" unfolding length_drop by linarith
  moreover have "drop (length xs) (drop i cs) = r" using r unfolding rest_at_def by (metis append_eq_conv_conj)
  ultimately show ?thesis by (simp add: rest_at_def add.commute)
qed

lemma rest_at_Cons: "rest_at cs i (x # r) \<Longrightarrow> rest_at cs (i + 1) r" "rest_at cs i (x # r) \<Longrightarrow> rest_at cs (Suc i) r"
  using rest_at_append [of cs i "[x]" r] by simp_all

lemma parse_flags_ok:
  "rest_at cs i (fs @ r) \<Longrightarrow> \<forall>x\<in>set fs. flag_of x \<noteq> None \<Longrightarrow> r \<noteq> [] \<Longrightarrow> flag_of (hd r) = None \<Longrightarrow>
     parse_flags m (Inl cs) i fl = Some (fl \<union> (the \<circ> flag_of) ` set fs, i + length fs)"
proof (induction fs arbitrary: i fl)
  case Nil
  then show ?case by (cases r) (simp_all add: parse_flags.simps [of m _ i] rest_at_head(1))
next
  case (Cons x fs)
  have "rest_at cs (Suc i) (fs @ r)" using Cons.prems(1) rest_at_Cons(2) by simp
  note IH = Cons.IH [OF this]
  obtain f where "flag_of x = Some f" using Cons.prems(2) by auto
  then show ?case using Cons.prems IH rest_at_head(1) [of cs i x "fs @ r"] by (simp add: parse_flags.simps [of m _ i])
qed

lemma s32_cong_add: "s32 (s32 (s32 (s32 x * 10) + y) - z) = s32 (x * 10 + y - z)"
proof -
  obtain k where k: "s32 x = x + k * 2 ^ 32" using s32_mod by blast
  obtain l where l: "s32 (s32 x * 10) = s32 x * 10 + l * 2 ^ 32" using s32_mod by blast
  obtain j where j: "s32 (s32 (s32 x * 10) + y) = s32 (s32 x * 10) + y + j * 2 ^ 32" using s32_mod by blast
  show ?thesis unfolding j unfolding l unfolding k by (intro s32_eqI) (simp add: algebra_simps)
qed

lemma parse_number_ok:
  "rest_at cs i (ds @ r) \<Longrightarrow> \<forall>x\<in>set ds. digit x \<Longrightarrow> r \<noteq> [] \<Longrightarrow> \<not> digit (hd r) \<Longrightarrow>
     parse_number m (Inl cs) i (s32 (dec_value es)) = Some (s32 (dec_value (es @ ds)), i + length ds)"
proof (induction ds arbitrary: i es)
  case Nil
  then show ?case by (cases r) (simp_all add: parse_number.simps [of m _ i] rest_at_head(1) isdigit_iff)
next
  case (Cons x ds)
  have "rest_at cs (Suc i) (ds @ r)" using Cons.prems(1) rest_at_Cons(2) by simp
  note IH = Cons.IH [OF this, of "es @ [x]"]
  have x: "digit x" using Cons.prems(2) by simp
  then have "sint x = uint x" by (intro sint_small8) (simp add: digit_def)
  then have "s32 (s32 (s32 (s32 (dec_value es) * 10) + sint x) - 48) = s32 (dec_value (es @ [x]))"
    unfolding s32_cong_add dec_value_snoc by (simp add: algebra_simps)
  then show ?case using IH Cons.prems x rest_at_head(1) [of cs i x "ds @ r"] by (simp add: parse_number.simps [of m _ i] isdigit_iff)
qed

section \<open>Formats without precision and length modifiers\<close>

datatype piece = Lit u8 | Percent | Num u8 "u8 list" "u8 list" u32 | Chr u32 | Str addr "u8 list"

definition conversion :: "u8 list \<Rightarrow> u8 list \<Rightarrow> printf_conversion" where
  "conversion fs ws =
     (let fl = (the \<circ> flag_of) ` set fs; fl = (if MINUS \<in> fl then fl - {ZERO} else fl)
      in \<lparr>flags = (if PLUS \<in> fl then fl - {SPACE} else fl), width = dec_value ws, precision = -1, atype = INT_T\<rparr>)"

definition base_of :: "u8 \<Rightarrow> integer_base" where
  "base_of f = (if f = chr CHR ''o'' then base_o else if f = chr CHR ''x'' then base_x
                else if f = chr CHR ''X'' then base_X else base_d)"

text \<open>The text of an integer conversion \<open>f\<close> with the flag characters \<open>fs\<close> and a field width, as the C standard describes it; a quote asks for commas between groups of digits.\<close>

definition flag_chars :: "u8 list" where
  "flag_chars = str ''-+ #0'' @ [39]"

definition radix :: "u8 \<Rightarrow> nat" where
  "radix f = (if f = chr CHR ''o'' then 8 else if f \<in> set (str ''xX'') then 16 else 10)"

definition digit_char :: "u8 \<Rightarrow> nat \<Rightarrow> u8" where
  "digit_char f d = (if d < 10 then 48 + of_nat d else if f = chr CHR ''X'' then 55 + of_nat d else 87 + of_nat d)"

definition magnitude :: "u8 \<Rightarrow> u32 \<Rightarrow> nat" where
  "magnitude f a = (if f \<in> set (str ''di'') then nat \<bar>sint a\<bar> else unat a)"

definition number_text :: "u8 \<Rightarrow> u8 list \<Rightarrow> nat \<Rightarrow> u8 list" where
  "number_text f fs n =
     (let ds = (if n = 0 then str ''0''
                else rev (group_digits (39 \<in> set fs) (if radix f = 16 then 4 else 3) 0 (map (digit_char f) (nat_digits (radix f) n))))
      in if chr CHR ''#'' \<in> set fs \<and> f = chr CHR ''o'' \<and> hd ds \<noteq> chr CHR ''0'' then chr CHR ''0'' # ds else ds)"

definition front_text :: "u8 \<Rightarrow> u8 list \<Rightarrow> u32 \<Rightarrow> u8 list" where
  "front_text f fs a =
     (if f \<in> set (str ''di'') then
        (if sint a < 0 then str ''-'' else if chr CHR ''+'' \<in> set fs then str ''+'' else if chr CHR '' '' \<in> set fs then str '' '' else [])
      else if f \<in> set (str ''xX'') \<and> chr CHR ''#'' \<in> set fs \<and> a \<noteq> 0 then [chr CHR ''0'', f] else [])"

definition integer_out :: "u8 \<Rightarrow> u8 list \<Rightarrow> nat \<Rightarrow> u32 \<Rightarrow> u8 list" where
  "integer_out f fs w a =
     (let num = number_text f fs (magnitude f a); front = front_text f fs a; pad = w - length (front @ num)
      in if chr CHR ''-'' \<in> set fs then front @ num @ replicate pad (chr CHR '' '')
         else if chr CHR ''0'' \<in> set fs then front @ replicate pad (chr CHR ''0'') @ num
         else replicate pad (chr CHR '' '') @ front @ num)"

lemma flag_of_iff: "flag_of x \<noteq> None \<longleftrightarrow> x \<in> set flag_chars"
  by (auto simp: flag_of_def flag_chars_def)

lemma flag_of_Some:
  "flag_of x = Some MINUS \<longleftrightarrow> x = 45" "flag_of x = Some PLUS \<longleftrightarrow> x = 43" "flag_of x = Some SPACE \<longleftrightarrow> x = 32"
  "flag_of x = Some POUND \<longleftrightarrow> x = 35" "flag_of x = Some ZERO \<longleftrightarrow> x = 48" "flag_of x = Some GROUP \<longleftrightarrow> x = 39"
  by (simp_all add: flag_of_def)

lemma conversion_flags:
  assumes "set fs \<subseteq> set flag_chars"
  shows "MINUS \<in> flags (conversion fs ws) \<longleftrightarrow> 45 \<in> set fs" "PLUS \<in> flags (conversion fs ws) \<longleftrightarrow> 43 \<in> set fs"
    "SPACE \<in> flags (conversion fs ws) \<longleftrightarrow> 32 \<in> set fs \<and> 43 \<notin> set fs" "POUND \<in> flags (conversion fs ws) \<longleftrightarrow> 35 \<in> set fs"
    "ZERO \<in> flags (conversion fs ws) \<longleftrightarrow> 48 \<in> set fs \<and> 45 \<notin> set fs" "GROUP \<in> flags (conversion fs ws) \<longleftrightarrow> 39 \<in> set fs"
proof -
  have "flag_of x = Some (the (flag_of x))" if "x \<in> set fs" for x using flag_of_iff [of x] assms that by auto
  then have "f \<in> (the \<circ> flag_of) ` set fs \<longleftrightarrow> (\<exists>x\<in>set fs. flag_of x = Some f)" for f by (force simp: image_iff)
  note m = this [of MINUS, unfolded flag_of_Some] this [of PLUS, unfolded flag_of_Some] this [of SPACE, unfolded flag_of_Some]
    this [of POUND, unfolded flag_of_Some] this [of ZERO, unfolded flag_of_Some] this [of GROUP, unfolded flag_of_Some]
  show "MINUS \<in> flags (conversion fs ws) \<longleftrightarrow> 45 \<in> set fs" "PLUS \<in> flags (conversion fs ws) \<longleftrightarrow> 43 \<in> set fs"
    "SPACE \<in> flags (conversion fs ws) \<longleftrightarrow> 32 \<in> set fs \<and> 43 \<notin> set fs" "POUND \<in> flags (conversion fs ws) \<longleftrightarrow> 35 \<in> set fs"
    "ZERO \<in> flags (conversion fs ws) \<longleftrightarrow> 48 \<in> set fs \<and> 45 \<notin> set fs" "GROUP \<in> flags (conversion fs ws) \<longleftrightarrow> 39 \<in> set fs"
    using m unfolding conversion_def Let_def printf_conversion.select_convs by (auto simp del: o_apply image_comp split: if_splits)
qed

lemma digit_text_spec:
  assumes "f \<in> set (str ''diouxX'')"
  shows "digit_text (base_of f) v = map (digit_char f) (nat_digits (radix f) (unat v))"
    "unat (ibase (base_of f)) = radix f" "igroup (base_of f) = (if radix f = 16 then 4 else 3)"
    "ibase (base_of f) = 8 \<longleftrightarrow> f = chr CHR ''o''" "ix (base_of f) = (if f \<in> set (str ''xX'') then f else 0)"
proof -
  show u: "unat (ibase (base_of f)) = radix f" "igroup (base_of f) = (if radix f = 16 then 4 else 3)"
    "ibase (base_of f) = 8 \<longleftrightarrow> f = chr CHR ''o''" "ix (base_of f) = (if f \<in> set (str ''xX'') then f else 0)"
    using assms by (auto simp: base_of_def radix_def base_d_def base_o_def base_x_def base_X_def)
  have "idigits (base_of f) = map (digit_char f) [0..<radix f]"
    using assms by (auto simp: base_of_def radix_def base_d_def base_o_def base_x_def base_X_def) (simp_all add: upt_rec digit_char_def)
  then have "\<forall>d<radix f. idigits (base_of f) ! d = digit_char f d" by simp
  moreover have "2 \<le> radix f" by (simp add: radix_def)
  ultimately show "digit_text (base_of f) v = map (digit_char f) (nat_digits (radix f) (unat v))"
    unfolding digit_text_def u using nat_digits_less [of "radix f"] by (intro map_cong) auto
qed

lemma group_digits_Nil [simp]: "group_digits g k n ds = [] \<longleftrightarrow> ds = []"
  by (cases ds) auto

lemma nat_digits_Nil: "2 \<le> b \<Longrightarrow> nat_digits b n = [] \<longleftrightarrow> n = 0"
  by (simp add: nat_digits.simps [of b n])

lemma number_text_spec:
  assumes f: "f \<in> set (str ''diouxX'')" and fs: "set fs \<subseteq> set flag_chars"
  shows "num_text v (base_of f) (conversion fs ws) = number_text f fs (unat v)"
proof -
  define g where "g = group_digits (39 \<in> set fs) (if radix f = 16 then 4 else 3) 0 (map (digit_char f) (nat_digits (radix f) (unat v)))"
  have p: "precision (conversion fs ws) = - 1" by (simp add: conversion_def Let_def)
  have "2 \<le> radix f" by (simp add: radix_def)
  then have e: "g = [] \<longleftrightarrow> unat v = 0" using nat_digits_Nil [of "radix f" "unat v"] by (simp add: g_def)
  have z: "zeros_loop 1 g = (if unat v = 0 then [48] else g)" unfolding zeros_loop_eq using e by (cases g) auto
  have l: "last xs = hd (rev xs)" for xs :: "u8 list" by (simp add: hd_rev)
  show ?thesis
    unfolding num_text_def p conversion_flags [OF fs] digit_text_spec [OF f] Let_def number_text_def g_def [symmetric] l
    using z e by (cases "unat v = 0") simp_all
qed

lemma integer_out_spec:
  assumes f: "f \<in> set (str ''diouxX'')" and fs: "set fs \<subseteq> set flag_chars" and ws: "0 \<le> dec_value ws"
  shows "integer_out f fs (nat (dec_value ws)) a =
    (if f \<in> set (str ''di'') then int_text (of_int \<bar>sint a\<bar>) True (sint a < 0) base_d (conversion fs ws)
     else int_text (ucast a) False False (base_of f) (conversion fs ws))"
proof -
  have w: "width (conversion fs ws) = dec_value ws" by (simp add: conversion_def Let_def)
  have pad: "nat (dec_value ws - int n) = nat (dec_value ws) - n" for n using ws by linarith
  have bd: "base_of f = base_d" if "f \<in> set (str ''di'')" using that by (auto simp: base_of_def)
  have m1: "unat (of_int \<bar>sint a\<bar> :: u64) = nat \<bar>sint a\<bar>"
  proof -
    have "- (2 ^ 31) \<le> sint a" "sint a < 2 ^ 31" using sint_greater_eq [of a] sint_less [of a] by simp_all
    then have "\<bar>sint a\<bar> mod 2 ^ 64 = \<bar>sint a\<bar>" by (intro mod_pos_pos_trivial) auto
    then have "uint (of_int \<bar>sint a\<bar> :: u64) = \<bar>sint a\<bar>" by (simp only: uint_word_of_int) simp
    then show ?thesis by (metis nat_uint_eq)
  qed
  have m2: "unat (ucast a :: u64) = unat a" using unat_lt32 [of a] by (simp add: unsigned_ucast_eq take_bit_nat_eq_self)
  have u0: "(ucast a :: u64) \<noteq> 0 \<longleftrightarrow> a \<noteq> 0" using m2 by (metis unat_0 unat_eq_zero)
  show ?thesis
  proof (cases "f \<in> set (str ''di'')")
    case True
    then have fr: "front_text f fs a = sign_text True (sint a < 0) (conversion fs ws) @ prefix_text (of_int \<bar>sint a\<bar>) base_d (conversion fs ws)"
      unfolding front_text_def sign_text_def prefix_text_def conversion_flags [OF fs] by (simp add: base_d_def)
    have nu: "num_text (of_int \<bar>sint a\<bar>) base_d (conversion fs ws) = number_text f fs (magnitude f a)"
      using number_text_spec [OF f fs, of "of_int \<bar>sint a\<bar>" ws] unfolding bd [OF True] m1 magnitude_def by (simp only: True if_True)
    show ?thesis unfolding if_P [OF True] int_text_def Let_def integer_out_def nu fr [symmetric] w pad conversion_flags [OF fs] by simp
  next
    case False
    then have fr: "front_text f fs a = sign_text False False (conversion fs ws) @ prefix_text (ucast a) (base_of f) (conversion fs ws)"
      unfolding front_text_def sign_text_def prefix_text_def conversion_flags [OF fs] digit_text_spec(5) [OF f] u0 using f by auto
    have nu: "num_text (ucast a) (base_of f) (conversion fs ws) = number_text f fs (magnitude f a)"
      using number_text_spec [OF f fs, of "ucast a" ws] unfolding m2 magnitude_def by (simp only: False if_False)
    show ?thesis unfolding if_not_P [OF False] int_text_def Let_def integer_out_def nu fr [symmetric] w pad conversion_flags [OF fs] by simp
  qed
qed

primrec piece_ok :: "piece \<Rightarrow> bool" where
  "piece_ok (Lit x) \<longleftrightarrow> x \<noteq> 0 \<and> x \<noteq> chr CHR ''%''"
| "piece_ok Percent \<longleftrightarrow> True"
| "piece_ok (Num f fs ws a) \<longleftrightarrow> f \<in> set (str ''diouxX'') \<and> set fs \<subseteq> set flag_chars \<and>
     (\<forall>x\<in>set ws. digit x) \<and> (ws \<noteq> [] \<longrightarrow> hd ws \<noteq> chr CHR ''0'') \<and> dec_value ws < 2 ^ 31"
| "piece_ok (Chr a) \<longleftrightarrow> True"
| "piece_ok (Str p xs) \<longleftrightarrow> length xs < 2 ^ 31"

primrec piece_fmt :: "piece \<Rightarrow> u8 list" where
  "piece_fmt (Lit x) = [x]"
| "piece_fmt Percent = str ''%%''"
| "piece_fmt (Num f fs ws a) = chr CHR ''%'' # fs @ ws @ [f]"
| "piece_fmt (Chr a) = str ''%c''"
| "piece_fmt (Str p xs) = str ''%s''"

primrec piece_args :: "piece \<Rightarrow> u32 list" where
  "piece_args (Lit x) = []"
| "piece_args Percent = []"
| "piece_args (Num f fs ws a) = [a]"
| "piece_args (Chr a) = [a]"
| "piece_args (Str p xs) = [p]"

primrec piece_out :: "piece \<Rightarrow> u8 list" where
  "piece_out (Lit x) = [x]"
| "piece_out Percent = str ''%''"
| "piece_out (Num f fs ws a) = integer_out f fs (nat (dec_value ws)) a"
| "piece_out (Chr a) = [ucast a]"
| "piece_out (Str p xs) = xs"

lemma parse_type_default:
  assumes "rest_at cs i (f # r)" and "f \<notin> set (str ''hjltz'')"
  shows "parse_type m (Inl cs) i = (INT_T, i)"
  using assms rest_at_head(1) [OF assms(1)] by (simp add: parse_type_def)

lemma dec_value_nonneg: "\<forall>x\<in>set ds. digit x \<Longrightarrow> 0 \<le> dec_value ds"
  by (induction ds rule: rev_induct) (auto simp: dec_value_def digit_def)

lemma parse_conversion_ok:
  assumes r: "rest_at cs i (fs @ ws @ f # r)" and fs: "set fs \<subseteq> set flag_chars"
    and ws: "\<forall>x\<in>set ws. digit x" "ws \<noteq> [] \<longrightarrow> hd ws \<noteq> chr CHR ''0''" "dec_value ws < 2 ^ 31"
    and f: "f \<in> set (str ''diouxXcs'')"
  shows "parse_conversion m (Inl cs) i args = Some (conversion fs ws, i + length fs + length ws, args)"
proof -
  have hd: "flag_of (hd (ws @ f # r)) = None"
  proof (cases ws)
    case Nil then show ?thesis using f by (auto simp: flag_of_def)
  next
    case (Cons x xs)
    then have "digit x" "x \<noteq> 48" using ws by auto
    then show ?thesis using Cons by (auto simp: flag_of_def digit_def)
  qed
  have fo: "\<forall>x\<in>set fs. flag_of x \<noteq> None" using fs unfolding flag_of_iff by blast
  have 1: "parse_flags m (Inl cs) i {} = Some ((the \<circ> flag_of) ` set fs, i + length fs)"
    using parse_flags_ok [OF r fo _ hd] by simp
  have r1: "rest_at cs (i + length fs) (ws @ f # r)" by (rule rest_at_append [OF r])
  have r2: "rest_at cs (i + length fs + length ws) (f # r)" by (rule rest_at_append [OF r1])
  have nf: "\<not> digit f" using f by (auto simp: digit_def)
  have z: "s32 (dec_value []) = 0" by (simp add: s32_def dec_value_def)
  have w: "s32 (dec_value ws) = dec_value ws" "0 \<le> dec_value ws"
    using s32_id [of "dec_value ws"] dec_value_nonneg [OF ws(1)] ws(3) by auto
  have 2: "parse_number m (Inl cs) (i + length fs) 0 = Some (dec_value ws, i + length fs + length ws)"
    using parse_number_ok [OF r1 ws(1) _ , of m "[]"] nf z w by simp
  have 3: "char_at m (Inl cs) (i + length fs) \<noteq> chr CHR ''*''"
  proof (cases ws)
    case Nil then show ?thesis using f rest_at_head(1) [OF r2, of m] by auto
  next
    case (Cons x xs)
    then have "char_at m (Inl cs) (i + length fs) = x" "digit x" using rest_at_head(1) r1 ws(1) by auto
    then show ?thesis by (auto simp: digit_def)
  qed
  have 4: "char_at m (Inl cs) (i + length fs + length ws) \<noteq> chr CHR ''.''" using f rest_at_head(1) [OF r2, of m] by auto
  have 5: "parse_type m (Inl cs) (i + length fs + length ws) = (INT_T, i + length fs + length ws)"
    by (rule parse_type_default [OF r2]) (use f in auto)
  show ?thesis using 1 2 3 4 5 w(2) by (simp add: parse_conversion_def conversion_def Let_def)
qed

text \<open>A string in memory that the next \<open>n\<close> characters of output do not change.\<close>

definition unharmed :: "nat \<Rightarrow> 'x out_func \<Rightarrow> bytes \<times> 'x \<Rightarrow> addr \<Rightarrow> u8 list \<Rightarrow> bool" where
  "unharmed n out s p xs \<longleftrightarrow> (\<forall>ds. length ds \<le> n \<longrightarrow> cstr (fst (fold out ds s)) p xs)"

lemma unharmed_fold: "unharmed (length ds + n) out s p xs \<Longrightarrow> unharmed n out (fold out ds s) p xs"
  unfolding unharmed_def
proof (intro allI impI)
  fix es :: "u8 list"
  assume *: "\<forall>ds'. length ds' \<le> length ds + n \<longrightarrow> cstr (fst (fold out ds' s)) p xs" and "length es \<le> n"
  then show "cstr (fst (fold out es (fold out ds s))) p xs" using * [rule_format, of "ds @ es"] by simp
qed

lemma unharmed_now: "unharmed n out s p xs \<Longrightarrow> cstr (fst s) p xs"
  unfolding unharmed_def by (metis fold_simps(1) le0 list.size(3))

lemma unharmed_le: "unharmed n out s p xs \<Longrightarrow> k \<le> n \<Longrightarrow> unharmed k out s p xs"
  by (auto simp: unharmed_def)

lemma output_text_ok:
  "unharmed n out s p xs \<Longrightarrow> i + n \<le> length xs \<Longrightarrow> output_text n i (Inr p) out s = fold out (take n (drop i xs)) s"
proof (induction n arbitrary: i s)
  case (Suc n)
  have c: "char_at (fst s) (Inr p) i = xs ! i" using cstr_nth [OF unharmed_now [OF Suc.prems(1)], of i] Suc.prems(2) by (simp add: char_at_def)
  have "unharmed n out (out (xs ! i) s) p xs" using unharmed_fold [of "[xs ! i]" n] Suc.prems(1) by simp
  then have "output_text n (Suc i) (Inr p) out (out (xs ! i) s) = fold out (take n (drop (Suc i) xs)) (out (xs ! i) s)"
    using Suc.IH [of "out (xs ! i) s" "Suc i"] Suc.prems(2) by simp
  moreover have "take (Suc n) (drop i xs) = xs ! i # take n (drop (Suc i) xs)" using Suc.prems(2) by (simp add: Cons_nth_drop_Suc [symmetric])
  ultimately show ?case using c by simp
qed simp

lemma strnlen_cstr: "cstr m p xs \<Longrightarrow> strnlen p (- 1) m = of_nat (length xs)"
proof -
  assume c: "cstr m p xs"
  have "unat (- 1 :: u32) = 2 ^ 32 - 1" by (simp add: unsigned_minus_1_eq_mask mask_eq_exp_minus_1)
  moreover have "length xs < 2 ^ 32" using cstrD(2) [OF c] by simp
  ultimately have l: "length xs \<le> unat (- 1 :: u32)" by simp
  have "takeWhile (\<lambda>x. x \<noteq> 0) (block_at m p (unat (- 1 :: u32))) = xs"
  proof (cases "length xs = unat (- 1 :: u32)")
    case True
    then have "block_at m p (unat (- 1 :: u32)) = xs" using c by (simp add: cstr_conv)
    then show ?thesis using cstr_nonzero [OF c] by (auto simp: takeWhile_eq_all_conv)
  next
    case False
    then have "length xs < unat (- 1 :: u32)" using l by simp
    then have "block_at m p (unat (- 1 :: u32)) = xs @ 0 # drop (Suc (length xs)) (block_at m p (unat (- 1 :: u32)))"
      using c id_take_nth_drop [of "length xs" "block_at m p (unat (- 1 :: u32))"] by (simp add: take_block_at nth_block_at cstr_conv)
    then show ?thesis using cstr_nonzero [OF c] by (metis (mono_tags, lifting) takeWhile.simps(2) takeWhile_append2 append_Nil2)
  qed
  then show ?thesis by (simp add: strnlen_ok)
qed

lemma format_string_plain:
  "unharmed (length xs) out s p xs \<Longrightarrow> format_string (Inr p) (int (length xs)) (conversion [] []) out s = fold out xs s"
  by (simp add: format_string_def conversion_def dec_value_def output_text_ok)

text \<open>The loop on one piece of a format.\<close>

lemma vprintf_piece:
  assumes ok: "piece_ok pc" and un: "\<And>p xs. pc = Str p xs \<Longrightarrow> unharmed (length xs) out s p xs" and r: "rest_at cs i (piece_fmt pc @ r)"
  shows "vprintf_loop (Inl cs) i (piece_args pc @ args) out s =
    vprintf_loop (Inl cs) (i + length (piece_fmt pc)) args out (fold out (piece_out pc) s)"
proof -
  note inn = rest_at_in [OF r]
  note ch = rest_at_char [OF r, of "fst s"]
  have c0: "char_at (fst s) (Inl cs) i = hd (piece_fmt pc @ r)" using ch [of 0] by (cases pc) simp_all
  show ?thesis
  proof (cases pc)
    case (Lit x)
    then show ?thesis using ok inn c0 by (simp add: vprintf_loop.simps [of "Inl cs" i])
  next
    case Percent
    then show ?thesis using inn c0 ch [of 1] by (simp add: vprintf_loop.simps [of "Inl cs" i])
  next
    case (Num f fs ws a)
    have r1: "rest_at cs (Suc i) (fs @ ws @ f # r)" using rest_at_Cons(2) [of cs i _ "fs @ ws @ f # r"] r Num by simp
    have f: "f \<in> set (str ''diouxXcs'')" using ok Num by auto
    have pc: "parse_conversion (fst s) (Inl cs) (Suc i) as = Some (conversion fs ws, Suc (i + (length fs + length ws)), as)" for as
      using parse_conversion_ok [OF r1 _ _ _ _ f] ok Num by (auto simp: add.assoc)
    have fc: "char_at (fst s) (Inl cs) (Suc (i + (length fs + length ws))) = f"
      using rest_at_head(1) [OF rest_at_append [OF rest_at_append [OF r1]]] by (simp add: add.assoc)
    have np: "char_at (fst s) (Inl cs) (Suc i) \<noteq> chr CHR ''%''"
    proof -
      have "37 \<notin> set flag_chars" by (simp add: flag_chars_def)
      moreover have "set fs \<subseteq> set flag_chars" "\<forall>x\<in>set ws. digit x" using ok Num by simp_all
      ultimately have "hd (fs @ ws @ f # r) \<noteq> 37" using f by (cases fs; cases ws) (auto simp: digit_def)
      moreover have "char_at (fst s) (Inl cs) (Suc i) = hd (fs @ ws @ f # r)" using rest_at_char [OF r1, of "fst s" 0]
        by (cases "fs @ ws @ f # r") auto
      ultimately show ?thesis by simp
    qed
    have t: "atype (conversion fs ws) = INT_T" by (simp add: conversion_def Let_def)
    have io: "integer_out f fs (nat (dec_value ws)) a =
      (if f \<in> set (str ''di'') then int_text (of_int \<bar>sint a\<bar>) True (sint a < 0) base_d (conversion fs ws)
       else int_text (ucast a) False False (base_of f) (conversion fs ws))"
      by (rule integer_out_spec) (use ok Num dec_value_nonneg [of ws] in auto)
    have ab: "(if sint a < 0 then - sint a else sint a) = \<bar>sint a\<bar>" by simp
    have c37: "char_at (fst s) (Inl cs) i = chr CHR ''%''" using c0 Num by simp
    show ?thesis
    proof (cases "f \<in> set (str ''di'')")
      case True
      then show ?thesis unfolding Num piece_out.simps io
        by (subst vprintf_loop.simps) (simp add: inn c37 np [simplified] pc fc t ab Let_def format_integer_ok signed_arg_def va_arg_def)
    next
      case False
      then have "f \<in> set (str ''ouxX'')" using ok Num by auto
      then show ?thesis using False unfolding Num piece_out.simps io
        by (subst vprintf_loop.simps) (auto simp: inn c37 np [simplified] pc fc t Let_def format_integer_ok unsigned_arg_def va_arg_def base_of_def)
    qed
  next
    case (Chr a)
    have r1: "rest_at cs (Suc i) ([] @ [] @ chr CHR ''c'' # r)" using rest_at_Cons(2) [of cs i _ "chr CHR ''c'' # r"] r Chr by simp
    have pc: "parse_conversion (fst s) (Inl cs) (Suc i) as = Some (conversion [] [], Suc i, as)" for as
      using parse_conversion_ok [OF r1, of "fst s" as] by (simp add: dec_value_def)
    show ?thesis using Chr inn c0 ch [of 1] pc
      by (simp add: vprintf_loop.simps [of "Inl cs" i] va_arg_def format_string_def conversion_def dec_value_def char_at_def Let_def)
  next
    case (Str p xs)
    have r1: "rest_at cs (Suc i) ([] @ [] @ chr CHR ''s'' # r)" using rest_at_Cons(2) [of cs i _ "chr CHR ''s'' # r"] r Str by simp
    have pc: "parse_conversion (fst s) (Inl cs) (Suc i) as = Some (conversion [] [], Suc i, as)" for as
      using parse_conversion_ok [OF r1, of "fst s" as] by (simp add: dec_value_def)
    have u: "unharmed (length xs) out s p xs" using un Str by simp
    have p0: "p \<noteq> NULL" "strnlen p (- 1) (fst s) = of_nat (length xs)" using unharmed_now [OF u] cstrD(1) strnlen_cstr by blast+
    have l: "sint (of_nat (length xs) :: u32) = int (length xs)" using ok Str by (subst sint_small) (simp_all add: unat_of_nat32)
    have pr: "precision (conversion [] []) = - 1" by (simp add: conversion_def)
    show ?thesis using Str inn c0 ch [of 1] pc p0 l pr
      by (simp add: vprintf_loop.simps [of "Inl cs" i] va_arg_def Let_def format_string_plain [OF u])
  qed
qed

definition format_of :: "piece list \<Rightarrow> u8 list" where
  "format_of pcs = concat (map piece_fmt pcs)"

definition args_of :: "piece list \<Rightarrow> u32 list" where
  "args_of pcs = concat (map piece_args pcs)"

definition text_of :: "piece list \<Rightarrow> u8 list" where
  "text_of pcs = concat (map piece_out pcs)"

lemma vprintf_pieces:
  "\<forall>pc\<in>set pcs. piece_ok pc \<Longrightarrow> \<forall>p xs. Str p xs \<in> set pcs \<longrightarrow> unharmed (length (text_of pcs)) out s p xs \<Longrightarrow> rest_at cs i (format_of pcs) \<Longrightarrow>
     vprintf_loop (Inl cs) i (args_of pcs) out s = Some (fold out (text_of pcs) s)"
proof (induction pcs arbitrary: i s)
  case Nil
  then show ?case by (simp add: vprintf_loop.simps [of "Inl cs" i] format_of_def text_of_def rest_at_head(2) rest_at_in)
next
  case (Cons pc pcs)
  have r: "rest_at cs i (piece_fmt pc @ format_of pcs)" using Cons.prems(3) by (simp add: format_of_def)
  have t: "text_of (pc # pcs) = piece_out pc @ text_of pcs" by (simp add: text_of_def)
  have u: "unharmed (length (piece_out pc) + length (text_of pcs)) out s p xs" if "Str p xs = pc \<or> Str p xs \<in> set pcs" for p xs
    using Cons.prems(2) that unfolding t by auto
  have "vprintf_loop (Inl cs) i (piece_args pc @ args_of pcs) out s =
      vprintf_loop (Inl cs) (i + length (piece_fmt pc)) (args_of pcs) out (fold out (piece_out pc) s)"
  proof (rule vprintf_piece [OF _ _ r])
    fix p xs assume "pc = Str p xs"
    then show "unharmed (length xs) out s p xs" using u [of p xs] by (auto intro: unharmed_le)
  qed (use Cons.prems in simp)
  also have "\<dots> = Some (fold out (text_of pcs) (fold out (piece_out pc) s))"
    by (rule Cons.IH [OF _ _ rest_at_append [OF r]]) (use Cons.prems(1) in \<open>auto intro: unharmed_fold u\<close>)
  finally show ?case by (simp add: args_of_def t)
qed

lemma vprintf_core_pieces:
  "\<forall>pc\<in>set pcs. piece_ok pc \<Longrightarrow> \<forall>p xs. Str p xs \<in> set pcs \<longrightarrow> unharmed (length (text_of pcs)) out s p xs \<Longrightarrow>
     vprintf_core (Inl (format_of pcs)) (args_of pcs) out s = Some (fold out (text_of pcs) s)"
  by (simp add: vprintf_core_def vprintf_pieces rest_at_def)

section \<open>Output to a buffer\<close>

text \<open>After the text \<open>cs\<close> the buffer at \<open>p\<close> holds as much of it as fits into \<open>k\<close> characters.\<close>

definition filled :: "bytes \<Rightarrow> addr \<Rightarrow> nat \<Rightarrow> u8 list \<Rightarrow> bytes" where
  "filled m p k cs = (\<lambda>a. if unat (a - p) < min k (length cs) then cs ! unat (a - p) else m a)"

lemma helper_fold:
  assumes "k < 2 ^ 31"
  shows "length cs < 2 ^ 31 \<Longrightarrow>
    fold vsnprintf_helper cs (m, \<lparr>aux_p = p, aux_length = 0, max_length = int k\<rparr>) =
      (filled m p k cs, \<lparr>aux_p = p + of_nat (min k (length cs)), aux_length = int (length cs), max_length = int k\<rparr>)"
proof (induction cs rule: rev_induct)
  case Nil
  then show ?case by (simp add: filled_def)
next
  case (snoc c cs)
  let ?n = "length cs"
  have s: "s32 (int ?n + 1) = int ?n + 1" using snoc.prems by (intro s32_id) simp_all
  show ?case
  proof (cases "?n < k")
    case True
    have "(filled m p k cs)(p + of_nat ?n := c) = filled m p k (cs @ [c])"
    proof
      fix a
      have "a = p + of_nat ?n \<longleftrightarrow> unat (a - p) = ?n"
        using snoc.prems by (auto simp: unat_of_nat32) (metis add.commute diff_add_cancel eq_of_nat)
      then show "((filled m p k cs)(p + of_nat ?n := c)) a = filled m p k (cs @ [c]) a"
        using True by (auto simp: filled_def nth_append min_def)
    qed
    moreover have "min k (Suc ?n) = Suc ?n" "min k ?n = ?n" using True by simp_all
    ultimately show ?thesis using True snoc s by (simp add: vsnprintf_helper_def add.assoc add.commute)
  next
    case False
    then have "filled m p k (cs @ [c]) = filled m p k cs" by (auto simp: filled_def nth_append fun_eq_iff)
    then show ?thesis using False snoc s by (simp add: vsnprintf_helper_def min_def)
  qed
qed

lemma filled_frame:
  assumes "unat p + k < 2 ^ 32" and "unat a < unat p \<or> unat p + k \<le> unat a"
  shows "filled m p k cs a = m a"
proof -
  have "\<not> unat (a - p) < k"
  proof
    assume l: "unat (a - p) < k"
    then have "unat a = unat p + unat (a - p)" using assms(1) unat_ofs [of p "unat (a - p)"] by simp
    then show False using assms(2) l by linarith
  qed
  then show ?thesis by (simp add: filled_def)
qed

lemma cstr_filled:
  assumes "p \<noteq> NULL" and "unat p + k < 2 ^ 32" and "0 \<notin> set cs"
  shows "cstr ((filled m p k cs)(p + of_nat (min k (length cs)) := 0)) p (take k cs)"
proof -
  have "block_at ((filled m p k cs)(p + of_nat (min k (length cs)) := 0)) p (min (length cs) k) = take k cs"
    by (rule nth_equalityI) (use assms(2) in \<open>auto simp: nth_block_at filled_def of_nat_inj32 unat_of_nat32\<close>)
  then show ?thesis using assms by (auto simp: cstr_conv min.commute dest: in_set_takeD)
qed

text \<open>The memory after \<^verbatim>\<open>snprintf\<close>, when the strings it prints are outside the buffer.\<close>

lemma snprintf_filled:
  assumes "\<forall>pc\<in>set pcs. piece_ok pc" and "length (text_of pcs) < 2 ^ 31"
    and "0 < n" and "unat n \<le> 2 ^ 31" and "unat p + unat n \<le> 2 ^ 32"
    and "\<forall>q xs. Str q xs \<in> set pcs \<longrightarrow> cstr m q xs \<and> (unat q + length xs < unat p \<or> unat p + unat n \<le> unat q)"
  shows "snprintf p n (Inl (format_of pcs)) (args_of pcs) m = Some (int (length (text_of pcs)),
    (filled m p (unat n - 1) (text_of pcs))(p + of_nat (min (unat n - 1) (length (text_of pcs))) := 0))"
proof -
  define k where "k = unat n - 1"
  have n: "0 < unat n" using assms(3) by (simp add: unat_gt_0)
  then have k: "k < 2 ^ 31" "unat p + k < 2 ^ 32" "unat n = Suc k" using assms(4,5) by (simp_all add: k_def)
  have n1: "unat (n - 1) = k" using n by (simp add: unat_minus_1 unat_gt_0 k_def)
  then have mx: "sint (n - 1) = int k" using sint_small [of "n - 1"] k(1) by simp
  let ?aux = "\<lparr>aux_p = p, aux_length = 0, max_length = int k\<rparr>"
  let ?t = "text_of pcs"
  note hf = helper_fold [OF k(1), of _ m p]
  have "unharmed (length ?t) vsnprintf_helper (m, ?aux) q xs" if s: "Str q xs \<in> set pcs" for q xs
    unfolding unharmed_def
  proof (intro allI impI)
    fix ds :: "u8 list" assume "length ds \<le> length ?t"
    then have f: "fst (fold vsnprintf_helper ds (m, ?aux)) = filled m p k ds" using hf [of ds] assms(2) by simp
    show "cstr (fst (fold vsnprintf_helper ds (m, ?aux))) q xs" unfolding f
    proof (rule cstr_cong)
      show "cstr m q xs" using assms(6) s by blast
      fix a :: addr assume "unat q \<le> unat a" "unat a \<le> unat q + length xs"
      moreover have "unat q + length xs < unat p \<or> unat p + unat n \<le> unat q" using assms(6) s by blast
      ultimately show "filled m p k ds a = m a" by (intro filled_frame [OF k(2)]) (use k(3) in linarith)
    qed
  qed
  then have "vprintf_core (Inl (format_of pcs)) (args_of pcs) vsnprintf_helper (m, ?aux) = Some (fold vsnprintf_helper ?t (m, ?aux))"
    by (intro vprintf_core_pieces [OF assms(1)]) blast
  then show ?thesis using hf [OF assms(2)] assms(3) mx unfolding k_def [symmetric] by (simp add: snprintf_def vsnprintf_def)
qed

lemma snprintf_text:
  assumes "\<forall>pc\<in>set pcs. piece_ok pc" and "length (text_of pcs) < 2 ^ 31" and "0 \<notin> set (text_of pcs)"
    and "p \<noteq> NULL" and "0 < n" and "unat n \<le> 2 ^ 31" and "unat p + unat n \<le> 2 ^ 32"
    and "\<forall>q xs. Str q xs \<in> set pcs \<longrightarrow> cstr m q xs \<and> (unat q + length xs < unat p \<or> unat p + unat n \<le> unat q)"
  shows "\<exists>m'. snprintf p n (Inl (format_of pcs)) (args_of pcs) m = Some (int (length (text_of pcs)), m') \<and>
    cstr m' p (take (unat n - 1) (text_of pcs)) \<and>
    (\<forall>a :: addr. unat a < unat p \<or> unat p + unat n \<le> unat a \<longrightarrow> m' a = m a)"
proof (intro exI conjI)
  let ?t = "text_of pcs" and ?k = "unat n - 1"
  have "0 < unat n" using assms(5) by (simp add: unat_gt_0)
  then have k: "unat p + ?k < 2 ^ 32" "unat n = Suc ?k" using assms(7) by linarith+
  show "snprintf p n (Inl (format_of pcs)) (args_of pcs) m = Some (int (length ?t), (filled m p ?k ?t)(p + of_nat (min ?k (length ?t)) := 0))"
    by (rule snprintf_filled [OF assms(1,2,5-8)])
  show "cstr ((filled m p ?k ?t)(p + of_nat (min ?k (length ?t)) := 0)) p (take ?k ?t)"
    by (rule cstr_filled [OF assms(4) k(1) assms(3)])
  show "\<forall>a :: addr. unat a < unat p \<or> unat p + unat n \<le> unat a \<longrightarrow> ((filled m p ?k ?t)(p + of_nat (min ?k (length ?t)) := 0)) a = m a"
  proof (intro allI impI)
    fix a :: addr assume a: "unat a < unat p \<or> unat p + unat n \<le> unat a"
    have "unat (p + of_nat (min ?k (length ?t))) = unat p + min ?k (length ?t)" by (rule unat_ofs) (use k(1) in auto)
    then have "a \<noteq> p + of_nat (min ?k (length ?t))" using a k(2) by auto
    then show "((filled m p ?k ?t)(p + of_nat (min ?k (length ?t)) := 0)) a = m a" using filled_frame [OF k(1), of a m ?t] a k(2) by auto
  qed
qed

text \<open>C21: \<^verbatim>\<open>snprintf\<close> into a buffer of \<open>n > 0\<close> bytes, with a constant format made of ordinary characters, \<^verbatim>\<open>%%\<close>, \<^verbatim>\<open>%c\<close>, \<^verbatim>\<open>%s\<close> and the conversions
  \<^verbatim>\<open>d i o u x X\<close> of an int with any flags and a constant width, returns the length of the full text, leaves in the buffer the text cut to
  \<open>n - 1\<close> characters with its terminator, and writes nothing outside the buffer.  The text has no null character and the strings lie
  outside the buffer.  Precisions, length modifiers, \<^verbatim>\<open>*\<close>, \<^verbatim>\<open>%p\<close>, flags of \<^verbatim>\<open>%c\<close> and \<^verbatim>\<open>%s\<close> and a buffer of size 0 are not covered.\<close>

theorem snprintf_correct:
  assumes "\<forall>pc\<in>set pcs. piece_ok pc" and "length (text_of pcs) < 2 ^ 31" and "0 \<notin> set (text_of pcs)"
    and "p \<noteq> NULL" and "0 < n" and "unat n \<le> 2 ^ 31" and "unat p + unat n \<le> 2 ^ 32"
    and "\<forall>q xs. Str q xs \<in> set pcs \<longrightarrow> cstr m q xs \<and> (unat q + length xs < unat p \<or> unat p + unat n \<le> unat q)"
  shows "\<exists>m'. snprintf p n (Inl (format_of pcs)) (args_of pcs) m = Some (int (length (text_of pcs)), m') \<and>
    cstr m' p (take (unat n - 1) (text_of pcs)) \<and>
    (\<forall>a :: addr. unat a < unat p \<or> unat p + unat n \<le> unat a \<longrightarrow> m' a = m a)"
  by (rule snprintf_text [OF assms])

section \<open>Output to the console\<close>

lemma console_fold:
  "fst (fold vprintf_helper cs (m, r, con)) = m" "shown (snd (snd (fold vprintf_helper cs (m, r, con)))) = shown con @ cs"
  by (induction cs arbitrary: r con) (simp_all add: vprintf_helper_def putchar_have_lock_def)

text \<open>\<^verbatim>\<open>printf\<close> appends the text to what the console has shown.\<close>

lemma printf_shows:
  assumes "\<forall>pc\<in>set pcs. piece_ok pc" and "\<forall>q xs. Str q xs \<in> set pcs \<longrightarrow> cstr m q xs"
  shows "\<exists>r con'. printf (Inl (format_of pcs)) (args_of pcs) m con = Some (r, con') \<and> shown con' = shown con @ text_of pcs"
proof -
  have "unharmed n vprintf_helper (m, 0, con) q xs" if "Str q xs \<in> set pcs" for n q xs
    using assms(2) that by (simp add: unharmed_def console_fold)
  then have "vprintf_core (Inl (format_of pcs)) (args_of pcs) vprintf_helper (m, 0, con) = Some (fold vprintf_helper (text_of pcs) (m, 0, con))"
    by (intro vprintf_core_pieces [OF assms(1)]) blast
  then show ?thesis using console_fold(2) [of "text_of pcs" m 0 con]
    by (cases "fold vprintf_helper (text_of pcs) (m, 0, con)") (auto simp: printf_def vprintf_def)
qed

section \<open>Decimal text\<close>

lemma decimal_digit: "d < 10 \<Longrightarrow> digit (idigits base_d ! d) \<and> uint (idigits base_d ! d) = 48 + int d"
proof -
  assume "d < 10"
  then have "d = 0 \<or> d = 1 \<or> d = 2 \<or> d = 3 \<or> d = 4 \<or> d = 5 \<or> d = 6 \<or> d = 7 \<or> d = 8 \<or> d = 9" by presburger
  then show ?thesis by (elim disjE) (simp_all add: base_d_def digit_def)
qed

lemma dec_value_rev: "dec_value (rev xs) = foldr (\<lambda>x v. v * 10 + (uint x - 48)) xs 0"
  by (simp add: dec_value_def foldl_conv_foldr)

lemma dec_value_digits:
  "\<forall>d\<in>set ds. d < 10 \<Longrightarrow> dec_value (rev (map (\<lambda>d. idigits base_d ! d) ds)) = int (foldr (\<lambda>d v. d + 10 * v) ds 0)"
  unfolding dec_value_rev by (induction ds) (simp_all add: decimal_digit)

lemma unat_base_d: "unat (ibase base_d) = 10"
  by (simp add: base_d_def)

lemma digit_text_decimal: "dec_value (rev (digit_text base_d v)) = int (unat v)" "\<forall>x\<in>set (digit_text base_d v). digit x"
proof -
  have l: "\<forall>d\<in>set (nat_digits 10 (unat v)). d < 10" using nat_digits_less [of 10] by auto
  show "dec_value (rev (digit_text base_d v)) = int (unat v)"
    unfolding digit_text_def unat_base_d by (subst dec_value_digits [OF l]) (simp add: nat_digits_value)
  show "\<forall>x\<in>set (digit_text base_d v). digit x" using l decimal_digit by (auto simp: digit_text_def unat_base_d)
qed

text \<open>The digits of \<^verbatim>\<open>%d\<close> are a nonempty decimal representation of the value.\<close>

definition decimal :: "u64 \<Rightarrow> u8 list" where
  "decimal v = rev (zeros_loop 1 (digit_text base_d v))"

lemma decimal_ok: "decimal v \<noteq> []" "\<forall>x\<in>set (decimal v). digit x" "dec_value (decimal v) = int (unat v)"
proof -
  have z: "decimal v = (if digit_text base_d v = [] then [48] else rev (digit_text base_d v))"
    by (cases "digit_text base_d v") (simp_all add: decimal_def zeros_loop_eq)
  then show "decimal v \<noteq> []" by simp
  show "\<forall>x\<in>set (decimal v). digit x" using z digit_text_decimal(2) [of v] by (simp add: digit_def)
  show "dec_value (decimal v) = int (unat v)" using z digit_text_decimal(1) [of v] by (cases "digit_text base_d v") (auto simp: dec_value_def)
qed

lemma length_decimal: "unat v < 10 ^ k \<Longrightarrow> 0 < k \<Longrightarrow> length (decimal v) \<le> k"
  using length_nat_digits [of 10 "unat v" k] by (simp add: decimal_def zeros_loop_eq digit_text_def unat_base_d)

lemma int_text_decimal: "int_text v True neg base_d (conversion [] []) = (if neg then [45] else []) @ decimal v"
  by (simp add: int_text_def sign_text_def prefix_text_def num_text_def conversion_def dec_value_def decimal_def base_d_def Let_def)

text \<open>C22: what \<^verbatim>\<open>snprintf\<close> writes for \<^verbatim>\<open>%d\<close>, \<^verbatim>\<open>atoi\<close> reads back, for every 32-bit integer.\<close>

theorem snprintf_atoi:
  assumes "p \<noteq> NULL" and "12 \<le> unat n" and "unat n \<le> 2 ^ 31" and "unat p + unat n \<le> 2 ^ 32"
  shows "\<exists>r m'. snprintf p n (Inl (str ''%d'')) [a] m = Some (r, m') \<and> atoi p m' = Some (sint a)"
proof -
  have len64: "LENGTH(64) = 64" by simp
  define v neg where "v = (of_int \<bar>sint a\<bar> :: u64)" and "neg = (sint a < 0)"
  have sr: "- (2 ^ 31) \<le> sint a" "sint a < 2 ^ 31" using sint_greater_eq [of a] sint_less [of a] by simp_all
  have "uint v = \<bar>sint a\<bar> mod 2 ^ 64" unfolding v_def by (simp only: uint_word_of_int len64)
  also have "\<dots> = \<bar>sint a\<bar>" using sr by (intro mod_pos_pos_trivial) auto
  finally have v: "int (unat v) = \<bar>sint a\<bar>" by simp
  then have "unat v < 10 ^ 10" using sr by (simp add: nat_less_iff flip: of_nat_less_iff [where ?'a = int])
  then have l10: "length (decimal v) \<le> 10" by (rule length_decimal) simp
  let ?pcs = "[Num (chr CHR ''d'') [] [] a]" and ?t = "(if neg then [45] else []) @ decimal v"
  have f: "format_of ?pcs = str ''%d''" "args_of ?pcs = [a]" "text_of ?pcs = ?t"
    using integer_out_spec [of "chr CHR ''d''" "[]" "[]" a]
    by (simp_all add: format_of_def args_of_def text_of_def int_text_decimal dec_value_def del: of_int_abs flip: v_def neg_def)
  have l: "length ?t \<le> 11" using l10 by simp
  have z: "0 \<notin> set ?t" using decimal_ok(2) [of v] by (auto simp: digit_def)
  have n0: "0 < n" using assms(2) by (auto simp: word_gt_0)
  obtain m' where m': "snprintf p n (Inl (format_of ?pcs)) (args_of ?pcs) m = Some (int (length (text_of ?pcs)), m')"
    "cstr m' p (take (unat n - 1) (text_of ?pcs))"
    using snprintf_text [of ?pcs p n m] assms(1,3,4) n0 z l unfolding f(3) by (auto simp: dec_value_def)
  have "cstr m' p ([] @ (if neg then [45] else []) @ decimal v @ [])" using m'(2) l assms(2) unfolding f(3) by simp
  then have "atoi p m' = Some (s32 (if (if neg then [45] else []) = [45 :: u8] then - dec_value (decimal v) else dec_value (decimal v)))"
    by (rule atoi_correct) (use decimal_ok in auto)
  also have "\<dots> = Some (sint a)" using v decimal_ok(3) [of v] sr neg_def by (auto simp: s32_id)
  finally show ?thesis using m'(1) unfolding f by blast
qed

section \<open>Demonstration\<close>

definition demo_pieces :: "piece list" where
  "demo_pieces = [Lit 97, Num (chr CHR ''d'') [] [] 42, Str 100 demo_text]"

lemma demo_pieces_text: "text_of demo_pieces = 97 # decimal 42 @ demo_text"
  using integer_out_spec [of "chr CHR ''d''" "[]" "[]" 42] by (simp add: text_of_def demo_pieces_def int_text_decimal dec_value_def)

theorem snprintf_correct_witness:
  "\<exists>m'. snprintf 300 8 (Inl (format_of demo_pieces)) (args_of demo_pieces) demo_bytes = Some (int (length (text_of demo_pieces)), m') \<and>
    cstr m' 300 (take (unat (8 :: u32) - 1) (text_of demo_pieces)) \<and>
    (\<forall>a :: addr. unat a < unat (300 :: addr) \<or> unat (300 :: addr) + unat (8 :: u32) \<le> unat a \<longrightarrow> m' a = demo_bytes a)"
proof (rule snprintf_correct)
  show "length (text_of demo_pieces) < 2 ^ 31" using length_decimal [of 42 2] by (simp add: demo_pieces_text demo_text_def)
  show "0 \<notin> set (text_of demo_pieces)" using decimal_ok(2) [of 42] by (auto simp: demo_pieces_text demo_text_def digit_def)
next
  show "\<forall>q xs. Str q xs \<in> set demo_pieces \<longrightarrow>
      cstr demo_bytes q xs \<and> (unat q + length xs < unat (300 :: addr) \<or> unat (300 :: addr) + unat (8 :: u32) \<le> unat q)"
    using demo_cstr(1) by (simp add: demo_pieces_def) (simp add: demo_text_def)
qed (simp_all add: demo_pieces_def dec_value_def demo_text_def)

theorem snprintf_atoi_witness:
  "\<exists>r m'. snprintf 300 16 (Inl (str ''%d'')) [- 42] demo_bytes = Some (r, m') \<and> atoi 300 m' = Some (sint (- 42 :: u32))"
  by (rule snprintf_atoi) simp_all

end
