(* ===== verification/Ustar.thy ===== *)
theory Ustar
  imports Stdio
begin

text \<open>
  Headers of \<^verbatim>\<open>ustar\<close> archives: \<^verbatim>\<open>lib/ustar.c\<close>.  A header is 512 bytes of the memory; its fields are given by
  their offsets in \<^verbatim>\<open>struct ustar_header\<close>, which is packed.  \<open>block_at m h 512\<close> is the header as a list of bytes,
  and every write to a field is an \<open>overlay\<close> on that list.
\<close>

section \<open>Data\<close>

definition USTAR_HEADER_SIZE :: nat where "USTAR_HEADER_SIZE = 512"

definition USTAR_REGULAR :: int where "USTAR_REGULAR = 48"
definition USTAR_DIRECTORY :: int where "USTAR_DIRECTORY = 53"
definition USTAR_EOF :: int where "USTAR_EOF = -1"

text \<open>Offset and size of a field of \<^verbatim>\<open>struct ustar_header\<close>.\<close>

datatype field = F_name | F_mode | F_uid | F_gid | F_size | F_mtime | F_chksum | F_typeflag | F_magic | F_version | F_uname | F_gname | F_prefix

primrec field_ofs :: "field \<Rightarrow> nat" where
  "field_ofs F_name = 0" | "field_ofs F_mode = 100" | "field_ofs F_uid = 108" | "field_ofs F_gid = 116"
| "field_ofs F_size = 124" | "field_ofs F_mtime = 136" | "field_ofs F_chksum = 148" | "field_ofs F_typeflag = 156"
| "field_ofs F_magic = 257" | "field_ofs F_version = 263" | "field_ofs F_uname = 265" | "field_ofs F_gname = 297"
| "field_ofs F_prefix = 345"

primrec field_size :: "field \<Rightarrow> nat" where
  "field_size F_name = 100" | "field_size F_mode = 8" | "field_size F_uid = 8" | "field_size F_gid = 8"
| "field_size F_size = 12" | "field_size F_mtime = 12" | "field_size F_chksum = 8" | "field_size F_typeflag = 1"
| "field_size F_magic = 6" | "field_size F_version = 2" | "field_size F_uname = 32" | "field_size F_gname = 32"
| "field_size F_prefix = 155"

definition field_at :: "addr \<Rightarrow> field \<Rightarrow> addr" where
  "field_at h f = h + of_nat (field_ofs f)"

section \<open>Operations\<close>

fun chksum_loop :: "nat \<Rightarrow> nat \<Rightarrow> addr \<Rightarrow> u32 \<Rightarrow> bytes \<Rightarrow> u32" where
  "chksum_loop 0 i h chksum m = chksum"
| "chksum_loop (Suc n) i h chksum m =
     (let start = field_ofs F_chksum; en = start + field_size F_chksum;
          in_chksum_field = (i \<ge> start \<and> i < en)
      in chksum_loop n (i + 1) h (chksum + (if in_chksum_field then ucast (chr CHR '' '') else ucast (m (h + of_nat i)))) m)"

definition calculate_chksum :: "addr \<Rightarrow> bytes \<Rightarrow> u32" where
  "calculate_chksum h m = chksum_loop USTAR_HEADER_SIZE 0 h 0 m"

text \<open>\<^verbatim>\<open>memcmp\<close> and \<^verbatim>\<open>strcmp\<close> with a constant as second argument.\<close>

definition memcmp_const :: "addr \<Rightarrow> u8 list \<Rightarrow> bytes \<Rightarrow> bool" where
  "memcmp_const p cs m \<longleftrightarrow> block_at m p (length cs) = cs"

partial_function (option) strip_loop :: "addr \<Rightarrow> bytes \<Rightarrow> addr option" where
  [code]: "strip_loop p m =
     (if m p = chr CHR ''/'' \<or> memcmp_const p (str ''./'') m \<or> memcmp_const p (str ''../'') m then do {
        q \<leftarrow> strchr p (chr CHR ''/'') m;
        strip_loop (q + 1) m
      }
      else Some p)"

definition strip_antisocial_prefixes :: "addr \<Rightarrow> bytes \<Rightarrow> ctext option" where
  "strip_antisocial_prefixes file_name m = do {
     p \<leftarrow> strip_loop file_name m;
     Some (if m p = 0 \<or> memcmp_const p (str ''..'' @ [0]) m then Inl (str ''.'') else Inr p)
   }"

text \<open>\<^verbatim>\<open>strlen\<close> and \<^verbatim>\<open>strlcpy\<close> of a constant or a string in memory.\<close>

definition strlen_text :: "ctext \<Rightarrow> bytes \<Rightarrow> u32 option" where
  "strlen_text t m = (case t of Inl cs \<Rightarrow> Some (of_nat (length cs)) | Inr p \<Rightarrow> strlen p m)"

definition strlcpy_text :: "addr \<Rightarrow> ctext \<Rightarrow> u32 \<Rightarrow> bytes \<Rightarrow> bytes option" where
  "strlcpy_text dst t n m = (case t of
     Inl cs \<Rightarrow> Some (if n > 0 then let k = min (length cs) (unat n - 1) in
                  (\<lambda>a. if unat (a - dst) < k then cs ! unat (a - dst) else m a)(dst + of_nat k := 0) else m)
   | Inr p \<Rightarrow> do { (_, m) \<leftarrow> strlcpy dst p n m; Some m })"

definition ustar_make_header :: "addr \<Rightarrow> int \<Rightarrow> u32 \<Rightarrow> addr \<Rightarrow> bytes \<Rightarrow> console \<Rightarrow> (bool \<times> bytes \<times> console) option" where
  "ustar_make_header file_name type sz h m con = do {
     ASSERT (type = USTAR_REGULAR \<or> type = USTAR_DIRECTORY);
     name \<leftarrow> strip_antisocial_prefixes file_name m;
     len \<leftarrow> strlen_text name m;
     if len > 99 then do {
       (_, con) \<leftarrow> printf (Inl (str ''%s: file name too long'' @ [10])) [case name of Inl _ \<Rightarrow> NULL | Inr p \<Rightarrow> p] m con;
       Some (False, m, con)
     }
     else do {
       (_, m) \<leftarrow> memset h 0 (of_nat USTAR_HEADER_SIZE) m;
       m \<leftarrow> strlcpy_text (field_at h F_name) name (of_nat (field_size F_name)) m;
       (_, m) \<leftarrow> snprintf (field_at h F_mode) (of_nat (field_size F_mode)) (Inl (str ''%07o''))
                  [if type = USTAR_REGULAR then 420 else 493] m;
       m \<leftarrow> strlcpy_text (field_at h F_uid) (Inl (str ''0000000'')) (of_nat (field_size F_uid)) m;
       m \<leftarrow> strlcpy_text (field_at h F_gid) (Inl (str ''0000000'')) (of_nat (field_size F_gid)) m;
       (_, m) \<leftarrow> snprintf (field_at h F_size) (of_nat (field_size F_size)) (Inl (str ''%011o'')) [sz] m;
       (_, m) \<leftarrow> snprintf (field_at h F_mtime) (of_nat (field_size F_size)) (Inl (str ''%011o'')) [1136102400] m;
       let m = m(field_at h F_typeflag := of_int type);
       m \<leftarrow> strlcpy_text (field_at h F_magic) (Inl (str ''ustar'')) (of_nat (field_size F_magic)) m;
       let m = m(field_at h F_version + 1 := chr CHR ''0'', field_at h F_version := chr CHR ''0'');
       m \<leftarrow> strlcpy_text (field_at h F_gname) (Inl (str ''root'')) (of_nat (field_size F_gname)) m;
       m \<leftarrow> strlcpy_text (field_at h F_uname) (Inl (str ''root'')) (of_nat (field_size F_uname)) m;
       (_, m) \<leftarrow> snprintf (field_at h F_chksum) (of_nat (field_size F_chksum)) (Inl (str ''%07o'')) [calculate_chksum h m] m;
       Some (True, m, con)
     }
   }"

fun octal_loop :: "nat \<Rightarrow> nat \<Rightarrow> addr \<Rightarrow> u32 \<Rightarrow> bytes \<Rightarrow> bool \<times> u32" where
  "octal_loop 0 ofs s value m = (False, value)"
| "octal_loop (Suc n) ofs s value m =
     (let c = sint (m (s + of_nat ofs))
      in if 48 \<le> c \<and> c \<le> 55 then
           (if value > 0xffffffff div 8 then (False, value)
            else octal_loop n (ofs + 1) s (of_int (c - 48) + value * 8) m)
         else if c = 32 \<or> c = 0 then (ofs > 0, value)
         else (False, value))"

definition parse_octal_field :: "addr \<Rightarrow> nat \<Rightarrow> bytes \<Rightarrow> bool \<times> u32" where
  "parse_octal_field s n m = octal_loop n 0 s 0 m"

fun is_all_zeros :: "addr \<Rightarrow> nat \<Rightarrow> bytes \<Rightarrow> bool" where
  "is_all_zeros b 0 m = True"
| "is_all_zeros b (Suc n) m = (if m b \<noteq> 0 then False else is_all_zeros (b + 1) n m)"

text \<open>The result is an error message, or the file name (\<open>None\<close> for a null pointer), the type and the size.\<close>

definition ustar_parse_header :: "addr \<Rightarrow> bytes \<Rightarrow> (string + ctext option \<times> int \<times> int) option" where
  "ustar_parse_header h m =
     (if is_all_zeros h USTAR_HEADER_SIZE m then Some (Inr (None, USTAR_EOF, 0))
      else
        let version = field_at h F_version;
            (chksum_ok, chksum) = parse_octal_field (field_at h F_chksum) (field_size F_chksum) m;
            typeflag = sint (m (field_at h F_typeflag));
            (size_ok, size_ul) = parse_octal_field (field_at h F_size) (field_size F_size) m
        in if \<not> memcmp_const (field_at h F_magic) (str ''ustar'' @ [0]) m then Some (Inl ''not a ustar archive'')
           else if m version \<noteq> chr CHR ''0'' \<or> m (version + 1) \<noteq> chr CHR ''0'' then Some (Inl ''invalid ustar version'')
           else if \<not> chksum_ok then Some (Inl ''corrupt chksum field'')
           else if chksum \<noteq> calculate_chksum h m then Some (Inl ''checksum mismatch'')
           else if m (field_at h F_name + of_nat (field_size F_name - 1)) \<noteq> 0 \<or> m (field_at h F_prefix) \<noteq> 0
             then Some (Inl ''file name too long'')
           else if typeflag \<noteq> USTAR_REGULAR \<and> typeflag \<noteq> USTAR_DIRECTORY then Some (Inl ''unimplemented file type'')
           else if typeflag = USTAR_REGULAR \<and> \<not> size_ok then Some (Inl ''corrupt file size field'')
           else if typeflag = USTAR_REGULAR \<and> size_ul > 0x7fffffff then Some (Inl ''file too large'')
           else do {
             name \<leftarrow> strip_antisocial_prefixes (field_at h F_name) m;
             Some (Inr (Some name, typeflag, if typeflag = USTAR_REGULAR then sint size_ul else 0))
           })"

section \<open>Writing fields\<close>

lemma strlcpy_const: "length cs < unat n \<Longrightarrow> strlcpy_text p (Inl cs) n m = Some (put m p (cs @ [0]))"
proof -
  assume l: "length cs < unat n"
  then have "min (length cs) (unat n - 1) = length cs" "0 < n" by (auto simp: word_gt_0 unat_gt_0)
  then show ?thesis using put_snoc [of cs m p 0] l unat_lt32 [of n] by (simp add: strlcpy_text_def put_def)
qed

lemma strlcpy_mem:
  assumes "cstr m q xs" and "p \<noteq> NULL" and "length xs < unat n" and "apart p q (length xs)"
  shows "strlcpy_text p (Inr q) n m = Some (put m p (xs @ [0]))"
proof -
  have l: "unat (of_nat (length xs) :: u32) = length xs" "length xs < 2 ^ 32" using cstrD(2) [OF assms(1)] by (simp_all add: unat_of_nat)
  have "n \<noteq> 0" using assms(3) by auto
  then have n1: "unat (n - 1) = unat n - 1" "0 < n" by (simp_all add: unat_minus_1 word_gt_0)
  then have d: "(if of_nat (length xs) < n - 1 then of_nat (length xs) else n - 1) = (of_nat (length xs) :: u32)"
    using l assms(3) by (auto simp: word_less_nat_alt intro: eq_of_nat)
  have "m (q + (a - p)) = xs ! unat (a - p)" if "unat (a - p) < length xs" for a
    using cstr_nth [OF assms(1) that] by simp
  then have "copied p q (length xs) m = put m p xs" by (auto simp: copied_def put_def fun_eq_iff)
  then show ?thesis using assms(1,2,4) n1(2) d l memcpy_ok [of p q "of_nat (length xs)" m] put_snoc [OF l(2), of m p 0]
    by (simp add: strlcpy_text_def strlcpy_def strlen_ok cstrD Let_def)
qed

lemma snprintf_put:
  assumes "piece_ok (Num f fs ws a)" and "length (piece_out (Num f fs ws a)) < unat n" and "unat n \<le> 2 ^ 31" and "unat p + unat n \<le> 2 ^ 32"
  shows "\<exists>r. snprintf p n (Inl (piece_fmt (Num f fs ws a))) [a] m = Some (r, put m p (piece_out (Num f fs ws a) @ [0]))"
proof -
  let ?t = "piece_out (Num f fs ws a)" and ?pcs = "[Num f fs ws a]"
  have "0 < n" using assms(2) by (auto simp: word_gt_0)
  moreover have "filled m p (unat n - 1) ?t = put m p ?t" using assms(2) by (auto simp: filled_def put_def fun_eq_iff)
  moreover have "min (unat n - 1) (length ?t) = length ?t" using assms(2) by simp
  moreover have tx: "text_of ?pcs = ?t" "format_of ?pcs = piece_fmt (Num f fs ws a)" "args_of ?pcs = [a]"
    by (simp_all add: text_of_def format_of_def args_of_def del: piece_out.simps piece_fmt.simps)
  ultimately show ?thesis
    using snprintf_filled [of ?pcs n p m] put_snoc [of ?t m p 0] assms unfolding tx by (simp del: piece_out.simps piece_fmt.simps)
qed

section \<open>The header as a list\<close>

lemma unat_sub_of_nat:
  assumes "i < 512" and "k + n \<le> 512"
  shows "unat (of_nat i - of_nat k :: u32) < n \<longleftrightarrow> k \<le> i \<and> i < k + n" and "k \<le> i \<Longrightarrow> unat (of_nat i - of_nat k :: u32) = i - k"
proof -
  show e: "unat (of_nat i - of_nat k :: u32) = i - k" if "k \<le> i" using that assms(1) by (simp add: unat_of_nat32 flip: of_nat_diff)
  show "unat (of_nat i - of_nat k :: u32) < n \<longleftrightarrow> k \<le> i \<and> i < k + n"
  proof
    assume d: "unat (of_nat i - of_nat k :: u32) < n" (is "?d < _")
    have "(of_nat i :: u32) = of_nat (k + ?d)" by simp
    then have "i = k + ?d" using of_nat_inj32 [of i "k + ?d"] d assms by simp
    then show "k \<le> i \<and> i < k + n" using d by simp
  qed (use e in auto)
qed

lemma put_header:
  assumes "k + length cs \<le> 512"
  shows "block_at (put m (h + of_nat k) cs) h 512 = overlay k cs (block_at m h 512)"
proof (rule nth_equalityI)
  fix i assume "i < length (block_at (put m (h + of_nat k) cs) h 512)"
  then have i: "i < 512" by simp
  have u: "unat (h + of_nat i - (h + of_nat k)) = unat (of_nat i - of_nat k :: u32)" by simp
  have "overlay k cs (block_at m h 512) ! i = (if k \<le> i \<and> i < k + length cs then cs ! (i - k) else m (h + of_nat i))"
    using assms(1) i by (subst nth_overlay) (auto simp: nth_block_at)
  then show "block_at (put m (h + of_nat k) cs) h 512 ! i = overlay k cs (block_at m h 512) ! i"
    using i u assms(1) unat_sub_of_nat [OF i assms(1)] by (auto simp: nth_block_at put_def)
qed (use assms in simp)

lemma field_block: "k + n \<le> 512 \<Longrightarrow> block_at m (h + of_nat k) n = take n (drop k (block_at m h 512))"
  by (simp add: drop_block_at take_block_at)

lemma header_byte: "k < 512 \<Longrightarrow> m (h + of_nat k) = block_at m h 512 ! k"
  by (simp add: nth_block_at)

lemma take_drop_overlay_other:
  "p + length xs \<le> length ys \<Longrightarrow> k + n \<le> p \<or> p + length xs \<le> k \<Longrightarrow> k + n \<le> length ys \<Longrightarrow>
     take n (drop k (overlay p xs ys)) = take n (drop k ys)"
  by (rule nth_equalityI) (auto simp: nth_overlay)

section \<open>Octal numbers\<close>

definition octal_digit :: "u8 \<Rightarrow> bool" where
  "octal_digit x \<longleftrightarrow> 48 \<le> uint x \<and> uint x \<le> 55"

definition oct_value :: "u8 list \<Rightarrow> nat" where
  "oct_value ds = foldl (\<lambda>v x. v * 8 + (unat x - 48)) 0 ds"

definition octal :: "nat \<Rightarrow> u32 \<Rightarrow> u8 list" where
  "octal w v = (let num = rev (zeros_loop 1 (digit_text base_o (ucast v))) in replicate (w - length num) 48 @ num)"

lemma octal_char: "d < 8 \<Longrightarrow> octal_digit (idigits base_o ! d) \<and> unat (idigits base_o ! d) - 48 = d"
proof -
  assume "d < 8"
  then have "d = 0 \<or> d = 1 \<or> d = 2 \<or> d = 3 \<or> d = 4 \<or> d = 5 \<or> d = 6 \<or> d = 7" by presburger
  then show ?thesis by (elim disjE) (simp_all add: base_o_def octal_digit_def)
qed

lemma oct_value_rev: "\<forall>d\<in>set ds. d < 8 \<Longrightarrow> oct_value (rev (map (\<lambda>d. idigits base_o ! d) ds)) = foldr (\<lambda>d v. d + 8 * v) ds 0"
  unfolding oct_value_def by (induction ds) (simp_all add: octal_char)

lemma oct_value_zeros: "oct_value (replicate k 48 @ ds) = oct_value ds"
  by (induction k) (simp_all add: oct_value_def)

lemma unat_base_o: "unat (ibase base_o) = 8"
  by (simp add: base_o_def)

lemma octal_ok:
  assumes "unat v < 8 ^ w" and "0 < w"
  shows "length (octal w v) = w" "\<forall>x\<in>set (octal w v). octal_digit x" "oct_value (octal w v) = unat v"
proof -
  let ?n = "digit_text base_o (ucast v)"
  have uv: "unat (ucast v :: u64) = unat v" using unat_lt32 [of v] by (simp add: unsigned_ucast_eq take_bit_nat_eq_self)
  have l: "\<forall>d\<in>set (nat_digits 8 (unat v)). d < 8" using nat_digits_less [of 8] by auto
  have n: "?n = map (\<lambda>d. idigits base_o ! d) (nat_digits 8 (unat v))" by (simp add: digit_text_def unat_base_o uv)
  have ln: "length ?n \<le> w" using length_nat_digits [of 8 "unat v" w] assms(1) n by simp
  have z: "zeros_loop 1 ?n = (if ?n = [] then [48] else ?n)" by (cases ?n) (simp_all add: zeros_loop_eq)
  show "length (octal w v) = w" using ln z assms(2) by (simp add: octal_def Let_def)
  show "\<forall>x\<in>set (octal w v). octal_digit x"
    using z l octal_char n by (auto simp: octal_def Let_def octal_digit_def split: if_splits)
  have "oct_value (rev ?n) = unat v" unfolding n by (subst oct_value_rev [OF l]) (simp add: nat_digits_value)
  then show "oct_value (octal w v) = unat v" using z by (auto simp: octal_def Let_def oct_value_zeros) (auto simp: oct_value_def)
qed

lemma piece_octal:
  assumes "ws = str ''7'' \<and> w = 7 \<or> ws = str ''11'' \<and> w = 11"
  shows "piece_out (Num (chr CHR ''o'') [48] ws v) = octal w v" "piece_ok (Num (chr CHR ''o'') [48] ws v)"
    "piece_fmt (Num (chr CHR ''o'') [48] ws v) = str ''%0'' @ ws @ str ''o''"
proof -
  have s: "integer_out (chr CHR ''o'') [48] (nat (dec_value ws)) v = int_text (ucast v) False False (base_of (chr CHR ''o'')) (conversion [48] ws)"
    using assms integer_out_spec [of "chr CHR ''o''" "[48]" ws v] by (auto simp: dec_value_def flag_chars_def)
  show "piece_out (Num (chr CHR ''o'') [48] ws v) = octal w v" unfolding piece_out.simps s using assms
    by (auto simp: int_text_def sign_text_def prefix_text_def num_text_def conversion_def flag_of_def dec_value_def octal_def
        base_of_def base_o_def digit_def Let_def nat_diff_distrib)
  show "piece_ok (Num (chr CHR ''o'') [48] ws v)" "piece_fmt (Num (chr CHR ''o'') [48] ws v) = str ''%0'' @ ws @ str ''o''"
    using assms by (auto simp: dec_value_def digit_def flag_chars_def)
qed

lemma octal_loop_ok:
  "block_at m (s + of_nat k) (length ds + Suc n) = ds @ 0 # r \<Longrightarrow> \<forall>x\<in>set ds. octal_digit x \<Longrightarrow> 0 < k + length ds \<Longrightarrow>
     oct_value (es @ ds) < 2 ^ 32 \<Longrightarrow>
     octal_loop (length ds + Suc n) k s (of_nat (oct_value es)) m = (True, of_nat (oct_value (es @ ds)))"
proof (induction ds arbitrary: k es)
  case Nil
  then show ?case by simp
next
  case (Cons x ds)
  have x: "m (s + of_nat k) = x" "octal_digit x" using Cons.prems(1,2) by auto
  then have sx: "sint x = uint x" by (intro sint_small8) (simp add: octal_digit_def)
  have e: "s + of_nat (Suc k) = s + of_nat k + 1" by (simp add: add.assoc add.commute)
  have b: "block_at m (s + of_nat (Suc k)) (length ds + Suc n) = ds @ 0 # r" unfolding e using Cons.prems(1) by simp
  have val: "oct_value (es @ [x]) = oct_value es * 8 + (unat x - 48)" by (simp add: oct_value_def)
  have mono: "oct_value (us @ vs) \<ge> oct_value us" for us vs
  proof (induction vs rule: rev_induct)
    case (snoc y vs)
    have "oct_value ((us @ vs) @ [y]) = oct_value (us @ vs) * 8 + (unat y - 48)" by (simp add: oct_value_def)
    then show ?case using snoc by simp
  qed simp
  have "oct_value (es @ [x]) < 2 ^ 32" using mono [of "es @ [x]" ds] Cons.prems(4) by simp
  then have small: "oct_value es \<le> 536870911" using val by simp
  then have g: "\<not> (of_nat (oct_value es) :: u32) > 0xffffffff div 8" by (simp add: word_less_nat_alt unat_of_nat32)
  have "uint x = int (unat x)" "48 \<le> unat x" using x(2) by (simp_all add: octal_digit_def) (metis nat_le_iff nat_numeral unat_eq_nat_uint nat_mono)
  then have st: "of_int (sint x - 48) + of_nat (oct_value es) * 8 = (of_nat (oct_value (es @ [x])) :: u32)"
    unfolding sx val by (simp add: of_nat_diff)
  have "octal_loop (length ds + Suc n) (Suc k) s (of_nat (oct_value (es @ [x]))) m = (True, of_nat (oct_value ((es @ [x]) @ ds)))"
    by (rule Cons.IH [OF b]) (use Cons.prems in auto)
  then show ?case using x g st sx by (simp add: octal_digit_def del: octal_loop.simps(1))
qed

lemma parse_octal_ok:
  assumes "block_at m s (Suc w) = octal w v @ [0]" and "unat v < 8 ^ w" and "0 < w"
  shows "parse_octal_field s (Suc w) m = (True, v)"
proof -
  note o = octal_ok [OF assms(2,3)]
  have "octal_loop (length (octal w v) + Suc 0) 0 s (of_nat (oct_value [])) m = (True, of_nat (oct_value ([] @ octal w v)))"
    by (rule octal_loop_ok [where r = "[]"]) (use assms o unat_lt32 [of v] in simp_all)
  then show ?thesis using o by (simp add: parse_octal_field_def oct_value_def del: octal_loop.simps)
qed

section \<open>Checksums\<close>

definition chksum_of :: "u8 list \<Rightarrow> u32" where
  "chksum_of bs = sum_list (map (\<lambda>i. if 148 \<le> i \<and> i < 156 then 32 else ucast (bs ! i)) [0..<512])"

lemma chksum_loop_ok:
  "chksum_loop n k h c m = c + sum_list (map (\<lambda>i. if 148 \<le> i \<and> i < 156 then 32 else ucast (m (h + of_nat i))) [k..<k + n])"
proof (induction n arbitrary: k c)
  case (Suc n)
  have "[k..<k + Suc n] = k # [Suc k..<Suc k + n]" by (simp add: upt_conv_Cons)
  then show ?case using Suc.IH [of "Suc k"] by (simp add: Let_def add.assoc)
qed simp

lemma calculate_chksum_ok: "calculate_chksum h m = chksum_of (block_at m h 512)"
proof -
  have "map (\<lambda>i. if 148 \<le> i \<and> i < 156 then 32 else ucast (m (h + of_nat i)) :: u32) [0..<512] =
      map (\<lambda>i. if 148 \<le> i \<and> i < 156 then 32 else ucast (block_at m h 512 ! i)) [0..<512]"
    by (rule map_cong) (simp_all add: nth_block_at)
  then show ?thesis unfolding calculate_chksum_def chksum_loop_ok chksum_of_def USTAR_HEADER_SIZE_def by (simp only: add_0)
qed

lemma chksum_overlay: "length cs = 8 \<Longrightarrow> length bs = 512 \<Longrightarrow> chksum_of (overlay 148 cs bs) = chksum_of bs"
  unfolding chksum_of_def by (rule arg_cong [where f = sum_list], rule map_cong) (auto simp: nth_overlay)

lemma unat_sum_list: "unat (sum_list ws :: u32) \<le> sum_list (map unat ws)"
proof (induction ws)
  case (Cons w ws)
  have "unat (w + sum_list ws) \<le> unat w + unat (sum_list ws)" by (simp add: unat_word_ariths)
  then show ?case using Cons by simp
qed simp

lemma sum_list_bound: "\<forall>x\<in>set xs. x \<le> c \<Longrightarrow> sum_list xs \<le> length xs * c" for c :: nat
  by (induction xs) auto

lemma chksum_small: "unat (chksum_of bs) < 8 ^ 7"
proof -
  let ?ws = "map (\<lambda>i. if 148 \<le> i \<and> i < 156 then 32 else ucast (bs ! i) :: u32) [0..<512]"
  have "unat (ucast b :: u32) \<le> 255" for b :: u8
    using unsigned_less [of b, where ?'a = nat] by (simp add: unsigned_ucast_eq take_bit_nat_eq_self)
  then have "\<forall>w\<in>set (map unat ?ws). w \<le> 255" by auto
  then have "sum_list (map unat ?ws) \<le> length (map unat ?ws) * 255"
    by (rule sum_list_bound)
  then show ?thesis using unat_sum_list [of ?ws] unfolding chksum_of_def by simp
qed

section \<open>File names\<close>

lemma const_prefix: "cstr m p xs \<Longrightarrow> 0 \<notin> set cs \<Longrightarrow> memcmp_const p cs m \<longleftrightarrow> take (length cs) xs = cs"
  unfolding memcmp_const_def
proof (induction cs arbitrary: p xs)
  case (Cons c cs)
  show ?case
  proof (cases xs)
    case Nil then show ?thesis using Cons.prems by auto
  next
    case (Cons x ys)
    note d = cstr_ConsD [OF Cons.prems(1) [unfolded Cons]]
    show ?thesis using Cons.IH [OF d(4)] Cons.prems(2) d(2) Cons by simp
  qed
qed simp

lemma const_equal: "cstr m p xs \<Longrightarrow> 0 \<notin> set cs \<Longrightarrow> memcmp_const p (cs @ [0]) m \<longleftrightarrow> xs = cs"
  unfolding memcmp_const_def
proof (induction cs arbitrary: p xs)
  case Nil
  then show ?case by (cases xs) (auto dest: cstr_ConsD(2,3))
next
  case (Cons c cs)
  show ?case
  proof (cases xs)
    case Nil then show ?thesis using Cons.prems by auto
  next
    case (Cons x ys)
    note d = cstr_ConsD [OF Cons.prems(1) [unfolded Cons]]
    show ?thesis using Cons.IH [OF d(4)] Cons.prems(2) d(2) Cons by auto
  qed
qed

text \<open>A name with a prefix that would lead out of the destination directory.\<close>

definition antisocial :: "u8 list \<Rightarrow> bool" where
  "antisocial xs \<longleftrightarrow> take 1 xs = str ''/'' \<or> take 2 xs = str ''./'' \<or> take 3 xs = str ''../''"

lemma antisocial_slash: "antisocial xs \<Longrightarrow> chr CHR ''/'' \<in> set xs"
  unfolding antisocial_def by (auto dest!: arg_cong [where f = set] dest: in_set_takeD)

function strip_name :: "u8 list \<Rightarrow> u8 list" where
  "strip_name xs = (if antisocial xs then strip_name (tl (dropWhile (\<lambda>x. x \<noteq> chr CHR ''/'') xs)) else xs)"
  by pat_completeness auto
termination
proof (relation "measure length")
  fix xs assume "antisocial xs"
  then have "xs \<noteq> []" by (auto simp: antisocial_def)
  then have "0 < length xs" by blast
  moreover have "length (dropWhile (\<lambda>x. x \<noteq> chr CHR ''/'') xs) \<le> length xs" by (rule length_dropWhile_le)
  ultimately show "(tl (dropWhile (\<lambda>x. x \<noteq> chr CHR ''/'') xs), xs) \<in> measure length" by (simp del: length_greater_0_conv)
qed simp

declare strip_name.simps [simp del]

definition clean_name :: "u8 list \<Rightarrow> u8 list" where
  "clean_name xs = (let s = strip_name xs in if s = [] \<or> s = str ''..'' then str ''.'' else s)"

lemma strip_name_clean: "\<not> antisocial (strip_name xs)"
proof (induction xs rule: strip_name.induct)
  case (1 xs) then show ?case by (cases "antisocial xs") (simp_all add: strip_name.simps [of xs])
qed

lemma clean_name_safe: "\<not> antisocial (clean_name xs)" "clean_name xs \<noteq> []" "clean_name xs \<noteq> str ''..''"
  using strip_name_clean [of xs] by (auto simp: clean_name_def Let_def antisocial_def)

lemma length_strip_name: "length (strip_name xs) \<le> length xs"
proof (induction xs rule: strip_name.induct)
  case (1 xs)
  show ?case
  proof (cases "antisocial xs")
    case True
    have "length (tl (dropWhile (\<lambda>x. x \<noteq> chr CHR ''/'') xs)) \<le> length xs"
      using length_dropWhile_le [of "\<lambda>x. x \<noteq> chr CHR ''/''" xs] unfolding length_tl by linarith
    then show ?thesis using 1 [OF True] True by (simp add: strip_name.simps [of xs])
  qed (simp add: strip_name.simps [of xs])
qed

lemma strip_loop_cond:
  assumes "cstr m p xs"
  shows "(m p = chr CHR ''/'' \<or> memcmp_const p (str ''./'') m \<or> memcmp_const p (str ''../'') m) \<longleftrightarrow> antisocial xs"
proof -
  have l: "length (str ''./'') = 2" "length (str ''../'') = 3" by simp_all
  have "memcmp_const p (str ''./'') m \<longleftrightarrow> take 2 xs = str ''./''" using const_prefix [OF assms, of "str ''./''"] unfolding l by simp
  moreover have "memcmp_const p (str ''../'') m \<longleftrightarrow> take 3 xs = str ''../''" using const_prefix [OF assms, of "str ''../''"] unfolding l by simp
  moreover have "m p = chr CHR ''/'' \<longleftrightarrow> take 1 xs = str ''/''"
    using const_prefix [OF assms, of "str ''/''"] by (simp add: memcmp_const_def)
  ultimately show ?thesis unfolding antisocial_def by blast
qed

lemma strip_loop_ok:
  "cstr m p xs \<Longrightarrow> \<exists>q. strip_loop p m = Some q \<and> cstr m q (strip_name xs) \<and> unat p \<le> unat q \<and>
     unat q + length (strip_name xs) = unat p + length xs"
proof (induction xs arbitrary: p rule: strip_name.induct)
  case (1 xs)
  note cond = strip_loop_cond [OF "1.prems"]
  show ?case
  proof (cases "antisocial xs")
    case False
    then show ?thesis using cond "1.prems" by (simp add: strip_loop.simps [of p] strip_name.simps [of xs])
  next
    case True
    let ?u = "takeWhile (\<lambda>x. x \<noteq> chr CHR ''/'') xs" and ?r = "tl (dropWhile (\<lambda>x. x \<noteq> chr CHR ''/'') xs)"
    let ?q = "p + of_nat (length ?u)"
    have sl: "chr CHR ''/'' \<in> set xs" by (rule antisocial_slash [OF True])
    then have ch: "strchr p (chr CHR ''/'') m = Some ?q" using strchr_ok [OF "1.prems"] by simp
    have ne: "dropWhile (\<lambda>x. x \<noteq> chr CHR ''/'') xs \<noteq> []" using sl by auto
    then have xs: "xs = (?u @ [hd (dropWhile (\<lambda>x. x \<noteq> chr CHR ''/'') xs)]) @ ?r" by simp
    have c: "cstr m (p + of_nat (length ?u + 1)) ?r"
      using cstr_appendD [of m p "?u @ [hd (dropWhile (\<lambda>x. x \<noteq> chr CHR ''/'') xs)]" ?r] "1.prems" xs by simp
    have l: "length xs = length ?u + 1 + length ?r" using arg_cong [OF xs, of length] by simp
    have u: "unat (p + of_nat (length ?u + 1)) = unat p + (length ?u + 1)" by (rule unat_cstr_ofs [OF "1.prems"]) (use l in simp)
    obtain q where "strip_loop (p + of_nat (length ?u + 1)) m = Some q" "cstr m q (strip_name ?r)"
      "unat (p + of_nat (length ?u + 1)) \<le> unat q" "unat q + length (strip_name ?r) = unat (p + of_nat (length ?u + 1)) + length ?r"
      using "1.IH" [OF True c] by blast
    moreover have "strip_loop p m = strip_loop (p + of_nat (length ?u + 1)) m"
      using True cond ch by (simp add: strip_loop.simps [of p] add_ac)
    moreover have "strip_name xs = strip_name ?r" using True by (simp add: strip_name.simps [of xs])
    ultimately show ?thesis using u l by auto
  qed
qed

lemma strip_ok:
  assumes "cstr m p xs"
  shows "\<exists>t. strip_antisocial_prefixes p m = Some t \<and>
    (case t of Inl cs \<Rightarrow> cs = clean_name xs
     | Inr q \<Rightarrow> cstr m q (clean_name xs) \<and> unat p \<le> unat q \<and> unat q + length (clean_name xs) = unat p + length xs)"
proof -
  obtain q where q: "strip_loop p m = Some q" "cstr m q (strip_name xs)" "unat p \<le> unat q" "unat q + length (strip_name xs) = unat p + length xs"
    using strip_loop_ok [OF assms] by blast
  have "m q = 0 \<longleftrightarrow> strip_name xs = []" using q(2) by (cases "strip_name xs") (auto dest: cstr_ConsD(2,3))
  moreover have "memcmp_const q (str ''..'' @ [0]) m \<longleftrightarrow> strip_name xs = str ''..''" using const_equal [OF q(2), of "str ''..''"] by simp
  ultimately show ?thesis using q by (auto simp: strip_antisocial_prefixes_def clean_name_def Let_def)
qed

lemma strip_clean:
  assumes "cstr m p xs" and "clean_name xs = xs"
  shows "strip_antisocial_prefixes p m = Some (Inr p)"
proof -
  note s = clean_name_safe [of xs, unfolded assms(2)]
  have "strip_loop p m = Some p" using strip_loop_cond [OF assms(1)] s(1) by (simp add: strip_loop.simps [of p])
  moreover have "m p \<noteq> 0" using assms(1) s(2) by (cases xs) (auto dest: cstr_ConsD(2,3))
  moreover have "\<not> memcmp_const p (str ''..'' @ [0]) m" using const_equal [OF assms(1), of "str ''..''"] s(3) by simp
  ultimately show ?thesis by (simp add: strip_antisocial_prefixes_def)
qed

lemma clean_name_idem [simp]: "clean_name (clean_name xs) = clean_name xs"
  using clean_name_safe [of xs] by (simp add: clean_name_def [of "clean_name xs"] strip_name.simps [of "clean_name xs"] Let_def)

lemma set_tl: "set (tl ys) \<subseteq> set ys"
  by (cases ys) auto

lemma nonzero_clean: "0 \<notin> set xs \<Longrightarrow> 0 \<notin> set (clean_name xs)"
proof -
  assume z: "0 \<notin> set xs"
  have "set (strip_name xs) \<subseteq> set xs" for xs
  proof (induction xs rule: strip_name.induct)
    case (1 xs)
    have "set (tl (dropWhile (\<lambda>x. x \<noteq> chr CHR ''/'') xs)) \<subseteq> set xs"
      using set_dropWhileD [of _ "\<lambda>x. x \<noteq> chr CHR ''/''" xs] set_tl [of "dropWhile (\<lambda>x. x \<noteq> chr CHR ''/'') xs"] by blast
    then show ?case using 1 by (auto simp: strip_name.simps [of xs] split: if_splits)
  qed
  then show ?thesis using z by (auto simp: clean_name_def Let_def)
qed

section \<open>Headers as a sequence of field writes\<close>

definition write_fields :: "addr \<Rightarrow> (nat \<times> u8 list) list \<Rightarrow> bytes \<Rightarrow> bytes" where
  "write_fields h fs m = foldl (\<lambda>m (k, cs). put m (h + of_nat k) cs) m fs"

definition overlays :: "(nat \<times> u8 list) list \<Rightarrow> u8 list \<Rightarrow> u8 list" where
  "overlays fs b = foldl (\<lambda>b (k, cs). overlay k cs b) b fs"

definition fit :: "(nat \<times> u8 list) list \<Rightarrow> bool" where
  "fit fs \<longleftrightarrow> (\<forall>(k, cs)\<in>set fs. k + length cs \<le> 512)"

lemma fit_simps [simp]: "fit []" "fit ((k, cs) # fs) \<longleftrightarrow> k + length cs \<le> 512 \<and> fit fs" "fit (fs @ gs) \<longleftrightarrow> fit fs \<and> fit gs"
  by (auto simp: fit_def)

lemma overlays_simps [simp]:
  "overlays [] b = b" "overlays ((k, cs) # fs) b = overlays fs (overlay k cs b)" "overlays (fs @ gs) b = overlays gs (overlays fs b)"
  by (simp_all add: overlays_def)

lemma write_fields_simps [simp]:
  "write_fields h [] m = m" "write_fields h ((k, cs) # fs) m = write_fields h fs (put m (h + of_nat k) cs)"
  "write_fields h (fs @ gs) m = write_fields h gs (write_fields h fs m)"
  by (simp_all add: write_fields_def)

lemma block_write_fields: "fit fs \<Longrightarrow> block_at (write_fields h fs m) h 512 = overlays fs (block_at m h 512)"
  by (induction fs arbitrary: m) (auto simp: put_header)

lemma length_overlays [simp]: "fit fs \<Longrightarrow> length b = 512 \<Longrightarrow> length (overlays fs b) = 512"
  by (induction fs arbitrary: b) auto

lemma overlays_nth:
  "fit fs \<Longrightarrow> length b = 512 \<Longrightarrow> i < 512 \<Longrightarrow> \<forall>(k, cs)\<in>set fs. i < k \<or> k + length cs \<le> i \<Longrightarrow> overlays fs b ! i = b ! i"
  by (induction fs arbitrary: b) (auto simp: nth_overlay)

text \<open>A field is read back as it was written when the later writes are to other bytes.\<close>

lemma overlays_field:
  assumes "fit (fs @ (k, cs) # gs)" and "length b = 512" and "\<forall>(j, ds)\<in>set gs. j + length ds \<le> k \<or> k + length cs \<le> j"
  shows "take (length cs) (drop k (overlays (fs @ (k, cs) # gs) b)) = cs"
proof (rule nth_equalityI)
  show l: "length (take (length cs) (drop k (overlays (fs @ (k, cs) # gs) b))) = length cs" using assms(1,2) by (auto simp: min_def)
  fix i assume "i < length (take (length cs) (drop k (overlays (fs @ (k, cs) # gs) b)))"
  then have i: "i < length cs" unfolding l .
  have "overlays gs (overlay k cs (overlays fs b)) ! (k + i) = overlay k cs (overlays fs b) ! (k + i)"
    by (rule overlays_nth) (use assms i in auto)
  also have "\<dots> = cs ! i" using assms(1,2) i by (subst nth_overlay) auto
  finally show "take (length cs) (drop k (overlays (fs @ (k, cs) # gs) b)) ! i = cs ! i" using assms(1,2) i by simp
qed

lemma write_fields_frame:
  assumes "unat h + 512 \<le> 2 ^ 32" and "unat a < unat h \<or> unat h + 512 \<le> unat a"
  shows "fit fs \<Longrightarrow> write_fields h fs m a = m a"
proof (induction fs arbitrary: m)
  case (Cons f fs)
  obtain k cs where f: "f = (k, cs)" by (cases f)
  have "unat (h + of_nat k) = unat h + k" if "cs \<noteq> []" using that unat_ofs [of h k] Cons.prems f assms(1) by (cases cs) auto
  then have "put m (h + of_nat k) cs a = m a"
    by (cases "cs = []") (use put_frame [of "h + of_nat k" cs a m] Cons.prems f assms in \<open>auto simp: put_def\<close>)
  then show ?case using Cons f by simp
qed simp

section \<open>Composing and parsing\<close>

definition header_fields :: "u8 list \<Rightarrow> int \<Rightarrow> u32 \<Rightarrow> (nat \<times> u8 list) list" where
  "header_fields name type sz =
     [(0, replicate 512 0), (0, name @ [0]), (100, octal 7 (if type = USTAR_REGULAR then 420 else 493) @ [0]),
      (108, str ''0000000'' @ [0]), (116, str ''0000000'' @ [0]), (124, octal 11 sz @ [0]), (136, octal 11 1136102400 @ [0]),
      (156, [of_int type]), (257, str ''ustar'' @ [0]), (264, [chr CHR ''0'']), (263, [chr CHR ''0'']),
      (297, str ''root'' @ [0]), (265, str ''root'' @ [0])]"

lemma octal_fields:
  "length (octal 7 420) = 7" "length (octal 7 493) = 7" "length (octal 11 1136102400) = 11" "length (octal 11 v) = 11"
  "length (octal 7 (chksum_of b)) = 7"
  by (rule octal_ok; use unat_lt32 [of v] chksum_small [of b] in simp)+

lemma fit_header: "length name \<le> 99 \<Longrightarrow> fit (header_fields name type sz)"
  by (simp add: header_fields_def octal_fields)

lemma snprintf_octal:
  assumes "ws = str ''7'' \<and> w = 7 \<or> ws = str ''11'' \<and> w = 11" and "unat v < 8 ^ w" and "unat h + 512 \<le> 2 ^ 32" and "k + Suc w < 512"
  shows "\<exists>r. snprintf (h + of_nat k) (of_nat (Suc w)) (Inl (str ''%0'' @ ws @ str ''o'')) [v] m = Some (r, put m (h + of_nat k) (octal w v @ [0]))"
proof -
  have w: "0 < w" using assms(1) by auto
  have u: "unat (of_nat (Suc w) :: u32) = Suc w" by (rule unat_of_nat32) (use assms(1) in auto)
  have "unat (h + of_nat k) = unat h + k" by (rule unat_ofs) (use assms in simp)
  then show ?thesis
    using snprintf_put [of "chr CHR ''o''" "[48]" ws v "of_nat (Suc w)" "h + of_nat k" m] piece_octal [OF assms(1), of v] octal_ok(1) [OF assms(2) w] assms u
    by (simp del: of_nat_Suc piece_ok.simps piece_out.simps piece_fmt.simps)
qed

lemma field_addr:
  "field_at h F_name = h + of_nat 0" "field_at h F_mode = h + of_nat 100" "field_at h F_uid = h + of_nat 108" "field_at h F_gid = h + of_nat 116"
  "field_at h F_size = h + of_nat 124" "field_at h F_mtime = h + of_nat 136" "field_at h F_chksum = h + of_nat 148"
  "field_at h F_typeflag = h + of_nat 156" "field_at h F_magic = h + of_nat 257" "field_at h F_version = h + of_nat 263"
  "h + of_nat 263 + 1 = h + of_nat 264" "field_at h F_uname = h + of_nat 265" "field_at h F_gname = h + of_nat 297"
  "field_at h F_prefix = h + of_nat 345"
  by (simp_all add: field_at_def add.assoc)

lemma clear_header: "h \<noteq> NULL \<Longrightarrow> memset h 0 (of_nat USTAR_HEADER_SIZE) m = Some (h, put m (h + of_nat 0) (replicate 512 0))"
  by (auto simp: memset_ok put_def USTAR_HEADER_SIZE_def fun_eq_iff)

lemma name_text:
  assumes "cstr m p xs" and "length (clean_name xs) \<le> 99" and "unat h + 512 \<le> 2 ^ 32" and "h \<noteq> NULL"
    and "unat p + length xs < unat h \<or> unat h + 512 \<le> unat p"
  shows "\<exists>t. strip_antisocial_prefixes p m = Some t \<and> strlen_text t m = Some (of_nat (length (clean_name xs))) \<and>
    (let m1 = put m (h + of_nat 0) (replicate 512 0)
     in strlcpy_text (h + of_nat 0) t (of_nat (field_size F_name)) m1 = Some (put m1 (h + of_nat 0) (clean_name xs @ [0])))"
proof -
  let ?m1 = "put m (h + of_nat 0) (replicate 512 0)"
  obtain t where t: "strip_antisocial_prefixes p m = Some t" and c: "case t of Inl cs \<Rightarrow> cs = clean_name xs
     | Inr q \<Rightarrow> cstr m q (clean_name xs) \<and> unat p \<le> unat q \<and> unat q + length (clean_name xs) = unat p + length xs"
    using strip_ok [OF assms(1)] by blast
  have n: "length (clean_name xs) < unat (of_nat (field_size F_name) :: u32)" using assms(2) by simp
  show ?thesis
  proof (cases t)
    case (Inl cs)
    then show ?thesis using t c strlcpy_const [OF n] by (simp add: strlen_text_def Let_def)
  next
    case (Inr q)
    then have q: "cstr m q (clean_name xs)" "unat p \<le> unat q" "unat q + length (clean_name xs) = unat p + length xs" using c by simp_all
    have "cstr ?m1 q (clean_name xs)"
      by (rule cstr_cong [OF q(1)], rule put_frame) (use assms(3,5) q in auto)
    moreover have "apart h q (length (clean_name xs))"
      by (rule apartI) (use assms(2,3,5) q cstrD(2) [OF q(1)] in auto)
    ultimately show ?thesis using Inr t q(1) strlcpy_mem [OF _ _ n, of ?m1 q "h + of_nat 0"] assms(4)
      by (simp add: strlen_text_def strlen_ok Let_def)
  qed
qed

lemma bind_snd: "\<exists>r. x = Some (r, y) \<Longrightarrow> Option.bind x (\<lambda>(_, m). f m) = f y"
  by auto

lemma make_header_ok:
  assumes "cstr m p xs" and "length (clean_name xs) \<le> 99" and "type = USTAR_REGULAR \<or> type = USTAR_DIRECTORY"
    and "unat h + 512 \<le> 2 ^ 32" and "h \<noteq> NULL" and "unat p + length xs < unat h \<or> unat h + 512 \<le> unat p"
  shows "ustar_make_header p type sz h m con =
    (let m1 = write_fields h (header_fields (clean_name xs) type sz) m
     in Some (True, write_fields h [(148, octal 7 (calculate_chksum h m1) @ [0])] m1, con))"
proof -
  obtain t where t: "strip_antisocial_prefixes p m = Some t" "strlen_text t m = Some (of_nat (length (clean_name xs)))"
    "strlcpy_text (h + of_nat 0) t (of_nat (field_size F_name)) (put m (h + of_nat 0) (replicate 512 0)) =
       Some (put (put m (h + of_nat 0) (replicate 512 0)) (h + of_nat 0) (clean_name xs @ [0]))"
    using name_text [OF assms(1,2,4,5,6)] unfolding Let_def by blast
  have len: "\<not> (of_nat (length (clean_name xs)) :: u32) > 99" using assms(2) by (simp add: word_less_nat_alt unat_of_nat32)
  have k: "unat (calculate_chksum h m) < 8 ^ 7" "unat sz < 8 ^ 11" for m
    using chksum_small [of "block_at m h 512"] unat_lt32 [of sz] by (simp_all add: calculate_chksum_ok)
  have s7: "\<exists>r. snprintf (h + of_nat 100) (of_nat (field_size F_mode)) (Inl (str ''%07o'')) [if type = USTAR_REGULAR then 420 else 493] m =
      Some (r, put m (h + of_nat 100) (octal 7 (if type = USTAR_REGULAR then 420 else 493) @ [0]))" for m
    using snprintf_octal [of "str ''7''" 7 "if type = USTAR_REGULAR then 420 else 493" h 100 m] assms(4) by simp
  have s11: "\<exists>r. snprintf (h + of_nat 124) (of_nat (field_size F_size)) (Inl (str ''%011o'')) [sz] m =
      Some (r, put m (h + of_nat 124) (octal 11 sz @ [0]))" for m
    using snprintf_octal [of "str ''11''" 11 sz h 124 m] assms(4) k by simp
  have smt: "\<exists>r. snprintf (h + of_nat 136) (of_nat (field_size F_size)) (Inl (str ''%011o'')) [1136102400] m =
      Some (r, put m (h + of_nat 136) (octal 11 1136102400 @ [0]))" for m
    using snprintf_octal [of "str ''11''" 11 1136102400 h 136 m] assms(4) by simp
  have sck: "\<exists>r. snprintf (h + of_nat 148) (of_nat (field_size F_chksum)) (Inl (str ''%07o'')) [calculate_chksum h m] m =
      Some (r, put m (h + of_nat 148) (octal 7 (calculate_chksum h m) @ [0]))" for m
    using snprintf_octal [of "str ''7''" 7 "calculate_chksum h m" h 148 m] assms(4) k by simp
  have const: "strlcpy_text p (Inl (str ''0000000'')) (of_nat (field_size F_uid)) m = Some (put m p (str ''0000000'' @ [0]))"
    "strlcpy_text p (Inl (str ''0000000'')) (of_nat (field_size F_gid)) m = Some (put m p (str ''0000000'' @ [0]))"
    "strlcpy_text p (Inl (str ''ustar'')) (of_nat (field_size F_magic)) m = Some (put m p (str ''ustar'' @ [0]))"
    "strlcpy_text p (Inl (str ''root'')) (of_nat (field_size F_gname)) m = Some (put m p (str ''root'' @ [0]))"
    "strlcpy_text p (Inl (str ''root'')) (of_nat (field_size F_uname)) m = Some (put m p (str ''root'' @ [0]))" for p m
    by (rule strlcpy_const, simp)+
  show ?thesis
    unfolding ustar_make_header_def header_fields_def
    by (simp only: t len assms(3) ASSERT_def field_addr clear_header [OF assms(5)] bind_snd [OF s7] bind_snd [OF s11] bind_snd [OF smt]
        bind_snd [OF sck] const put_single write_fields_simps Option.bind.simps prod.case if_True if_False Let_def)
qed

lemma header_field_read:
  assumes "length name \<le> 99" and "length b = 512" and "length ck = 8"
    and H: "H = overlays (header_fields name type sz @ [(148, ck)]) b"
  shows "take 8 (drop 148 H) = ck" "take 12 (drop 124 H) = octal 11 sz @ [0]" "take (length (str ''ustar'' @ [0])) (drop 257 H) = str ''ustar'' @ [0]"
    "take (Suc (length name)) (drop 0 H) = name @ [0]" "H ! 156 = of_int type" "H ! 263 = chr CHR ''0''" "H ! 264 = chr CHR ''0''"
    "H ! 99 = 0" "H ! 345 = 0"
proof -
  let ?F = "header_fields name type sz @ [(148, ck)]"
  have *: "take (length cs) (drop k H) = cs"
    if "?F = fs @ (k, cs) # gs" "\<forall>(j, ds)\<in>set gs. j + length ds \<le> k \<or> k + length cs \<le> j" for fs k cs gs
    using overlays_field [of fs k cs gs b] that assms(2,3) fit_header [OF assms(1), of type sz] unfolding H that(1) [symmetric] by simp
  show "take 8 (drop 148 H) = ck" using * [of _ 148 ck "[]"] assms(3) by simp
  show "take 12 (drop 124 H) = octal 11 sz @ [0]"
    using * [of "take 5 ?F" 124 "octal 11 sz @ [0]" "drop 6 ?F"] assms(3) by (simp add: header_fields_def octal_fields)
  show "take (length (str ''ustar'' @ [0])) (drop 257 H) = str ''ustar'' @ [0]"
    using * [of "take 8 ?F" 257 "str ''ustar'' @ [0]" "drop 9 ?F"] assms(3) by (simp add: header_fields_def)
  show "take (Suc (length name)) (drop 0 H) = name @ [0]"
    using * [of "take 1 ?F" 0 "name @ [0]" "drop 2 ?F"] assms(1,3) by (simp add: header_fields_def octal_fields)
  have one: "H ! k = c" if "take (length [c]) (drop k H) = [c]" for k c
  proof -
    have "k < length H" using that by (cases "k < length H") simp_all
    then show ?thesis using that by (simp add: take_Suc hd_drop_conv_nth)
  qed
  show "H ! 156 = of_int type"
    by (rule one, rule * [of "take 7 ?F" _ _ "drop 8 ?F"]) (use assms(3) in \<open>simp_all add: header_fields_def\<close>)
  show "H ! 263 = chr CHR ''0''"
    by (rule one, rule * [of "take 10 ?F" _ _ "drop 11 ?F"]) (use assms(3) in \<open>simp_all add: header_fields_def\<close>)
  show "H ! 264 = chr CHR ''0''"
    by (rule one, rule * [of "take 9 ?F" _ _ "drop 10 ?F"]) (use assms(3) in \<open>simp_all add: header_fields_def\<close>)
  have H': "H = overlays (drop 2 ?F) (overlay 0 (name @ [0]) (replicate 512 0))"
  proof -
    have "overlay 0 (replicate 512 0) b = replicate 512 0" using assms(2) by (simp add: overlay_def)
    then show ?thesis unfolding H by (simp add: header_fields_def)
  qed
  have z: "H ! i = overlay 0 (name @ [0]) (replicate 512 0) ! i" if "i = 99 \<or> i = 345" for i
    unfolding H' by (rule overlays_nth) (use that assms(1,3) in \<open>auto simp: header_fields_def octal_fields\<close>)
  show "H ! 99 = 0" "H ! 345 = 0" using z [of 99] z [of 345] assms(1) by (auto simp: nth_overlay nth_append)
qed

lemma is_all_zeros_byte: "is_all_zeros b n m \<Longrightarrow> 0 < n \<Longrightarrow> m b = 0"
  by (cases n) (auto split: if_splits)

lemma parse_header_ok:
  assumes "length name \<le> 99" and "clean_name name = name" and "cstr m h name"
    and "type = USTAR_REGULAR \<or> type = USTAR_DIRECTORY" and "unat sz < 2 ^ 31"
    and H: "block_at m h 512 = overlays (header_fields name type sz @ [(148, octal 7 c @ [0])]) b" and "length b = 512"
    and "c = chksum_of (overlays (header_fields name type sz) b)"
  shows "ustar_parse_header h m = Some (Inr (Some (Inr h), type, if type = USTAR_REGULAR then int (unat sz) else 0))"
proof -
  have ck: "length (octal 7 c @ [0]) = 8" using octal_fields(5) assms(8) by simp
  note r = header_field_read [OF assms(1,7) ck H]
  have byte: "m (h + of_nat k) = block_at m h 512 ! k" if "k < 512" for k by (rule header_byte [OF that])
  have "name \<noteq> []" using clean_name_safe(2) [of name] assms(2) by simp
  then have "m h \<noteq> 0" using assms(3) by (cases name) (auto dest: cstr_ConsD(2,3))
  then have z: "\<not> is_all_zeros h USTAR_HEADER_SIZE m" using is_all_zeros_byte [of h USTAR_HEADER_SIZE m] by (auto simp: USTAR_HEADER_SIZE_def)
  have magic: "memcmp_const (h + of_nat 257) (str ''ustar'' @ [0]) m"
    unfolding memcmp_const_def by (subst field_block) (use r(3) in simp_all)
  have cs: "parse_octal_field (h + of_nat 148) (field_size F_chksum) m = (True, c)"
  proof -
    have "block_at m (h + of_nat 148) (Suc 7) = octal 7 c @ [0]" by (subst field_block) (use r(1) in simp_all)
    then show ?thesis using parse_octal_ok [of m "h + of_nat 148" 7 c] chksum_small assms(8) by simp
  qed
  have so: "parse_octal_field (h + of_nat 124) (field_size F_size) m = (True, sz)"
  proof -
    have "block_at m (h + of_nat 124) (Suc 11) = octal 11 sz @ [0]" by (subst field_block) (use r(2) in simp_all)
    then show ?thesis using parse_octal_ok [of m "h + of_nat 124" 11 sz] unat_lt32 [of sz] by simp
  qed
  have "overlays (header_fields name type sz @ [(148, octal 7 c @ [0])]) b = overlay 148 (octal 7 c @ [0]) (overlays (header_fields name type sz) b)"
    by simp
  then have cc: "calculate_chksum h m = c"
    using chksum_overlay [OF ck, of "overlays (header_fields name type sz) b"] fit_header [OF assms(1)] assms(7,8) H
    by (simp add: calculate_chksum_ok)
  have ty: "sint (of_int type :: u8) = type" using assms(4) by (auto simp: USTAR_REGULAR_def USTAR_DIRECTORY_def)
  have "sint sz = int (unat sz)" "\<not> sz > 0x7fffffff" using assms(5) sint_small [of sz] by (simp_all add: word_less_nat_alt)
  moreover have "strip_antisocial_prefixes (h + of_nat 0) m = Some (Inr h)" using strip_clean [OF assms(3,2)] by simp
  moreover have "m (h + of_nat 156) = of_int type" "m (h + of_nat 263) = chr CHR ''0''" "m (h + of_nat 264) = chr CHR ''0''"
    "m (h + of_nat 0 + of_nat (field_size F_name - 1)) = 0" "m (h + of_nat 345) = 0"
    using r byte by (simp_all del: of_nat_numeral)
  ultimately show ?thesis
    unfolding ustar_parse_header_def Let_def field_addr
    using assms(4) z magic cs so cc ty by (auto simp del: of_nat_0 of_nat_numeral field_size.simps)
qed

text \<open>C24: A header composed by \<^verbatim>\<open>ustar_make_header\<close> is parsed back by \<^verbatim>\<open>ustar_parse_header\<close>: the name with its
  dangerous prefixes removed (so that it is never absolute and never starts with \<^verbatim>\<open>../\<close>), the type, and the size of a
  regular file.  Nothing outside the 512 bytes of the header is written.\<close>

theorem ustar_roundtrip:
  assumes "cstr m p xs" and "length (clean_name xs) \<le> 99" and "type = USTAR_REGULAR \<or> type = USTAR_DIRECTORY" and "unat sz < 2 ^ 31"
    and "unat h + 512 \<le> 2 ^ 32" and "h \<noteq> NULL" and "unat p + length xs < unat h \<or> unat h + 512 \<le> unat p"
  shows "\<exists>m'. ustar_make_header p type sz h m con = Some (True, m', con) \<and>
    ustar_parse_header h m' = Some (Inr (Some (Inr h), type, if type = USTAR_REGULAR then int (unat sz) else 0)) \<and>
    cstr m' h (clean_name xs) \<and> \<not> antisocial (clean_name xs) \<and>
    (\<forall>a :: addr. unat a < unat h \<or> unat h + 512 \<le> unat a \<longrightarrow> m' a = m a)"
proof -
  let ?n = "clean_name xs"
  let ?fs = "header_fields ?n type sz" and ?b = "block_at m h 512"
  define c where "c = chksum_of (overlays ?fs ?b)"
  let ?gs = "?fs @ [(148, octal 7 c @ [0])]"
  let ?m = "write_fields h ?gs m"
  have fit: "fit ?fs" "fit ?gs" using fit_header [OF assms(2)] octal_fields(5) by (simp_all add: c_def)
  have "calculate_chksum h (write_fields h ?fs m) = c" unfolding calculate_chksum_ok block_write_fields [OF fit(1)] c_def ..
  then have mk: "ustar_make_header p type sz h m con = Some (True, ?m, con)"
    using make_header_ok [OF assms(1,2,3,5,6,7)] by (simp add: Let_def)
  have ck: "length (octal 7 c @ [0]) = 8" using octal_fields(5) by (simp add: c_def)
  note b = block_write_fields [OF fit(2), of h m]
  have nm: "block_at ?m (h + of_nat 0) (Suc (length ?n)) = ?n @ [0]"
    by (subst field_block, use assms(2) in simp) (use header_field_read(4) [OF assms(2) _ ck b] in simp)
  have cs: "cstr ?m h ?n"
  proof -
    have "block_at ?m h (length ?n) = ?n" using arg_cong [OF nm, of "take (length ?n)"] take_block_at [of "length ?n" "Suc (length ?n)" ?m h] by simp
    moreover have "?m (h + of_nat (length ?n)) = 0" using arg_cong [OF nm, of "\<lambda>b. b ! length ?n"] nth_block_at [of "length ?n" "Suc (length ?n)" ?m h] by simp
    ultimately show ?thesis using assms(2,5,6) nonzero_clean [OF cstr_nonzero [OF assms(1)]] by (simp add: cstr_conv)
  qed
  have "ustar_parse_header h ?m = Some (Inr (Some (Inr h), type, if type = USTAR_REGULAR then int (unat sz) else 0))"
    by (rule parse_header_ok [OF assms(2) clean_name_idem cs assms(3,4) b]) (simp_all add: c_def)
  moreover have "\<forall>a :: addr. unat a < unat h \<or> unat h + 512 \<le> unat a \<longrightarrow> ?m a = m a"
    using write_fields_frame [OF assms(5) _ fit(2)] by blast
  ultimately show ?thesis using mk cs clean_name_safe(1) by blast
qed

section \<open>Witnesses\<close>

definition demo_name :: bytes where
  "demo_name a = (if unat (a - 4096) < 6 then str ''../abc'' ! unat (a - 4096) else 0)"

lemma demo_name_text: "cstr demo_name 4096 (str ''../abc'')" "clean_name (str ''../abc'') = str ''abc''"
  by (simp_all add: cstr_def demo_name_def) (simp add: clean_name_def strip_name.simps antisocial_def)

theorem ustar_roundtrip_witness:
  "\<exists>m'. ustar_make_header 4096 USTAR_REGULAR 1000 8192 demo_name \<lparr>shown = [], write_cnt = 0\<rparr> = Some (True, m', \<lparr>shown = [], write_cnt = 0\<rparr>) \<and>
    ustar_parse_header 8192 m' = Some (Inr (Some (Inr 8192), USTAR_REGULAR, 1000)) \<and> cstr m' 8192 (str ''abc'')"
  using ustar_roundtrip [OF demo_name_text(1), of USTAR_REGULAR 1000 8192 "\<lparr>shown = [], write_cnt = 0\<rparr>"] unfolding demo_name_text(2) by auto

end
