(* ===== verification/KRandom.thy ===== *)
theory KRandom
  imports KString Block
begin

text \<open>
  The pseudo-random number generator: \<^verbatim>\<open>lib/random.c\<close>, RC4 on the bytes of the memory.
\<close>

section \<open>Operations\<close>

record rc4 =
  rs :: "u8 list"
  s_i :: u8
  s_j :: u8
  inited :: bool

text \<open>\<^verbatim>\<open>s[i]\<close> and \<^verbatim>\<open>s[i] = v\<close>; the index is the C integer, and one behind the array
  faults.\<close>

definition rc4_get :: "u8 list \<Rightarrow> nat \<Rightarrow> u8 option" where
  "rc4_get xs i = (if i < length xs then Some (xs ! i) else None)"

definition rc4_set :: "u8 list \<Rightarrow> nat \<Rightarrow> u8 \<Rightarrow> u8 list option" where
  "rc4_set xs i v = (if i < length xs then Some (xs[i := v]) else None)"

definition swap_byte :: "u8 list \<Rightarrow> nat \<Rightarrow> nat \<Rightarrow> u8 list option" where
  "swap_byte xs a b = do {
     t \<leftarrow> rc4_get xs a;
     y \<leftarrow> rc4_get xs b;
     xs \<leftarrow> rc4_set xs a y;
     rc4_set xs b t
   }"

text \<open>The two loops of \<^verbatim>\<open>random_init\<close>, with the number of rounds left; \<^verbatim>\<open>i\<close> is an
  \<^verbatim>\<open>int\<close> that is never negative, \<^verbatim>\<open>j\<close> a byte.\<close>

fun fill_loop :: "nat \<Rightarrow> nat \<Rightarrow> u8 list \<Rightarrow> u8 list option" where
  "fill_loop 0 i xs = Some xs"
| "fill_loop (Suc n) i xs = do { xs \<leftarrow> rc4_set xs i (of_nat i); fill_loop n (i + 1) xs }"

fun mix_loop :: "nat \<Rightarrow> nat \<Rightarrow> u32 \<Rightarrow> u8 \<Rightarrow> u8 list \<Rightarrow> u8 list option" where
  "mix_loop 0 i seed j xs = Some xs"
| "mix_loop (Suc n) i seed j xs = do {
     x \<leftarrow> rc4_get xs i;
     let j = j + (x + bytes_of_word seed ! (i mod 4));
     xs \<leftarrow> swap_byte xs i (unat j);
     mix_loop n (i + 1) seed j xs
   }"

definition random_init :: "u32 \<Rightarrow> rc4 \<Rightarrow> rc4 option" where
  "random_init seed r = do {
     xs \<leftarrow> fill_loop 256 0 (rs r);
     xs \<leftarrow> mix_loop 256 0 seed 0 xs;
     Some (r\<lparr>rs := xs, s_i := 0, s_j := 0, inited := True\<rparr>)
   }"

definition random_step :: "rc4 \<Rightarrow> (u8 \<times> rc4) option" where
  "random_step r = do {
     let i = s_i r + 1;
     x \<leftarrow> rc4_get (rs r) (unat i);
     let j = s_j r + x;
     xs \<leftarrow> swap_byte (rs r) (unat i) (unat j);
     x \<leftarrow> rc4_get xs (unat i);
     y \<leftarrow> rc4_get xs (unat j);
     let k = x + y;
     z \<leftarrow> rc4_get xs (unat k);
     Some (z, r\<lparr>rs := xs, s_i := i, s_j := j\<rparr>)
   }"

fun random_loop :: "nat \<Rightarrow> addr \<Rightarrow> rc4 \<Rightarrow> bytes \<Rightarrow> (rc4 \<times> bytes) option" where
  "random_loop 0 buf r m = Some (r, m)"
| "random_loop (Suc n) buf r m = do {
     (z, r) \<leftarrow> random_step r;
     random_loop n (buf + 1) r (m(buf := z))
   }"

definition random_bytes :: "addr \<Rightarrow> u32 \<Rightarrow> rc4 \<Rightarrow> bytes \<Rightarrow> (rc4 \<times> bytes) option" where
  "random_bytes buf n r m = do {
     r \<leftarrow> (if \<not> inited r then random_init 0 r else Some r);
     random_loop (unat n) buf r m
   }"

text \<open>\<open>ul\<close> is the address of the automatic variable of \<^verbatim>\<open>random_ulong\<close>.\<close>

definition random_ulong :: "addr \<Rightarrow> rc4 \<Rightarrow> bytes \<Rightarrow> (u32 \<times> rc4 \<times> bytes) option" where
  "random_ulong ul r m = do {
     (r, m) \<leftarrow> random_bytes ul 4 r m;
     Some (word_of_bytes (block_at m ul 4), r, m)
   }"

section \<open>RC4\<close>

text \<open>
  The reference: the key schedule and the output generator of RC4 on functions from bytes to bytes,
  without arrays, indices or a memory.
\<close>

primrec rc4_schedule :: "(nat \<Rightarrow> u8) \<Rightarrow> nat \<Rightarrow> u8 \<times> (u8 \<Rightarrow> u8)" where
  "rc4_schedule key 0 = (0, id)"
| "rc4_schedule key (Suc i) = (let (j, S) = rc4_schedule key i; j' = j + S (of_nat i) + key i
     in (j', S(of_nat i := S j', j' := S (of_nat i))))"

type_synonym rc4_state = "u8 \<times> u8 \<times> (u8 \<Rightarrow> u8)"

definition rc4_start :: "u32 \<Rightarrow> rc4_state" where
  "rc4_start seed = (0, 0, snd (rc4_schedule (\<lambda>i. bytes_of_word seed ! (i mod 4)) 256))"

definition rc4_next :: "rc4_state \<Rightarrow> rc4_state" where
  "rc4_next = (\<lambda>(i, j, S). let i' = i + 1; j' = j + S i' in (i', j', S(i' := S j', j' := S i')))"

definition rc4_out :: "rc4_state \<Rightarrow> u8" where
  "rc4_out = (\<lambda>(i, j, S). S (S i + S j))"

definition rc4_stream :: "nat \<Rightarrow> rc4_state \<Rightarrow> u8 list" where
  "rc4_stream n st = map (\<lambda>k. rc4_out ((rc4_next ^^ Suc k) st)) [0..<n]"

text \<open>The array as a function, and the state a generator is in when bytes are asked for.\<close>

definition table_of :: "u8 list \<Rightarrow> u8 \<Rightarrow> u8" where
  "table_of xs = (\<lambda>x. xs ! unat x)"

definition rc4_abs :: "rc4 \<Rightarrow> rc4_state" where
  "rc4_abs r = (if inited r then (s_i r, s_j r, table_of (rs r)) else rc4_start 0)"

section \<open>The code is RC4\<close>

lemma byte_lt: "unat (x :: u8) < 256"
  using unsigned_less [of x, where ?'a = nat] by simp

lemma unat_byte: "i < 256 \<Longrightarrow> unat (of_nat i :: u8) = i"
  by (simp add: unat_of_nat)

lemma swap_eq:
  "a < length xs \<Longrightarrow> b < length xs \<Longrightarrow> swap_byte xs a b = Some (xs[a := xs ! b, b := xs ! a])"
  by (simp add: swap_byte_def rc4_get_def rc4_set_def)

lemma table_swap:
  assumes "length xs = 256"
  shows "table_of (xs[unat a := xs ! unat b, unat b := xs ! unat a]) =
    (table_of xs)(a := table_of xs b, b := table_of xs a)"
proof
  fix x
  have e: "unat y = unat z \<longleftrightarrow> y = z" for y z :: u8 by (simp add: word_unat_eq_iff)
  show "table_of (xs[unat a := xs ! unat b, unat b := xs ! unat a]) x =
    ((table_of xs)(a := table_of xs b, b := table_of xs a)) x"
    using assms byte_lt [of a] byte_lt [of b] e [of x a] e [of x b]
    by (cases "x = b"; cases "x = a") (simp_all add: table_of_def)
qed

lemma fill_eq: "i + n = length xs \<Longrightarrow> fill_loop n i xs = Some (take i xs @ map of_nat [i..<length xs])"
proof (induction n arbitrary: i xs)
  case (Suc n)
  then have l: "i < length xs" by simp
  have "fill_loop n (Suc i) (xs[i := of_nat i]) =
    Some (take (Suc i) (xs[i := of_nat i]) @ map of_nat [Suc i..<length xs])"
    using Suc.IH [of "Suc i" "xs[i := of_nat i]"] Suc.prems by simp
  moreover have "take (Suc i) (xs[i := of_nat i]) = take i xs @ [of_nat i]" using l by (simp add: take_Suc_conv_app_nth)
  moreover have "[i..<length xs] = i # [Suc i..<length xs]" using l by (simp add: upt_conv_Cons)
  ultimately show ?case using l by (simp add: rc4_set_def)
qed simp

lemma mix_eq:
  assumes "i + n = 256" "length xs = 256"
    "rc4_schedule (\<lambda>i. bytes_of_word seed ! (i mod 4)) i = (j, table_of xs)"
  shows "\<exists>ys. mix_loop n i seed j xs = Some ys \<and> length ys = 256 \<and>
    table_of ys = snd (rc4_schedule (\<lambda>i. bytes_of_word seed ! (i mod 4)) 256)"
  using assms
proof (induction n arbitrary: i j xs)
  case 0 then show ?case by simp
next
  case (Suc n)
  let ?j = "j + (xs ! i + bytes_of_word seed ! (i mod 4))"
  let ?ys = "xs[i := xs ! unat ?j, unat ?j := xs ! i]"
  have i: "i < 256" using Suc.prems(1) by simp
  have x: "table_of xs (of_nat i) = xs ! i" using unat_byte [OF i] by (simp add: table_of_def)
  have t: "table_of ?ys = (table_of xs)(of_nat i := table_of xs ?j, ?j := xs ! i)"
    using table_swap [OF Suc.prems(2), of "of_nat i" ?j] unat_byte [OF i] x by (simp add: table_of_def)
  have "mix_loop (Suc n) i seed j xs = mix_loop n (Suc i) seed ?j ?ys"
    using i Suc.prems(2) byte_lt [of ?j] by (simp add: rc4_get_def swap_eq Let_def)
  moreover have "rc4_schedule (\<lambda>i. bytes_of_word seed ! (i mod 4)) (Suc i) = (?j, table_of ?ys)"
    unfolding rc4_schedule.simps Suc.prems(3) Let_def prod.case x t add.assoc ..
  ultimately show ?case using Suc.IH [of "Suc i" ?ys ?j] Suc.prems(1,2) by simp
qed

lemma random_init_eq:
  assumes "length (rs r) = 256"
  shows "\<exists>r'. random_init seed r = Some r' \<and> inited r' \<and> length (rs r') = 256 \<and> rc4_abs r' = rc4_start seed"
proof -
  let ?xs = "map of_nat [0..<256] :: u8 list"
  have f: "fill_loop 256 0 (rs r) = Some ?xs" using fill_eq [of 0 256 "rs r"] assms by simp
  have "table_of ?xs x = x" for x using byte_lt [of x] by (simp add: table_of_def)
  then have "rc4_schedule (\<lambda>i. bytes_of_word seed ! (i mod 4)) 0 = (0, table_of ?xs)" by (simp add: fun_eq_iff)
  then obtain ys where "mix_loop 256 0 seed 0 ?xs = Some ys" "length ys = 256"
    "table_of ys = snd (rc4_schedule (\<lambda>i. bytes_of_word seed ! (i mod 4)) 256)"
    using mix_eq [of 0 256 ?xs seed 0] by auto
  then show ?thesis using f by (simp add: random_init_def rc4_abs_def rc4_start_def)
qed

lemma random_step_eq:
  assumes "length (rs r) = 256" "inited r"
  shows "\<exists>r'. random_step r = Some (rc4_out (rc4_next (rc4_abs r)), r') \<and> length (rs r') = 256 \<and> inited r' \<and>
    rc4_abs r' = rc4_next (rc4_abs r)"
proof -
  let ?i = "s_i r + 1"
  let ?j = "s_j r + rs r ! unat ?i"
  let ?ys = "(rs r)[unat ?i := rs r ! unat ?j, unat ?j := rs r ! unat ?i]"
  have t: "table_of ?ys = (table_of (rs r))(?i := table_of (rs r) ?j, ?j := table_of (rs r) ?i)"
    by (rule table_swap [OF assms(1)])
  have n: "rc4_next (rc4_abs r) = (?i, ?j, table_of ?ys)"
    unfolding t using assms(2) by (simp add: rc4_abs_def rc4_next_def Let_def table_of_def)
  have g: "rc4_get (rs r) (unat b) = Some (rs r ! unat b)" "rc4_get ?ys (unat b) = Some (?ys ! unat b)" for b :: u8
    using assms(1) byte_lt by (simp_all add: rc4_get_def)
  have s: "swap_byte (rs r) (unat ?i) (unat ?j) = Some ?ys" using assms(1) byte_lt by (intro swap_eq) simp_all
  have "random_step r = Some (?ys ! unat (?ys ! unat ?i + ?ys ! unat ?j), r\<lparr>rs := ?ys, s_i := ?i, s_j := ?j\<rparr>)"
    unfolding random_step_def Let_def g option.simps Option.bind.simps s ..
  moreover have "rc4_out (?i, ?j, table_of ?ys) = ?ys ! unat (?ys ! unat ?i + ?ys ! unat ?j)"
    by (simp only: rc4_out_def prod.case table_of_def)
  moreover have "rc4_abs (r\<lparr>rs := ?ys, s_i := ?i, s_j := ?j\<rparr>) = rc4_next (rc4_abs r)"
    unfolding n using assms(2) by (simp add: rc4_abs_def)
  ultimately show ?thesis unfolding n [symmetric] using assms by (simp add: n)
qed

lemma put_Cons_after:
  assumes "Suc (length zs) < 2 ^ 32"
  shows "put (m(buf := z)) (buf + 1) zs = put m buf (z # zs)"
proof
  fix a
  show "put (m(buf := z)) (buf + 1) zs a = put m buf (z # zs) a"
  proof (cases "a = buf")
    case True
    have "unat (buf - (buf + 1)) = 2 ^ 32 - 1" by (simp add: unsigned_minus_1_eq_mask mask_eq_exp_minus_1)
    then show ?thesis using True assms by (simp add: put_def)
  next
    case False
    then have "unat (a - buf) = Suc (unat (a - (buf + 1)))"
      using unat_minus_1 [of "a - buf"] by (simp add: diff_diff_eq [symmetric] unat_gt_0 del: diff_diff_eq)
    then show ?thesis using False by (simp add: put_def)
  qed
qed

lemma stream_Suc: "rc4_stream (Suc n) st = rc4_out (rc4_next st) # rc4_stream n (rc4_next st)"
  unfolding rc4_stream_def upt_conv_Cons [OF zero_less_Suc] list.map map_Suc_upt [symmetric] map_map
  by (simp add: funpow_Suc_right del: funpow.simps)

lemma random_loop_eq:
  assumes "length (rs r) = 256" "inited r" "n < 2 ^ 32"
  shows "\<exists>r'. length (rs r') = 256 \<and> inited r' \<and> rc4_abs r' = (rc4_next ^^ n) (rc4_abs r) \<and>
    random_loop n buf r m = Some (r', put m buf (rc4_stream n (rc4_abs r)))"
  using assms
proof (induction n arbitrary: r buf m)
  case 0
  then show ?case by (intro exI [of _ r]) (simp add: put_def rc4_stream_def)
next
  case (Suc n)
  obtain r1 where s: "random_step r = Some (rc4_out (rc4_next (rc4_abs r)), r1)" "length (rs r1) = 256" "inited r1"
    "rc4_abs r1 = rc4_next (rc4_abs r)" using random_step_eq [OF Suc.prems(1,2)] by blast
  let ?z = "rc4_out (rc4_next (rc4_abs r))"
  obtain r' where r': "length (rs r') = 256" "inited r'" "rc4_abs r' = (rc4_next ^^ n) (rc4_abs r1)"
    "random_loop n (buf + 1) r1 (m(buf := ?z)) = Some (r', put (m(buf := ?z)) (buf + 1) (rc4_stream n (rc4_abs r1)))"
    using Suc.IH [OF s(2,3)] Suc.prems(3) by fastforce
  have "put (m(buf := ?z)) (buf + 1) zs = put m buf (?z # zs)" if "length zs = n" for zs
    using put_Cons_after [of zs m buf ?z] that Suc.prems(3) by simp
  moreover have "length (rc4_stream n st) = n" for st by (simp add: rc4_stream_def)
  moreover have "(rc4_next ^^ n) (rc4_next (rc4_abs r)) = (rc4_next ^^ Suc n) (rc4_abs r)"
    by (simp add: funpow_swap1)
  ultimately show ?case using r' s by (intro exI [of _ r']) (simp add: stream_Suc)
qed

section \<open>Properties\<close>

text \<open>The static array has 256 elements, whatever they are before the generator is initialised.\<close>

definition rc4_ok :: "rc4 \<Rightarrow> bool" where
  "rc4_ok r \<longleftrightarrow> length (rs r) = 256"

text \<open>C33: The generator is RC4: \<^verbatim>\<open>random_init\<close> makes, with no access outside the array, the state that the key schedule
  makes of the four bytes of the seed, and \<^verbatim>\<open>random_bytes\<close>, which initialises with seed 0 a generator that was not
  initialised, fills exactly the buffer with the next bytes of the stream and leaves the generator behind them.\<close>

theorem random_rc4:
  assumes "rc4_ok r"
  shows "(\<exists>r'. random_init seed r = Some r' \<and> rc4_ok r' \<and> rc4_abs r' = rc4_start seed) \<and>
    (\<exists>r'. random_bytes buf n r m = Some (r', put m buf (rc4_stream (unat n) (rc4_abs r))) \<and> rc4_ok r' \<and>
      rc4_abs r' = (rc4_next ^^ unat n) (rc4_abs r))"
proof
  have l: "length (rs r) = 256" using assms by (simp add: rc4_ok_def)
  show "\<exists>r'. random_init seed r = Some r' \<and> rc4_ok r' \<and> rc4_abs r' = rc4_start seed"
    using random_init_eq [OF l] by (auto simp: rc4_ok_def)
  obtain r1 where r1: "(if \<not> inited r then random_init 0 r else Some r) = Some r1" "inited r1" "length (rs r1) = 256"
    "rc4_abs r1 = rc4_abs r"
    using random_init_eq [OF l, of 0] l by (cases "inited r") (auto simp: rc4_abs_def [of r])
  then show "\<exists>r'. random_bytes buf n r m = Some (r', put m buf (rc4_stream (unat n) (rc4_abs r))) \<and> rc4_ok r' \<and>
      rc4_abs r' = (rc4_next ^^ unat n) (rc4_abs r)"
    using random_loop_eq [OF r1(3,2), of "unat n" buf m] unat_lt32 [of n] by (auto simp: random_bytes_def rc4_ok_def)
qed

theorem random_rc4_witness:
  "\<exists>r'. random_bytes 4096 10 \<lparr>rs = replicate 256 0, s_i = 0, s_j = 0, inited = False\<rparr> (\<lambda>_. 0) =
    Some (r', put (\<lambda>_. 0) 4096 (rc4_stream 10 (rc4_start 0)))"
  using random_rc4 [of "\<lparr>rs = replicate 256 0, s_i = 0, s_j = 0, inited = False\<rparr>" 0 4096 10 "\<lambda>_. 0"]
  by (auto simp: rc4_ok_def rc4_abs_def)

end
