(* ===== verification/Swap.thy ===== *)
theory Swap
  imports KString Block KBitmap Vaddr
begin

text \<open>
  The swap area: \<^verbatim>\<open>vm/swap.c\<close>.  A slot is eight consecutive sectors of the swap device; a set bit of
  \<^verbatim>\<open>swap_available\<close> is a free slot.  The pages are in the bytes of the memory.
\<close>

section \<open>Operations\<close>

definition SECTORS_PER_PAGE :: nat where "SECTORS_PER_PAGE = 8"

record swap =
  swap_block :: addr
  swap_available :: bitmap
  swap_size :: int
  sdv :: devices
  smem :: bytes

text \<open>\<^verbatim>\<open>swap_init\<close>; the results of the two calls of \<^verbatim>\<open>malloc\<close> in \<^verbatim>\<open>bitmap_create\<close> are arguments.  A null bitmap
  faults in \<^verbatim>\<open>bitmap_set_all\<close>.\<close>

definition swap_init :: "bool \<Rightarrow> u32 list option \<Rightarrow> swap \<Rightarrow> swap option" where
  "swap_init ok arr s = do {
     b \<leftarrow> block_get_role BLOCK_SWAP (sdv s);
     ASSERT (b \<noteq> NULL);
     let n = block_size b (sdv s) div of_nat SECTORS_PER_PAGE;
     r \<leftarrow> bitmap_create n ok arr;
     bm \<leftarrow> r;
     bm \<leftarrow> bitmap_set_all True bm;
     Some (s\<lparr>swap_block := b, swap_size := sint n, swap_available := bm\<rparr>)
   }"

fun write_sectors :: "nat \<Rightarrow> nat \<Rightarrow> u32 \<Rightarrow> addr \<Rightarrow> swap \<Rightarrow> swap option" where
  "write_sectors 0 i idx page s = Some s"
| "write_sectors (Suc n) i idx page s = do {
     d \<leftarrow> block_write (swap_block s) (idx * of_nat SECTORS_PER_PAGE + of_nat i)
            (block_at (smem s) (page + of_nat (BLOCK_SECTOR_SIZE * i)) BLOCK_SECTOR_SIZE) (sdv s);
     write_sectors n (i + 1) idx page (s\<lparr>sdv := d\<rparr>)
   }"

fun read_sectors :: "nat \<Rightarrow> nat \<Rightarrow> u32 \<Rightarrow> addr \<Rightarrow> swap \<Rightarrow> swap option" where
  "read_sectors 0 i idx page s = Some s"
| "read_sectors (Suc n) i idx page s = do {
     (buf, d) \<leftarrow> block_read (swap_block s) (idx * of_nat SECTORS_PER_PAGE + of_nat i) (sdv s);
     read_sectors n (i + 1) idx page (s\<lparr>sdv := d, smem := put (smem s) (page + of_nat (BLOCK_SECTOR_SIZE * i)) buf\<rparr>)
   }"

text \<open>A slot number is a signed integer; \<^verbatim>\<open>BITMAP_ERROR\<close> becomes -1.\<close>

definition swap_out :: "addr \<Rightarrow> swap \<Rightarrow> (int \<times> swap) option" where
  "swap_out page s = do {
     ASSERT (page \<ge> PHYS_BASE);
     idx \<leftarrow> bitmap_scan (swap_available s) 0 1 True;
     s \<leftarrow> write_sectors SECTORS_PER_PAGE 0 idx page s;
     bm \<leftarrow> bitmap_set idx False (swap_available s);
     Some (sint idx, s\<lparr>swap_available := bm\<rparr>)
   }"

definition swap_in :: "int \<Rightarrow> addr \<Rightarrow> swap \<Rightarrow> swap option" where
  "swap_in swap_index page s = do {
     ASSERT (page \<ge> PHYS_BASE);
     ASSERT (swap_index < swap_size s);
     t \<leftarrow> bitmap_test (swap_available s) (of_int swap_index);
     ASSERT (\<not> t);
     s \<leftarrow> read_sectors SECTORS_PER_PAGE 0 (of_int swap_index) page s;
     bm \<leftarrow> bitmap_set (of_int swap_index) True (swap_available s);
     Some (s\<lparr>swap_available := bm\<rparr>)
   }"

definition swap_free :: "int \<Rightarrow> swap \<Rightarrow> swap option" where
  "swap_free swap_index s = do {
     ASSERT (swap_index < swap_size s);
     t \<leftarrow> bitmap_test (swap_available s) (of_int swap_index);
     ASSERT (\<not> t);
     bm \<leftarrow> bitmap_set (of_int swap_index) True (swap_available s);
     Some (s\<lparr>swap_available := bm\<rparr>)
   }"

section \<open>Slots\<close>

definition sec :: "swap \<Rightarrow> nat \<Rightarrow> u8 list" where
  "sec s m = sector_at (sdv s) (swap_block s) (of_nat m)"

definition slot :: "swap \<Rightarrow> nat \<Rightarrow> u8 list" where
  "slot s i = concat (map (\<lambda>k. sec s (8 * i + k)) [0..<8])"

definition avail :: "swap \<Rightarrow> bool list" where
  "avail s = bm_abs (swap_available s)"

definition swap_ok :: "swap \<Rightarrow> bool" where
  "swap_ok s \<longleftrightarrow> device_ok (sdv s) (swap_block s) \<and> bm_ok (swap_available s) \<and>
     swap_size s = int (unat (bit_cnt (swap_available s))) \<and> unat (bit_cnt (swap_available s)) < 2 ^ 29 \<and>
     8 * unat (bit_cnt (swap_available s)) \<le> unat (bsize (blk (sdv s) (swap_block s)))"

lemma swap_okD:
  assumes "swap_ok s"
  shows "device_ok (sdv s) (swap_block s)" "bm_ok (swap_available s)" "length (avail s) < 2 ^ 29"
    "8 * length (avail s) \<le> unat (bsize (blk (sdv s) (swap_block s)))" "swap_size s = int (length (avail s))"
  using assms by (simp_all add: swap_ok_def avail_def)

lemma sector_no:
  assumes "swap_ok s" and "i < length (avail s)" and "k < 8"
  shows "(of_nat i :: u32) * of_nat SECTORS_PER_PAGE + of_nat k = of_nat (8 * i + k)" "of_nat (8 * i + k) < bsize (blk (sdv s) (swap_block s))"
    "8 * i + k < 2 ^ 32"
proof -
  show "(of_nat i :: u32) * of_nat SECTORS_PER_PAGE + of_nat k = of_nat (8 * i + k)" by (simp add: SECTORS_PER_PAGE_def)
  show l: "8 * i + k < 2 ^ 32" using swap_okD(3) [OF assms(1)] assms(2,3) by simp
  have "8 * i + k < 8 * length (avail s)" using assms(2,3) by simp
  then show "of_nat (8 * i + k) < bsize (blk (sdv s) (swap_block s))"
    using swap_okD(4) [OF assms(1)] l unfolding word_less_nat_alt unat_of_nat32 [OF l] by linarith
qed

definition same_state :: "swap \<Rightarrow> swap \<Rightarrow> bool" where
  "same_state s s' \<longleftrightarrow> swap_block s' = swap_block s \<and> swap_available s' = swap_available s \<and> swap_size s' = swap_size s \<and>
     same_devices (sdv s) (sdv s') \<and> device_ok (sdv s') (swap_block s)"

lemma same_state_ok: "swap_ok s \<Longrightarrow> same_state s s' \<Longrightarrow> swap_ok s' \<and> avail s' = avail s"
  using same_devices_bsize [of "sdv s" "sdv s'"] by (auto simp: swap_ok_def same_state_def avail_def)

lemma same_state_trans: "same_state s s1 \<Longrightarrow> same_state s1 s2 \<Longrightarrow> same_state s s2"
  by (auto simp: same_state_def intro: same_devices_trans)

lemma write_sectors_ok:
  "swap_ok s \<Longrightarrow> i < length (avail s) \<Longrightarrow> k + n = 8 \<Longrightarrow>
     \<exists>s'. write_sectors n k (of_nat i) page s = Some s' \<and> same_state s s' \<and> smem s' = smem s \<and>
       (\<forall>m < 2 ^ 32. sec s' m = (if 8 * i + k \<le> m \<and> m < 8 * i + 8 then block_at (smem s) (page + of_nat (512 * (m - 8 * i))) 512 else sec s m))"
proof (induction n arbitrary: k s)
  case 0
  then show ?case by (auto simp: same_state_def swap_okD)
next
  case (Suc n)
  have k: "k < 8" using Suc.prems(3) by simp
  note sn = sector_no [OF Suc.prems(1,2) k]
  let ?b = "block_at (smem s) (page + of_nat (BLOCK_SECTOR_SIZE * k)) BLOCK_SECTOR_SIZE"
  obtain d where d: "block_write (swap_block s) (of_nat (8 * i + k)) ?b (sdv s) = Some d" "same_devices (sdv s) d" "device_ok d (swap_block s)"
    "sector_at d (swap_block s) = (sector_at (sdv s) (swap_block s))(of_nat (8 * i + k) := ?b)"
    using block_write_ok [OF swap_okD(1) [OF Suc.prems(1)] sn(2), of ?b] by auto
  let ?s = "s\<lparr>sdv := d\<rparr>"
  have ss: "same_state s ?s" using d by (simp add: same_state_def)
  note ok = same_state_ok [OF Suc.prems(1) ss]
  obtain s' where s': "write_sectors n (k + 1) (of_nat i) page ?s = Some s'" "same_state ?s s'" "smem s' = smem s"
    "\<And>m. m < 2 ^ 32 \<Longrightarrow> sec s' m =
       (if 8 * i + (k + 1) \<le> m \<and> m < 8 * i + 8 then block_at (smem s) (page + of_nat (512 * (m - 8 * i))) 512 else sec ?s m)"
    using Suc.IH [of ?s "k + 1"] ok Suc.prems(2,3) by auto
  have sd: "sec ?s m = (if m = 8 * i + k then block_at (smem s) (page + of_nat (512 * (m - 8 * i))) 512 else sec s m)" if "m < 2 ^ 32" for m
    using d(4) of_nat_inj32 [OF that sn(3)] by (auto simp: sec_def BLOCK_SECTOR_SIZE_def simp del: of_nat_add of_nat_mult)
  have "sec s' m = (if 8 * i + k \<le> m \<and> m < 8 * i + 8 then block_at (smem s) (page + of_nat (512 * (m - 8 * i))) 512 else sec s m)" if "m < 2 ^ 32" for m
    unfolding s'(4) [OF that] sd [OF that] using k by (auto simp del: of_nat_mult)
  then show ?case using s' d(1) sn(1) same_state_trans [OF ss s'(2)] by (simp del: of_nat_add of_nat_mult)
qed

lemma read_sectors_ok:
  "swap_ok s \<Longrightarrow> i < length (avail s) \<Longrightarrow> k + n = 8 \<Longrightarrow>
     \<exists>s'. read_sectors n k (of_nat i) page s = Some s' \<and> same_state s s' \<and> sec s' = sec s \<and>
       smem s' = put (smem s) (page + of_nat (512 * k)) (concat (map (\<lambda>k. sec s (8 * i + k)) [k..<8]))"
proof (induction n arbitrary: k s)
  case 0
  then show ?case by (auto simp: same_state_def swap_okD put_def)
next
  case (Suc n)
  have k: "k < 8" using Suc.prems(3) by simp
  note sn = sector_no [OF Suc.prems(1,2) k] note dv = swap_okD(1) [OF Suc.prems(1)]
  let ?b = "\<lambda>k. sec s (8 * i + k)"
  obtain d where d: "block_read (swap_block s) (of_nat (8 * i + k)) (sdv s) = Some (?b k, d)" "same_devices (sdv s) d" "device_ok d (swap_block s)"
    "sector_at d (swap_block s) = sector_at (sdv s) (swap_block s)" using block_read_ok [OF dv sn(2)] by (auto simp: sec_def simp del: of_nat_add of_nat_mult)
  let ?s = "s\<lparr>sdv := d, smem := put (smem s) (page + of_nat (512 * k)) (?b k)\<rparr>"
  have ss: "same_state s ?s" "sec ?s = sec s" using d by (simp_all add: same_state_def sec_def fun_eq_iff)
  note ok = same_state_ok [OF Suc.prems(1) ss(1)]
  obtain s' where s': "read_sectors n (k + 1) (of_nat i) page ?s = Some s'" "same_state ?s s'" "sec s' = sec s"
    "smem s' = put (put (smem s) (page + of_nat (512 * k)) (?b k)) (page + of_nat (512 * (k + 1))) (concat (map ?b [k + 1..<8]))"
    using Suc.IH [of ?s "k + 1"] ok Suc.prems(2,3) ss(2) by (auto simp del: of_nat_add of_nat_mult of_nat_Suc)
  have lb: "length (?b j) = 512" for j using length_sector_at [OF dv] by (simp add: sec_def BLOCK_SECTOR_SIZE_def)
  have "length (concat (map ?b [k + 1..<8])) = 512 * (7 - k)" using lb by (simp add: length_concat o_def sum_list_triv)
  then have "put (put (smem s) (page + of_nat (512 * k)) (?b k)) (page + of_nat (512 * k) + of_nat (length (?b k))) (concat (map ?b [k + 1..<8])) =
      put (smem s) (page + of_nat (512 * k)) (?b k @ concat (map ?b [k + 1..<8]))" by (intro put_append) (use lb in simp)
  moreover have "page + of_nat (512 * k) + of_nat (length (?b k)) = page + of_nat (512 * (k + 1))" using lb by (simp add: algebra_simps)
  moreover have "[k..<8] = k # [k + 1..<8]" using k by (simp add: upt_conv_Cons)
  ultimately have "smem s' = put (smem s) (page + of_nat (512 * k)) (concat (map ?b [k..<8]))" using s'(4) by (simp only: list.map concat.simps)
  then show ?case using s'(1-3) d(1) sn(1) same_state_trans [OF ss(1) s'(2)] by (simp add: BLOCK_SECTOR_SIZE_def del: of_nat_add of_nat_mult)
qed

lemma slot_written:
  assumes "swap_ok s" and "i < length (avail s)"
  shows "\<exists>s'. write_sectors SECTORS_PER_PAGE 0 (of_nat i) page s = Some s' \<and> same_state s s' \<and> smem s' = smem s \<and>
    slot s' i = block_at (smem s) page 4096 \<and> (\<forall>j < length (avail s). j \<noteq> i \<longrightarrow> slot s' j = slot s j)"
proof -
  obtain s' where s': "write_sectors 8 0 (of_nat i) page s = Some s'" "same_state s s'" "smem s' = smem s"
    "\<And>m. m < 2 ^ 32 \<Longrightarrow> sec s' m = (if 8 * i \<le> m \<and> m < 8 * i + 8 then block_at (smem s) (page + of_nat (512 * (m - 8 * i))) 512 else sec s m)"
    using write_sectors_ok [OF assms, of 0 8 page] by auto
  have "slot s' i = concat (map (\<lambda>k. block_at (smem s) (page + of_nat (512 * k)) 512) [0..<8])"
    unfolding slot_def using s'(4) sector_no(3) [OF assms] by (intro arg_cong [where f = concat] map_cong) auto
  then have "slot s' i = block_at (smem s) page 4096" using block_at_concat [of "smem s" page 512 8] by simp
  moreover have "slot s' j = slot s j" if "j < length (avail s)" "j \<noteq> i" for j
    unfolding slot_def using s'(4) sector_no(3) [OF assms(1) that(1)] that(2) by (intro arg_cong [where f = concat] map_cong) auto
  ultimately show ?thesis using s' by (auto simp: SECTORS_PER_PAGE_def)
qed

lemma free_slot_found:
  assumes "bm_ok b" and "True \<in> set (bm_abs b)"
  shows "\<exists>i < length (bm_abs b). bm_abs b ! i \<and> bitmap_scan b 0 1 True = Some (of_nat i)"
proof -
  let ?P = "\<lambda>i. group_at (bm_abs b) i 1 True"
  have g: "?P i \<longleftrightarrow> i < length (bm_abs b) \<and> bm_abs b ! i" for i by (auto simp: group_at_def less_Suc_eq_le)
  obtain i where "i < length (bm_abs b)" "bm_abs b ! i" using assms(2) by (auto simp: in_set_conv_nth)
  then have "?P i" using g by simp
  then have "?P (LEAST i. ?P i)" by (rule LeastI)
  then show ?thesis using bitmap_scan_abs [OF assms(1), of 0 1 True] \<open>?P i\<close> g by auto
qed

lemma no_free_slot:
  assumes "bm_ok b" and "True \<notin> set (bm_abs b)"
  shows "bitmap_scan b 0 1 True = Some BITMAP_ERROR"
proof -
  have "\<not> group_at (bm_abs b) i 1 True" for i using assms(2) by (auto simp: group_at_def in_set_conv_nth)
  then show ?thesis using bitmap_scan_abs [OF assms(1), of 0 1 True] by simp
qed

lemma slot_no':
  assumes "i < 2 ^ 29"
  shows "unat (of_nat i :: u32) = i" "sint (of_nat i :: u32) = int i"
  using assms by (simp_all add: unat_of_nat32 signed_of_nat take_bit_nat_eq_self signed_take_bit_int_eq_self)

lemma slot_no:
  assumes "swap_ok s" and "i < length (avail s)"
  shows "unat (of_nat i :: u32) = i" "sint (of_nat i :: u32) = int i"
  using slot_no' [of i] swap_okD(3) [OF assms(1)] assms(2) by simp_all

lemma set_slot:
  assumes "swap_ok s" and "i < length (avail s)"
  shows "\<exists>bm. bitmap_set (of_nat i) v (swap_available s) = Some bm \<and> swap_ok (s\<lparr>swap_available := bm\<rparr>) \<and>
    avail (s\<lparr>swap_available := bm\<rparr>) = (avail s)[i := v]"
  using bitmap_set_abs [OF swap_okD(2) [OF assms(1)], of "of_nat i" v] assms slot_no(1) [OF assms] by (auto simp: swap_ok_def avail_def)

lemma test_slot:
  assumes "swap_ok s" and "i < length (avail s)"
  shows "bitmap_test (swap_available s) (of_nat i) = Some (avail s ! i)"
  using bitmap_test_abs [OF swap_okD(2) [OF assms(1)], of "of_nat i"] assms slot_no(1) [OF assms] by (auto simp: avail_def)

lemma swap_out_ok:
  assumes "swap_ok s" and "page \<ge> PHYS_BASE" and "True \<in> set (avail s)"
  shows "\<exists>i s1. i < length (avail s) \<and> avail s ! i \<and> swap_out page s = Some (int i, s1) \<and> swap_ok s1 \<and>
    avail s1 = (avail s)[i := False] \<and> smem s1 = smem s \<and> slot s1 i = block_at (smem s) page 4096 \<and>
    (\<forall>j < length (avail s). j \<noteq> i \<longrightarrow> slot s1 j = slot s j)"
proof -
  obtain i where i: "i < length (avail s)" "avail s ! i" "bitmap_scan (swap_available s) 0 1 True = Some (of_nat i)"
    using free_slot_found [OF swap_okD(2) [OF assms(1)]] assms(3) by (auto simp: avail_def)
  obtain s' where s': "write_sectors SECTORS_PER_PAGE 0 (of_nat i) page s = Some s'" "same_state s s'" "smem s' = smem s"
    "slot s' i = block_at (smem s) page 4096" "\<forall>j < length (avail s). j \<noteq> i \<longrightarrow> slot s' j = slot s j"
    using slot_written [OF assms(1) i(1)] by blast
  note ok = same_state_ok [OF assms(1) s'(2)]
  obtain bm where bm: "bitmap_set (of_nat i) False (swap_available s') = Some bm" "swap_ok (s'\<lparr>swap_available := bm\<rparr>)"
    "avail (s'\<lparr>swap_available := bm\<rparr>) = (avail s)[i := False]" using set_slot [of s' i False] ok i(1) by auto
  have "slot (s'\<lparr>swap_available := bm\<rparr>) = slot s'" by (simp add: fun_eq_iff slot_def sec_def)
  moreover have "swap_out page s = Some (int i, s'\<lparr>swap_available := bm\<rparr>)"
    using i(3) s'(1) bm(1) assms(2) slot_no(2) [OF assms(1) i(1)] by (simp add: swap_out_def)
  ultimately show ?thesis using i s' bm by auto
qed

lemma swap_in_ok:
  assumes "swap_ok s" and "page \<ge> PHYS_BASE" and "i < length (avail s)" and "\<not> avail s ! i"
  shows "\<exists>s1. swap_in (int i) page s = Some s1 \<and> swap_ok s1 \<and> avail s1 = (avail s)[i := True] \<and>
    smem s1 = put (smem s) page (slot s i) \<and> slot s1 = slot s"
proof -
  obtain s' where s': "read_sectors SECTORS_PER_PAGE 0 (of_nat i) page s = Some s'" "same_state s s'" "sec s' = sec s"
    "smem s' = put (smem s) page (slot s i)"
    using read_sectors_ok [OF assms(1,3), of 0 8 page] by (auto simp: slot_def SECTORS_PER_PAGE_def)
  note ok = same_state_ok [OF assms(1) s'(2)]
  obtain bm where bm: "bitmap_set (of_nat i) True (swap_available s') = Some bm" "swap_ok (s'\<lparr>swap_available := bm\<rparr>)"
    "avail (s'\<lparr>swap_available := bm\<rparr>) = (avail s)[i := True]" using set_slot [of s' i True] ok assms(3) by auto
  have "slot (s'\<lparr>swap_available := bm\<rparr>) = slot s'" by (simp add: fun_eq_iff slot_def sec_def)
  moreover have "slot s' = slot s" using s'(3) by (intro ext) (simp add: slot_def)
  moreover have "swap_in (int i) page s = Some (s'\<lparr>swap_available := bm\<rparr>)"
    using s'(1) bm(1) assms swap_okD(5) [OF assms(1)] test_slot [OF assms(1,3)] by (simp add: swap_in_def)
  ultimately show ?thesis using s' bm by auto
qed

lemma swap_free_ok:
  assumes "swap_ok s" and "i < length (avail s)" and "\<not> avail s ! i"
  shows "\<exists>s1. swap_free (int i) s = Some s1 \<and> swap_ok s1 \<and> avail s1 = (avail s)[i := True] \<and> smem s1 = smem s \<and> slot s1 = slot s"
proof -
  obtain bm where bm: "bitmap_set (of_nat i) True (swap_available s) = Some bm" "swap_ok (s\<lparr>swap_available := bm\<rparr>)"
    "avail (s\<lparr>swap_available := bm\<rparr>) = (avail s)[i := True]" using set_slot [OF assms(1,2), of True] by auto
  have "slot (s\<lparr>swap_available := bm\<rparr>) = slot s" by (simp add: fun_eq_iff slot_def sec_def)
  then show ?thesis using bm assms swap_okD(5) [OF assms(1)] test_slot [OF assms(1,2)] by (simp add: swap_free_def)
qed

lemma free_slot_refused:
  assumes "swap_ok s" and "i < length (avail s)" and "avail s ! i"
  shows "swap_in (int i) page s = None" "swap_free (int i) s = None"
  using test_slot [OF assms(1,2)] assms(3) by (simp_all add: swap_in_def swap_free_def)

lemma swap_init_ok:
  assumes "block_by_role (sdv s) BLOCK_SWAP = b" and "b \<noteq> NULL" and "device_ok (sdv s) b"
    and "unat (bsize (blk (sdv s) b)) div 8 \<le> 32 * length ws"
  shows "\<exists>s'. swap_init True (Some ws) s = Some s' \<and> swap_ok s' \<and> swap_block s' = b \<and> sdv s' = sdv s \<and> smem s' = smem s \<and>
    avail s' = replicate (unat (bsize (blk (sdv s) b)) div 8) True"
proof -
  let ?n = "bsize (blk (sdv s) b) div 8"
  have n: "unat ?n = unat (bsize (blk (sdv s) b)) div 8" by (simp add: unat_div)
  have l: "unat ?n < 2 ^ 29" unfolding n using unat_lt32 [of "bsize (blk (sdv s) b)"] by simp
  have si: "sint ?n = int (unat ?n)" using slot_no' [OF l] by simp
  obtain b1 where b1: "bitmap_set_all False \<lparr>bit_cnt = ?n, bits = ws\<rparr> = Some b1" "bm_ok b1" "bit_cnt b1 = ?n"
    using bitmap_set_all_abs [of "\<lparr>bit_cnt = ?n, bits = ws\<rparr>" False] assms(4) n by (auto simp: bm_ok_def)
  obtain b2 where b2: "bitmap_set_all True b1 = Some b2" "bm_ok b2" "bit_cnt b2 = ?n" "bm_abs b2 = replicate (unat ?n) True"
    using bitmap_set_all_abs [OF b1(2), of True] b1(3) by auto
  have ui: "uint ?n = int (unat ?n)" by simp
  show ?thesis using assms b1(1) b2 n l si ui [unfolded n]
    by (simp add: swap_init_def block_get_role_def is_role_def block_size_def bitmap_create_def SECTORS_PER_PAGE_def swap_ok_def avail_def)
qed

text \<open>The area as a store of pages: the used slots with their bytes.\<close>

definition swap_map :: "swap \<Rightarrow> nat \<Rightarrow> u8 list option" where
  "swap_map s i = (if i < length (avail s) \<and> \<not> avail s ! i then Some (slot s i) else None)"

lemma swap_map_take:
  assumes "avail s1 = (avail s)[i := False]" and "i < length (avail s)" and "\<forall>j < length (avail s). j \<noteq> i \<longrightarrow> slot s1 j = slot s j"
  shows "swap_map s1 = (swap_map s)(i \<mapsto> slot s1 i)"
  using assms by (auto simp: swap_map_def fun_eq_iff nth_list_update)

lemma swap_map_give:
  assumes "avail s1 = (avail s)[i := True]" and "slot s1 = slot s"
  shows "swap_map s1 = (swap_map s)(i := None)"
  using assms by (auto simp: swap_map_def fun_eq_iff nth_list_update)

text \<open>A device of 16 sectors, both slots free, and an area whose only slot is used.\<close>

definition dev_ex :: "u32 \<Rightarrow> devices" where
  "dev_ex n = \<lparr>all_blocks = [1], block_by_role = \<lambda>_. 1,
     blk = \<lambda>_. \<lparr>bname = [], btype = BLOCK_SWAP, bsize = n, ops = Ide 0, read_cnt = 0, write_cnt = 0\<rparr>,
     media = \<lambda>_ _. replicate 512 0, allocs = \<lambda>_. 0\<rparr>"

definition swap_ex :: swap where
  "swap_ex = \<lparr>swap_block = 1, swap_available = \<lparr>bit_cnt = 2, bits = [3]\<rparr>, swap_size = 2, sdv = dev_ex 16, smem = \<lambda>a. ucast a\<rparr>"

definition swap_full_ex :: swap where
  "swap_full_ex = \<lparr>swap_block = 1, swap_available = \<lparr>bit_cnt = 1, bits = [0]\<rparr>, swap_size = 1, sdv = dev_ex 8, smem = \<lambda>a. ucast a\<rparr>"

lemma swap_ex:
  "swap_ok swap_ex" "avail swap_ex = [True, True]" "swap_ok swap_full_ex" "avail swap_full_ex = [False]"
  by (simp_all add: swap_ok_def swap_ex_def swap_full_ex_def dev_ex_def device_ok_def on_disk_def bm_ok_def avail_def bm_abs_def bit_at_def
      BLOCK_SECTOR_SIZE_def upt_rec)

text \<open>C11: The swap area implements a finite store of pages.  Its abstract state maps each used slot number to the 4,096 bytes kept there.
  After \<^verbatim>\<open>swap_init\<close> the store is empty.  \<^verbatim>\<open>swap_out\<close> adds the bytes of the page under an unused number as long as a slot is free, \<^verbatim>\<open>swap_in\<close>
  copies the stored bytes to the page and deletes the entry, \<^verbatim>\<open>swap_free\<close> deletes the entry and leaves the memory alone; each of them
  keeps the invariant of the area.\<close>

theorem swap_refines:
  assumes "swap_ok s" and "page \<ge> PHYS_BASE"
  shows "(True \<in> set (avail s) \<longrightarrow> (\<exists>i s1. swap_out page s = Some (int i, s1) \<and> swap_ok s1 \<and> swap_map s i = None \<and>
           swap_map s1 = (swap_map s)(i \<mapsto> block_at (smem s) page 4096) \<and> smem s1 = smem s)) \<and>
    (\<forall>i bs. swap_map s i = Some bs \<longrightarrow>
       (\<exists>s1. swap_in (int i) page s = Some s1 \<and> swap_ok s1 \<and> swap_map s1 = (swap_map s)(i := None) \<and> smem s1 = put (smem s) page bs) \<and>
       (\<exists>s1. swap_free (int i) s = Some s1 \<and> swap_ok s1 \<and> swap_map s1 = (swap_map s)(i := None) \<and> smem s1 = smem s)) \<and>
    (\<forall>ws b s0. block_by_role (sdv s0) BLOCK_SWAP = b \<longrightarrow> b \<noteq> NULL \<longrightarrow> device_ok (sdv s0) b \<longrightarrow>
       unat (bsize (blk (sdv s0) b)) div 8 \<le> 32 * length ws \<longrightarrow>
       (\<exists>s1. swap_init True (Some ws) s0 = Some s1 \<and> swap_ok s1 \<and> swap_map s1 = Map.empty))"
proof (intro conjI impI allI)
  assume "True \<in> set (avail s)"
  then obtain i s1 where o1: "i < length (avail s)" "avail s ! i" "swap_out page s = Some (int i, s1)" "swap_ok s1"
    "avail s1 = (avail s)[i := False]" "smem s1 = smem s" "slot s1 i = block_at (smem s) page 4096"
    "\<forall>j < length (avail s). j \<noteq> i \<longrightarrow> slot s1 j = slot s j" using swap_out_ok [OF assms] by blast
  then show "\<exists>i s1. swap_out page s = Some (int i, s1) \<and> swap_ok s1 \<and> swap_map s i = None \<and>
      swap_map s1 = (swap_map s)(i \<mapsto> block_at (smem s) page 4096) \<and> smem s1 = smem s"
    using swap_map_take [OF o1(5,1,8)] by (auto simp: swap_map_def [of s i])
next
  fix i bs
  assume "swap_map s i = Some bs"
  then have i: "i < length (avail s)" "\<not> avail s ! i" "slot s i = bs" by (auto simp: swap_map_def split: if_splits)
  show "\<exists>s1. swap_in (int i) page s = Some s1 \<and> swap_ok s1 \<and> swap_map s1 = (swap_map s)(i := None) \<and> smem s1 = put (smem s) page bs"
    using swap_in_ok [OF assms i(1,2)] i(3) swap_map_give by blast
  show "\<exists>s1. swap_free (int i) s = Some s1 \<and> swap_ok s1 \<and> swap_map s1 = (swap_map s)(i := None) \<and> smem s1 = smem s"
    using swap_free_ok [OF assms(1) i(1,2)] swap_map_give by blast
next
  fix ws :: "u32 list" and b and s0 :: swap
  assume a: "block_by_role (sdv s0) BLOCK_SWAP = b" "b \<noteq> NULL" "device_ok (sdv s0) b" "unat (bsize (blk (sdv s0) b)) div 8 \<le> 32 * length ws"
  show "\<exists>s1. swap_init True (Some ws) s0 = Some s1 \<and> swap_ok s1 \<and> swap_map s1 = Map.empty"
    using swap_init_ok [OF a] by (auto simp: swap_map_def fun_eq_iff)
qed

theorem swap_refines_witness:
  "(\<exists>i s1. swap_out 0xc0000000 swap_ex = Some (int i, s1) \<and> swap_map s1 = (swap_map swap_ex)(i \<mapsto> block_at (smem swap_ex) 0xc0000000 4096)) \<and>
   (\<exists>s1. swap_init True (Some [0]) swap_ex = Some s1 \<and> swap_map s1 = Map.empty)"
proof -
  have i: "block_by_role (sdv swap_ex) BLOCK_SWAP = 1" "(1 :: addr) \<noteq> NULL" "unat (bsize (blk (sdv swap_ex) 1)) div 8 \<le> 32 * length [0 :: u32]"
    by (simp_all add: swap_ex_def dev_ex_def)
  have d: "device_ok (sdv swap_ex) 1" using swap_okD(1) [OF swap_ex(1)] by (simp add: swap_ex_def)
  have p: "PHYS_BASE \<le> 0xc0000000" by (simp add: PHYS_BASE_def)
  note r = swap_refines [OF swap_ex(1) p]
  have "\<exists>s1. swap_init True (Some [0]) swap_ex = Some s1 \<and> swap_ok s1 \<and> swap_map s1 = Map.empty"
    using r [THEN conjunct2, THEN conjunct2, rule_format, OF i(1,2) d i(3)] .
  then show ?thesis using r [THEN conjunct1] by (auto simp: swap_ex(2))
qed

text \<open>A page that is swapped out comes back as it was.  When the swap area has a free slot, \<^verbatim>\<open>swap_out\<close> of a kernel page returns the
  number of one, marks it used, writes the 4,096 bytes of the page there and leaves every other slot as it was.
  \<^verbatim>\<open>swap_in\<close> of this slot to any kernel page stores these bytes there and marks the slot free again, and a second \<^verbatim>\<open>swap_in\<close> or a
  \<^verbatim>\<open>swap_free\<close> of it panics.\<close>

theorem swap_roundtrip:
  assumes "swap_ok s" and "page \<ge> PHYS_BASE" and "page2 \<ge> PHYS_BASE" and "True \<in> set (avail s)"
  shows "\<exists>i s1 s2. swap_out page s = Some (int i, s1) \<and> i < length (avail s) \<and> avail s ! i \<and> avail s1 = (avail s)[i := False] \<and>
    smem s1 = smem s \<and> (\<forall>j < length (avail s). j \<noteq> i \<longrightarrow> slot s1 j = slot s j) \<and>
    swap_in (int i) page2 s1 = Some s2 \<and> smem s2 = put (smem s) page2 (block_at (smem s) page 4096) \<and>
    avail s2 = avail s \<and> (\<forall>j < length (avail s). j \<noteq> i \<longrightarrow> slot s2 j = slot s j) \<and>
    swap_in (int i) page2 s2 = None \<and> swap_free (int i) s2 = None"
proof -
  obtain i s1 where o1: "i < length (avail s)" "avail s ! i" "swap_out page s = Some (int i, s1)" "swap_ok s1"
    "avail s1 = (avail s)[i := False]" "smem s1 = smem s" "slot s1 i = block_at (smem s) page 4096"
    "\<forall>j < length (avail s). j \<noteq> i \<longrightarrow> slot s1 j = slot s j" using swap_out_ok [OF assms(1,2,4)] by blast
  obtain s2 where o2: "swap_in (int i) page2 s1 = Some s2" "swap_ok s2" "avail s2 = (avail s1)[i := True]"
    "smem s2 = put (smem s1) page2 (slot s1 i)" "slot s2 = slot s1" using swap_in_ok [OF o1(4) assms(3), of i] o1(1,5) by auto
  have a: "avail s2 = avail s" using o1(1,2,5) o2(3) by (simp add: list_eq_iff_nth_eq nth_list_update)
  then have "swap_in (int i) page2 s2 = None" "swap_free (int i) s2 = None" using free_slot_refused [OF o2(2)] o1(1,2) by auto
  then show ?thesis using o1 o2 a by auto
qed

theorem swap_roundtrip_witness:
  "\<exists>i s1 s2. swap_out 0xc0000000 swap_ex = Some (int i, s1) \<and> swap_in (int i) 0xc0001000 s1 = Some s2 \<and>
     smem s2 = put (smem swap_ex) 0xc0001000 (block_at (smem swap_ex) 0xc0000000 4096) \<and> swap_in (int i) 0xc0001000 s2 = None"
  using swap_roundtrip [of swap_ex "0xc0000000" "0xc0001000"] swap_ex(1) by (auto simp: swap_ex(2) PHYS_BASE_def)

text \<open>C40: A full swap area.  When no slot is free, \<^verbatim>\<open>swap_out\<close> does not report it: the -1 that \<^verbatim>\<open>bitmap_scan\<close> returns is used as a slot number, and
  the first \<^verbatim>\<open>block_write\<close>, of sector \<^verbatim>\<open>-8\<close>, panics.\<close>

theorem swap_full_panics:
  assumes "swap_ok s" and "True \<notin> set (avail s)" and "bsize (blk (sdv s) (swap_block s)) \<le> - 8"
  shows "swap_out page s = None"
proof -
  have "block_write (swap_block s) (- 8) buf (sdv s) = None" for buf
    using assms(3) by (subst block_write.simps) (simp add: check_sector_def)
  moreover have "BITMAP_ERROR * of_nat SECTORS_PER_PAGE + of_nat 0 = - 8" by (simp add: BITMAP_ERROR_def SECTORS_PER_PAGE_def)
  ultimately have "write_sectors (Suc 7) 0 BITMAP_ERROR page s = None" by (simp only: write_sectors.simps bind_eq_None_conv) simp
  then show ?thesis using no_free_slot [OF swap_okD(2) [OF assms(1)]] assms(2) by (simp add: swap_out_def avail_def SECTORS_PER_PAGE_def)
qed


theorem swap_full_panics_witness: "swap_out 0xc0000000 swap_full_ex = None"
  by (rule swap_full_panics) (use swap_ex in \<open>simp_all add: swap_full_ex_def dev_ex_def\<close>)

end
