(* ===== verification/Supt.thy ===== *)
theory Supt
  imports KHash
begin

unbundle bit_operations_syntax

text \<open>
  Supplemental page tables: the table operations of \<^verbatim>\<open>vm/page.c\<close>.

  An entry is known by its address, which also stands for the address of the list element in it.  The links of
  each table are a heap of their own: an entry is linked into one table only.  The hash and comparison
  functions of a table read the entries, so that they are taken from the present state at each call.  What \<^verbatim>\<open>malloc\<close> returns is
  a stream of addresses in the state, and an entry that is given back is not used again; \<open>stack\<close> is the address of the automatic
  entry that the searches use as their key.
\<close>

section \<open>State\<close>

datatype page_status = ALL_ZERO | ON_FRAME | ON_SWAP | FROM_FILESYS

record spte =
  upage :: addr
  kpage :: addr
  status :: page_status
  dirty :: bool
  swap_index :: int
  sfile :: addr
  file_offset :: int
  read_bytes :: int
  zero_bytes :: int
  swritable :: bool

record supt =
  page_map :: hash
  slinks :: heap

record vm =
  supts :: "addr \<Rightarrow> supt"
  sptes :: "addr \<Rightarrow> spte"
  vallocs :: "nat \<Rightarrow> addr"
  stack :: addr

definition vmalloc :: "vm \<Rightarrow> addr \<times> vm" where
  "vmalloc s = (vallocs s 0, s\<lparr>vallocs := \<lambda>n. vallocs s (n + 1)\<rparr>)"

definition upd_spte :: "addr \<Rightarrow> (spte \<Rightarrow> spte) \<Rightarrow> vm \<Rightarrow> vm" where
  "upd_spte e f s = s\<lparr>sptes := (sptes s)(e := f (sptes s e))\<rparr>"

section \<open>Operations\<close>

definition spte_hash_func :: "vm \<Rightarrow> addr \<Rightarrow> u32" where
  "spte_hash_func s e = hash_int (upage (sptes s e))"

definition spte_less_func :: "vm \<Rightarrow> less_func" where
  "spte_less_func s a b \<longleftrightarrow> upage (sptes s a) < upage (sptes s b)"

definition table :: "addr \<Rightarrow> vm \<Rightarrow> hash" where
  "table p s = (page_map (supts s p))\<lparr>hashf := spte_hash_func s, lessf := spte_less_func s\<rparr>"

definition set_table :: "addr \<Rightarrow> heap \<Rightarrow> hash \<Rightarrow> vm \<Rightarrow> vm" where
  "set_table p h H s = s\<lparr>supts := (supts s)(p := \<lparr>page_map = H, slinks = h\<rparr>)\<rparr>"

definition supt_create :: "vm \<Rightarrow> (addr \<times> vm) option" where
  "supt_create s = do {
     let (p, s) = vmalloc s;
     ASSERT (p \<noteq> NULL);
     let (nb, s) = vmalloc s;
     (_, h, H) \<leftarrow> hash_init nb (spte_hash_func s) (spte_less_func s) (slinks (supts s p));
     Some (p, set_table p h H s)
   }"

text \<open>\<^verbatim>\<open>hash_insert\<close> of an entry into the table of \<open>p\<close>.\<close>

definition insert_spte :: "addr \<Rightarrow> addr \<Rightarrow> vm \<Rightarrow> (addr \<times> vm) option" where
  "insert_spte p e s = do {
     ASSERT (p \<noteq> NULL);
     let (nb, s) = vmalloc s;
     (prev, h, H) \<leftarrow> hash_insert nb e (slinks (supts s p)) (table p s);
     Some (prev, set_table p h H s)
   }"

definition supt_install_frame :: "addr \<Rightarrow> addr \<Rightarrow> addr \<Rightarrow> vm \<Rightarrow> (bool \<times> vm) option" where
  "supt_install_frame p u k s = do {
     let (e, s) = vmalloc s;
     ASSERT (e \<noteq> NULL);
     let s = upd_spte e (\<lambda>x. x\<lparr>upage := u, kpage := k, status := ON_FRAME, dirty := False, swap_index := - 1\<rparr>) s;
     (prev, s) \<leftarrow> insert_spte p e s;
     if prev = NULL then Some (True, s) else Some (False, s)
   }"

definition supt_install_zeropage :: "addr \<Rightarrow> addr \<Rightarrow> vm \<Rightarrow> (bool \<times> vm) option" where
  "supt_install_zeropage p u s = do {
     let (e, s) = vmalloc s;
     ASSERT (e \<noteq> NULL);
     let s = upd_spte e (\<lambda>x. x\<lparr>upage := u, kpage := NULL, status := ALL_ZERO, dirty := False\<rparr>) s;
     (prev, s) \<leftarrow> insert_spte p e s;
     ASSERT (prev = NULL);
     Some (True, s)
   }"

definition supt_install_filesys ::
  "addr \<Rightarrow> addr \<Rightarrow> addr \<Rightarrow> int \<Rightarrow> int \<Rightarrow> int \<Rightarrow> bool \<Rightarrow> vm \<Rightarrow> (bool \<times> vm) option" where
  "supt_install_filesys p u f offset rb zb w s = do {
     let (e, s) = vmalloc s;
     ASSERT (e \<noteq> NULL);
     let s = upd_spte e (\<lambda>x. x\<lparr>upage := u, kpage := NULL, status := FROM_FILESYS, dirty := False,
               sfile := f, file_offset := offset, read_bytes := rb, zero_bytes := zb, swritable := w\<rparr>) s;
     (prev, s) \<leftarrow> insert_spte p e s;
     ASSERT (prev = NULL);
     Some (True, s)
   }"

definition supt_lookup :: "addr \<Rightarrow> addr \<Rightarrow> vm \<Rightarrow> addr option" where
  "supt_lookup p page s = do {
     ASSERT (p \<noteq> NULL);
     let s = upd_spte (stack s) (upage_update (\<lambda>_. page)) s;
     hash_find (slinks (supts s p)) (table p s) (stack s)
   }"

definition supt_set_swap :: "addr \<Rightarrow> addr \<Rightarrow> int \<Rightarrow> vm \<Rightarrow> (bool \<times> vm) option" where
  "supt_set_swap p page i s = do {
     e \<leftarrow> supt_lookup p page s;
     if e = NULL then Some (False, s)
     else Some (True, upd_spte e (\<lambda>x. x\<lparr>status := ON_SWAP, kpage := NULL, swap_index := i\<rparr>) s)
   }"

definition supt_has_entry :: "addr \<Rightarrow> addr \<Rightarrow> vm \<Rightarrow> bool option" where
  "supt_has_entry p page s = do {
     e \<leftarrow> supt_lookup p page s;
     if e = NULL then Some False else Some True
   }"

definition supt_set_dirty :: "addr \<Rightarrow> addr \<Rightarrow> bool \<Rightarrow> vm \<Rightarrow> (bool \<times> vm) option" where
  "supt_set_dirty p page v s = do {
     e \<leftarrow> supt_lookup p page s;
     ASSERT (e \<noteq> NULL);
     Some (True, upd_spte e (dirty_update (\<lambda>d. d \<or> v)) s)
   }"

section \<open>A table as a map\<close>

text \<open>\<open>pages p s\<close>: the entries of the table at \<open>p\<close> by user page; \<open>supt_ok\<close>: the table is well-formed.\<close>

abbreviation skey :: "vm \<Rightarrow> addr \<Rightarrow> addr" where
  "skey s e \<equiv> upage (sptes s e)"

definition supt_rep :: "addr \<Rightarrow> vm \<Rightarrow> (addr \<Rightarrow> addr list) \<Rightarrow> bool" where
  "supt_rep p s f \<longleftrightarrow> p \<noteq> NULL \<and> table_ok (skey s) (slinks (supts s p)) (table p s) f \<and> stack s \<notin> table_elems (table p s) f"

definition supt_ok :: "addr \<Rightarrow> vm \<Rightarrow> bool" where
  "supt_ok p s \<longleftrightarrow> (\<exists>f. supt_rep p s f)"

definition pages :: "addr \<Rightarrow> vm \<Rightarrow> addr \<Rightarrow> spte option" where
  "pages p s u = (case supt_lookup p u s of Some e \<Rightarrow> if e = NULL then None else Some (sptes s e) | None \<Rightarrow> None)"

lemma table_simps [simp]:
  "hashf (table p s) = spte_hash_func s" "lessf (table p s) = spte_less_func s"
  "buckets (table p s) = buckets (page_map (supts s p))" "bucket_cnt (table p s) = bucket_cnt (page_map (supts s p))"
  "helem_cnt (table p s) = helem_cnt (page_map (supts s p))"
  by (simp_all add: table_def)

lemma fun_ok_table: "fun_ok (skey s) (table p s)"
  by (simp add: fun_ok_def spte_less_func_def spte_hash_func_def)

abbreviation entries :: "addr \<Rightarrow> vm \<Rightarrow> (addr \<Rightarrow> addr list) \<Rightarrow> addr set" where
  "entries p s f \<equiv> table_elems (table p s) f"

lemma rehash_funs: "rehash nb h H = Some (h', H') \<Longrightarrow> hashf H' = hashf H \<and> lessf H' = lessf H"
  by (auto simp: rehash_def Let_def split: if_splits bind_splits)

lemma hash_insert_funs: "hash_insert nb e h H = Some (r, h', H') \<Longrightarrow> hashf H' = hashf H \<and> lessf H' = lessf H"
  by (auto simp: hash_insert_def insert_elem_def Let_def monad_simps split: if_splits dest!: rehash_funs)

lemma hash_delete_funs: "hash_delete nb e h H = Some (r, h', H') \<Longrightarrow> hashf H' = hashf H \<and> lessf H' = lessf H"
  by (auto simp: hash_delete_def remove_elem_def Let_def monad_simps split: if_splits dest!: rehash_funs)

lemma table_ok_cong:
  assumes t: "table_ok key h H f" and H: "buckets H' = buckets H" "bucket_cnt H' = bucket_cnt H" "helem_cnt H' = helem_cnt H" "fun_ok key' H'"
    and k: "\<And>e. e \<in> table_elems H f \<Longrightarrow> key' e = key e" "\<And>e. e \<in> table_elems H f \<Longrightarrow> hashf H' e = hashf H e"
  shows "table_ok key' h H' f" "table_elems H' f = table_elems H f"
proof -
  show e: "table_elems H' f = table_elems H f" using H by (simp add: table_elems_def)
  have ok: "place_ok h H f" "inj_on key (table_elems H f)" "unat (helem_cnt H) = card (table_elems H f)" using t by (simp_all add: table_ok_def)
  have fb: "find_bucket H' x = l" if l: "l \<in> bucket_set (buckets H) (bucket_cnt H)" "x \<in> set (f l)" for x l
  proof -
    have "x \<in> table_elems H f" using l by (auto simp: table_elems_def elems_def)
    then have "find_bucket H' x = find_bucket H x" using k(2) H by (simp add: find_bucket_def)
    then show ?thesis using ok(1) l by (simp add: place_ok_def)
  qed
  have "place_ok h H' f" using ok(1) H fb by (simp add: place_ok_def)
  moreover have "inj_on key' (table_elems H' f)" unfolding e using ok(2) k(1) by (simp add: inj_on_def)
  ultimately show "table_ok key' h H' f" using H ok(3) e by (simp add: table_ok_def)
qed

lemma supt_rep_cong:
  assumes r: "supt_rep p s f" and t: "supts s' p = supts s p" "stack s' \<notin> entries p s f"
    and k: "\<And>e. e \<in> entries p s f \<Longrightarrow> skey s' e = skey s e"
  shows "supt_rep p s' f" "entries p s' f = entries p s f"
proof -
  have o: "table_ok (skey s) (slinks (supts s p)) (table p s) f" using r by (simp add: supt_rep_def)
  have c: "table_ok (skey s') (slinks (supts s p)) (table p s') f" "entries p s' f = entries p s f"
    using table_ok_cong [OF o, of "table p s'" "skey s'"] t(1) k fun_ok_table by (simp_all add: spte_hash_func_def)
  then show "entries p s' f = entries p s f" by simp
  show "supt_rep p s' f" using r t c by (simp add: supt_rep_def)
qed

lemma supt_lookup_spec:
  assumes r: "supt_rep p s f"
  shows "\<exists>e. supt_lookup p u s = Some e \<and>
    (if \<exists>x\<in>entries p s f. skey s x = u then e \<in> entries p s f \<and> skey s e = u else e = NULL)"
proof -
  define s' where "s' = upd_spte (stack s) (upage_update (\<lambda>_. u)) s"
  have st: "stack s \<notin> entries p s f" "p \<noteq> NULL" using r by (simp_all add: supt_rep_def)
  have k: "skey s' x = skey s x" if "x \<in> entries p s f" for x using that st by (auto simp: upd_spte_def s'_def)
  have r': "supt_rep p s' f" "entries p s' f = entries p s f" by (rule supt_rep_cong [OF r]; use k st in \<open>simp add: upd_spte_def s'_def\<close>)+
  have ks: "skey s' (stack s) = u" "stack s' = stack s" by (simp_all add: upd_spte_def s'_def)
  have "supt_lookup p u s = hash_find (slinks (supts s' p)) (table p s') (stack s)" using st(2) ks(2) by (simp add: supt_lookup_def s'_def Let_def)
  moreover obtain e where "hash_find (slinks (supts s' p)) (table p s') (stack s) = Some e"
    "if \<exists>x\<in>entries p s' f. skey s' x = skey s' (stack s) then e \<in> entries p s' f \<and> skey s' e = skey s' (stack s) else e = NULL"
    using hash_find_spec [of "skey s'" "slinks (supts s' p)" "table p s'" f "stack s"] r'(1) unfolding supt_rep_def by blast
  ultimately show ?thesis using k unfolding r'(2) ks(1) by (intro exI [of _ e]) (auto split: if_splits)
qed

lemma entry_nonnull: "supt_rep p s f \<Longrightarrow> e \<in> entries p s f \<Longrightarrow> e \<noteq> NULL"
  using table_null by (auto simp: supt_rep_def table_ok_def)

lemma entry_unique: "supt_rep p s f \<Longrightarrow> e \<in> entries p s f \<Longrightarrow> x \<in> entries p s f \<Longrightarrow> skey s e = skey s x \<Longrightarrow> e = x"
  by (auto simp: supt_rep_def table_ok_def inj_on_def)

lemma supt_lookup_hit:
  assumes "supt_rep p s f" "e \<in> entries p s f" "skey s e = u"
  shows "supt_lookup p u s = Some e"
  using supt_lookup_spec [OF assms(1), of u] entry_unique [OF assms(1)] assms(2,3) by (fastforce split: if_splits)

lemma supt_lookup_miss:
  assumes "supt_rep p s f" "\<forall>e\<in>entries p s f. skey s e \<noteq> u"
  shows "supt_lookup p u s = Some NULL"
  using supt_lookup_spec [OF assms(1), of u] assms(2) by (fastforce split: if_splits)

lemma pages_iff:
  assumes r: "supt_rep p s f"
  shows "pages p s u = Some x \<longleftrightarrow> (\<exists>e\<in>entries p s f. skey s e = u \<and> sptes s e = x)"
proof (cases "\<exists>e\<in>entries p s f. skey s e = u")
  case True
  then obtain e where e: "e \<in> entries p s f" "skey s e = u" by blast
  have n: "e \<noteq> NULL" using entry_nonnull [OF r e(1)] .
  have P: "pages p s u = Some (sptes s e)" unfolding pages_def supt_lookup_hit [OF r e] using n by simp
  have u: "e' = e" if "e' \<in> entries p s f" "skey s e' = u" for e' by (rule entry_unique [OF r that(1) e(1)]) (simp only: that(2) e(2))
  show ?thesis unfolding P
  proof
    assume "Some (sptes s e) = Some x"
    then show "\<exists>e\<in>entries p s f. skey s e = u \<and> sptes s e = x" by (intro bexI [of _ e] conjI e) simp
  next
    assume "\<exists>e\<in>entries p s f. skey s e = u \<and> sptes s e = x"
    then obtain e' where "e' \<in> entries p s f" "skey s e' = u" "sptes s e' = x" by blast
    then show "Some (sptes s e) = Some x" using u by blast
  qed
next
  case False
  then have "pages p s u = None" using supt_lookup_miss [OF r] by (simp add: pages_def)
  then show ?thesis using False by auto
qed

lemma pages_None: "supt_rep p s f \<Longrightarrow> pages p s u = None \<longleftrightarrow> (\<forall>e\<in>entries p s f. skey s e \<noteq> u)"
  using pages_iff [of p s f u] by (metis not_None_eq)

text \<open>Changing other fields than the user page of the entry for \<open>u\<close> changes the map at \<open>u\<close>.\<close>

lemma upd_entry:
  assumes r: "supt_rep p s f" and e: "e \<in> entries p s f" "skey s e = u" and g: "\<And>x. upage (g x) = upage x"
  shows "supt_rep p (upd_spte e g s) f" "pages p (upd_spte e g s) = (pages p s)(u \<mapsto> g (sptes s e))"
proof -
  let ?s = "upd_spte e g s"
  have r': "supt_rep p ?s f" "entries p ?s f = entries p s f"
    by (rule supt_rep_cong [OF r]; use r g in \<open>simp add: upd_spte_def supt_rep_def\<close>)+
  show "supt_rep p ?s f" by fact
  have "pages p ?s v = ((pages p s)(u \<mapsto> g (sptes s e))) v" for v
  proof (cases "v = u")
    case True
    then show ?thesis using pages_iff [OF r'(1), of u "g (sptes s e)"] e g unfolding r'(2) by (simp add: upd_spte_def) blast
  next
    case False
    have "pages p ?s v = Some x \<longleftrightarrow> pages p s v = Some x" for x
      unfolding pages_iff [OF r'(1)] pages_iff [OF r] r'(2) by (intro bex_cong refl) (use e(2) False g in \<open>auto simp: upd_spte_def\<close>)
    then show ?thesis using False by (metis fun_upd_other option.exhaust)
  qed
  then show "pages p ?s = (pages p s)(u \<mapsto> g (sptes s e))" by (simp add: fun_eq_iff)
qed

text \<open>What the code relies on when it takes an entry and a bucket array from \<^verbatim>\<open>malloc\<close>: they are not part of the table.\<close>

definition spte_fresh :: "addr \<Rightarrow> addr \<Rightarrow> addr \<Rightarrow> vm \<Rightarrow> bool" where
  "spte_fresh p e nb s \<longleftrightarrow> e \<noteq> NULL \<and> e \<noteq> stack s \<and>
     (\<forall>f. supt_rep p s f \<longrightarrow> outside (bucket_set (buckets (table p s)) (bucket_cnt (table p s))) f e \<and>
        room nb (target (helem_cnt (table p s) + 1)) e (table p s) f)"

lemma set_table_simps [simp]:
  "sptes (set_table p h H s) = sptes s" "stack (set_table p h H s) = stack s" "supts (set_table p h H s) p = \<lparr>page_map = H, slinks = h\<rparr>"
  "spte_hash_func (set_table p h H s) = spte_hash_func s" "spte_less_func (set_table p h H s) = spte_less_func s"
  by (auto simp: set_table_def spte_hash_func_def spte_less_func_def fun_eq_iff)

lemma insert_spte_spec:
  assumes r: "supt_rep p s f" and e: "e \<noteq> NULL" "e \<noteq> stack s" "outside (bucket_set (buckets (table p s)) (bucket_cnt (table p s))) f e"
    and rm: "room (vallocs s 0) (target (helem_cnt (table p s) + 1)) e (table p s) f"
  shows "\<exists>prev h H f'. insert_spte p e s = Some (prev, set_table p h H (snd (vmalloc s))) \<and> supt_rep p (set_table p h H (snd (vmalloc s))) f' \<and>
    (if \<exists>x\<in>entries p s f. skey s x = skey s e then prev \<noteq> NULL \<and> entries p (set_table p h H (snd (vmalloc s))) f' = entries p s f
     else prev = NULL \<and> entries p (set_table p h H (snd (vmalloc s))) f' = insert e (entries p s f))"
proof -
  define t where "t = snd (vmalloc s)"
  have t: "vmalloc s = (vallocs s 0, t)" "sptes t = sptes s" "supts t = supts s" "stack t = stack s" by (simp_all add: t_def vmalloc_def)
  have T: "table p t = table p s" using t by (simp add: table_def spte_hash_func_def spte_less_func_def fun_eq_iff)
  have ok: "table_ok (skey s) (slinks (supts s p)) (table p s) f" "p \<noteq> NULL" "stack s \<notin> entries p s f" using r by (simp_all add: supt_rep_def)
  obtain prev h H f' where h: "hash_insert (vallocs s 0) e (slinks (supts s p)) (table p s) = Some (prev, h, H)" "table_ok (skey s) h H f'"
    "if \<exists>x\<in>entries p s f. skey s x = skey s e then prev \<in> entries p s f \<and> skey s prev = skey s e \<and> table_elems H f' = entries p s f
     else prev = NULL \<and> table_elems H f' = insert e (entries p s f)"
    using hash_insert_spec [OF ok(1) e(3,1) rm] by blast
  define s' where "s' = set_table p h H t"
  have s': "supts s' p = \<lparr>page_map = H, slinks = h\<rparr>" "sptes s' = sptes s" "stack s' = stack s" using t by (simp_all add: s'_def)
  have T': "table_ok (skey s') h (table p s') f'" "entries p s' f' = table_elems H f'"
  proof -
    have hf: "hashf H = spte_hash_func s" using hash_insert_funs [OF h(1)] by simp
    have "fun_ok (skey s) (table p s')" using fun_ok_table [of s' p] s'(2) by simp
    then show "table_ok (skey s') h (table p s') f'" "entries p s' f' = table_elems H f'"
      using table_ok_cong [OF h(2), of "table p s'" "skey s'"] s' hf by (simp_all add: spte_hash_func_def)
  qed
  have "insert_spte p e s = Some (prev, s')" using ok(2) h(1) T t by (simp add: insert_spte_def s'_def)
  moreover have "stack s \<notin> entries p s' f'" unfolding T'(2) using h(3) ok(3) e(2) by (auto split: if_splits)
  then have "supt_rep p s' f'" using T'(1) ok(2) s' by (simp add: supt_rep_def)
  moreover have "\<forall>x\<in>entries p s f. x \<noteq> NULL" using entry_nonnull [OF r] by blast
  ultimately show ?thesis using h(3) unfolding T'(2) [symmetric] s'_def t_def [symmetric] by (intro exI [of _ prev] exI [of _ h] exI [of _ H] exI [of _ f']) (auto split: if_splits)
qed

lemma pages_cong:
  assumes "supt_rep p s f" "supt_rep p s' f'" "entries p s' f' = entries p s f" "\<And>e. e \<in> entries p s f \<Longrightarrow> sptes s' e = sptes s e"
  shows "pages p s' = pages p s"
proof
  fix u
  have "pages p s' u = Some x \<longleftrightarrow> pages p s u = Some x" for x
    unfolding pages_iff [OF assms(1)] pages_iff [OF assms(2)] assms(3) by (intro bex_cong refl) (use assms(4) in simp)
  then show "pages p s' u = pages p s u" by (metis option.exhaust)
qed

lemma install_spec:
  assumes ok: "supt_ok p s" and fr: "spte_fresh p (vallocs s 0) (vallocs s 1) s" and g: "\<And>x. upage (g x) = u"
  shows "\<exists>prev s'. insert_spte p (vallocs s 0) (upd_spte (vallocs s 0) g (snd (vmalloc s))) = Some (prev, s') \<and> supt_ok p s' \<and>
    (if pages p s u = None then prev = NULL \<and> pages p s' = (pages p s)(u \<mapsto> g (sptes s (vallocs s 0)))
     else prev \<noteq> NULL \<and> pages p s' = pages p s)"
proof -
  obtain f where r: "supt_rep p s f" using ok by (auto simp: supt_ok_def)
  define e where "e = vallocs s 0"
  define t where "t = upd_spte e g (snd (vmalloc s))"
  have e: "e \<noteq> NULL" "e \<noteq> stack s" "outside (bucket_set (buckets (table p s)) (bucket_cnt (table p s))) f e"
    "room (vallocs s 1) (target (helem_cnt (table p s) + 1)) e (table p s) f" using fr r by (simp_all add: spte_fresh_def e_def)
  have ne: "e \<notin> entries p s f" using e(3) by (auto simp: outside_def table_elems_def elems_def nodes_def)
  have t: "supts t = supts s" "stack t = stack s" "vallocs t 0 = vallocs s 1" "sptes t = (sptes s)(e := g (sptes s e))"
    by (simp_all add: t_def upd_spte_def vmalloc_def)
  have r': "supt_rep p t f" "entries p t f = entries p s f"
    by (rule supt_rep_cong [OF r]; use t r ne in \<open>auto simp: supt_rep_def\<close>)+
  have sk: "skey t e = u" "\<And>x. x \<in> entries p s f \<Longrightarrow> sptes t x = sptes s x" using t g ne by auto
  have rm: "room (vallocs t 0) (target (helem_cnt (table p t) + 1)) e (table p t) f" "outside (bucket_set (buckets (table p t)) (bucket_cnt (table p t))) f e"
    using e(3,4) t by (simp_all add: room_def)
  obtain prev h H f' where i: "insert_spte p e t = Some (prev, set_table p h H (snd (vmalloc t)))" "supt_rep p (set_table p h H (snd (vmalloc t))) f'"
    "if \<exists>x\<in>entries p s f. skey t x = u then prev \<noteq> NULL \<and> entries p (set_table p h H (snd (vmalloc t))) f' = entries p s f
     else prev = NULL \<and> entries p (set_table p h H (snd (vmalloc t))) f' = insert e (entries p s f)"
    using insert_spte_spec [OF r'(1) e(1) _ rm(2,1)] e(2) t(2) unfolding r'(2) sk(1) by auto
  define s' where "s' = set_table p h H (snd (vmalloc t))"
  have s': "sptes s' = sptes t" by (simp add: s'_def vmalloc_def)
  have ex: "(\<exists>x\<in>entries p s f. skey t x = u) \<longleftrightarrow> pages p s u \<noteq> None" using pages_None [OF r] sk(2) by auto
  have m: "pages p s' = (if pages p s u = None then (pages p s)(u \<mapsto> g (sptes s e)) else pages p s)"
  proof (cases "pages p s u = None")
    case False
    then show ?thesis using i(2,3) ex sk(2) s' pages_cong [OF r, of s' f'] by (auto simp: s'_def split: if_splits)
  next
    case True
    then have en: "entries p s' f' = insert e (entries p s f)" using i(3) ex by (auto simp: s'_def)
    note P = pages_iff [OF i(2) [folded s'_def]]
    have "pages p s' v = ((pages p s)(u \<mapsto> g (sptes s e))) v" for v
    proof (cases "v = u")
      case True
      have "pages p s' u = Some (g (sptes s e))" unfolding P en s' using t sk(1) by (intro bexI [of _ e]) auto
      then show ?thesis using True by simp
    next
      case False
      have "pages p s' v = Some x \<longleftrightarrow> pages p s v = Some x" for x unfolding P pages_iff [OF r] en s' using False sk by auto
      then show ?thesis using False by (metis fun_upd_other option.exhaust)
    qed
    then show ?thesis using True by (simp add: fun_eq_iff)
  qed
  moreover have "supt_ok p s'" using i(2) by (auto simp: supt_ok_def s'_def)
  moreover have "prev = NULL \<longleftrightarrow> pages p s u = None" using i(3) ex by (auto split: if_splits)
  ultimately show ?thesis using i(1) unfolding e_def [symmetric] t_def [symmetric] s'_def [symmetric] by (intro exI [of _ prev] exI [of _ s']) simp
qed

lemma pages_entry:
  assumes "supt_rep p s f" "pages p s u = Some x"
  shows "\<exists>e\<in>entries p s f. supt_lookup p u s = Some e \<and> e \<noteq> NULL \<and> skey s e = u \<and> sptes s e = x"
  using pages_iff [OF assms(1), of u x] assms(2) supt_lookup_hit [OF assms(1)] entry_nonnull [OF assms(1)] by auto

lemma pages_miss:
  assumes "supt_ok p s" "pages p s u = None"
  shows "supt_lookup p u s = Some NULL"
proof -
  obtain f where r: "supt_rep p s f" using assms(1) by (auto simp: supt_ok_def)
  show ?thesis by (rule supt_lookup_miss [OF r]) (use pages_None [OF r, of u] assms(2) in simp)
qed

lemma supt_update_spec:
  assumes ok: "supt_ok p s" and x: "pages p s u = Some x"
  shows "\<exists>e s'. supt_lookup p u s = Some e \<and> e \<noteq> NULL \<and> supt_set_swap p u i s = Some (True, s') \<and> supt_ok p s' \<and>
      s' = upd_spte e (\<lambda>x. x\<lparr>status := ON_SWAP, kpage := NULL, swap_index := i\<rparr>) s \<and>
      pages p s' = (pages p s)(u \<mapsto> x\<lparr>status := ON_SWAP, kpage := NULL, swap_index := i\<rparr>)"
    "\<exists>e s'. supt_lookup p u s = Some e \<and> e \<noteq> NULL \<and> supt_set_dirty p u d s = Some (True, s') \<and> supt_ok p s' \<and>
      s' = upd_spte e (dirty_update (\<lambda>b. b \<or> d)) s \<and> pages p s' = (pages p s)(u \<mapsto> x\<lparr>dirty := dirty x \<or> d\<rparr>)"
proof -
  obtain f where r: "supt_rep p s f" using ok by (auto simp: supt_ok_def)
  obtain e where e: "e \<in> entries p s f" "supt_lookup p u s = Some e" "e \<noteq> NULL" "skey s e = u" "sptes s e = x"
    using pages_entry [OF r x] by blast
  note U = upd_entry [OF r e(1,4)]
  show "\<exists>e s'. supt_lookup p u s = Some e \<and> e \<noteq> NULL \<and> supt_set_swap p u i s = Some (True, s') \<and> supt_ok p s' \<and>
      s' = upd_spte e (\<lambda>x. x\<lparr>status := ON_SWAP, kpage := NULL, swap_index := i\<rparr>) s \<and>
      pages p s' = (pages p s)(u \<mapsto> x\<lparr>status := ON_SWAP, kpage := NULL, swap_index := i\<rparr>)"
    using U [of "\<lambda>x. x\<lparr>status := ON_SWAP, kpage := NULL, swap_index := i\<rparr>"] e(2,3,5) by (auto simp: supt_set_swap_def supt_ok_def)
  show "\<exists>e s'. supt_lookup p u s = Some e \<and> e \<noteq> NULL \<and> supt_set_dirty p u d s = Some (True, s') \<and> supt_ok p s' \<and>
      s' = upd_spte e (dirty_update (\<lambda>b. b \<or> d)) s \<and> pages p s' = (pages p s)(u \<mapsto> x\<lparr>dirty := dirty x \<or> d\<rparr>)"
    using U [of "dirty_update (\<lambda>b. b \<or> d)"] e(2,3,5) by (auto simp: supt_set_dirty_def supt_ok_def)
qed

lemma supt_create_ok:
  assumes "vallocs s 0 \<noteq> NULL" "block_ok (vallocs s 1) 4"
  shows "\<exists>s'. supt_create s = Some (vallocs s 0, s') \<and> supt_rep (vallocs s 0) s' (\<lambda>_. []) \<and> entries (vallocs s 0) s' (\<lambda>_. []) = {} \<and>
    buckets (page_map (supts s' (vallocs s 0))) = vallocs s 1 \<and> bucket_cnt (page_map (supts s' (vallocs s 0))) = 4 \<and>
    stack s' = stack s \<and> vallocs s' = (\<lambda>n. vallocs s (n + 2))"
proof -
  let ?p = "vallocs s 0"
  define t0 where "t0 = snd (vmalloc s)"
  define t where "t = snd (vmalloc t0)"
  have t: "vmalloc s = (?p, t0)" "vmalloc t0 = (vallocs s 1, t)" "supts t = supts s" "sptes t = sptes s"
    "stack t = stack s" "vallocs t = (\<lambda>n. vallocs s (n + 2))" by (simp_all add: t_def t0_def vmalloc_def)
  obtain h H where H: "hash_init (vallocs s 1) (spte_hash_func t) (spte_less_func t) (slinks (supts t ?p)) = Some (True, h, H)"
    "table_ok (skey t) h H (\<lambda>_. [])" "table_elems H (\<lambda>_. []) = {}"
    using hash_init_spec [OF assms(2), of "spte_less_func t" "skey t" "spte_hash_func t" "slinks (supts t ?p)"] by (auto simp: spte_less_func_def spte_hash_func_def)
  have B: "buckets H = vallocs s 1" "bucket_cnt H = 4" "hashf H = spte_hash_func t" "lessf H = spte_less_func t"
    using H(1) by (auto simp: hash_init_def hash_clear_def Let_def monad_simps split: if_splits)
  define s' where "s' = set_table ?p h H t"
  have "page_map (supts s' ?p) = H" "slinks (supts s' ?p) = h" "sptes s' = sptes t" by (simp_all add: s'_def)
  moreover have "table ?p s' = H" using B by (simp add: table_def s'_def)
  ultimately have "supt_rep ?p s' (\<lambda>_. [])" "entries ?p s' (\<lambda>_. []) = {}" using H(2,3) assms(1) by (simp_all add: supt_rep_def)
  moreover have "supt_create s = Some (?p, s')"
    unfolding supt_create_def t(1) Let_def prod.case t(2) using assms(1) H(1) by (simp add: s'_def)
  ultimately show ?thesis using B t by (intro exI [of _ s']) (simp add: s'_def set_table_def)
qed

lemma empty_table_fresh:
  assumes r: "supt_rep p s f0" "entries p s f0 = {}" and e: "e \<noteq> NULL" "e \<noteq> stack s"
    "\<And>i. i < bucket_cnt (table p s) \<Longrightarrow> e \<noteq> bucket_at (buckets (table p s)) i \<and> e \<noteq> tail_of (bucket_at (buckets (table p s)) i)"
  shows "spte_fresh p e NULL s"
proof -
  have "outside (bucket_set (buckets (table p s)) (bucket_cnt (table p s))) f e" if "supt_rep p s f" for f
  proof -
    have "card (entries p s f) = card (entries p s f0)" using that r(1) by (simp add: supt_rep_def table_ok_def)
    then have "entries p s f = {}" using r(2) finite_elems [of "table p s" f] by simp
    then show ?thesis using e(3) by (auto simp: outside_def table_elems_def elems_def nodes_def bucket_set_def head_of_def)
  qed
  then show ?thesis using e by (simp add: spte_fresh_def room_def)
qed

text \<open>A state with room for the automatic variables and a first table at \<open>0xc0200000\<close>.\<close>

definition vm_ex :: vm where
  "vm_ex = \<lparr>
     supts = \<lambda>_. \<lparr>page_map = \<lparr>helem_cnt = 0, bucket_cnt = 0, buckets = NULL, hashf = \<lambda>_. 0, lessf = \<lambda>_ _. False\<rparr>, slinks = \<lambda>_. \<lparr>le_prev = NULL, le_next = NULL\<rparr>\<rparr>,
     sptes = \<lambda>_. \<lparr>upage = 0, kpage = 0, status = ALL_ZERO, dirty = False, swap_index = 0, sfile = NULL, file_offset = 0, read_bytes = 0, zero_bytes = 0, swritable = True\<rparr>,
     vallocs = \<lambda>n. [0xc0200000, 0xc0200100, 0xc0200200, NULL] ! (n mod 4), stack = 0xc0201800\<rparr>"

lemma vm_ex_table:
  "\<exists>s. supt_create vm_ex = Some (0xc0200000, s) \<and> supt_ok 0xc0200000 s \<and> pages 0xc0200000 s = Map.empty \<and>
     spte_fresh 0xc0200000 (vallocs s 0) (vallocs s 1) s"
proof -
  have v: "vallocs vm_ex 0 = 0xc0200000" "vallocs vm_ex 1 = 0xc0200100" "vallocs vm_ex 2 = 0xc0200200" "vallocs vm_ex 3 = NULL" "stack vm_ex = 0xc0201800"
    by (simp_all add: vm_ex_def)
  have n: "vallocs vm_ex 0 \<noteq> NULL" "block_ok (vallocs vm_ex 1) 4" unfolding v block_ok_def by simp_all
  obtain s where s: "supt_create vm_ex = Some (0xc0200000, s)" "supt_rep 0xc0200000 s (\<lambda>_. [])" "entries 0xc0200000 s (\<lambda>_. []) = {}"
    "buckets (page_map (supts s 0xc0200000)) = 0xc0200100" "bucket_cnt (page_map (supts s 0xc0200000)) = 4" "stack s = 0xc0201800"
    "vallocs s = (\<lambda>n. vallocs vm_ex (n + 2))" using supt_create_ok [OF n] unfolding v by blast
  have va: "vallocs s 0 = 0xc0200200" "vallocs s 1 = NULL" unfolding s(7) by (simp_all add: vm_ex_def)
  have "pages 0xc0200000 s = Map.empty" using pages_None [OF s(2)] s(3) by auto
  moreover have "spte_fresh 0xc0200000 (vallocs s 0) (vallocs s 1) s" unfolding va
  proof (rule empty_table_fresh [OF s(2,3)])
    fix i :: u32 assume "i < bucket_cnt (table 0xc0200000 s)"
    then have i: "i < 4" using s(5) by simp
    have b: "block_ok (0xc0200100 :: u32) 4" by (simp add: block_ok_def)
    have "unat i < 4" using i by (simp add: word_less_nat_alt)
    then have "unat (bucket_at 0xc0200100 i) < 0xc0200200" "unat (tail_of (bucket_at 0xc0200100 i)) < 0xc0200200"
      using unat_bucket(1,2) [OF b i] by simp_all
    then show "0xc0200200 \<noteq> bucket_at (buckets (table 0xc0200000 s)) i \<and> 0xc0200200 \<noteq> tail_of (bucket_at (buckets (table 0xc0200000 s)) i)"
      using s(4) by auto
  qed (simp_all add: s)
  ultimately show ?thesis using s by (auto simp: supt_ok_def)
qed

text \<open>A supplemental page table is a finite map from user pages to entries.  For an unused page the three install functions add an
  entry with the given data and return true; for a used one \<^verbatim>\<open>supt_install_frame\<close> returns false and leaves the map as it was, and
  \<^verbatim>\<open>supt_install_zeropage\<close> and \<^verbatim>\<open>supt_install_filesys\<close> panic.  \<^verbatim>\<open>supt_set_swap\<close> and \<^verbatim>\<open>supt_set_dirty\<close> change the
  entry of their page only; without an entry the first returns false and the second panics.  \<^verbatim>\<open>supt_has_entry\<close> tells whether the page is in the map.\<close>

theorem supt_refines:
  assumes ok: "supt_ok p s" and fr: "spte_fresh p (vallocs s 0) (vallocs s 1) s"
  shows "(\<exists>b s'. supt_install_frame p u k s = Some (b, s') \<and> supt_ok p s' \<and> b = (pages p s u = None) \<and>
           (if b then \<exists>x. pages p s' = (pages p s)(u \<mapsto> x) \<and> upage x = u \<and> kpage x = k \<and> status x = ON_FRAME \<and> \<not> dirty x \<and> swap_index x = - 1
            else pages p s' = pages p s)) \<and>
    (if pages p s u = None then \<exists>s' x. supt_install_zeropage p u s = Some (True, s') \<and> supt_ok p s' \<and>
          pages p s' = (pages p s)(u \<mapsto> x) \<and> upage x = u \<and> kpage x = NULL \<and> status x = ALL_ZERO \<and> \<not> dirty x
       else supt_install_zeropage p u s = None) \<and>
    (if pages p s u = None then \<exists>s' x. supt_install_filesys p u fl ofs rb zb w s = Some (True, s') \<and> supt_ok p s' \<and>
          pages p s' = (pages p s)(u \<mapsto> x) \<and> upage x = u \<and> kpage x = NULL \<and> status x = FROM_FILESYS \<and> \<not> dirty x \<and>
          sfile x = fl \<and> file_offset x = ofs \<and> read_bytes x = rb \<and> zero_bytes x = zb \<and> swritable x = w
       else supt_install_filesys p u fl ofs rb zb w s = None) \<and>
    (case pages p s u of
       Some x \<Rightarrow> (\<exists>s'. supt_set_swap p u i s = Some (True, s') \<and> supt_ok p s' \<and>
           pages p s' = (pages p s)(u \<mapsto> x\<lparr>status := ON_SWAP, kpage := NULL, swap_index := i\<rparr>)) \<and>
         (\<exists>s'. supt_set_dirty p u d s = Some (True, s') \<and> supt_ok p s' \<and> pages p s' = (pages p s)(u \<mapsto> x\<lparr>dirty := dirty x \<or> d\<rparr>))
     | None \<Rightarrow> supt_set_swap p u i s = Some (False, s) \<and> supt_set_dirty p u d s = None) \<and>
    supt_has_entry p u s = Some (pages p s u \<noteq> None)"
proof -
  have e: "vallocs s 0 \<noteq> NULL" using fr by (simp add: spte_fresh_def)
  have v: "vmalloc s = (vallocs s 0, snd (vmalloc s))" by (simp add: vmalloc_def)
  note ins = install_spec [OF ok fr, where u = u]
  let ?F = "\<lambda>x. x\<lparr>upage := u, kpage := k, status := ON_FRAME, dirty := False, swap_index := - 1\<rparr>"
  let ?Z = "\<lambda>x. x\<lparr>upage := u, kpage := NULL, status := ALL_ZERO, dirty := False\<rparr>"
  let ?D = "\<lambda>x. x\<lparr>upage := u, kpage := NULL, status := FROM_FILESYS, dirty := False,
               sfile := fl, file_offset := ofs, read_bytes := rb, zero_bytes := zb, swritable := w\<rparr>"
  have A: "\<exists>b s'. supt_install_frame p u k s = Some (b, s') \<and> supt_ok p s' \<and> b = (pages p s u = None) \<and>
      (if b then \<exists>x. pages p s' = (pages p s)(u \<mapsto> x) \<and> upage x = u \<and> kpage x = k \<and> status x = ON_FRAME \<and> \<not> dirty x \<and> swap_index x = - 1
       else pages p s' = pages p s)"
    using ins [of ?F] e by (subst supt_install_frame_def, subst v) (force simp: Let_def split: if_splits)
  have B: "if pages p s u = None then \<exists>s' x. supt_install_zeropage p u s = Some (True, s') \<and> supt_ok p s' \<and>
        pages p s' = (pages p s)(u \<mapsto> x) \<and> upage x = u \<and> kpage x = NULL \<and> status x = ALL_ZERO \<and> \<not> dirty x
      else supt_install_zeropage p u s = None"
    using ins [of ?Z] e by (subst (1 2) supt_install_zeropage_def, subst (1 2) v) (force simp: Let_def split: if_splits)
  have C: "if pages p s u = None then \<exists>s' x. supt_install_filesys p u fl ofs rb zb w s = Some (True, s') \<and> supt_ok p s' \<and>
          pages p s' = (pages p s)(u \<mapsto> x) \<and> upage x = u \<and> kpage x = NULL \<and> status x = FROM_FILESYS \<and> \<not> dirty x \<and>
          sfile x = fl \<and> file_offset x = ofs \<and> read_bytes x = rb \<and> zero_bytes x = zb \<and> swritable x = w
       else supt_install_filesys p u fl ofs rb zb w s = None"
    using ins [of ?D] e by (subst (1 2) supt_install_filesys_def, subst (1 2) v) (force simp: Let_def split: if_splits)
  have E: "supt_has_entry p u s = Some (pages p s u \<noteq> None)"
  proof (cases "pages p s u")
    case None then show ?thesis using pages_miss [OF ok None] by (simp add: supt_has_entry_def)
  next
    case (Some x)
    obtain e where "supt_lookup p u s = Some e" "e \<noteq> NULL" using supt_update_spec(1) [OF ok Some] by blast
    then show ?thesis using Some by (simp add: supt_has_entry_def)
  qed
  have D: "case pages p s u of
       Some x \<Rightarrow> (\<exists>s'. supt_set_swap p u i s = Some (True, s') \<and> supt_ok p s' \<and>
           pages p s' = (pages p s)(u \<mapsto> x\<lparr>status := ON_SWAP, kpage := NULL, swap_index := i\<rparr>)) \<and>
         (\<exists>s'. supt_set_dirty p u d s = Some (True, s') \<and> supt_ok p s' \<and> pages p s' = (pages p s)(u \<mapsto> x\<lparr>dirty := dirty x \<or> d\<rparr>))
     | None \<Rightarrow> supt_set_swap p u i s = Some (False, s) \<and> supt_set_dirty p u d s = None"
  proof (cases "pages p s u")
    case None then show ?thesis using pages_miss [OF ok None] by (simp add: supt_set_swap_def supt_set_dirty_def)
  next
    case (Some x) then show ?thesis using supt_update_spec [OF ok Some] by fastforce
  qed
  show ?thesis by (intro conjI A B C D E)
qed

theorem supt_refines_witness:
  "\<exists>s s' x. supt_create vm_ex = Some (0xc0200000, s) \<and> supt_install_zeropage 0xc0200000 0x8048000 s = Some (True, s') \<and>
     pages 0xc0200000 s' = [0x8048000 \<mapsto> x] \<and> status x = ALL_ZERO \<and> supt_has_entry 0xc0200000 0x8048000 s = Some False"
proof -
  obtain s where s: "supt_create vm_ex = Some (0xc0200000, s)" "supt_ok 0xc0200000 s" "pages 0xc0200000 s = Map.empty"
     "spte_fresh 0xc0200000 (vallocs s 0) (vallocs s 1) s" using vm_ex_table by blast
  show ?thesis using supt_refines [OF s(2,4), of "0x8048000" 0 0 0 0 0 True 0 True] s(1,3) by auto
qed

end
