(* ===== verification/Spec2Isabelle.thy ===== *)
theory Spec2Isabelle
  imports KList Fixed_Point Boot KBitmap Palloc Pagedir Arith64 Malloc Directory Ustar KRandom Swap Supt
begin

text \<open>
  Verification of the Pintos kernel in \<^verbatim>\<open>src/src\<close>: an instructional operating system for the
  32-bit x86, with the alarm clock, the priority scheduler and the feedback scheduler of this
  repository.

  \<^bold>\<open>The program and its model.\<close>  All intrusive containers of the kernel are built on the doubly linked
  list; the scheduler, the synchronization primitives and the timer share one set of queues; the page
  allocator is built on bitmaps; page directories live in pages of the page allocator; the hash table is
  an array of lists; the file system keeps directories in files, files in sectors and the free sectors in a
  bitmap that is itself a file.  The theories follow that structure.

  \<^item> \<open>Prelude\<close>: machine types, \<^verbatim>\<open>ASSERT\<close>, signed arithmetic of C, generic facts on lists, sorting
    and words.
  \<^item> \<open>KList\<close>: \<^verbatim>\<open>lib/kernel/list.c\<close>.  State: a heap from addresses to the links of an element.  One
    definition per function, one \<^theory_text>\<open>partial_function (option)\<close> per loop.  \<open>list_ok h l xs\<close> says that the
    list at \<open>l\<close> links exactly \<open>xs\<close>; every operation is shown to be the list operation it stands for,
    with a frame condition on all other links.
  \<^item> \<open>KHash\<close>: \<^verbatim>\<open>lib/kernel/hash.c\<close> over the same heap.  A table is its record and a system of disjoint
    lists, one per bucket; locale \<open>keyed_set\<close> is the interface to its clients, interpreted on the
    operations.
  \<^item> \<open>KBitmap\<close>: \<^verbatim>\<open>lib/kernel/bitmap.c\<close>, bit count and array of 32-bit elements; \<open>bm_abs\<close> reads it
    as a list of Booleans; locale \<open>slots\<close> is what an allocator relies on.
  \<^item> \<open>Block\<close>: \<^verbatim>\<open>devices/block.c\<close> and the sector access of \<^verbatim>\<open>devices/partition.c\<close>.  The media behind the
    disks are sectors by number.
  \<^item> \<open>Inode\<close>: reading and writing in \<^verbatim>\<open>filesys/inode.c\<close> and \<^verbatim>\<open>filesys/file.c\<close>; \<open>contents\<close> is the
    abstraction to a list of bytes, locale \<open>byte_store\<close> what the clients of a file rely on.
  \<^item> \<open>Freemap\<close>: \<^verbatim>\<open>filesys/free-map.c\<close> with the reading and writing of bitmaps in files, and the
    creation, opening and closing of inodes and files.
  \<^item> \<open>Directory\<close>: \<^verbatim>\<open>filesys/directory.c\<close> and \<^verbatim>\<open>filesys/filesys.c\<close>; \<open>bound\<close> is the abstraction of a
    directory to a map from names to sectors, locale \<open>name_table\<close> what adding a name promises.
  \<^item> \<open>KString\<close>: \<^verbatim>\<open>lib/string.c\<close> on the bytes of the memory; \<open>cstr m p xs\<close> is the string at an address.
  \<^item> \<open>KStdlib\<close>: \<^verbatim>\<open>lib/ctype.h\<close> and \<^verbatim>\<open>lib/stdlib.c\<close>: number parsing, heap sort and binary search on
    arrays in that memory; locale \<open>comparison\<close> is what sorting relies on.
  \<^item> \<open>Stdio\<close>: \<^verbatim>\<open>lib/stdio.c\<close> and the output side of \<^verbatim>\<open>lib/kernel/console.c\<close>; \<open>text_of\<close> is the text of
    a format made of pieces, without precisions and length modifiers; \<open>integer_out\<close> is that of an integer conversion.
  \<^item> \<open>Ustar\<close>: \<^verbatim>\<open>lib/ustar.c\<close>, headers of archives as 512 bytes of that memory; \<open>clean_name\<close> is the name
    without the prefixes that would lead out of a directory.
  \<^item> \<open>KRandom\<close>: \<^verbatim>\<open>lib/random.c\<close>, the state of the generator and the bytes it writes; \<open>rc4_stream\<close> is the stream
    of the RC4 cipher.
  \<^item> \<open>Arith64\<close>: \<^verbatim>\<open>lib/arithmetic.c\<close>, the division routines behind \<^verbatim>\<open>long long\<close>.
  \<^item> \<open>Fixed_Point\<close>: the 17.14 arithmetic of \<^verbatim>\<open>threads/thread.c\<close> and the three formulas of the feedback
    scheduler, with wrap-around.
  \<^item> \<open>Vaddr\<close>: \<^verbatim>\<open>threads/vaddr.h\<close>, \<^verbatim>\<open>threads/pte.h\<close> and the memory by address.
  \<^item> \<open>Palloc\<close>: \<^verbatim>\<open>threads/palloc.c\<close>, the two pools of pages.
  \<^item> \<open>Malloc\<close>: \<^verbatim>\<open>threads/malloc.c\<close>, arenas in pages of \<open>Palloc\<close> and free blocks in lists of \<open>KList\<close>.
    \<open>heap_state s F A\<close> says that exactly the blocks \<open>A\<close> are allocated and that the used pages of the kernel pool are the pages \<open>F\<close> of other
    users and the pages of these blocks; locale \<open>block_allocator\<close> is the interface to the clients.  The links of free blocks are
    in the heap of \<open>KList\<close>, apart from the words of the blocks.
  \<^item> \<open>Swap\<close>: \<^verbatim>\<open>vm/swap.c\<close>, slots of eight sectors on a device of \<open>Block\<close>, their use in a bitmap;
    \<open>swap_map\<close> is the abstraction to a map from slot numbers to pages.
  \<^item> \<open>Supt\<close>: the table operations of \<^verbatim>\<open>vm/page.c\<close> on a hash table of \<open>KHash\<close>; \<open>pages\<close> is the abstraction
    to a map from user pages to entries.
  \<^item> \<open>Pagedir\<close>: \<^verbatim>\<open>userprog/pagedir.c\<close>, two-level page tables in the memory of \<open>Palloc\<close>, the base
    register and the translation lookaside buffer; locale \<open>address_space\<close> states what mapping, looking up
    and clearing promise.
  \<^item> \<open>Thread\<close>: the scheduler of \<^verbatim>\<open>threads/thread.c\<close>, the interrupt level and the external interrupts of
    \<^verbatim>\<open>threads/interrupt.c\<close>, the ticks of \<^verbatim>\<open>devices/timer.c\<close>.  State: the record \<open>kernel\<close>, whose
    components are the static variables of the files, with the threads by address.
  \<^item> \<open>Synch\<close>: \<^verbatim>\<open>threads/synch.c\<close> on that record.
  \<^item> \<open>Kernel\<close>: creation of threads, the idle thread, and the kernel as a transition system whose steps
    are the pieces of kernel code between two points where threads may switch.
  \<^item> \<open>Boot\<close>: the calls of \<^verbatim>\<open>main\<close> in \<^verbatim>\<open>threads/init.c\<close> that start the threads, from a machine without threads to
    the running system.

  \<^bold>\<open>What is shown.\<close>  In every state that the transition system reaches from the start of the kernel, the run
  queue holds exactly the ready threads, ordered by priority, and a blocked thread waits in exactly one place, the idle thread apart; a yield outside interrupt handlers, a timer
  tick, a sleep, \<^verbatim>\<open>sema_up\<close> and \<^verbatim>\<open>thread_create\<close> do not panic in such states and do what they
  promise.  The page allocator hands out disjoint groups and giving one back undoes taking it.  Allocated blocks are disjoint and keep their contents, no page is
  lost when they are freed, and a request fails only when the pages for it are missing.  The swap area is a store of pages.  Page
  directories translate what was mapped, and the lookaside buffer stays coherent.  What is written to a
  file is read back and no other file changes; sectors are allocated and saved without overlap; a directory
  is a finite map from names to sectors, and creating a file binds its name.  The list, hash table, bitmap, string, sorting, formatting and arithmetic
  routines compute their specifications, and their loops end; a composed archive header is parsed back.

  \<^bold>\<open>Failures, loops, bounds.\<close>  A failed assertion, a panic, a null dereference and a loop that never ends
  are all \<open>None\<close>; every functional theorem states that the result is \<open>Some\<close>, so that it also states
  termination and the absence of panics.  Loops that are bounded by a count are recursive on that count;
  no fuel is chosen by hand.  Addresses, sizes and bit indexes are 32-bit words and wrap; where a theorem
  excludes wrap-around, the bound is a hypothesis.  Priorities and ticks are \<open>int\<close>, with the
  wrap-around of the C types written out where the code can reach it.

  \<^bold>\<open>Interleaving.\<close>  A thread that is switched out keeps the list of its return points; the timer may
  interrupt between any two pieces of code that run with interrupts on.  Code that runs with interrupts off,
  or under the lock that protects its state, is one step.

  \<^bold>\<open>Not modelled.\<close>  Device drivers (\<^verbatim>\<open>devices/ide.c\<close>, \<^verbatim>\<open>kbd.c\<close>, \<^verbatim>\<open>serial.c\<close>, \<^verbatim>\<open>vga.c\<close>,
  \<^verbatim>\<open>rtc.c\<close>, \<^verbatim>\<open>pit.c\<close>, \<^verbatim>\<open>speaker.c\<close>, \<^verbatim>\<open>shutdown.c\<close>) only access ports; the assembly
  files, the descriptor tables (\<^verbatim>\<open>gdt.c\<close>, \<^verbatim>\<open>tss.c\<close>) and the rest of \<^verbatim>\<open>init.c\<close> set up the machine; console
  and statistics output only print.  The user processes
  (\<^verbatim>\<open>process.c\<close>, \<^verbatim>\<open>syscall.c\<close>, \<^verbatim>\<open>exception.c\<close>) and the frame table of \<^verbatim>\<open>vm/frame.c\<close>, with the loading of
  pages in \<^verbatim>\<open>vm/page.c\<close>, are not covered.  The list of the children of a thread holds the threads by address; that its links lie in the pages of the children, which may have
  been given away, is not represented.  \<^verbatim>\<open>src/20171705\<close> is an older copy of the tree.
\<close>

end
